(* ===== verification/Prelude.thy ===== *)
theory Prelude
  imports Main "HOL-Library.Word" "HOL-Library.Monad_Syntax"
begin

text \<open>
  What the component theories share: the machine types of the C code, the abort monad
  (\<open>option\<close>, with \<open>None\<close> for a failed \<open>assert\<close>, an access outside a buffer, a read of
  memory nobody wrote, a dereference of \<open>NULL\<close>, or a loop that does not end), the interfaces
  the components are proved against (a FIFO queue, a self-delimiting codec, a state machine)
  and generic lemmas on lists, options and words.
\<close>

unbundle bit_operations_syntax

type_synonym u8 = "8 word"
type_synonym u16 = "16 word"
type_synonym u32 = "32 word"
type_synonym u64 = "64 word"
type_synonym bytes = "u8 list"

named_theorems res_simps \<open>unfolding rules of the abort monad\<close>

section \<open>The abort monad\<close>

definition cassert :: "bool \<Rightarrow> unit option" where
  "cassert b = (if b then Some () else None)"

definition rd :: "'a option list \<Rightarrow> nat \<Rightarrow> 'a option" where
  "rd xs i = (if i < length xs then xs ! i else None)"

definition wr :: "'a option list \<Rightarrow> nat \<Rightarrow> 'a \<Rightarrow> 'a option list option" where
  "wr xs i x = (if i < length xs then Some (xs[i := Some x]) else None)"

lemma cassert_bind [simp, res_simps]: "(cassert b \<bind> f) = (if b then f () else None)"
  by (simp add: cassert_def)

lemma cassert_eq_Some [simp]: "cassert b = Some u \<longleftrightarrow> b"
  by (simp add: cassert_def)

lemma bind_eq_Some_conv: "(m \<bind> f) = Some y \<longleftrightarrow> (\<exists>x. m = Some x \<and> f x = Some y)"
  by (cases m) auto

lemma rd_in [simp]: "i < length xs \<Longrightarrow> rd xs i = xs ! i"
  by (simp add: rd_def)

lemma wr_in [simp]: "i < length xs \<Longrightarrow> wr xs i x = Some (xs[i := Some x])"
  by (simp add: wr_def)

lemma rd_Some: "rd xs i = Some x \<Longrightarrow> i < length xs"
  by (simp add: rd_def split: if_splits)

lemma u32_less: "unat (w :: u32) < 2 ^ 32"
  using unsigned_less [where ?'a = nat, of w] by simp

lemma sint_pos_unat: "0 < sint (w :: u32) \<Longrightarrow> 0 < unat w \<and> unat w < 2 ^ 31"
proof -
  assume p: "0 < sint w"
  then have "\<not> signed_take_bit 31 (uint w) < 0"
    unfolding sint_uint by (simp del: signed_take_bit_negative_iff)
  then have "\<not> bit (uint w) 31" by simp
  then have "\<not> bit (unat w) 31" by (simp add: bit_unsigned_iff)
  then have "even (unat w div 2 ^ 31)" by (simp only: bit_iff_odd not_not)
  moreover have "unat w div 2 ^ 31 < 2" using u32_less [of w] by (simp add: div_less_iff_less_mult)
  ultimately have "unat w div 2 ^ 31 = 0" by (metis less_2_cases odd_one One_nat_def)
  moreover have "w \<noteq> 0" using p by auto
  ultimately show ?thesis by (simp add: div_eq_0_iff unat_gt_0)
qed

lemma unat_Suc_pred:
  assumes "w \<noteq> 0"
  shows "unat w = Suc (unat (w - 1))"
proof -
  have "0 < unat w" using assms by (simp add: unat_gt_0)
  then show ?thesis unfolding unat_minus_one [OF assms] by simp
qed

lemma option_eqI: "(\<And>c. x = Some c \<longleftrightarrow> y = Some c) \<Longrightarrow> x = y"
  by (cases x; cases y) auto

lemma mem_update_Some:
  assumes "i < length xs" "xs ! i = None"
  shows "Some d \<in> set (xs[i := Some c]) \<longleftrightarrow> d = c \<or> Some d \<in> set xs"
proof -
  have "(\<exists>j < length xs. xs[i := Some c] ! j = Some d) \<longleftrightarrow> d = c \<or> (\<exists>j < length xs. xs ! j = Some d)"
    using assms by (metis nth_list_update nth_list_update_neq option.distinct(1) option.inject)
  then show ?thesis by (simp add: in_set_conv_nth)
qed

lemma mem_update_None:
  assumes "i < length xs" "xs ! i = Some c" "\<And>j. j < length xs \<Longrightarrow> xs ! j = Some c \<Longrightarrow> j = i"
  shows "Some d \<in> set (xs[i := None]) \<longleftrightarrow> d \<noteq> c \<and> Some d \<in> set xs"
proof -
  have "(\<exists>j < length xs. xs[i := None] ! j = Some d) \<longleftrightarrow> d \<noteq> c \<and> (\<exists>j < length xs. xs ! j = Some d)"
    using assms by (metis nth_list_update nth_list_update_neq option.distinct(1) option.inject)
  then show ?thesis by (simp add: in_set_conv_nth)
qed

section \<open>Ring buffers\<close>

text \<open>
  The message queue and the packet queue are arrays used as rings: the \<open>n\<close> cells from index
  \<open>h\<close> on, modulo the capacity. \<open>ring_next\<close> is the wrapping increment both write out, and
  \<open>ring_len\<close> the number of cells in use.
\<close>

definition ring :: "'a list \<Rightarrow> nat \<Rightarrow> nat \<Rightarrow> nat \<Rightarrow> 'a list" where
  "ring cells c h n = map (\<lambda>i. cells ! ((h + i) mod c)) [0..<n]"

definition ring_next :: "nat \<Rightarrow> nat \<Rightarrow> nat" where
  "ring_next c i = (if i + 1 \<ge> c then 0 else i + 1)"

definition ring_len :: "nat \<Rightarrow> nat \<Rightarrow> nat \<Rightarrow> nat" where
  "ring_len c h t = (if h \<le> t then t - h else t + c - h)"

lemma mod_add_if: "h < c \<Longrightarrow> i < c \<Longrightarrow> (h + i) mod c = (if h + i < c then h + i else h + i - c)"
  for h i c :: nat
  by (simp add: le_mod_geq)

lemma length_ring [simp]: "length (ring cells c h n) = n"
  by (simp add: ring_def)

lemma ring_0 [simp]: "ring cells c h 0 = []"
  by (simp add: ring_def)

lemma ring_next_mod: "h < c \<Longrightarrow> ring_next c h = Suc h mod c"
  by (auto simp: ring_next_def mod_Suc)

lemma ring_next_less [simp]: "0 < c \<Longrightarrow> ring_next c h < c"
  by (simp add: ring_next_def)

lemma ring_len_next_tail:
  "h < c \<Longrightarrow> t < c \<Longrightarrow> ring_next c t \<noteq> h \<Longrightarrow> ring_len c h (ring_next c t) = Suc (ring_len c h t)"
  by (auto simp: ring_len_def ring_next_def split: if_splits)

lemma ring_len_full:
  "h < c \<Longrightarrow> t < c \<Longrightarrow> ring_next c t = h \<Longrightarrow> Suc (ring_len c h t) = c"
  by (auto simp: ring_len_def ring_next_def split: if_splits)

lemma ring_len_next_head:
  "h < c \<Longrightarrow> t < c \<Longrightarrow> h \<noteq> t \<Longrightarrow> ring_len c h t = Suc (ring_len c (ring_next c h) t)"
  by (auto simp: ring_len_def ring_next_def split: if_splits)

lemma ring_len_less: "h < c \<Longrightarrow> t < c \<Longrightarrow> ring_len c h t < c"
  by (auto simp: ring_len_def)

lemma ring_len_0: "h < c \<Longrightarrow> t < c \<Longrightarrow> ring_len c h t = 0 \<longleftrightarrow> h = t"
  by (auto simp: ring_len_def)

lemma ring_len_tail: "h < c \<Longrightarrow> t < c \<Longrightarrow> (h + ring_len c h t) mod c = t"
  by (auto simp: ring_len_def mod_add_if)

lemma ring_Cons:
  assumes "h < c"
  shows "ring cells c h (Suc n) = cells ! h # ring cells c (ring_next c h) n"
proof -
  have "(Suc h mod c + i) mod c = (h + Suc i) mod c" for i
    by (simp add: mod_add_left_eq)
  then show ?thesis
    using assms unfolding ring_def ring_next_mod [OF assms]
    by (simp add: upt_conv_Cons map_Suc_upt [symmetric] del: upt_Suc)
qed

lemma ring_snoc: "ring cells c h (Suc n) = ring cells c h n @ [cells ! ((h + n) mod c)]"
  by (simp add: ring_def)

lemma ring_update_other:
  assumes "h < c" "n < c" "k = (h + n) mod c"
  shows "ring (cells[k := x]) c h n = ring cells c h n"
proof -
  have "k \<noteq> (h + i) mod c" if "i < n" for i
    using that assms mod_add_if [of h c i] mod_add_if [of h c n] by (auto split: if_splits)
  then show ?thesis by (simp add: ring_def)
qed

lemma ring_store:
  assumes "h < c" "t < c" "length cells = c"
  shows "ring (cells[t := x]) c h (Suc (ring_len c h t)) = ring cells c h (ring_len c h t) @ [x]"
  using assms ring_len_tail [OF assms(1,2)] ring_len_less [OF assms(1,2)]
  by (simp add: ring_snoc ring_update_other)

lemma ring_front: "n \<le> length xs \<Longrightarrow> n < c \<or> n = c \<Longrightarrow> ring (xs @ ys) c 0 n = take n xs"
  by (rule nth_equalityI) (auto simp: ring_def nth_append)

section \<open>Interface: a FIFO queue\<close>

text \<open>
  \<open>enq\<close> may not fail and \<open>deq\<close> reports emptiness. The client lemma says that any sequence
  of operations returns what the same sequence returns on a list.
\<close>

datatype 'a qop = Enq 'a | Deq

fun spec_run :: "'a list \<Rightarrow> 'a qop list \<Rightarrow> 'a list \<times> 'a option list" where
  "spec_run xs [] = (xs, [])"
| "spec_run xs (Enq x # os) = spec_run (xs @ [x]) os"
| "spec_run [] (Deq # os) = (let (xs', rs) = spec_run [] os in (xs', None # rs))"
| "spec_run (x # xs) (Deq # os) = (let (xs', rs) = spec_run xs os in (xs', Some x # rs))"

fun impl_run :: "('a \<Rightarrow> 'q \<Rightarrow> 'q option) \<Rightarrow> ('q \<Rightarrow> ('q \<times> 'a option) option) \<Rightarrow> 'q \<Rightarrow> 'a qop list
    \<Rightarrow> ('q \<times> 'a option list) option" where
  "impl_run enq deq q [] = Some (q, [])"
| "impl_run enq deq q (Enq x # os) = do { q' \<leftarrow> enq x q; impl_run enq deq q' os }"
| "impl_run enq deq q (Deq # os) = do {
     (q', r) \<leftarrow> deq q;
     (q'', rs) \<leftarrow> impl_run enq deq q' os;
     Some (q'', r # rs) }"

locale fifo =
  fixes inv :: "'q \<Rightarrow> bool"
    and abs :: "'q \<Rightarrow> 'a list"
    and enq :: "'a \<Rightarrow> 'q \<Rightarrow> 'q option"
    and deq :: "'q \<Rightarrow> ('q \<times> 'a option) option"
  assumes enq_law: "inv q \<Longrightarrow> \<exists>q'. enq x q = Some q' \<and> inv q' \<and> abs q' = abs q @ [x]"
    and deq_empty: "inv q \<Longrightarrow> abs q = [] \<Longrightarrow> \<exists>q'. deq q = Some (q', None) \<and> inv q' \<and> abs q' = []"
    and deq_cons: "inv q \<Longrightarrow> abs q = x # xs \<Longrightarrow>
      \<exists>q'. deq q = Some (q', Some x) \<and> inv q' \<and> abs q' = xs"
begin

lemma run_refines:
  assumes "inv q"
  shows "\<exists>q'. impl_run enq deq q os = Some (q', snd (spec_run (abs q) os)) \<and> inv q'
           \<and> abs q' = fst (spec_run (abs q) os)"
  using assms
proof (induction os arbitrary: q)
  case Nil
  then show ?case by simp
next
  case (Cons op os)
  show ?case
  proof (cases op)
    case (Enq x)
    from enq_law [OF Cons.prems] obtain q' where
      "enq x q = Some q'" "inv q'" "abs q' = abs q @ [x]" by blast
    with Cons.IH [of q'] Enq show ?thesis by simp
  next
    case Deq
    show ?thesis
    proof (cases "abs q")
      case Nil
      from deq_empty [OF Cons.prems Nil] obtain q' where
        "deq q = Some (q', None)" "inv q'" "abs q' = []" by blast
      with Cons.IH [of q'] Deq Nil show ?thesis
        by (auto simp: case_prod_beta)
    next
      case (Cons x xs)
      from deq_cons [OF Cons.prems Cons] obtain q' where
        "deq q = Some (q', Some x)" "inv q'" "abs q' = xs" by blast
      with Cons.IH [of q'] Deq Cons show ?thesis
        by (auto simp: case_prod_beta)
    qed
  qed
qed

end

section \<open>Interface: a self-delimiting codec\<close>

fun dec_many :: "('b list \<Rightarrow> ('a \<times> 'b list) option) \<Rightarrow> nat \<Rightarrow> 'b list \<Rightarrow> ('a list \<times> 'b list) option" where
  "dec_many dec 0 bs = Some ([], bs)"
| "dec_many dec (Suc n) bs = do {
     (x, bs') \<leftarrow> dec bs;
     (xs, bs'') \<leftarrow> dec_many dec n bs';
     Some (x # xs, bs'') }"

locale codec =
  fixes ok :: "'a \<Rightarrow> bool"
    and enc :: "'a \<Rightarrow> 'b list"
    and dec :: "'b list \<Rightarrow> ('a \<times> 'b list) option"
  assumes dec_enc: "ok x \<Longrightarrow> dec (enc x @ r) = Some (x, r)"
begin

lemma dec_enc_nil: "ok x \<Longrightarrow> dec (enc x) = Some (x, [])"
  using dec_enc [of x "[]"] by simp

lemma enc_prefix_free: "ok x \<Longrightarrow> ok y \<Longrightarrow> enc x @ r = enc y @ s \<Longrightarrow> x = y \<and> r = s"
  by (metis dec_enc option.inject prod.inject)

lemma enc_inj: "ok x \<Longrightarrow> ok y \<Longrightarrow> enc x = enc y \<Longrightarrow> x = y"
  using enc_prefix_free [of x y "[]" "[]"] by simp

lemma dec_many_enc:
  "(\<And>x. x \<in> set xs \<Longrightarrow> ok x) \<Longrightarrow> dec_many dec (length xs) (concat (map enc xs) @ r) = Some (xs, r)"
  by (induction xs) (auto simp: dec_enc)

end

section \<open>Interface: a state machine with an invariant\<close>

inductive reach :: "('s \<Rightarrow> bool) \<Rightarrow> ('s \<Rightarrow> 's \<Rightarrow> bool) \<Rightarrow> 's \<Rightarrow> bool" for init step where
  reach_init: "init s \<Longrightarrow> reach init step s"
| reach_step: "reach init step s \<Longrightarrow> step s t \<Longrightarrow> reach init step t"

locale machine =
  fixes init :: "'s \<Rightarrow> bool"
    and step :: "'s \<Rightarrow> 's \<Rightarrow> bool"
    and inv :: "'s \<Rightarrow> bool"
  assumes init_inv: "init s \<Longrightarrow> inv s"
    and step_inv: "step s t \<Longrightarrow> inv s \<Longrightarrow> inv t"
begin

lemma reach_inv: "reach init step s \<Longrightarrow> inv s"
  by (induction rule: reach.induct) (auto intro: init_inv step_inv)

lemma star_inv: "step\<^sup>*\<^sup>* s t \<Longrightarrow> inv s \<Longrightarrow> inv t"
  by (induction rule: rtranclp_induct) (auto intro: step_inv)

end

section \<open>Interface: keys held in numbered slots\<close>

text \<open>
  A table that gives each key a slot: the caller keeps an array of rows indexed by the slots.
  The law of the client: rows and table together are a finite map from keys to rows.
\<close>

definition lget :: "'a list \<Rightarrow> nat \<Rightarrow> 'a option" where
  "lget xs i = (if i < length xs then Some (xs ! i) else None)"

lemma lget_simps [simp]: "i < length xs \<Longrightarrow> lget xs i = Some (xs ! i)"
  by (simp add: lget_def)

locale slot_table =
  fixes ok :: "'s \<Rightarrow> bool"
    and look :: "'s \<Rightarrow> 'k \<Rightarrow> nat option"
    and room :: "'s \<Rightarrow> bool"
    and key_ok :: "'k \<Rightarrow> bool"
    and slots :: "'s \<Rightarrow> nat"
    and add :: "'k \<Rightarrow> 's \<Rightarrow> (nat \<times> 's) option"
    and del :: "'k \<Rightarrow> 's \<Rightarrow> (nat option \<times> 's) option"
  assumes look_less: "ok s \<Longrightarrow> look s k = Some i \<Longrightarrow> i < slots s"
    and look_inj: "ok s \<Longrightarrow> look s k = Some i \<Longrightarrow> look s k' = Some i \<Longrightarrow> k = k'"
    and add_ok: "ok s \<Longrightarrow> key_ok k \<Longrightarrow> look s k = None \<Longrightarrow> room s \<Longrightarrow>
      \<exists>i s'. add k s = Some (i, s') \<and> ok s' \<and> slots s' = slots s
        \<and> (\<forall>k'. look s' k' = (if k' = k then Some i else look s k'))"
    and del_ok: "ok s \<Longrightarrow> \<exists>s'. del k s = Some (look s k, s') \<and> ok s' \<and> slots s' = slots s
        \<and> (\<forall>k'. look s' k' = (if k' = k then None else look s k'))"
begin

definition rows :: "'s \<Rightarrow> 'r list \<Rightarrow> 'k \<Rightarrow> 'r option" where
  "rows s xs k = map_option (\<lambda>i. xs ! i) (look s k)"

lemma rows_update:
  assumes "ok s" "length xs = slots s" "look s k = Some i"
  shows "rows s (xs[i := r]) = (rows s xs)(k \<mapsto> r)"
proof
  fix k'
  have "i < length xs" using look_less assms by auto
  then show "rows s (xs[i := r]) k' = ((rows s xs)(k \<mapsto> r)) k'"
    using assms(3) look_inj [OF assms(1,3), of k'] unfolding rows_def
    by (cases "look s k'") (auto simp: nth_list_update)
qed

lemma rows_add:
  assumes "ok s" "length xs = slots s" "key_ok k" "look s k = None" "room s"
  shows "\<exists>i s'. add k s = Some (i, s') \<and> ok s' \<and> slots s' = slots s \<and> i < slots s
    \<and> look s' k = Some i \<and> rows s' (xs[i := r]) = (rows s xs)(k \<mapsto> r)"
proof -
  obtain i s' where s': "add k s = Some (i, s')" "ok s'" "slots s' = slots s"
    "\<forall>k'. look s' k' = (if k' = k then Some i else look s k')"
    using add_ok [OF assms(1,3,4,5)] by blast
  have l: "look s' k = Some i" using s'(4) by simp
  have "rows s' (xs[i := r]) = (rows s' xs)(k \<mapsto> r)"
    by (rule rows_update [OF s'(2) _ l]) (use assms(2) s'(3) in simp)
  moreover have "(rows s' xs)(k \<mapsto> r) = (rows s xs)(k \<mapsto> r)"
    using s'(4) by (auto simp: rows_def)
  ultimately show ?thesis using s' l look_less [OF s'(2) l] by auto
qed

lemma rows_del:
  assumes "ok s"
  shows "\<exists>s'. del k s = Some (look s k, s') \<and> ok s' \<and> slots s' = slots s \<and> rows s' xs = (rows s xs)(k := None)"
proof -
  obtain s' where "del k s = Some (look s k, s')" "ok s'" "slots s' = slots s"
    "\<forall>k'. look s' k' = (if k' = k then None else look s k')"
    using del_ok [OF assms] by blast
  then show ?thesis by (auto simp: rows_def)
qed

text \<open>Overwriting the row of a deleted key changes nothing for the others.\<close>

lemma rows_clear:
  assumes "ok s" "look s k = Some i" "\<forall>k'. look s' k' = (if k' = k then None else look s k')" "length xs = slots s"
  shows "rows s' (xs[i := r]) = (rows s xs)(k := None)"
proof
  fix k'
  show "rows s' (xs[i := r]) k' = ((rows s xs)(k := None)) k'"
    using assms(3) look_inj [OF assms(1,2), of k'] unfolding rows_def
    by (cases "look s k'") (auto, metis nth_list_update_neq)
qed

end

end
