(* ===== verification/CString.thy ===== *)
theory CString
  imports Prelude
begin

text \<open>
  What the program uses of the C string library, on lists of bytes: strings in a memory block,
  \<open>strtol\<close> and \<open>strtoul\<close>, and the decimal and hexadecimal conversions of \<open>printf\<close>. A long is 64
  bits; a value out of its range is clamped, as the standard says.
\<close>

definition cstr :: "bytes \<Rightarrow> bytes" where
  "cstr bs = takeWhile (\<lambda>b. b \<noteq> 0) bs"

definition isspace :: "u8 \<Rightarrow> bool" where
  "isspace b \<longleftrightarrow> b = 32 \<or> 9 \<le> b \<and> b \<le> 13"

definition digit_val :: "u8 \<Rightarrow> nat option" where
  "digit_val b =
     (if 48 \<le> b \<and> b \<le> 57 then Some (unat b - 48)
      else if 97 \<le> b \<and> b \<le> 102 then Some (unat b - 87)
      else if 65 \<le> b \<and> b \<le> 70 then Some (unat b - 55) else None)"

fun digits_val :: "nat \<Rightarrow> nat \<Rightarrow> bytes \<Rightarrow> nat" where
  "digits_val base acc [] = acc"
| "digits_val base acc (b # bs) =
     (case digit_val b of
        None \<Rightarrow> acc
      | Some d \<Rightarrow> if d < base then digits_val base (acc * base + d) bs else acc)"

fun skip_0x :: "bytes \<Rightarrow> bytes" where
  "skip_0x (a # b # bs) = (if a = 48 \<and> (b = 120 \<or> b = 88) then bs else a # b # bs)"
| "skip_0x bs = bs"

definition parse_long :: "nat \<Rightarrow> bytes \<Rightarrow> int" where
  "parse_long base s =
     (let s = dropWhile isspace s;
          (neg, s) = (case s of b # r \<Rightarrow> if b = 45 then (True, r) else if b = 43 then (False, r) else (False, s) | [] \<Rightarrow> (False, s));
          v = int (digits_val base 0 (if base = 16 then skip_0x s else s))
      in if neg then - v else v)"

definition strtol :: "nat \<Rightarrow> bytes \<Rightarrow> int" where
  "strtol base s = max (- (2 ^ 63)) (min (2 ^ 63 - 1) (parse_long base s))"

definition strtoul :: "nat \<Rightarrow> bytes \<Rightarrow> u64" where
  "strtoul base s = (let v = parse_long base s in if 2 ^ 64 \<le> \<bar>v\<bar> then - 1 else of_int v)"

text \<open>Conversion of a long to a 32-bit int.\<close>

definition to_int :: "int \<Rightarrow> int" where
  "to_int v = signed_take_bit 31 v"

function show_nat :: "nat \<Rightarrow> bytes" where
  "show_nat n = (if n < 10 then [of_nat (48 + n)] else show_nat (n div 10) @ [of_nat (48 + n mod 10)])"
  by pat_completeness auto
termination by (relation "measure id") auto

declare show_nat.simps [simp del]

definition show_int :: "int \<Rightarrow> bytes" where
  "show_int i = (if i < 0 then 45 # show_nat (nat (- i)) else show_nat (nat i))"

definition hex_digit :: "nat \<Rightarrow> u8" where
  "hex_digit d = (if d < 10 then of_nat (48 + d) else of_nat (87 + d))"

text \<open>\<open>%08x\<close>.\<close>

definition show_hex8 :: "u32 \<Rightarrow> bytes" where
  "show_hex8 h = map (\<lambda>i. hex_digit (unat (drop_bit (28 - 4 * i) h AND 15))) [0..<8]"

text \<open>\<open>%x\<close>; string literals; one \<open>%s\<close> of \<open>sscanf\<close>; \<open>strtol\<close> with base 0.\<close>

function show_hex_nat :: "nat \<Rightarrow> bytes" where
  "show_hex_nat n = (if n < 16 then [hex_digit n] else show_hex_nat (n div 16) @ [hex_digit (n mod 16)])"
  by pat_completeness auto
termination by (relation "measure id") auto

declare show_hex_nat.simps [simp del]

definition show_hex :: "u32 \<Rightarrow> bytes" where
  "show_hex h = show_hex_nat (unat h)"

definition str :: "string \<Rightarrow> bytes" where
  "str s = map of_char s"

definition scan_word :: "bytes \<Rightarrow> (bytes \<times> bytes) option" where
  "scan_word s = (let s = dropWhile isspace s; w = takeWhile (\<lambda>b. \<not> isspace b) s in
     if w = [] then None else Some (w, drop (length w) s))"

definition strtol0 :: "bytes \<Rightarrow> int" where
  "strtol0 s =
     (let t = dropWhile isspace s;
          t = (case t of b # r \<Rightarrow> if b = 45 \<or> b = 43 then r else t | [] \<Rightarrow> []) in
      strtol (case t of
          a # b # _ \<Rightarrow> if a = 48 then if b = 120 \<or> b = 88 then 16 else 8 else 10
        | _ \<Rightarrow> 10) s)"

section \<open>Round trips\<close>

lemma digit_val_digit: "d < 10 \<Longrightarrow> digit_val (of_nat (48 + d)) = Some d"
proof -
  assume "d < 10"
  then have "d = 0 \<or> d = 1 \<or> d = 2 \<or> d = 3 \<or> d = 4 \<or> d = 5 \<or> d = 6 \<or> d = 7 \<or> d = 8 \<or> d = 9" by presburger
  then show ?thesis by (elim disjE) (simp_all add: digit_val_def)
qed

lemma digits_val_show: "digits_val 10 acc (show_nat n @ bs) =
    digits_val 10 (acc * 10 ^ length (show_nat n) + n) bs"
proof (induction n arbitrary: acc bs rule: show_nat.induct)
  case (1 n)
  show ?case
  proof (cases "n < 10")
    case True
    then show ?thesis using digit_val_digit [of n] by (simp add: show_nat.simps [of n])
  next
    case False
    have "digits_val 10 acc (show_nat n @ bs) = digits_val 10 acc (show_nat (n div 10) @ of_nat (48 + n mod 10) # bs)"
      using False by (simp add: show_nat.simps [of n])
    also have "\<dots> = digits_val 10 (acc * 10 ^ length (show_nat (n div 10)) + n div 10) (of_nat (48 + n mod 10) # bs)"
      using 1 False by blast
    also have "\<dots> = digits_val 10 ((acc * 10 ^ length (show_nat (n div 10)) + n div 10) * 10 + n mod 10) bs"
      using digit_val_digit [of "n mod 10"] by (simp del: of_nat_add)
    also have "(acc * 10 ^ length (show_nat (n div 10)) + n div 10) * 10 + n mod 10 = acc * 10 ^ length (show_nat n) + n"
      using False by (simp add: show_nat.simps [of n] algebra_simps)
    finally show ?thesis .
  qed
qed

lemma digit_chars: "d < 10 \<Longrightarrow> 48 \<le> (of_nat (48 + d) :: u8) \<and> (of_nat (48 + d) :: u8) \<le> 57"
proof -
  assume "d < 10"
  then have "d = 0 \<or> d = 1 \<or> d = 2 \<or> d = 3 \<or> d = 4 \<or> d = 5 \<or> d = 6 \<or> d = 7 \<or> d = 8 \<or> d = 9" by presburger
  then show ?thesis by (elim disjE) simp_all
qed

lemma show_nat_chars: "b \<in> set (show_nat n) \<Longrightarrow> 48 \<le> b \<and> b \<le> 57"
proof (induction n rule: show_nat.induct)
  case (1 n)
  then show ?case using digit_chars [of n] digit_chars [of "n mod 10"]
    by (subst (asm) (2) show_nat.simps) (auto split: if_splits)
qed

lemma show_nat_nonempty [simp]: "show_nat n \<noteq> []"
  by (subst show_nat.simps) simp

lemma parse_show_int:
  assumes "case rest of [] \<Rightarrow> True | b # _ \<Rightarrow> digit_val b = None"
  shows "parse_long 10 (show_int i @ rest) = i"
proof -
  have stop: "digits_val 10 v rest = v" for v using assms by (cases rest) auto
  have hd: "48 \<le> hd (show_nat n) \<and> hd (show_nat n) \<le> 57" for n using show_nat_chars [of "hd (show_nat n)" n] by simp
  have val: "digits_val 10 0 (show_nat n @ rest) = n" for n using digits_val_show [of 0 n rest] stop by simp
  show ?thesis
  proof (cases "i < 0")
    case True
    then show ?thesis using val [of "nat (- i)"] by (simp add: show_int_def parse_long_def isspace_def)
  next
    case False
    obtain b bs where b: "show_nat (nat i) = b # bs" by (cases "show_nat (nat i)") auto
    have r: "48 \<le> b" "b \<le> 57" using hd [of "nat i"] b by auto
    have ns: "\<not> isspace b" "b \<noteq> 45" "b \<noteq> 43"
      using r unfolding isspace_def word_le_nat_alt by auto
    then show ?thesis using val [of "nat i"] False b by (simp add: show_int_def parse_long_def)
  qed
qed

end
