(* ===== verification/Handle.thy ===== *)
theory Handle
  imports Prelude
begin

text \<open>
  \<open>skynet/skynet-src/skynet_handle.c\<close>: the table from handles to service contexts (an
  open-addressed array indexed by the low bits of the handle, doubled when it is full) and
  the sorted array of service names. Contexts are addresses; \<open>ch\<close> is the \<open>handle\<close> field of the
  context at an address, which the table reads through \<open>skynet_context_handle\<close>. Each
  operation runs under the table's readers-writer lock (theory \<open>RwLock\<close>). Names are C strings
  without their terminating zero.
\<close>

section \<open>State\<close>

record handle_storage =
  hs_harbor :: u32
  hs_handle_index :: u32
  hs_slot_size :: nat
  hs_slot :: "nat option list"
  hs_name_cap :: nat
  hs_name_count :: nat
  hs_name :: "(u8 list \<times> u32) option list"

definition HANDLE_MASK :: u32 where "HANDLE_MASK = 0xffffff"
definition HANDLE_REMOTE_SHIFT :: nat where "HANDLE_REMOTE_SHIFT = 24"
definition DEFAULT_SLOT_SIZE :: nat where "DEFAULT_SLOT_SIZE = 4"
definition MAX_SLOT_SIZE :: nat where "MAX_SLOT_SIZE = 0x40000000"

definition skynet_handle_init :: "u32 \<Rightarrow> handle_storage" where
  "skynet_handle_init harbor =
     \<lparr> hs_harbor = push_bit HANDLE_REMOTE_SHIFT (harbor AND 0xff), hs_handle_index = 1,
       hs_slot_size = DEFAULT_SLOT_SIZE, hs_slot = replicate DEFAULT_SLOT_SIZE None,
       hs_name_cap = 2, hs_name_count = 0, hs_name = replicate 2 None \<rparr>"

section \<open>Handles\<close>

definition slot_hash :: "u32 \<Rightarrow> nat \<Rightarrow> nat" where
  "slot_hash handle sz = unat (handle AND (of_nat sz - 1))"

text \<open>The inner loop of \<open>skynet_handle_register\<close>: \<open>n\<close> probes from \<open>handle\<close> on.\<close>

fun probe :: "handle_storage \<Rightarrow> u32 \<Rightarrow> nat \<Rightarrow> u32 option" where
  "probe s handle 0 = None"
| "probe s handle (Suc n) =
     (let handle = (if handle > HANDLE_MASK then 1 else handle) in
      if hs_slot s ! slot_hash handle (hs_slot_size s) = None then Some handle
      else probe s (handle + 1) n)"

text \<open>The copy into the array of twice the size.\<close>

fun rehash :: "(nat \<Rightarrow> u32) \<Rightarrow> nat \<Rightarrow> nat option list \<Rightarrow> nat option list \<Rightarrow> nat option list option" where
  "rehash ch sz [] new = Some new"
| "rehash ch sz (None # xs) new = rehash ch sz xs new"
| "rehash ch sz (Some c # xs) new =
     (let hash = slot_hash (ch c) sz in
      if new ! hash = None then rehash ch sz xs (new[hash := Some c]) else None)"

partial_function (option) skynet_handle_register ::
    "(nat \<Rightarrow> u32) \<Rightarrow> nat \<Rightarrow> handle_storage \<Rightarrow> (u32 \<times> handle_storage) option" where
  "skynet_handle_register ch ctx s =
     (case probe s (hs_handle_index s) (hs_slot_size s) of
        Some handle \<Rightarrow>
          Some (handle OR hs_harbor s,
            s\<lparr>hs_slot := (hs_slot s)[slot_hash handle (hs_slot_size s) := Some ctx],
              hs_handle_index := handle + 1\<rparr>)
      | None \<Rightarrow> do {
          cassert (hs_slot_size s * 2 - 1 \<le> unat HANDLE_MASK);
          new \<leftarrow> rehash ch (hs_slot_size s * 2) (hs_slot s) (replicate (hs_slot_size s * 2) None);
          skynet_handle_register ch ctx
            (s\<lparr>hs_slot := new, hs_slot_size := hs_slot_size s * 2\<rparr>) })"

definition skynet_handle_lookup :: "(nat \<Rightarrow> u32) \<Rightarrow> u32 \<Rightarrow> handle_storage \<Rightarrow> nat option" where
  "skynet_handle_lookup ch handle s =
     (case hs_slot s ! slot_hash handle (hs_slot_size s) of
        None \<Rightarrow> None
      | Some ctx \<Rightarrow> if ch ctx = handle then Some ctx else None)"

text \<open>The loop of \<open>skynet_handle_retire\<close> over the names: the new count and array.\<close>

function compact_names :: "u32 \<Rightarrow> nat \<Rightarrow> nat \<Rightarrow> nat \<Rightarrow> (u8 list \<times> u32) option list
    \<Rightarrow> (nat \<times> (u8 list \<times> u32) option list) option" where
  "compact_names handle n i j cells =
     (if i < n then do {
        nm \<leftarrow> rd cells i;
        (if snd nm = handle then compact_names handle n (i + 1) j cells
         else do {
           cells \<leftarrow> (if i \<noteq> j then wr cells j nm else Some cells);
           compact_names handle n (i + 1) (j + 1) cells })
      } else Some (j, cells))"
  by pat_completeness auto
termination
  by (relation "measure (\<lambda>(handle, n, i, j, cells). n - i)") auto

declare compact_names.simps [simp del]

text \<open>
  \<open>skynet_handle_retire\<close>: the context whose reference the caller releases, if the handle was
  live, and the new table.
\<close>

definition skynet_handle_retire ::
    "(nat \<Rightarrow> u32) \<Rightarrow> u32 \<Rightarrow> handle_storage \<Rightarrow> (nat option \<times> handle_storage) option" where
  "skynet_handle_retire ch handle s =
     (case skynet_handle_lookup ch handle s of
        Some ctx \<Rightarrow> do {
          (j, cells) \<leftarrow> compact_names handle (hs_name_count s) 0 0 (hs_name s);
          Some (Some ctx,
            s\<lparr>hs_slot := (hs_slot s)[slot_hash handle (hs_slot_size s) := None],
              hs_name := cells, hs_name_count := j\<rparr>) }
      | None \<Rightarrow> Some (None, s))"

section \<open>Names\<close>

fun strcmp :: "u8 list \<Rightarrow> u8 list \<Rightarrow> int" where
  "strcmp [] [] = 0"
| "strcmp [] (y # ys) = -1"
| "strcmp (x # xs) [] = 1"
| "strcmp (x # xs) (y # ys) = (if x = y then strcmp xs ys else if x < y then -1 else 1)"

text \<open>
  The binary search of \<open>skynet_handle_findname\<close> and \<open>_insert_name\<close>: \<open>Inl\<close> the handle found,
  \<open>Inr\<close> the final value of \<open>begin\<close> (\<open>lo\<close>). \<open>end\<close> (\<open>hi\<close>) is an \<open>int\<close> and may become -1.
\<close>

function search_name :: "(u8 list \<times> u32) option list \<Rightarrow> u8 list \<Rightarrow> int \<Rightarrow> int \<Rightarrow> (u32 + int) option" where
  "search_name cells name lo hi =
     (if lo \<le> hi then
        (let mid = (lo + hi) div 2 in
         if mid < 0 then None else do {
           n \<leftarrow> rd cells (nat mid);
           (let c = strcmp (fst n) name in
            if c = 0 then Some (Inl (snd n))
            else if c < 0 then search_name cells name (mid + 1) hi
            else search_name cells name lo (mid - 1)) })
      else Some (Inr lo))"
  by pat_completeness auto
termination
  by (relation "measure (\<lambda>(cells, name, b, e). nat (e + 1 - b))") auto

declare search_name.simps [simp del]

definition skynet_handle_findname :: "u8 list \<Rightarrow> handle_storage \<Rightarrow> u32 option" where
  "skynet_handle_findname name s = do {
     r \<leftarrow> search_name (hs_name s) name 0 (int (hs_name_count s) - 1);
     Some (case r of Inl handle \<Rightarrow> handle | Inr _ \<Rightarrow> 0) }"

text \<open>Moving the cells from \<open>before\<close> on one place up, from the top down.\<close>

fun shift_names :: "nat \<Rightarrow> nat \<Rightarrow> 'a option list \<Rightarrow> 'a option list option" where
  "shift_names before 0 cells = Some cells"
| "shift_names before (Suc k) cells =
     (if before + Suc k < length cells
      then shift_names before k (cells[before + Suc k := cells ! (before + k)])
      else None)"

definition insert_name_before :: "u8 list \<Rightarrow> u32 \<Rightarrow> nat \<Rightarrow> handle_storage \<Rightarrow> handle_storage option" where
  "insert_name_before name handle before s = do {
     s \<leftarrow> (if hs_name_count s \<ge> hs_name_cap s then do {
            let cap = hs_name_cap s * 2;
            cassert (cap \<le> MAX_SLOT_SIZE);
            cassert (hs_name_count s < cap \<and> before \<le> hs_name_count s \<and> hs_name_count s \<le> length (hs_name s));
            Some (s\<lparr>hs_name_cap := cap,
                    hs_name := take before (hs_name s) @ [None]
                      @ take (hs_name_count s - before) (drop before (hs_name s))
                      @ replicate (cap - hs_name_count s - 1) None\<rparr>)
          } else do {
            cells \<leftarrow> shift_names before (hs_name_count s - before) (hs_name s);
            Some (s\<lparr>hs_name := cells\<rparr>) });
     cells \<leftarrow> wr (hs_name s) before (name, handle);
     Some (s\<lparr>hs_name := cells, hs_name_count := hs_name_count s + 1\<rparr>) }"

text \<open>\<open>skynet_handle_namehandle\<close> returns \<open>NULL\<close> (\<open>False\<close>) when the name is taken.\<close>

definition skynet_handle_namehandle :: "u32 \<Rightarrow> u8 list \<Rightarrow> handle_storage \<Rightarrow> (bool \<times> handle_storage) option" where
  "skynet_handle_namehandle handle name s = do {
     r \<leftarrow> search_name (hs_name s) name 0 (int (hs_name_count s) - 1);
     (case r of
        Inl _ \<Rightarrow> Some (False, s)
      | Inr lo \<Rightarrow> do {
          s \<leftarrow> insert_name_before name handle (nat lo) s;
          Some (True, s) }) }"

section \<open>The handle table as a set of live contexts\<close>

definition live :: "handle_storage \<Rightarrow> nat set" where
  "live s = {c. Some c \<in> set (hs_slot s)}"

definition slots_ok :: "(nat \<Rightarrow> u32) \<Rightarrow> handle_storage \<Rightarrow> nat \<Rightarrow> bool" where
  "slots_ok ch s k \<longleftrightarrow> 2 \<le> k \<and> k \<le> 24 \<and> hs_slot_size s = 2 ^ k \<and> length (hs_slot s) = 2 ^ k
     \<and> (\<forall>i < 2 ^ k. \<forall>c. hs_slot s ! i = Some c \<longrightarrow> slot_hash (ch c) (2 ^ k) = i)
     \<and> take_bit 24 (hs_harbor s) = 0 \<and> 0 < unat (hs_handle_index s) \<and> unat (hs_handle_index s) \<le> 2 ^ 24"

lemma slots_okI:
  assumes "2 \<le> k" "k \<le> 24" "hs_slot_size s = 2 ^ k" "length (hs_slot s) = 2 ^ k"
    "\<And>i c. i < 2 ^ k \<Longrightarrow> hs_slot s ! i = Some c \<Longrightarrow> slot_hash (ch c) (2 ^ k) = i"
    "take_bit 24 (hs_harbor s) = 0" "0 < unat (hs_handle_index s)" "unat (hs_handle_index s) \<le> 2 ^ 24"
  shows "slots_ok ch s k"
  using assms unfolding slots_ok_def by blast

lemma slots_okD:
  assumes "slots_ok ch s k"
  shows "2 \<le> k" "k \<le> 24" "hs_slot_size s = 2 ^ k" "length (hs_slot s) = 2 ^ k"
    "i < 2 ^ k \<Longrightarrow> hs_slot s ! i = Some c \<Longrightarrow> slot_hash (ch c) (2 ^ k) = i"
    "take_bit 24 (hs_harbor s) = 0" "0 < unat (hs_handle_index s)" "unat (hs_handle_index s) \<le> 2 ^ 24"
  using assms unfolding slots_ok_def by blast+

lemma slot_hash_mod: "slot_hash h (2 ^ k) = unat h mod 2 ^ k"
proof -
  have "h AND (of_nat (2 ^ k) - 1) = take_bit k h"
    by (simp add: take_bit_eq_mask mask_eq_exp_minus_1)
  moreover have "unat (take_bit k h) = take_bit k (unat h)"
    by (rule unsigned_take_bit_eq)
  ultimately show ?thesis
    unfolding slot_hash_def by (simp only: take_bit_eq_mod)
qed

lemma slot_hash_less [simp]: "slot_hash h (2 ^ k) < 2 ^ k"
  by (simp add: slot_hash_mod)

lemma slot_hash_half: "slot_hash h (2 ^ Suc k) mod 2 ^ k = slot_hash h (2 ^ k)"
  unfolding slot_hash_mod by (rule mod_mod_cancel) (simp add: le_imp_power_dvd)

lemma slot_hash_harbor:
  assumes "take_bit 24 hb = 0" "k \<le> 24"
  shows "slot_hash (h OR hb) (2 ^ k) = slot_hash h (2 ^ k)"
proof -
  have "take_bit k hb = take_bit k (take_bit 24 hb)"
    using assms(2) by (simp only: take_bit_take_bit min_absorb1)
  then have "take_bit k hb = 0" using assms(1) by simp
  then have "take_bit k (h OR hb) = take_bit k h"
    by (simp only: take_bit_or or.right_neutral)
  then have "take_bit k (unat (h OR hb)) = take_bit k (unat h)"
    by (metis unsigned_take_bit_eq)
  then show ?thesis by (simp only: slot_hash_mod take_bit_eq_mod)
qed

lemma slot_at_live:
  assumes "slots_ok ch s k" "c \<in> live s"
  shows "hs_slot s ! slot_hash (ch c) (2 ^ k) = Some c"
proof -
  obtain i where "i < 2 ^ k" "hs_slot s ! i = Some c"
    using assms slots_okD(4) by (auto simp: live_def in_set_conv_nth)
  with slots_okD(5) [OF assms(1)] show ?thesis by metis
qed

lemma lookup_live:
  assumes "slots_ok ch s k"
  shows "skynet_handle_lookup ch h s = Some c \<longleftrightarrow> c \<in> live s \<and> ch c = h"
proof
  assume "skynet_handle_lookup ch h s = Some c"
  then have c: "hs_slot s ! slot_hash h (2 ^ k) = Some c" "ch c = h"
    using slots_okD(3) [OF assms] by (auto simp: skynet_handle_lookup_def split: option.splits if_splits)
  have "slot_hash h (2 ^ k) < length (hs_slot s)" using slots_okD(4) [OF assms] by simp
  with c(1) have "Some c \<in> set (hs_slot s)" by (metis nth_mem)
  with c(2) show "c \<in> live s \<and> ch c = h" by (simp add: live_def)
next
  assume "c \<in> live s \<and> ch c = h"
  with slot_at_live [OF assms] slots_okD(3) [OF assms] show "skynet_handle_lookup ch h s = Some c"
    by (auto simp: skynet_handle_lookup_def)
qed

lemma live_handles_inj:
  assumes "slots_ok ch s k" "c \<in> live s" "d \<in> live s" "ch c = ch d"
  shows "c = d"
  using assms lookup_live [OF assms(1), of "ch c"] by (metis option.inject)

subsection \<open>Probing\<close>

lemma HANDLE_MASK_nat: "unat HANDLE_MASK = 2 ^ 24 - 1"
  by (simp add: HANDLE_MASK_def)

lemma probe_Some:
  "probe s h n = Some h' \<Longrightarrow> 0 < unat h \<Longrightarrow> unat h \<le> 2 ^ 24 \<Longrightarrow>
   hs_slot s ! slot_hash h' (hs_slot_size s) = None \<and> 0 < unat h' \<and> unat h' < 2 ^ 24"
proof (induction n arbitrary: h)
  case (Suc n)
  define h1 where "h1 = (if h > HANDLE_MASK then 1 else h)"
  have h1: "0 < unat h1" "unat h1 < 2 ^ 24"
    using Suc.prems(2) HANDLE_MASK_nat by (auto simp: h1_def word_less_nat_alt)
  then have s1: "unat (h1 + 1) = unat h1 + 1"
    by (simp add: unat_word_ariths)
  show ?case
  proof (cases "hs_slot s ! slot_hash h1 (hs_slot_size s) = None")
    case True
    with Suc.prems(1) h1 show ?thesis by (auto simp: h1_def Let_def)
  next
    case False
    with Suc.prems(1) have "probe s (h1 + 1) n = Some h'" by (auto simp: h1_def Let_def)
    then show ?thesis using Suc.IH [of "h1 + 1"] h1 s1 by auto
  qed
qed simp

text \<open>The \<open>i\<close>-th handle probed from \<open>H\<close>: after \<open>HANDLE_MASK\<close> comes 1, not 0.\<close>

definition probe_seq :: "nat \<Rightarrow> nat \<Rightarrow> nat" where
  "probe_seq H i = (if H + i < 2 ^ 24 then H + i else H + i - (2 ^ 24 - 1))"

lemma probe_None:
  "probe s h n = None \<Longrightarrow> hs_slot_size s = 2 ^ k \<Longrightarrow> unat h \<le> 2 ^ 24 \<Longrightarrow> i < n \<Longrightarrow>
   unat h + i \<le> 2 * (2 ^ 24 - 1) \<Longrightarrow> hs_slot s ! (probe_seq (unat h) i mod 2 ^ k) \<noteq> None"
proof (induction n arbitrary: h i)
  case (Suc n)
  define h1 where "h1 = (if h > HANDLE_MASK then 1 else h)"
  have h1: "unat h1 = (if unat h = 2 ^ 24 then 1 else unat h)" "unat h1 < 2 ^ 24"
    using Suc.prems(3) HANDLE_MASK_nat by (auto simp: h1_def word_less_nat_alt)
  have occ: "hs_slot s ! (unat h1 mod 2 ^ k) \<noteq> None" and rec: "probe s (h1 + 1) n = None"
    using Suc.prems(1,2) by (auto simp: h1_def Let_def slot_hash_mod split: if_splits)
  have s1: "unat (h1 + 1) = unat h1 + 1"
    using h1(2) by (simp add: unat_word_ariths)
  show ?case
  proof (cases i)
    case 0
    then show ?thesis using occ h1 Suc.prems(3) by (auto simp: probe_seq_def)
  next
    case (Suc i')
    have "probe_seq (unat h) i = probe_seq (unat (h1 + 1)) i'" "unat (h1 + 1) + i' \<le> 2 * (2 ^ 24 - 1)"
      using Suc h1 s1 Suc.prems(3,5) by (auto simp: probe_seq_def split: if_splits)
    with Suc.IH [OF rec Suc.prems(2), of i'] Suc Suc.prems(4) h1 s1 show ?thesis by auto
  qed
qed simp

lemma mod_diff_dvd: "n dvd N \<Longrightarrow> N \<le> m \<Longrightarrow> (m - N) mod n = m mod n" for m n N :: nat
  by (auto simp: dvd_def le_iff_add)

lemma probe_seq_covers:
  assumes "k \<le> 24" "0 < j" "j < 2 ^ k" "H \<le> 2 ^ 24"
  shows "\<exists>i < 2 ^ k. H + i \<le> 2 * (2 ^ 24 - 1) \<and> probe_seq H i mod 2 ^ k = j"
proof -
  let ?n = "2 ^ k :: nat"
  have dvd: "?n dvd 2 ^ 24" and le: "?n \<le> 2 ^ 24"
    using le_imp_power_dvd [OF assms(1), of 2] power_increasing [OF assms(1), of "2::nat"] by auto
  obtain i where i: "i < ?n" "(H + i) mod ?n = j"
  proof
    show "(j + (?n - H mod ?n)) mod ?n < ?n" by simp
    have "(H + (j + (?n - H mod ?n))) mod ?n = (H mod ?n + (j + (?n - H mod ?n))) mod ?n"
      by (simp add: mod_add_left_eq)
    also have "H mod ?n + (j + (?n - H mod ?n)) = j + ?n"
    proof -
      have "H mod ?n < ?n" by simp
      then show ?thesis by linarith
    qed
    also have "(j + ?n) mod ?n = j" using assms(3) by simp
    finally show "(H + (j + (?n - H mod ?n)) mod ?n) mod ?n = j" by (simp add: mod_add_right_eq)
  qed
  show ?thesis
  proof (cases "H + i < 2 ^ 24")
    case True
    with i show ?thesis by (intro exI [of _ i]) (simp add: probe_seq_def)
  next
    case False
    have "H + i \<noteq> 2 ^ 24" using i(2) assms(2) dvd by auto
    then have *: "2 ^ 24 < H + i" "0 < i" using False assms(4) by auto
    have "H + i - 2 ^ 24 = H + (i - 1) - (2 ^ 24 - 1)" using * by simp
    moreover have "(H + i - 2 ^ 24) mod ?n = j"
      using i(2) mod_diff_dvd [OF dvd, of "H + i"] * by (simp only: less_imp_le)
    ultimately show ?thesis
      using i(1) * le assms(4) by (intro exI [of _ "i - 1"]) (auto simp: probe_seq_def)
  qed
qed

subsection \<open>Growing the table\<close>

text \<open>
  The contexts of an array, in index order; in a valid table they hash to distinct slots of
  the array of twice the size, so the assert of the copy loop holds.
\<close>

definition somes :: "'a option list \<Rightarrow> 'a list" where
  "somes xs = List.map_filter id xs"

lemma somes_simps [simp]: "somes [] = []" "somes (None # xs) = somes xs" "somes (Some x # xs) = x # somes xs"
  by (simp_all add: somes_def List.map_filter_def)

lemma set_somes: "set (somes xs) = {x. Some x \<in> set xs}"
  by (induction xs) (auto simp: somes_def List.map_filter_def split: option.splits)

lemma somes_hash:
  "(\<And>i c. i < length xs \<Longrightarrow> xs ! i = Some c \<Longrightarrow> f c = o' + i) \<Longrightarrow>
   distinct (map f (somes xs)) \<and> (\<forall>c \<in> set (somes xs). o' \<le> f c)"
proof (induction xs arbitrary: o')
  case (Cons x xs)
  have "distinct (map f (somes xs)) \<and> (\<forall>c \<in> set (somes xs). Suc o' \<le> f c)"
    using Cons.prems [of "Suc i" for i] by (intro Cons.IH) auto
  with Cons.prems [of 0] show ?case by (cases x) force+
qed simp

lemma distinct_map_fun: "distinct (map (\<lambda>x. g (f x)) xs) \<Longrightarrow> distinct (map f xs)"
  by (induction xs) auto

lemma rehash_ok:
  "distinct (map (\<lambda>c. slot_hash (ch c) sz) (somes xs)) \<Longrightarrow>
   (\<And>c. c \<in> set (somes xs) \<Longrightarrow> slot_hash (ch c) sz < length new \<and> new ! slot_hash (ch c) sz = None) \<Longrightarrow>
   \<exists>new'. rehash ch sz xs new = Some new' \<and> length new' = length new
     \<and> (\<forall>j c. j < length new \<longrightarrow> (new' ! j = Some c \<longleftrightarrow>
          new ! j = Some c \<or> c \<in> set (somes xs) \<and> slot_hash (ch c) sz = j))"
proof (induction ch sz xs new rule: rehash.induct)
  case (3 ch sz c xs new)
  let ?h = "slot_hash (ch c) sz"
  have h: "?h < length new" "new ! ?h = None" using 3(3) by auto
  have "\<exists>new'. rehash ch sz xs (new[?h := Some c]) = Some new' \<and> length new' = length (new[?h := Some c])
     \<and> (\<forall>j d. j < length (new[?h := Some c]) \<longrightarrow> (new' ! j = Some d \<longleftrightarrow>
          new[?h := Some c] ! j = Some d \<or> d \<in> set (somes xs) \<and> slot_hash (ch d) sz = j))"
    using 3(2,3) h by (intro 3(1)) (force simp: nth_list_update)+
  with h show ?case by (auto simp: nth_list_update)
qed auto

lemma slots_ok_expand:
  assumes ok: "slots_ok ch s k" and k: "k < 24"
  shows "\<exists>new. rehash ch (hs_slot_size s * 2) (hs_slot s) (replicate (hs_slot_size s * 2) None) = Some new
     \<and> slots_ok ch (s\<lparr>hs_slot := new, hs_slot_size := hs_slot_size s * 2\<rparr>) (Suc k)
     \<and> live (s\<lparr>hs_slot := new, hs_slot_size := hs_slot_size s * 2\<rparr>) = live s
     \<and> (\<exists>j. 0 < j \<and> j < 2 ^ Suc k \<and> new ! j = None)"
proof -
  let ?sz = "2 ^ Suc k :: nat"
  have sz: "hs_slot_size s * 2 = ?sz" using slots_okD(3) [OF ok] by simp
  have "distinct (map (\<lambda>c. slot_hash (ch c) (2 ^ k)) (somes (hs_slot s)))"
    using somes_hash [of "hs_slot s" "\<lambda>c. slot_hash (ch c) (2 ^ k)" 0] slots_okD(4,5) [OF ok] by auto
  then have dist: "distinct (map (\<lambda>c. slot_hash (ch c) ?sz) (somes (hs_slot s)))"
    by - (rule distinct_map_fun [where g = "\<lambda>x. x mod 2 ^ k"], simp only: slot_hash_half)
  have in_new: "slot_hash (ch c) ?sz < length (replicate ?sz None)
      \<and> replicate ?sz None ! slot_hash (ch c) ?sz = None" for c
    using slot_hash_less [of "ch c" "Suc k"] by (simp del: power_Suc)
  obtain new where new: "rehash ch ?sz (hs_slot s) (replicate ?sz None) = Some new" "length new = ?sz"
    and at: "\<And>j c. j < ?sz \<Longrightarrow> new ! j = Some c \<longleftrightarrow> c \<in> live s \<and> slot_hash (ch c) ?sz = j"
    using rehash_ok [OF dist, of "replicate ?sz None"] in_new
    by (auto simp: set_somes live_def simp del: power_Suc)
  let ?s = "s\<lparr>hs_slot := new, hs_slot_size := ?sz\<rparr>"
  have "slots_ok ch ?s (Suc k)"
  proof (rule slots_okI)
    show "2 \<le> Suc k" "Suc k \<le> 24" using slots_okD(1) [OF ok] k by simp_all
    show "slot_hash (ch c) ?sz = i" if "i < ?sz" "hs_slot ?s ! i = Some c" for i c
      using at [OF that(1), of c] that(2) by simp
    show "take_bit 24 (hs_harbor ?s) = 0" "0 < unat (hs_handle_index ?s)" "unat (hs_handle_index ?s) \<le> 2 ^ 24"
      using slots_okD(6-8) [OF ok] by simp_all
  qed (simp_all add: new(2) del: power_Suc)
  moreover have "live ?s = live s"
  proof (rule set_eqI)
    fix c
    have "c \<in> live ?s \<longleftrightarrow> (\<exists>j < ?sz. new ! j = Some c)"
      by (simp add: live_def in_set_conv_nth new(2) del: power_Suc)
    also have "\<dots> \<longleftrightarrow> c \<in> live s"
    proof
      assume "\<exists>j < ?sz. new ! j = Some c"
      then obtain j where "j < ?sz" "new ! j = Some c" by blast
      with at [OF this(1), of c] show "c \<in> live s" by blast
    next
      assume "c \<in> live s"
      with at [OF slot_hash_less [of "ch c" "Suc k"], of c]
      have "new ! slot_hash (ch c) ?sz = Some c" by blast
      with slot_hash_less [of "ch c" "Suc k"] show "\<exists>j < ?sz. new ! j = Some c" by blast
    qed
    finally show "c \<in> live ?s \<longleftrightarrow> c \<in> live s" .
  qed
  moreover have "\<exists>j. 0 < j \<and> j < ?sz \<and> new ! j = None"
  proof (rule ccontr)
    assume none: "\<not> (\<exists>j. 0 < j \<and> j < ?sz \<and> new ! j = None)"
    have full: "new ! j \<noteq> None" if "0 < j" "j < ?sz" for j
      using none that by metis
    have "(1::nat) < 2 ^ k" using slots_okD(1) [OF ok] by (intro one_less_power) simp_all
    then have lt: "(1::nat) < ?sz" "1 + 2 ^ k < ?sz" by simp_all
    obtain c d where "new ! 1 = Some c" "new ! (1 + 2 ^ k) = Some d"
      using full [of 1] full [of "1 + 2 ^ k"] lt by auto
    then have c: "c \<in> live s" "slot_hash (ch c) ?sz = 1" and d: "d \<in> live s" "slot_hash (ch d) ?sz = 1 + 2 ^ k"
      using at lt by auto
    have "slot_hash (ch c) (2 ^ k) = slot_hash (ch d) (2 ^ k)"
      using c(2) d(2) slot_hash_half [of "ch c" k] slot_hash_half [of "ch d" k]
      by (metis mod_add_self2)
    moreover have "hs_slot s ! slot_hash (ch c) (2 ^ k) = Some c" "hs_slot s ! slot_hash (ch d) (2 ^ k) = Some d"
      using slot_at_live [OF ok] c(1) d(1) by blast+
    ultimately have "c = d" by (metis option.inject)
    then have "(1::nat) = 1 + 2 ^ k" using c(2) d(2) by metis
    then show False by simp
  qed
  ultimately show ?thesis using new(1) sz by (auto simp del: power_Suc)
qed

subsection \<open>Register, grab, retire\<close>

definition handle_inv :: "(nat \<Rightarrow> u32) \<Rightarrow> handle_storage \<Rightarrow> bool" where
  "handle_inv ch s \<longleftrightarrow> (\<exists>k. slots_ok ch s k)"

lemma handle_init_inv: "handle_inv ch (skynet_handle_init harbor)" "live (skynet_handle_init harbor) = {}"
proof -
  have "take_bit 24 (push_bit 24 (harbor AND 0xff)) = (0::u32)"
    by (simp add: take_bit_push_bit)
  then have "slots_ok ch (skynet_handle_init harbor) 2"
    by (auto simp: slots_ok_def skynet_handle_init_def DEFAULT_SLOT_SIZE_def HANDLE_REMOTE_SHIFT_def)
  then show "handle_inv ch (skynet_handle_init harbor)" by (auto simp: handle_inv_def)
  show "live (skynet_handle_init harbor) = {}"
    by (simp add: live_def skynet_handle_init_def)
qed

lemma register_probe_Some:
  assumes ok: "slots_ok ch s k" and ctx: "ctx \<notin> live s"
    and probe: "probe s (hs_handle_index s) (hs_slot_size s) = Some h"
  shows "\<exists>s'. skynet_handle_register ch ctx s = Some (h OR hs_harbor s, s')
     \<and> slots_ok (ch(ctx := h OR hs_harbor s)) s' k \<and> live s' = insert ctx (live s)
     \<and> skynet_handle_lookup ch (h OR hs_harbor s) s = None
     \<and> hs_name s' = hs_name s \<and> hs_name_count s' = hs_name_count s \<and> hs_name_cap s' = hs_name_cap s
     \<and> hs_harbor s' = hs_harbor s \<and> h OR hs_harbor s \<noteq> 0"
proof -
  let ?h = "h OR hs_harbor s" and ?i = "slot_hash h (2 ^ k)"
  let ?s' = "s\<lparr>hs_slot := (hs_slot s)[?i := Some ctx], hs_handle_index := h + 1\<rparr>"
  have P: "hs_slot s ! ?i = None" "0 < unat h" "unat h < 2 ^ 24"
    using probe_Some [OF probe slots_okD(7,8) [OF ok]] slots_okD(3) [OF ok] by auto
  have hh: "slot_hash ?h (2 ^ k) = ?i"
    using slot_hash_harbor slots_okD(2,6) [OF ok] by blast
  have reg: "skynet_handle_register ch ctx s = Some (?h, ?s')"
    using probe slots_okD(3) [OF ok] by (subst skynet_handle_register.simps) simp
  have "slots_ok (ch(ctx := ?h)) ?s' k"
  proof (rule slots_okI)
    show "slot_hash ((ch(ctx := ?h)) c) (2 ^ k) = i" if "i < 2 ^ k" "hs_slot ?s' ! i = Some c" for i c
    proof (cases "i = ?i")
      case True
      with that hh slots_okD(4) [OF ok] show ?thesis by simp
    next
      case False
      with that have c: "hs_slot s ! i = Some c" by simp
      then have "c \<in> live s"
        using that(1) slots_okD(4) [OF ok] by (metis live_def mem_Collect_eq nth_mem)
      with ctx have "c \<noteq> ctx" by auto
      with slots_okD(5) [OF ok that(1) c] show ?thesis by simp
    qed
    have "unat (h + 1) = unat h + 1" using P(3) by (simp add: unat_word_ariths)
    with P(3) show "0 < unat (hs_handle_index ?s')" "unat (hs_handle_index ?s') \<le> 2 ^ 24"
      by simp_all
  qed (use slots_okD(1-4,6) [OF ok] in simp_all)
  moreover have "live ?s' = insert ctx (live s)"
    using mem_update_Some [of ?i "hs_slot s" _ ctx] P(1) slots_okD(4) [OF ok]
    by (auto simp: live_def)
  moreover have "skynet_handle_lookup ch ?h s = None"
    using P(1) hh slots_okD(3) [OF ok] by (simp add: skynet_handle_lookup_def)
  moreover have "?h \<noteq> 0" using P(2) by (metis or_eq_0_iff unat_0 less_irrefl)
  ultimately show ?thesis using reg by (intro exI [of _ ?s']) simp
qed

lemma probe_finds:
  assumes ok: "slots_ok ch s k" and j: "0 < j" "j < 2 ^ k" "hs_slot s ! j = None"
  shows "\<exists>h. probe s (hs_handle_index s) (hs_slot_size s) = Some h"
proof (rule ccontr)
  assume "\<not> ?thesis"
  then have N: "probe s (hs_handle_index s) (hs_slot_size s) = None" by auto
  obtain i where i: "i < 2 ^ k" "unat (hs_handle_index s) + i \<le> 2 * (2 ^ 24 - 1)"
    "probe_seq (unat (hs_handle_index s)) i mod 2 ^ k = j"
    using probe_seq_covers [OF slots_okD(2) [OF ok] j(1,2) slots_okD(8) [OF ok]] by blast
  have "i < hs_slot_size s" using i(1) slots_okD(3) [OF ok] by simp
  from probe_None [OF N slots_okD(3) [OF ok] slots_okD(8) [OF ok] this i(2)] i(3) j(3)
  show False by simp
qed

text \<open>
  Registering succeeds whenever the table has a free slot other than slot 0 or may still
  grow; the table never holds two contexts with the same handle.
\<close>

lemma register_ok:
  assumes ok: "slots_ok ch s k" and ctx: "ctx \<notin> live s" and room: "k < 24 \<or> (\<exists>j. 0 < j \<and> j < 2 ^ k \<and> hs_slot s ! j = None)"
  shows "\<exists>h s' k'. skynet_handle_register ch ctx s = Some (h, s') \<and> slots_ok (ch(ctx := h)) s' k'
     \<and> live s' = insert ctx (live s) \<and> (\<forall>c \<in> live s. ch c \<noteq> h)
     \<and> hs_name s' = hs_name s \<and> hs_name_count s' = hs_name_count s \<and> hs_name_cap s' = hs_name_cap s \<and> h \<noteq> 0"
proof (cases "probe s (hs_handle_index s) (hs_slot_size s)")
  case (Some h)
  from register_probe_Some [OF ok ctx this] obtain s' where s': "skynet_handle_register ch ctx s = Some (h OR hs_harbor s, s')"
    "slots_ok (ch(ctx := h OR hs_harbor s)) s' k" "live s' = insert ctx (live s)"
    "skynet_handle_lookup ch (h OR hs_harbor s) s = None"
    "hs_name s' = hs_name s" "hs_name_count s' = hs_name_count s" "hs_name_cap s' = hs_name_cap s" "h OR hs_harbor s \<noteq> 0"
    by blast
  have "\<forall>c \<in> live s. ch c \<noteq> h OR hs_harbor s"
    using lookup_live [OF ok] s'(4) by (metis option.distinct(1))
  with s' show ?thesis by (intro exI [of _ "h OR hs_harbor s"] exI [of _ s'] exI [of _ k]) simp
next
  case None
  then have k: "k < 24" using room probe_finds [OF ok] by auto
  obtain new where new: "rehash ch (hs_slot_size s * 2) (hs_slot s) (replicate (hs_slot_size s * 2) None) = Some new"
    "slots_ok ch (s\<lparr>hs_slot := new, hs_slot_size := hs_slot_size s * 2\<rparr>) (Suc k)"
    "live (s\<lparr>hs_slot := new, hs_slot_size := hs_slot_size s * 2\<rparr>) = live s"
    "\<exists>j. 0 < j \<and> j < 2 ^ Suc k \<and> new ! j = None"
    using slots_ok_expand [OF ok k] by blast
  let ?s = "s\<lparr>hs_slot := new, hs_slot_size := hs_slot_size s * 2\<rparr>"
  have "2 ^ k \<le> (2 ^ 23 :: nat)" using k power_increasing [of k 23 "2::nat"] by simp
  then have "hs_slot_size s * 2 - 1 \<le> unat HANDLE_MASK"
    using slots_okD(3) [OF ok] by (simp add: HANDLE_MASK_nat)
  then have eq: "skynet_handle_register ch ctx s = skynet_handle_register ch ctx ?s"
    using None new(1) by (subst skynet_handle_register.simps) simp
  obtain j where j: "0 < j" "j < 2 ^ Suc k" "hs_slot ?s ! j = None"
    using new(4) by auto
  obtain h where h: "probe ?s (hs_handle_index ?s) (hs_slot_size ?s) = Some h"
    using probe_finds [OF new(2) j] by blast
  have "ctx \<notin> live ?s" using ctx new(3) by simp
  from register_probe_Some [OF new(2) this h] obtain s' where
    s': "skynet_handle_register ch ctx ?s = Some (h OR hs_harbor ?s, s')"
    "slots_ok (ch(ctx := h OR hs_harbor ?s)) s' (Suc k)" "live s' = insert ctx (live ?s)"
    "skynet_handle_lookup ch (h OR hs_harbor ?s) ?s = None"
    "hs_name s' = hs_name ?s" "hs_name_count s' = hs_name_count ?s" "hs_name_cap s' = hs_name_cap ?s" "h OR hs_harbor ?s \<noteq> 0"
    by blast
  have "\<forall>c \<in> live s. ch c \<noteq> h OR hs_harbor ?s"
    using lookup_live [OF new(2)] s'(4) new(3) by (metis option.distinct(1))
  with s' eq new(3) show ?thesis
    by (intro exI [of _ "h OR hs_harbor ?s"] exI [of _ s'] exI [of _ "Suc k"]) simp
qed

section \<open>The array of names as a sorted association list\<close>

definition names :: "handle_storage \<Rightarrow> (u8 list \<times> u32) list" where
  "names s = map the (take (hs_name_count s) (hs_name s))"

definition name_less :: "u8 list \<times> u32 \<Rightarrow> u8 list \<times> u32 \<Rightarrow> bool" where
  "name_less a b \<longleftrightarrow> strcmp (fst a) (fst b) < 0"

definition names_ok :: "handle_storage \<Rightarrow> bool" where
  "names_ok s \<longleftrightarrow> length (hs_name s) = hs_name_cap s \<and> 0 < hs_name_cap s \<and> hs_name_count s \<le> hs_name_cap s
     \<and> take (hs_name_count s) (hs_name s) = map Some (names s) \<and> sorted_wrt name_less (names s)"

lemma length_names: "names_ok s \<Longrightarrow> length (names s) = hs_name_count s"
  by (simp add: names_ok_def names_def)

lemma names_okI:
  assumes "hs_name s = map Some nm @ junk" "hs_name_count s = length nm" "length (hs_name s) = hs_name_cap s"
    "0 < hs_name_cap s" "sorted_wrt name_less nm"
  shows "names_ok s" "names s = nm"
  using assms by (auto simp: names_ok_def names_def o_def)

lemma names_split:
  assumes "names_ok s"
  shows "hs_name s = map Some (names s) @ drop (hs_name_count s) (hs_name s)"
  using assms by (metis append_take_drop_id names_ok_def)

subsection \<open>strcmp\<close>

lemma strcmp_eq_0 [simp]: "strcmp xs ys = 0 \<longleftrightarrow> xs = ys"
  by (induction xs ys rule: strcmp.induct) auto

lemma strcmp_refl [simp]: "strcmp xs xs = 0"
  by simp

lemma strcmp_antisym: "strcmp ys xs = - strcmp xs ys"
  by (induction xs ys rule: strcmp.induct) auto

lemma strcmp_trans: "strcmp xs ys < 0 \<Longrightarrow> strcmp ys zs < 0 \<Longrightarrow> strcmp xs zs < 0"
proof (induction xs ys arbitrary: zs rule: strcmp.induct)
  case (2 y ys)
  then show ?case by (cases zs) auto
next
  case (4 x xs y ys)
  then show ?case by (cases zs) (auto split: if_splits)
qed auto

lemma name_less_trans: "name_less a b \<Longrightarrow> name_less b c \<Longrightarrow> name_less a c"
  by (auto simp: name_less_def intro: strcmp_trans)

lemma sorted_names_distinct: "sorted_wrt name_less nm \<Longrightarrow> distinct (map fst nm)"
  by (induction nm) (force simp: name_less_def)+

subsection \<open>Compaction\<close>

lemma compact_names_ok:
  "cells = map Some kept @ junk @ map Some rest @ tl' \<Longrightarrow> i = length kept + length junk \<Longrightarrow>
   \<exists>junk'. compact_names h (i + length rest) i (length kept) cells =
      Some (length kept + length (filter (\<lambda>x. snd x \<noteq> h) rest),
            map Some (kept @ filter (\<lambda>x. snd x \<noteq> h) rest) @ junk')
     \<and> length (map Some (kept @ filter (\<lambda>x. snd x \<noteq> h) rest) @ junk') = length cells"
proof (induction rest arbitrary: cells kept junk i)
  case Nil
  then show ?case by (subst compact_names.simps) simp
next
  case (Cons x rest)
  have rd: "rd cells i = Some x" using Cons.prems by (simp add: nth_append)
  show ?case
  proof (cases "snd x = h")
    case True
    from Cons.IH [of cells kept "junk @ [Some x]" "Suc i"] Cons.prems True rd show ?thesis
      by (subst compact_names.simps) simp
  next
    case False
    let ?cells = "if i \<noteq> length kept then cells[length kept := Some x] else cells"
    have wr: "(if i \<noteq> length kept then wr cells (length kept) x else Some cells) = Some ?cells"
      using Cons.prems by simp
    have "\<exists>j2. ?cells = map Some (kept @ [x]) @ j2 @ map Some rest @ tl' \<and> length j2 = length junk"
    proof (cases junk)
      case Nil
      with Cons.prems show ?thesis by simp
    next
      case (Cons y ys)
      with Cons.prems show ?thesis
        by (intro exI [of _ "ys @ [Some x]"]) (simp add: list_update_append)
    qed
    then obtain j2 where j2: "?cells = map Some (kept @ [x]) @ j2 @ map Some rest @ tl'" "length j2 = length junk"
      by blast
    from Cons.IH [OF j2(1), of "Suc i"] j2(2) Cons.prems(2) have "\<exists>junk'. compact_names h (Suc i + length rest) (Suc i) (Suc (length kept)) ?cells =
      Some (length kept + length (filter (\<lambda>x. snd x \<noteq> h) (x # rest)),
            map Some (kept @ filter (\<lambda>x. snd x \<noteq> h) (x # rest)) @ junk')
     \<and> length (map Some (kept @ filter (\<lambda>x. snd x \<noteq> h) (x # rest)) @ junk') = length ?cells"
      using False by simp
    moreover have "length ?cells = length cells" by simp
    moreover have "compact_names h (i + length (x # rest)) i (length kept) cells =
       compact_names h (Suc i + length rest) (Suc i) (Suc (length kept)) ?cells"
      using rd wr False by (subst compact_names.simps) simp
    ultimately show ?thesis by metis
  qed
qed

lemma compact_names_all:
  assumes "cells = map Some nm @ junk"
  shows "\<exists>junk'. compact_names h (length nm) 0 0 cells =
      Some (length (filter (\<lambda>x. snd x \<noteq> h) nm), map Some (filter (\<lambda>x. snd x \<noteq> h) nm) @ junk')
     \<and> length (map Some (filter (\<lambda>x. snd x \<noteq> h) nm) @ junk') = length cells"
  using compact_names_ok [of cells "[]" "[]" nm junk 0 h] assms by simp

lemma sorted_wrt_filter': "sorted_wrt P xs \<Longrightarrow> sorted_wrt P (filter Q xs)"
  by (induction xs) auto

lemma retire_ok:
  assumes ok: "slots_ok ch s k" and nok: "names_ok s"
  shows "\<exists>s'. skynet_handle_retire ch h s = Some (skynet_handle_lookup ch h s, s')
     \<and> slots_ok ch s' k \<and> names_ok s'
     \<and> (case skynet_handle_lookup ch h s of
          None \<Rightarrow> s' = s
        | Some c \<Rightarrow> live s' = live s - {c} \<and> names s' = filter (\<lambda>x. snd x \<noteq> h) (names s))"
proof (cases "skynet_handle_lookup ch h s")
  case None
  then show ?thesis using assms by (simp add: skynet_handle_retire_def)
next
  case (Some c)
  let ?nm = "filter (\<lambda>x. snd x \<noteq> h) (names s)" and ?i = "slot_hash h (2 ^ k)"
  obtain junk where junk: "compact_names h (hs_name_count s) 0 0 (hs_name s) = Some (length ?nm, map Some ?nm @ junk)"
    "length (map Some ?nm @ junk) = length (hs_name s)"
    using compact_names_all [OF names_split [OF nok], of h] unfolding length_names [OF nok] by blast
  let ?s' = "s\<lparr>hs_slot := (hs_slot s)[?i := None], hs_name := map Some ?nm @ junk, hs_name_count := length ?nm\<rparr>"
  have ret: "skynet_handle_retire ch h s = Some (Some c, ?s')"
    using Some junk slots_okD(3) [OF ok] by (simp add: skynet_handle_retire_def)
  have c: "c \<in> live s" "ch c = h" using Some lookup_live [OF ok] by auto
  have at: "hs_slot s ! ?i = Some c" using slot_at_live [OF ok c(1)] c(2) by simp
  have uniq: "j = ?i" if "j < length (hs_slot s)" "hs_slot s ! j = Some c" for j
    using slots_okD(4) [OF ok] slots_okD(5) [OF ok _ that(2)] that(1) c(2) by simp
  have "?i < length (hs_slot s)" using slots_okD(4) [OF ok] by simp
  from mem_update_None [OF this at uniq] have "live ?s' = live s - {c}"
    unfolding live_def by (simp, blast)
  moreover have "slots_ok ch ?s' k"
  proof (rule slots_okI)
    show "slot_hash (ch d) (2 ^ k) = i" if "i < 2 ^ k" "hs_slot ?s' ! i = Some d" for i d
    proof (cases "i = ?i")
      case True
      with that slots_okD(4) [OF ok] show ?thesis by simp
    next
      case False
      with that slots_okD(5) [OF ok that(1), of d] show ?thesis by simp
    qed
  qed (use slots_okD [OF ok] in simp_all)
  moreover have "names_ok ?s'" "names ?s' = ?nm"
    by (rule names_okI [where nm = ?nm and junk = junk];
        use nok junk(2) in \<open>simp add: names_ok_def sorted_wrt_filter'\<close>)+
  ultimately show ?thesis using ret Some by (intro exI [of _ ?s']) simp
qed

subsection \<open>Binary search\<close>

lemma sorted_names_nth:
  "sorted_wrt name_less nm \<Longrightarrow> i < j \<Longrightarrow> j < length nm \<Longrightarrow> strcmp (fst (nm ! i)) (fst (nm ! j)) < 0"
  by (auto simp: sorted_wrt_iff_nth_less name_less_def)

lemma search_name_ok:
  "take (length nm) cells = map Some nm \<Longrightarrow> length nm \<le> length cells \<Longrightarrow> sorted_wrt name_less nm \<Longrightarrow>
   0 \<le> lo \<Longrightarrow> lo \<le> hi + 1 \<Longrightarrow> hi < int (length nm) \<Longrightarrow>
   (\<And>i. int i < lo \<Longrightarrow> strcmp (fst (nm ! i)) key < 0) \<Longrightarrow>
   (\<And>i. hi < int i \<Longrightarrow> i < length nm \<Longrightarrow> 0 < strcmp (fst (nm ! i)) key) \<Longrightarrow>
   \<exists>r. search_name cells key lo hi = Some r \<and>
     (case r of Inl h \<Rightarrow> (key, h) \<in> set nm
      | Inr b \<Rightarrow> 0 \<le> b \<and> b \<le> int (length nm) \<and> (\<forall>i. int i < b \<longrightarrow> strcmp (fst (nm ! i)) key < 0)
          \<and> (\<forall>i. b \<le> int i \<longrightarrow> i < length nm \<longrightarrow> 0 < strcmp (fst (nm ! i)) key))"
proof (induction cells key lo hi rule: search_name.induct)
  case (1 cells key lo hi)
  show ?case
  proof (cases "lo \<le> hi")
    case False
    with 1(4-) show ?thesis by (subst search_name.simps) auto
  next
    case True
    let ?m = "(lo + hi) div 2"
    have m: "lo \<le> ?m" "?m \<le> hi" "0 \<le> ?m" using True 1(6) by linarith+
    define k where "k = nat ?m"
    have k: "?m = int k" "k < length nm" using m 1(8) by (auto simp: k_def)
    have "cells ! k = Some (nm ! k)"
      using 1(3) k(2) by (metis nth_map nth_take)
    then have rd: "rd cells k = Some (nm ! k)" using k(2) 1(4) by simp
    let ?c = "strcmp (fst (nm ! k)) key"
    have step: "search_name cells key lo hi =
        (if ?c = 0 then Some (Inl (snd (nm ! k)))
         else if ?c < 0 then search_name cells key (?m + 1) hi else search_name cells key lo (?m - 1))"
      using True m rd by (subst search_name.simps) (simp add: Let_def k_def)
    consider "?c = 0" | "?c < 0" | "0 < ?c" by linarith
    then show ?thesis
    proof cases
      case a: 1
      then have "(key, snd (nm ! k)) \<in> set nm" using k(2) nth_mem [of k nm] by (metis prod.collapse strcmp_eq_0)
      with step a show ?thesis by simp
    next
      case a: 2
      have "strcmp (fst (nm ! i)) key < 0" if "int i < ?m + 1" for i
        using that k a sorted_names_nth [OF 1(5), of i k] strcmp_trans by (cases "i = k") auto
      then have "\<exists>r. search_name cells key (?m + 1) hi = Some r \<and>
         (case r of Inl h \<Rightarrow> (key, h) \<in> set nm
          | Inr b \<Rightarrow> 0 \<le> b \<and> b \<le> int (length nm) \<and> (\<forall>i. int i < b \<longrightarrow> strcmp (fst (nm ! i)) key < 0)
              \<and> (\<forall>i. b \<le> int i \<longrightarrow> i < length nm \<longrightarrow> 0 < strcmp (fst (nm ! i)) key))"
        using True m rd a 1(3-10) by (intro 1(1)) (auto simp: k_def [symmetric])
      with step a show ?thesis by auto
    next
      case a: 3
      have "0 < strcmp (fst (nm ! i)) key" if "?m - 1 < int i" "i < length nm" for i
      proof (cases "i = k")
        case False
        then have "k < i" using that k by linarith
        from sorted_names_nth [OF 1(5) this that(2)] a show ?thesis
          using strcmp_antisym [of key] strcmp_antisym [of "fst (nm ! i)"] strcmp_trans [of key "fst (nm ! k)"]
          by (smt (verit) strcmp_antisym strcmp_trans)
      qed (use a in simp)
      then have "\<exists>r. search_name cells key lo (?m - 1) = Some r \<and>
         (case r of Inl h \<Rightarrow> (key, h) \<in> set nm
          | Inr b \<Rightarrow> 0 \<le> b \<and> b \<le> int (length nm) \<and> (\<forall>i. int i < b \<longrightarrow> strcmp (fst (nm ! i)) key < 0)
              \<and> (\<forall>i. b \<le> int i \<longrightarrow> i < length nm \<longrightarrow> 0 < strcmp (fst (nm ! i)) key))"
        using True m rd a 1(3-10) by (intro 1(2)) (auto simp: k_def [symmetric])
      with step a show ?thesis by auto
    qed
  qed
qed

subsection \<open>Insertion\<close>

lemma shift_names_ok:
  "before + k < length cells \<Longrightarrow>
   shift_names before k cells =
     Some (take (Suc before) cells @ take k (drop before cells) @ drop (Suc (before + k)) cells)"
proof (induction k arbitrary: cells)
  case 0
  then show ?case by simp
next
  case (Suc k)
  let ?c = "cells[before + Suc k := cells ! (before + k)]"
  have "take k (drop before ?c) = take k (drop before cells)"
    by (simp add: drop_update_swap)
  moreover have "drop (Suc (before + k)) ?c = cells ! (before + k) # drop (Suc (Suc (before + k))) cells"
    using Suc.prems by (simp add: Cons_nth_drop_Suc [symmetric] drop_update_swap)
  moreover have "take (Suc k) (drop before cells) = take k (drop before cells) @ [cells ! (before + k)]"
    using Suc.prems by (simp add: take_Suc_conv_app_nth)
  ultimately show ?case using Suc.IH [of ?c] Suc.prems by simp
qed

lemma insert_name_before_ok:
  assumes nok: "names_ok s" and b: "b \<le> hs_name_count s" and cap: "hs_name_count s < MAX_SLOT_SIZE div 2"
    and sorted: "sorted_wrt name_less (take b (names s) @ (key, h) # drop b (names s))"
  shows "\<exists>s'. insert_name_before key h b s = Some s' \<and> names_ok s'
     \<and> names s' = take b (names s) @ (key, h) # drop b (names s)
     \<and> hs_slot s' = hs_slot s \<and> hs_slot_size s' = hs_slot_size s \<and> hs_harbor s' = hs_harbor s
     \<and> hs_handle_index s' = hs_handle_index s"
proof -
  let ?n = "hs_name_count s" and ?cells = "hs_name s" and ?nm = "take b (names s) @ (key, h) # drop b (names s)"
  have N: "length ?cells = hs_name_cap s" "?n \<le> hs_name_cap s" "0 < hs_name_cap s" "length (names s) = ?n"
    using nok by (auto simp: names_ok_def length_names [OF nok])
  have S: "take ?n ?cells = map Some (names s)"
    using nok by (simp only: names_ok_def)
  have T: "take b ?cells = map Some (take b (names s))"
    "take (?n - b) (drop b ?cells) = map Some (drop b (names s))"
    using arg_cong [OF S, of "take b"] arg_cong [OF S, of "drop b"] b
    by (simp_all only: take_take min_absorb1 take_map drop_take drop_map)
  show ?thesis
  proof (cases "?n \<ge> hs_name_cap s")
    case True
    let ?c = "hs_name_cap s * 2"
    let ?junk = "replicate (?c - ?n - 1) None"
    let ?s' = "s\<lparr>hs_name_cap := ?c, hs_name := map Some ?nm @ ?junk, hs_name_count := ?n + 1\<rparr>"
    have le: "?c \<le> MAX_SLOT_SIZE" "?n < ?c" using True N cap by (auto simp: MAX_SLOT_SIZE_def)
    let ?l = "map Some (take b (names s)) @ [None] @ map Some (drop b (names s)) @ ?junk"
    have "length (map Some (take b (names s))) = b" using b N(4) by simp
    then have "wr ?l b (key, h) = Some (map Some ?nm @ ?junk)"
      by (simp add: wr_def list_update_append)
    then have "insert_name_before key h b s = Some ?s'"
      unfolding insert_name_before_def Let_def if_P [OF True]
      using le b N(1,2) T by (simp del: append_assoc append.simps map_append)
    moreover have "names_ok ?s'" "names ?s' = ?nm"
      by (rule names_okI [where nm = ?nm and junk = ?junk]; use N b le sorted in simp)+
    ultimately show ?thesis by (intro exI [of _ ?s']) simp
  next
    case False
    let ?junk = "drop (Suc ?n) ?cells"
    let ?s' = "s\<lparr>hs_name := map Some ?nm @ ?junk, hs_name_count := ?n + 1\<rparr>"
    have "shift_names b (?n - b) ?cells = Some (take (Suc b) ?cells @ map Some (drop b (names s)) @ ?junk)"
      using shift_names_ok [of b "?n - b" ?cells] False b N T by simp
    moreover have "(take (Suc b) ?cells @ xs)[b := Some (key, h)] = take b ?cells @ Some (key, h) # xs" for xs
      using False b N by (simp add: take_Suc_conv_app_nth list_update_append)
    ultimately have "insert_name_before key h b s = Some ?s'"
      using False b N T by (simp add: insert_name_before_def wr_def)
    moreover have "names_ok ?s'" "names ?s' = ?nm"
      by (rule names_okI [where nm = ?nm and junk = ?junk]; use N b False sorted in simp)+
    ultimately show ?thesis by (intro exI [of _ ?s']) simp
  qed
qed

lemma sorted_insert:
  assumes "sorted_wrt name_less nm" "b \<le> length nm"
    "\<forall>i < b. strcmp (fst (nm ! i)) key < 0" "\<forall>i. b \<le> i \<longrightarrow> i < length nm \<longrightarrow> 0 < strcmp (fst (nm ! i)) key"
  shows "sorted_wrt name_less (take b nm @ (key, h) # drop b nm)"
proof -
  have lo: "name_less x (key, h)" if "x \<in> set (take b nm)" for x
    using that assms(2,3) by (auto simp: in_set_conv_nth name_less_def)
  have hi: "name_less (key, h) x" if "x \<in> set (drop b nm)" for x
    using that assms(2,4) strcmp_antisym [of key] by (auto simp: in_set_conv_nth name_less_def)
  have "sorted_wrt name_less (take b nm @ drop b nm)" using assms(1) by simp
  then have "sorted_wrt name_less (take b nm)" "sorted_wrt name_less (drop b nm)"
    "\<forall>x \<in> set (take b nm). \<forall>y \<in> set (drop b nm). name_less x y"
    unfolding sorted_wrt_append by blast+
  with lo hi show ?thesis
    unfolding sorted_wrt_append sorted_wrt.simps list.set by blast
qed

text \<open>What the search returns on a valid table, in terms of the association list.\<close>

lemma search_names:
  assumes "names_ok s"
  shows "case map_of (names s) key of
     Some h \<Rightarrow> search_name (hs_name s) key 0 (int (hs_name_count s) - 1) = Some (Inl h)
   | None \<Rightarrow> \<exists>b \<le> hs_name_count s. search_name (hs_name s) key 0 (int (hs_name_count s) - 1) = Some (Inr (int b))
        \<and> (\<forall>i < b. strcmp (fst (names s ! i)) key < 0)
        \<and> (\<forall>i. b \<le> i \<longrightarrow> i < length (names s) \<longrightarrow> 0 < strcmp (fst (names s ! i)) key)"
proof -
  note N = assms [unfolded names_ok_def] and L = length_names [OF assms]
  have dist: "distinct (map fst (names s))" using N sorted_names_distinct by blast
  obtain r where r: "search_name (hs_name s) key 0 (int (hs_name_count s) - 1) = Some r"
    "case r of Inl h \<Rightarrow> (key, h) \<in> set (names s)
      | Inr b \<Rightarrow> 0 \<le> b \<and> b \<le> int (length (names s)) \<and> (\<forall>i. int i < b \<longrightarrow> strcmp (fst (names s ! i)) key < 0)
          \<and> (\<forall>i. b \<le> int i \<longrightarrow> i < length (names s) \<longrightarrow> 0 < strcmp (fst (names s ! i)) key)"
    using search_name_ok [of "names s" "hs_name s" 0 "int (hs_name_count s) - 1" key] N L by auto
  show ?thesis
  proof (cases r)
    case (Inl h)
    with r dist show ?thesis by simp
  next
    case (Inr b)
    then have b: "b = int (nat b)" "nat b \<le> hs_name_count s" using r(2) L by auto
    have "fst (names s ! i) \<noteq> key" if "i < length (names s)" for i
      using r(2) Inr that by (cases "int i < b") force+
    then have "(key, h) \<notin> set (names s)" for h
      by (metis in_set_conv_nth fst_conv)
    then have "map_of (names s) key = None"
      by (metis map_of_SomeD not_Some_eq)
    moreover have "\<exists>b' \<le> hs_name_count s. search_name (hs_name s) key 0 (int (hs_name_count s) - 1) = Some (Inr (int b'))
        \<and> (\<forall>i < b'. strcmp (fst (names s ! i)) key < 0)
        \<and> (\<forall>i. b' \<le> i \<longrightarrow> i < length (names s) \<longrightarrow> 0 < strcmp (fst (names s ! i)) key)"
      using r Inr b by (intro exI [of _ "nat b"]) (auto simp: le_nat_iff zless_nat_eq_int_zless)
    ultimately show ?thesis by simp
  qed
qed


lemma findname_eq:
  "names_ok s \<Longrightarrow> skynet_handle_findname key s = Some (case map_of (names s) key of Some h \<Rightarrow> h | None \<Rightarrow> 0)"
  using search_names [of s key] by (auto simp: skynet_handle_findname_def split: option.splits)

lemma take_drop_in_alist:
  "sorted_wrt name_less (take b nm @ (key, h) # drop b nm) \<Longrightarrow>
   map_of (take b nm @ (key, h) # drop b nm) = (map_of nm)(key \<mapsto> h)"
proof -
  assume s: "sorted_wrt name_less (take b nm @ (key, h) # drop b nm)"
  have "distinct (map fst (take b nm @ (key, h) # drop b nm))"
    using s by (rule sorted_names_distinct)
  then have "key \<notin> fst ` set (take b nm)" by auto
  then have "map_of (take b nm) key = None" by (simp add: map_of_eq_None_iff)
  then have "map_of (take b nm @ (key, h) # drop b nm) x = ((map_of (take b nm @ drop b nm))(key \<mapsto> h)) x" for x
    unfolding map_of_append by (auto simp: map_add_def split: option.splits)
  then show ?thesis by auto
qed

section \<open>Retiring every handle\<close>

text \<open>One pass of \<open>skynet_handle_retireall\<close> over the slots; \<open>n\<close> counts the contexts seen.\<close>

fun retire_pass :: "(nat \<Rightarrow> u32) \<Rightarrow> nat list \<Rightarrow> nat \<Rightarrow> handle_storage \<Rightarrow> (nat \<times> handle_storage) option" where
  "retire_pass ch [] n s = Some (n, s)"
| "retire_pass ch (i # is) n s =
     (case hs_slot s ! i of
        None \<Rightarrow> retire_pass ch is n s
      | Some ctx \<Rightarrow>
          if ch ctx \<noteq> 0
          then do { (_, s) \<leftarrow> skynet_handle_retire ch (ch ctx) s; retire_pass ch is (n + 1) s }
          else retire_pass ch is (n + 1) s)"

partial_function (option) skynet_handle_retireall ::
    "(nat \<Rightarrow> u32) \<Rightarrow> handle_storage \<Rightarrow> handle_storage option" where
  "skynet_handle_retireall ch s = do {
     (n, s) \<leftarrow> retire_pass ch [0..<hs_slot_size s] 0 s;
     if n = 0 then Some s else skynet_handle_retireall ch s }"

lemma retire_pass_ok:
  "slots_ok ch s k \<Longrightarrow> names_ok s \<Longrightarrow> \<forall>c \<in> live s. ch c \<noteq> 0 \<Longrightarrow> set is \<subseteq> {..<2 ^ k} \<Longrightarrow>
   \<exists>n' s'. retire_pass ch is n s = Some (n', s') \<and> slots_ok ch s' k \<and> names_ok s'
     \<and> (\<forall>c \<in> live s'. c \<in> live s \<and> slot_hash (ch c) (2 ^ k) \<notin> set is) \<and> (live s = {} \<longrightarrow> n' = n)"
proof (induction "is" arbitrary: n s)
  case (Cons i "is")
  have i: "i < 2 ^ k" "set is \<subseteq> {..<2 ^ k}" using Cons.prems(4) by auto
  show ?case
  proof (cases "hs_slot s ! i")
    case None
    have "slot_hash (ch c) (2 ^ k) \<noteq> i" if "c \<in> live s" for c
      using slot_at_live [OF Cons.prems(1) that] None by auto
    with None Cons.IH [OF Cons.prems(1-3) i(2)] show ?thesis by fastforce
  next
    case (Some c)
    then have "c \<in> live s"
      using i(1) slots_okD(4) [OF Cons.prems(1)] by (metis live_def mem_Collect_eq nth_mem)
    then have c: "skynet_handle_lookup ch (ch c) s = Some c" "ch c \<noteq> 0" "c \<in> live s"
      using lookup_live [OF Cons.prems(1)] Cons.prems(3) by auto
    obtain s1 where s1: "skynet_handle_retire ch (ch c) s = Some (Some c, s1)"
      "slots_ok ch s1 k" "names_ok s1" "live s1 = live s - {c}"
      using retire_ok [OF Cons.prems(1,2), of "ch c"] c(1) by auto
    have "\<forall>c \<in> live s1. ch c \<noteq> 0" using s1(4) Cons.prems(3) by blast
    from Cons.IH [OF s1(2,3) this i(2), of "n + 1"] obtain n' s' where s':
      "retire_pass ch is (n + 1) s1 = Some (n', s')" "slots_ok ch s' k" "names_ok s'"
      "\<forall>c \<in> live s'. c \<in> live s1 \<and> slot_hash (ch c) (2 ^ k) \<notin> set is" by blast
    have "slot_hash (ch d) (2 ^ k) \<noteq> i" if "d \<in> live s1" for d
    proof
      assume "slot_hash (ch d) (2 ^ k) = i"
      with that s1(4) slot_at_live [OF Cons.prems(1), of d] Some have "d = c" by simp
      with that s1(4) show False by simp
    qed
    with s' s1 c Some show ?thesis
      by (intro exI [of _ n'] exI [of _ s']) auto
  qed
qed simp

section \<open>Properties\<close>

lemma room_of_card:
  assumes ok: "slots_ok ch s k" and card: "card (live s) < 2 ^ 24 - 1"
  shows "k < 24 \<or> (\<exists>j. 0 < j \<and> j < 2 ^ k \<and> hs_slot s ! j = None)"
proof (rule disjCI, rule ccontr)
  assume N: "\<not> (\<exists>j. 0 < j \<and> j < 2 ^ k \<and> hs_slot s ! j = None)" "\<not> k < 24"
  have full: "hs_slot s ! j \<noteq> None" if "0 < j" "j < 2 ^ k" for j
    using N(1) that by metis
  have k': "k = 24" using slots_okD(2) [OF ok] N(2) by linarith
  let ?f = "\<lambda>j. the (hs_slot s ! j)"
  have at: "hs_slot s ! j = Some (?f j)" if "j \<in> {0<..<2 ^ k}" for j
    using full that by auto
  have inj: "inj_on ?f {0<..<2 ^ k}"
  proof (rule inj_onI)
    fix i j assume "i \<in> {0<..<2 ^ k}" "j \<in> {0<..<2 ^ k}" "?f i = ?f j"
    then show "i = j"
      using at [of i] at [of j] slots_okD(5) [OF ok, of i "?f i"] slots_okD(5) [OF ok, of j "?f j"]
      unfolding greaterThanLessThan_iff by metis
  qed
  have "?f ` {0<..<2 ^ k} \<subseteq> live s"
    using at slots_okD(4) [OF ok] nth_mem [of _ "hs_slot s"] unfolding live_def by fastforce
  moreover have "finite (live s)"
    by (rule finite_subset [of _ "set (map the (hs_slot s))"]) (force simp: live_def)+
  ultimately have "card {0<..<2 ^ k :: nat} \<le> card (live s)"
    using card_inj_on_le [OF inj] by blast
  then show False using card k' by simp
qed

text \<open>For the witnesses: a table with context 10 at handle 1 of node 1, named \<open>x\<close>.\<close>

definition demo_handles :: handle_storage where
  "demo_handles = (skynet_handle_init 1)\<lparr>hs_slot := [None, Some 10, None, None], hs_handle_index := 2,
     hs_name := [Some ([120], 0x1000001), None], hs_name_count := 1\<rparr>"

lemma demo_handles_ok: "handle_inv (\<lambda>_. 0x1000001) demo_handles" "names_ok demo_handles" "live demo_handles = {10}"
proof -
  have sh: "slot_hash 0x1000001 4 = 1" using slot_hash_mod [of "0x1000001" 2] by simp
  have "i = 1" if "i < 4" "[None, Some 10, None, None] ! i = Some c" for i and c :: nat
  proof -
    have "i = 0 \<or> i = 1 \<or> i = 2 \<or> i = 3" using that(1) by linarith
    then show ?thesis using that(2) by auto
  qed
  then have "slots_ok (\<lambda>_. 0x1000001) demo_handles 2"
    by (intro slots_okI)
      (simp_all add: demo_handles_def skynet_handle_init_def DEFAULT_SLOT_SIZE_def HANDLE_REMOTE_SHIFT_def sh)
  then show "handle_inv (\<lambda>_. 0x1000001) demo_handles" by (auto simp: handle_inv_def)
  show "names_ok demo_handles"
    by (simp add: names_ok_def names_def demo_handles_def skynet_handle_init_def)
  show "live demo_handles = {10}" by (simp add: live_def demo_handles_def)
qed

text \<open>
  C7: Registering refines insertion into a finite map from handles to contexts: on a valid
  table with fewer than \<open>2^24 - 1\<close> contexts it returns, the new handle was free, exactly that
  handle is added to what \<open>skynet_handle_grab\<close> finds, and the names are untouched, whether or
  not the table had to grow.
\<close>

theorem handle_register_refines:
  assumes "handle_inv ch s" "names_ok s" "ctx \<notin> live s" "card (live s) < 2 ^ 24 - 1"
  shows "\<exists>h s'. skynet_handle_register ch ctx s = Some (h, s')
     \<and> handle_inv (ch(ctx := h)) s' \<and> names_ok s' \<and> names s' = names s
     \<and> skynet_handle_lookup ch h s = None
     \<and> (\<forall>h'. skynet_handle_lookup (ch(ctx := h)) h' s' = (if h' = h then Some ctx else skynet_handle_lookup ch h' s))"
proof -
  obtain k where k: "slots_ok ch s k" using assms(1) by (auto simp: handle_inv_def)
  obtain h s' k' where r: "skynet_handle_register ch ctx s = Some (h, s')" "slots_ok (ch(ctx := h)) s' k'"
    "live s' = insert ctx (live s)" "\<forall>c \<in> live s. ch c \<noteq> h"
    "hs_name s' = hs_name s" "hs_name_count s' = hs_name_count s" "hs_name_cap s' = hs_name_cap s"
    using register_ok [OF k assms(3) room_of_card [OF k assms(4)]] by blast
  have fresh: "skynet_handle_lookup ch h s = None"
    using lookup_live [OF k, of h] r(4) by (meson not_Some_eq)
  have "skynet_handle_lookup (ch(ctx := h)) h' s' = (if h' = h then Some ctx else skynet_handle_lookup ch h' s)" for h'
  proof (rule option_eqI)
    fix c
    show "skynet_handle_lookup (ch(ctx := h)) h' s' = Some c
      \<longleftrightarrow> (if h' = h then Some ctx else skynet_handle_lookup ch h' s) = Some c"
      using lookup_live [OF r(2), of h' c] lookup_live [OF k, of h' c] r(3,4) assms(3) by auto
  qed
  moreover have "names_ok s'" "names s' = names s"
    using assms(2) r(5-7) by (simp_all add: names_ok_def names_def)
  ultimately show ?thesis using r(1,2) fresh by (auto simp: handle_inv_def)
qed

lemma handle_register_refines_witness:
  "\<exists>h s'. skynet_handle_register (\<lambda>_. 0x1000001) 11 demo_handles = Some (h, s')
     \<and> skynet_handle_lookup ((\<lambda>_. 0x1000001)(11 := h)) h s' = Some 11"
  using handle_register_refines [OF demo_handles_ok(1,2), of 11] demo_handles_ok(3) by auto

text \<open>
  Retiring refines deletion: it never fails, returns the context whose reference the
  caller drops, removes exactly that handle and exactly its names.
\<close>

theorem handle_retire_refines:
  assumes "handle_inv ch s" "names_ok s"
  shows "\<exists>s'. skynet_handle_retire ch h s = Some (skynet_handle_lookup ch h s, s')
     \<and> handle_inv ch s' \<and> names_ok s'
     \<and> (\<forall>h'. skynet_handle_lookup ch h' s' = (if h' = h then None else skynet_handle_lookup ch h' s))
     \<and> names s' = (if skynet_handle_lookup ch h s = None then names s else filter (\<lambda>x. snd x \<noteq> h) (names s))"
proof -
  obtain k where k: "slots_ok ch s k" using assms(1) by (auto simp: handle_inv_def)
  obtain s' where r: "skynet_handle_retire ch h s = Some (skynet_handle_lookup ch h s, s')"
    "slots_ok ch s' k" "names_ok s'"
    "case skynet_handle_lookup ch h s of None \<Rightarrow> s' = s
      | Some c \<Rightarrow> live s' = live s - {c} \<and> names s' = filter (\<lambda>x. snd x \<noteq> h) (names s)"
    using retire_ok [OF k assms(2), of h] by blast
  show ?thesis
  proof (cases "skynet_handle_lookup ch h s")
    case None
    with r k show ?thesis by (auto simp: handle_inv_def)
  next
    case (Some c)
    note L1 = lookup_live [OF r(2)] and L2 = lookup_live [OF k]
    have E: "live s' = live s - {c}" using Some r(4) by simp
    have "skynet_handle_lookup ch h' s' = (if h' = h then None else skynet_handle_lookup ch h' s)" for h'
    proof (rule option_eqI)
      fix d
      show "skynet_handle_lookup ch h' s' = Some d
        \<longleftrightarrow> (if h' = h then None else skynet_handle_lookup ch h' s) = Some d"
        using L1 [of h' d] L2 [of h' d] L2 [of h c] E live_handles_inj [OF k, of c d]
        by (cases "h' = h"; cases "d = c") (simp_all add: Some)
    qed
    with r Some show ?thesis by (auto simp: handle_inv_def)
  qed
qed

lemma handle_retire_refines_witness:
  "\<exists>s'. skynet_handle_retire (\<lambda>_. 0x1000001) 0x1000001 demo_handles = Some (Some 10, s') \<and> names s' = []"
proof -
  have "skynet_handle_lookup (\<lambda>_. 0x1000001) 0x1000001 demo_handles = Some 10" "names demo_handles = [([120], 0x1000001)]"
    by code_simp+
  with handle_retire_refines [OF demo_handles_ok(1,2), of "0x1000001"] show ?thesis by auto
qed

text \<open>
  C28: Names refine a finite map: \<open>skynet_handle_findname\<close> returns the handle bound to the
  name, 0 when there is none; \<open>skynet_handle_namehandle\<close> refuses a bound name and changes
  nothing, otherwise binds it, keeping the array sorted and the handles as they were.
\<close>

theorem handle_names_refine:
  assumes "names_ok s" "hs_name_count s < MAX_SLOT_SIZE div 2"
  shows "skynet_handle_findname key s = Some (case map_of (names s) key of Some h \<Rightarrow> h | None \<Rightarrow> 0)
     \<and> (case map_of (names s) key of
          Some _ \<Rightarrow> skynet_handle_namehandle h key s = Some (False, s)
        | None \<Rightarrow> \<exists>s'. skynet_handle_namehandle h key s = Some (True, s') \<and> names_ok s'
            \<and> map_of (names s') = (map_of (names s))(key \<mapsto> h)
            \<and> hs_slot s' = hs_slot s \<and> hs_slot_size s' = hs_slot_size s)"
proof (cases "map_of (names s) key")
  case (Some v)
  then have "search_name (hs_name s) key 0 (int (hs_name_count s) - 1) = Some (Inl v)"
    using search_names [OF assms(1), of key] by simp
  then show ?thesis
    using Some findname_eq [OF assms(1)] by (simp add: skynet_handle_namehandle_def)
next
  case None
  then obtain b where b: "b \<le> hs_name_count s"
    "search_name (hs_name s) key 0 (int (hs_name_count s) - 1) = Some (Inr (int b))"
    "\<forall>i < b. strcmp (fst (names s ! i)) key < 0"
    "\<forall>i. b \<le> i \<longrightarrow> i < length (names s) \<longrightarrow> 0 < strcmp (fst (names s ! i)) key"
    using search_names [OF assms(1), of key] by auto
  have sorted: "sorted_wrt name_less (take b (names s) @ (key, h) # drop b (names s))"
    using sorted_insert [OF _ _ b(3,4)] assms(1) b(1) length_names [OF assms(1)] by (auto simp: names_ok_def)
  obtain s' where s': "insert_name_before key h b s = Some s'" "names_ok s'"
    "names s' = take b (names s) @ (key, h) # drop b (names s)"
    "hs_slot s' = hs_slot s" "hs_slot_size s' = hs_slot_size s"
    using insert_name_before_ok [OF assms(1) b(1) assms(2) sorted] by blast
  have "skynet_handle_namehandle h key s = Some (True, s')"
    using b(2) s'(1) by (simp add: skynet_handle_namehandle_def)
  moreover have "map_of (names s') = (map_of (names s))(key \<mapsto> h)"
    unfolding s'(3) by (rule take_drop_in_alist [OF sorted])
  ultimately show ?thesis
    using None s'(2,4,5) findname_eq [OF assms(1)] by simp
qed

lemma handle_names_refine_witness:
  "skynet_handle_findname [120] demo_handles = Some 0x1000001
   \<and> (\<exists>s'. skynet_handle_namehandle 2 [65] demo_handles = Some (True, s'))"
proof -
  have "names demo_handles = [([120], 0x1000001)]" "hs_name_count demo_handles < MAX_SLOT_SIZE div 2"
    by (simp_all add: names_def demo_handles_def MAX_SLOT_SIZE_def)
  with handle_names_refine [OF demo_handles_ok(2), of "[120]"] handle_names_refine [OF demo_handles_ok(2), of "[65]" 2]
  show ?thesis by auto
qed

text \<open>
  \<open>skynet_handle_retireall\<close> terminates on a valid table whose contexts have their
  handles, and leaves no context in it.
\<close>

theorem retireall_empties:
  assumes "handle_inv ch s" "names_ok s" "\<forall>c \<in> live s. ch c \<noteq> 0"
  shows "\<exists>s'. skynet_handle_retireall ch s = Some s' \<and> handle_inv ch s' \<and> live s' = {}"
proof -
  obtain k where k: "slots_ok ch s k" using assms(1) by (auto simp: handle_inv_def)
  have all: "set [0..<hs_slot_size t] = {..<2 ^ k}" if "slots_ok ch t k" for t
    using slots_okD(3) [OF that] by auto
  obtain n s1 where s1: "retire_pass ch [0..<hs_slot_size s] 0 s = Some (n, s1)" "slots_ok ch s1 k" "names_ok s1"
    "\<forall>c \<in> live s1. c \<in> live s \<and> slot_hash (ch c) (2 ^ k) \<notin> set [0..<hs_slot_size s]"
    using retire_pass_ok [OF k assms(2,3), of "[0..<hs_slot_size s]" 0] all [OF k] by blast
  have e1: "live s1 = {}" using s1(4) unfolding all [OF k] by auto
  obtain s2 where s2: "retire_pass ch [0..<hs_slot_size s1] 0 s1 = Some (0, s2)" "slots_ok ch s2 k"
    "\<forall>c \<in> live s2. c \<in> live s1"
    using retire_pass_ok [OF s1(2,3), of "[0..<hs_slot_size s1]" 0] all [OF s1(2)] e1 by auto
  have "skynet_handle_retireall ch s1 = Some s2"
    using s2(1) by (subst skynet_handle_retireall.simps) simp
  moreover have "skynet_handle_retireall ch s = (if n = 0 then Some s1 else skynet_handle_retireall ch s1)"
    using s1(1) by (subst skynet_handle_retireall.simps) simp
  ultimately show ?thesis using e1 s1(2) s2(2,3) by (cases "n = 0") (auto simp: handle_inv_def)
qed

lemma retireall_empties_witness:
  "\<exists>s'. skynet_handle_retireall (\<lambda>_. 0x1000001) demo_handles = Some s' \<and> live s' = {}"
  using retireall_empties [OF demo_handles_ok(1,2)] by auto

definition register_all :: "(nat \<Rightarrow> u32) \<Rightarrow> nat list \<Rightarrow> handle_storage \<Rightarrow> ((nat \<Rightarrow> u32) \<times> handle_storage) option" where
  "register_all ch cs s = fold (\<lambda>c r. do {
      (ch, s) \<leftarrow> r; (h, s) \<leftarrow> skynet_handle_register ch c s; Some (ch(c := h), s) }) cs (Some (ch, s))"

lemma register_eval:
  "replicate 4 x = [x, x, x, x]" "replicate 8 x = [x, x, x, x, x, x, x, x]"
  "probe s handle (numeral n) =
     (let handle = (if handle > HANDLE_MASK then 1 else handle) in
      if hs_slot s ! slot_hash handle (hs_slot_size s) = None then Some handle
      else probe s (handle + 1) (pred_numeral n))"
  by (simp_all add: numeral_eq_Suc)


end
