(* ===== verification/MessageQueue.thy ===== *)
theory MessageQueue
  imports Prelude
begin

text \<open>
  \<open>skynet/skynet-src/skynet_mq.c\<close>, the operations on one mailbox: a ring buffer of messages
  that doubles when it fills up and remembers when it was overloaded. The global list of
  mailboxes is in theory \<open>GlobalQueue\<close>. Every operation runs under the mailbox's spinlock, so
  each is one function. \<open>queue\<close> is the malloc'ed array: \<open>None\<close> is a cell nobody has written
  yet, and reading such a cell or one outside the array has no result. The indices are \<open>nat\<close>:
  the C code keeps them in an \<open>int\<close>, which holds them as long as a mailbox has fewer than
  2^30 messages.
\<close>

section \<open>State\<close>

text \<open>
  What a message points to: the bytes of a block, or the \<open>remote_message\<close> a node hands to its
  harbor service.
\<close>

record remote_name =
  rn_name :: bytes
  rn_handle :: u32

datatype payload = is_Bytes: Bytes bytes | Remote (rm_destination: remote_name) (rm_message: "payload option") (rm_sz: u64) (rm_type: u32)

record skynet_message =
  msg_source :: u32
  msg_session :: u32
  msg_data :: "payload option"
  msg_sz :: u64

record message_queue =
  mq_handle :: u32
  mq_cap :: nat
  mq_head :: nat
  mq_tail :: nat
  mq_release :: nat
  mq_in_global :: nat
  mq_overload :: nat
  mq_overload_threshold :: nat
  mq_queue :: "skynet_message option list"
  mq_next :: "nat option"

definition DEFAULT_QUEUE_SIZE :: nat where "DEFAULT_QUEUE_SIZE = 64"
definition MQ_IN_GLOBAL :: nat where "MQ_IN_GLOBAL = 1"
definition MQ_OVERLOAD :: nat where "MQ_OVERLOAD = 1024"

section \<open>Operations\<close>

definition skynet_mq_create :: "u32 \<Rightarrow> message_queue" where
  "skynet_mq_create handle =
     \<lparr> mq_handle = handle, mq_cap = DEFAULT_QUEUE_SIZE, mq_head = 0, mq_tail = 0,
       mq_release = 0, mq_in_global = MQ_IN_GLOBAL, mq_overload = 0,
       mq_overload_threshold = MQ_OVERLOAD,
       mq_queue = replicate DEFAULT_QUEUE_SIZE None, mq_next = None \<rparr>"

definition skynet_mq_handle :: "message_queue \<Rightarrow> u32" where
  "skynet_mq_handle q = mq_handle q"

definition skynet_mq_length :: "message_queue \<Rightarrow> nat" where
  "skynet_mq_length q =
     (if mq_head q \<le> mq_tail q then mq_tail q - mq_head q else mq_tail q + mq_cap q - mq_head q)"

definition skynet_mq_overload :: "message_queue \<Rightarrow> nat \<times> message_queue" where
  "skynet_mq_overload q =
     (if mq_overload q \<noteq> 0 then (mq_overload q, q\<lparr>mq_overload := 0\<rparr>) else (0, q))"

text \<open>The loop of \<open>skynet_mq_pop\<close> over the threshold; with threshold 0 it does not end.\<close>

partial_function (option) overload_loop :: "nat \<Rightarrow> nat \<Rightarrow> nat \<Rightarrow> (nat \<times> nat) option" where
  "overload_loop len ov th = (if th < len then overload_loop len len (th * 2) else Some (ov, th))"

definition skynet_mq_pop :: "message_queue \<Rightarrow> (message_queue \<times> skynet_message option) option" where
  "skynet_mq_pop q =
     (if mq_head q \<noteq> mq_tail q then do {
        message \<leftarrow> rd (mq_queue q) (mq_head q);
        let head = ring_next (mq_cap q) (mq_head q);
        let len = int (mq_tail q) - int head;
        let len = (if len < 0 then len + int (mq_cap q) else len);
        (ov, th) \<leftarrow> overload_loop (nat len) (mq_overload q) (mq_overload_threshold q);
        Some (q\<lparr>mq_head := head, mq_overload := ov, mq_overload_threshold := th\<rparr>, Some message)
      } else
        Some (q\<lparr>mq_overload_threshold := MQ_OVERLOAD, mq_in_global := 0\<rparr>, None))"

text \<open>
  \<open>expand_queue\<close> copies \<open>cap\<close> cells, in queue order, to the front of an array twice as long.
  It copies cells without looking at them, so a cell nobody wrote stays so.
\<close>

definition expand_queue :: "message_queue \<Rightarrow> message_queue option" where
  "expand_queue q =
     (if mq_cap q = 0 \<or> length (mq_queue q) < mq_cap q then None else
      Some (q\<lparr>mq_queue := map (\<lambda>i. mq_queue q ! ((mq_head q + i) mod mq_cap q)) [0..<mq_cap q]
                            @ replicate (mq_cap q) None,
              mq_head := 0, mq_tail := mq_cap q, mq_cap := mq_cap q * 2\<rparr>))"

text \<open>
  \<open>skynet_mq_push\<close> up to the test of \<open>in_global\<close>, which involves the global queue.
\<close>

definition mq_store :: "skynet_message \<Rightarrow> message_queue \<Rightarrow> message_queue option" where
  "mq_store message q = do {
     cells \<leftarrow> wr (mq_queue q) (mq_tail q) message;
     let tail = ring_next (mq_cap q) (mq_tail q);
     let q = q\<lparr>mq_queue := cells, mq_tail := tail\<rparr>;
     if mq_head q = mq_tail q then expand_queue q else Some q }"

text \<open>\<open>_drop_queue\<close>: pop and drop until empty; the messages dropped, in order.\<close>

partial_function (option) drop_loop :: "message_queue \<Rightarrow> skynet_message list \<Rightarrow>
    (message_queue \<times> skynet_message list) option" where
  "drop_loop q dropped = do {
     (q', m) \<leftarrow> skynet_mq_pop q;
     (case m of None \<Rightarrow> Some (q', dropped)
      | Some msg \<Rightarrow> drop_loop q' (dropped @ [msg])) }"

section \<open>The mailbox as a list\<close>

definition mq_len :: "message_queue \<Rightarrow> nat" where
  "mq_len q = ring_len (mq_cap q) (mq_head q) (mq_tail q)"

definition mq_cells :: "message_queue \<Rightarrow> skynet_message option list" where
  "mq_cells q = ring (mq_queue q) (mq_cap q) (mq_head q) (mq_len q)"

definition mq_contents :: "message_queue \<Rightarrow> skynet_message list" where
  "mq_contents q = map the (mq_cells q)"

definition mq_inv :: "message_queue \<Rightarrow> bool" where
  "mq_inv q \<longleftrightarrow> mq_head q < mq_cap q \<and> mq_tail q < mq_cap q \<and> length (mq_queue q) = mq_cap q
     \<and> 0 < mq_overload_threshold q \<and> None \<notin> set (mq_cells q)"

lemma mq_invD:
  assumes "mq_inv q"
  shows "mq_head q < mq_cap q" "mq_tail q < mq_cap q" "length (mq_queue q) = mq_cap q"
    "0 < mq_overload_threshold q" "mq_cells q = map Some (mq_contents q)"
  using assms by (auto simp: mq_inv_def mq_contents_def o_def intro!: map_idI [symmetric])
    (metis option.collapse)

lemma length_mq_contents [simp]: "length (mq_contents q) = mq_len q"
  by (simp add: mq_contents_def mq_cells_def)

lemma mq_contents_Nil: "mq_inv q \<Longrightarrow> mq_contents q = [] \<longleftrightarrow> mq_head q = mq_tail q"
  by (metis length_0_conv length_mq_contents mq_invD(1,2) mq_len_def ring_len_0)

lemma mq_invI:
  assumes "mq_head q < mq_cap q" "mq_tail q < mq_cap q" "length (mq_queue q) = mq_cap q"
    "0 < mq_overload_threshold q" "mq_cells q = map Some xs"
  shows "mq_inv q" "mq_contents q = xs"
  using assms by (auto simp: mq_inv_def mq_contents_def o_def)

lemma overload_loop_total:
  "0 < th \<Longrightarrow> \<exists>ov' th'. overload_loop len ov th = Some (ov', th') \<and> 0 < th' \<and> len \<le> th'
     \<and> th \<le> th' \<and> ov' = (if th < len then len else ov)"
proof (induction "len - th" arbitrary: ov th rule: less_induct)
  case less
  show ?case
  proof (cases "th < len")
    case True
    with less.prems have "len - th * 2 < len - th" "0 < th * 2" by auto
    from less.hyps [OF this, of len] True less.prems show ?thesis
      by (subst overload_loop.simps) auto
  next
    case False
    with less.prems show ?thesis by (subst overload_loop.simps) auto
  qed
qed

lemma mq_flags [simp]:
  "mq_cells (q\<lparr>mq_in_global := g\<rparr>) = mq_cells q"
  "mq_cells (q\<lparr>mq_release := r\<rparr>) = mq_cells q"
  "mq_cells (q\<lparr>mq_next := n\<rparr>) = mq_cells q"
  "mq_cells (q\<lparr>mq_overload := ov\<rparr>) = mq_cells q"
  "mq_cells (q\<lparr>mq_overload_threshold := t\<rparr>) = mq_cells q"
  by (auto simp: mq_len_def mq_cells_def)

lemma mq_inv_flags [simp]:
  "mq_inv (q\<lparr>mq_in_global := g\<rparr>) = mq_inv q"
  "mq_inv (q\<lparr>mq_release := r\<rparr>) = mq_inv q"
  "mq_inv (q\<lparr>mq_next := n\<rparr>) = mq_inv q"
  "mq_inv (q\<lparr>mq_overload := ov\<rparr>) = mq_inv q"
  by (auto simp: mq_inv_def)

lemma mq_contents_flags [simp]:
  "mq_contents (q\<lparr>mq_in_global := g\<rparr>) = mq_contents q"
  "mq_contents (q\<lparr>mq_release := r\<rparr>) = mq_contents q"
  "mq_contents (q\<lparr>mq_next := n\<rparr>) = mq_contents q"
  "mq_contents (q\<lparr>mq_overload := ov\<rparr>) = mq_contents q"
  "mq_contents (q\<lparr>mq_overload_threshold := t\<rparr>) = mq_contents q"
  by (auto simp: mq_contents_def)

lemma mq_create_inv: "mq_inv (skynet_mq_create h)" "mq_contents (skynet_mq_create h) = []"
  by (rule mq_invI [where xs = "[]"]; simp add: skynet_mq_create_def mq_cells_def mq_len_def
      ring_len_def DEFAULT_QUEUE_SIZE_def MQ_OVERLOAD_def)+

section \<open>Pop\<close>

lemma mq_pop_empty:
  assumes "mq_inv q" "mq_contents q = []"
  shows "skynet_mq_pop q = Some (q\<lparr>mq_overload_threshold := MQ_OVERLOAD, mq_in_global := 0\<rparr>, None)"
    "mq_inv (q\<lparr>mq_overload_threshold := MQ_OVERLOAD, mq_in_global := 0\<rparr>)"
  using assms by (auto simp: skynet_mq_pop_def mq_contents_Nil mq_inv_def MQ_OVERLOAD_def)

lemma mq_pop_cons:
  assumes inv: "mq_inv q" and ne: "mq_contents q = x # xs"
  shows "\<exists>q'. skynet_mq_pop q = Some (q', Some x) \<and> mq_inv q' \<and> mq_contents q' = xs
     \<and> mq_in_global q' = mq_in_global q \<and> mq_release q' = mq_release q \<and> mq_next q' = mq_next q
     \<and> mq_handle q' = mq_handle q
     \<and> mq_overload q' = (if mq_overload_threshold q < length xs then length xs else mq_overload q)
     \<and> length xs \<le> mq_overload_threshold q'"
proof -
  let ?c = "mq_cap q" and ?h = "ring_next (mq_cap q) (mq_head q)" and ?t = "mq_tail q"
  let ?n = "ring_len ?c ?h ?t"
  note D = mq_invD [OF inv]
  have hd_ne: "mq_head q \<noteq> ?t"
    using ne mq_contents_Nil [OF inv] by auto
  have "mq_cells q = mq_queue q ! mq_head q # ring (mq_queue q) ?c ?h ?n"
    by (simp add: mq_cells_def mq_len_def ring_len_next_head [OF D(1,2) hd_ne] ring_Cons [OF D(1)])
  then have x: "mq_queue q ! mq_head q = Some x" and xs: "ring (mq_queue q) ?c ?h ?n = map Some xs"
    using D(5) ne by auto
  have n: "?n = length xs"
    using arg_cong [OF xs, of length] by simp
  have len: "nat (if int ?t - int ?h < 0 then int ?t - int ?h + int ?c else int ?t - int ?h) = ?n"
    using D(1,2) by (auto simp: ring_len_def ring_next_def)
  obtain ov th where loop: "overload_loop ?n (mq_overload q) (mq_overload_threshold q) = Some (ov, th)"
    "0 < th" "?n \<le> th" "ov = (if mq_overload_threshold q < ?n then ?n else mq_overload q)"
    using overload_loop_total [OF D(4)] by metis
  let ?q' = "q\<lparr>mq_head := ?h, mq_overload := ov, mq_overload_threshold := th\<rparr>"
  have "skynet_mq_pop q = Some (?q', Some x)"
    using hd_ne x D(1,3) loop(1) len by (simp add: skynet_mq_pop_def Let_def)
  moreover have "mq_inv ?q'" "mq_contents ?q' = xs"
    by (rule mq_invI [where xs = xs]; use D xs loop(2) in \<open>simp add: mq_cells_def mq_len_def\<close>)+
  ultimately show ?thesis
    using loop(3,4) n by (intro exI [of _ ?q']) simp
qed

section \<open>Push\<close>

lemma expand_queue_ring:
  assumes "mq_head q = mq_tail q" "mq_head q < mq_cap q" "length (mq_queue q) = mq_cap q"
    "0 < mq_overload_threshold q" "ring (mq_queue q) (mq_cap q) (mq_head q) (mq_cap q) = map Some xs"
  shows "\<exists>q'. expand_queue q = Some q' \<and> mq_inv q' \<and> mq_contents q' = xs \<and> mq_cap q' = 2 * mq_cap q
     \<and> mq_in_global q' = mq_in_global q \<and> mq_release q' = mq_release q \<and> mq_next q' = mq_next q
     \<and> mq_handle q' = mq_handle q"
proof -
  let ?q' = "q\<lparr>mq_queue := map Some xs @ replicate (mq_cap q) None, mq_head := 0,
               mq_tail := mq_cap q, mq_cap := mq_cap q * 2\<rparr>"
  have len: "length xs = mq_cap q"
    using arg_cong [OF assms(5), of length] by simp
  have "expand_queue q = Some ?q'"
    using assms by (simp add: expand_queue_def flip: assms(5)) (simp add: ring_def)
  moreover have "mq_inv ?q'" "mq_contents ?q' = xs"
    by (rule mq_invI [where xs = xs]; use assms len in \<open>simp add: mq_cells_def mq_len_def
        ring_len_def ring_front\<close>)+
  ultimately show ?thesis by (intro exI [of _ ?q']) simp
qed

lemma mq_store_snoc:
  assumes inv: "mq_inv q"
  shows "\<exists>q'. mq_store x q = Some q' \<and> mq_inv q' \<and> mq_contents q' = mq_contents q @ [x]
     \<and> mq_in_global q' = mq_in_global q \<and> mq_release q' = mq_release q \<and> mq_next q' = mq_next q
     \<and> mq_handle q' = mq_handle q"
proof -
  let ?c = "mq_cap q" and ?h = "mq_head q" and ?t = "ring_next (mq_cap q) (mq_tail q)"
  let ?q = "q\<lparr>mq_queue := (mq_queue q)[mq_tail q := Some x], mq_tail := ?t\<rparr>"
  note D = mq_invD [OF inv]
  have cells: "ring ((mq_queue q)[mq_tail q := Some x]) ?c ?h (Suc (mq_len q)) = map Some (mq_contents q @ [x])"
    using ring_store [OF D(1-3), of "Some x"] D(5) by (simp add: mq_cells_def mq_len_def)
  have store: "mq_store x q = (if ?h = ?t then expand_queue ?q else Some ?q)"
    using D by (simp add: mq_store_def Let_def)
  show ?thesis
  proof (cases "?h = ?t")
    case True
    have "Suc (mq_len q) = ?c"
      using ring_len_full [OF D(1,2)] True by (simp add: mq_len_def)
    then show ?thesis
      using expand_queue_ring [of ?q "mq_contents q @ [x]"] D cells True store by auto
  next
    case False
    have "ring_len ?c ?h ?t = Suc (mq_len q)"
      using ring_len_next_tail [OF D(1,2)] False by (simp add: mq_len_def)
    then have "mq_cells ?q = map Some (mq_contents q @ [x])"
      using cells by (simp add: mq_cells_def mq_len_def)
    moreover have "0 < ?c" using D(1) by simp
    ultimately have "mq_inv ?q" "mq_contents ?q = mq_contents q @ [x]"
      using D by (auto intro!: mq_invI [of ?q "mq_contents q @ [x]"])
    then show ?thesis using store False by (intro exI [of _ ?q]) simp
  qed
qed

interpretation mailbox: fifo mq_inv mq_contents mq_store skynet_mq_pop
proof
  fix q :: message_queue and x xs
  assume inv: "mq_inv q"
  show "\<exists>q'. mq_store x q = Some q' \<and> mq_inv q' \<and> mq_contents q' = mq_contents q @ [x]"
    using mq_store_snoc [OF inv] by blast
  show "\<exists>q'. skynet_mq_pop q = Some (q', None) \<and> mq_inv q' \<and> mq_contents q' = []"
    if "mq_contents q = []"
    using mq_pop_empty [OF inv that] that by simp
  show "\<exists>q'. skynet_mq_pop q = Some (q', Some x) \<and> mq_inv q' \<and> mq_contents q' = xs"
    if "mq_contents q = x # xs"
    using mq_pop_cons [OF inv that] by blast
qed

section \<open>Dropping a whole mailbox\<close>

lemma drop_loop_all:
  "mq_inv q \<Longrightarrow> \<exists>q'. drop_loop q acc = Some (q', acc @ mq_contents q) \<and> mq_inv q'
     \<and> mq_contents q' = [] \<and> mq_in_global q' = 0 \<and> mq_release q' = mq_release q \<and> mq_next q' = mq_next q
     \<and> mq_handle q' = mq_handle q"
proof (induction "mq_contents q" arbitrary: q acc)
  case Nil
  then show ?case using mq_pop_empty [of q] by (subst drop_loop.simps) simp
next
  case (Cons x xs)
  obtain q' where q': "skynet_mq_pop q = Some (q', Some x)" "mq_inv q'" "mq_contents q' = xs"
    "mq_release q' = mq_release q" "mq_next q' = mq_next q" "mq_handle q' = mq_handle q"
    using mq_pop_cons [OF Cons.prems Cons.hyps(2) [symmetric]] by blast
  from Cons.hyps(1) [of q' "acc @ [x]"] q' Cons.hyps(2) show ?case
    by (subst drop_loop.simps) (metis (mono_tags, lifting) append.assoc append_Cons append_Nil
        bind.bind_lunit case_prod_conv option.case(2))
qed

lemma mq_length_contents: "skynet_mq_length q = length (mq_contents q)"
  by (simp add: skynet_mq_length_def mq_len_def ring_len_def)

end
