(* ===== verification/GlobalQueue.thy ===== *)
theory GlobalQueue
  imports MessageQueue
begin

text \<open>
  \<open>skynet/skynet-src/skynet_mq.c\<close>, the global list of mailboxes the worker threads take their
  work from. Mailboxes live in a store from addresses to records and are linked through their
  \<open>next\<close> field; \<open>None\<close> is \<open>NULL\<close>. A function without a result is a failed assert or a
  dereference of memory that is not allocated (any more). The last part is the transition
  system of all threads over these operations, each of which the code runs under a spinlock.
\<close>

section \<open>State\<close>

record mq_mem =
  mqs :: "nat \<Rightarrow> message_queue option"
  gq_head :: "nat option"
  gq_tail :: "nat option"

definition skynet_mq_init :: mq_mem where
  "skynet_mq_init = \<lparr>mqs = (\<lambda>_. None), gq_head = None, gq_tail = None\<rparr>"

definition mq_put :: "nat \<Rightarrow> message_queue \<Rightarrow> mq_mem \<Rightarrow> mq_mem" where
  "mq_put p q s = s\<lparr>mqs := (mqs s)(p := Some q)\<rparr>"

definition mq_alloc :: "nat \<Rightarrow> u32 \<Rightarrow> mq_mem \<Rightarrow> mq_mem" where
  "mq_alloc p handle s = mq_put p (skynet_mq_create handle) s"

section \<open>Operations\<close>

definition skynet_globalmq_push :: "nat \<Rightarrow> mq_mem \<Rightarrow> mq_mem option" where
  "skynet_globalmq_push p s = do {
     q \<leftarrow> mqs s p;
     cassert (mq_next q = None);
     (case gq_tail s of
        Some t \<Rightarrow> do {
          tq \<leftarrow> mqs s t;
          Some ((mq_put t (tq\<lparr>mq_next := Some p\<rparr>) s)\<lparr>gq_tail := Some p\<rparr>) }
      | None \<Rightarrow> Some (s\<lparr>gq_head := Some p, gq_tail := Some p\<rparr>)) }"

definition skynet_globalmq_pop :: "mq_mem \<Rightarrow> (mq_mem \<times> nat option) option" where
  "skynet_globalmq_pop s =
     (case gq_head s of
        None \<Rightarrow> Some (s, None)
      | Some p \<Rightarrow> do {
          q \<leftarrow> mqs s p;
          let s = s\<lparr>gq_head := mq_next q\<rparr>;
          s \<leftarrow> (if gq_head s = None
               then do { cassert (gq_tail s = Some p); Some (s\<lparr>gq_tail := None\<rparr>) }
               else Some s);
          Some (mq_put p (q\<lparr>mq_next := None\<rparr>) s, Some p) })"

definition skynet_mq_push :: "nat \<Rightarrow> skynet_message \<Rightarrow> mq_mem \<Rightarrow> mq_mem option" where
  "skynet_mq_push p message s = do {
     q \<leftarrow> mqs s p;
     q \<leftarrow> mq_store message q;
     (if mq_in_global q = 0
      then skynet_globalmq_push p (mq_put p (q\<lparr>mq_in_global := MQ_IN_GLOBAL\<rparr>) s)
      else Some (mq_put p q s)) }"

definition mq_take :: "nat \<Rightarrow> mq_mem \<Rightarrow> (mq_mem \<times> skynet_message option) option" where
  "mq_take p s = do {
     q \<leftarrow> mqs s p;
     (q', r) \<leftarrow> skynet_mq_pop q;
     Some (mq_put p q' s, r) }"

definition skynet_mq_mark_release :: "nat \<Rightarrow> mq_mem \<Rightarrow> mq_mem option" where
  "skynet_mq_mark_release p s = do {
     q \<leftarrow> mqs s p;
     cassert (mq_release q = 0);
     let s = mq_put p (q\<lparr>mq_release := 1\<rparr>) s;
     (if mq_in_global q \<noteq> MQ_IN_GLOBAL then skynet_globalmq_push p s else Some s) }"

text \<open>\<open>_release\<close>: the mailbox and its array are freed.\<close>

definition mq_free :: "nat \<Rightarrow> mq_mem \<Rightarrow> mq_mem option" where
  "mq_free p s = do {
     q \<leftarrow> mqs s p;
     cassert (mq_next q = None);
     Some (s\<lparr>mqs := (mqs s)(p := None)\<rparr>) }"

definition drop_queue :: "nat \<Rightarrow> mq_mem \<Rightarrow> (mq_mem \<times> skynet_message list) option" where
  "drop_queue p s = do {
     q \<leftarrow> mqs s p;
     (q', dropped) \<leftarrow> drop_loop q [];
     s \<leftarrow> mq_free p (mq_put p q' s);
     Some (s, dropped) }"

definition skynet_mq_release :: "nat \<Rightarrow> mq_mem \<Rightarrow> (mq_mem \<times> skynet_message list) option" where
  "skynet_mq_release p s = do {
     q \<leftarrow> mqs s p;
     (if mq_release q \<noteq> 0 then drop_queue p s
      else do { s \<leftarrow> skynet_globalmq_push p s; Some (s, []) }) }"

section \<open>The global list\<close>

fun chain :: "(nat \<Rightarrow> message_queue option) \<Rightarrow> nat option \<Rightarrow> nat list \<Rightarrow> bool" where
  "chain m None ps = (ps = [])"
| "chain m (Some p) [] = False"
| "chain m (Some p) (p' # ps) =
     (p = p' \<and> (case m p of None \<Rightarrow> False | Some q \<Rightarrow> chain m (mq_next q) ps))"

definition gq_ok :: "mq_mem \<Rightarrow> nat list \<Rightarrow> bool" where
  "gq_ok s ps \<longleftrightarrow> chain (mqs s) (gq_head s) ps \<and> distinct ps
     \<and> gq_tail s = (if ps = [] then None else Some (last ps))
     \<and> (\<forall>p q. p \<notin> set ps \<longrightarrow> mqs s p = Some q \<longrightarrow> mq_next q = None)"

text \<open>A mailbox but for its link, which belongs to the global list.\<close>

definition unlinked :: "message_queue option \<Rightarrow> message_queue option" where
  "unlinked = map_option (\<lambda>q. q\<lparr>mq_next := None\<rparr>)"

lemma unlinked_simps [simp]: "unlinked None = None" "unlinked (Some q) = Some (q\<lparr>mq_next := None\<rparr>)"
  by (simp_all add: unlinked_def)

lemma unlinked_None [simp]: "unlinked m = None \<longleftrightarrow> m = None"
  by (simp add: unlinked_def)

lemma unlinked_eq_Some:
  assumes "unlinked m = unlinked (Some q)"
  shows "\<exists>n. m = Some (q\<lparr>mq_next := n\<rparr>)"
proof (cases m)
  case None
  with assms show ?thesis by simp
next
  case (Some q')
  with assms have "q'\<lparr>mq_next := None\<rparr> = q\<lparr>mq_next := None\<rparr>" by simp
  then have "q' = q\<lparr>mq_next := mq_next q'\<rparr>"
    by (cases q; cases q') simp
  then show ?thesis using Some by blast
qed

lemma chain_upd_other [simp]: "p \<notin> set ps \<Longrightarrow> chain (m(p := x)) h ps = chain m h ps"
  by (induction m h ps rule: chain.induct) (auto split: option.splits)

lemma chain_alloc: "chain m h ps \<Longrightarrow> p \<in> set ps \<Longrightarrow> m p \<noteq> None"
  by (induction m h ps rule: chain.induct) (auto split: option.splits)

lemma chain_same_next:
  "chain m h ps \<Longrightarrow> m p = Some q \<Longrightarrow> mq_next q' = mq_next q \<Longrightarrow> chain (m(p := Some q')) h ps"
  by (induction m h ps rule: chain.induct) (auto split: option.splits)

lemma chain_last:
  "chain m h ps \<Longrightarrow> ps \<noteq> [] \<Longrightarrow> distinct ps \<Longrightarrow> \<exists>q. m (last ps) = Some q \<and> mq_next q = None"
  by (induction m h ps rule: chain.induct) (auto split: option.splits elim: chain.elims)

lemma chain_snoc:
  assumes "chain m h ps" "ps \<noteq> []" "distinct ps" "p \<notin> set ps" "m (last ps) = Some t"
    "m p = Some q" "mq_next q = None"
  shows "chain (m(last ps := Some (t\<lparr>mq_next := Some p\<rparr>))) h (ps @ [p])"
  using assms
proof (induction m h ps rule: chain.induct)
  case (3 m p' p'' ps)
  then show ?case
  proof (cases "ps = []")
    case True
    with 3 show ?thesis by (auto split: option.splits)
  next
    case False
    obtain q1 where "m p' = Some q1" "chain m (mq_next q1) ps"
      using 3(2) by (auto split: option.splits)
    moreover from 3(4) False have "last ps \<noteq> p''" by auto
    ultimately show ?thesis using 3 False by auto
  qed
qed auto

lemma gq_ok_put:
  assumes "gq_ok s ps" "mqs s p = Some q" "mq_next q' = mq_next q"
  shows "gq_ok (mq_put p q' s) ps"
  using assms by (auto simp: gq_ok_def mq_put_def intro: chain_same_next split: if_splits)

lemma gq_ok_new:
  assumes "gq_ok s ps" "mqs s p = None" "mq_next q = None"
  shows "gq_ok (mq_put p q s) ps"
proof -
  have "p \<notin> set ps"
    using assms chain_alloc [of "mqs s" "gq_head s" ps p] by (auto simp: gq_ok_def)
  then show ?thesis using assms by (auto simp: gq_ok_def mq_put_def split: if_splits)
qed

lemma globalmq_push_ok:
  assumes "gq_ok s ps" "mqs s p = Some q" "p \<notin> set ps"
  shows "\<exists>s'. skynet_globalmq_push p s = Some s' \<and> gq_ok s' (ps @ [p])
     \<and> (\<forall>x. unlinked (mqs s' x) = unlinked (mqs s x))"
proof (cases "ps = []")
  case True
  with assms show ?thesis
    by (auto simp: skynet_globalmq_push_def gq_ok_def)
next
  case False
  from assms have C: "chain (mqs s) (gq_head s) ps" "distinct ps" and q: "mq_next q = None"
    by (auto simp: gq_ok_def)
  obtain t where t: "mqs s (last ps) = Some t" "mq_next t = None"
    using chain_last [OF C(1) False C(2)] by blast
  let ?s' = "(mq_put (last ps) (t\<lparr>mq_next := Some p\<rparr>) s)\<lparr>gq_tail := Some p\<rparr>"
  have "skynet_globalmq_push p s = Some ?s'"
    using assms False q t by (simp add: skynet_globalmq_push_def gq_ok_def)
  moreover have "gq_ok ?s' (ps @ [p])"
    using assms C q chain_snoc [OF C(1) False C(2) assms(3) t(1) assms(2) q] False
    by (auto simp: gq_ok_def mq_put_def split: if_splits)
  ultimately show ?thesis using t by (auto simp: mq_put_def)
qed

lemma globalmq_pop_ok:
  assumes "gq_ok s ps"
  shows "case ps of
     [] \<Rightarrow> skynet_globalmq_pop s = Some (s, None)
   | p # ps' \<Rightarrow> \<exists>s'. skynet_globalmq_pop s = Some (s', Some p) \<and> gq_ok s' ps'
       \<and> (\<forall>x. unlinked (mqs s' x) = unlinked (mqs s x))"
proof (cases ps)
  case Nil
  with assms show ?thesis by (auto simp: gq_ok_def skynet_globalmq_pop_def elim: chain.elims)
next
  case (Cons p ps')
  from assms Cons obtain q where q: "gq_head s = Some p" "mqs s p = Some q"
    "chain (mqs s) (mq_next q) ps'"
    by (cases "gq_head s") (auto simp: gq_ok_def split: option.splits)
  let ?s' = "mq_put p (q\<lparr>mq_next := None\<rparr>)
    (if mq_next q = None then s\<lparr>gq_head := None, gq_tail := None\<rparr> else s\<lparr>gq_head := mq_next q\<rparr>)"
  have last: "mq_next q = None \<longleftrightarrow> ps' = []"
    using q(3) by (cases "mq_next q"; cases ps') auto
  have "skynet_globalmq_pop s = Some (?s', Some p)"
    using assms Cons q last by (auto simp: skynet_globalmq_pop_def gq_ok_def)
  moreover have "gq_ok ?s' ps'"
    using assms Cons q last by (auto simp: gq_ok_def mq_put_def split: if_splits)
  ultimately show ?thesis using Cons q by (auto simp: mq_put_def)
qed

end
