(* ===== verification/Scheduler.thy ===== *)
theory Scheduler
  imports GlobalQueue
begin

text \<open>
  All threads of a node over the mailboxes of \<open>skynet_mq.c\<close>: the callers of
  \<open>skynet_context_push\<close> and \<open>skynet_context_send\<close> (\<open>send\<close>), \<open>skynet_context_new\<close>
  (\<open>create\<close>, then \<open>put\<close> or \<open>release\<close>), \<open>delete_context\<close> (\<open>mark\<close>), and the workers in
  \<open>skynet_context_message_dispatch\<close> (\<open>take\<close>, \<open>recv\<close>, \<open>idle\<close>, \<open>put\<close>, \<open>release\<close>). A thread
  holds the mailboxes it has in local variables; a worker that switches mailboxes holds two
  for a moment. Each rule is one critical section, so the relation has every interleaving.
  The guards on \<open>mq_release\<close> say what the callers know from the reference count of the
  context: nobody sends to, receives from or marks a mailbox after its context is deleted.
  \<open>sent\<close> and \<open>got\<close> are history variables.
\<close>

record sched =
  sm :: mq_mem
  held :: "nat \<Rightarrow> nat list"
  sent :: "nat \<Rightarrow> skynet_message list"
  got :: "nat \<Rightarrow> skynet_message list"

definition sched_hold :: "nat \<Rightarrow> nat \<Rightarrow> sched \<Rightarrow> sched" where
  "sched_hold t p s = s\<lparr>held := (held s)(t := p # held s t)\<rparr>"

definition sched_drop :: "nat \<Rightarrow> nat \<Rightarrow> sched \<Rightarrow> sched" where
  "sched_drop t p s = s\<lparr>held := (held s)(t := remove1 p (held s t))\<rparr>"

definition sched_init :: "sched \<Rightarrow> bool" where
  "sched_init s \<longleftrightarrow> sm s = skynet_mq_init \<and> (\<forall>t. held s t = [])"

inductive sched_step :: "sched \<Rightarrow> sched \<Rightarrow> bool" where
  create: "mqs (sm s) p = None \<Longrightarrow>
     sched_step s (sched_hold t p (s\<lparr>sm := mq_alloc p h (sm s),
       sent := (sent s)(p := []), got := (got s)(p := [])\<rparr>))"
| put: "p \<in> set (held s t) \<Longrightarrow> skynet_globalmq_push p (sm s) = Some m \<Longrightarrow>
     sched_step s (sched_drop t p (s\<lparr>sm := m\<rparr>))"
| take: "skynet_globalmq_pop (sm s) = Some (m, Some p) \<Longrightarrow>
     sched_step s (sched_hold t p (s\<lparr>sm := m\<rparr>))"
| send: "mqs (sm s) p = Some q \<Longrightarrow> mq_release q = 0 \<Longrightarrow> skynet_mq_push p msg (sm s) = Some m \<Longrightarrow>
     sched_step s (s\<lparr>sm := m, sent := (sent s)(p := sent s p @ [msg])\<rparr>)"
| recv: "p \<in> set (held s t) \<Longrightarrow> mqs (sm s) p = Some q \<Longrightarrow> mq_release q = 0 \<Longrightarrow>
     mq_take p (sm s) = Some (m, Some msg) \<Longrightarrow>
     sched_step s (s\<lparr>sm := m, got := (got s)(p := got s p @ [msg])\<rparr>)"
| idle: "p \<in> set (held s t) \<Longrightarrow> mqs (sm s) p = Some q \<Longrightarrow> mq_release q = 0 \<Longrightarrow>
     mq_take p (sm s) = Some (m, None) \<Longrightarrow>
     sched_step s (sched_drop t p (s\<lparr>sm := m\<rparr>))"
| mark: "mqs (sm s) p = Some q \<Longrightarrow> mq_release q = 0 \<Longrightarrow> skynet_mq_mark_release p (sm s) = Some m \<Longrightarrow>
     sched_step s (s\<lparr>sm := m\<rparr>)"
| release: "p \<in> set (held s t) \<Longrightarrow> skynet_mq_release p (sm s) = Some (m, dropped) \<Longrightarrow>
     sched_step s (sched_drop t p (s\<lparr>sm := m\<rparr>))"

section \<open>The ownership invariant\<close>

text \<open>
  \<open>b\<close> says whether the mailbox is in the global list or held by a thread. The two flags of
  the record agree with it, and a mailbox that is neither is empty.
\<close>

definition mq_good :: "bool \<Rightarrow> message_queue \<Rightarrow> bool" where
  "mq_good b q \<longleftrightarrow> mq_inv q \<and> mq_in_global q \<le> 1 \<and> mq_release q \<le> 1
     \<and> (b \<longleftrightarrow> mq_in_global q = 1 \<or> mq_release q = 1) \<and> (\<not> b \<longrightarrow> mq_contents q = [])"

definition busy :: "(nat \<Rightarrow> nat list) \<Rightarrow> nat list \<Rightarrow> nat \<Rightarrow> bool" where
  "busy h ps p \<longleftrightarrow> p \<in> set ps \<or> (\<exists>t. p \<in> set (h t))"

definition exclusive :: "(nat \<Rightarrow> nat list) \<Rightarrow> nat list \<Rightarrow> bool" where
  "exclusive h ps \<longleftrightarrow> (\<forall>t. distinct (h t)) \<and> (\<forall>t p. p \<in> set (h t) \<longrightarrow> p \<notin> set ps)
     \<and> (\<forall>t u p. p \<in> set (h t) \<longrightarrow> p \<in> set (h u) \<longrightarrow> t = u)"

fun cell_ok :: "bool \<Rightarrow> message_queue option \<Rightarrow> bool" where
  "cell_ok b None = (\<not> b)"
| "cell_ok b (Some q) = mq_good b q"

definition own_ok :: "(nat \<Rightarrow> message_queue option) \<Rightarrow> (nat \<Rightarrow> nat list) \<Rightarrow> nat list \<Rightarrow> bool" where
  "own_ok m h ps \<longleftrightarrow> exclusive h ps \<and> (\<forall>p. cell_ok (busy h ps p) (m p))"

definition mem_ok :: "mq_mem \<Rightarrow> (nat \<Rightarrow> nat list) \<Rightarrow> bool" where
  "mem_ok m h \<longleftrightarrow> (\<exists>ps. gq_ok m ps \<and> own_ok (mqs m) h ps)"

definition view :: "mq_mem \<Rightarrow> nat \<Rightarrow> skynet_message list option" where
  "view m p = map_option mq_contents (mqs m p)"

definition hist_ok :: "sched \<Rightarrow> bool" where
  "hist_ok s \<longleftrightarrow> (\<forall>p c. view (sm s) p = Some c \<longrightarrow> sent s p = got s p @ c)"

definition sched_inv :: "sched \<Rightarrow> bool" where
  "sched_inv s \<longleftrightarrow> mem_ok (sm s) (held s) \<and> hist_ok s"

lemma mq_good_next [simp]: "mq_good b (q\<lparr>mq_next := n\<rparr>) = mq_good b q"
  by (simp add: mq_good_def)

lemma mq_good_create: "mq_good True (skynet_mq_create h)"
  by (simp add: mq_good_def mq_create_inv) (simp add: skynet_mq_create_def MQ_IN_GLOBAL_def)

lemma cell_ok_unlinked: "cell_ok b (unlinked m) = cell_ok b m"
  by (cases m) simp_all

lemma own_ok_unlinked:
  assumes "own_ok m h ps" "\<And>x. unlinked (m' x) = unlinked (m x)"
  shows "own_ok m' h ps"
  using assms unfolding own_ok_def by (metis cell_ok_unlinked)

lemma own_okD:
  assumes "own_ok m h ps" "m p = Some q"
  shows "mq_good (busy h ps p) q"
  using assms by (metis own_ok_def cell_ok.simps(2))

lemma own_ok_busy_alloc:
  assumes "own_ok m h ps" "busy h ps p"
  shows "\<exists>q. m p = Some q \<and> mq_good True q"
  using assms by (cases "m p") (metis own_ok_def cell_ok.simps)+

lemma busy_simps:
  "busy h (ps @ [p]) x \<longleftrightarrow> x = p \<or> busy h ps x"
  "busy h (p # ps) x \<longleftrightarrow> x = p \<or> busy h ps x"
  "busy (h(t := p # h t)) ps x \<longleftrightarrow> x = p \<or> busy h ps x"
  by (auto simp: busy_def split: if_splits)

lemma busy_held: "p \<in> set (h t) \<Longrightarrow> busy h ps p"
  by (auto simp: busy_def)

text \<open>The moves of a mailbox between the global list, a thread and nobody.\<close>

lemma exclusive_moves:
  "exclusive h ps \<Longrightarrow> p \<in> set (h t) \<Longrightarrow> exclusive (h(t := remove1 p (h t))) (ps @ [p])"
  "exclusive h ps \<Longrightarrow> exclusive (h(t := remove1 p (h t))) ps"
  "exclusive h (p # ps) \<Longrightarrow> distinct (p # ps) \<Longrightarrow> exclusive (h(t := p # h t)) ps"
  "exclusive h ps \<Longrightarrow> \<not> busy h ps p \<Longrightarrow> exclusive h (ps @ [p])"
  "exclusive h ps \<Longrightarrow> \<not> busy h ps p \<Longrightarrow> exclusive (h(t := p # h t)) ps"
  by (auto simp: exclusive_def busy_def set_remove1_eq)

lemma busy_moves:
  assumes "exclusive h ps" "p \<in> set (h t)"
  shows "busy (h(t := remove1 p (h t))) (ps @ [p]) x = busy h ps x"
    "busy (h(t := remove1 p (h t))) ps x \<longleftrightarrow> x \<noteq> p \<and> busy h ps x"
  using assms by (auto simp: busy_def exclusive_def set_remove1_eq split: if_splits)

lemma own_ok_held_to_list:
  assumes "own_ok m h ps" "p \<in> set (h t)"
  shows "own_ok m (h(t := remove1 p (h t))) (ps @ [p])"
  using assms by (simp add: own_ok_def exclusive_moves busy_moves)

lemma own_ok_list_to_held:
  assumes "own_ok m h (p # ps)" "distinct (p # ps)"
  shows "own_ok m (h(t := p # h t)) ps"
  using assms exclusive_moves(3) [of h p ps t] by (simp add: own_ok_def busy_simps)

lemma own_ok_held_to_idle:
  assumes "own_ok m h ps" "p \<in> set (h t)" "cell_ok False c"
  shows "own_ok (m(p := c)) (h(t := remove1 p (h t))) ps"
  using assms by (simp add: own_ok_def exclusive_moves busy_moves)

lemma own_ok_idle_to_list:
  assumes "own_ok m h ps" "\<not> busy h ps p" "mq_good True q"
  shows "own_ok (m(p := Some q)) h (ps @ [p])"
  using assms by (simp add: own_ok_def exclusive_moves busy_simps)

lemma own_ok_new_held:
  assumes "own_ok m h ps" "\<not> busy h ps p" "mq_good True q"
  shows "own_ok (m(p := Some q)) (h(t := p # h t)) ps"
  using assms by (simp add: own_ok_def exclusive_moves busy_simps)

lemma own_ok_update:
  assumes "own_ok m h ps" "mq_good (busy h ps p) q"
  shows "own_ok (m(p := Some q)) h ps"
  using assms by (simp add: own_ok_def)

section \<open>Every operation keeps the invariant, and succeeds\<close>

lemma view_unlinked: "(\<And>x. unlinked (mqs m' x) = unlinked (mqs m x)) \<Longrightarrow> view m' = view m"
proof
  fix p assume "\<And>x. unlinked (mqs m' x) = unlinked (mqs m x)"
  then have "map_option mq_contents (unlinked (mqs m' p)) = map_option mq_contents (unlinked (mqs m p))"
    by simp
  then show "view m' p = view m p"
    by (simp add: view_def unlinked_def option.map_comp o_def)
qed

lemma view_put [simp]: "view (mq_put p q m) = (view m)(p := Some (mq_contents q))"
  by (auto simp: view_def mq_put_def)

lemma mqs_put [simp]: "mqs (mq_put p q m) = (mqs m)(p := Some q)"
  by (simp add: mq_put_def)

lemma mem_ok_create:
  assumes "mem_ok m h" "mqs m p = None"
  shows "mem_ok (mq_alloc p hdl m) (h(t := p # h t))"
proof -
  obtain ps where ps: "gq_ok m ps" "own_ok (mqs m) h ps"
    using assms by (auto simp: mem_ok_def)
  have "\<not> busy h ps p"
    using own_ok_busy_alloc [OF ps(2)] assms(2) by force
  then have "own_ok (mqs (mq_alloc p hdl m)) (h(t := p # h t)) ps"
    using own_ok_new_held [OF ps(2) _ mq_good_create] by (simp add: mq_alloc_def)
  moreover have "gq_ok (mq_alloc p hdl m) ps"
    using gq_ok_new [OF ps(1) assms(2)] by (simp add: mq_alloc_def skynet_mq_create_def)
  ultimately show ?thesis by (auto simp: mem_ok_def)
qed

lemma mem_ok_put:
  assumes "mem_ok m h" "p \<in> set (h t)"
  shows "\<exists>m'. skynet_globalmq_push p m = Some m' \<and> mem_ok m' (h(t := remove1 p (h t))) \<and> view m' = view m"
proof -
  obtain ps where ps: "gq_ok m ps" "own_ok (mqs m) h ps"
    using assms by (auto simp: mem_ok_def)
  obtain q where q: "mqs m p = Some q"
    using own_ok_busy_alloc [OF ps(2) busy_held [of p h t, OF assms(2)]] by blast
  have "p \<notin> set ps"
    using ps(2) assms(2) by (auto simp: own_ok_def exclusive_def)
  from globalmq_push_ok [OF ps(1) q this] obtain m' where
    m': "skynet_globalmq_push p m = Some m'" "gq_ok m' (ps @ [p])"
    and u: "\<And>x. unlinked (mqs m' x) = unlinked (mqs m x)" by blast
  have "own_ok (mqs m') (h(t := remove1 p (h t))) (ps @ [p])"
    using own_ok_held_to_list [OF ps(2) assms(2)] u by (rule own_ok_unlinked)
  with m' view_unlinked [of m' m, OF u] show ?thesis unfolding mem_ok_def by blast
qed

lemma mem_ok_take:
  assumes "mem_ok m h"
  shows "(\<exists>m' p. skynet_globalmq_pop m = Some (m', Some p) \<and> mem_ok m' (h(t := p # h t)) \<and> view m' = view m)
     \<or> skynet_globalmq_pop m = Some (m, None) \<and> own_ok (mqs m) h []"
proof -
  obtain ps where ps: "gq_ok m ps" "own_ok (mqs m) h ps"
    using assms by (auto simp: mem_ok_def)
  show ?thesis
  proof (cases ps)
    case Nil
    with globalmq_pop_ok [OF ps(1)] ps(2) show ?thesis by simp
  next
    case (Cons p ps')
    with globalmq_pop_ok [OF ps(1)] obtain m' where
      m': "skynet_globalmq_pop m = Some (m', Some p)" "gq_ok m' ps'"
      and u: "\<And>x. unlinked (mqs m' x) = unlinked (mqs m x)" by auto
    have "own_ok (mqs m) (h(t := p # h t)) ps'"
      using own_ok_list_to_held [of "mqs m" h p ps'] ps Cons by (auto simp: gq_ok_def)
    then have "own_ok (mqs m') (h(t := p # h t)) ps'"
      using u by (rule own_ok_unlinked)
    with m' view_unlinked [of m' m, OF u] show ?thesis unfolding mem_ok_def by blast
  qed
qed

lemma mem_ok_to_list:
  assumes "gq_ok m ps" "own_ok (mqs m) h ps" "\<not> busy h ps p" "mqs m p = Some q"
    "mq_next q' = mq_next q" "mq_good True q'"
  shows "\<exists>m'. skynet_globalmq_push p (mq_put p q' m) = Some m' \<and> mem_ok m' h
     \<and> view m' = (view m)(p := Some (mq_contents q'))"
proof -
  have "p \<notin> set ps" using assms(3) by (auto simp: busy_def)
  from globalmq_push_ok [OF gq_ok_put [OF assms(1,4,5)] _ this] obtain m' where
    "skynet_globalmq_push p (mq_put p q' m) = Some m'" "gq_ok m' (ps @ [p])"
    and u: "\<And>x. unlinked (mqs m' x) = unlinked (mqs (mq_put p q' m) x)" by auto
  moreover have "own_ok (mqs m') h (ps @ [p])"
    using own_ok_unlinked [OF own_ok_idle_to_list [OF assms(2,3,6)]] u by simp
  moreover have "view m' = view (mq_put p q' m)"
    using u by (rule view_unlinked)
  ultimately show ?thesis by (auto simp: mem_ok_def)
qed

lemma mem_ok_update:
  assumes "gq_ok m ps" "own_ok (mqs m) h ps" "mqs m p = Some q"
    "mq_next q' = mq_next q" "mq_good (busy h ps p) q'"
  shows "mem_ok (mq_put p q' m) h"
  using gq_ok_put [OF assms(1,3,4)] own_ok_update [OF assms(2,5)] by (auto simp: mem_ok_def)

lemma mem_ok_send:
  assumes "mem_ok m h" "mqs m p = Some q" "mq_release q = 0"
  shows "\<exists>m'. skynet_mq_push p msg m = Some m' \<and> mem_ok m' h
     \<and> view m' = (view m)(p := Some (mq_contents q @ [msg]))"
proof -
  obtain ps where ps: "gq_ok m ps" "own_ok (mqs m) h ps"
    using assms by (auto simp: mem_ok_def)
  have good: "mq_good (busy h ps p) q" by (rule own_okD [OF ps(2) assms(2)])
  then obtain q' where q': "mq_store msg q = Some q'" "mq_inv q'" "mq_contents q' = mq_contents q @ [msg]"
    "mq_in_global q' = mq_in_global q" "mq_release q' = mq_release q" "mq_next q' = mq_next q"
    using mq_store_snoc [of q msg] by (auto simp: mq_good_def)
  show ?thesis
  proof (cases "mq_in_global q = 0")
    case True
    then have "\<not> busy h ps p" using good assms(3) by (auto simp: mq_good_def)
    moreover have "mq_good True (q'\<lparr>mq_in_global := MQ_IN_GLOBAL\<rparr>)"
      using q' good by (auto simp: mq_good_def MQ_IN_GLOBAL_def)
    ultimately show ?thesis
      using mem_ok_to_list [OF ps _ assms(2), of "q'\<lparr>mq_in_global := MQ_IN_GLOBAL\<rparr>"] q' True assms(2)
      by (simp add: skynet_mq_push_def)
  next
    case False
    then have "mq_good (busy h ps p) q'" using q' good by (auto simp: mq_good_def)
    then show ?thesis
      using mem_ok_update [OF ps assms(2) q'(6)] q' False assms(2) by (simp add: skynet_mq_push_def)
  qed
qed

lemma mem_ok_recv:
  assumes "mem_ok m h" "p \<in> set (h t)" "mqs m p = Some q" "mq_release q = 0"
  shows "mq_contents q = [] \<and> (\<exists>m'. mq_take p m = Some (m', None)
       \<and> mem_ok m' (h(t := remove1 p (h t))) \<and> view m' = view m)
     \<or> (\<exists>m' msg xs. mq_take p m = Some (m', Some msg) \<and> mq_contents q = msg # xs
       \<and> mem_ok m' h \<and> view m' = (view m)(p := Some xs))"
proof -
  obtain ps where ps: "gq_ok m ps" "own_ok (mqs m) h ps"
    using assms by (auto simp: mem_ok_def)
  have "mq_good True q"
    using own_okD [OF ps(2) assms(3)] busy_held [of p h t ps, OF assms(2)] by simp
  then have good: "mq_inv q" "mq_in_global q = 1" "busy h ps p"
    using busy_held [of p h t ps, OF assms(2)] assms(4) by (auto simp: mq_good_def)
  show ?thesis
  proof (cases "mq_contents q")
    case Nil
    let ?q = "q\<lparr>mq_overload_threshold := MQ_OVERLOAD, mq_in_global := 0\<rparr>"
    have "cell_ok False (Some ?q)"
      using mq_pop_empty(2) [OF good(1) Nil] Nil assms(4) by (simp add: mq_good_def)
    then have "own_ok (mqs (mq_put p ?q m)) (h(t := remove1 p (h t))) ps"
      using own_ok_held_to_idle [OF ps(2) assms(2)] by simp
    moreover have "gq_ok (mq_put p ?q m) ps"
      using gq_ok_put [OF ps(1) assms(3)] by simp
    moreover have "view (mq_put p ?q m) = view m"
      using Nil assms(3) by (auto simp: view_def)
    ultimately show ?thesis
      using mq_pop_empty(1) [OF good(1) Nil] Nil assms(3) by (auto simp: mq_take_def mem_ok_def)
  next
    case (Cons msg xs)
    obtain q' where q': "skynet_mq_pop q = Some (q', Some msg)" "mq_inv q'" "mq_contents q' = xs"
      "mq_in_global q' = mq_in_global q" "mq_release q' = mq_release q" "mq_next q' = mq_next q"
      using mq_pop_cons [OF good(1) Cons] by blast
    have "mq_good (busy h ps p) q'" using q' good assms(4) by (auto simp: mq_good_def)
    then show ?thesis
      using mem_ok_update [OF ps assms(3) q'(6)] q' Cons assms(3) by (auto simp: mq_take_def)
  qed
qed

lemma mem_ok_mark:
  assumes "mem_ok m h" "mqs m p = Some q" "mq_release q = 0"
  shows "\<exists>m'. skynet_mq_mark_release p m = Some m' \<and> mem_ok m' h \<and> view m' = view m"
proof -
  obtain ps where ps: "gq_ok m ps" "own_ok (mqs m) h ps"
    using assms by (auto simp: mem_ok_def)
  have good: "mq_good (busy h ps p) q" by (rule own_okD [OF ps(2) assms(2)])
  let ?q = "q\<lparr>mq_release := 1\<rparr>"
  have view: "(view m)(p := Some (mq_contents q)) = view m"
    using assms(2) by (auto simp: view_def)
  show ?thesis
  proof (cases "mq_in_global q = MQ_IN_GLOBAL")
    case True
    then have "mq_good (busy h ps p) ?q"
      using good by (auto simp: mq_good_def MQ_IN_GLOBAL_def)
    then show ?thesis
      using mem_ok_update [OF ps assms(2), of ?q] True assms view
      by (simp add: skynet_mq_mark_release_def)
  next
    case False
    then have "\<not> busy h ps p" "mq_good True ?q"
      using good assms(3) by (auto simp: mq_good_def MQ_IN_GLOBAL_def)
    then show ?thesis
      using mem_ok_to_list [OF ps _ assms(2), of ?q] False assms view
      by (simp add: skynet_mq_mark_release_def)
  qed
qed

lemma mem_ok_release:
  assumes "mem_ok m h" "p \<in> set (h t)" "mqs m p = Some q"
  shows "\<exists>m' d. skynet_mq_release p m = Some (m', d) \<and> mem_ok m' (h(t := remove1 p (h t)))
     \<and> (if mq_release q = 0 then d = [] \<and> view m' = view m
        else d = mq_contents q \<and> view m' = (view m)(p := None))"
proof (cases "mq_release q = 0")
  case True
  with mem_ok_put [OF assms(1,2)] assms(3) show ?thesis
    by (auto simp: skynet_mq_release_def)
next
  case False
  obtain ps where ps: "gq_ok m ps" "own_ok (mqs m) h ps"
    using assms by (auto simp: mem_ok_def)
  have notin: "p \<notin> set ps"
    using ps(2) assms(2) by (auto simp: own_ok_def exclusive_def)
  have nx: "mq_next q = None"
    using ps(1) notin assms(3) by (simp add: gq_ok_def)
  have inv: "mq_inv q"
    using own_okD [OF ps(2) assms(3)] by (simp add: mq_good_def)
  obtain q' where q': "drop_loop q [] = Some (q', mq_contents q)" "mq_next q' = mq_next q"
    using drop_loop_all [OF inv, of "[]"] by auto
  let ?m = "m\<lparr>mqs := (mqs m)(p := None)\<rparr>"
  have "skynet_mq_release p m = Some (?m, mq_contents q)"
    using assms(3) False q' nx
    by (simp add: skynet_mq_release_def drop_queue_def mq_free_def) (simp add: mq_put_def)
  moreover have "gq_ok ?m ps"
    using ps(1) notin by (auto simp: gq_ok_def)
  moreover have "own_ok (mqs ?m) (h(t := remove1 p (h t))) ps"
    using own_ok_held_to_idle [OF ps(2) assms(2), of None] by simp
  moreover have "view ?m = (view m)(p := None)" by (auto simp: view_def)
  ultimately show ?thesis using False by (auto simp: mem_ok_def)
qed

section \<open>The invariant over every interleaving\<close>

lemma sched_sel [simp]:
  "sm (sched_hold t p s) = sm s" "sent (sched_hold t p s) = sent s" "got (sched_hold t p s) = got s"
  "held (sched_hold t p s) = (held s)(t := p # held s t)"
  "sm (sched_drop t p s) = sm s" "sent (sched_drop t p s) = sent s" "got (sched_drop t p s) = got s"
  "held (sched_drop t p s) = (held s)(t := remove1 p (held s t))"
  by (simp_all add: sched_hold_def sched_drop_def)

lemma sched_init_inv: "sched_init s \<Longrightarrow> sched_inv s"
  by (auto simp: sched_init_def sched_inv_def mem_ok_def gq_ok_def own_ok_def exclusive_def busy_def
      hist_ok_def view_def skynet_mq_init_def intro!: exI [of _ "[]"])

lemma held_alloc:
  assumes "mem_ok m h" "p \<in> set (h t)"
  shows "\<exists>q. mqs m p = Some q \<and> mq_good True q"
  using assms own_ok_busy_alloc busy_held unfolding mem_ok_def by metis

lemma hist_ok_upd:
  assumes "hist_ok s" "view (sm t) = (view (sm s))(p := Some c)"
    "\<And>x. x \<noteq> p \<Longrightarrow> sent t x = sent s x \<and> got t x = got s x" "sent t p = got t p @ c"
  shows "hist_ok t"
  using assms by (auto simp: hist_ok_def split: if_splits)

lemma sched_step_inv: "sched_step s s' \<Longrightarrow> sched_inv s \<Longrightarrow> sched_inv s'"
proof (induction rule: sched_step.induct)
  case (create s p t h)
  have "hist_ok (sched_hold t p (s\<lparr>sm := mq_alloc p h (sm s), sent := (sent s)(p := []), got := (got s)(p := [])\<rparr>))"
    by (rule hist_ok_upd [of s _ p "[]"])
      (use create in \<open>auto simp: sched_inv_def mq_alloc_def mq_create_inv\<close>)
  with create mem_ok_create show ?case by (simp add: sched_inv_def)
next
  case (put p s t m)
  with mem_ok_put [of "sm s" "held s" p t] show ?case
    by (auto simp: sched_inv_def hist_ok_def)
next
  case (take s m p t)
  with mem_ok_take [of "sm s" "held s" t] show ?case
    by (auto simp: sched_inv_def hist_ok_def)
next
  case (send s p q msg m)
  have v: "mem_ok m (held s)" "view m = (view (sm s))(p := Some (mq_contents q @ [msg]))"
    using mem_ok_send [of "sm s" "held s" p q msg] send by (auto simp: sched_inv_def)
  have "sent s p = got s p @ mq_contents q"
    using send by (auto simp: sched_inv_def hist_ok_def view_def)
  then have "hist_ok (s\<lparr>sm := m, sent := (sent s)(p := sent s p @ [msg])\<rparr>)"
    using send(4) v(2) by - (rule hist_ok_upd [of s _ p "mq_contents q @ [msg]"], simp_all add: sched_inv_def)
  with v show ?case by (simp add: sched_inv_def)
next
  case (recv p s t q m msg)
  obtain xs where v: "mq_contents q = msg # xs" "mem_ok m (held s)" "view m = (view (sm s))(p := Some xs)"
    using mem_ok_recv [of "sm s" "held s" p t q] recv by (auto simp: sched_inv_def)
  have "sent s p = got s p @ mq_contents q"
    using recv by (auto simp: sched_inv_def hist_ok_def view_def)
  then have "hist_ok (s\<lparr>sm := m, got := (got s)(p := got s p @ [msg])\<rparr>)"
    using recv(5) v by - (rule hist_ok_upd [of s _ p xs], simp_all add: sched_inv_def)
  with v show ?case by (simp add: sched_inv_def)
next
  case (idle p s t q m)
  with mem_ok_recv [of "sm s" "held s" p t q] show ?case
    by (auto simp: sched_inv_def hist_ok_def)
next
  case (mark s p q m)
  with mem_ok_mark [of "sm s" "held s" p q] show ?case
    by (auto simp: sched_inv_def hist_ok_def)
next
  case (release p s t m dropped)
  then obtain q where q: "mqs (sm s) p = Some q"
    using held_alloc [of "sm s" "held s" p t] by (auto simp: sched_inv_def)
  have v: "mem_ok m ((held s)(t := remove1 p (held s t)))"
    "view m = (if mq_release q = 0 then view (sm s) else (view (sm s))(p := None))"
    using mem_ok_release [of "sm s" "held s" p t q] release q by (auto simp: sched_inv_def split: if_splits)
  then have "hist_ok (sched_drop t p (s\<lparr>sm := m\<rparr>))"
    using release by (auto simp: sched_inv_def hist_ok_def split: if_splits)
  with v show ?case by (simp add: sched_inv_def)
qed

interpretation scheduler: machine sched_init sched_step sched_inv
  by unfold_locales (auto intro: sched_init_inv sched_step_inv)

section \<open>Properties\<close>

text \<open>For the witnesses: thread 0 creates mailbox 7 and thread 1 sends to it.\<close>

definition demo_msg :: skynet_message where
  "demo_msg = \<lparr>msg_source = 1, msg_session = 2, msg_data = Some (Bytes [3]), msg_sz = 4\<rparr>"

definition demo_s0 :: sched where
  "demo_s0 = \<lparr>sm = skynet_mq_init, held = \<lambda>_. [], sent = \<lambda>_. [], got = \<lambda>_. []\<rparr>"

definition demo_s1 :: sched where
  "demo_s1 = sched_hold 0 7 (demo_s0\<lparr>sm := mq_alloc 7 9 (sm demo_s0), sent := (sent demo_s0)(7 := []), got := (got demo_s0)(7 := [])\<rparr>)"

definition demo_s2 :: sched where
  "demo_s2 = demo_s1\<lparr>sm := the (skynet_mq_push 7 demo_msg (sm demo_s1)), sent := (sent demo_s1)(7 := sent demo_s1 7 @ [demo_msg])\<rparr>"

lemma demo_eval:
  "map_option mq_release (mqs (sm demo_s1) 7) = Some 0" "skynet_mq_push 7 demo_msg (sm demo_s1) \<noteq> None"
  "map_option mq_contents (mqs (sm demo_s2) 7) = Some [demo_msg]" "map_option mq_release (mqs (sm demo_s2) 7) = Some 0"
  "held demo_s2 0 = [7]" "sent demo_s2 7 = [demo_msg]"
  by code_simp+

lemma demo_reach: "reach sched_init sched_step demo_s2"
proof -
  have "reach sched_init sched_step demo_s0"
    by (rule reach_init) (simp add: sched_init_def demo_s0_def)
  moreover have "sched_step demo_s0 demo_s1"
    unfolding demo_s1_def by (rule sched_step.create) (simp add: demo_s0_def skynet_mq_init_def)
  moreover obtain q where "mqs (sm demo_s1) 7 = Some q" "mq_release q = 0"
    using demo_eval(1) by auto
  then have "sched_step demo_s1 demo_s2"
    unfolding demo_s2_def by (rule sched_step.send) (use demo_eval(2) in simp)
  ultimately show ?thesis by (blast intro: reach_step)
qed

lemma demo_mailbox: obtains q where "mqs (sm demo_s2) 7 = Some q" "mq_contents q = [demo_msg]" "mq_release q = 0"
  using demo_eval(3,4) by auto

text \<open>
  C2: No lost wake-up. In every reachable state of every interleaving of senders, workers,
  creators and deleters, a mailbox that has messages is in the global list or held by a
  thread, so some worker will find it.
\<close>

theorem no_lost_wakeup:
  assumes "reach sched_init sched_step s" "mqs (sm s) p = Some q" "mq_contents q \<noteq> []"
  shows "\<exists>ps. chain (mqs (sm s)) (gq_head (sm s)) ps \<and> (p \<in> set ps \<or> (\<exists>t. p \<in> set (held s t)))"
proof -
  obtain ps where ps: "gq_ok (sm s) ps" "own_ok (mqs (sm s)) (held s) ps"
    using scheduler.reach_inv [OF assms(1)] by (auto simp: sched_inv_def mem_ok_def)
  have "busy (held s) ps p"
    using own_okD [OF ps(2) assms(2)] assms(3) by (auto simp: mq_good_def)
  then show ?thesis using ps(1) by (auto simp: gq_ok_def busy_def)
qed

lemma no_lost_wakeup_witness:
  "\<exists>ps. chain (mqs (sm demo_s2)) (gq_head (sm demo_s2)) ps \<and> (7 \<in> set ps \<or> (\<exists>t. 7 \<in> set (held demo_s2 t)))"
proof (rule demo_mailbox)
  fix q assume "mqs (sm demo_s2) 7 = Some q" "mq_contents q = [demo_msg]"
  then show ?thesis using no_lost_wakeup [OF demo_reach] by (metis list.distinct(1))
qed

text \<open>
  C24: Exclusive dispatch. In every reachable state a mailbox is in the global list at most
  once, is held by at most one thread, is not both, and what is listed or held is allocated:
  two workers never run the same service and none touches a freed mailbox.
\<close>

theorem exclusive_dispatch:
  assumes "reach sched_init sched_step s"
  shows "\<exists>ps. chain (mqs (sm s)) (gq_head (sm s)) ps \<and> distinct ps
     \<and> (\<forall>p t u. p \<in> set (held s t) \<and> p \<in> set (held s u) \<longrightarrow> t = u)
     \<and> (\<forall>p t. p \<in> set (held s t) \<longrightarrow> p \<notin> set ps)
     \<and> (\<forall>p. p \<in> set ps \<or> (\<exists>t. p \<in> set (held s t)) \<longrightarrow> mqs (sm s) p \<noteq> None)"
proof -
  obtain ps where ps: "gq_ok (sm s) ps" "own_ok (mqs (sm s)) (held s) ps"
    using scheduler.reach_inv [OF assms(1)] by (auto simp: sched_inv_def mem_ok_def)
  have "mqs (sm s) p \<noteq> None" if "busy (held s) ps p" for p
    using own_ok_busy_alloc [OF ps(2) that] by auto
  then show ?thesis
    using ps by (intro exI [of _ ps]) (auto simp: gq_ok_def own_ok_def exclusive_def busy_def)
qed

lemma exclusive_dispatch_witness:
  "\<exists>ps. chain (mqs (sm demo_s2)) (gq_head (sm demo_s2)) ps \<and> 7 \<notin> set ps"
  using exclusive_dispatch [OF demo_reach] demo_eval(5) by (metis list.set_intros(1))

text \<open>
  C1: FIFO delivery without loss or duplication. The messages pushed to a live mailbox are,
  in order, those its workers have popped followed by those still in it.
\<close>

theorem mailbox_history:
  assumes "reach sched_init sched_step s" "mqs (sm s) p = Some q"
  shows "sent s p = got s p @ mq_contents q"
  using scheduler.reach_inv [OF assms(1)] assms(2) by (auto simp: sched_inv_def hist_ok_def view_def)

lemma mailbox_history_witness: "sent demo_s2 7 = got demo_s2 7 @ [demo_msg]"
  by (rule demo_mailbox) (metis mailbox_history [OF demo_reach])

text \<open>
  C29: No operation gets stuck. In every reachable state, the operations a thread may call
  (push to a live mailbox, take from the global list, pop, put back, mark or release what
  it holds) return: no assert of the file fails and nothing freed or unwritten is read.
\<close>

theorem scheduler_ops_succeed:
  assumes "reach sched_init sched_step s"
  shows "skynet_globalmq_pop (sm s) \<noteq> None
    \<and> (\<forall>p t. p \<in> set (held s t) \<longrightarrow> skynet_globalmq_push p (sm s) \<noteq> None \<and> skynet_mq_release p (sm s) \<noteq> None)
    \<and> (\<forall>p q msg. mqs (sm s) p = Some q \<and> mq_release q = 0 \<longrightarrow>
         skynet_mq_push p msg (sm s) \<noteq> None \<and> skynet_mq_mark_release p (sm s) \<noteq> None)
    \<and> (\<forall>p q t. mqs (sm s) p = Some q \<and> mq_release q = 0 \<and> p \<in> set (held s t) \<longrightarrow> mq_take p (sm s) \<noteq> None)"
proof (intro conjI allI impI)
  have ok: "mem_ok (sm s) (held s)"
    using scheduler.reach_inv [OF assms(1)] by (simp add: sched_inv_def)
  show "skynet_globalmq_pop (sm s) \<noteq> None"
    using mem_ok_take [OF ok, of 0] by auto
  fix p q t msg
  show "skynet_globalmq_push p (sm s) \<noteq> None" if "p \<in> set (held s t)"
    using mem_ok_put [OF ok that] by auto
  show "skynet_mq_release p (sm s) \<noteq> None" if "p \<in> set (held s t)"
    using mem_ok_release [OF ok that] held_alloc [OF ok that] by (metis option.distinct(1))
  show "skynet_mq_push p msg (sm s) \<noteq> None" if "mqs (sm s) p = Some q \<and> mq_release q = 0"
    using mem_ok_send [OF ok, of p q msg] that by auto
  show "skynet_mq_mark_release p (sm s) \<noteq> None" if "mqs (sm s) p = Some q \<and> mq_release q = 0"
    using mem_ok_mark [OF ok, of p q] that by auto
  show "mq_take p (sm s) \<noteq> None" if "mqs (sm s) p = Some q \<and> mq_release q = 0 \<and> p \<in> set (held s t)"
    using mem_ok_recv [OF ok, of p t q] that by auto
qed

lemma scheduler_ops_succeed_witness:
  "skynet_globalmq_pop (sm demo_s2) \<noteq> None \<and> mq_take 7 (sm demo_s2) \<noteq> None \<and> skynet_mq_push 7 demo_msg (sm demo_s2) \<noteq> None"
proof (rule demo_mailbox)
  fix q
  assume "mqs (sm demo_s2) 7 = Some q" "mq_contents q = [demo_msg]" "mq_release q = 0"
  then show ?thesis
    using scheduler_ops_succeed [OF demo_reach] demo_eval(5) by (metis list.set_intros(1))
qed

end
