(* ===== verification/Timer.thy ===== *)
theory Timer
  imports MessageQueue "HOL-Library.Multiset"
begin

text \<open>
  \<open>skynet/skynet-src/skynet_timer.c\<close>: the hierarchical timing wheel. A timer is in one of
  256 near slots or 4 levels of 64 slots, chosen by \<open>add_node\<close> from its expiry tick and the
  current tick, both 32-bit counters that wrap; \<open>timer_shift\<close> advances the tick and moves one
  slot down when a block boundary is crossed; \<open>timer_execute\<close> dispatches the near slot of the
  tick. A \<open>link_list\<close> is the list of its nodes. The wheel is guarded by a spin lock which
  \<open>timer_execute\<close> releases while it dispatches: the timers other threads add meanwhile are an
  argument, one batch for each turn of its loop. The clock is an argument of \<open>skynet_updatetime\<close>.
\<close>

section \<open>State and operations\<close>

record timer_event =
  te_handle :: u32
  te_session :: u32

record timer_node =
  tn_expire :: u32
  tn_event :: timer_event

record timer =
  tm_near :: "timer_node list list"
  tm_t :: "timer_node list list list"
  tm_time :: u32
  tm_current :: u64
  tm_current_point :: u64

definition TIME_NEAR_SHIFT :: nat where "TIME_NEAR_SHIFT = 8"
definition TIME_NEAR :: nat where "TIME_NEAR = 256"
definition TIME_LEVEL_SHIFT :: nat where "TIME_LEVEL_SHIFT = 6"
definition TIME_LEVEL :: nat where "TIME_LEVEL = 64"
definition TIME_NEAR_MASK :: u32 where "TIME_NEAR_MASK = 255"
definition TIME_LEVEL_MASK :: u32 where "TIME_LEVEL_MASK = 63"

definition near_link :: "nat \<Rightarrow> timer_node \<Rightarrow> timer \<Rightarrow> timer" where
  "near_link j n T = T\<lparr>tm_near := (tm_near T)[j := tm_near T ! j @ [n]]\<rparr>"

definition near_clear :: "nat \<Rightarrow> timer \<Rightarrow> timer" where
  "near_clear j T = T\<lparr>tm_near := (tm_near T)[j := []]\<rparr>"

definition level_link :: "nat \<Rightarrow> nat \<Rightarrow> timer_node \<Rightarrow> timer \<Rightarrow> timer" where
  "level_link i j n T = T\<lparr>tm_t := (tm_t T)[i := (tm_t T ! i)[j := tm_t T ! i ! j @ [n]]]\<rparr>"

definition level_clear :: "nat \<Rightarrow> nat \<Rightarrow> timer \<Rightarrow> timer" where
  "level_clear i j T = T\<lparr>tm_t := (tm_t T)[i := (tm_t T ! i)[j := []]]\<rparr>"

text \<open>The loop of \<open>add_node\<close>: \<open>n\<close> turns left, the final value of \<open>i\<close>.\<close>

fun add_level :: "nat \<Rightarrow> u32 \<Rightarrow> u32 \<Rightarrow> u32 \<Rightarrow> nat \<Rightarrow> nat" where
  "add_level 0 time current_time msk i = i"
| "add_level (Suc n) time current_time msk i =
     (if time OR (msk - 1) = current_time OR (msk - 1) then i
      else add_level n time current_time (push_bit TIME_LEVEL_SHIFT msk) (i + 1))"

definition add_node :: "timer_node \<Rightarrow> timer \<Rightarrow> timer" where
  "add_node node T =
     (let time = tn_expire node; current_time = tm_time T in
      if time OR TIME_NEAR_MASK = current_time OR TIME_NEAR_MASK
      then near_link (unat (time AND TIME_NEAR_MASK)) node T
      else let i = add_level 3 time current_time (push_bit TIME_LEVEL_SHIFT (of_nat TIME_NEAR)) 0 in
        level_link i (unat (drop_bit (TIME_NEAR_SHIFT + i * TIME_LEVEL_SHIFT) time AND TIME_LEVEL_MASK)) node T)"

definition timer_add :: "timer_event \<Rightarrow> u32 \<Rightarrow> timer \<Rightarrow> timer" where
  "timer_add ev time T = add_node \<lparr>tn_expire = time + tm_time T, tn_event = ev\<rparr> T"

definition move_list :: "nat \<Rightarrow> nat \<Rightarrow> timer \<Rightarrow> timer" where
  "move_list level idx T = fold add_node (tm_t T ! level ! idx) (level_clear level idx T)"

partial_function (option) shift_loop :: "u32 \<Rightarrow> u32 \<Rightarrow> u32 \<Rightarrow> nat \<Rightarrow> timer \<Rightarrow> timer option" where
  "shift_loop ct msk time i T =
     (if ct AND (msk - 1) = 0 then
        (let idx = time AND TIME_LEVEL_MASK in
         if idx \<noteq> 0 then Some (move_list i (unat idx) T)
         else shift_loop ct (push_bit TIME_LEVEL_SHIFT msk) (drop_bit TIME_LEVEL_SHIFT time) (i + 1) T)
      else Some T)"

definition timer_shift :: "timer \<Rightarrow> timer option" where
  "timer_shift T =
     (let ct = tm_time T + 1; T = T\<lparr>tm_time := ct\<rparr> in
      if ct = 0 then Some (move_list 3 0 T)
      else shift_loop ct (of_nat TIME_NEAR) (drop_bit TIME_NEAR_SHIFT ct) 0 T)"

text \<open>\<open>dispatch_list\<close>: the message sent to each handle.\<close>

definition MESSAGE_TYPE_SHIFT :: nat where "MESSAGE_TYPE_SHIFT = 56"
definition PTYPE_RESPONSE :: u64 where "PTYPE_RESPONSE = 1"

definition response_message :: "u32 \<Rightarrow> skynet_message" where
  "response_message session = \<lparr>msg_source = 0, msg_session = session, msg_data = None,
     msg_sz = push_bit MESSAGE_TYPE_SHIFT PTYPE_RESPONSE\<rparr>"

definition dispatch_list :: "timer_node list \<Rightarrow> (u32 \<times> skynet_message) list" where
  "dispatch_list ns = map (\<lambda>n. (te_handle (tn_event n), response_message (te_session (tn_event n)))) ns"

definition add_batch :: "(timer_event \<times> u32) list \<Rightarrow> timer \<Rightarrow> timer" where
  "add_batch b T = fold (\<lambda>(ev, time). timer_add ev time) b T"

text \<open>The loop of \<open>timer_execute\<close>; \<open>None\<close> when it takes more turns than there are batches.\<close>

fun timer_execute :: "(timer_event \<times> u32) list list \<Rightarrow> timer \<Rightarrow> (timer_node list \<times> timer) option" where
  "timer_execute bs T =
     (let idx = unat (tm_time T AND TIME_NEAR_MASK) in
      if tm_near T ! idx = [] then Some ([], T)
      else case bs of
          [] \<Rightarrow> None
        | b # bs \<Rightarrow> do {
            let current = tm_near T ! idx;
            (fired, T) \<leftarrow> timer_execute bs (add_batch b (near_clear idx T));
            Some (current @ fired, T) })"

declare timer_execute.simps [simp del]

definition timer_update :: "(timer_event \<times> u32) list list \<Rightarrow> timer \<Rightarrow> (timer_node list \<times> timer) option" where
  "timer_update bs T = do {
     (fired1, T) \<leftarrow> timer_execute bs T;
     T \<leftarrow> timer_shift T;
     (fired2, T) \<leftarrow> timer_execute bs T;
     Some (fired1 @ fired2, T) }"

definition timer_create_timer :: timer where
  "timer_create_timer = \<lparr>tm_near = replicate TIME_NEAR [], tm_t = replicate 4 (replicate TIME_LEVEL []),
     tm_time = 0, tm_current = 0, tm_current_point = 0\<rparr>"

text \<open>
  \<open>skynet_timeout\<close>: the value returned, the message sent at once if any, the new wheel;
  \<open>push\<close> is \<open>skynet_context_push\<close>, which fails (\<open>True\<close>) on a handle that is not live.
\<close>

definition skynet_timeout ::
    "(u32 \<Rightarrow> skynet_message \<Rightarrow> bool) \<Rightarrow> u32 \<Rightarrow> u32 \<Rightarrow> u32 \<Rightarrow> timer \<Rightarrow> u32 \<times> (u32 \<times> skynet_message) option \<times> timer" where
  "skynet_timeout push handle time session T =
     (if sint time \<le> 0 then
        (let message = response_message session in
         if push handle message then (- 1, None, T) else (session, Some (handle, message), T))
      else (session, None, timer_add \<lparr>te_handle = handle, te_session = session\<rparr> time T))"

fun update_times :: "nat \<Rightarrow> timer \<Rightarrow> (timer_node list list \<times> timer) option" where
  "update_times 0 T = Some ([], T)"
| "update_times (Suc n) T = do {
     (fired, T) \<leftarrow> timer_update [[]] T;
     (fs, T) \<leftarrow> update_times n T;
     Some (fired # fs, T) }"

definition skynet_updatetime :: "u64 \<Rightarrow> timer \<Rightarrow> (timer_node list list \<times> timer) option" where
  "skynet_updatetime cp T =
     (if cp < tm_current_point T then Some ([], T\<lparr>tm_current_point := cp\<rparr>)
      else if cp \<noteq> tm_current_point T then
        (let diff = ucast (cp - tm_current_point T) :: u32 in
         update_times (unat diff) (T\<lparr>tm_current_point := cp, tm_current := tm_current T + ucast diff\<rparr>))
      else Some ([], T))"

section \<open>Slots\<close>

datatype slot = Near nat | Level nat nat

fun slot_ok :: "slot \<Rightarrow> bool" where
  "slot_ok (Near j) = (j < 256)"
| "slot_ok (Level i j) = (i < 4 \<and> j < 64)"

fun cell :: "timer \<Rightarrow> slot \<Rightarrow> timer_node list" where
  "cell T (Near j) = tm_near T ! j"
| "cell T (Level i j) = tm_t T ! i ! j"

text \<open>Where a timer belongs, over the natural numbers.\<close>

definition place :: "nat \<Rightarrow> nat \<Rightarrow> slot" where
  "place e t =
     (if e div 2 ^ 8 = t div 2 ^ 8 then Near (e mod 256)
      else if e div 2 ^ 14 = t div 2 ^ 14 then Level 0 (e div 2 ^ 8 mod 64)
      else if e div 2 ^ 20 = t div 2 ^ 20 then Level 1 (e div 2 ^ 14 mod 64)
      else if e div 2 ^ 26 = t div 2 ^ 26 then Level 2 (e div 2 ^ 20 mod 64)
      else Level 3 (e div 2 ^ 26 mod 64))"

definition node_place :: "timer \<Rightarrow> timer_node \<Rightarrow> slot" where
  "node_place T n = place (unat (tn_expire n)) (unat (tm_time T))"

definition shape_ok :: "timer \<Rightarrow> bool" where
  "shape_ok T \<longleftrightarrow> length (tm_near T) = 256 \<and> length (tm_t T) = 4 \<and> (\<forall>i < 4. length (tm_t T ! i) = 64)"

definition placed :: "timer \<Rightarrow> bool" where
  "placed T \<longleftrightarrow> shape_ok T \<and> (\<forall>s. slot_ok s \<longrightarrow> (\<forall>n \<in> set (cell T s). node_place T n = s))"

definition pending :: "timer \<Rightarrow> timer_node multiset" where
  "pending T = mset (concat (tm_near T)) + mset (concat (concat (tm_t T)))"

text \<open>The ticks left until a timer expires.\<close>

definition left :: "timer \<Rightarrow> timer_node \<Rightarrow> nat" where
  "left T n = unat (tn_expire n - tm_time T)"

definition timer_inv :: "timer \<Rightarrow> bool" where
  "timer_inv T \<longleftrightarrow> placed T \<and> (\<forall>n \<in># pending T. 0 < left T n \<and> left T n < 2 ^ 31)"

lemma or_mask_eq: "(a OR (mask n :: u32)) = (b OR mask n) \<longleftrightarrow> unat a div 2 ^ n = unat b div 2 ^ n"
proof -
  have "(a OR mask n) = (b OR mask n) \<longleftrightarrow> drop_bit n a = drop_bit n b"
  proof
    assume eq: "(a OR mask n) = (b OR mask n)"
    show "drop_bit n a = drop_bit n b"
    proof (rule bit_word_eqI)
      fix k assume "k < LENGTH(32)"
      have "bit (a OR mask n) (n + k) = bit (b OR mask n) (n + k)" by (simp only: eq)
      then show "bit (drop_bit n a) k = bit (drop_bit n b) k"
        by (auto simp: bit_simps)
    qed
  next
    assume eq: "drop_bit n a = drop_bit n b"
    show "(a OR mask n) = (b OR mask n)"
    proof (rule bit_word_eqI)
      fix k assume "k < LENGTH(32)"
      have "bit (drop_bit n a) (k - n) = bit (drop_bit n b) (k - n)" by (simp only: eq)
      then show "bit (a OR mask n) k = bit (b OR mask n) k"
        using \<open>k < LENGTH(32)\<close> by (cases "k < n") (auto simp: bit_simps)
    qed
  qed
  also have "\<dots> \<longleftrightarrow> unat a div 2 ^ n = unat b div 2 ^ n"
    unfolding word_unat_eq_iff [of "drop_bit n a"] unat_drop_bit_eq by (simp only: drop_bit_eq_div)
  finally show ?thesis .
qed

lemma unat_take_bit_mod: "unat (take_bit n (w::u32)) = unat w mod 2 ^ n"
  unfolding unsigned_take_bit_eq by (rule take_bit_eq_mod)

lemma unat_and_mask6: "unat (drop_bit k (e::u32) AND 63) = unat e div 2 ^ k mod 64"
proof -
  have "(63::u32) = mask 6" by (simp add: mask_eq_exp_minus_1)
  then have "drop_bit k e AND 63 = take_bit 6 (drop_bit k e)" by (simp add: take_bit_eq_mask)
  then show ?thesis
    by (simp only: unat_take_bit_mod unat_drop_bit_eq drop_bit_eq_div[of k "unat e"]) simp
qed

lemma unat_and_mask8: "unat ((e::u32) AND 255) = unat e mod 256"
proof -
  have "(255::u32) = mask 8" by (simp add: mask_eq_exp_minus_1)
  then have "e AND 255 = take_bit 8 e" by (simp add: take_bit_eq_mask)
  then show ?thesis
    by (simp only: unat_take_bit_mod) simp
qed

fun put :: "slot \<Rightarrow> timer_node \<Rightarrow> timer \<Rightarrow> timer" where
  "put (Near j) n T = near_link j n T"
| "put (Level i j) n T = level_link i j n T"

lemma add_node_put: "add_node n T = put (node_place T n) n T"
proof -
  let ?e = "tn_expire n" and ?t = "tm_time T"
  have m: "(255::u32) = mask 8" "(16383::u32) = mask 14" "(1048575::u32) = mask 20" "(67108863::u32) = mask 26"
    by (simp_all add: mask_eq_exp_minus_1)
  have L: "add_level 3 ?e ?t (push_bit TIME_LEVEL_SHIFT (of_nat TIME_NEAR)) 0 =
      (if unat ?e div 2 ^ 14 = unat ?t div 2 ^ 14 then 0
       else if unat ?e div 2 ^ 20 = unat ?t div 2 ^ 20 then 1
       else if unat ?e div 2 ^ 26 = unat ?t div 2 ^ 26 then 2 else 3)"
    unfolding or_mask_eq [symmetric] m [symmetric]
    by (simp add: numeral_3_eq_3 TIME_LEVEL_SHIFT_def TIME_NEAR_def push_bit_eq_mult)
  have N: "?e OR 255 = ?t OR 255 \<longleftrightarrow> unat ?e div 2 ^ 8 = unat ?t div 2 ^ 8"
    unfolding m by (rule or_mask_eq)
  have A: "8 + 0 * 6 = (8::nat)" "8 + 1 * 6 = (14::nat)" "8 + 2 * 6 = (20::nat)" "8 + 3 * 6 = (26::nat)"
    by simp_all
  show ?thesis
    unfolding add_node_def Let_def L
    unfolding TIME_NEAR_MASK_def TIME_LEVEL_MASK_def N unat_and_mask6 unat_and_mask8
      TIME_NEAR_SHIFT_def TIME_LEVEL_SHIFT_def node_place_def place_def
    by (cases "unat ?e div 2 ^ 8 = unat ?t div 2 ^ 8"; cases "unat ?e div 2 ^ 14 = unat ?t div 2 ^ 14";
        cases "unat ?e div 2 ^ 20 = unat ?t div 2 ^ 20"; cases "unat ?e div 2 ^ 26 = unat ?t div 2 ^ 26")
      (simp_all only: if_True if_False put.simps refl A)
qed

lemma place_ok: "slot_ok (place e t)"
  by (simp add: place_def)

lemma node_place_ok [simp]: "slot_ok (node_place T n)"
  by (simp add: node_place_def place_ok)

lemma mset_concat_update:
  "j < length xs \<Longrightarrow> mset (concat (xs[j := ys])) + mset (xs ! j) = mset (concat xs) + mset ys"
proof (induction xs arbitrary: j)
  case (Cons x xs)
  then show ?case by (cases j) (auto simp: ac_simps)
qed simp

lemma mset_concat_update2:
  "i < length xs \<Longrightarrow> mset (concat (concat (xs[i := r]))) + mset (concat (xs ! i))
     = mset (concat (concat xs)) + mset (concat r)"
proof (induction xs arbitrary: i)
  case (Cons x xs)
  then show ?case by (cases i) (auto simp: ac_simps)
qed simp

lemma mset_concat_snoc:
  "j < length xs \<Longrightarrow> mset (concat (xs[j := xs ! j @ [y]])) = add_mset y (mset (concat xs))"
  using mset_concat_update [of j xs "xs ! j @ [y]"] by simp

lemma shape_okD:
  "shape_ok T \<Longrightarrow> length (tm_near T) = 256" "shape_ok T \<Longrightarrow> length (tm_t T) = 4"
  "shape_ok T \<Longrightarrow> i < 4 \<Longrightarrow> length (tm_t T ! i) = 64"
  by (auto simp: shape_ok_def)

lemma shape_put: "shape_ok T \<Longrightarrow> slot_ok s \<Longrightarrow> shape_ok (put s n T)"
  by (cases s) (auto simp: shape_ok_def near_link_def level_link_def nth_list_update)

lemma cell_put:
  "shape_ok T \<Longrightarrow> slot_ok s \<Longrightarrow> slot_ok s' \<Longrightarrow> cell (put s n T) s' = cell T s' @ (if s' = s then [n] else [])"
  by (cases s; cases s') (auto simp: shape_ok_def near_link_def level_link_def nth_list_update)

lemma time_put [simp]: "tm_time (put s n T) = tm_time T"
  by (cases s) (auto simp: near_link_def level_link_def)

lemma pending_put:
  assumes "shape_ok T" "slot_ok s"
  shows "pending (put s n T) = add_mset n (pending T)"
proof (cases s)
  case (Near j)
  with assms mset_concat_snoc [of j "tm_near T" n] show ?thesis
    by (simp add: pending_def near_link_def shape_okD)
next
  case (Level i j)
  then have ij: "i < length (tm_t T)" "j < length (tm_t T ! i)" using assms by (auto simp: shape_okD)
  let ?row = "(tm_t T ! i)[j := tm_t T ! i ! j @ [n]]"
  have "mset (concat (concat ((tm_t T)[i := ?row]))) + mset (concat (tm_t T ! i))
     = mset (concat (concat (tm_t T))) + mset (concat ?row)"
    by (rule mset_concat_update2 [OF ij(1)])
  then show ?thesis
    using Level mset_concat_snoc [OF ij(2), of n] by (simp add: pending_def level_link_def)
qed

lemma placed_add_node:
  assumes "placed T"
  shows "placed (add_node n T)" "pending (add_node n T) = add_mset n (pending T)" "tm_time (add_node n T) = tm_time T"
proof -
  have s: "shape_ok T" using assms by (simp add: placed_def)
  have eq: "node_place (put s' n' T) m = node_place T m" for s' n' m
    by (simp add: node_place_def)
  show "placed (add_node n T)"
    using assms unfolding add_node_put placed_def by (auto simp: shape_put cell_put eq split: if_splits)
  show "pending (add_node n T) = add_mset n (pending T)" "tm_time (add_node n T) = tm_time T"
    unfolding add_node_put using pending_put [OF s] by simp_all
qed

lemma placed_fold_add:
  "placed T \<Longrightarrow> placed (fold add_node ns T) \<and> pending (fold add_node ns T) = mset ns + pending T
     \<and> tm_time (fold add_node ns T) = tm_time T"
  by (induction ns arbitrary: T) (simp_all add: placed_add_node)

section \<open>Shifting\<close>

text \<open>The slot moved when the tick becomes \<open>c\<close>.\<close>

definition moved :: "nat \<Rightarrow> (nat \<times> nat) option" where
  "moved c = (if c = 0 then Some (3, 0)
     else if c mod 2 ^ 8 \<noteq> 0 then None
     else if c mod 2 ^ 14 \<noteq> 0 then Some (0, c div 2 ^ 8 mod 64)
     else if c mod 2 ^ 20 \<noteq> 0 then Some (1, c div 2 ^ 14 mod 64)
     else if c mod 2 ^ 26 \<noteq> 0 then Some (2, c div 2 ^ 20 mod 64)
     else Some (3, c div 2 ^ 26 mod 64))"

definition next_tick :: "nat \<Rightarrow> nat" where
  "next_tick t = (if t + 1 = 2 ^ 32 then 0 else t + 1)"

definition ticks_left :: "nat \<Rightarrow> nat \<Rightarrow> nat" where
  "ticks_left e t = (if t \<le> e then e - t else e + 2 ^ 32 - t)"

lemma same_block_step:
  assumes "e div 2 ^ k = t div 2 ^ k" "0 < ticks_left e t" "ticks_left e t < 2 ^ 31" "k \<le> 31" "e < 2 ^ 32" "t < 2 ^ 32"
  shows "e div 2 ^ k = next_tick t div 2 ^ k" "next_tick t mod 2 ^ k \<noteq> 0"
proof -
  let ?B = "2 ^ k :: nat"
  have B: "0 < ?B" "?B \<le> 2 ^ 31" using assms(4) power_increasing [of k 31 "2::nat"] by auto
  have e: "e = ?B * (t div ?B) + e mod ?B" using assms(1) by (metis mult_div_mod_eq)
  have t: "t = ?B * (t div ?B) + t mod ?B" by simp
  have m: "e mod ?B < ?B" "t mod ?B < ?B" using B(1) by simp_all
  have lt: "t < e"
  proof (rule ccontr)
    assume "\<not> t < e"
    moreover have "e \<noteq> t" using assms(2) by (auto simp: ticks_left_def)
    ultimately have "ticks_left e t = e + 2 ^ 32 - t" by (simp add: ticks_left_def)
    moreover have "t < e + ?B" using e t m by linarith
    moreover have "(2::nat) ^ 32 = 2 * 2 ^ 31" by simp
    ultimately show False using B(2) assms(3) by linarith
  qed
  then have n: "next_tick t = t + 1" using assms(5) by (simp add: next_tick_def)
  have "t div ?B \<le> (t + 1) div ?B" "(t + 1) div ?B \<le> e div ?B"
    using lt by (simp_all add: div_le_mono)
  with assms(1) n show eq: "e div ?B = next_tick t div ?B" by (metis le_antisym)
  show "next_tick t mod ?B \<noteq> 0"
  proof
    assume "next_tick t mod ?B = 0"
    then have "t + 1 = ?B * (t div ?B)" using n eq assms(1) by (metis add.right_neutral mult_div_mod_eq)
    then show False using t by linarith
  qed
qed

lemma new_block_step:
  assumes "e div 2 ^ k \<noteq> t div 2 ^ k" "e div 2 ^ k = next_tick t div 2 ^ k"
  shows "next_tick t mod 2 ^ k = 0"
proof (cases "next_tick t = 0")
  case False
  then have "next_tick t = Suc t" by (simp add: next_tick_def split: if_splits)
  with assms show ?thesis by (metis div_Suc)
qed simp

lemma coarser: "e div 2 ^ k = (c::nat) div 2 ^ k \<Longrightarrow> k \<le> m \<Longrightarrow> e div 2 ^ m = c div 2 ^ m"
  by (metis add_diff_inverse_nat div_mult2_eq linorder_not_less power_add)

lemma coarser_zero: "c mod 2 ^ m = (0::nat) \<Longrightarrow> k \<le> m \<Longrightarrow> c mod 2 ^ k = 0"
  by (metis dvd_imp_mod_0 dvd_trans le_imp_power_dvd mod_0_imp_dvd)

text \<open>\<open>P\<close>, \<open>Q\<close>: the timer is in the block of the old and of the new tick; \<open>Z\<close>: a block starts.\<close>

lemma place_shift_cases:
  fixes P Q Z :: "nat \<Rightarrow> bool" and j c :: "nat \<Rightarrow> nat"
  assumes "\<And>k. k \<le> 31 \<Longrightarrow> P k \<Longrightarrow> Q k \<and> \<not> Z k" "\<And>k. \<not> P k \<Longrightarrow> Q k \<Longrightarrow> Z k"
    "\<And>k m. Q k \<Longrightarrow> k \<le> m \<Longrightarrow> Q m" "\<And>k m. Z m \<Longrightarrow> k \<le> m \<Longrightarrow> Z k"
    "\<And>k. Q k \<Longrightarrow> j k = c k" "\<And>k. zero \<Longrightarrow> c k = 0" "\<And>k. zero \<Longrightarrow> Z k"
    and other: "\<And>i x. (if zero then Some (3, 0) else if \<not> Z 8 then None else if \<not> Z 14 then Some (0, c 8)
      else if \<not> Z 20 then Some (1, c 14) else if \<not> Z 26 then Some (2, c 20) else Some (3, c 26)) = Some (i, x) \<Longrightarrow>
      (if P 8 then n else if P 14 then Level 0 (j 8) else if P 20 then Level 1 (j 14)
       else if P 26 then Level 2 (j 20) else Level 3 (j 26)) \<noteq> Level i x"
  shows "(if Q 8 then n else if Q 14 then Level 0 (j 8) else if Q 20 then Level 1 (j 14)
       else if Q 26 then Level 2 (j 20) else Level 3 (j 26)) =
     (if P 8 then n else if P 14 then Level 0 (j 8) else if P 20 then Level 1 (j 14)
       else if P 26 then Level 2 (j 20) else Level 3 (j 26))"
proof -
  have PQ: "P 8 \<Longrightarrow> Q 8 \<and> \<not> Z 8" "P 14 \<Longrightarrow> Q 14 \<and> \<not> Z 14" "P 20 \<Longrightarrow> Q 20 \<and> \<not> Z 20" "P 26 \<Longrightarrow> Q 26 \<and> \<not> Z 26"
    by (rule assms(1); simp)+
  have QQ: "Q 8 \<Longrightarrow> Q 14" "Q 14 \<Longrightarrow> Q 20" "Q 20 \<Longrightarrow> Q 26" by (erule assms(3); simp)+
  have ZZ: "Z 14 \<Longrightarrow> Z 8" "Z 20 \<Longrightarrow> Z 14" "Z 26 \<Longrightarrow> Z 20" by (erule assms(4); simp)+
  have J: "Q 8 \<Longrightarrow> j 8 = c 8" "Q 14 \<Longrightarrow> j 14 = c 14" "Q 20 \<Longrightarrow> j 20 = c 20" "Q 26 \<Longrightarrow> j 26 = c 26"
    by (rule assms(5); simp)+
  have z: "\<not> Z k \<Longrightarrow> \<not> zero" for k using assms(7) by blast
  consider "P 8" | "\<not> P 8" "P 14" | "\<not> P 8" "\<not> P 14" "P 20" | "\<not> P 8" "\<not> P 14" "\<not> P 20" "P 26"
    | "\<not> P 8" "\<not> P 14" "\<not> P 20" "\<not> P 26" by blast
  then show ?thesis
  proof cases
    case 1
    then show ?thesis using PQ by simp
  next
    case 2
    have "\<not> Q 8"
      using assms(2) [OF 2(1)] J(1) PQ(2) [OF 2(2)] z [of 14] other [of 0 "c 8"] 2 by auto
    then show ?thesis using 2 PQ by simp
  next
    case 3
    have "\<not> Q 14"
      using assms(2) [OF 3(2)] J(2) PQ(3) [OF 3(3)] z [of 20] other [of 1 "c 14"] 3 ZZ(1) by auto
    then show ?thesis using 3 PQ QQ by auto
  next
    case 4
    have "\<not> Q 20"
      using assms(2) [OF 4(3)] J(3) PQ(4) [OF 4(4)] z [of 26] other [of 2 "c 20"] 4 ZZ(1,2) by auto
    then show ?thesis using 4 PQ QQ by auto
  next
    case 5
    have "\<not> Q 26"
    proof
      assume Q: "Q 26"
      then have "Z 26" by (rule assms(2) [OF 5(4)])
      then show False
        using other [of 3 "c 26"] 5 ZZ J(4) [OF Q] assms(6) [of 26] by (cases zero) auto
    qed
    then show ?thesis using 5 QQ by auto
  qed
qed

lemma place_shift:
  assumes "0 < ticks_left e t" "ticks_left e t < 2 ^ 31" "e < 2 ^ 32" "t < 2 ^ 32"
    and other: "\<And>i j. moved (next_tick t) = Some (i, j) \<Longrightarrow> place e t \<noteq> Level i j"
  shows "place e (next_tick t) = place e t"
  unfolding place_def
proof (rule place_shift_cases [where Z = "\<lambda>k. next_tick t mod 2 ^ k = 0" and c = "\<lambda>k. next_tick t div 2 ^ k mod 64"
      and zero = "next_tick t = 0" and P = "\<lambda>k. e div 2 ^ k = t div 2 ^ k"
      and Q = "\<lambda>k. e div 2 ^ k = next_tick t div 2 ^ k" and j = "\<lambda>k. e div 2 ^ k mod 64"])
  show "e div 2 ^ k = next_tick t div 2 ^ k \<and> next_tick t mod 2 ^ k \<noteq> 0" if "k \<le> 31" "e div 2 ^ k = t div 2 ^ k" for k
    using same_block_step [OF that(2) assms(1,2) that(1) assms(3,4)] by blast
  show "next_tick t mod 2 ^ k = 0" if "e div 2 ^ k \<noteq> t div 2 ^ k" "e div 2 ^ k = next_tick t div 2 ^ k" for k
    using that by (rule new_block_step)
  show "e div 2 ^ m = next_tick t div 2 ^ m" if "e div 2 ^ k = next_tick t div 2 ^ k" "k \<le> m" for k m
    using that by (rule coarser)
  show "next_tick t mod 2 ^ k = 0" if "next_tick t mod 2 ^ m = 0" "k \<le> m" for k m
    using that by (rule coarser_zero)
  show "(if e div 2 ^ 8 = t div 2 ^ 8 then Near (e mod 256)
         else if e div 2 ^ 14 = t div 2 ^ 14 then Level 0 (e div 2 ^ 8 mod 64)
         else if e div 2 ^ 20 = t div 2 ^ 20 then Level 1 (e div 2 ^ 14 mod 64)
         else if e div 2 ^ 26 = t div 2 ^ 26 then Level 2 (e div 2 ^ 20 mod 64)
         else Level 3 (e div 2 ^ 26 mod 64)) \<noteq> Level i x"
    if "(if next_tick t = 0 then Some (3, 0)
         else if \<not> next_tick t mod 2 ^ 8 = 0 then None
         else if \<not> next_tick t mod 2 ^ 14 = 0 then Some (0, next_tick t div 2 ^ 8 mod 64)
         else if \<not> next_tick t mod 2 ^ 20 = 0 then Some (1, next_tick t div 2 ^ 14 mod 64)
         else if \<not> next_tick t mod 2 ^ 26 = 0 then Some (2, next_tick t div 2 ^ 20 mod 64)
         else Some (3, next_tick t div 2 ^ 26 mod 64)) = Some (i, x)" for i x
    using other [of i x] that unfolding moved_def place_def by blast
qed simp_all

text \<open>The loop of \<open>timer_shift\<close> finds that slot.\<close>

lemma shift_step:
  "shift_loop ct (push_bit k 1) (drop_bit k ct) i T =
     (if unat ct mod 2 ^ k \<noteq> 0 then Some T
      else if unat ct div 2 ^ k mod 64 \<noteq> 0 then Some (move_list i (unat ct div 2 ^ k mod 64) T)
      else shift_loop ct (push_bit (k + 6) 1) (drop_bit (k + 6) ct) (i + 1) T)"
proof -
  have "ct AND (push_bit k 1 - 1) = take_bit k ct"
    by (simp only: take_bit_eq_mask mask_eq_exp_minus_1 push_bit_eq_mult mult_1)
  then have m: "ct AND (push_bit k 1 - 1) = 0 \<longleftrightarrow> unat ct mod 2 ^ k = 0"
    by (simp only: word_unat_eq_iff [of "take_bit k ct"] unat_take_bit_mod unat_0)
  have i: "unat (drop_bit k ct AND TIME_LEVEL_MASK) = unat ct div 2 ^ k mod 64"
    unfolding TIME_LEVEL_MASK_def by (rule unat_and_mask6)
  have i0: "drop_bit k ct AND TIME_LEVEL_MASK = 0 \<longleftrightarrow> unat ct div 2 ^ k mod 64 = 0"
    by (simp only: word_unat_eq_iff [of "drop_bit k ct AND _"] i unat_0)
  show ?thesis
    by (subst shift_loop.simps)
      (simp only: m i i0 Let_def TIME_LEVEL_SHIFT_def push_bit_push_bit drop_bit_drop_bit add.commute [of 6 k]
        split: if_split, simp)
qed

lemma shift_step6:
  assumes "k' = k + 6" "i' = i + 1"
  shows "shift_loop ct (push_bit k 1) (drop_bit k ct) i T =
     (if unat ct mod 2 ^ k \<noteq> 0 then Some T
      else if unat ct mod 2 ^ k' \<noteq> 0 then Some (move_list i (unat ct div 2 ^ k mod 64) T)
      else shift_loop ct (push_bit k' 1) (drop_bit k' ct) i' T)"
proof -
  have "unat ct mod 2 ^ (k + 6) = 2 ^ k * (unat ct div 2 ^ k mod 64) + unat ct mod 2 ^ k"
    by (simp add: power_add mod_mult2_eq)
  then have "unat ct mod 2 ^ k = 0 \<Longrightarrow> unat ct div 2 ^ k mod 64 = 0 \<longleftrightarrow> unat ct mod 2 ^ k' = 0"
    using assms(1) by simp
  then show ?thesis unfolding assms using shift_step [of ct k i T] assms(1)
    by (cases "unat ct mod 2 ^ k = 0") simp_all
qed

lemma shift_loop_moved:
  assumes "ct \<noteq> 0"
  shows "shift_loop ct (push_bit 8 1) (drop_bit 8 ct) 0 T =
    Some (case moved (unat ct) of None \<Rightarrow> T | Some (i, j) \<Rightarrow> move_list i j T)"
proof -
  let ?c = "unat ct"
  have c: "?c \<noteq> 0" "?c mod 2 ^ 32 \<noteq> 0" using assms u32_less [of ct] by (simp_all add: unat_eq_0)
  note S = shift_step6 [of 14 8 1 0 ct T] shift_step6 [of 20 14 2 1 ct T] shift_step6 [of 26 20 3 2 ct T]
    shift_step6 [of 32 26 4 3 ct T]
  show ?thesis
    unfolding moved_def
    by (subst S(1); (simp only: S(2-4) c if_False not_False_eq_True simp_thms)?;
        cases "?c mod 2 ^ 8 = 0"; cases "?c mod 2 ^ 14 = 0"; cases "?c mod 2 ^ 20 = 0"; cases "?c mod 2 ^ 26 = 0")
      (use c in simp_all)
qed

lemma shape_level_clear: "shape_ok T \<Longrightarrow> slot_ok (Level i j) \<Longrightarrow> shape_ok (level_clear i j T)"
  by (auto simp: shape_ok_def level_clear_def nth_list_update)

lemma cell_level_clear:
  "shape_ok T \<Longrightarrow> slot_ok (Level i j) \<Longrightarrow> slot_ok s \<Longrightarrow>
   cell (level_clear i j T) s = (if s = Level i j then [] else cell T s)"
  by (cases s) (auto simp: shape_ok_def level_clear_def nth_list_update)

lemma pending_level_clear:
  assumes "shape_ok T" "slot_ok (Level i j)"
  shows "pending T = mset (cell T (Level i j)) + pending (level_clear i j T)"
proof -
  have ij: "i < length (tm_t T)" "j < length (tm_t T ! i)" using assms by (auto simp: shape_okD)
  let ?row = "(tm_t T ! i)[j := []]"
  have A: "mset (concat (concat ((tm_t T)[i := ?row]))) + mset (concat (tm_t T ! i))
     = mset (concat (concat (tm_t T))) + mset (concat ?row)"
    by (rule mset_concat_update2 [OF ij(1)])
  have B: "mset (concat (tm_t T ! i)) = mset (concat ?row) + mset (tm_t T ! i ! j)"
    using mset_concat_update [OF ij(2), of "[]"] by simp
  have "mset (concat (concat (tm_t T))) + mset (concat ?row)
     = (mset (concat (concat ((tm_t T)[i := ?row]))) + mset (tm_t T ! i ! j)) + mset (concat ?row)"
    unfolding A [symmetric] B by (simp only: ac_simps)
  then have "mset (concat (concat (tm_t T))) = mset (concat (concat ((tm_t T)[i := ?row]))) + mset (tm_t T ! i ! j)"
    by (simp only: add_right_cancel)
  then show ?thesis
    by (simp add: pending_def level_clear_def ac_simps)
qed

lemma move_list_ok:
  assumes "shape_ok T" "slot_ok (Level i j)"
    and "\<And>s n. slot_ok s \<Longrightarrow> s \<noteq> Level i j \<Longrightarrow> n \<in> set (cell T s) \<Longrightarrow> node_place T n = s"
  shows "placed (move_list i j T)" "pending (move_list i j T) = pending T" "tm_time (move_list i j T) = tm_time T"
proof -
  let ?T = "level_clear i j T"
  have tm: "tm_time ?T = tm_time T" by (simp add: level_clear_def)
  then have np: "node_place ?T n = node_place T n" for n by (simp add: node_place_def)
  have "placed ?T"
    using assms unfolding placed_def np by (auto simp: shape_level_clear cell_level_clear split: if_splits)
  from placed_fold_add [OF this, of "cell T (Level i j)"]
  show "placed (move_list i j T)" "pending (move_list i j T) = pending T" "tm_time (move_list i j T) = tm_time T"
    using pending_level_clear [OF assms(1,2)] tm by (simp_all add: move_list_def)
qed

lemma mem_pending:
  assumes "shape_ok T"
  shows "n \<in># pending T \<longleftrightarrow> (\<exists>s. slot_ok s \<and> n \<in> set (cell T s))"
proof
  assume "n \<in># pending T"
  then consider j where "j < 256" "n \<in> set (tm_near T ! j)"
    | i j where "i < 4" "j < 64" "n \<in> set (tm_t T ! i ! j)"
    using assms by (auto simp: pending_def in_set_conv_nth [of _ "tm_near T"] in_set_conv_nth [of _ "tm_t T"]
        in_set_conv_nth [of _ "tm_t T ! _"] shape_okD)
  then show "\<exists>s. slot_ok s \<and> n \<in> set (cell T s)"
    by cases (metis cell.simps slot_ok.simps)+
next
  assume "\<exists>s. slot_ok s \<and> n \<in> set (cell T s)"
  then obtain s where s: "slot_ok s" "n \<in> set (cell T s)" by blast
  show "n \<in># pending T"
  proof (cases s)
    case (Near j)
    with s assms show ?thesis by (auto simp: pending_def shape_okD intro!: bexI [of _ "tm_near T ! j"])
  next
    case (Level i j)
    with s assms have "tm_t T ! i \<in> set (tm_t T)" "tm_t T ! i ! j \<in> set (tm_t T ! i)" by (auto simp: shape_okD)
    with Level s(2) show ?thesis by (auto simp: pending_def)
  qed
qed

lemma left_ticks: "left T n = ticks_left (unat (tn_expire n)) (unat (tm_time T))"
  using u32_less [of "tn_expire n"] u32_less [of "tm_time T"]
  by (auto simp: left_def ticks_left_def unat_sub_if')

lemma next_tick_unat: "unat (t + 1 :: u32) = next_tick (unat t)"
proof -
  have "unat (t + 1) = (unat t + 1) mod 2 ^ 32" by (simp add: unat_word_ariths)
  then show ?thesis using u32_less [of t] by (cases "unat t + 1 = 2 ^ 32") (simp_all add: next_tick_def)
qed

lemma timer_shift_ok:
  assumes "timer_inv T"
  shows "\<exists>T'. timer_shift T = Some T' \<and> placed T' \<and> pending T' = pending T \<and> tm_time T' = tm_time T + 1"
proof -
  let ?ct = "tm_time T + 1" and ?T = "T\<lparr>tm_time := tm_time T + 1\<rparr>"
  let ?m = "moved (unat ?ct)"
  have T: "placed T" "shape_ok T" and L: "n \<in># pending T \<Longrightarrow> 0 < left T n \<and> left T n < 2 ^ 31" for n
    using assms by (auto simp: timer_inv_def placed_def)
  have sh: "shape_ok ?T" using T(2) by (simp add: shape_ok_def)
  have c: "cell ?T s = cell T s" for s by (cases s) simp_all
  have p: "pending ?T = pending T" by (simp add: pending_def)
  have stay: "node_place ?T n = s"
    if "slot_ok s" "n \<in> set (cell T s)" "\<And>i j. ?m = Some (i, j) \<Longrightarrow> s \<noteq> Level i j" for s n
  proof -
    have "node_place T n = s" using T that by (auto simp: placed_def)
    moreover have "n \<in># pending T" using mem_pending [OF T(2)] that by blast
    moreover have "place (unat (tn_expire n)) (next_tick (unat (tm_time T))) = node_place T n"
      unfolding node_place_def
    proof (rule place_shift)
      show "0 < ticks_left (unat (tn_expire n)) (unat (tm_time T))" "ticks_left (unat (tn_expire n)) (unat (tm_time T)) < 2 ^ 31"
        using L [OF \<open>n \<in># pending T\<close>] unfolding left_ticks by blast+
      show "place (unat (tn_expire n)) (unat (tm_time T)) \<noteq> Level i j"
        if "moved (next_tick (unat (tm_time T))) = Some (i, j)" for i j
        using \<open>node_place T n = s\<close> \<open>\<And>i j. ?m = Some (i, j) \<Longrightarrow> s \<noteq> Level i j\<close> that
        unfolding node_place_def next_tick_unat by blast
    qed (rule u32_less)+
    ultimately show ?thesis by (simp add: node_place_def next_tick_unat)
  qed
  have eq: "timer_shift T = Some (case ?m of None \<Rightarrow> ?T | Some (i, j) \<Rightarrow> move_list i j ?T)"
  proof (cases "?ct = 0")
    case True
    then show ?thesis by (simp add: timer_shift_def Let_def moved_def)
  next
    case False
    have "push_bit 8 1 = (of_nat TIME_NEAR :: u32)" by (simp add: TIME_NEAR_def)
    with False shift_loop_moved [OF False, of ?T] show ?thesis
      by (simp add: timer_shift_def TIME_NEAR_SHIFT_def Let_def)
  qed
  show ?thesis
  proof (cases ?m)
    case None
    then have "placed ?T" using stay sh unfolding placed_def c by auto
    with None eq p show ?thesis by simp
  next
    case (Some ij)
    obtain i j where ij: "?m = Some (i, j)" using Some by (cases ij) auto
    then have "slot_ok (Level i j)" by (auto simp: moved_def split: if_splits)
    from move_list_ok [OF sh this] stay ij eq p c show ?thesis by auto
  qed
qed

section \<open>Executing\<close>

definition due :: "timer \<Rightarrow> timer_node multiset" where
  "due T = filter_mset (\<lambda>n. tn_expire n = tm_time T) (pending T)"

definition later :: "timer \<Rightarrow> timer_node multiset" where
  "later T = filter_mset (\<lambda>n. tn_expire n \<noteq> tm_time T) (pending T)"

definition batch_nodes :: "u32 \<Rightarrow> (timer_event \<times> u32) list \<Rightarrow> timer_node multiset" where
  "batch_nodes t b = image_mset (\<lambda>(ev, time). \<lparr>tn_expire = time + t, tn_event = ev\<rparr>) (mset b)"

definition batch_ok :: "(timer_event \<times> u32) list \<Rightarrow> bool" where
  "batch_ok b \<longleftrightarrow> (\<forall>(ev, time) \<in> set b. 0 < sint time)"

lemma near_index: "unat (tm_time T AND TIME_NEAR_MASK) = unat (tm_time T) mod 256"
  unfolding TIME_NEAR_MASK_def by (rule unat_and_mask8)

lemma pending_near_clear:
  assumes "shape_ok T" "j < 256"
  shows "pending T = mset (tm_near T ! j) + pending (near_clear j T)"
  using mset_concat_update [of j "tm_near T" "[]"] assms
  by (simp add: pending_def near_clear_def shape_okD ac_simps)

lemma placed_near_clear:
  assumes "placed T" "j < 256"
  shows "placed (near_clear j T)"
proof -
  have sh: "shape_ok T" using assms(1) by (simp add: placed_def)
  then have "shape_ok (near_clear j T)" by (simp add: shape_ok_def near_clear_def)
  moreover have "cell (near_clear j T) s = (if s = Near j then [] else cell T s)" if "slot_ok s" for s
    using sh that by (cases s) (simp_all add: near_clear_def shape_okD nth_list_update)
  moreover have "node_place (near_clear j T) n = node_place T n" for n
    by (simp add: node_place_def near_clear_def)
  ultimately show ?thesis using assms(1) unfolding placed_def by auto
qed

text \<open>The near slot of the tick holds exactly the timers that are due.\<close>

lemma near_slot_due:
  assumes "placed T"
  shows "mset (tm_near T ! (unat (tm_time T) mod 256)) = due T"
    "pending (near_clear (unat (tm_time T) mod 256) T) = later T"
proof -
  let ?j = "unat (tm_time T) mod 256" and ?t = "unat (tm_time T)"
  have sh: "shape_ok T" using assms by (simp add: placed_def)
  have p: "pending T = mset (tm_near T ! ?j) + pending (near_clear ?j T)"
    by (rule pending_near_clear [OF sh]) simp
  have a: "tn_expire n = tm_time T" if "n \<in> set (tm_near T ! ?j)" for n
  proof -
    have "slot_ok (Near ?j)" "n \<in> set (cell T (Near ?j))" using that by simp_all
    then have "node_place T n = Near ?j" using assms unfolding placed_def by blast
    then have "unat (tn_expire n) div 2 ^ 8 = ?t div 2 ^ 8" "unat (tn_expire n) mod 256 = ?t mod 256"
      by (simp_all add: node_place_def place_def split: if_splits)
    then have "unat (tn_expire n) div 256 = ?t div 256" "unat (tn_expire n) mod 256 = ?t mod 256" by simp_all
    then have "unat (tn_expire n) = ?t" by (metis mult_div_mod_eq)
    then show ?thesis by (simp add: word_unat_eq_iff)
  qed
  have b: "tn_expire n \<noteq> tm_time T" if n: "n \<in># pending (near_clear ?j T)" for n
  proof
    assume e: "tn_expire n = tm_time T"
    have pc: "placed (near_clear ?j T)" by (rule placed_near_clear [OF assms]) simp
    then have "shape_ok (near_clear ?j T)" by (simp add: placed_def)
    then obtain s where s: "slot_ok s" "n \<in> set (cell (near_clear ?j T) s)"
      using n mem_pending by blast
    with pc have "node_place (near_clear ?j T) n = s" unfolding placed_def by blast
    then have "s = Near ?j" using e by (simp add: node_place_def place_def near_clear_def)
    then show False using s sh by (simp add: near_clear_def shape_okD)
  qed
  have "due T = filter_mset (\<lambda>n. tn_expire n = tm_time T) (mset (tm_near T ! ?j))
      + filter_mset (\<lambda>n. tn_expire n = tm_time T) (pending (near_clear ?j T))"
    unfolding due_def by (subst p) simp
  moreover have "filter_mset (\<lambda>n. tn_expire n = tm_time T) (mset (tm_near T ! ?j)) = mset (tm_near T ! ?j)"
    using a by (simp flip: mset_filter)
  moreover have "filter_mset (\<lambda>n. tn_expire n = tm_time T) (pending (near_clear ?j T)) = {#}"
    using b by simp
  ultimately show d: "mset (tm_near T ! ?j) = due T" by simp
  have "pending T = due T + later T" unfolding due_def later_def by simp
  then show "pending (near_clear ?j T) = later T" using p d by simp
qed

lemma timer_add_ok:
  assumes "placed T" "0 < sint time"
  shows "placed (timer_add ev time T)" "tm_time (timer_add ev time T) = tm_time T"
    "pending (timer_add ev time T) = add_mset \<lparr>tn_expire = time + tm_time T, tn_event = ev\<rparr> (pending T)"
    "left T \<lparr>tn_expire = time + tm_time T, tn_event = ev\<rparr> = unat time" "0 < unat time" "unat time < 2 ^ 31"
proof -
  show "placed (timer_add ev time T)" "tm_time (timer_add ev time T) = tm_time T"
    "pending (timer_add ev time T) = add_mset \<lparr>tn_expire = time + tm_time T, tn_event = ev\<rparr> (pending T)"
    unfolding timer_add_def using placed_add_node [OF assms(1)] by simp_all
  show "left T \<lparr>tn_expire = time + tm_time T, tn_event = ev\<rparr> = unat time" by (simp add: left_def)
  show "0 < unat time" "unat time < 2 ^ 31" using sint_pos_unat [OF assms(2)] by blast+
qed

lemma timer_inv_add:
  assumes "timer_inv T" "0 < sint time"
  shows "timer_inv (timer_add ev time T)"
proof -
  have pl: "placed T" using assms(1) by (simp add: timer_inv_def)
  show ?thesis
    using assms(1) timer_add_ok [OF pl assms(2)] by (auto simp: timer_inv_def left_def)
qed

lemma add_batch_ok:
  "timer_inv T \<Longrightarrow> batch_ok b \<Longrightarrow> timer_inv (add_batch b T) \<and> tm_time (add_batch b T) = tm_time T
     \<and> pending (add_batch b T) = pending T + batch_nodes (tm_time T) b"
proof (induction b arbitrary: T)
  case (Cons x b)
  obtain ev time where x: "x = (ev, time)" by (cases x)
  have s: "0 < sint time" "batch_ok b" using Cons.prems(2) x by (auto simp: batch_ok_def)
  have pl: "placed T" using Cons.prems(1) by (simp add: timer_inv_def)
  show ?case
    using Cons.IH [OF timer_inv_add [OF Cons.prems(1) s(1), of ev] s(2)] timer_add_ok(2,3) [OF pl s(1), of ev] x
    by (simp add: add_batch_def batch_nodes_def)
qed (simp add: add_batch_def batch_nodes_def)

lemma timer_execute_ok:
  assumes pl: "placed T" and r: "\<forall>n \<in># pending T. left T n < 2 ^ 31" and b: "batch_ok b"
  shows "\<exists>ns T'. timer_execute (b # bs) T = Some (ns, T') \<and> mset ns = due T \<and> timer_inv T'
     \<and> tm_time T' = tm_time T
     \<and> pending T' = later T + (if ns = [] then {#} else batch_nodes (tm_time T) b)"
proof -
  let ?j = "unat (tm_time T) mod 256"
  let ?ns = "tm_near T ! ?j" and ?C = "near_clear ?j T"
  have tc: "tm_time ?C = tm_time T" by (simp add: near_clear_def)
  have inv: "timer_inv ?C"
  proof -
    have "0 < left T n" if "n \<in># later T" for n
      using that by (auto simp: later_def left_def unat_gt_0)
    then show ?thesis
      using placed_near_clear [OF pl, of ?j] r near_slot_due(2) [OF pl] tc
      by (auto simp: timer_inv_def left_def later_def)
  qed
  show ?thesis
  proof (cases "?ns = []")
    case True
    then have "?C = T" by (simp add: near_clear_def list_update_same_conv)
      (metis list_update_id timer.surjective timer.update_convs(1))
    with True inv near_slot_due [OF pl] show ?thesis
      by (intro exI [of _ "[]"] exI [of _ T]) (simp add: timer_execute.simps [of _ T] near_index Let_def)
  next
    case False
    let ?B = "add_batch b ?C"
    have B: "timer_inv ?B" "tm_time ?B = tm_time T" "pending ?B = later T + batch_nodes (tm_time T) b"
      using add_batch_ok [OF inv b] tc near_slot_due(2) [OF pl] by simp_all
    have "due ?B = {#}"
      using B(1) by (auto simp: due_def timer_inv_def left_def)
    then have "tm_near ?B ! ?j = []"
      using near_slot_due(1) [of ?B] B(1,2) by (simp add: timer_inv_def)
    then have "timer_execute bs ?B = Some ([], ?B)"
      using B(2) by (simp add: timer_execute.simps [of _ ?B] near_index)
    with False B near_slot_due(1) [OF pl] show ?thesis
      by (intro exI [of _ ?ns] exI [of _ ?B]) (simp add: timer_execute.simps [of _ T] near_index Let_def)
  qed
qed

lemma timer_update_ok:
  assumes inv: "timer_inv T" and b: "batch_ok b"
  shows "\<exists>ns T'. timer_update (b # bs) T = Some (ns, T') \<and> timer_inv T' \<and> tm_time T' = tm_time T + 1
     \<and> mset ns = filter_mset (\<lambda>n. left T n = 1) (pending T)
     \<and> pending T' = filter_mset (\<lambda>n. left T n \<noteq> 1) (pending T)
         + (if ns = [] then {#} else batch_nodes (tm_time T + 1) b)"
proof -
  have pl: "placed T" and L: "\<forall>n \<in># pending T. 0 < left T n \<and> left T n < 2 ^ 31"
    using inv by (auto simp: timer_inv_def)
  have none: "due T = {#}" using L by (auto simp: due_def left_def)
  then have e1: "timer_execute (b # bs) T = Some ([], T)"
    using near_slot_due(1) [OF pl] by (simp add: timer_execute.simps [of _ T] near_index)
  obtain T1 where T1: "timer_shift T = Some T1" "placed T1" "pending T1 = pending T" "tm_time T1 = tm_time T + 1"
    using timer_shift_ok [OF inv] by blast
  have step: "left T n = Suc (left T1 n)" if "n \<in># pending T" for n
  proof -
    have "tn_expire n - tm_time T \<noteq> 0" using L that by (auto simp: left_def)
    then have "unat (tn_expire n - tm_time T) = Suc (unat (tn_expire n - tm_time T - 1))"
      by (rule unat_Suc_pred)
    then show ?thesis by (simp add: left_def T1(4) diff_diff_eq)
  qed
  have one: "left T n = 1 \<longleftrightarrow> tn_expire n = tm_time T1" if "n \<in># pending T" for n
    using step [OF that] by (auto simp: left_def unat_eq_0)
  have "\<forall>n \<in># pending T1. left T1 n < 2 ^ 31"
    using step L T1(3) by fastforce
  from timer_execute_ok [OF T1(2) this b, of bs] obtain ns T' where e2:
    "timer_execute (b # bs) T1 = Some (ns, T')" "mset ns = due T1" "timer_inv T'" "tm_time T' = tm_time T1"
    "pending T' = later T1 + (if ns = [] then {#} else batch_nodes (tm_time T1) b)" by blast
  have "due T1 = filter_mset (\<lambda>n. left T n = 1) (pending T)" "later T1 = filter_mset (\<lambda>n. left T n \<noteq> 1) (pending T)"
    unfolding due_def later_def T1(3) by (rule filter_mset_cong; use one in auto)+
  with e1 e2 T1 show ?thesis
    by (intro exI [of _ ns] exI [of _ T']) (simp add: timer_update_def)
qed

lemma update_times_ok:
  "timer_inv T \<Longrightarrow> \<exists>fs T'. update_times n T = Some (fs, T') \<and> length fs = n \<and> timer_inv T' \<and> tm_time T' = tm_time T + of_nat n
     \<and> (\<forall>k < n. mset (fs ! k) = filter_mset (\<lambda>m. left T m = Suc k) (pending T))
     \<and> pending T' = filter_mset (\<lambda>m. n < left T m) (pending T)"
proof (induction n arbitrary: T)
  case 0
  then have "filter_mset (\<lambda>m. 0 < left T m) (pending T) = pending T"
    by (auto simp: timer_inv_def filter_mset_eq_conv)
  with 0 show ?case by simp
next
  case (Suc n)
  have L: "\<forall>m \<in># pending T. 0 < left T m" using Suc.prems by (auto simp: timer_inv_def)
  obtain ns T1 where T1: "timer_update [[]] T = Some (ns, T1)" "timer_inv T1" "tm_time T1 = tm_time T + 1"
    "mset ns = filter_mset (\<lambda>m. left T m = 1) (pending T)" "pending T1 = filter_mset (\<lambda>m. left T m \<noteq> 1) (pending T)"
    using timer_update_ok [OF Suc.prems, of "[]" "[]"] by (auto simp: batch_ok_def batch_nodes_def split: if_splits)
  obtain fs T' where T': "update_times n T1 = Some (fs, T')" "length fs = n" "timer_inv T'" "tm_time T' = tm_time T1 + of_nat n"
    "\<forall>k < n. mset (fs ! k) = filter_mset (\<lambda>m. left T1 m = Suc k) (pending T1)"
    "pending T' = filter_mset (\<lambda>m. n < left T1 m) (pending T1)"
    using Suc.IH [OF T1(2)] by blast
  have step: "left T m = Suc (left T1 m)" if "m \<in># pending T" for m
  proof -
    have "tn_expire m - tm_time T \<noteq> 0" using L that by (auto simp: left_def)
    then have "unat (tn_expire m - tm_time T) = Suc (unat (tn_expire m - tm_time T - 1))"
      by (rule unat_Suc_pred)
    then show ?thesis by (simp add: left_def T1(3) diff_diff_eq)
  qed
  have "mset ((ns # fs) ! k) = filter_mset (\<lambda>m. left T m = Suc k) (pending T)" if "k < Suc n" for k
  proof (cases k)
    case 0
    then show ?thesis using T1(4) by simp
  next
    case (Suc k')
    have "mset (fs ! k') = filter_mset (\<lambda>m. left T1 m = Suc k') (pending T1)" using T'(5) Suc that by simp
    also have "\<dots> = filter_mset (\<lambda>m. left T1 m = Suc k' \<and> left T m \<noteq> 1) (pending T)"
      by (simp add: T1(5) filter_filter_mset conj_commute)
    also have "\<dots> = filter_mset (\<lambda>m. left T m = Suc k) (pending T)"
      by (rule filter_mset_cong) (use step Suc in auto)
    finally show ?thesis using Suc by simp
  qed
  moreover have "pending T' = filter_mset (\<lambda>m. Suc n < left T m) (pending T)"
  proof -
    have "pending T' = filter_mset (\<lambda>m. n < left T1 m \<and> left T m \<noteq> 1) (pending T)"
      by (simp add: T'(6) T1(5) filter_filter_mset conj_commute)
    also have "\<dots> = filter_mset (\<lambda>m. Suc n < left T m) (pending T)"
      by (rule filter_mset_cong) (use step in auto)
    finally show ?thesis .
  qed
  ultimately show ?case using T1(1,3) T'(1-4) by simp
qed

section \<open>Properties\<close>

lemma timer_create_inv: "timer_inv timer_create_timer" "pending timer_create_timer = {#}"
proof -
  have e: "cell timer_create_timer s = []" if "slot_ok s" for s
    using that by (cases s) (simp_all add: timer_create_timer_def TIME_NEAR_def TIME_LEVEL_def)
  have sh: "shape_ok timer_create_timer"
    by (simp add: shape_ok_def timer_create_timer_def TIME_NEAR_def TIME_LEVEL_def)
  have "\<not> n \<in># pending timer_create_timer" for n
    using e unfolding mem_pending [OF sh] by (metis empty_iff list.set(1))
  then show "pending timer_create_timer = {#}" by (metis multiset_nonemptyE)
  then show "timer_inv timer_create_timer" using sh e by (simp add: timer_inv_def placed_def)
qed

text \<open>For the witnesses: a wheel with one timer, 3 ticks away.\<close>

definition demo_timer :: timer where
  "demo_timer = timer_add \<lparr>te_handle = 1, te_session = 2\<rparr> 3 timer_create_timer"

lemma demo_timer_inv: "timer_inv demo_timer" "pending demo_timer = {#\<lparr>tn_expire = 3, tn_event = \<lparr>te_handle = 1, te_session = 2\<rparr>\<rparr>#}"
  "tm_time demo_timer = 0"
proof -
  have pl: "placed timer_create_timer" "tm_time timer_create_timer = 0"
    using timer_create_inv(1) by (simp_all add: timer_inv_def timer_create_timer_def)
  have s: "0 < sint (3::u32)" by simp
  show "timer_inv demo_timer" unfolding demo_timer_def by (rule timer_inv_add [OF timer_create_inv(1) s])
  show "pending demo_timer = {#\<lparr>tn_expire = 3, tn_event = \<lparr>te_handle = 1, te_session = 2\<rparr>\<rparr>#}" "tm_time demo_timer = 0"
    using timer_add_ok [OF pl(1) s] pl(2) timer_create_inv(2) by (simp_all add: demo_timer_def)
qed

text \<open>
  C6: A timer fires exactly at its tick. After \<open>skynet_timeout\<close> with a positive time on a
  valid wheel, the \<open>k\<close>-th of any number of updates dispatches exactly the timers that were
  \<open>k\<close> ticks away, the new one among them when \<open>k\<close> is its time: none is lost, early, late or
  repeated, over all levels of the wheel and the wrap of the 32-bit tick.
\<close>

theorem timeout_fires_at_its_tick:
  assumes "timer_inv T" "0 < sint time"
    and "node = \<lparr>tn_expire = time + tm_time T, tn_event = \<lparr>te_handle = h, te_session = session\<rparr>\<rparr>"
  shows "\<exists>T1. skynet_timeout push h time session T = (session, None, T1) \<and> timer_inv T1
    \<and> (\<exists>fs T'. update_times n T1 = Some (fs, T') \<and> length fs = n \<and> timer_inv T'
        \<and> (\<forall>k < n. mset (fs ! k) = filter_mset (\<lambda>m. left T m = Suc k) (pending T)
             + (if unat time = Suc k then {#node#} else {#})))"
proof -
  let ?T1 = "timer_add \<lparr>te_handle = h, te_session = session\<rparr> time T"
  have pl: "placed T" using assms(1) by (simp add: timer_inv_def)
  have inv: "timer_inv ?T1" by (rule timer_inv_add [OF assms(1,2)])
  have l: "left ?T1 m = left T m" for m using timer_add_ok(2) [OF pl assms(2)] by (simp add: left_def)
  obtain fs T' where r: "update_times n ?T1 = Some (fs, T')" "length fs = n" "timer_inv T'"
    "\<forall>k < n. mset (fs ! k) = filter_mset (\<lambda>m. left ?T1 m = Suc k) (pending ?T1)"
    using update_times_ok [OF inv] by blast
  have "skynet_timeout push h time session T = (session, None, ?T1)"
    using assms(2) by (simp add: skynet_timeout_def)
  moreover have "mset (fs ! k) = filter_mset (\<lambda>m. left T m = Suc k) (pending T)
      + (if unat time = Suc k then {#node#} else {#})" if "k < n" for k
    using r(4) that timer_add_ok(3,4) [OF pl assms(2)] unfolding l by (simp add: assms(3))
  ultimately show ?thesis using inv r by blast
qed

lemma timeout_fires_at_its_tick_witness:
  "\<exists>T1 fs T'. skynet_timeout (\<lambda>_ _. False) 7 300 8 demo_timer = (8, None, T1) \<and> update_times 300 T1 = Some (fs, T')
     \<and> fs ! 299 = [\<lparr>tn_expire = 300, tn_event = \<lparr>te_handle = 7, te_session = 8\<rparr>\<rparr>]"
proof -
  have s: "0 < sint (300::u32)" by simp
  from timeout_fires_at_its_tick [OF demo_timer_inv(1) s refl, of "\<lambda>_ _. False" 7 8 300] show ?thesis
    unfolding demo_timer_inv by (auto simp: left_def demo_timer_inv dest: spec [of _ 299])
qed

text \<open>
  C30: One update, with the timers that other threads add while the lock is released for the
  dispatch: it returns after one turn of the loop, dispatches exactly the timers one tick
  away, keeps all others and the added ones, and keeps the invariant of the wheel.
\<close>

theorem timer_update_exact:
  assumes "timer_inv T" "batch_ok b"
  shows "\<exists>ns T'. timer_update (b # bs) T = Some (ns, T') \<and> timer_inv T' \<and> tm_time T' = tm_time T + 1
     \<and> mset ns = filter_mset (\<lambda>n. left T n = 1) (pending T)
     \<and> pending T' = filter_mset (\<lambda>n. left T n \<noteq> 1) (pending T)
         + (if ns = [] then {#} else batch_nodes (tm_time T + 1) b)"
  by (rule timer_update_ok [OF assms])

lemma timer_update_exact_witness:
  "\<exists>ns T'. timer_update [[(\<lparr>te_handle = 5, te_session = 6\<rparr>, 1)]] demo_timer = Some (ns, T') \<and> ns = []
     \<and> pending T' = pending demo_timer"
proof -
  have "batch_ok [(\<lparr>te_handle = 5, te_session = 6\<rparr>, 1)]" by (simp add: batch_ok_def)
  from timer_update_exact [OF demo_timer_inv(1) this, of "[]"] show ?thesis
    unfolding demo_timer_inv by (auto simp: left_def demo_timer_inv)
qed

text \<open>
  \<open>skynet_updatetime\<close> runs one update per centisecond elapsed on the monotonic clock (its
  32-bit difference), none when the clock stands still or steps back, and leaves pending
  exactly the timers that are further away.
\<close>

theorem updatetime_catches_up:
  assumes "timer_inv T"
  shows "\<exists>fs T'. skynet_updatetime cp T = Some (fs, T') \<and> timer_inv T'
    \<and> length fs = (if cp < tm_current_point T then 0 else unat (cp - tm_current_point T) mod 2 ^ 32)
    \<and> tm_time T' = tm_time T + of_nat (length fs)
    \<and> pending T' = filter_mset (\<lambda>m. length fs < left T m) (pending T)"
proof -
  let ?diff = "ucast (cp - tm_current_point T) :: u32"
  let ?T = "T\<lparr>tm_current_point := cp, tm_current := tm_current T + ucast ?diff\<rparr>"
  have all: "filter_mset (\<lambda>m. 0 < left T m) (pending T) = pending T"
    using assms by (auto simp: timer_inv_def filter_mset_eq_conv)
  have same: "cell (T\<lparr>tm_current_point := a, tm_current := b\<rparr>) s = cell T s" for a b s by (cases s) simp_all
  have ext: "timer_inv (T\<lparr>tm_current_point := a, tm_current := b\<rparr>)" "left (T\<lparr>tm_current_point := a, tm_current := b\<rparr>) m = left T m"
    "pending (T\<lparr>tm_current_point := a, tm_current := b\<rparr>) = pending T" for a b m
    using assms same by (simp_all add: timer_inv_def placed_def shape_ok_def node_place_def left_def pending_def)
  have same0: "cell (T\<lparr>tm_current_point := a\<rparr>) s = cell T s" for a s by (cases s) simp_all
  have ext0: "timer_inv (T\<lparr>tm_current_point := a\<rparr>)" "pending (T\<lparr>tm_current_point := a\<rparr>) = pending T" for a
    using assms same0 by (simp_all add: timer_inv_def placed_def shape_ok_def node_place_def left_def pending_def)
  have d: "unat ?diff = unat (cp - tm_current_point T) mod 2 ^ 32"
    by (simp add: unsigned_ucast_eq take_bit_eq_mod)
  show ?thesis
  proof (cases "cp < tm_current_point T \<or> cp = tm_current_point T")
    case True
    with all assms ext0 [of cp] show ?thesis by (auto simp: skynet_updatetime_def)
  next
    case False
    with update_times_ok [OF ext(1), of "unat ?diff" "tm_current T + ucast ?diff" cp] d ext(2,3) show ?thesis
      by (auto simp: skynet_updatetime_def Let_def)
  qed
qed

lemma updatetime_catches_up_witness:
  "\<exists>fs T'. skynet_updatetime 2 demo_timer = Some (fs, T') \<and> pending T' = pending demo_timer"
proof -
  have "tm_current_point (put s n T) = tm_current_point T" for s n T
    by (cases s) (simp_all add: near_link_def level_link_def)
  then have "tm_current_point demo_timer = 0"
    by (simp add: demo_timer_def timer_add_def add_node_put timer_create_timer_def)
  with updatetime_catches_up [OF demo_timer_inv(1), of 2] show ?thesis
    unfolding demo_timer_inv by (auto simp: left_def demo_timer_inv)
qed

end
