(* ===== verification/Context.thy ===== *)
theory Context
  imports CString Handle Scheduler Timer
begin

text \<open>
  The service contexts of \<open>skynet-src/skynet_server.c\<close> with \<open>skynet_harbor.c\<close>, \<open>skynet_error.c\<close>
  and the part of \<open>skynet_timer.c\<close> that sends: the state of a node, reference counts, sending and
  the end of a context. Contexts and mailboxes live in stores indexed by addresses. Each
  function is taken as one uninterrupted step; the interleavings of its critical sections on
  the mailboxes are those of theory \<open>Scheduler\<close>. What the dynamic linker and the C library
  provide (modules, callbacks, clocks, the allocator, log files) is the argument \<open>api\<close>.
  Integers of type \<open>int\<close> are 32-bit words read by \<open>sint\<close>; \<open>None\<close> is a failed assert or a use of
  memory that is not allocated.
\<close>

section \<open>State\<close>

record skynet_context =
  cx_mod :: nat
  cx_inst :: nat
  cx_cb :: "nat option"
  cx_queue :: nat
  cx_logfile :: "nat option"
  cx_cpu_cost :: u64
  cx_cpu_start :: u64
  cx_handle :: u32
  cx_session_id :: u32
  cx_ref :: nat
  cx_message_count :: u64
  cx_init :: bool
  cx_endless :: bool
  cx_profile :: bool

text \<open>The node: \<open>G_NODE\<close>, the other global variables and the stores.\<close>

record node =
  nd_total :: int
  nd_monitor_exit :: u32
  nd_profile :: bool
  nd_current :: u32
  nd_remote :: "nat option"
  nd_harbor :: u32
  nd_logger :: u32
  nd_mem :: mq_mem
  nd_handles :: handle_storage
  nd_timer :: timer
  nd_starttime :: u32
  nd_env :: "bytes \<Rightarrow> bytes option"
  nd_ctxs :: "nat \<Rightarrow> skynet_context option"

record modules =
  mod_query :: "bytes \<Rightarrow> nat option"
  mod_create :: "nat \<Rightarrow> node \<Rightarrow> nat option"
  mod_init :: "nat \<Rightarrow> nat \<Rightarrow> nat \<Rightarrow> bytes option \<Rightarrow> node \<Rightarrow> (u32 \<times> node) option"
  mod_release :: "nat \<Rightarrow> nat \<Rightarrow> node \<Rightarrow> node option"
  mod_signal :: "nat \<Rightarrow> nat \<Rightarrow> u32 \<Rightarrow> node \<Rightarrow> node option"
  callback :: "nat \<Rightarrow> nat \<Rightarrow> u32 \<Rightarrow> u32 \<Rightarrow> u32 \<Rightarrow> payload option \<Rightarrow> u64 \<Rightarrow> node \<Rightarrow> (bool \<times> node) option"
  new_ctx :: "node \<Rightarrow> nat"
  new_mq :: "node \<Rightarrow> nat"
  thread_time :: "node \<Rightarrow> u64"
  log_open :: "u32 \<Rightarrow> node \<Rightarrow> nat option"
  show_seconds :: "u64 \<Rightarrow> bytes"

definition PTYPE_ERROR :: u32 where "PTYPE_ERROR = 7"
definition PTYPE_SYSTEM :: u32 where "PTYPE_SYSTEM = 4"
definition PTYPE_HARBOR :: u32 where "PTYPE_HARBOR = 5"
definition PTYPE_CLIENT :: u32 where "PTYPE_CLIENT = 3"
definition PTYPE_TAG_DONTCOPY :: u32 where "PTYPE_TAG_DONTCOPY = 0x10000"
definition PTYPE_TAG_ALLOCSESSION :: u32 where "PTYPE_TAG_ALLOCSESSION = 0x20000"
definition MESSAGE_TYPE_MASK :: u64 where "MESSAGE_TYPE_MASK = 0x00ffffffffffffff"
definition GLOBALNAME_LENGTH :: nat where "GLOBALNAME_LENGTH = 16"
definition REMOTE_SIZE :: u64 where "REMOTE_SIZE = 48"

definition ctx_handles :: "node \<Rightarrow> nat \<Rightarrow> u32" where
  "ctx_handles nd c = (case nd_ctxs nd c of None \<Rightarrow> 0 | Some x \<Rightarrow> cx_handle x)"

definition set_ctx :: "nat \<Rightarrow> skynet_context \<Rightarrow> node \<Rightarrow> node" where
  "set_ctx c x nd = nd\<lparr>nd_ctxs := (nd_ctxs nd)(c \<mapsto> x)\<rparr>"

definition upd_ctx :: "nat \<Rightarrow> (skynet_context \<Rightarrow> skynet_context) \<Rightarrow> node \<Rightarrow> node option" where
  "upd_ctx c f nd = do { x \<leftarrow> nd_ctxs nd c; Some (set_ctx c (f x) nd) }"

definition skynet_globalinit :: "u32 \<Rightarrow> bool \<Rightarrow> u32 \<Rightarrow> node" where
  "skynet_globalinit harbor profile starttime =
     \<lparr>nd_total = 0, nd_monitor_exit = 0, nd_profile = profile, nd_current = - 1, nd_remote = None,
      nd_harbor = push_bit HANDLE_REMOTE_SHIFT harbor, nd_logger = 0, nd_mem = skynet_mq_init,
      nd_handles = skynet_handle_init harbor, nd_timer = timer_create_timer,
      nd_starttime = starttime,
      nd_env = Map.empty, nd_ctxs = (\<lambda>_. None)\<rparr>"

section \<open>References\<close>

definition skynet_context_total :: "node \<Rightarrow> int" where
  "skynet_context_total nd = nd_total nd"

definition context_inc :: "node \<Rightarrow> node" where
  "context_inc nd = nd\<lparr>nd_total := nd_total nd + 1\<rparr>"

definition context_dec :: "node \<Rightarrow> node" where
  "context_dec nd = nd\<lparr>nd_total := nd_total nd - 1\<rparr>"

definition skynet_context_newsession :: "nat \<Rightarrow> node \<Rightarrow> (u32 \<times> node) option" where
  "skynet_context_newsession c nd = do {
     x \<leftarrow> nd_ctxs nd c;
     let session = cx_session_id x + 1;
     (if sint session \<le> 0 then Some (1, set_ctx c (x\<lparr>cx_session_id := 1\<rparr>) nd)
      else Some (session, set_ctx c (x\<lparr>cx_session_id := session\<rparr>) nd)) }"

definition skynet_context_grab :: "nat \<Rightarrow> node \<Rightarrow> node option" where
  "skynet_context_grab c nd = upd_ctx c (\<lambda>x. x\<lparr>cx_ref := cx_ref x + 1\<rparr>) nd"

definition skynet_context_reserve :: "nat \<Rightarrow> node \<Rightarrow> node option" where
  "skynet_context_reserve c nd = do { nd \<leftarrow> skynet_context_grab c nd; Some (context_dec nd) }"

definition delete_context :: "modules \<Rightarrow> nat \<Rightarrow> node \<Rightarrow> node option" where
  "delete_context api c nd = do {
     x \<leftarrow> nd_ctxs nd c;
     nd \<leftarrow> mod_release api (cx_mod x) (cx_inst x) nd;
     mem \<leftarrow> skynet_mq_mark_release (cx_queue x) (nd_mem nd);
     Some (context_dec (nd\<lparr>nd_mem := mem, nd_ctxs := (nd_ctxs nd)(c := None)\<rparr>)) }"

definition skynet_context_release :: "modules \<Rightarrow> nat \<Rightarrow> node \<Rightarrow> node option" where
  "skynet_context_release api c nd = do {
     x \<leftarrow> nd_ctxs nd c;
     let nd = set_ctx c (x\<lparr>cx_ref := cx_ref x - 1\<rparr>) nd;
     (if cx_ref x = 1 then delete_context api c nd else Some nd) }"

text \<open>\<open>skynet_handle_grab\<close>: the context, with a reference to it.\<close>

definition skynet_handle_grab :: "u32 \<Rightarrow> node \<Rightarrow> (nat option \<times> node) option" where
  "skynet_handle_grab handle nd =
     (case skynet_handle_lookup (ctx_handles nd) handle (nd_handles nd) of
        None \<Rightarrow> Some (None, nd)
      | Some c \<Rightarrow> do { nd \<leftarrow> skynet_context_grab c nd; Some (Some c, nd) })"

text \<open>\<open>skynet_handle_retire\<close> with the release of the reference of the table.\<close>

definition handle_retire :: "modules \<Rightarrow> u32 \<Rightarrow> node \<Rightarrow> (bool \<times> node) option" where
  "handle_retire api handle nd = do {
     (r, hs) \<leftarrow> skynet_handle_retire (ctx_handles nd) handle (nd_handles nd);
     let nd = nd\<lparr>nd_handles := hs\<rparr>;
     (case r of
        None \<Rightarrow> Some (False, nd)
      | Some c \<Rightarrow> do { nd \<leftarrow> skynet_context_release api c nd; Some (True, nd) }) }"

section \<open>Pushing\<close>

definition mq_push :: "nat \<Rightarrow> skynet_message \<Rightarrow> node \<Rightarrow> node option" where
  "mq_push p msg nd = do { mem \<leftarrow> skynet_mq_push p msg (nd_mem nd); Some (nd\<lparr>nd_mem := mem\<rparr>) }"

text \<open>True stands for the return value -1.\<close>

definition skynet_context_push :: "modules \<Rightarrow> u32 \<Rightarrow> skynet_message \<Rightarrow> node \<Rightarrow> (bool \<times> node) option" where
  "skynet_context_push api handle message nd = do {
     (r, nd) \<leftarrow> skynet_handle_grab handle nd;
     (case r of
        None \<Rightarrow> Some (True, nd)
      | Some c \<Rightarrow> do {
          x \<leftarrow> nd_ctxs nd c;
          nd \<leftarrow> mq_push (cx_queue x) message nd;
          nd \<leftarrow> skynet_context_release api c nd;
          Some (False, nd) }) }"

definition skynet_context_endless :: "modules \<Rightarrow> u32 \<Rightarrow> node \<Rightarrow> node option" where
  "skynet_context_endless api handle nd = do {
     (r, nd) \<leftarrow> skynet_handle_grab handle nd;
     (case r of
        None \<Rightarrow> Some nd
      | Some c \<Rightarrow> do {
          nd \<leftarrow> upd_ctx c (\<lambda>x. x\<lparr>cx_endless := True\<rparr>) nd;
          skynet_context_release api c nd }) }"

definition skynet_context_send ::
    "nat \<Rightarrow> payload option \<Rightarrow> u64 \<Rightarrow> u32 \<Rightarrow> u32 \<Rightarrow> u32 \<Rightarrow> node \<Rightarrow> node option" where
  "skynet_context_send c msg sz source type session nd = do {
     x \<leftarrow> nd_ctxs nd c;
     mq_push (cx_queue x) \<lparr>msg_source = source, msg_session = session, msg_data = msg,
       msg_sz = sz OR push_bit MESSAGE_TYPE_SHIFT (ucast type)\<rparr> nd }"

definition error_source :: "nat option \<Rightarrow> node \<Rightarrow> u32 option" where
  "error_source context nd = (case context of None \<Rightarrow> Some 0 | Some c \<Rightarrow> map_option cx_handle (nd_ctxs nd c))"

definition skynet_error :: "modules \<Rightarrow> nat option \<Rightarrow> bytes \<Rightarrow> node \<Rightarrow> node option" where
  "skynet_error api context text nd = do {
     logger \<leftarrow> (if nd_logger nd = 0 then skynet_handle_findname (str ''logger'') (nd_handles nd) else Some (nd_logger nd));
     let nd = nd\<lparr>nd_logger := logger\<rparr>;
     (if logger = 0 then Some nd
      else do {
        source \<leftarrow> error_source context nd;
        (_, nd) \<leftarrow> skynet_context_push api logger
          \<lparr>msg_source = source, msg_session = 0, msg_data = Some (Bytes text), msg_sz = of_nat (length text)\<rparr> nd;
        Some nd }) }"

definition node_timeout :: "modules \<Rightarrow> u32 \<Rightarrow> u32 \<Rightarrow> u32 \<Rightarrow> node \<Rightarrow> (u32 \<times> node) option" where
  "node_timeout api handle time session nd =
     (let dead = (\<lambda>h _. skynet_handle_lookup (ctx_handles nd) h (nd_handles nd) = None);
          (r, now, T) = skynet_timeout dead handle time session (nd_timer nd) in
      (case now of
         None \<Rightarrow> Some (r, nd\<lparr>nd_timer := T\<rparr>)
       | Some (h, m) \<Rightarrow> do { (_, nd) \<leftarrow> skynet_context_push api h m nd; Some (r, nd) }))"

section \<open>The harbor\<close>

definition invalid_type :: "u32 \<Rightarrow> bool" where
  "invalid_type type \<longleftrightarrow> type \<noteq> PTYPE_SYSTEM \<and> type \<noteq> PTYPE_HARBOR"

definition skynet_harbor_send :: "payload \<Rightarrow> u32 \<Rightarrow> u32 \<Rightarrow> node \<Rightarrow> node option" where
  "skynet_harbor_send rmsg source session nd = do {
     cassert (\<not> is_Bytes rmsg \<and> invalid_type (rm_type rmsg));
     remote \<leftarrow> nd_remote nd;
     skynet_context_send remote (Some rmsg) REMOTE_SIZE source PTYPE_SYSTEM session nd }"

definition skynet_harbor_message_isremote :: "u32 \<Rightarrow> node \<Rightarrow> bool option" where
  "skynet_harbor_message_isremote handle nd = do {
     cassert (nd_harbor nd \<noteq> - 1);
     let h = handle AND NOT HANDLE_MASK;
     Some (h \<noteq> nd_harbor nd \<and> h \<noteq> 0) }"

definition skynet_harbor_start :: "nat \<Rightarrow> node \<Rightarrow> node option" where
  "skynet_harbor_start c nd = do { nd \<leftarrow> skynet_context_reserve c nd; Some (nd\<lparr>nd_remote := Some c\<rparr>) }"

definition skynet_harbor_exit :: "modules \<Rightarrow> node \<Rightarrow> node option" where
  "skynet_harbor_exit api nd =
     (case nd_remote nd of
        None \<Rightarrow> Some nd
      | Some c \<Rightarrow> skynet_context_release api c (nd\<lparr>nd_remote := None\<rparr>))"

definition skynet_isremote :: "u32 \<Rightarrow> node \<Rightarrow> (bool \<times> u32) option" where
  "skynet_isremote handle nd = do {
     ret \<leftarrow> skynet_harbor_message_isremote handle nd;
     Some (ret, drop_bit HANDLE_REMOTE_SHIFT handle) }"

section \<open>Sending\<close>

text \<open>The copy of \<open>sz\<close> bytes; reading past the end of the block has no result.\<close>

fun copy_data :: "u64 \<Rightarrow> payload \<Rightarrow> payload option" where
  "copy_data sz (Bytes bs) = (if unat sz \<le> length bs then Some (Bytes (take (unat sz) bs)) else None)"
| "copy_data sz rmsg = Some rmsg"

definition filter_args :: "nat option \<Rightarrow> u32 \<Rightarrow> u32 \<Rightarrow> payload option \<Rightarrow> u64 \<Rightarrow> node
    \<Rightarrow> (u32 \<times> payload option \<times> u64 \<times> node) option" where
  "filter_args context type session data sz nd = do {
     (session, nd) \<leftarrow>
       (if type AND PTYPE_TAG_ALLOCSESSION \<noteq> 0
        then do { cassert (session = 0); c \<leftarrow> context; skynet_context_newsession c nd }
        else Some (session, nd));
     data \<leftarrow> (case data of
        Some d \<Rightarrow> if type AND PTYPE_TAG_DONTCOPY = 0 then map_option Some (copy_data sz d) else Some (Some d)
      | None \<Rightarrow> Some None);
     Some (session, data, sz OR push_bit MESSAGE_TYPE_SHIFT (ucast (type AND 0xff)), nd) }"

definition skynet_send ::
    "modules \<Rightarrow> nat option \<Rightarrow> u32 \<Rightarrow> u32 \<Rightarrow> u32 \<Rightarrow> u32 \<Rightarrow> payload option \<Rightarrow> u64 \<Rightarrow> node \<Rightarrow> (u32 \<times> node) option" where
  "skynet_send api context source destination type session data sz nd =
     (if sz AND MESSAGE_TYPE_MASK \<noteq> sz then do {
        nd \<leftarrow> skynet_error api context (str ''error: The message to '' @ show_hex destination @ str '' is too large'') nd;
        Some (- 2, nd) }
      else do {
        (session, data, sz, nd) \<leftarrow> filter_args context type session data sz nd;
        source \<leftarrow> (if source = 0 then do { c \<leftarrow> context; map_option cx_handle (nd_ctxs nd c) } else Some source);
        (if destination = 0 then
           (case data of
              Some _ \<Rightarrow> do {
                nd \<leftarrow> skynet_error api context (str ''error: Destination address can't be 0'') nd;
                Some (- 1, nd) }
            | None \<Rightarrow> Some (session, nd))
         else do {
           remote \<leftarrow> skynet_harbor_message_isremote destination nd;
           (if remote then do {
              nd \<leftarrow> skynet_harbor_send (Remote \<lparr>rn_name = [], rn_handle = destination\<rparr> data (sz AND MESSAGE_TYPE_MASK)
                (ucast (drop_bit MESSAGE_TYPE_SHIFT sz))) source session nd;
              Some (session, nd) }
            else do {
              (failed, nd) \<leftarrow> skynet_context_push api destination
                \<lparr>msg_source = source, msg_session = session, msg_data = data, msg_sz = sz\<rparr> nd;
              Some (if failed then - 1 else session, nd) }) }) })"

definition copy_name :: "bytes \<Rightarrow> bytes" where
  "copy_name addr = take GLOBALNAME_LENGTH (cstr addr @ replicate GLOBALNAME_LENGTH 0)"

text \<open>The character of a C string at an index up to its length.\<close>

definition ch0 :: "bytes \<Rightarrow> u8" where
  "ch0 s = (case s of [] \<Rightarrow> 0 | b # _ \<Rightarrow> b)"

definition skynet_sendname ::
    "modules \<Rightarrow> nat option \<Rightarrow> u32 \<Rightarrow> bytes \<Rightarrow> u32 \<Rightarrow> u32 \<Rightarrow> payload option \<Rightarrow> u64 \<Rightarrow> node \<Rightarrow> (u32 \<times> node) option" where
  "skynet_sendname api context source addr type session data sz nd = do {
     source \<leftarrow> (if source = 0 then do { c \<leftarrow> context; map_option cx_handle (nd_ctxs nd c) } else Some source);
     (if ch0 addr = 58 then skynet_send api context source (ucast (strtoul 16 (drop 1 addr))) type session data sz nd
      else if ch0 addr = 46 then do {
        des \<leftarrow> skynet_handle_findname (drop 1 addr) (nd_handles nd);
        (if des = 0 then Some (- 1, nd) else skynet_send api context source des type session data sz nd) }
      else if sz AND MESSAGE_TYPE_MASK \<noteq> sz then do {
        nd \<leftarrow> skynet_error api context (str ''error: The message to '' @ addr @ str '' is too large'') nd;
        Some (- 2, nd) }
      else do {
        (session, data, sz, nd) \<leftarrow> filter_args context type session data sz nd;
        nd \<leftarrow> skynet_harbor_send (Remote \<lparr>rn_name = copy_name addr, rn_handle = 0\<rparr> data (sz AND MESSAGE_TYPE_MASK)
          (ucast (drop_bit MESSAGE_TYPE_SHIFT sz))) source session nd;
        Some (session, nd) }) }"

text \<open>\<open>drop_message\<close> reports the loss of a message to its source.\<close>

definition drop_message :: "modules \<Rightarrow> u32 \<Rightarrow> skynet_message \<Rightarrow> node \<Rightarrow> node option" where
  "drop_message api handle msg nd = do {
     cassert (handle \<noteq> 0);
     (_, nd) \<leftarrow> skynet_send api None handle (msg_source msg) PTYPE_ERROR (msg_session msg) None 0 nd;
     Some nd }"

fun drop_messages :: "modules \<Rightarrow> u32 \<Rightarrow> skynet_message list \<Rightarrow> node \<Rightarrow> node option" where
  "drop_messages api handle [] nd = Some nd"
| "drop_messages api handle (m # ms) nd = do { nd \<leftarrow> drop_message api handle m nd; drop_messages api handle ms nd }"

text \<open>\<open>skynet_mq_release\<close> with \<open>drop_message\<close>.\<close>

definition mailbox_release :: "modules \<Rightarrow> nat \<Rightarrow> u32 \<Rightarrow> node \<Rightarrow> node option" where
  "mailbox_release api p handle nd = do {
     (mem, dropped) \<leftarrow> skynet_mq_release p (nd_mem nd);
     drop_messages api handle dropped (nd\<lparr>nd_mem := mem\<rparr>) }"

section \<open>What the mailbox operations leave alone\<close>

definition tag :: "mq_mem \<Rightarrow> nat \<Rightarrow> (u32 \<times> nat) option" where
  "tag m p = map_option (\<lambda>q. (mq_handle q, mq_release q)) (mqs m p)"

lemma tag_put [simp]: "tag (mq_put p q m) = (tag m)(p \<mapsto> (mq_handle q, mq_release q))"
  by (auto simp: tag_def mq_put_def)

lemma tag_gq [simp]: "tag (m\<lparr>gq_head := x\<rparr>) = tag m" "tag (m\<lparr>gq_tail := x\<rparr>) = tag m"
  by (auto simp: tag_def)

lemma tag_self [simp]: "mqs m p = Some q \<Longrightarrow> (tag m)(p \<mapsto> (mq_handle q, mq_release q)) = tag m"
  by (auto simp: fun_eq_iff) (simp add: tag_def)

lemma tag_globalmq_push: "skynet_globalmq_push p m = Some m' \<Longrightarrow> tag m' = tag m"
  by (auto simp: skynet_globalmq_push_def bind_eq_Some_conv split: option.splits if_splits)

lemma tag_globalmq_pop: "skynet_globalmq_pop m = Some (m', r) \<Longrightarrow> tag m' = tag m"
  by (auto simp: skynet_globalmq_pop_def bind_eq_Some_conv Let_def split: option.splits if_splits)

lemma mq_store_tag: "mq_store msg q = Some q' \<Longrightarrow> mq_handle q' = mq_handle q \<and> mq_release q' = mq_release q"
  by (auto simp: mq_store_def bind_eq_Some_conv expand_queue_def Let_def split: if_splits)

lemma tag_mq_push: "skynet_mq_push p msg m = Some m' \<Longrightarrow> tag m' = tag m"
  by (auto simp: skynet_mq_push_def bind_eq_Some_conv split: if_splits dest!: tag_globalmq_push mq_store_tag)

lemma tag_mark_release: "skynet_mq_mark_release p m = Some m' \<Longrightarrow> tag m p = Some (h, r) \<Longrightarrow> tag m' = (tag m)(p \<mapsto> (h, 1))"
  by (auto simp: skynet_mq_mark_release_def bind_eq_Some_conv Let_def tag_def split: if_splits dest!: tag_globalmq_push)

section \<open>The invariant of a node\<close>

text \<open>
  \<open>ext c\<close> is the number of references to \<open>c\<close> that running code holds, besides the one of the
  handle table; \<open>h\<close> gives the mailboxes the threads hold. A context that exists has as many
  references as its count says, at least one, and its own mailbox, not marked for release.
\<close>

definition ref_ok :: "(nat \<Rightarrow> nat) \<Rightarrow> node \<Rightarrow> nat \<Rightarrow> bool" where
  "ref_ok ext nd c \<longleftrightarrow>
     (case nd_ctxs nd c of
        None \<Rightarrow> c \<notin> live (nd_handles nd) \<and> ext c = 0
      | Some x \<Rightarrow> cx_ref x = of_bool (c \<in> live (nd_handles nd)) + ext c \<and> 0 < cx_ref x
          \<and> tag (nd_mem nd) (cx_queue x) = Some (cx_handle x, 0))"

definition own_queues :: "node \<Rightarrow> bool" where
  "own_queues nd \<longleftrightarrow> (\<forall>c d x y. nd_ctxs nd c = Some x \<longrightarrow> nd_ctxs nd d = Some y \<longrightarrow> cx_queue x = cx_queue y \<longrightarrow> c = d)"

definition node_ok :: "(nat \<Rightarrow> nat) \<Rightarrow> (nat \<Rightarrow> nat list) \<Rightarrow> node \<Rightarrow> bool" where
  "node_ok ext h nd \<longleftrightarrow> mem_ok (nd_mem nd) h \<and> handle_inv (ctx_handles nd) (nd_handles nd)
     \<and> names_ok (nd_handles nd) \<and> own_queues nd \<and> (\<forall>c. ref_ok ext nd c)"

lemma node_okD:
  assumes "node_ok ext h nd"
  shows "mem_ok (nd_mem nd) h" "handle_inv (ctx_handles nd) (nd_handles nd)" "names_ok (nd_handles nd)" "own_queues nd"
    "ref_ok ext nd c"
  using assms by (simp_all add: node_ok_def)

lemma slots_ok_cong: "slots_ok ch s k \<Longrightarrow> (\<And>c. c \<in> live s \<Longrightarrow> ch' c = ch c) \<Longrightarrow> slots_ok ch' s k"
  unfolding slots_ok_def live_def by (metis (no_types, lifting) mem_Collect_eq nth_mem)

lemma handle_inv_cong: "handle_inv ch s \<Longrightarrow> (\<And>c. c \<in> live s \<Longrightarrow> ch' c = ch c) \<Longrightarrow> handle_inv ch' s"
  unfolding handle_inv_def using slots_ok_cong by blast

lemma lookup_live_iff:
  "handle_inv ch s \<Longrightarrow> skynet_handle_lookup ch h s = Some c \<longleftrightarrow> c \<in> live s \<and> ch c = h"
  by (auto simp: handle_inv_def lookup_live)

lemma ref_ok_alloc: "ref_ok ext nd c \<Longrightarrow> c \<in> live (nd_handles nd) \<or> 0 < ext c \<Longrightarrow> \<exists>x. nd_ctxs nd c = Some x"
  by (cases "nd_ctxs nd c") (auto simp: ref_ok_def)

lemma ref_okD:
  assumes "ref_ok ext nd c" "nd_ctxs nd c = Some x"
  shows "cx_ref x = of_bool (c \<in> live (nd_handles nd)) + ext c" "0 < cx_ref x"
    "tag (nd_mem nd) (cx_queue x) = Some (cx_handle x, 0)"
  using assms unfolding ref_ok_def by auto

lemma ref_ok_cong:
  "nd_ctxs nd' = nd_ctxs nd \<Longrightarrow> nd_handles nd' = nd_handles nd \<Longrightarrow> tag (nd_mem nd') = tag (nd_mem nd) \<Longrightarrow>
   ref_ok ext nd' c = ref_ok ext nd c"
  unfolding ref_ok_def by (simp only:)

lemma own_queues_cong: "nd_ctxs nd' = nd_ctxs nd \<Longrightarrow> own_queues nd' = own_queues nd"
  by (simp add: own_queues_def)

lemma own_queuesD:
  "own_queues nd \<Longrightarrow> nd_ctxs nd c = Some x \<Longrightarrow> nd_ctxs nd d = Some y \<Longrightarrow> cx_queue x = cx_queue y \<Longrightarrow> c = d"
  unfolding own_queues_def by blast

lemma set_ctx_simps [simp]:
  "nd_ctxs (set_ctx c x nd) = (nd_ctxs nd)(c \<mapsto> x)" "nd_mem (set_ctx c x nd) = nd_mem nd"
  "nd_handles (set_ctx c x nd) = nd_handles nd" "nd_total (set_ctx c x nd) = nd_total nd"
  "nd_harbor (set_ctx c x nd) = nd_harbor nd" "nd_remote (set_ctx c x nd) = nd_remote nd"
  "nd_timer (set_ctx c x nd) = nd_timer nd" "nd_logger (set_ctx c x nd) = nd_logger nd"
  by (simp_all add: set_ctx_def)

lemma ctx_handles_simps [simp]:
  "ctx_handles (set_ctx c x nd) = (ctx_handles nd)(c := cx_handle x)"
  "ctx_handles (nd\<lparr>nd_mem := m\<rparr>) = ctx_handles nd" "ctx_handles (nd\<lparr>nd_handles := hs\<rparr>) = ctx_handles nd"
  "ctx_handles (nd\<lparr>nd_logger := l\<rparr>) = ctx_handles nd" "ctx_handles (nd\<lparr>nd_timer := T\<rparr>) = ctx_handles nd"
  "ctx_handles (nd\<lparr>nd_total := n\<rparr>) = ctx_handles nd" "ctx_handles (nd\<lparr>nd_current := u\<rparr>) = ctx_handles nd"
  "ctx_handles (nd\<lparr>nd_remote := rc\<rparr>) = ctx_handles nd" "ctx_handles (nd\<lparr>nd_monitor_exit := u\<rparr>) = ctx_handles nd"
  by (auto simp: ctx_handles_def set_ctx_def)

lemma ctx_handles_at: "nd_ctxs nd c = Some x \<Longrightarrow> ctx_handles nd c = cx_handle x"
  by (simp add: ctx_handles_def)

text \<open>An update of a context that keeps its handle, mailbox and count.\<close>

lemma node_ok_set_ctx:
  assumes ok: "node_ok ext h nd" and x: "nd_ctxs nd c = Some x"
    and y: "cx_handle y = cx_handle x" "cx_queue y = cx_queue x" "cx_ref y + ext c = cx_ref x + e" "0 < cx_ref y"
  shows "node_ok (ext(c := e)) h (set_ctx c y nd)"
proof -
  note D = node_okD [OF ok]
  have "(ctx_handles nd)(c := cx_handle y) = ctx_handles nd" using x y(1) by (simp add: ctx_handles_at fun_eq_iff)
  moreover have "own_queues (set_ctx c y nd)"
    unfolding own_queues_def
  proof (intro allI impI)
    fix a b u v
    assume a: "nd_ctxs (set_ctx c y nd) a = Some u" "nd_ctxs (set_ctx c y nd) b = Some v" "cx_queue u = cx_queue v"
    have o: "\<exists>u'. nd_ctxs nd a = Some u' \<and> cx_queue u' = cx_queue u" if "nd_ctxs (set_ctx c y nd) a = Some u" for a u
      using that x y(2) by (cases "a = c") auto
    from o [OF a(1)] o [OF a(2)] a(3) show "a = b" using own_queuesD [OF D(4)] by metis
  qed
  moreover have "ref_ok (ext(c := e)) (set_ctx c y nd) d" for d
  proof (cases "d = c")
    case True
    then show ?thesis using ref_okD [OF D(5) x] y by (simp add: ref_ok_def)
  next
    case False
    then show ?thesis using D(5) [of d] unfolding ref_ok_def by (auto split: option.splits)
  qed
  ultimately show ?thesis using D(1-3) by (simp add: node_ok_def)
qed

lemma node_ok_cong:
  assumes "node_ok ext h nd" "mem_ok (nd_mem nd') h'" "tag (nd_mem nd') = tag (nd_mem nd)" "nd_ctxs nd' = nd_ctxs nd"
    "nd_handles nd' = nd_handles nd"
  shows "node_ok ext h' nd'"
proof -
  have "ctx_handles nd' = ctx_handles nd" using assms(4) by (simp add: ctx_handles_def fun_eq_iff)
  then show ?thesis
    using assms unfolding node_ok_def ref_ok_cong [OF assms(4,5,3)] own_queues_cong [OF assms(4)] by simp
qed

lemma node_ok_mem:
  assumes "node_ok ext h nd" "mem_ok m h'" "tag m = tag (nd_mem nd)"
  shows "node_ok ext h' (nd\<lparr>nd_mem := m\<rparr>)"
  by (rule node_ok_cong [OF assms(1)]) (simp_all add: assms)

text \<open>A change of the mailboxes that keeps the tags of those the contexts own.\<close>

lemma node_ok_tag:
  assumes ok: "node_ok ext h nd" and m: "mem_ok m h'"
    and t: "\<And>c x. nd_ctxs nd c = Some x \<Longrightarrow> tag m (cx_queue x) = tag (nd_mem nd) (cx_queue x)"
  shows "node_ok ext h' (nd\<lparr>nd_mem := m\<rparr>)"
proof -
  note D = node_okD [OF ok]
  have "ref_ok ext (nd\<lparr>nd_mem := m\<rparr>) c" for c
  proof (cases "nd_ctxs nd c")
    case None
    then show ?thesis using D(5) [of c] by (simp add: ref_ok_def)
  next
    case (Some x)
    from ref_okD [OF D(5) Some] t [OF Some] Some show ?thesis by (simp add: ref_ok_def)
  qed
  moreover have "own_queues (nd\<lparr>nd_mem := m\<rparr>)" using D(4) by (simp add: own_queues_def)
  ultimately show ?thesis using D(2,3) m by (simp add: node_ok_def)
qed

lemma ref_ok_irrelevant [simp]:
  "ref_ok ext (nd\<lparr>nd_logger := l\<rparr>) c = ref_ok ext nd c"
  "ref_ok ext (nd\<lparr>nd_timer := T\<rparr>) c = ref_ok ext nd c"
  "ref_ok ext (nd\<lparr>nd_total := n\<rparr>) c = ref_ok ext nd c"
  "ref_ok ext (nd\<lparr>nd_current := u\<rparr>) c = ref_ok ext nd c"
  "ref_ok ext (nd\<lparr>nd_remote := rc\<rparr>) c = ref_ok ext nd c"
  "ref_ok ext (nd\<lparr>nd_monitor_exit := u\<rparr>) c = ref_ok ext nd c"
  by (rule ref_ok_cong; simp)+

lemma own_queues_irrelevant [simp]:
  "own_queues (nd\<lparr>nd_logger := l\<rparr>) = own_queues nd"
  "own_queues (nd\<lparr>nd_timer := T\<rparr>) = own_queues nd"
  "own_queues (nd\<lparr>nd_total := n\<rparr>) = own_queues nd"
  "own_queues (nd\<lparr>nd_current := u\<rparr>) = own_queues nd"
  "own_queues (nd\<lparr>nd_remote := rc\<rparr>) = own_queues nd"
  "own_queues (nd\<lparr>nd_monitor_exit := u\<rparr>) = own_queues nd"
  by (rule own_queues_cong; simp)+

lemma node_ok_irrelevant [simp]:
  "node_ok ext h (nd\<lparr>nd_logger := l\<rparr>) = node_ok ext h nd"
  "node_ok ext h (nd\<lparr>nd_timer := T\<rparr>) = node_ok ext h nd"
  "node_ok ext h (nd\<lparr>nd_total := n\<rparr>) = node_ok ext h nd"
  "node_ok ext h (nd\<lparr>nd_current := u\<rparr>) = node_ok ext h nd"
  "node_ok ext h (nd\<lparr>nd_remote := rc\<rparr>) = node_ok ext h nd"
  "node_ok ext h (nd\<lparr>nd_monitor_exit := u\<rparr>) = node_ok ext h nd"
  by (simp_all add: node_ok_def)

lemma grab_ok:
  assumes ok: "node_ok ext h nd"
  shows "case skynet_handle_lookup (ctx_handles nd) hdl (nd_handles nd) of
      None \<Rightarrow> skynet_handle_grab hdl nd = Some (None, nd)
    | Some c \<Rightarrow> \<exists>x. nd_ctxs nd c = Some x \<and> cx_handle x = hdl \<and> c \<in> live (nd_handles nd)
        \<and> skynet_handle_grab hdl nd = Some (Some c, set_ctx c (x\<lparr>cx_ref := cx_ref x + 1\<rparr>) nd)
        \<and> node_ok (ext(c := ext c + 1)) h (set_ctx c (x\<lparr>cx_ref := cx_ref x + 1\<rparr>) nd)"
proof (cases "skynet_handle_lookup (ctx_handles nd) hdl (nd_handles nd)")
  case None
  then show ?thesis by (simp add: skynet_handle_grab_def)
next
  case (Some c)
  then have c: "c \<in> live (nd_handles nd)" "ctx_handles nd c = hdl"
    using lookup_live_iff node_okD(2) [OF ok] by blast+
  obtain x where x: "nd_ctxs nd c = Some x" using ref_ok_alloc [OF node_okD(5) [OF ok]] c(1) by blast
  have "node_ok (ext(c := ext c + 1)) h (set_ctx c (x\<lparr>cx_ref := cx_ref x + 1\<rparr>) nd)"
    by (rule node_ok_set_ctx [OF ok x]) simp_all
  with Some c x show ?thesis
    by (simp add: skynet_handle_grab_def skynet_context_grab_def upd_ctx_def ctx_handles_at)
qed

text \<open>Pushing to the mailbox of a context.\<close>

lemma mq_push_ok:
  assumes ok: "node_ok ext h nd" and x: "nd_ctxs nd c = Some x"
  shows "\<exists>m ms. skynet_mq_push (cx_queue x) msg (nd_mem nd) = Some m \<and> node_ok ext h (nd\<lparr>nd_mem := m\<rparr>)
    \<and> tag m = tag (nd_mem nd) \<and> view (nd_mem nd) (cx_queue x) = Some ms \<and> view m = (view (nd_mem nd))(cx_queue x \<mapsto> ms @ [msg])"
proof -
  note D = node_okD [OF ok]
  obtain q where q: "mqs (nd_mem nd) (cx_queue x) = Some q" "mq_release q = 0"
    using ref_okD(3) [OF D(5) x] by (auto simp: tag_def)
  obtain m where m: "skynet_mq_push (cx_queue x) msg (nd_mem nd) = Some m" "mem_ok m h"
    "view m = (view (nd_mem nd))(cx_queue x := Some (mq_contents q @ [msg]))"
    using mem_ok_send [OF D(1) q] by blast
  from tag_mq_push [OF m(1)] node_ok_mem [OF ok m(2)] m q(1) show ?thesis
    by (auto simp: view_def)
qed

lemma context_push_dead:
  "skynet_handle_lookup (ctx_handles nd) hdl (nd_handles nd) = None \<Longrightarrow> skynet_context_push api hdl msg nd = Some (True, nd)"
  by (simp add: skynet_handle_grab_def skynet_context_push_def)

lemma context_push_live:
  assumes ok: "node_ok ext h nd" and c: "skynet_handle_lookup (ctx_handles nd) hdl (nd_handles nd) = Some c"
  obtains x m ms where "nd_ctxs nd c = Some x" "skynet_context_push api hdl msg nd = Some (False, nd\<lparr>nd_mem := m\<rparr>)"
    "node_ok ext h (nd\<lparr>nd_mem := m\<rparr>)" "tag m = tag (nd_mem nd)"
    "view (nd_mem nd) (cx_queue x) = Some ms" "view m = (view (nd_mem nd))(cx_queue x \<mapsto> ms @ [msg])"
proof -
  obtain x where x: "nd_ctxs nd c = Some x"
    "skynet_handle_grab hdl nd = Some (Some c, set_ctx c (x\<lparr>cx_ref := cx_ref x + 1\<rparr>) nd)" using grab_ok [OF ok, of hdl] c by auto
  have p: "0 < cx_ref x" using ref_okD(2) [OF node_okD(5) [OF ok] x(1)] .
  obtain m ms where m: "skynet_mq_push (cx_queue x) msg (nd_mem nd) = Some m" "node_ok ext h (nd\<lparr>nd_mem := m\<rparr>)"
    "tag m = tag (nd_mem nd)" "view (nd_mem nd) (cx_queue x) = Some ms" "view m = (view (nd_mem nd))(cx_queue x \<mapsto> ms @ [msg])"
    using mq_push_ok [OF ok x(1)] by blast
  have "mq_push (cx_queue x) msg (set_ctx c (x\<lparr>cx_ref := cx_ref x + 1\<rparr>) nd) = Some (set_ctx c (x\<lparr>cx_ref := cx_ref x + 1\<rparr>) (nd\<lparr>nd_mem := m\<rparr>))"
    using m(1) by (simp add: mq_push_def set_ctx_def)
  moreover have "set_ctx c x (nd\<lparr>nd_mem := m\<rparr>) = nd\<lparr>nd_mem := m\<rparr>"
    using x(1) by (simp add: set_ctx_def fun_upd_idem)
  ultimately have "skynet_context_push api hdl msg nd = Some (False, nd\<lparr>nd_mem := m\<rparr>)"
    using x p by (simp add: skynet_context_push_def skynet_context_release_def set_ctx_def)
  then show thesis using that x(1) m by blast
qed

section \<open>Releasing a reference\<close>

text \<open>The hypothesis on the modules: releasing an instance does not touch the node.\<close>

definition quiet_release :: "modules \<Rightarrow> bool" where
  "quiet_release api \<longleftrightarrow> (\<forall>m i nd. mod_release api m i nd = Some nd)"

lemma release_ok:
  assumes ok: "node_ok ext h nd" and q: "quiet_release api" and e: "0 < ext c"
  shows "\<exists>x nd'. nd_ctxs nd c = Some x \<and> skynet_context_release api c nd = Some nd' \<and> node_ok (ext(c := ext c - 1)) h nd'
    \<and> view (nd_mem nd') = view (nd_mem nd) \<and> nd_handles nd' = nd_handles nd
    \<and> (if cx_ref x = 1 then nd_ctxs nd' = (nd_ctxs nd)(c := None) \<and> tag (nd_mem nd') (cx_queue x) = Some (cx_handle x, 1)
         \<and> nd_total nd' = nd_total nd - 1
       else nd' = set_ctx c (x\<lparr>cx_ref := cx_ref x - 1\<rparr>) nd)"
proof -
  note D = node_okD [OF ok]
  obtain x where x: "nd_ctxs nd c = Some x" using ref_ok_alloc [OF D(5)] e by blast
  note R = ref_okD [OF D(5) x]
  show ?thesis
  proof (cases "cx_ref x = 1")
    case False
    have "node_ok (ext(c := ext c - 1)) h (set_ctx c (x\<lparr>cx_ref := cx_ref x - 1\<rparr>) nd)"
      by (rule node_ok_set_ctx [OF ok x]) (use False R e in auto)
    with False x show ?thesis by (simp add: skynet_context_release_def)
  next
    case True
    then have dead: "c \<notin> live (nd_handles nd)" "ext c = 1" using R(1) e by (auto split: if_splits)
    obtain qq where qq: "mqs (nd_mem nd) (cx_queue x) = Some qq" "mq_release qq = 0"
      using R(3) by (auto simp: tag_def)
    obtain m where m: "skynet_mq_mark_release (cx_queue x) (nd_mem nd) = Some m" "mem_ok m h" "view m = view (nd_mem nd)"
      using mem_ok_mark [OF D(1) qq] by blast
    have tm: "tag m = (tag (nd_mem nd))(cx_queue x \<mapsto> (cx_handle x, 1))" by (rule tag_mark_release [OF m(1) R(3)])
    let ?nd = "nd\<lparr>nd_mem := m, nd_ctxs := (nd_ctxs nd)(c := None), nd_total := nd_total nd - 1\<rparr>"
    have "skynet_context_release api c nd = Some ?nd"
      using x True q m(1) by (simp add: skynet_context_release_def delete_context_def quiet_release_def context_dec_def set_ctx_def)
    moreover have "node_ok (ext(c := ext c - 1)) h ?nd"
    proof -
      have "handle_inv (ctx_handles ?nd) (nd_handles nd)"
        by (rule handle_inv_cong [OF D(2)]) (use dead in \<open>auto simp: ctx_handles_def\<close>)
      moreover have "own_queues ?nd" using D(4) by (auto simp: own_queues_def)
      moreover have "ref_ok (ext(c := ext c - 1)) ?nd d" for d
      proof (cases "d = c")
        case True
        then show ?thesis using dead by (simp add: ref_ok_def)
      next
        case False
        have "cx_queue y \<noteq> cx_queue x" if "nd_ctxs nd d = Some y" for y
          using own_queuesD [OF D(4) that x] False by blast
        then show ?thesis using D(5) [of d] False tm unfolding ref_ok_def by (auto split: option.splits)
      qed
      ultimately show ?thesis using D(3) m(2) by (simp add: node_ok_def)
    qed
    ultimately show ?thesis using x True m(3) tm by simp
  qed
qed

text \<open>What the callers that only want the frame use.\<close>

lemma release_frame:
  assumes ok: "node_ok ext h nd" and q: "quiet_release api" and e: "0 < ext c"
  obtains nd' where "skynet_context_release api c nd = Some nd'" "node_ok (ext(c := ext c - 1)) h nd'"
    "view (nd_mem nd') = view (nd_mem nd)" "nd_handles nd' = nd_handles nd" "\<And>d. d \<noteq> c \<Longrightarrow> nd_ctxs nd' d = nd_ctxs nd d"
proof -
  obtain x nd' where r: "skynet_context_release api c nd = Some nd'" "node_ok (ext(c := ext c - 1)) h nd'"
    "view (nd_mem nd') = view (nd_mem nd)" "nd_handles nd' = nd_handles nd"
    "if cx_ref x = 1 then nd_ctxs nd' = (nd_ctxs nd)(c := None) \<and> tag (nd_mem nd') (cx_queue x) = Some (cx_handle x, 1)
         \<and> nd_total nd' = nd_total nd - 1
       else nd' = set_ctx c (x\<lparr>cx_ref := cx_ref x - 1\<rparr>) nd"
    using release_ok [OF assms] by blast
  moreover have "nd_ctxs nd' d = nd_ctxs nd d" if "d \<noteq> c" for d using r(5) that by (simp split: if_splits)
  ultimately show thesis using that by blast
qed

section \<open>Logging\<close>

text \<open>What an error report may change: the cached handle of the logger, and messages appended.\<close>

definition mail_le :: "mq_mem \<Rightarrow> mq_mem \<Rightarrow> bool" where
  "mail_le m m' \<longleftrightarrow> tag m' = tag m \<and> (\<forall>p. case view m p of None \<Rightarrow> view m' p = None | Some xs \<Rightarrow> \<exists>ys. view m' p = Some (xs @ ys))"

lemma mail_le_refl [simp]: "mail_le m m"
  by (simp add: mail_le_def split: option.split)

lemma mail_le_trans: "mail_le a b \<Longrightarrow> mail_le b c \<Longrightarrow> mail_le a c"
proof -
  assume a: "mail_le a b" "mail_le b c"
  have "case view a p of None \<Rightarrow> view c p = None | Some xs \<Rightarrow> \<exists>ys. view c p = Some (xs @ ys)" for p
    using a [unfolded mail_le_def, THEN conjunct2, THEN spec, of p] by (auto split: option.splits)
  with a show ?thesis by (simp add: mail_le_def)
qed

lemma mail_le_push: "tag m' = tag m \<Longrightarrow> view m p = Some ms \<Longrightarrow> view m' = (view m)(p \<mapsto> ms @ [x]) \<Longrightarrow> mail_le m m'"
  by (auto simp: mail_le_def split: option.split)

lemma error_source_logger [simp]: "error_source context (nd\<lparr>nd_logger := l\<rparr>) = error_source context nd"
  by (cases "context") (simp_all add: error_source_def)

lemma error_ok:
  assumes ok: "node_ok ext h nd" and c: "\<And>c. context = Some c \<Longrightarrow> nd_ctxs nd c \<noteq> None"
  shows "\<exists>l m. skynet_error api context text nd = Some (nd\<lparr>nd_logger := l, nd_mem := m\<rparr>)
    \<and> node_ok ext h (nd\<lparr>nd_logger := l, nd_mem := m\<rparr>) \<and> mail_le (nd_mem nd) m"
proof -
  note D = node_okD [OF ok]
  obtain l where l: "(if nd_logger nd = 0 then skynet_handle_findname (str ''logger'') (nd_handles nd) else Some (nd_logger nd)) = Some l"
    by (cases "nd_logger nd = 0") (use findname_eq [OF D(3)] in auto)
  let ?nd = "nd\<lparr>nd_logger := l\<rparr>"
  have ok': "node_ok ext h ?nd" using ok by simp
  show ?thesis
  proof (cases "l = 0")
    case True
    then show ?thesis using l ok' by (intro exI [of _ l] exI [of _ "nd_mem nd"]) (simp add: skynet_error_def Let_def)
  next
    case False
    obtain src where src: "error_source context nd = Some src"
      using c by (cases "context") (auto simp: error_source_def)
    let ?msg = "\<lparr>msg_source = src, msg_session = 0, msg_data = Some (Bytes text), msg_sz = of_nat (length text)\<rparr>"
    have e: "skynet_error api context text nd = do { (_, nd) \<leftarrow> skynet_context_push api l ?msg ?nd; Some nd }"
      using l src False by (simp add: skynet_error_def Let_def)
    show ?thesis
    proof (cases "skynet_handle_lookup (ctx_handles nd) l (nd_handles nd)")
      case None
      then have "skynet_context_push api l ?msg ?nd = Some (True, ?nd)" by (intro context_push_dead) simp
      then show ?thesis using e ok' by (intro exI [of _ l] exI [of _ "nd_mem nd"]) simp
    next
      case (Some d)
      then have lk: "skynet_handle_lookup (ctx_handles ?nd) l (nd_handles ?nd) = Some d" by simp
      obtain x m ms where m: "nd_ctxs ?nd d = Some x" "skynet_context_push api l ?msg ?nd = Some (False, ?nd\<lparr>nd_mem := m\<rparr>)"
        "node_ok ext h (?nd\<lparr>nd_mem := m\<rparr>)" "tag m = tag (nd_mem ?nd)" "view (nd_mem ?nd) (cx_queue x) = Some ms"
        "view m = (view (nd_mem ?nd))(cx_queue x \<mapsto> ms @ [?msg])"
        by (rule context_push_live [OF ok' lk])
      have "mail_le (nd_mem ?nd) m" by (rule mail_le_push [OF m(4-6)])
      with e m(2,3) show ?thesis by auto
    qed
  qed
qed

section \<open>Retiring a handle\<close>

lemma handle_retire_ok:
  assumes ok: "node_ok ext h nd" and q: "quiet_release api"
  shows "\<exists>nd'. handle_retire api hdl nd = Some (skynet_handle_lookup (ctx_handles nd) hdl (nd_handles nd) \<noteq> None, nd')
    \<and> node_ok ext h nd' \<and> view (nd_mem nd') = view (nd_mem nd)
    \<and> skynet_handle_lookup (ctx_handles nd') hdl (nd_handles nd') = None
    \<and> (\<forall>c. c \<in> live (nd_handles nd') \<longleftrightarrow> c \<in> live (nd_handles nd) \<and> ctx_handles nd c \<noteq> hdl)"
proof -
  note D = node_okD [OF ok]
  obtain k where k: "slots_ok (ctx_handles nd) (nd_handles nd) k" using D(2) by (auto simp: handle_inv_def)
  obtain hs where r: "skynet_handle_retire (ctx_handles nd) hdl (nd_handles nd)
      = Some (skynet_handle_lookup (ctx_handles nd) hdl (nd_handles nd), hs)"
    "slots_ok (ctx_handles nd) hs k" "names_ok hs"
    "case skynet_handle_lookup (ctx_handles nd) hdl (nd_handles nd) of None \<Rightarrow> hs = nd_handles nd
      | Some c \<Rightarrow> live hs = live (nd_handles nd) - {c} \<and> names hs = filter (\<lambda>x. snd x \<noteq> hdl) (names (nd_handles nd))"
    using retire_ok [OF k D(3), of hdl] by blast
  show ?thesis
  proof (cases "skynet_handle_lookup (ctx_handles nd) hdl (nd_handles nd)")
    case None
    then have hs: "hs = nd_handles nd" using r(4) by simp
    have "ctx_handles nd c \<noteq> hdl" if "c \<in> live (nd_handles nd)" for c
      using lookup_live_iff [OF D(2), of hdl c] None that by simp
    moreover have "handle_retire api hdl nd = Some (False, nd)" using r(1) None hs by (simp add: handle_retire_def)
    ultimately show ?thesis using None ok by auto
  next
    case (Some c)
    then have c: "c \<in> live (nd_handles nd)" "ctx_handles nd c = hdl" using lookup_live_iff [OF D(2)] by auto
    have lv: "live hs = live (nd_handles nd) - {c}" using r(4) Some by simp
    let ?nd = "nd\<lparr>nd_handles := hs\<rparr>"
    have "ref_ok (ext(c := ext c + 1)) ?nd d" for d
    proof (cases "nd_ctxs nd d")
      case None
      then have "d \<notin> live (nd_handles nd)" "ext d = 0" using D(5) [of d] by (simp_all add: ref_ok_def)
      then show ?thesis using None c(1) lv by (auto simp: ref_ok_def)
    next
      case (Some y)
      then show ?thesis using ref_okD [OF D(5) Some] c(1) lv by (cases "d = c") (simp_all add: ref_ok_def)
    qed
    moreover have "own_queues ?nd" using D(4) by (simp add: own_queues_def)
    moreover have "handle_inv (ctx_handles ?nd) hs" using r(2) by (auto simp: handle_inv_def)
    ultimately have ok1: "node_ok (ext(c := ext c + 1)) h ?nd" using D(1) r(3) by (simp add: node_ok_def)
    have pos: "0 < (ext(c := ext c + 1)) c" by simp
    obtain nd' where nd': "skynet_context_release api c ?nd = Some nd'" "node_ok ((ext(c := ext c + 1))(c := (ext(c := ext c + 1)) c - 1)) h nd'"
      "view (nd_mem nd') = view (nd_mem ?nd)" "nd_handles nd' = nd_handles ?nd" "\<And>d. d \<noteq> c \<Longrightarrow> nd_ctxs nd' d = nd_ctxs ?nd d"
      by (rule release_frame [OF ok1 q pos]) blast
    have e: "(ext(c := ext c + 1))(c := (ext(c := ext c + 1)) c - 1) = ext" by (simp add: fun_eq_iff)
    have ok2: "node_ok ext h nd'" using nd'(2) unfolding e .
    have lv': "d \<in> live (nd_handles nd') \<longleftrightarrow> d \<in> live (nd_handles nd) \<and> ctx_handles nd d \<noteq> hdl" for d
    proof (cases "d = c")
      case True
      then show ?thesis using lv nd'(4) c(2) by simp
    next
      case False
      then have "d \<in> live (nd_handles nd) \<Longrightarrow> ctx_handles nd d \<noteq> hdl" using live_handles_inj [OF k c(1), of d] c(2) by metis
      then show ?thesis using False lv nd'(4) by auto
    qed
    have "ctx_handles nd' d = ctx_handles nd d" if "d \<in> live (nd_handles nd')" for d
      using that nd'(4,5) lv by (simp add: ctx_handles_def)
    then have "skynet_handle_lookup (ctx_handles nd') hdl (nd_handles nd') = None"
      using lookup_live_iff [OF node_okD(2) [OF ok2], of hdl] lv' by (metis not_Some_eq)
    with Some r(1) nd' ok2 lv' show ?thesis by (simp add: handle_retire_def)
  qed
qed

section \<open>Sending\<close>

lemma newsession_ok:
  assumes "nd_ctxs nd c = Some x"
  obtains s where "skynet_context_newsession c nd = Some (s, set_ctx c (x\<lparr>cx_session_id := s\<rparr>) nd)" "0 < sint s"
    "s = (if sint (cx_session_id x + 1) \<le> 0 then 1 else cx_session_id x + 1)"
  using assms that by (simp add: skynet_context_newsession_def Let_def)

lemma isremote_set_ctx [simp]: "skynet_harbor_message_isremote h (set_ctx c x nd) = skynet_harbor_message_isremote h nd"
  by (simp add: skynet_harbor_message_isremote_def)

text \<open>The type in the high byte of a size.\<close>

lemma typed_size:
  assumes "sz AND MESSAGE_TYPE_MASK = sz"
  shows "drop_bit MESSAGE_TYPE_SHIFT (sz OR push_bit MESSAGE_TYPE_SHIFT (ucast ((t :: u32) AND 0xff))) = ucast (t AND 0xff)"
    "(sz OR push_bit MESSAGE_TYPE_SHIFT (ucast (t AND 0xff))) AND MESSAGE_TYPE_MASK = sz"
proof -
  have m: "MESSAGE_TYPE_MASK = mask 56" "(0xff :: u32) = mask 8" by (simp_all add: MESSAGE_TYPE_MASK_def mask_eq_exp_minus_1)
  have sz: "\<not> bit sz n" if "56 \<le> n" for n
    using assms that unfolding m by (metis bit_and_iff bit_mask_iff leD)
  show "drop_bit MESSAGE_TYPE_SHIFT (sz OR push_bit MESSAGE_TYPE_SHIFT (ucast (t AND 0xff))) = ucast (t AND 0xff)"
    unfolding m by (rule bit_word_eqI) (auto simp: bit_simps MESSAGE_TYPE_SHIFT_def sz)
  show "(sz OR push_bit MESSAGE_TYPE_SHIFT (ucast (t AND 0xff))) AND MESSAGE_TYPE_MASK = sz"
    unfolding m by (intro bit_word_eqI) (use sz in \<open>auto simp: bit_simps MESSAGE_TYPE_SHIFT_def not_le [symmetric]\<close>)
qed

text \<open>What \<open>filter_args\<close> does for a message with a block of its size.\<close>

lemma filter_args_ok:
  assumes x: "nd_ctxs nd d = Some y" and len: "length bs = unat sz" and s: "type AND PTYPE_TAG_ALLOCSESSION = 0 \<or> session = 0"
  obtains s' y' where "filter_args (Some d) type session (Some (Bytes bs)) sz nd
      = Some (s', Some (Bytes bs), sz OR push_bit MESSAGE_TYPE_SHIFT (ucast (type AND 0xff)), set_ctx d y' nd)"
    "if type AND PTYPE_TAG_ALLOCSESSION = 0 then s' = session \<and> y' = y else 0 < sint s' \<and> y' = y\<lparr>cx_session_id := s'\<rparr>"
proof (cases "type AND PTYPE_TAG_ALLOCSESSION = 0")
  case True
  have "set_ctx d y nd = nd" using x by (simp add: set_ctx_def fun_upd_idem)
  with True len show ?thesis by (intro that [of session y]) (simp_all add: filter_args_def)
next
  case False
  obtain s' where s': "skynet_context_newsession d nd = Some (s', set_ctx d (y\<lparr>cx_session_id := s'\<rparr>) nd)" "0 < sint s'"
    by (rule newsession_ok [OF x])
  with False len s show ?thesis by (intro that [of s' "y\<lparr>cx_session_id := s'\<rparr>"]) (simp_all add: filter_args_def)
qed


text \<open>The mailbox a handle leads to, and the error report of a lost message.\<close>

definition mailbox_of :: "node \<Rightarrow> u32 \<Rightarrow> nat option" where
  "mailbox_of nd hdl = do {
     c \<leftarrow> skynet_handle_lookup (ctx_handles nd) hdl (nd_handles nd);
     map_option cx_queue (nd_ctxs nd c) }"

definition error_report :: "u32 \<Rightarrow> skynet_message \<Rightarrow> skynet_message" where
  "error_report hdl m = \<lparr>msg_source = hdl, msg_session = msg_session m, msg_data = None, msg_sz = push_bit MESSAGE_TYPE_SHIFT 7\<rparr>"

definition local_source :: "node \<Rightarrow> skynet_message \<Rightarrow> bool" where
  "local_source nd m \<longleftrightarrow> msg_source m = 0 \<or> skynet_harbor_message_isremote (msg_source m) nd = Some False"

lemma mem_frame [simp]:
  "mailbox_of (nd\<lparr>nd_mem := m\<rparr>) = mailbox_of nd" "local_source (nd\<lparr>nd_mem := m\<rparr>) = local_source nd"
  "skynet_harbor_message_isremote hdl (nd\<lparr>nd_mem := m\<rparr>) = skynet_harbor_message_isremote hdl nd"
  by (simp_all add: mailbox_of_def local_source_def skynet_harbor_message_isremote_def fun_eq_iff)

lemma bind_fst_cong: "(m \<bind> (\<lambda>y. (case y of (a, nd) \<Rightarrow> Some (f a, nd)) \<bind> (\<lambda>(_, nd). Some nd))) = (m \<bind> (\<lambda>(_, nd). Some nd))"
  by (cases m) (auto simp: split_def)

lemma drop_message_ok:
  assumes ok: "node_ok ext h nd" and hdl: "hdl \<noteq> 0" and l: "local_source nd msg"
  shows "\<exists>m. drop_message api hdl msg nd = Some (nd\<lparr>nd_mem := m\<rparr>) \<and> node_ok ext h (nd\<lparr>nd_mem := m\<rparr>) \<and> tag m = tag (nd_mem nd)
    \<and> (\<forall>p. view m p = (if msg_source msg \<noteq> 0 \<and> mailbox_of nd (msg_source msg) = Some p
         then map_option (\<lambda>xs. xs @ [error_report hdl msg]) (view (nd_mem nd) p) else view (nd_mem nd) p))"
proof -
  have bits: "PTYPE_ERROR AND PTYPE_TAG_ALLOCSESSION = 0" "PTYPE_ERROR AND 0xff = 7" "(0 :: u64) AND MESSAGE_TYPE_MASK = 0"
    by (simp_all add: PTYPE_ERROR_def PTYPE_TAG_ALLOCSESSION_def)
  have f: "filter_args None PTYPE_ERROR s None 0 nd = Some (s, None, push_bit MESSAGE_TYPE_SHIFT 7, nd)" for s
    by (simp add: filter_args_def bits)
  let ?er = "error_report hdl msg"
  have e: "drop_message api hdl msg nd = (if msg_source msg = 0 then Some nd
      else do { (_, nd) \<leftarrow> skynet_context_push api (msg_source msg) ?er nd; Some nd })"
    using hdl l by (cases "msg_source msg = 0")
      (auto simp: drop_message_def skynet_send_def f local_source_def error_report_def intro!: bind_fst_cong)
  show ?thesis
  proof (cases "msg_source msg = 0 \<or> skynet_handle_lookup (ctx_handles nd) (msg_source msg) (nd_handles nd) = None")
    case True
    have "nd\<lparr>nd_mem := nd_mem nd\<rparr> = nd" by simp
    moreover have "drop_message api hdl msg nd = Some nd" using e True by (auto simp: context_push_dead)
    moreover have "\<not> (msg_source msg \<noteq> 0 \<and> mailbox_of nd (msg_source msg) = Some p)" for p using True by (auto simp: mailbox_of_def)
    ultimately show ?thesis using ok by (intro exI [of _ "nd_mem nd"]) auto
  next
    case False
    then obtain c where c: "skynet_handle_lookup (ctx_handles nd) (msg_source msg) (nd_handles nd) = Some c" by auto
    obtain x m ms where m: "nd_ctxs nd c = Some x" "skynet_context_push api (msg_source msg) ?er nd = Some (False, nd\<lparr>nd_mem := m\<rparr>)"
      "node_ok ext h (nd\<lparr>nd_mem := m\<rparr>)" "tag m = tag (nd_mem nd)" "view (nd_mem nd) (cx_queue x) = Some ms"
      "view m = (view (nd_mem nd))(cx_queue x \<mapsto> ms @ [?er])"
      by (rule context_push_live [OF ok c])
    have "mailbox_of nd (msg_source msg) = Some (cx_queue x)" using c m(1) by (simp add: mailbox_of_def)
    then show ?thesis using e False m by (intro exI [of _ m]) auto
  qed
qed

lemma drop_messages_ok:
  "node_ok ext h nd \<Longrightarrow> hdl \<noteq> 0 \<Longrightarrow> (\<And>msg. msg \<in> set ms \<Longrightarrow> local_source nd msg) \<Longrightarrow>
   \<exists>m. drop_messages api hdl ms nd = Some (nd\<lparr>nd_mem := m\<rparr>) \<and> node_ok ext h (nd\<lparr>nd_mem := m\<rparr>) \<and> tag m = tag (nd_mem nd)
    \<and> (\<forall>p. view m p = map_option (\<lambda>xs. xs @ map (error_report hdl)
         (filter (\<lambda>msg. msg_source msg \<noteq> 0 \<and> mailbox_of nd (msg_source msg) = Some p) ms)) (view (nd_mem nd) p))"
proof (induction ms arbitrary: nd)
  case Nil
  have "nd\<lparr>nd_mem := nd_mem nd\<rparr> = nd" by simp
  then show ?case using Nil by (intro exI [of _ "nd_mem nd"]) (simp add: option.map_ident)
next
  case (Cons msg ms)
  obtain m1 where m1: "drop_message api hdl msg nd = Some (nd\<lparr>nd_mem := m1\<rparr>)" "node_ok ext h (nd\<lparr>nd_mem := m1\<rparr>)" "tag m1 = tag (nd_mem nd)"
    "\<And>p. view m1 p = (if msg_source msg \<noteq> 0 \<and> mailbox_of nd (msg_source msg) = Some p
         then map_option (\<lambda>xs. xs @ [error_report hdl msg]) (view (nd_mem nd) p) else view (nd_mem nd) p)"
    using drop_message_ok [OF Cons.prems(1,2), of msg api] Cons.prems(3) by auto
  have "\<And>x. x \<in> set ms \<Longrightarrow> local_source (nd\<lparr>nd_mem := m1\<rparr>) x" using Cons.prems(3) by simp
  from Cons.IH [OF m1(2) Cons.prems(2) this] obtain m where m: "drop_messages api hdl ms (nd\<lparr>nd_mem := m1\<rparr>) = Some (nd\<lparr>nd_mem := m\<rparr>)"
    "node_ok ext h (nd\<lparr>nd_mem := m\<rparr>)" "tag m = tag m1"
    "\<And>p. view m p = map_option (\<lambda>xs. xs @ map (error_report hdl)
         (filter (\<lambda>msg. msg_source msg \<noteq> 0 \<and> mailbox_of nd (msg_source msg) = Some p) ms)) (view m1 p)"
    by auto
  have "view m p = map_option (\<lambda>xs. xs @ map (error_report hdl)
         (filter (\<lambda>msg. msg_source msg \<noteq> 0 \<and> mailbox_of nd (msg_source msg) = Some p) (msg # ms))) (view (nd_mem nd) p)" for p
    unfolding m(4) m1(4) by (cases "view (nd_mem nd) p") simp_all
  with m1 m show ?case by (intro exI [of _ m]) simp
qed

lemma tag_mq_release:
  assumes "skynet_mq_release p m = Some (m', d)" "mqs m p = Some q" "mq_release q \<noteq> 0"
  shows "tag m' = (tag m)(p := None)"
  using assms by (auto simp: skynet_mq_release_def drop_queue_def mq_free_def bind_eq_Some_conv tag_def mq_put_def fun_eq_iff split: if_splits)

text \<open>
  C16: No request is lost silently. When a thread releases the mailbox of a deleted service,
  the mailbox is freed and every message still in it, from a source on this node, is answered:
  the mailbox of each source that is alive receives one error report per message, with the
  session of that message and in their order, and no other mailbox changes.
\<close>

theorem release_reports_errors:
  assumes ok: "node_ok ext h nd" and p: "p \<in> set (h t)" and q: "mqs (nd_mem nd) p = Some q" "mq_release q \<noteq> 0"
    and hdl: "hdl \<noteq> 0" and l: "\<forall>msg \<in> set (mq_contents q). local_source nd msg"
  shows "\<exists>m. mailbox_release api p hdl nd = Some (nd\<lparr>nd_mem := m\<rparr>) \<and> node_ok ext (h(t := remove1 p (h t))) (nd\<lparr>nd_mem := m\<rparr>)
    \<and> view m p = None
    \<and> (\<forall>p'. p' \<noteq> p \<longrightarrow> view m p' = map_option (\<lambda>xs. xs @ map (error_report hdl)
         (filter (\<lambda>msg. msg_source msg \<noteq> 0 \<and> mailbox_of nd (msg_source msg) = Some p') (mq_contents q))) (view (nd_mem nd) p'))"
proof -
  note D = node_okD [OF ok]
  let ?h = "h(t := remove1 p (h t))"
  obtain m1 where m1: "skynet_mq_release p (nd_mem nd) = Some (m1, mq_contents q)" "mem_ok m1 ?h" "view m1 = (view (nd_mem nd))(p := None)"
    using mem_ok_release [OF D(1) p q(1)] q(2) by auto
  have t1: "tag m1 = (tag (nd_mem nd))(p := None)" by (rule tag_mq_release [OF m1(1) q])
  let ?nd = "nd\<lparr>nd_mem := m1\<rparr>"
  have "tag m1 (cx_queue x) = tag (nd_mem nd) (cx_queue x)" if "nd_ctxs nd c = Some x" for c x
    using ref_okD(3) [OF D(5) that] q t1 by (auto simp: tag_def)
  then have ok1: "node_ok ext ?h ?nd" by (rule node_ok_tag [OF ok m1(2)])
  obtain m where m: "drop_messages api hdl (mq_contents q) ?nd = Some (nd\<lparr>nd_mem := m\<rparr>)" "node_ok ext ?h (nd\<lparr>nd_mem := m\<rparr>)"
    "\<And>p'. view m p' = map_option (\<lambda>xs. xs @ map (error_report hdl)
         (filter (\<lambda>msg. msg_source msg \<noteq> 0 \<and> mailbox_of nd (msg_source msg) = Some p') (mq_contents q))) (view m1 p')"
    using drop_messages_ok [OF ok1 hdl, of "mq_contents q" api] l by auto
  have "mailbox_release api p hdl nd = Some (nd\<lparr>nd_mem := m\<rparr>)" using m1(1) m(1) by (simp add: mailbox_release_def)
  moreover have "view m p = None" using m(3) [of p] m1(3) by simp
  moreover have "view m p' = map_option (\<lambda>xs. xs @ map (error_report hdl)
         (filter (\<lambda>msg. msg_source msg \<noteq> 0 \<and> mailbox_of nd (msg_source msg) = Some p') (mq_contents q))) (view (nd_mem nd) p')"
    if "p' \<noteq> p" for p' using m(3) [of p'] m1(3) that by simp
  ultimately show ?thesis using m(2) by blast
qed

text \<open>
  Sending to a handle that is not live fails cleanly: \<open>skynet_send\<close> returns -1 and, but for
  the session number when one is allocated, leaves the node as it was.
\<close>

theorem send_to_dead:
  assumes y: "nd_ctxs nd d = Some y" and c: "skynet_handle_lookup (ctx_handles nd) destination (nd_handles nd) = None"
    and local: "skynet_harbor_message_isremote destination nd = Some False" and dst: "destination \<noteq> 0"
    and sz: "sz AND MESSAGE_TYPE_MASK = sz" and len: "length bs = unat sz"
    and s: "type AND PTYPE_TAG_ALLOCSESSION = 0 \<or> session = 0"
  shows "\<exists>y'. skynet_send api (Some d) 0 destination type session (Some (Bytes bs)) sz nd = Some (- 1, set_ctx d y' nd)
     \<and> (y' = y \<or> y' = y\<lparr>cx_session_id := cx_session_id y'\<rparr>)"
proof -
  obtain s' y' where f: "filter_args (Some d) type session (Some (Bytes bs)) sz nd = Some (s', Some (Bytes bs),
      sz OR push_bit MESSAGE_TYPE_SHIFT (ucast (type AND 0xff)), set_ctx d y' nd)"
    "if type AND PTYPE_TAG_ALLOCSESSION = 0 then s' = session \<and> y' = y else 0 < sint s' \<and> y' = y\<lparr>cx_session_id := s'\<rparr>"
    by (rule filter_args_ok [OF y len s])
  have y': "cx_handle y' = cx_handle y" using f(2) by (auto split: if_splits)
  have "(ctx_handles nd)(d := cx_handle y) = ctx_handles nd" using y by (simp add: ctx_handles_at fun_eq_iff)
  then have "skynet_handle_lookup (ctx_handles (set_ctx d y' nd)) destination (nd_handles (set_ctx d y' nd)) = None"
    using c y' by simp
  from context_push_dead [OF this] have "skynet_send api (Some d) 0 destination type session (Some (Bytes bs)) sz nd = Some (- 1, set_ctx d y' nd)"
    using f(1) sz dst local by (simp add: skynet_send_def)
  moreover have "y' = y \<or> y' = y\<lparr>cx_session_id := cx_session_id y'\<rparr>" using f(2) by (auto split: if_splits)
  ultimately show ?thesis by blast
qed


text \<open>
  Killing a service: retiring its handle succeeds exactly when it is live, afterwards the
  handle leads nowhere, every other handle still leads to its service, no message moves and no
  reference is lost.
\<close>

theorem retire_kills:
  assumes "node_ok ext h nd" "quiet_release api"
  shows "\<exists>nd'. handle_retire api hdl nd = Some (skynet_handle_lookup (ctx_handles nd) hdl (nd_handles nd) \<noteq> None, nd')
    \<and> node_ok ext h nd' \<and> view (nd_mem nd') = view (nd_mem nd)
    \<and> skynet_handle_lookup (ctx_handles nd') hdl (nd_handles nd') = None
    \<and> (\<forall>c. c \<in> live (nd_handles nd') \<longleftrightarrow> c \<in> live (nd_handles nd) \<and> ctx_handles nd c \<noteq> hdl)"
  by (rule handle_retire_ok [OF assms])

section \<open>A node with one service\<close>

definition demo_ctx :: skynet_context where
  "demo_ctx = \<lparr>cx_mod = 0, cx_inst = 0, cx_cb = None, cx_queue = 5, cx_logfile = None, cx_cpu_cost = 0, cx_cpu_start = 0,
     cx_handle = 0x1000001, cx_session_id = 0x7fffffff, cx_ref = 1, cx_message_count = 0, cx_init = True, cx_endless = False,
     cx_profile = False\<rparr>"

definition demo_node :: node where
  "demo_node = (skynet_globalinit 1 False 0)\<lparr>nd_total := 1, nd_mem := mq_alloc 5 0x1000001 skynet_mq_init,
     nd_handles := demo_handles, nd_ctxs := [10 \<mapsto> demo_ctx]\<rparr>"

definition demo_api :: modules where
  "demo_api = \<lparr>mod_query = (\<lambda>_. None), mod_create = (\<lambda>_ _. None), mod_init = (\<lambda>_ _ _ _ nd. Some (0, nd)),
     mod_release = (\<lambda>_ _ nd. Some nd), mod_signal = (\<lambda>_ _ _ nd. Some nd), callback = (\<lambda>_ _ _ _ _ _ _ nd. Some (False, nd)),
     new_ctx = (\<lambda>_. 11), new_mq = (\<lambda>_. 6), thread_time = (\<lambda>_. 0), log_open = (\<lambda>_ _. None), show_seconds = (\<lambda>_. [])\<rparr>"

lemma demo_quiet: "quiet_release demo_api"
  by (simp add: quiet_release_def demo_api_def)

lemma demo_node_ok: "node_ok (\<lambda>_. 0) ((\<lambda>_. [])(0 := [5])) demo_node"
proof -
  have lv: "live (nd_handles demo_node) = {10}" using demo_handles_ok(3) by (simp add: demo_node_def)
  have "mem_ok skynet_mq_init (\<lambda>_. [])"
    using sched_init_inv [of "\<lparr>sm = skynet_mq_init, held = (\<lambda>_. []), sent = (\<lambda>_. []), got = (\<lambda>_. [])\<rparr>"]
    by (simp add: sched_init_def sched_inv_def)
  from mem_ok_create [OF this, of 5 "0x1000001" 0] have "mem_ok (nd_mem demo_node) ((\<lambda>_. [])(0 := [5]))"
    by (simp add: demo_node_def skynet_mq_init_def)
  moreover have "handle_inv (ctx_handles demo_node) (nd_handles demo_node)"
    using handle_inv_cong [OF demo_handles_ok(1), of "ctx_handles demo_node"] demo_handles_ok(3)
    by (simp add: demo_node_def ctx_handles_def demo_ctx_def)
  moreover have "names_ok (nd_handles demo_node)" using demo_handles_ok(2) by (simp add: demo_node_def)
  moreover have "own_queues demo_node" by (simp add: own_queues_def demo_node_def split: if_splits)
  moreover have "ref_ok (\<lambda>_. 0) demo_node c" for c
    using lv by (simp add: ref_ok_def demo_node_def demo_ctx_def tag_def mq_alloc_def mq_put_def skynet_mq_create_def)
  ultimately show ?thesis by (simp add: node_ok_def)
qed

lemma demo_lookup:
  "skynet_handle_lookup (ctx_handles demo_node) 0x1000001 (nd_handles demo_node) = Some 10"
  "skynet_handle_lookup (ctx_handles demo_node) 0x1000002 (nd_handles demo_node) = None"
  "nd_ctxs demo_node 10 = Some demo_ctx"
  "skynet_harbor_message_isremote 0x1000001 demo_node = Some False" "skynet_harbor_message_isremote 0x1000002 demo_node = Some False"
proof -
  show "skynet_handle_lookup (ctx_handles demo_node) 0x1000001 (nd_handles demo_node) = Some 10"
    using lookup_live_iff [OF node_okD(2) [OF demo_node_ok]] demo_handles_ok(3) by (simp add: demo_node_def ctx_handles_def demo_ctx_def)
  have "skynet_handle_lookup (ctx_handles demo_node) 0x1000002 (nd_handles demo_node) \<noteq> Some c" for c
    unfolding lookup_live_iff [OF node_okD(2) [OF demo_node_ok]] using demo_handles_ok(3) by (simp add: demo_node_def ctx_handles_def demo_ctx_def)
  then show "skynet_handle_lookup (ctx_handles demo_node) 0x1000002 (nd_handles demo_node) = None" by auto
  show "nd_ctxs demo_node 10 = Some demo_ctx" by (simp add: demo_node_def)
  have "nd_harbor demo_node = 0x1000000" by (simp add: demo_node_def skynet_globalinit_def HANDLE_REMOTE_SHIFT_def)
  then show "skynet_harbor_message_isremote 0x1000001 demo_node = Some False" "skynet_harbor_message_isremote 0x1000002 demo_node = Some False"
    by (simp_all add: skynet_harbor_message_isremote_def HANDLE_MASK_def)
qed


theorem send_to_dead_witness:
  "\<exists>y'. skynet_send demo_api (Some 10) 0 0x1000002 0 7 (Some (Bytes [1])) 1 demo_node = Some (- 1, set_ctx 10 y' demo_node)"
  using send_to_dead [OF demo_lookup(3,2,5), of 1 "[1]" 0 7 demo_api] by (auto simp: MESSAGE_TYPE_MASK_def)

theorem retire_kills_witness:
  "\<exists>nd'. handle_retire demo_api 0x1000001 demo_node = Some (True, nd') \<and> live (nd_handles nd') = {}"
proof -
  obtain nd' where n: "handle_retire demo_api 0x1000001 demo_node = Some (True, nd')"
    "\<And>c. c \<in> live (nd_handles nd') \<longleftrightarrow> c \<in> live (nd_handles demo_node) \<and> ctx_handles demo_node c \<noteq> 0x1000001"
    using retire_kills [OF demo_node_ok demo_quiet, of "0x1000001"] demo_lookup(1) by auto
  moreover have "c \<in> live (nd_handles demo_node) \<Longrightarrow> ctx_handles demo_node c = 0x1000001" for c
    using demo_handles_ok(3) by (simp add: demo_node_def ctx_handles_def demo_ctx_def)
  ultimately show ?thesis by auto
qed


text \<open>A second mailbox, of a deleted service, with one message from the first service.\<close>

lemma demo_dead:
  obtains m q where "node_ok (\<lambda>_. 0) ((\<lambda>_. [])(0 := [6, 5])) (demo_node\<lparr>nd_mem := m\<rparr>)" "mqs m 6 = Some q" "mq_release q \<noteq> 0"
    "mq_contents q = [demo_msg\<lparr>msg_source := 0x1000001\<rparr>]" "view m 5 = Some []"
proof -
  let ?h = "(\<lambda>_. [])(0 := [6, 5])" and ?m0 = "mq_alloc 6 0x1000002 (nd_mem demo_node)"
  have fresh: "mqs (nd_mem demo_node) 6 = None" by (simp add: demo_node_def mq_alloc_def mq_put_def skynet_mq_init_def)
  have "((\<lambda>_. [])(0 := [5]))(0 := 6 # ((\<lambda>_. [])(0 := [5])) 0) = ?h" by (simp add: fun_eq_iff)
  with mem_ok_create [OF node_okD(1) [OF demo_node_ok] fresh, of "0x1000002" 0] have m0: "mem_ok ?m0 ?h" by simp
  have q0: "mqs ?m0 6 = Some (skynet_mq_create 0x1000002)" by (simp add: mq_alloc_def mq_put_def)
  obtain m1 where m1: "skynet_mq_push 6 (demo_msg\<lparr>msg_source := 0x1000001\<rparr>) ?m0 = Some m1" "mem_ok m1 ?h"
    "view m1 = (view ?m0)(6 := Some (mq_contents (skynet_mq_create 0x1000002) @ [demo_msg\<lparr>msg_source := 0x1000001\<rparr>]))"
    using mem_ok_send [OF m0 q0] by (auto simp: skynet_mq_create_def)
  have t1: "tag m1 6 = Some (0x1000002, 0)" using tag_mq_push [OF m1(1)] q0 by (simp add: tag_def skynet_mq_create_def)
  then obtain q1 where q1: "mqs m1 6 = Some q1" "mq_release q1 = 0" by (auto simp: tag_def)
  obtain m2 where m2: "skynet_mq_mark_release 6 m1 = Some m2" "mem_ok m2 ?h" "view m2 = view m1"
    using mem_ok_mark [OF m1(2) q1] by blast
  have t2: "tag m2 = (tag m1)(6 \<mapsto> (0x1000002, 1))" by (rule tag_mark_release [OF m2(1) t1])
  then obtain q2 where q2: "mqs m2 6 = Some q2" "mq_release q2 = 1" by (auto simp: tag_def dest!: fun_cong [of _ _ 6])
  have ok: "node_ok (\<lambda>_. 0) ?h (demo_node\<lparr>nd_mem := m2\<rparr>)"
  proof (rule node_ok_tag [OF demo_node_ok m2(2)])
    fix c x assume "nd_ctxs demo_node c = Some x"
    then have "cx_queue x = 5" by (auto simp: demo_node_def demo_ctx_def split: if_splits)
    then show "tag m2 (cx_queue x) = tag (nd_mem demo_node) (cx_queue x)"
      using t2 tag_mq_push [OF m1(1)] by (simp add: mq_alloc_def)
  qed
  have "view m2 6 = Some [demo_msg\<lparr>msg_source := 0x1000001\<rparr>]" "view m2 5 = Some []"
    using m1(3) m2(3) by (simp_all add: mq_create_inv mq_alloc_def demo_node_def)
  then show thesis using that [OF ok q2(1)] q2 by (simp add: view_def)
qed

theorem release_reports_errors_witness:
  "\<exists>m m'. mailbox_release demo_api 6 0x1000002 (demo_node\<lparr>nd_mem := m\<rparr>) = Some (demo_node\<lparr>nd_mem := m'\<rparr>)
     \<and> view m' 6 = None \<and> view m' 5 = Some [\<lparr>msg_source = 0x1000002, msg_session = 2, msg_data = None, msg_sz = push_bit 56 7\<rparr>]"
proof (rule demo_dead)
  fix m q
  assume a: "node_ok (\<lambda>_. 0) ((\<lambda>_. [])(0 := [6, 5])) (demo_node\<lparr>nd_mem := m\<rparr>)" "mqs m 6 = Some q" "mq_release q \<noteq> 0"
    "mq_contents q = [demo_msg\<lparr>msg_source := 0x1000001\<rparr>]" "view m 5 = Some []"
  have l: "\<forall>msg \<in> set (mq_contents q). local_source (demo_node\<lparr>nd_mem := m\<rparr>) msg"
    using a(4) demo_lookup(4) by (simp add: local_source_def)
  have mb: "mailbox_of demo_node 0x1000001 = Some 5" using demo_lookup by (simp add: mailbox_of_def demo_ctx_def)
  obtain m' where m': "mailbox_release demo_api 6 0x1000002 (demo_node\<lparr>nd_mem := m\<rparr>) = Some (demo_node\<lparr>nd_mem := m'\<rparr>)" "view m' 6 = None"
    "\<And>p'. p' \<noteq> 6 \<Longrightarrow> view m' p' = map_option (\<lambda>xs. xs @ map (error_report 0x1000002)
         (filter (\<lambda>msg. msg_source msg \<noteq> 0 \<and> mailbox_of demo_node (msg_source msg) = Some p') (mq_contents q))) (view m p')"
    using release_reports_errors [OF a(1), of 6 0 q "0x1000002" demo_api] a(2,3) l by auto
  have "view m' 5 = Some [error_report 0x1000002 demo_msg]" using m'(3) [of 5] a(4,5) mb by (simp add: error_report_def)
  with m'(1,2) show ?thesis by (auto simp: error_report_def demo_msg_def MESSAGE_TYPE_SHIFT_def)
qed

end
