(* ===== verification/Endian.thy ===== *)
theory Endian
  imports Prelude
begin

text \<open>
  Numbers as sequences of bytes: what \<open>memcpy\<close> of an integer does on a little-endian machine,
  and the big-endian headers of the network formats.
\<close>

fun le_bytes :: "nat \<Rightarrow> nat \<Rightarrow> bytes" where
  "le_bytes 0 v = []"
| "le_bytes (Suc k) v = of_nat (v mod 256) # le_bytes k (v div 256)"

fun un_le :: "bytes \<Rightarrow> nat" where
  "un_le [] = 0"
| "un_le (b # bs) = unat b + 256 * un_le bs"

definition be_bytes :: "nat \<Rightarrow> nat \<Rightarrow> bytes" where
  "be_bytes k v = rev (le_bytes k v)"

definition un_be :: "bytes \<Rightarrow> nat" where
  "un_be bs = un_le (rev bs)"

lemma le_bytes_numeral: "le_bytes (numeral k) v = of_nat (v mod 256) # le_bytes (pred_numeral k) (v div 256)"
  using le_bytes.simps(2) [of "pred_numeral k" v] by (simp only: numeral_eq_Suc [of k, symmetric])

lemma length_le_bytes [simp]: "length (le_bytes k v) = k"
  by (induction k arbitrary: v) auto

lemma bit_push32: "bit (push_bit s (x :: u32)) n \<longleftrightarrow> s \<le> n \<and> n < 32 \<and> bit x (n - s)"
  by (auto simp: bit_push_bit_iff)

lemma bit_u32: "bit (x :: u32) n \<Longrightarrow> n < 32"
  using bit_imp_le_length [of x n] by simp

lemma bit_u8: "bit (x :: u8) n \<Longrightarrow> n < 8"
  using bit_imp_le_length [of x n] by simp

lemma u8_less: "unat (b :: u8) < 256"
  using unsigned_less [where ?'a = nat, of b] by simp

lemma u8_of_nat: "n < 256 \<Longrightarrow> unat (of_nat n :: u8) = n"
  by (simp add: unat_of_nat take_bit_eq_mod)

lemma un_le_le_bytes: "un_le (le_bytes k v) = v mod 256 ^ k"
proof (induction k arbitrary: v)
  case (Suc k)
  have "un_le (le_bytes (Suc k) v) = v mod 256 + 256 * (v div 256 mod 256 ^ k)"
    using Suc u8_of_nat [of "v mod 256"] by simp
  also have "\<dots> = v mod (256 * 256 ^ k)" by (simp add: mod_mult2_eq add.commute)
  finally show ?case by simp
qed simp

lemma un_le_less: "un_le bs < 256 ^ length bs"
proof (induction bs)
  case (Cons b bs)
  have "unat b + 256 * un_le bs < 256 * (un_le bs + 1)" using u8_less [of b] by simp
  also have "\<dots> \<le> 256 * 256 ^ length bs" using Cons by simp
  finally show ?case by simp
qed simp

lemma le_bytes_un_le: "le_bytes (length bs) (un_le bs) = bs"
proof (induction bs)
  case (Cons b bs)
  have "(unat b + 256 * un_le bs) mod 256 = unat b" "(unat b + 256 * un_le bs) div 256 = un_le bs"
    using u8_less [of b] by simp_all
  with Cons show ?case by simp
qed simp

lemma length_be_bytes [simp]: "length (be_bytes k v) = k"
  by (simp add: be_bytes_def)

lemma un_be_be_bytes: "un_be (be_bytes k v) = v mod 256 ^ k"
  by (simp add: be_bytes_def un_be_def un_le_le_bytes)

text \<open>Words of 16, 32 and 64 bits.\<close>

lemma le_word_inv:
  "un_le (le_bytes 8 (unat (w :: u64))) = unat w" "un_le (le_bytes 4 (unat (x :: u32))) = unat x"
  "un_le (le_bytes 2 (unat (y :: u16))) = unat y"
  using unsigned_less [where ?'a = nat, of w] unsigned_less [where ?'a = nat, of x] unsigned_less [where ?'a = nat, of y]
  by (simp_all add: un_le_le_bytes)

end
