(* ===== verification/Crypt.thy ===== *)
theory Crypt
  imports Endian
begin

text \<open>
  The rest of \<open>skynet/lualib-src/lua-crypt.c\<close>: the string hash, hexadecimal, the MD5 based message
  codes, Diffie-Hellman modulo the largest 64-bit prime, base64 and \<open>xor_str\<close>. Strings are below 2 GB.
  An error raised to Lua is \<open>None\<close>.
\<close>

section \<open>The string hash\<close>

definition hash_step :: "u8 \<Rightarrow> u32 \<times> u32 \<Rightarrow> u32 \<times> u32" where
  "hash_step c h =
     (case h of (djb, js) \<Rightarrow>
        (djb + (push_bit 5 djb + ucast c), js XOR (push_bit 5 js + ucast c + drop_bit 2 js)))"

definition put32_le :: "u32 \<Rightarrow> bytes" where
  "put32_le w = [ucast (w AND 0xff), ucast (drop_bit 8 w AND 0xff), ucast (drop_bit 16 w AND 0xff), ucast (drop_bit 24 w AND 0xff)]"

definition get32_le :: "bytes \<Rightarrow> nat \<Rightarrow> u32" where
  "get32_le x i = ucast (x ! i) OR push_bit 8 (ucast (x ! (i + 1))) OR push_bit 16 (ucast (x ! (i + 2)))
     OR push_bit 24 (ucast (x ! (i + 3)))"

definition Hash :: "bytes \<Rightarrow> bytes" where
  "Hash str = (case fold hash_step str (5381, 1315423911) of (djb, js) \<Rightarrow> put32_le djb @ put32_le js)"

definition lhashkey :: "bytes \<Rightarrow> bytes" where
  "lhashkey key = Hash key"

text \<open>\<open>random\<close> gives the bytes.\<close>

definition lrandomkey :: "bytes \<Rightarrow> bytes" where
  "lrandomkey tmp = (if fold (XOR) tmp 0 = 0 then tmp[0 := tmp ! 0 OR 1] else tmp)"

section \<open>Hexadecimal\<close>

definition hex_digits :: bytes where
  "hex_digits = [48, 49, 50, 51, 52, 53, 54, 55, 56, 57, 97, 98, 99, 100, 101, 102]"

fun ltohex :: "bytes \<Rightarrow> bytes" where
  "ltohex [] = []"
| "ltohex (c # cs) = hex_digits ! unat (drop_bit 4 c) # hex_digits ! unat (c AND 0xf) # ltohex cs"

definition HEX :: "u8 \<Rightarrow> u8" where
  "HEX c = (if 48 \<le> sint c \<and> sint c \<le> 57 then c - 48 else c - 97 + 10)"

fun fromhex_loop :: "bytes \<Rightarrow> bytes option" where
  "fromhex_loop (a # b # cs) =
     (let hi = HEX a; low = HEX b in
      if hi > 16 \<or> low > 16 then None
      else do { r \<leftarrow> fromhex_loop cs; Some ((push_bit 4 hi OR low) # r) })"
| "fromhex_loop _ = Some []"

definition lfromhex :: "bytes \<Rightarrow> bytes option" where
  "lfromhex s = (if odd (length s) then None else fromhex_loop s)"

section \<open>MD5 without padding\<close>

definition md5_k :: "u32 list" where
  "md5_k = [
     0xd76aa478, 0xe8c7b756, 0x242070db, 0xc1bdceee, 0xf57c0faf, 0x4787c62a, 0xa8304613, 0xfd469501,
     0x698098d8, 0x8b44f7af, 0xffff5bb1, 0x895cd7be, 0x6b901122, 0xfd987193, 0xa679438e, 0x49b40821,
     0xf61e2562, 0xc040b340, 0x265e5a51, 0xe9b6c7aa, 0xd62f105d, 0x02441453, 0xd8a1e681, 0xe7d3fbc8,
     0x21e1cde6, 0xc33707d6, 0xf4d50d87, 0x455a14ed, 0xa9e3e905, 0xfcefa3f8, 0x676f02d9, 0x8d2a4c8a,
     0xfffa3942, 0x8771f681, 0x6d9d6122, 0xfde5380c, 0xa4beea44, 0x4bdecfa9, 0xf6bb4b60, 0xbebfbc70,
     0x289b7ec6, 0xeaa127fa, 0xd4ef3085, 0x04881d05, 0xd9d4d039, 0xe6db99e5, 0x1fa27cf8, 0xc4ac5665,
     0xf4292244, 0x432aff97, 0xab9423a7, 0xfc93a039, 0x655b59c3, 0x8f0ccc92, 0xffeff47d, 0x85845dd1,
     0x6fa87e4f, 0xfe2ce6e0, 0xa3014314, 0x4e0811a1, 0xf7537e82, 0xbd3af235, 0x2ad7d2bb, 0xeb86d391]"

definition md5_r :: "nat list" where
  "md5_r = [
     7, 12, 17, 22, 7, 12, 17, 22, 7, 12, 17, 22, 7, 12, 17, 22,
     5, 9, 14, 20, 5, 9, 14, 20, 5, 9, 14, 20, 5, 9, 14, 20,
     4, 11, 16, 23, 4, 11, 16, 23, 4, 11, 16, 23, 4, 11, 16, 23,
     6, 10, 15, 21, 6, 10, 15, 21, 6, 10, 15, 21, 6, 10, 15, 21]"

definition LEFTROTATE :: "u32 \<Rightarrow> nat \<Rightarrow> u32" where
  "LEFTROTATE x c = push_bit c x OR drop_bit (32 - c) x"

definition md5_step :: "u32 list \<Rightarrow> nat \<Rightarrow> u32 \<times> u32 \<times> u32 \<times> u32 \<Rightarrow> u32 \<times> u32 \<times> u32 \<times> u32" where
  "md5_step w i s =
     (case s of (a, b, c, d) \<Rightarrow>
        let (f, g) =
          (if i < 16 then ((b AND c) OR (NOT b AND d), i)
           else if i < 32 then ((d AND b) OR (NOT d AND c), (5 * i + 1) mod 16)
           else if i < 48 then (b XOR c XOR d, (3 * i + 5) mod 16)
           else (c XOR (b OR NOT d), (7 * i) mod 16))
        in (d, b + LEFTROTATE (a + f + md5_k ! i + w ! g) (md5_r ! i), b, c))"

definition digest_md5 :: "u32 list \<Rightarrow> u32 \<times> u32 \<times> u32 \<times> u32" where
  "digest_md5 w = fold (md5_step w) [0..<64] (0x67452301, 0xefcdab89, 0x98badcfe, 0x10325476)"

text \<open>The words \<open>x[2]\<close>, \<open>y[2]\<close> and \<open>result[2]\<close> are pairs.\<close>

definition hmac :: "u32 \<times> u32 \<Rightarrow> u32 \<times> u32 \<Rightarrow> u32 \<times> u32" where
  "hmac x y =
     (let w = concat (replicate 4 [snd x, fst x, snd y, fst y]);
          (r0, r1, r2, r3) = digest_md5 w
      in (r2 XOR r3, r0 XOR r1))"

definition hmac_md5 :: "u32 \<times> u32 \<Rightarrow> u32 \<times> u32 \<Rightarrow> u32 \<times> u32" where
  "hmac_md5 x y =
     (let w = concat (replicate 3 [fst x, snd x, fst y, snd y]) @ [0x80, 0, 384, 0];
          (r0, r1, r2, r3) = digest_md5 w
      in ((r0 + 0x67452301) XOR (r2 + 0x98badcfe), (r1 + 0xefcdab89) XOR (r3 + 0x10325476)))"

definition get_pair :: "bytes \<Rightarrow> (u32 \<times> u32) option" where
  "get_pair x = (if length x \<noteq> 8 then None else Some (get32_le x 0, get32_le x 4))"

definition read64 :: "bytes \<Rightarrow> bytes \<Rightarrow> ((u32 \<times> u32) \<times> (u32 \<times> u32)) option" where
  "read64 x y = do { xx \<leftarrow> get_pair x; yy \<leftarrow> get_pair y; Some (xx, yy) }"

definition pushqword :: "u32 \<times> u32 \<Rightarrow> bytes" where
  "pushqword r = put32_le (fst r) @ put32_le (snd r)"

definition lhmac64 :: "bytes \<Rightarrow> bytes \<Rightarrow> bytes option" where
  "lhmac64 x y = do { (xx, yy) \<leftarrow> read64 x y; Some (pushqword (hmac xx yy)) }"

definition lhmac64_md5 :: "bytes \<Rightarrow> bytes \<Rightarrow> bytes option" where
  "lhmac64_md5 x y = do { (xx, yy) \<leftarrow> read64 x y; Some (pushqword (hmac_md5 xx yy)) }"

definition lhmac_hash :: "bytes \<Rightarrow> bytes \<Rightarrow> bytes option" where
  "lhmac_hash x msg = do {
     key \<leftarrow> get_pair x;
     htext \<leftarrow> get_pair (Hash msg);
     Some (pushqword (hmac htext key)) }"

section \<open>Diffie-Hellman\<close>

definition P :: u64 where "P = 0xffffffffffffffc5"
definition G :: u64 where "G = 5"

lemma unat_drop_bit_1_less: "b \<noteq> 0 \<Longrightarrow> unat (drop_bit 1 b) < unat b" for b :: u64
  by (simp add: drop_bit_eq_div unat_div_distrib unat_gt_0)

function mul_loop :: "u64 \<Rightarrow> u64 \<Rightarrow> u64 \<Rightarrow> u64" where
  "mul_loop a b m =
     (if b = 0 then m
      else
        (let m = (if b AND 1 \<noteq> 0 then (let t = P - a in if m \<ge> t then m - t else m + a) else m);
             a = (if a \<ge> P - a then a * 2 - P else a * 2)
         in mul_loop a (drop_bit 1 b) m))"
  by pat_completeness auto
termination
  by (relation "measure (\<lambda>(a, b, m). unat b)") (use unat_drop_bit_1_less in auto)

declare mul_loop.simps [simp del]

definition mul_mod_p :: "u64 \<Rightarrow> u64 \<Rightarrow> u64" where
  "mul_mod_p a b = mul_loop a b 0"

text \<open>\<open>None\<close> is the recursion that never ends.\<close>

function pow_mod_p :: "u64 \<Rightarrow> u64 \<Rightarrow> u64 option" where
  "pow_mod_p a b =
     (if b = 0 then None
      else if b = 1 then Some a
      else do {
        t \<leftarrow> pow_mod_p a (drop_bit 1 b);
        let t = mul_mod_p t t;
        Some (if b mod 2 \<noteq> 0 then mul_mod_p t a else t) })"
  by pat_completeness auto
termination
  by (relation "measure (\<lambda>(a, b). unat b)") (use unat_drop_bit_1_less in auto)

declare pow_mod_p.simps [simp del]

definition powmodp :: "u64 \<Rightarrow> u64 \<Rightarrow> u64 option" where
  "powmodp a b = pow_mod_p (if a > P then a mod P else a) b"

definition push64 :: "u64 \<Rightarrow> bytes" where
  "push64 r = map (\<lambda>i. ucast (drop_bit (8 * i) r AND 0xff)) [0..<8]"

definition pair64 :: "u32 \<times> u32 \<Rightarrow> u64" where
  "pair64 x = ucast (fst x) OR push_bit 32 (ucast (snd x))"

definition ldhsecret :: "bytes \<Rightarrow> bytes \<Rightarrow> bytes option" where
  "ldhsecret x y = do {
     (x, y) \<leftarrow> read64 x y;
     let xx = pair64 x;
     let yy = pair64 y;
     cassert (\<not> (xx = 0 \<or> yy = 0));
     r \<leftarrow> powmodp xx yy;
     Some (push64 r) }"

definition ldhexchange :: "bytes \<Rightarrow> bytes option" where
  "ldhexchange x = do {
     xx \<leftarrow> get_pair x;
     let x64 = pair64 xx;
     cassert (x64 \<noteq> 0);
     r \<leftarrow> powmodp G x64;
     Some (push64 r) }"

section \<open>Base64\<close>

definition encoding :: bytes where
  "encoding = [
     65, 66, 67, 68, 69, 70, 71, 72, 73, 74, 75, 76, 77, 78, 79, 80,
     81, 82, 83, 84, 85, 86, 87, 88, 89, 90, 97, 98, 99, 100, 101, 102,
     103, 104, 105, 106, 107, 108, 109, 110, 111, 112, 113, 114, 115, 116, 117, 118,
     119, 120, 121, 122, 48, 49, 50, 51, 52, 53, 54, 55, 56, 57, 43, 47]"

definition enc64 :: "u32 \<Rightarrow> u8" where
  "enc64 v = encoding ! unat v"

fun lb64encode :: "bytes \<Rightarrow> bytes" where
  "lb64encode (a # b # c # s) =
     (let v = push_bit 16 (ucast a) OR push_bit 8 (ucast b) OR ucast c in
      enc64 (drop_bit 18 v) # enc64 (drop_bit 12 v AND 0x3f) # enc64 (drop_bit 6 v AND 0x3f) # enc64 (v AND 0x3f)
      # lb64encode s)"
| "lb64encode [a] =
     (let v = ucast a in [enc64 (drop_bit 2 v), enc64 (push_bit 4 (v AND 3)), 61, 61])"
| "lb64encode [a, b] =
     (let v = push_bit 8 (ucast a) OR ucast b in
      [enc64 (drop_bit 10 v), enc64 (drop_bit 4 v AND 0x3f), enc64 (push_bit 2 (v AND 0xf)), 61])"
| "lb64encode [] = []"

definition decoding :: "int list" where
  "decoding = [
     62, - 1, - 1, - 1, 63, 52, 53, 54, 55, 56, 57, 58, 59, 60, 61, - 1, - 1, - 1, - 2, - 1,
     - 1, - 1, 0, 1, 2, 3, 4, 5, 6, 7, 8, 9, 10, 11, 12, 13, 14, 15, 16, 17,
     18, 19, 20, 21, 22, 23, 24, 25, - 1, - 1, - 1, - 1, - 1, - 1, 26, 27, 28, 29, 30, 31,
     32, 33, 34, 35, 36, 37, 38, 39, 40, 41, 42, 43, 44, 45, 46, 47, 48, 49, 50, 51]"

definition b64index :: "u8 \<Rightarrow> int" where
  "b64index c =
     (if c < 43 then -1
      else if unat (c - 43) \<ge> length decoding then -1
      else decoding ! unat (c - 43))"

text \<open>
  The inner loop: the next \<open>n\<close> indices, -2 for padding and past the end, and the number of paddings.
\<close>

fun b64_quad :: "nat \<Rightarrow> bytes \<Rightarrow> int list \<times> nat \<times> bytes" where
  "b64_quad 0 s = ([], 0, s)"
| "b64_quad (Suc n) [] = (let (cs, p, r) = b64_quad n [] in (-2 # cs, p + 1, r))"
| "b64_quad (Suc n) (x # s) =
     (let c = b64index x in
      if c = -1 then b64_quad (Suc n) s
      else let (cs, p, r) = b64_quad n s in (c # cs, (if c = -2 then p + 1 else p), r))"

definition shl :: "int \<Rightarrow> nat \<Rightarrow> u32" where
  "shl c n = push_bit n (of_int c)"

definition b64_group :: "int list \<Rightarrow> nat \<Rightarrow> bytes option" where
  "b64_group c padding =
     (if padding = 0 then
        (let v = shl (c ! 0) 18 OR shl (c ! 1) 12 OR shl (c ! 2) 6 OR of_int (c ! 3) in
         Some [ucast (drop_bit 16 v), ucast (drop_bit 8 v AND 0xff), ucast (v AND 0xff)])
      else if padding = 1 then
        (if c ! 3 \<noteq> -2 \<or> c ! 2 AND 3 \<noteq> 0 then None
         else (let v = shl (c ! 0) 10 OR shl (c ! 1) 4 OR of_int (drop_bit 2 (c ! 2)) in
               Some [ucast (drop_bit 8 v), ucast (v AND 0xff)]))
      else if padding = 2 then
        (if c ! 3 \<noteq> -2 \<or> c ! 2 \<noteq> -2 \<or> c ! 1 AND 0xf \<noteq> 0 then None
         else (let v = shl (c ! 0) 2 OR of_int (drop_bit 4 (c ! 1)) in Some [ucast v]))
      else None)"

lemma b64_quad_shorter: "s \<noteq> [] \<Longrightarrow> length (snd (snd (b64_quad (Suc n) s))) < length s"
proof (induction s)
  case (Cons x s)
  have le: "length (snd (snd (b64_quad k r))) \<le> length r" for k r
  proof (induction k r rule: b64_quad.induct)
    case (3 n x s)
    then show ?case by (auto simp: Let_def case_prod_beta)
  qed (auto simp: Let_def case_prod_beta)
  show ?case
  proof (cases "b64index x = -1")
    case True
    then show ?thesis using Cons.IH le [of "Suc n" s] by (auto simp: Let_def)
  next
    case False
    then show ?thesis using le [of n s] by (auto simp: Let_def case_prod_beta)
  qed
qed simp

lemma b64_quad_less: "(c, p, r) = b64_quad 4 s \<Longrightarrow> s \<noteq> [] \<Longrightarrow> length r < length s"
  using b64_quad_shorter [of s 3] by (metis Suc_numeral add_num_simps(2) add_num_simps(8) semiring_norm(2) semiring_norm(8) snd_conv)

function lb64decode :: "bytes \<Rightarrow> bytes option" where
  "lb64decode s =
     (if s = [] then Some []
      else
        (case b64_quad 4 s of (c, padding, r) \<Rightarrow> do {
           out \<leftarrow> b64_group c padding;
           rest \<leftarrow> lb64decode r;
           Some (out @ rest) }))"
  by pat_completeness auto
termination
  by (relation "measure length") (auto dest: b64_quad_less)

declare lb64decode.simps [simp del]

section \<open>\<open>xor_str\<close>\<close>

definition lxor_str :: "bytes \<Rightarrow> bytes \<Rightarrow> bytes option" where
  "lxor_str s1 s2 =
     (if length s2 = 0 then None
      else Some (map (\<lambda>i. s1 ! i XOR s2 ! (i mod length s2)) [0..<length s1]))"

end
