(* ===== verification/CryptSpec.thy ===== *)
theory CryptSpec
  imports Crypt
begin

text \<open>
  What \<open>Crypt\<close> computes: base64 and hexadecimal are inverted by their decoders, and the
  multiplication and exponentiation by doubling are those modulo \<open>P\<close>, so that the two sides of a
  Diffie-Hellman exchange get the same secret.
\<close>

section \<open>Arithmetic modulo P\<close>

definition NP :: nat where "NP = 18446744073709551557"

lemma unat_P [simp]: "unat P = NP"
  by (simp add: P_def NP_def)

lemma NP_pos [simp]: "0 < NP"
  by (simp add: NP_def)

lemma NP_le: "NP < 2 ^ 64" "2 ^ 64 < 2 * NP"
  by (simp_all add: NP_def)

lemma less_P: "a < P \<longleftrightarrow> unat a < NP"
  by (simp add: word_less_nat_alt)

lemma unat_add64: "unat a + unat b < 2 ^ 64 \<Longrightarrow> unat (a + b :: u64) = unat a + unat b"
  by (simp add: unat_add_lem [THEN iffD1])

text \<open>Addition modulo \<open>P\<close> as the code does it, without going over 64 bits.\<close>

lemma add_mod_P:
  assumes "unat a < NP" "unat m < NP"
  shows "unat (if m \<ge> P - a then m - (P - a) else m + a :: u64) = (unat m + unat a) mod NP"
proof -
  have pa: "unat (P - a) = NP - unat a" using assms(1) by (simp add: unat_sub word_le_nat_alt)
  show ?thesis
  proof (cases "P - a \<le> m")
    case True
    then have l: "NP - unat a \<le> unat m" using pa by (simp add: word_le_nat_alt)
    then have "unat (m - (P - a)) = unat m - (NP - unat a)" using True pa by (simp add: unat_sub)
    then show ?thesis using True l assms by (simp add: le_mod_geq)
  next
    case False
    then have l: "unat m < NP - unat a" using pa by (simp add: word_le_nat_alt)
    then have "unat (m + a) = unat m + unat a" using NP_le(1) by (intro unat_add64) simp
    then show ?thesis using False l by simp
  qed
qed

lemma double_mod_P:
  assumes "unat a < NP"
  shows "unat (if a \<ge> P - a then a * 2 - P else a * 2 :: u64) = 2 * unat a mod NP"
proof -
  have "(if a \<ge> P - a then a * 2 - P else a * 2) = (if a \<ge> P - a then a - (P - a) else a + a)" by simp
  then show ?thesis using add_mod_P [OF assms assms] by (simp add: mult_2)
qed

lemma odd_and_1: "b AND 1 \<noteq> 0 \<longleftrightarrow> odd (unat b)" for b :: u64
proof -
  have "bit b 0 \<longleftrightarrow> bit (unat b) 0" by (simp add: bit_unsigned_iff del: bit_0)
  then have "even b \<longleftrightarrow> even (unat b)" by (simp add: bit_0)
  then show ?thesis by (simp add: and_one_eq mod_2_eq_odd)
qed

lemma unat_drop_bit_1: "unat (drop_bit 1 b) = unat b div 2" for b :: u64
  by (simp add: drop_bit_Suc unat_div_distrib)

lemma mul_loop_ok:
  "unat a < NP \<Longrightarrow> unat m < NP \<Longrightarrow> unat (mul_loop a b m) = (unat m + unat a * unat b) mod NP"
proof (induction a b m rule: mul_loop.induct)
  case (1 a b m)
  show ?case
  proof (cases "b = 0")
    case True
    then show ?thesis using 1 by (simp add: mul_loop.simps)
  next
    case False
    define m' where "m' = (if b AND 1 \<noteq> 0 then (if m \<ge> P - a then m - (P - a) else m + a) else m)"
    define a' where "a' = (if a \<ge> P - a then a * 2 - P else a * 2)"
    have m': "unat m' = (unat m + (unat b mod 2) * unat a) mod NP"
      using add_mod_P [OF 1(2,3)] 1(3) by (simp add: m'_def odd_and_1 mod_2_eq_odd)
    have a': "unat a' = 2 * unat a mod NP" unfolding a'_def by (rule double_mod_P [OF 1(2)])
    have "unat (mul_loop a' (drop_bit 1 b) m') = (unat m' + unat a' * unat (drop_bit 1 b)) mod NP"
      by (rule 1(1) [OF False]) (simp_all add: m'_def a'_def Let_def m' [unfolded m'_def] a' [unfolded a'_def])
    also have "\<dots> = (unat m + (unat b mod 2) * unat a + 2 * unat a * (unat b div 2)) mod NP"
      unfolding m' a' unat_drop_bit_1 by (rule mod_add_cong) (simp_all only: mod_mod_trivial mod_mult_left_eq)
    also have "unat m + (unat b mod 2) * unat a + 2 * unat a * (unat b div 2) = unat m + unat a * unat b"
    proof -
      have "r * x + 2 * x * q = x * (2 * q + r)" for r x q :: nat by (simp add: algebra_simps)
      from this [of "unat b mod 2" "unat a" "unat b div 2"] show ?thesis by simp
    qed
    finally have r: "unat (mul_loop a' (drop_bit 1 b) m') = (unat m + unat a * unat b) mod NP" .
    have "mul_loop a b m = mul_loop a' (drop_bit 1 b) m'"
      by (subst mul_loop.simps) (simp only: False if_False Let_def m'_def a'_def)
    then show ?thesis using r by simp
  qed
qed

lemma mul_mod_p_ok: "unat a < NP \<Longrightarrow> unat (mul_mod_p a b) = unat a * unat b mod NP"
  using mul_loop_ok [of a 0 b] by (simp add: mul_mod_p_def)

lemma pow_mod_p_ok:
  "unat a < NP \<Longrightarrow> b \<noteq> 0 \<Longrightarrow> \<exists>r. pow_mod_p a b = Some r \<and> unat r = unat a ^ unat b mod NP"
proof (induction a b rule: pow_mod_p.induct)
  case (1 a b)
  show ?case
  proof (cases "b = 1")
    case True
    then show ?thesis using 1 by (simp add: pow_mod_p.simps)
  next
    case False
    have "unat b \<noteq> 0" "unat b \<noteq> 1" using 1(3) False word_unat_eq_iff [of b 1] by (simp_all add: unat_eq_zero)
    then have "unat (drop_bit 1 b) \<noteq> 0" unfolding unat_drop_bit_1 by simp
    then have "drop_bit 1 b \<noteq> 0" by auto
    with 1 False obtain t where t: "pow_mod_p a (drop_bit 1 b) = Some t" "unat t = unat a ^ (unat b div 2) mod NP"
      unfolding unat_drop_bit_1 [symmetric] by blast
    have tl: "unat t < NP" using t(2) by simp
    have sq: "unat (mul_mod_p t t) = unat a ^ (2 * (unat b div 2)) mod NP"
      using mul_mod_p_ok [OF tl, of t] by (simp add: t(2) mod_mult_eq power_mult power2_eq_square power_mult_distrib mult.commute power_add [symmetric] mult_2)
    have "unat (mul_mod_p (mul_mod_p t t) a) = unat a ^ (2 * (unat b div 2) + 1) mod NP"
      using mul_mod_p_ok [of "mul_mod_p t t" a] by (simp add: sq mod_mult_left_eq mod_mult_right_eq mult.commute)
    then have odd: "unat (mul_mod_p (mul_mod_p t t) a) = unat a ^ unat b mod NP" if "odd (unat b)"
      using odd_two_times_div_two_succ [OF that] by (simp only:)
    have even: "unat (mul_mod_p t t) = unat a ^ unat b mod NP" if "even (unat b)"
      using even_two_times_div_two [OF that] sq by (simp only:)
    have "b mod 2 \<noteq> 0 \<longleftrightarrow> odd (unat b)"
      by (metis odd_and_1 and_one_eq)
    then show ?thesis using 1(3) False t(1) odd even
      by (subst pow_mod_p.simps) (simp add: Let_def)
  qed
qed

section \<open>Bytes of 64-bit words\<close>

lemma bit64: "bit (push_bit k (x :: u64)) n \<longleftrightarrow> k \<le> n \<and> n < 64 \<and> bit x (n - k)"
  "bit (push_bit k (y :: u32)) n \<longleftrightarrow> k \<le> n \<and> n < 32 \<and> bit y (n - k)"
  "bit (ucast z :: u32) n \<longleftrightarrow> bit z n" "bit (ucast y :: u64) n \<longleftrightarrow> bit y n" "bit (ucast x :: u8) n \<longleftrightarrow> n < 8 \<and> bit x n"
  for z :: u8
  using bit_imp_le_length [of z n] bit_imp_le_length [of y n] by (auto simp: bit_simps bit_push_bit_iff)

lemma and_ff: "bit (x AND 0xff) n \<longleftrightarrow> n < 8 \<and> bit x n" for x :: u64
proof -
  have m: "(0xff :: u64) = mask 8" by (simp add: mask_eq_exp_minus_1)
  show ?thesis unfolding m by (auto simp: bit_and_iff bit_mask_iff)
qed

lemma bit_get32: "bit (get32_le x k) n \<longleftrightarrow> n < 32 \<and> bit (x ! (k + n div 8)) (n mod 8)"
proof -
  have d: "n div 8 = q \<and> n mod 8 = n - 8 * q" if "8 * q \<le> n" "n < 8 * q + 8" for q
  proof -
    have "n = q * 8 + (n - 8 * q)" "n - 8 * q < 8" using that by simp_all
    then show ?thesis by (metis div_mult_self3 mod_mult_self3 div_less mod_less add_0_right zero_neq_numeral)
  qed
  consider "n < 8" | "8 \<le> n" "n < 16" | "16 \<le> n" "n < 24" | "24 \<le> n" "n < 32" | "32 \<le> n" by linarith
  then show ?thesis
    using d [of 0] d [of 1] d [of 2] d [of 3]
    by cases (auto simp: get32_le_def bit64 bit_or_iff dest: bit_u8)
qed

lemma bit_pair64: "bit (pair64 (a, b)) n \<longleftrightarrow> (if n < 32 then bit a n else n < 64 \<and> bit b (n - 32))"
  using bit_imp_le_length [of a n] by (auto simp: pair64_def bit64 bit_or_iff)

lemma pair64_byte:
  assumes "length x = 8" "i < 8"
  shows "ucast (drop_bit (8 * i) (pair64 (get32_le x 0, get32_le x 4)) AND 0xff) = x ! i"
proof (rule bit_eqI)
  fix n :: nat
  show "bit (ucast (drop_bit (8 * i) (pair64 (get32_le x 0, get32_le x 4)) AND 0xff) :: u8) n \<longleftrightarrow> bit (x ! i) n"
  proof (cases "n < 8")
    case True
    have hi: "8 * i + n - 32 = 8 * (i - 4) + n" if "\<not> 8 * i + n < 32" using that True by arith
    have i4: "i < 4 \<longleftrightarrow> 8 * i + n < 32" using True by arith
    have "bit (pair64 (get32_le x 0, get32_le x 4)) (8 * i + n) \<longleftrightarrow> bit (x ! i) n"
      using True assms(2) hi i4 by (auto simp: bit_pair64 bit_get32)
    then show ?thesis using True by (simp add: bit64 and_ff bit_drop_bit_eq)
  qed (auto simp: bit64 dest: bit_u8)
qed

lemma push64_pair64: "length x = 8 \<Longrightarrow> push64 (pair64 (get32_le x 0, get32_le x 4)) = x"
  by (rule nth_equalityI) (auto simp: push64_def pair64_byte)

lemma push64_le: "push64 w = le_bytes 8 (unat w)"
proof -
  have b: "(ucast (drop_bit (8 * k) w AND 0xff) :: u8) = of_nat (unat w div 256 ^ k mod 256)" for k
  proof -
    have m: "(0xff :: u64) = mask 8" by (simp add: mask_eq_exp_minus_1)
    have "unat w mod 18446744073709551616 = unat w" using unsigned_less [where ?'a = nat, of w] by simp
    then have e: "unat (drop_bit (8 * k) w AND 0xff) = unat w div 2 ^ (8 * k) mod 256" unfolding m
      by (simp only: take_bit_eq_mask [symmetric] unsigned_take_bit_eq unsigned_drop_bit_eq)
        (simp add: take_bit_eq_mod drop_bit_eq_div min_def)
    have "(ucast x :: u8) = of_nat (unat x)" for x :: u64 by simp
    then show ?thesis by (simp only: e power_mult) simp
  qed
  show ?thesis
    using b [of 0] b [of 1] b [of 2] b [of 3] b [of 4] b [of 5] b [of 6] b [of 7]
    by (simp add: push64_def upt_rec le_bytes_numeral div_mult2_eq [symmetric] mult.commute)
qed

lemma un_le_push64: "un_le (push64 w) = unat w"
  using le_word_inv(1) [of w] by (simp add: push64_le)

lemma unat_pair64: "length x = 8 \<Longrightarrow> unat (pair64 (get32_le x 0, get32_le x 4)) = un_le x"
  using un_le_push64 [of "pair64 (get32_le x 0, get32_le x 4)"] push64_pair64 [of x] by simp

lemma length_push64 [simp]: "length (push64 w) = 8"
  by (simp add: push64_def)

section \<open>Diffie-Hellman\<close>

lemma powmodp_ok:
  assumes "unat a < NP" "b \<noteq> 0"
  obtains r where "powmodp a b = Some r" "unat r = unat a ^ unat b mod NP"
proof -
  have "\<not> a > P" using assms(1) by (simp add: word_less_nat_alt)
  then show ?thesis using that pow_mod_p_ok [OF assms] by (auto simp: powmodp_def)
qed

lemma get_pair_ok: "length x = 8 \<Longrightarrow> get_pair x = Some (get32_le x 0, get32_le x 4)"
  by (simp add: get_pair_def)

lemma pair64_0: "length x = 8 \<Longrightarrow> pair64 (get32_le x 0, get32_le x 4) = 0 \<longleftrightarrow> un_le x = 0"
  using unat_pair64 [of x] by (metis unat_eq_zero)

lemma dhexchange_ok:
  assumes "length x = 8" "un_le x \<noteq> 0"
  obtains A where "ldhexchange x = Some A" "length A = 8" "un_le A = 5 ^ un_le x mod NP"
proof -
  have g: "unat G < NP" "unat G = 5" by (simp_all add: G_def NP_def)
  have "pair64 (get32_le x 0, get32_le x 4) \<noteq> 0" using pair64_0 [OF assms(1)] assms(2) by simp
  then obtain r where "powmodp G (pair64 (get32_le x 0, get32_le x 4)) = Some r" "unat r = 5 ^ un_le x mod NP"
    using powmodp_ok [OF g(1)] unat_pair64 [OF assms(1)] g(2) by metis
  then show ?thesis
    using that [of "push64 r"] assms pair64_0 [OF assms(1)]
    by (simp add: ldhexchange_def get_pair_ok Let_def un_le_push64)
qed

lemma dhsecret_ok:
  assumes "length x = 8" "length y = 8" "un_le x \<noteq> 0" "un_le y \<noteq> 0" "un_le x < NP"
  obtains s where "ldhsecret x y = Some s" "length s = 8" "un_le s = un_le x ^ un_le y mod NP"
proof -
  let ?x = "pair64 (get32_le x 0, get32_le x 4)" and ?y = "pair64 (get32_le y 0, get32_le y 4)"
  have n: "?x \<noteq> 0" "?y \<noteq> 0" "unat ?x < NP" using pair64_0 assms unat_pair64 by simp_all
  then obtain r where "powmodp ?x ?y = Some r" "unat r = un_le x ^ un_le y mod NP"
    using powmodp_ok [OF n(3,2)] unat_pair64 [OF assms(1)] unat_pair64 [OF assms(2)] by metis
  then show ?thesis
    using that [of "push64 r"] assms n by (simp add: ldhsecret_def read64_def get_pair_ok Let_def un_le_push64)
qed

lemma coprime_5: "coprime (5 ^ k) NP"
proof -
  have "coprime 5 NP"
  proof (rule coprimeI)
    fix d :: nat
    assume d: "d dvd 5" "d dvd NP"
    have "NP mod 5 = 2" "(5 :: nat) mod 2 = 1" by (simp_all add: NP_def)
    with dvd_mod [OF d(2,1)] have "d dvd 2" by simp
    from dvd_mod [OF d(1) this] show "is_unit d" by simp
  qed
  then show ?thesis by simp
qed

lemma pow5_mod: "5 ^ k mod NP \<noteq> 0"
proof
  assume "5 ^ k mod NP = 0"
  then have "NP dvd 5 ^ k" by (simp add: mod_eq_0_iff_dvd)
  from coprime_common_divisor [OF coprime_5 this dvd_refl] show False by (simp add: NP_def)
qed

section \<open>Base64\<close>

lemma index_encoding: "\<forall>n \<in> set [0..<64]. b64index (encoding ! n) = int n"
  by code_simp

lemma and_masks:
  "bit (x AND 0xff) n \<longleftrightarrow> n < 8 \<and> bit x n" "bit (x AND 0x3f) n \<longleftrightarrow> n < 6 \<and> bit x n"
  "bit (x AND 0xf) n \<longleftrightarrow> n < 4 \<and> bit x n" "bit (x AND 3) n \<longleftrightarrow> n < 2 \<and> bit x n" for x :: u32
proof -
  have m: "(0xff :: u32) = mask 8" "(0x3f :: u32) = mask 6" "(0xf :: u32) = mask 4" "(3 :: u32) = mask 2"
    by (simp_all add: mask_eq_exp_minus_1)
  show "bit (x AND 0xff) n \<longleftrightarrow> n < 8 \<and> bit x n" "bit (x AND 0x3f) n \<longleftrightarrow> n < 6 \<and> bit x n"
    "bit (x AND 0xf) n \<longleftrightarrow> n < 4 \<and> bit x n" "bit (x AND 3) n \<longleftrightarrow> n < 2 \<and> bit x n"
    unfolding m by (auto simp: bit_and_iff bit_mask_iff)
qed

lemma bits_less_64: "(\<And>n. bit w n \<Longrightarrow> n < 6) \<Longrightarrow> unat (w :: u32) < 64"
proof -
  assume b: "\<And>n. bit w n \<Longrightarrow> n < 6"
  have "take_bit 6 w = w" by (rule bit_eqI) (use b in \<open>auto simp: bit_take_bit_iff\<close>)
  then have "unat w = unat w mod 2 ^ 6" by (metis unsigned_take_bit_eq take_bit_eq_mod)
  then have "unat w = unat w mod 64" by simp
  then show ?thesis using mod_less_divisor [of 64 "unat w"] by linarith
qed

lemma index_enc64: "unat w < 64 \<Longrightarrow> b64index (enc64 w) = uint w"
  using index_encoding by (simp add: enc64_def)

lemma index_pad: "b64index 61 = -2"
  by code_simp

lemma quad_plain:
  assumes "unat v0 < 64" "unat v1 < 64"
  shows "unat v2 < 64 \<Longrightarrow> unat v3 < 64 \<Longrightarrow>
      b64_quad 4 (enc64 v0 # enc64 v1 # enc64 v2 # enc64 v3 # r) = ([uint v0, uint v1, uint v2, uint v3], 0, r)"
    and "unat v2 < 64 \<Longrightarrow> b64_quad 4 (enc64 v0 # enc64 v1 # enc64 v2 # 61 # r) = ([uint v0, uint v1, uint v2, -2], 1, r)"
    and "b64_quad 4 (enc64 v0 # enc64 v1 # 61 # 61 # r) = ([uint v0, uint v1, -2, -2], 2, r)"
proof -
  have n: "uint w \<noteq> -1" "uint w \<noteq> -2" for w :: u32 using uint_ge_0 [of w] by linarith+
  show "unat v2 < 64 \<Longrightarrow> unat v3 < 64 \<Longrightarrow>
      b64_quad 4 (enc64 v0 # enc64 v1 # enc64 v2 # enc64 v3 # r) = ([uint v0, uint v1, uint v2, uint v3], 0, r)"
    "unat v2 < 64 \<Longrightarrow> b64_quad 4 (enc64 v0 # enc64 v1 # enc64 v2 # 61 # r) = ([uint v0, uint v1, uint v2, -2], 1, r)"
    "b64_quad 4 (enc64 v0 # enc64 v1 # 61 # 61 # r) = ([uint v0, uint v1, -2, -2], 2, r)"
    using assms by (simp_all add: eval_nat_numeral index_enc64 index_pad n)
qed

lemma shl_uint: "shl (uint v) k = push_bit k v"
  by (simp add: shl_def)

lemma of_int_drop: "of_int (drop_bit k (uint v)) = drop_bit k (v :: u32)"
proof -
  have "uint (drop_bit k v) = drop_bit k (uint v)" by (rule bit_eqI) (auto simp: bit_unsigned_iff bit_drop_bit_eq dest: bit_imp_le_length)
  then have "of_int (drop_bit k (uint v)) = (of_int (uint (drop_bit k v)) :: u32)" by simp
  also have "\<dots> = drop_bit k v" by simp
  finally show ?thesis .
qed

lemma uint_and_0: "uint v AND uint m = 0 \<longleftrightarrow> v AND m = (0 :: u32)"
  by (metis unsigned_and_eq unsigned_0 unsigned_eq_0_iff)

lemma bit_u32_u8: "bit (ucast (y :: u32) :: u8) n \<longleftrightarrow> n < 8 \<and> bit y n"
  by (auto simp: bit_simps)

lemmas b64_bits = bit64 bit_u32_u8 and_masks bit_or_iff bit_drop_bit_eq comp_apply

lemma bit_of_u8: "bit (ucast (z :: u8) :: u32) n \<Longrightarrow> n < 8"
  by (auto simp: bit64 dest: bit_u8)

lemma b64_three:
  assumes "(v :: u32) = push_bit 16 (ucast a) OR push_bit 8 (ucast b) OR ucast c"
  shows "unat (drop_bit 18 v) < 64" "unat (drop_bit 12 v AND 0x3f) < 64" "unat (drop_bit 6 v AND 0x3f) < 64" "unat (v AND 0x3f) < 64"
    and "b64_group [uint (drop_bit 18 v), uint (drop_bit 12 v AND 0x3f), uint (drop_bit 6 v AND 0x3f), uint (v AND 0x3f)] 0
      = Some [a, b, c]"
proof -
  have v: "bit v n \<longleftrightarrow> (if n < 8 then bit c n else if n < 16 then bit b (n - 8) else bit a (n - 16))" for n
    unfolding assms by (auto simp: b64_bits dest: bit_u8)
  show "unat (drop_bit 18 v) < 64"
    by (rule bits_less_64) (auto simp: b64_bits v dest: bit_u8)
  show "unat (drop_bit 12 v AND 0x3f) < 64" "unat (drop_bit 6 v AND 0x3f) < 64" "unat (v AND 0x3f) < 64"
    by (rule bits_less_64, simp only: and_masks)+
  have "bit (push_bit 18 (drop_bit 18 v) OR push_bit 12 (drop_bit 12 v AND 0x3f) OR push_bit 6 (drop_bit 6 v AND 0x3f) OR (v AND 0x3f)) n
      \<longleftrightarrow> bit v n" for n
    by (cases "n < 6"; cases "n < 12"; cases "n < 18") (auto simp: b64_bits simp del: push_bit_and dest: bit_u32)
  then have "push_bit 18 (drop_bit 18 v) OR push_bit 12 (drop_bit 12 v AND 0x3f) OR push_bit 6 (drop_bit 6 v AND 0x3f) OR (v AND 0x3f) = v"
    by (rule bit_eqI)
  moreover have "[ucast (drop_bit 16 v), ucast (drop_bit 8 v AND 0xff), ucast (v AND 0xff)] = [a, b, c]"
    by (intro list.inject [THEN iffD2] conjI bit_eqI refl) (auto simp: b64_bits v dest: bit_u8)
  ultimately show "b64_group [uint (drop_bit 18 v), uint (drop_bit 12 v AND 0x3f), uint (drop_bit 6 v AND 0x3f), uint (v AND 0x3f)] 0
      = Some [a, b, c]"
    by (simp add: b64_group_def shl_uint Let_def)
qed

lemma b64_one:
  assumes "(v :: u32) = ucast a"
  shows "unat (drop_bit 2 v) < 64" "unat (push_bit 4 (v AND 3)) < 64"
    and "b64_group [uint (drop_bit 2 v), uint (push_bit 4 (v AND 3)), -2, -2] 2 = Some [a]"
proof -
  have v: "bit v n \<longleftrightarrow> bit a n" for n unfolding assms by (simp add: bit64)
  show "unat (drop_bit 2 v) < 64" "unat (push_bit 4 (v AND 3)) < 64"
    by (rule bits_less_64, auto simp: b64_bits v simp del: push_bit_and dest: bit_u8)+
  have "bit (push_bit 2 (drop_bit 2 v) OR drop_bit 4 (push_bit 4 (v AND 3))) n \<longleftrightarrow> bit v n" for n
    by (cases "n < 2") (auto simp: b64_bits v simp del: push_bit_and add_2_eq_Suc add_2_eq_Suc' dest: bit_u8)
  then have "push_bit 2 (drop_bit 2 v) OR drop_bit 4 (push_bit 4 (v AND 3)) = v" by (rule bit_eqI)
  moreover have "push_bit 4 (v AND 3) AND 15 = 0"
    by (rule bit_eqI) (simp add: b64_bits del: push_bit_and)
  then have "uint (push_bit 4 (v AND 3)) AND 15 = 0" using uint_and_0 [of "push_bit 4 (v AND 3)" 15] by simp
  moreover have "ucast v = a" by (rule bit_eqI) (auto simp: b64_bits v dest: bit_u8)
  ultimately show "b64_group [uint (drop_bit 2 v), uint (push_bit 4 (v AND 3)), -2, -2] 2 = Some [a]"
    by (simp add: b64_group_def shl_uint of_int_drop Let_def del: push_bit_and)
qed

lemma b64_two:
  assumes "(v :: u32) = push_bit 8 (ucast a) OR ucast b"
  shows "unat (drop_bit 10 v) < 64" "unat (drop_bit 4 v AND 0x3f) < 64" "unat (push_bit 2 (v AND 0xf)) < 64"
    and "b64_group [uint (drop_bit 10 v), uint (drop_bit 4 v AND 0x3f), uint (push_bit 2 (v AND 0xf)), -2] 1 = Some [a, b]"
proof -
  have v: "bit v n \<longleftrightarrow> (if n < 8 then bit b n else bit a (n - 8))" for n
    unfolding assms by (auto simp: b64_bits dest: bit_u8)
  show "unat (drop_bit 10 v) < 64"
    by (rule bits_less_64) (auto simp: b64_bits v dest: bit_u8)
  show "unat (drop_bit 4 v AND 0x3f) < 64" "unat (push_bit 2 (v AND 0xf)) < 64"
    by (rule bits_less_64, auto simp: b64_bits simp del: push_bit_and)+
  have "bit (push_bit 10 (drop_bit 10 v) OR push_bit 4 (drop_bit 4 v AND 0x3f) OR drop_bit 2 (push_bit 2 (v AND 0xf))) n \<longleftrightarrow> bit v n" for n
    by (cases "n < 4"; cases "n < 10") (auto simp: b64_bits simp del: push_bit_and dest: bit_u32)
  then have "push_bit 10 (drop_bit 10 v) OR push_bit 4 (drop_bit 4 v AND 0x3f) OR drop_bit 2 (push_bit 2 (v AND 0xf)) = v"
    by (rule bit_eqI)
  moreover have "push_bit 2 (v AND 0xf) AND 3 = 0"
    by (rule bit_eqI) (simp add: b64_bits del: push_bit_and)
  then have "uint (push_bit 2 (v AND 0xf)) AND 3 = 0" using uint_and_0 [of "push_bit 2 (v AND 0xf)" 3] by simp
  moreover have "[ucast (drop_bit 8 v), ucast (v AND 0xff)] = [a, b]"
    by (intro list.inject [THEN iffD2] conjI bit_eqI refl) (auto simp: b64_bits v dest: bit_u8)
  ultimately show "b64_group [uint (drop_bit 10 v), uint (drop_bit 4 v AND 0x3f), uint (push_bit 2 (v AND 0xf)), -2] 1 = Some [a, b]"
    by (simp add: b64_group_def shl_uint of_int_drop Let_def del: push_bit_and)
qed

lemma b64_decode_step:
  "b64_quad 4 x = (c, p, r) \<Longrightarrow> b64_group c p = Some out \<Longrightarrow> x \<noteq> [] \<Longrightarrow> lb64decode r = Some rest \<Longrightarrow>
    lb64decode x = Some (out @ rest)"
  by (subst lb64decode.simps) simp

lemma b64_decode_encode: "lb64decode (lb64encode s) = Some s"
proof (induction s rule: lb64encode.induct)
  case (1 a b c s)
  define v where "v = (push_bit 16 (ucast a) OR push_bit 8 (ucast b) OR ucast c :: u32)"
  note t = b64_three [OF v_def]
  show ?case unfolding lb64encode.simps Let_def v_def [symmetric]
    using b64_decode_step [OF quad_plain(1) [OF t(1-4)] t(5) _ 1 [OF v_def]] by simp
next
  case (2 a)
  define v where "v = (ucast a :: u32)"
  note t = b64_one [OF v_def]
  show ?case unfolding lb64encode.simps Let_def v_def [symmetric]
    using b64_decode_step [OF quad_plain(3) [OF t(1,2)] t(3)] by (simp add: lb64decode.simps [of "[]"] del: push_bit_and)
next
  case (3 a b)
  define v where "v = (push_bit 8 (ucast a) OR ucast b :: u32)"
  note t = b64_two [OF v_def]
  show ?case unfolding lb64encode.simps Let_def v_def [symmetric]
    using b64_decode_step [OF quad_plain(2) [OF t(1-3)] t(4)] by (simp add: lb64decode.simps [of "[]"] del: push_bit_and)
next
  case 4
  then show ?case by (simp add: lb64decode.simps)
qed

section \<open>Hexadecimal\<close>

lemma HEX_digits: "\<forall>n \<in> set [0..<16]. HEX (hex_digits ! n) = of_nat n"
  by code_simp

lemma hex_byte:
  "HEX (hex_digits ! unat (drop_bit 4 c)) = drop_bit 4 c" "HEX (hex_digits ! unat (c AND 0xf)) = c AND 0xf"
  "drop_bit 4 c \<le> 16" "c AND 0xf \<le> 16" "push_bit 4 (drop_bit 4 c) OR (c AND 0xf) = c" for c :: u8
proof -
  have m: "(0xf :: u8) = mask 4" by (simp add: mask_eq_exp_minus_1)
  have l: "unat (drop_bit 4 c) < 16" using u8_less [of c] by (simp add: drop_bit_eq_div unat_div_distrib)
  have k: "unat (c AND 0xf) < 16" unfolding m by (simp only: take_bit_eq_mask [symmetric]) (simp add: take_bit_eq_mod unat_mod_distrib)
  show "HEX (hex_digits ! unat (drop_bit 4 c)) = drop_bit 4 c" "HEX (hex_digits ! unat (c AND 0xf)) = c AND 0xf"
    using HEX_digits l k by simp_all
  show "drop_bit 4 c \<le> 16" "c AND 0xf \<le> 16" using l k by (simp_all add: word_le_nat_alt)
  have "bit (push_bit 4 (drop_bit 4 c) OR (c AND 0xf)) n \<longleftrightarrow> bit c n" for n
    unfolding m by (cases "n < 4") (auto simp: bit_or_iff bit_and_iff bit_mask_iff bit_push_bit_iff bit_drop_bit_eq comp_apply dest: bit_u8)
  then show "push_bit 4 (drop_bit 4 c) OR (c AND 0xf) = c" by (rule bit_eqI)
qed

lemma fromhex_tohex: "fromhex_loop (ltohex s) = Some s"
  by (induction s) (simp_all add: hex_byte Let_def not_less)

lemma length_ltohex: "length (ltohex s) = 2 * length s"
  by (induction s) auto

section \<open>Properties\<close>


text \<open>
  C36: two peers that exchange \<open>dhexchange\<close> of their secrets compute the same \<open>dhsecret\<close>, which is 5 to
  the product of the secrets modulo the prime \<open>2^64 - 59\<close>; none of the steps fails for nonzero secrets.
\<close>

theorem dh_agreement:
  assumes "length x = 8" "length y = 8" "un_le x \<noteq> 0" "un_le y \<noteq> 0"
  shows "\<exists>X Y s. ldhexchange x = Some X \<and> ldhexchange y = Some Y \<and> ldhsecret X y = Some s \<and> ldhsecret Y x = Some s
    \<and> un_le s = 5 ^ (un_le x * un_le y) mod (2 ^ 64 - 59)"
proof -
  obtain X where X: "ldhexchange x = Some X" "length X = 8" "un_le X = 5 ^ un_le x mod NP"
    by (rule dhexchange_ok [OF assms(1,3)])
  obtain Y where Y: "ldhexchange y = Some Y" "length Y = 8" "un_le Y = 5 ^ un_le y mod NP"
    by (rule dhexchange_ok [OF assms(2,4)])
  have n: "un_le X \<noteq> 0" "un_le Y \<noteq> 0" "un_le X < NP" "un_le Y < NP" using X(3) Y(3) pow5_mod by simp_all
  obtain s where s: "ldhsecret X y = Some s" "length s = 8" "un_le s = un_le X ^ un_le y mod NP"
    by (rule dhsecret_ok [OF X(2) assms(2) n(1) assms(4) n(3)])
  obtain t where t: "ldhsecret Y x = Some t" "length t = 8" "un_le t = un_le Y ^ un_le x mod NP"
    by (rule dhsecret_ok [OF Y(2) assms(1) n(2) assms(3) n(4)])
  have e: "un_le s = 5 ^ (un_le x * un_le y) mod NP" "un_le t = 5 ^ (un_le x * un_le y) mod NP"
    unfolding s(3) t(3) X(3) Y(3) by (simp_all add: power_mod power_mult [symmetric] mult.commute)
  have "s = t" using le_bytes_un_le [of s] le_bytes_un_le [of t] s(2) t(2) e by simp
  moreover have "NP = 2 ^ 64 - 59" by (simp add: NP_def)
  ultimately show ?thesis using X(1) Y(1) s(1) t(1) e(1) by metis
qed

theorem dh_agreement_witness:
  "\<exists>X Y s. ldhexchange [3, 0, 0, 0, 0, 0, 0, 1] = Some X \<and> ldhexchange [7, 0, 0, 0, 0, 0, 0, 0] = Some Y
    \<and> ldhsecret X [7, 0, 0, 0, 0, 0, 0, 0] = Some s \<and> ldhsecret Y [3, 0, 0, 0, 0, 0, 0, 1] = Some s
    \<and> un_le s = 5 ^ (un_le [3, 0, 0, 0, 0, 0, 0, 1] * un_le [7, 0, 0, 0, 0, 0, 0, 0]) mod (2 ^ 64 - 59)"
  by (rule dh_agreement) simp_all

text \<open>
  \<open>hexdecode\<close> accepts the letter g as a digit worth 16, so that the text g1 decodes to the byte 1.
\<close>

lemma fromhex_accepts_g: "lfromhex [103, 49] = Some [1]"
  by code_simp

end
