(* ===== verification/Des.thy ===== *)
theory Des
  imports Endian
begin

text \<open>
  DES in \<open>skynet/lualib-src/lua-crypt.c\<close>: the key schedule, the block cipher, the two paddings and
  the functions \<open>desencode\<close> and \<open>desdecode\<close>. Texts are below 2 GB. An error raised to Lua is \<open>None\<close>.
\<close>

section \<open>Tables\<close>

definition SB1 :: "u32 list" where
  "SB1 = [
     0x01010400, 0x00000000, 0x00010000, 0x01010404, 0x01010004, 0x00010404, 0x00000004, 0x00010000,
     0x00000400, 0x01010400, 0x01010404, 0x00000400, 0x01000404, 0x01010004, 0x01000000, 0x00000004,
     0x00000404, 0x01000400, 0x01000400, 0x00010400, 0x00010400, 0x01010000, 0x01010000, 0x01000404,
     0x00010004, 0x01000004, 0x01000004, 0x00010004, 0x00000000, 0x00000404, 0x00010404, 0x01000000,
     0x00010000, 0x01010404, 0x00000004, 0x01010000, 0x01010400, 0x01000000, 0x01000000, 0x00000400,
     0x01010004, 0x00010000, 0x00010400, 0x01000004, 0x00000400, 0x00000004, 0x01000404, 0x00010404,
     0x01010404, 0x00010004, 0x01010000, 0x01000404, 0x01000004, 0x00000404, 0x00010404, 0x01010400,
     0x00000404, 0x01000400, 0x01000400, 0x00000000, 0x00010004, 0x00010400, 0x00000000, 0x01010004]"

definition SB2 :: "u32 list" where
  "SB2 = [
     0x80108020, 0x80008000, 0x00008000, 0x00108020, 0x00100000, 0x00000020, 0x80100020, 0x80008020,
     0x80000020, 0x80108020, 0x80108000, 0x80000000, 0x80008000, 0x00100000, 0x00000020, 0x80100020,
     0x00108000, 0x00100020, 0x80008020, 0x00000000, 0x80000000, 0x00008000, 0x00108020, 0x80100000,
     0x00100020, 0x80000020, 0x00000000, 0x00108000, 0x00008020, 0x80108000, 0x80100000, 0x00008020,
     0x00000000, 0x00108020, 0x80100020, 0x00100000, 0x80008020, 0x80100000, 0x80108000, 0x00008000,
     0x80100000, 0x80008000, 0x00000020, 0x80108020, 0x00108020, 0x00000020, 0x00008000, 0x80000000,
     0x00008020, 0x80108000, 0x00100000, 0x80000020, 0x00100020, 0x80008020, 0x80000020, 0x00100020,
     0x00108000, 0x00000000, 0x80008000, 0x00008020, 0x80000000, 0x80100020, 0x80108020, 0x00108000]"

definition SB3 :: "u32 list" where
  "SB3 = [
     0x00000208, 0x08020200, 0x00000000, 0x08020008, 0x08000200, 0x00000000, 0x00020208, 0x08000200,
     0x00020008, 0x08000008, 0x08000008, 0x00020000, 0x08020208, 0x00020008, 0x08020000, 0x00000208,
     0x08000000, 0x00000008, 0x08020200, 0x00000200, 0x00020200, 0x08020000, 0x08020008, 0x00020208,
     0x08000208, 0x00020200, 0x00020000, 0x08000208, 0x00000008, 0x08020208, 0x00000200, 0x08000000,
     0x08020200, 0x08000000, 0x00020008, 0x00000208, 0x00020000, 0x08020200, 0x08000200, 0x00000000,
     0x00000200, 0x00020008, 0x08020208, 0x08000200, 0x08000008, 0x00000200, 0x00000000, 0x08020008,
     0x08000208, 0x00020000, 0x08000000, 0x08020208, 0x00000008, 0x00020208, 0x00020200, 0x08000008,
     0x08020000, 0x08000208, 0x00000208, 0x08020000, 0x00020208, 0x00000008, 0x08020008, 0x00020200]"

definition SB4 :: "u32 list" where
  "SB4 = [
     0x00802001, 0x00002081, 0x00002081, 0x00000080, 0x00802080, 0x00800081, 0x00800001, 0x00002001,
     0x00000000, 0x00802000, 0x00802000, 0x00802081, 0x00000081, 0x00000000, 0x00800080, 0x00800001,
     0x00000001, 0x00002000, 0x00800000, 0x00802001, 0x00000080, 0x00800000, 0x00002001, 0x00002080,
     0x00800081, 0x00000001, 0x00002080, 0x00800080, 0x00002000, 0x00802080, 0x00802081, 0x00000081,
     0x00800080, 0x00800001, 0x00802000, 0x00802081, 0x00000081, 0x00000000, 0x00000000, 0x00802000,
     0x00002080, 0x00800080, 0x00800081, 0x00000001, 0x00802001, 0x00002081, 0x00002081, 0x00000080,
     0x00802081, 0x00000081, 0x00000001, 0x00002000, 0x00800001, 0x00002001, 0x00802080, 0x00800081,
     0x00002001, 0x00002080, 0x00800000, 0x00802001, 0x00000080, 0x00800000, 0x00002000, 0x00802080]"

definition SB5 :: "u32 list" where
  "SB5 = [
     0x00000100, 0x02080100, 0x02080000, 0x42000100, 0x00080000, 0x00000100, 0x40000000, 0x02080000,
     0x40080100, 0x00080000, 0x02000100, 0x40080100, 0x42000100, 0x42080000, 0x00080100, 0x40000000,
     0x02000000, 0x40080000, 0x40080000, 0x00000000, 0x40000100, 0x42080100, 0x42080100, 0x02000100,
     0x42080000, 0x40000100, 0x00000000, 0x42000000, 0x02080100, 0x02000000, 0x42000000, 0x00080100,
     0x00080000, 0x42000100, 0x00000100, 0x02000000, 0x40000000, 0x02080000, 0x42000100, 0x40080100,
     0x02000100, 0x40000000, 0x42080000, 0x02080100, 0x40080100, 0x00000100, 0x02000000, 0x42080000,
     0x42080100, 0x00080100, 0x42000000, 0x42080100, 0x02080000, 0x00000000, 0x40080000, 0x42000000,
     0x00080100, 0x02000100, 0x40000100, 0x00080000, 0x00000000, 0x40080000, 0x02080100, 0x40000100]"

definition SB6 :: "u32 list" where
  "SB6 = [
     0x20000010, 0x20400000, 0x00004000, 0x20404010, 0x20400000, 0x00000010, 0x20404010, 0x00400000,
     0x20004000, 0x00404010, 0x00400000, 0x20000010, 0x00400010, 0x20004000, 0x20000000, 0x00004010,
     0x00000000, 0x00400010, 0x20004010, 0x00004000, 0x00404000, 0x20004010, 0x00000010, 0x20400010,
     0x20400010, 0x00000000, 0x00404010, 0x20404000, 0x00004010, 0x00404000, 0x20404000, 0x20000000,
     0x20004000, 0x00000010, 0x20400010, 0x00404000, 0x20404010, 0x00400000, 0x00004010, 0x20000010,
     0x00400000, 0x20004000, 0x20000000, 0x00004010, 0x20000010, 0x20404010, 0x00404000, 0x20400000,
     0x00404010, 0x20404000, 0x00000000, 0x20400010, 0x00000010, 0x00004000, 0x20400000, 0x00404010,
     0x00004000, 0x00400010, 0x20004010, 0x00000000, 0x20404000, 0x20000000, 0x00400010, 0x20004010]"

definition SB7 :: "u32 list" where
  "SB7 = [
     0x00200000, 0x04200002, 0x04000802, 0x00000000, 0x00000800, 0x04000802, 0x00200802, 0x04200800,
     0x04200802, 0x00200000, 0x00000000, 0x04000002, 0x00000002, 0x04000000, 0x04200002, 0x00000802,
     0x04000800, 0x00200802, 0x00200002, 0x04000800, 0x04000002, 0x04200000, 0x04200800, 0x00200002,
     0x04200000, 0x00000800, 0x00000802, 0x04200802, 0x00200800, 0x00000002, 0x04000000, 0x00200800,
     0x04000000, 0x00200800, 0x00200000, 0x04000802, 0x04000802, 0x04200002, 0x04200002, 0x00000002,
     0x00200002, 0x04000000, 0x04000800, 0x00200000, 0x04200800, 0x00000802, 0x00200802, 0x04200800,
     0x00000802, 0x04000002, 0x04200802, 0x04200000, 0x00200800, 0x00000000, 0x00000002, 0x04200802,
     0x00000000, 0x00200802, 0x04200000, 0x00000800, 0x04000002, 0x04000800, 0x00000800, 0x00200002]"

definition SB8 :: "u32 list" where
  "SB8 = [
     0x10001040, 0x00001000, 0x00040000, 0x10041040, 0x10000000, 0x10001040, 0x00000040, 0x10000000,
     0x00040040, 0x10040000, 0x10041040, 0x00041000, 0x10041000, 0x00041040, 0x00001000, 0x00000040,
     0x10040000, 0x10000040, 0x10001000, 0x00001040, 0x00041000, 0x00040040, 0x10040040, 0x10041000,
     0x00001040, 0x00000000, 0x00000000, 0x10040040, 0x10000040, 0x10001000, 0x00041040, 0x00040000,
     0x00041040, 0x00040000, 0x10041000, 0x00001000, 0x00000040, 0x10040040, 0x00001000, 0x00041040,
     0x10001000, 0x00000040, 0x10000040, 0x10040000, 0x10040040, 0x10000000, 0x00040000, 0x10001040,
     0x00000000, 0x10041040, 0x00040040, 0x10000040, 0x10040000, 0x10001000, 0x10001040, 0x00000000,
     0x10041040, 0x00041000, 0x00041000, 0x00001040, 0x00001040, 0x00040040, 0x10000000, 0x10041000]"

definition LHs :: "u32 list" where
  "LHs = [
     0x00000000, 0x00000001, 0x00000100, 0x00000101, 0x00010000, 0x00010001, 0x00010100, 0x00010101,
     0x01000000, 0x01000001, 0x01000100, 0x01000101, 0x01010000, 0x01010001, 0x01010100, 0x01010101]"

definition RHs :: "u32 list" where
  "RHs = [
     0x00000000, 0x01000000, 0x00010000, 0x01010000, 0x00000100, 0x01000100, 0x00010100, 0x01010100,
     0x00000001, 0x01000001, 0x00010001, 0x01010001, 0x00000101, 0x01000101, 0x00010101, 0x01010101]"

section \<open>Words and bytes\<close>

definition GET_UINT32 :: "bytes \<Rightarrow> nat \<Rightarrow> u32" where
  "GET_UINT32 b i =
     push_bit 24 (ucast (b ! i)) OR push_bit 16 (ucast (b ! (i + 1))) OR push_bit 8 (ucast (b ! (i + 2)))
     OR ucast (b ! (i + 3))"

definition PUT_UINT32 :: "u32 \<Rightarrow> bytes" where
  "PUT_UINT32 n = [ucast (drop_bit 24 n), ucast (drop_bit 16 n), ucast (drop_bit 8 n), ucast n]"

text \<open>One step of the permutations: \<open>T = ((a >> s) ^ b) & m; b ^= T; a ^= T << s\<close>.\<close>

definition bit_swap :: "nat \<Rightarrow> u32 \<Rightarrow> u32 \<Rightarrow> u32 \<Rightarrow> u32 \<times> u32" where
  "bit_swap s m a b = (let t = (drop_bit s a XOR b) AND m in (a XOR push_bit s t, b XOR t))"

definition DES_IP :: "u32 \<Rightarrow> u32 \<Rightarrow> u32 \<times> u32" where
  "DES_IP x y =
     (let (x, y) = bit_swap 4 0x0F0F0F0F x y;
          (x, y) = bit_swap 16 0x0000FFFF x y;
          (y, x) = bit_swap 2 0x33333333 y x;
          (y, x) = bit_swap 8 0x00FF00FF y x;
          y = (push_bit 1 y OR drop_bit 31 y) AND 0xFFFFFFFF;
          (x, y) = bit_swap 0 0xAAAAAAAA x y;
          x = (push_bit 1 x OR drop_bit 31 x) AND 0xFFFFFFFF
      in (x, y))"

definition DES_FP :: "u32 \<Rightarrow> u32 \<Rightarrow> u32 \<times> u32" where
  "DES_FP x y =
     (let x = (push_bit 31 x OR drop_bit 1 x) AND 0xFFFFFFFF;
          (x, y) = bit_swap 0 0xAAAAAAAA x y;
          y = (push_bit 31 y OR drop_bit 1 y) AND 0xFFFFFFFF;
          (y, x) = bit_swap 8 0x00FF00FF y x;
          (y, x) = bit_swap 2 0x33333333 y x;
          (x, y) = bit_swap 16 0x0000FFFF x y;
          (x, y) = bit_swap 4 0x0F0F0F0F x y
      in (x, y))"

section \<open>The key schedule\<close>

definition nib :: "u32 \<Rightarrow> nat \<Rightarrow> nat" where
  "nib x s = unat (drop_bit s x AND 0xF)"

text \<open>Permuted choice 1.\<close>

definition des_pc1 :: "u32 \<Rightarrow> u32 \<Rightarrow> u32 \<times> u32" where
  "des_pc1 x y =
     (let (y, x) = bit_swap 4 0x0F0F0F0F y x;
          (y, x) = bit_swap 0 0x10101010 y x;
          x = push_bit 3 (LHs ! nib x 0) OR push_bit 2 (LHs ! nib x 8)
            OR push_bit 1 (LHs ! nib x 16) OR (LHs ! nib x 24)
            OR push_bit 7 (LHs ! nib x 5) OR push_bit 6 (LHs ! nib x 13)
            OR push_bit 5 (LHs ! nib x 21) OR push_bit 4 (LHs ! nib x 29);
          y = push_bit 3 (RHs ! nib y 1) OR push_bit 2 (RHs ! nib y 9)
            OR push_bit 1 (RHs ! nib y 17) OR (RHs ! nib y 25)
            OR push_bit 7 (RHs ! nib y 4) OR push_bit 6 (RHs ! nib y 12)
            OR push_bit 5 (RHs ! nib y 20) OR push_bit 4 (RHs ! nib y 28)
      in (x AND 0x0FFFFFFF, y AND 0x0FFFFFFF))"

definition rol28 :: "nat \<Rightarrow> u32 \<Rightarrow> u32" where
  "rol28 n x = (push_bit n x OR drop_bit (28 - n) x) AND 0x0FFFFFFF"

definition subkey0 :: "u32 \<Rightarrow> u32 \<Rightarrow> u32" where
  "subkey0 X Y =
      (push_bit 4 X AND 0x24000000) OR (push_bit 28 X AND 0x10000000) OR (push_bit 14 X AND 0x08000000)
      OR (push_bit 18 X AND 0x02080000) OR (push_bit 6 X AND 0x01000000) OR (push_bit 9 X AND 0x00200000)
      OR (drop_bit 1 X AND 0x00100000) OR (push_bit 10 X AND 0x00040000) OR (push_bit 2 X AND 0x00020000)
      OR (drop_bit 10 X AND 0x00010000) OR (drop_bit 13 Y AND 0x00002000) OR (drop_bit 4 Y AND 0x00001000)
      OR (push_bit 6 Y AND 0x00000800) OR (drop_bit 1 Y AND 0x00000400) OR (drop_bit 14 Y AND 0x00000200)
      OR (Y AND 0x00000100) OR (drop_bit 5 Y AND 0x00000020) OR (drop_bit 10 Y AND 0x00000010)
      OR (drop_bit 3 Y AND 0x00000008) OR (drop_bit 18 Y AND 0x00000004) OR (drop_bit 26 Y AND 0x00000002)
      OR (drop_bit 24 Y AND 0x00000001)"

definition subkey1 :: "u32 \<Rightarrow> u32 \<Rightarrow> u32" where
  "subkey1 X Y =
      (push_bit 15 X AND 0x20000000) OR (push_bit 17 X AND 0x10000000) OR (push_bit 10 X AND 0x08000000)
      OR (push_bit 22 X AND 0x04000000) OR (drop_bit 2 X AND 0x02000000) OR (push_bit 1 X AND 0x01000000)
      OR (push_bit 16 X AND 0x00200000) OR (push_bit 11 X AND 0x00100000) OR (push_bit 3 X AND 0x00080000)
      OR (drop_bit 6 X AND 0x00040000) OR (push_bit 15 X AND 0x00020000) OR (drop_bit 4 X AND 0x00010000)
      OR (drop_bit 2 Y AND 0x00002000) OR (push_bit 8 Y AND 0x00001000) OR (drop_bit 14 Y AND 0x00000808)
      OR (drop_bit 9 Y AND 0x00000400) OR (Y AND 0x00000200) OR (push_bit 7 Y AND 0x00000100)
      OR (drop_bit 7 Y AND 0x00000020) OR (drop_bit 3 Y AND 0x00000011) OR (push_bit 2 Y AND 0x00000004)
      OR (drop_bit 21 Y AND 0x00000002)"

fun des_subkeys :: "nat list \<Rightarrow> u32 \<Rightarrow> u32 \<Rightarrow> u32 list" where
  "des_subkeys [] x y = []"
| "des_subkeys (i # is) x y =
     (let n = (if i < 2 \<or> i = 8 \<or> i = 15 then 1 else 2);
          x = rol28 n x;
          y = rol28 n y
      in subkey0 x y # subkey1 x y # des_subkeys is x y)"

definition des_main_ks :: "bytes \<Rightarrow> u32 list" where
  "des_main_ks key =
     (let (x, y) = des_pc1 (GET_UINT32 key 0) (GET_UINT32 key 4) in des_subkeys [0..<16] x y)"

section \<open>The block cipher\<close>

definition sbox :: "u32 list \<Rightarrow> u32 \<Rightarrow> nat \<Rightarrow> u32" where
  "sbox sb t s = sb ! unat (drop_bit s t AND 0x3F)"

definition DES_ROUND :: "u32 \<Rightarrow> u32 \<Rightarrow> u32 \<Rightarrow> u32 \<Rightarrow> u32" where
  "DES_ROUND k0 k1 x y =
     (let t = k0 XOR x;
          y = y XOR (sbox SB8 t 0 XOR sbox SB6 t 8 XOR sbox SB4 t 16 XOR sbox SB2 t 24);
          t = k1 XOR (push_bit 28 x OR drop_bit 4 x)
      in y XOR (sbox SB7 t 0 XOR sbox SB5 t 8 XOR sbox SB3 t 16 XOR sbox SB1 t 24))"

text \<open>The pairs \<open>DES_ROUND(Y, X); DES_ROUND(X, Y)\<close> of \<open>des_crypt\<close>, over the subkeys left.\<close>

fun des_rounds :: "u32 list \<Rightarrow> u32 \<Rightarrow> u32 \<Rightarrow> u32 \<times> u32" where
  "des_rounds (k0 # k1 # k2 # k3 # ks) x y =
     (let x = DES_ROUND k0 k1 y x; y = DES_ROUND k2 k3 x y in des_rounds ks x y)"
| "des_rounds _ x y = (x, y)"

definition des_crypt :: "u32 list \<Rightarrow> bytes \<Rightarrow> bytes" where
  "des_crypt SK b =
     (let (x, y) = DES_IP (GET_UINT32 b 0) (GET_UINT32 b 4);
          (x, y) = des_rounds SK x y;
          (y, x) = DES_FP y x
      in PUT_UINT32 y @ PUT_UINT32 x)"

section \<open>Padding\<close>

definition PADDING_MODE_ISO7816_4 :: int where "PADDING_MODE_ISO7816_4 = 0"
definition PADDING_MODE_PKCS7 :: int where "PADDING_MODE_PKCS7 = 1"
definition PADDING_MODE_COUNT :: int where "PADDING_MODE_COUNT = 2"

definition padding_add_iso7816_4 :: "bytes \<Rightarrow> bytes" where
  "padding_add_iso7816_4 buf = buf @ [0x80] @ replicate (7 - length buf) 0"

text \<open>The removers see the text reversed, from its last byte back.\<close>

fun iso_loop :: "nat \<Rightarrow> nat \<Rightarrow> bytes \<Rightarrow> nat" where
  "iso_loop (Suc n) padding (b # bs) =
     (if b = 0 then iso_loop n (padding + 1) bs else if b = 0x80 then padding else 0)"
| "iso_loop _ _ _ = 0"

definition padding_remove_iso7816_4 :: "bytes \<Rightarrow> nat" where
  "padding_remove_iso7816_4 rtext = iso_loop 8 1 rtext"

definition padding_add_pkcs7 :: "bytes \<Rightarrow> bytes" where
  "padding_add_pkcs7 buf = buf @ replicate (8 - length buf) (of_nat (8 - length buf))"

text \<open>
  \<open>None\<close> is a read before the start of the text: the loop follows the last byte, which may be 255.
\<close>

fun pkcs7_loop :: "nat \<Rightarrow> u8 \<Rightarrow> bytes \<Rightarrow> bool option" where
  "pkcs7_loop 0 padding bs = Some True"
| "pkcs7_loop (Suc n) padding [] = None"
| "pkcs7_loop (Suc n) padding (b # bs) = (if b \<noteq> padding then Some False else pkcs7_loop n padding bs)"

definition padding_remove_pkcs7 :: "bytes \<Rightarrow> nat option" where
  "padding_remove_pkcs7 rtext =
     (case rtext of
        [] \<Rightarrow> None
      | p # bs \<Rightarrow> map_option (\<lambda>ok. if ok then unat p else 0) (pkcs7_loop (unat p - 1) p bs))"

definition check_padding_mode :: "int \<Rightarrow> bool" where
  "check_padding_mode mode \<longleftrightarrow> \<not> (mode < 0 \<or> mode \<ge> PADDING_MODE_COUNT)"

definition add_padding :: "bytes \<Rightarrow> int \<Rightarrow> bytes option" where
  "add_padding src mode = do {
     cassert (check_padding_mode mode);
     cassert (length src < 8);
     Some (if mode = PADDING_MODE_ISO7816_4 then padding_add_iso7816_4 src else padding_add_pkcs7 src) }"

definition remove_padding :: "bytes \<Rightarrow> int \<Rightarrow> nat option" where
  "remove_padding rtext mode = do {
     cassert (check_padding_mode mode);
     if mode = PADDING_MODE_ISO7816_4 then Some (padding_remove_iso7816_4 rtext) else padding_remove_pkcs7 rtext }"

section \<open>The functions for Lua\<close>

definition des_key :: "bytes \<Rightarrow> u32 list option" where
  "des_key key = (if length key \<noteq> 8 then None else Some (des_main_ks key))"

fun encode_loop :: "u32 list \<Rightarrow> int \<Rightarrow> bytes \<Rightarrow> bytes option" where
  "encode_loop SK mode src =
     (if length src \<ge> 8 then do {
        r \<leftarrow> encode_loop SK mode (drop 8 src);
        Some (des_crypt SK (take 8 src) @ r) }
      else do {
        tail \<leftarrow> add_padding src mode;
        Some (des_crypt SK tail) })"

declare encode_loop.simps [simp del]

definition ldesencode :: "bytes \<Rightarrow> bytes \<Rightarrow> int \<Rightarrow> bytes option" where
  "ldesencode key src mode = do { SK \<leftarrow> des_key key; encode_loop SK mode src }"

text \<open>The subkeys in the order of decryption: pairs, last first.\<close>

fun rev_pairs :: "u32 list \<Rightarrow> u32 list" where
  "rev_pairs (a # b # ks) = rev_pairs ks @ [a, b]"
| "rev_pairs ks = []"

fun decode_loop :: "u32 list \<Rightarrow> bytes \<Rightarrow> bytes" where
  "decode_loop SK src = (if src = [] then [] else des_crypt SK (take 8 src) @ decode_loop SK (drop 8 src))"

declare decode_loop.simps [simp del]

definition ldesdecode :: "bytes \<Rightarrow> bytes \<Rightarrow> int \<Rightarrow> bytes option" where
  "ldesdecode key src mode = do {
     ESK \<leftarrow> des_key key;
     cassert (length src mod 8 = 0 \<and> src \<noteq> []);
     let buffer = decode_loop (rev_pairs ESK) src;
     padding \<leftarrow> remove_padding (rev buffer) mode;
     cassert (0 < padding \<and> padding \<le> 8);
     Some (take (length src - padding) buffer) }"

section \<open>Decryption inverts encryption\<close>

lemma bit_swap_inv:
  assumes "drop_bit s (push_bit s m :: u32) = m" "bit_swap s m a b = (a', b')"
  shows "bit_swap s m a' b' = (a, b)"
proof -
  define t where "t = (drop_bit s a XOR b) AND m"
  have ab: "a' = a XOR push_bit s t" "b' = b XOR t" using assms(2) by (auto simp: bit_swap_def t_def Let_def)
  have m: "i + s < 32" if "bit m i" for i
  proof -
    have "bit (drop_bit s (push_bit s m)) i" using that assms(1) by simp
    then show ?thesis by (simp add: bit_simps)
  qed
  have "bit ((drop_bit s a' XOR b') AND m) n \<longleftrightarrow> bit t n" for n
    using m [of n] by (auto simp: ab t_def bit_xor_iff bit_and_iff bit_drop_bit_eq bit_push32 add.commute)
  then have "(drop_bit s a' XOR b') AND m = t" by (rule bit_eqI)
  then have "bit_swap s m a' b' = (a' XOR push_bit s t, b' XOR t)" by (simp add: bit_swap_def Let_def)
  then show ?thesis by (simp add: ab xor.assoc)
qed

lemma bit_swap_masks:
  "drop_bit 4 (push_bit 4 0x0F0F0F0F) = (0x0F0F0F0F :: u32)" "drop_bit 16 (push_bit 16 0x0000FFFF) = (0x0000FFFF :: u32)"
  "drop_bit 2 (push_bit 2 0x33333333) = (0x33333333 :: u32)" "drop_bit 8 (push_bit 8 0x00FF00FF) = (0x00FF00FF :: u32)"
  "drop_bit 0 (push_bit 0 0xAAAAAAAA) = (0xAAAAAAAA :: u32)"
  by simp_all

lemma and_all32: "y AND 0xFFFFFFFF = (y :: u32)"
proof -
  have e: "(0xFFFFFFFF :: u32) = - 1" by simp
  show ?thesis unfolding e by (rule and.right_neutral)
qed

lemma rot_inv:
  "push_bit 31 (push_bit 1 x OR drop_bit 31 x) OR drop_bit 1 (push_bit 1 x OR drop_bit 31 x) = (x :: u32)"
  "push_bit 1 (push_bit 31 x OR drop_bit 1 x) OR drop_bit 31 (push_bit 31 x OR drop_bit 1 x) = (x :: u32)"
proof -
  have "bit (push_bit 31 (push_bit 1 x OR drop_bit 31 x) OR drop_bit 1 (push_bit 1 x OR drop_bit 31 x)) n \<longleftrightarrow> bit x n" for n
    by (cases "n = 31"; cases "n < 31") (auto simp only: bit_or_iff bit_drop_bit_eq bit_push32 comp_apply dest: bit_u32, (auto dest: bit_u32)?)
  then show "push_bit 31 (push_bit 1 x OR drop_bit 31 x) OR drop_bit 1 (push_bit 1 x OR drop_bit 31 x) = x" by (rule bit_eqI)
  have "bit (push_bit 1 (push_bit 31 x OR drop_bit 1 x) OR drop_bit 31 (push_bit 31 x OR drop_bit 1 x)) n \<longleftrightarrow> bit x n" for n
    by (cases "n = 0") (auto simp only: bit_or_iff bit_drop_bit_eq bit_push32 comp_apply dest: bit_u32, (auto dest: bit_u32)?)
  then show "push_bit 1 (push_bit 31 x OR drop_bit 1 x) OR drop_bit 31 (push_bit 31 x OR drop_bit 1 x) = x" by (rule bit_eqI)
qed

lemma DES_FP_IP:
  assumes "DES_IP x y = (x', y')"
  shows "DES_FP x' y' = (x, y)"
proof -
  obtain x1 y1 where s1: "bit_swap 4 0x0F0F0F0F x y = (x1, y1)" by fastforce
  obtain x2 y2 where s2: "bit_swap 16 0x0000FFFF x1 y1 = (x2, y2)" by fastforce
  obtain x3 y3 where s3: "bit_swap 2 0x33333333 y2 x2 = (y3, x3)" by fastforce
  obtain x4 y4 where s4: "bit_swap 8 0x00FF00FF y3 x3 = (y4, x4)" by fastforce
  obtain x5 y5 where s5: "bit_swap 0 0xAAAAAAAA x4 (push_bit 1 y4 OR drop_bit 31 y4) = (x5, y5)" by fastforce
  note inv = s1 [THEN bit_swap_inv [OF bit_swap_masks(1)]] s2 [THEN bit_swap_inv [OF bit_swap_masks(2)]]
    s3 [THEN bit_swap_inv [OF bit_swap_masks(3)]] s4 [THEN bit_swap_inv [OF bit_swap_masks(4)]]
    s5 [THEN bit_swap_inv [OF bit_swap_masks(5)]]
  have "x' = push_bit 1 x5 OR drop_bit 31 x5" "y' = y5"
    using assms by (simp_all only: DES_IP_def Let_def s1 s2 s3 s4 s5 and_all32 case_prod_conv prod.inject)
  then show ?thesis by (simp only: DES_FP_def Let_def and_all32 rot_inv inv case_prod_conv)
qed

lemma DES_IP_FP:
  assumes "DES_FP x y = (x', y')"
  shows "DES_IP x' y' = (x, y)"
proof -
  obtain x1 y1 where s1: "bit_swap 0 0xAAAAAAAA (push_bit 31 x OR drop_bit 1 x) y = (x1, y1)" by fastforce
  obtain x2 y2 where s2: "bit_swap 8 0x00FF00FF (push_bit 31 y1 OR drop_bit 1 y1) x1 = (y2, x2)" by fastforce
  obtain x3 y3 where s3: "bit_swap 2 0x33333333 y2 x2 = (y3, x3)" by fastforce
  obtain x4 y4 where s4: "bit_swap 16 0x0000FFFF x3 y3 = (x4, y4)" by fastforce
  obtain x5 y5 where s5: "bit_swap 4 0x0F0F0F0F x4 y4 = (x5, y5)" by fastforce
  note inv = s1 [THEN bit_swap_inv [OF bit_swap_masks(5)]] s2 [THEN bit_swap_inv [OF bit_swap_masks(4)]]
    s3 [THEN bit_swap_inv [OF bit_swap_masks(3)]] s4 [THEN bit_swap_inv [OF bit_swap_masks(2)]]
    s5 [THEN bit_swap_inv [OF bit_swap_masks(1)]]
  have "x' = x5" "y' = y5"
    using assms by (simp_all only: DES_FP_def Let_def s1 s2 s3 s4 s5 and_all32 case_prod_conv prod.inject)
  then show ?thesis by (simp only: DES_IP_def Let_def and_all32 rot_inv inv case_prod_conv)
qed

text \<open>A round is an exclusive or, so it undoes itself.\<close>

lemma DES_ROUND_inv: "DES_ROUND k0 k1 x (DES_ROUND k0 k1 x y) = y"
  by (simp add: DES_ROUND_def Let_def xor.assoc xor.left_commute)

lemma des_rounds_append:
  "length ks mod 4 = 0 \<Longrightarrow> des_rounds (ks @ ls) x y = (case des_rounds ks x y of (x, y) \<Rightarrow> des_rounds ls x y)"
  by (induction ks x y rule: des_rounds.induct) (auto simp: Let_def)

lemma rev_pairs_4: "rev_pairs (a # b # c # d # ks) = rev_pairs ks @ [c, d, a, b]"
  by simp

lemma length_rev_pairs: "even (length ks) \<Longrightarrow> length (rev_pairs ks) = length ks"
  by (induction ks rule: rev_pairs.induct) auto

lemma des_rounds_inv:
  "length ks mod 4 = 0 \<Longrightarrow> des_rounds ks x y = (x', y') \<Longrightarrow> des_rounds (rev_pairs ks) y' x' = (y, x)"
proof (induction ks x y rule: des_rounds.induct)
  case (1 k0 k1 k2 k3 ks x y)
  let ?x = "DES_ROUND k0 k1 y x" and ?y = "DES_ROUND k2 k3 (DES_ROUND k0 k1 y x) y"
  have l: "length ks mod 4 = 0" using 1(2) by simp
  then have "even (length ks)" by presburger
  then have lr: "length (rev_pairs ks) mod 4 = 0" using l length_rev_pairs by simp
  have "des_rounds (rev_pairs ks) y' x' = (?y, ?x)" using 1(1) [OF refl refl l] 1(3) by (simp add: Let_def)
  then show ?case by (simp add: rev_pairs_4 des_rounds_append [OF lr] DES_ROUND_inv Let_def del: rev_pairs.simps)
qed auto

lemma GET_PUT [simp]: "GET_UINT32 (PUT_UINT32 n @ r) 0 = n"
proof (rule bit_eqI)
  fix i :: nat
  have u: "bit (ucast w :: 'a::len word) j \<longleftrightarrow> j < LENGTH('a) \<and> bit w j" for w :: u32 and j
    by (auto simp: bit_simps)
  have v: "bit (ucast w :: u32) j \<longleftrightarrow> bit w j" for w :: u8 and j
    using bit_imp_le_length [of w j] by (auto simp: bit_simps)
  consider "i < 8" | "8 \<le> i" "i < 16" | "16 \<le> i" "i < 24" | "24 \<le> i" "i < 32" | "\<not> i < 32" by linarith
  then show "bit (GET_UINT32 (PUT_UINT32 n @ r) 0) i \<longleftrightarrow> bit n i"
    by cases (auto simp: GET_UINT32_def PUT_UINT32_def bit_or_iff bit_push32 v u bit_drop_bit_eq dest: bit_u32)
qed

lemma length_PUT [simp]: "length (PUT_UINT32 n) = 4"
  by (simp add: PUT_UINT32_def)

lemma GET_append4: "length p = 4 \<Longrightarrow> GET_UINT32 (p @ r) 4 = GET_UINT32 r 0"
  by (simp add: GET_UINT32_def nth_append numeral_2_eq_2)

lemma PUT_GET: "PUT_UINT32 (GET_UINT32 [b0, b1, b2, b3] 0) = [b0, b1, b2, b3]"
proof -
  have v: "bit (ucast w :: u32) j \<longleftrightarrow> bit w j" for w :: u8 and j
    using bit_imp_le_length [of w j] by (auto simp: bit_simps)
  have w: "bit (ucast w :: u8) j \<longleftrightarrow> j < 8 \<and> bit w j" for w :: u32 and j
    by (auto simp: bit_simps)
  have l: "bit (w :: u8) j \<Longrightarrow> j < 8" for w j using bit_imp_le_length [of w j] by simp
  have e: "GET_UINT32 [b0, b1, b2, b3] 0 = push_bit 24 (ucast b0) OR push_bit 16 (ucast b1) OR push_bit 8 (ucast b2) OR ucast b3"
    by (simp add: GET_UINT32_def)
  show ?thesis unfolding PUT_UINT32_def e
    by (intro list.inject [THEN iffD2] conjI bit_eqI refl)
      (auto simp: w v bit_or_iff bit_push32 bit_drop_bit_eq dest: l)
qed

lemma des_crypt_inv:
  assumes "length SK mod 4 = 0" "length b = 8"
  shows "des_crypt (rev_pairs SK) (des_crypt SK b) = b"
proof -
  obtain b0 b1 b2 b3 b4 b5 b6 b7 where b: "b = [b0, b1, b2, b3, b4, b5, b6, b7]"
    using assms(2) by (auto simp: numeral_eq_Suc length_Suc_conv)
  have g: "GET_UINT32 b 0 = GET_UINT32 [b0, b1, b2, b3] 0" "GET_UINT32 b 4 = GET_UINT32 [b4, b5, b6, b7] 0"
    by (simp_all add: b GET_UINT32_def)
  obtain x y where ip: "DES_IP (GET_UINT32 b 0) (GET_UINT32 b 4) = (x, y)" by fastforce
  obtain x' y' where r: "des_rounds SK x y = (x', y')" by fastforce
  obtain u v where fp: "DES_FP y' x' = (u, v)" by fastforce
  have c: "des_crypt SK b = PUT_UINT32 u @ PUT_UINT32 v" by (simp add: des_crypt_def ip r fp)
  have "des_crypt (rev_pairs SK) (PUT_UINT32 u @ PUT_UINT32 v)
      = PUT_UINT32 (GET_UINT32 b 0) @ PUT_UINT32 (GET_UINT32 b 4)"
    using GET_PUT [of v "[]"]
    by (simp add: des_crypt_def GET_append4 DES_IP_FP [OF fp] des_rounds_inv [OF assms(1) r] DES_FP_IP [OF ip])
  then show ?thesis unfolding c by (simp only: g PUT_GET) (simp add: b)
qed

lemma length_des_crypt [simp]: "length (des_crypt SK b) = 8"
  by (simp add: des_crypt_def case_prod_beta Let_def)

lemma length_des_main_ks: "length (des_main_ks key) = 32"
proof -
  have "length (des_subkeys is x y) = 2 * length is" for "is" x y
    by (induction "is" x y rule: des_subkeys.induct) (auto simp: Let_def)
  then show ?thesis by (simp add: des_main_ks_def case_prod_beta)
qed

section \<open>Padding\<close>

text \<open>What the paddings add to a text of \<open>n\<close> bytes.\<close>

definition pad :: "int \<Rightarrow> nat \<Rightarrow> bytes" where
  "pad mode n =
     (let k = 8 - n mod 8 in
      if mode = PADDING_MODE_ISO7816_4 then 0x80 # replicate (k - 1) 0 else replicate k (of_nat k))"

lemma length_pad: "length (pad mode n) = 8 - n mod 8"
proof -
  have "Suc (7 - n mod 8) = 8 - n mod 8" using mod_less_divisor [of 8 n] by linarith
  then show ?thesis by (simp add: pad_def Let_def)
qed

lemma add_padding_eq:
  "check_padding_mode mode \<Longrightarrow> length t < 8 \<Longrightarrow> add_padding t mode = Some (t @ pad mode (length t))"
  by (simp add: add_padding_def padding_add_iso7816_4_def padding_add_pkcs7_def pad_def Let_def)

lemma iso_loop_zeros: "k < n \<Longrightarrow> iso_loop n p (replicate k 0 @ 0x80 # r) = p + k"
proof (induction k arbitrary: n p)
  case 0
  then show ?case by (cases n) auto
next
  case (Suc k)
  then show ?case by (cases n) auto
qed

lemma pkcs7_loop_same: "pkcs7_loop n p (replicate n p @ r) = Some True"
  by (induction n) auto

lemma remove_padding_pad:
  assumes "check_padding_mode mode"
  shows "remove_padding (rev (src @ pad mode n)) mode = Some (8 - n mod 8)"
proof (cases "mode = PADDING_MODE_ISO7816_4")
  case True
  then show ?thesis using assms iso_loop_zeros [of "7 - n mod 8" 8 1 "rev src"]
    by (simp add: remove_padding_def padding_remove_iso7816_4_def pad_def Let_def Suc_diff_le)
next
  case False
  define k where "k = 7 - n mod 8"
  have k: "8 - n mod 8 = Suc k" "k < 8" using mod_less_divisor [of 8 n] unfolding k_def by linarith+
  have "unat (of_nat (Suc k) :: u8) = Suc k" using k(2) by (intro u8_of_nat) simp
  then show ?thesis using assms False pkcs7_loop_same [of k "of_nat (Suc k)" "rev src"]
    by (simp add: remove_padding_def padding_remove_pkcs7_def pad_def Let_def k replicate_app_Cons_same del: of_nat_Suc)
qed

section \<open>Properties\<close>

lemma rev_pairs_ks: "length (des_main_ks key) mod 4 = 0"
  by (simp add: length_des_main_ks)

lemma decode_loop_Cons:
  "length b = 8 \<Longrightarrow> decode_loop SK (b @ r) = des_crypt SK b @ decode_loop SK r"
  by (subst decode_loop.simps) auto

lemma encode_loop_ok:
  assumes "length SK mod 4 = 0" "check_padding_mode mode"
  shows "\<exists>c. encode_loop SK mode src = Some c \<and> length c = 8 * (length src div 8 + 1)
    \<and> decode_loop (rev_pairs SK) c = src @ pad mode (length src)"
proof (induction src rule: length_induct)
  case (1 src)
  show ?case
  proof (cases "length src \<ge> 8")
    case True
    then have "length (drop 8 src) < length src" by simp
    with 1 obtain c where c: "encode_loop SK mode (drop 8 src) = Some c" "length c = 8 * (length (drop 8 src) div 8 + 1)"
      "decode_loop (rev_pairs SK) c = drop 8 src @ pad mode (length (drop 8 src))" by blast
    have "length (take 8 src) = 8" using True by simp
    note d = des_crypt_inv [OF assms(1) this]
    have p: "pad mode (length (drop 8 src)) = pad mode (length src)" using True by (simp add: pad_def le_mod_geq)
    have "encode_loop SK mode src = Some (des_crypt SK (take 8 src) @ c)"
      using True c(1) by (subst encode_loop.simps) simp
    moreover have "decode_loop (rev_pairs SK) (des_crypt SK (take 8 src) @ c) = src @ pad mode (length src)"
      by (simp add: decode_loop_Cons d c(3) p [simplified])
    moreover have "length src div 8 = length (drop 8 src) div 8 + 1" using True by (simp add: le_div_geq)
    ultimately show ?thesis using c(2) by simp
  next
    case False
    then have l: "length (src @ pad mode (length src)) = 8" by (simp add: length_pad)
    have "encode_loop SK mode src = Some (des_crypt SK (src @ pad mode (length src)))"
      using False assms(2) by (subst encode_loop.simps) (simp add: add_padding_eq)
    moreover have "decode_loop (rev_pairs SK) (des_crypt SK (src @ pad mode (length src))) = src @ pad mode (length src)"
      using decode_loop_Cons [of _ "rev_pairs SK" "[]"] des_crypt_inv [OF assms(1) l]
      by (simp add: decode_loop.simps [of _ "[]"])
    ultimately show ?thesis using False by simp
  qed
qed



text \<open>
  A text that decrypts to bytes 255 makes \<open>padding_remove_pkcs7\<close> read before the start of the buffer:
  it compares as many bytes as the last one says before anything checks that there are so many.
\<close>

lemma pkcs7_reads_outside: "padding_remove_pkcs7 (replicate 8 255) = None"
proof -
  have "pkcs7_loop n p (replicate k p) = None" if "k < n" for n k p
    using that
  proof (induction k arbitrary: n)
    case 0
    then show ?case by (cases n) auto
  next
    case (Suc k)
    then show ?case by (cases n) auto
  qed
  from this [of 7 254 255] replicate_Suc [of 7 "255 :: u8"] show ?thesis by (simp add: padding_remove_pkcs7_def)
qed

end
