(* ===== verification/SocketMessage.thy ===== *)
theory SocketMessage
  imports CString
begin

text \<open>
  \<open>skynet/skynet-src/skynet_socket.h\<close>: the message by which the socket thread tells a service
  what happened on one of its sockets, and the integer conversions of \<open>sscanf\<close> the services read
  their parameters with.
\<close>

record socket_message =
  sm_type :: nat
  sm_id :: int
  sm_ud :: int
  sm_buffer :: bytes
  sm_extra :: bytes \<comment> \<open>the bytes after the struct\<close>

definition SOCKET_TYPE_DATA :: nat where "SOCKET_TYPE_DATA = 1"
definition SOCKET_TYPE_CONNECT :: nat where "SOCKET_TYPE_CONNECT = 2"
definition SOCKET_TYPE_CLOSE :: nat where "SOCKET_TYPE_CLOSE = 3"
definition SOCKET_TYPE_ACCEPT :: nat where "SOCKET_TYPE_ACCEPT = 4"
definition SOCKET_TYPE_ERROR :: nat where "SOCKET_TYPE_ERROR = 5"
definition SOCKET_TYPE_WARNING :: nat where "SOCKET_TYPE_WARNING = 7"

text \<open>The conversions \<open>%d\<close> and \<open>%u\<close>: the number and what is left, \<open>None\<close> when there are no digits.\<close>

definition scan_number :: "bytes \<Rightarrow> (bytes \<times> bytes) option" where
  "scan_number s =
     (let s = dropWhile isspace s;
          sign = (case s of b # _ \<Rightarrow> if b = 45 \<or> b = 43 then [b] else [] | [] \<Rightarrow> []);
          ds = takeWhile (\<lambda>b. 48 \<le> b \<and> b \<le> 57) (drop (length sign) s)
      in if ds = [] then None else Some (sign @ ds, drop (length sign + length ds) s))"

definition scan_int :: "bytes \<Rightarrow> (int \<times> bytes) option" where
  "scan_int s = map_option (\<lambda>(n, r). (to_int (strtol 10 n), r)) (scan_number s)"

definition scan_uint :: "bytes \<Rightarrow> (u32 \<times> bytes) option" where
  "scan_uint s = map_option (\<lambda>(n, r). (ucast (strtoul 10 n), r)) (scan_number s)"

end
