(* ===== verification/Harbor.thy ===== *)
theory Harbor
  imports Context SocketMessage Endian
begin

text \<open>
  \<open>skynet/service-src/service_harbor.c\<close>: the service that carries messages between the nodes of
  a cluster. It keeps one connection per peer node, a queue of messages for every peer that is not
  connected yet, and a table of global names with a queue for every name nobody has registered
  yet. A message travels as a 4-byte big-endian length, the data, and a 12-byte header (source,
  destination with the type in its top byte, session). Calls of the framework are the list of
  \<open>harbor_out\<close> values an operation returns, in order, with the buffers it frees; what
  \<open>skynet_send\<close> answers is the argument \<open>ret\<close>. \<open>None\<close> is a failed assert or an access out of
  bounds.
\<close>

section \<open>State\<close>

definition HASH_SIZE :: nat where "HASH_SIZE = 4096"
definition QUEUE_SIZE :: nat where "QUEUE_SIZE = 1024"
definition HEADER_COOKIE_LENGTH :: nat where "HEADER_COOKIE_LENGTH = 12"
definition REMOTE_MAX :: nat where "REMOTE_MAX = 256"

definition STATUS_WAIT :: nat where "STATUS_WAIT = 0"
definition STATUS_HANDSHAKE :: nat where "STATUS_HANDSHAKE = 1"
definition STATUS_HEADER :: nat where "STATUS_HEADER = 2"
definition STATUS_CONTENT :: nat where "STATUS_CONTENT = 3"
definition STATUS_DOWN :: nat where "STATUS_DOWN = 4"

record remote_message_header =
  rh_source :: u32
  rh_destination :: u32
  rh_session :: u32

text \<open>The buffer is the list of its \<open>size\<close> bytes.\<close>

record harbor_msg =
  hm_header :: remote_message_header
  hm_buffer :: bytes

record harbor_msg_queue =
  hq_size :: nat
  hq_head :: nat
  hq_tail :: nat
  hq_data :: "harbor_msg option list"

record keyvalue =
  kv_key :: bytes
  kv_hash :: u32
  kv_value :: u32
  kv_queue :: "harbor_msg_queue option"

text \<open>The chains, from their first node on.\<close>

type_synonym hashmap = "keyvalue list list"

record slave =
  sl_fd :: int
  sl_queue :: "harbor_msg_queue option"
  sl_status :: nat
  sl_length :: nat
  sl_read :: nat
  sl_size :: bytes
  sl_recv_buffer :: "u8 option list" \<comment> \<open>\<open>None\<close>: a byte nobody wrote\<close>

record harbor =
  hb_id :: int
  hb_slave :: u32
  hb_map :: hashmap
  hb_s :: "slave list"

datatype harbor_out =
  SkynetSend u32 u32 u32 u32 "bytes option" \<comment> \<open>source, destination, type, session, data\<close>
| SocketClose int
| SocketStart int
| SocketSend int bytes
| HarborError
| Freed bytes

section \<open>Queues of messages\<close>

text \<open>\<open>push_queue_msg\<close>: one cell stays free, and the array doubles when that is the last one.\<close>

definition grow_queue :: "harbor_msg_queue \<Rightarrow> harbor_msg_queue" where
  "grow_queue q =
     (if (hq_tail q + 1) mod hq_size q = hq_head q
      then q\<lparr>hq_data := map (\<lambda>i. hq_data q ! ((i + hq_head q) mod hq_size q)) [0..<hq_size q - 1]
                 @ replicate (hq_size q + 1) None,
             hq_head := 0, hq_tail := hq_size q - 1, hq_size := hq_size q * 2\<rparr>
      else q)"

definition push_queue_msg :: "harbor_msg \<Rightarrow> harbor_msg_queue \<Rightarrow> harbor_msg_queue option" where
  "push_queue_msg m q =
     (let q = grow_queue q in do {
        cells \<leftarrow> wr (hq_data q) (hq_tail q) m;
        Some (q\<lparr>hq_data := cells, hq_tail := (hq_tail q + 1) mod hq_size q\<rparr>) })"

definition push_queue :: "bytes \<Rightarrow> remote_message_header \<Rightarrow> harbor_msg_queue \<Rightarrow> harbor_msg_queue option" where
  "push_queue buffer header q = push_queue_msg \<lparr>hm_header = header, hm_buffer = buffer\<rparr> q"

definition pop_queue :: "harbor_msg_queue \<Rightarrow> (harbor_msg_queue \<times> harbor_msg option) option" where
  "pop_queue q =
     (if hq_head q = hq_tail q then Some (q, None)
      else do {
        m \<leftarrow> rd (hq_data q) (hq_head q);
        Some (q\<lparr>hq_head := (hq_head q + 1) mod hq_size q\<rparr>, Some m) })"

definition new_queue :: harbor_msg_queue where
  "new_queue = \<lparr>hq_size = QUEUE_SIZE, hq_head = 0, hq_tail = 0, hq_data = replicate QUEUE_SIZE None\<rparr>"

text \<open>The loops \<open>while ((m = pop_queue(queue)) != NULL)\<close>.\<close>

partial_function (option) while_pop ::
    "(harbor_msg \<Rightarrow> 's \<Rightarrow> 's option) \<Rightarrow> harbor_msg_queue \<Rightarrow> 's \<Rightarrow> ('s \<times> harbor_msg_queue) option" where
  "while_pop f q st = do {
     (q, m) \<leftarrow> pop_queue q;
     (case m of
        None \<Rightarrow> Some (st, q)
      | Some m \<Rightarrow> do { st \<leftarrow> f m st; while_pop f q st }) }"

definition emit_each :: "(harbor_msg \<Rightarrow> harbor_out list) \<Rightarrow> harbor_msg_queue \<Rightarrow> (harbor_out list \<times> harbor_msg_queue) option" where
  "emit_each g q = while_pop (\<lambda>m out. Some (out @ g m)) q []"

definition release_queue :: "harbor_msg_queue option \<Rightarrow> harbor_out list option" where
  "release_queue q =
     (case q of
        None \<Rightarrow> Some []
      | Some q \<Rightarrow> map_option fst (emit_each (\<lambda>m. [Freed (hm_buffer m)]) q))"

section \<open>Global names\<close>

definition u32_at :: "bytes \<Rightarrow> nat \<Rightarrow> u32" where
  "u32_at bs k = of_nat (un_le (take 4 (drop k bs)))"

definition name_hash :: "bytes \<Rightarrow> u32" where
  "name_hash name = u32_at name 0 XOR u32_at name 4 XOR u32_at name 8 XOR u32_at name 12"

definition strncmp_eq :: "bytes \<Rightarrow> bytes \<Rightarrow> bool" where
  "strncmp_eq a b \<longleftrightarrow> cstr (take GLOBALNAME_LENGTH a) = cstr (take GLOBALNAME_LENGTH b)"

definition chain_of :: "bytes \<Rightarrow> nat" where
  "chain_of name = unat (name_hash name) mod HASH_SIZE"

fun find_node :: "u32 \<Rightarrow> bytes \<Rightarrow> keyvalue list \<Rightarrow> nat \<Rightarrow> nat option" where
  "find_node h name [] i = None"
| "find_node h name (node # ns) i =
     (if kv_hash node = h \<and> strncmp_eq (kv_key node) name then Some i else find_node h name ns (i + 1))"

text \<open>A node is found as its place in the chain of its name.\<close>

definition hash_search :: "hashmap \<Rightarrow> bytes \<Rightarrow> nat option" where
  "hash_search hash name = find_node (name_hash name) name (hash ! chain_of name) 0"

definition hash_insert :: "hashmap \<Rightarrow> bytes \<Rightarrow> hashmap" where
  "hash_insert hash name =
     hash[chain_of name := \<lparr>kv_key = take GLOBALNAME_LENGTH name, kv_hash = name_hash name, kv_value = 0, kv_queue = None\<rparr>
            # hash ! chain_of name]"

definition hash_new :: hashmap where
  "hash_new = replicate HASH_SIZE []"

fun emit_all :: "('a \<Rightarrow> harbor_out list option) \<Rightarrow> 'a list \<Rightarrow> harbor_out list option" where
  "emit_all f [] = Some []"
| "emit_all f (x # xs) = do { a \<leftarrow> f x; b \<leftarrow> emit_all f xs; Some (a @ b) }"

definition hash_delete :: "hashmap \<Rightarrow> harbor_out list option" where
  "hash_delete hash = emit_all (\<lambda>node. release_queue (kv_queue node)) (concat hash)"

text \<open>\<open>hash_search\<close>, and \<open>hash_insert\<close> when the name is not there, as both callers do.\<close>

definition hash_node :: "bytes \<Rightarrow> hashmap \<Rightarrow> nat \<times> hashmap" where
  "hash_node name hash =
     (case hash_search hash name of None \<Rightarrow> (0, hash_insert hash name) | Some i \<Rightarrow> (i, hash))"

definition node_at :: "hashmap \<Rightarrow> bytes \<Rightarrow> nat \<Rightarrow> keyvalue" where
  "node_at hash name i = hash ! chain_of name ! i"

definition put_node :: "bytes \<Rightarrow> nat \<Rightarrow> keyvalue \<Rightarrow> harbor \<Rightarrow> harbor" where
  "put_node name i node h =
     h\<lparr>hb_map := (hb_map h)[chain_of name := (hb_map h ! chain_of name)[i := node]]\<rparr>"

section \<open>Connections\<close>

definition put_slave :: "nat \<Rightarrow> slave \<Rightarrow> harbor \<Rightarrow> harbor" where
  "put_slave rid s h = h\<lparr>hb_s := (hb_s h)[rid := s]\<rparr>"

definition close_harbor :: "nat \<Rightarrow> harbor \<Rightarrow> (harbor_out list \<times> harbor) option" where
  "close_harbor rid h = do {
     s \<leftarrow> lget (hb_s h) rid;
     let s = s\<lparr>sl_status := STATUS_DOWN\<rparr>;
     out \<leftarrow> release_queue (sl_queue s);
     Some ((if sl_fd s \<noteq> 0 then [SocketClose (sl_fd s)] else []) @ out,
       put_slave rid (s\<lparr>sl_fd := 0, sl_queue := None\<rparr>) h) }"

definition report_harbor_down :: "nat \<Rightarrow> harbor \<Rightarrow> harbor_out list" where
  "report_harbor_down rid h = [SkynetSend 0 (hb_slave h) 0 0 (Some (str ''D '' @ show_nat rid))]"

definition empty_slave :: slave where
  "empty_slave = \<lparr>sl_fd = 0, sl_queue = None, sl_status = 0, sl_length = 0, sl_read = 0, sl_size = [0, 0, 0, 0],
     sl_recv_buffer = []\<rparr>"

definition harbor_create :: harbor where
  "harbor_create = \<lparr>hb_id = 0, hb_slave = 0, hb_map = hash_new, hb_s = replicate REMOTE_MAX empty_slave\<rparr>"

fun close_from :: "nat list \<Rightarrow> harbor \<Rightarrow> (harbor_out list \<times> harbor) option" where
  "close_from [] h = Some ([], h)"
| "close_from (i # is) h = do {
     (out, h) \<leftarrow> close_harbor i h;
     (out', h) \<leftarrow> close_from is h;
     Some (out @ out', h) }"

definition close_all_remotes :: "harbor \<Rightarrow> (harbor_out list \<times> harbor) option" where
  "close_all_remotes h = close_from [1..<REMOTE_MAX] h"

definition harbor_release :: "harbor \<Rightarrow> harbor_out list option" where
  "harbor_release h = do {
     (out, h) \<leftarrow> close_all_remotes h;
     out' \<leftarrow> hash_delete (hb_map h);
     Some (out @ out') }"

section \<open>The format of a message\<close>

definition to_bigendian :: "u32 \<Rightarrow> bytes" where
  "to_bigendian n = [ucast (drop_bit 24 n AND 0xff), ucast (drop_bit 16 n AND 0xff), ucast (drop_bit 8 n AND 0xff), ucast (n AND 0xff)]"

definition header_to_message :: "remote_message_header \<Rightarrow> bytes" where
  "header_to_message header =
     to_bigendian (rh_source header) @ to_bigendian (rh_destination header) @ to_bigendian (rh_session header)"

text \<open>The union of \<open>from_bigendian\<close> gives the bytes of the word in memory order.\<close>

definition from_bigendian :: "u32 \<Rightarrow> u32" where
  "from_bigendian n =
     (let u = le_bytes 4 (unat n) in
      push_bit 24 (ucast (u ! 0)) OR push_bit 16 (ucast (u ! 1)) OR push_bit 8 (ucast (u ! 2)) OR ucast (u ! 3))"

definition message_to_header :: "bytes \<Rightarrow> remote_message_header" where
  "message_to_header message =
     \<lparr>rh_source = from_bigendian (u32_at message 0), rh_destination = from_bigendian (u32_at message 4),
      rh_session = from_bigendian (u32_at message 8)\<rparr>"

text \<open>
  \<open>forward_local_messsage\<close>: the last 12 bytes are the header. A message shorter than that makes the
  code read in front of the buffer.
\<close>

definition forward_local :: "(harbor_out \<Rightarrow> int) \<Rightarrow> bytes \<Rightarrow> harbor \<Rightarrow> harbor_out list option" where
  "forward_local ret msg h =
     (let sz = length msg in do {
        cassert (HEADER_COOKIE_LENGTH \<le> sz);
        let header = message_to_header (drop (sz - HEADER_COOKIE_LENGTH) msg);
        let type = drop_bit HANDLE_REMOTE_SHIFT (rh_destination header);
        let destination = (rh_destination header AND HANDLE_MASK) OR push_bit HANDLE_REMOTE_SHIFT (of_int (hb_id h));
        let send = SkynetSend (rh_source header) destination (type OR PTYPE_TAG_DONTCOPY) (rh_session header)
          (Some (take (sz - HEADER_COOKIE_LENGTH) msg));
        Some (if ret send < 0
          then [send] @ (if type \<noteq> PTYPE_ERROR then [SkynetSend destination (rh_source header) PTYPE_ERROR (rh_session header) None] else [])
            @ [HarborError]
          else [send]) })"

definition send_remote :: "int \<Rightarrow> bytes \<Rightarrow> remote_message_header \<Rightarrow> harbor_out list" where
  "send_remote fd buffer cookie =
     (let sz_header = length buffer + HEADER_COOKIE_LENGTH in
      if sz_header > 0xffffffff then [HarborError]
      else [SocketSend fd (to_bigendian (of_nat sz_header) @ buffer @ header_to_message cookie)])"

section \<open>Queued messages that can go\<close>

definition set_destination :: "u32 \<Rightarrow> harbor_msg \<Rightarrow> harbor_msg" where
  "set_destination handle m =
     m\<lparr>hm_header := (hm_header m)\<lparr>rh_destination := rh_destination (hm_header m) OR (handle AND HANDLE_MASK)\<rparr>\<rparr>"

text \<open>
  \<open>dispatch_name_queue\<close> moves the queue of a name that has got its handle: it drops it, sends it, or
  hands it to the queue of the node the handle is on.
\<close>

definition dispatch_name_queue :: "bytes \<Rightarrow> nat \<Rightarrow> harbor \<Rightarrow> (harbor_out list \<times> harbor) option" where
  "dispatch_name_queue name i h = do {
     let node = node_at (hb_map h) name i;
     queue \<leftarrow> kv_queue node;
     let handle = kv_value node;
     let harbor_id = unat (drop_bit HANDLE_REMOTE_SHIFT handle);
     s \<leftarrow> lget (hb_s h) harbor_id;
     let fd = sl_fd s;
     if fd = 0 then
       (if sl_status s = STATUS_DOWN then Some ([HarborError], h)
        else do {
          (s, node) \<leftarrow> (case sl_queue s of
             None \<Rightarrow> Some (s\<lparr>sl_queue := Some queue\<rparr>, node\<lparr>kv_queue := None\<rparr>)
           | Some sq \<Rightarrow> do {
               (sq, queue) \<leftarrow> while_pop push_queue_msg queue sq;
               Some (s\<lparr>sl_queue := Some sq\<rparr>, node\<lparr>kv_queue := Some queue\<rparr>) });
          (out, s) \<leftarrow> (if harbor_id = unat (drop_bit HANDLE_REMOTE_SHIFT (hb_slave h)) then do {
               sq \<leftarrow> sl_queue s;
               (out, sq) \<leftarrow> emit_each (\<lambda>m. [SkynetSend (rh_source (hm_header m)) handle
                   (drop_bit HANDLE_REMOTE_SHIFT (rh_destination (hm_header m)) OR PTYPE_TAG_DONTCOPY)
                   (rh_session (hm_header m)) (Some (hm_buffer m))]) sq;
               out' \<leftarrow> release_queue (Some sq);
               Some (out @ out', s\<lparr>sl_queue := None\<rparr>) }
             else Some ([], s));
          Some (out, put_slave harbor_id s (put_node name i node h)) })
     else do {
       (out, queue) \<leftarrow> emit_each (\<lambda>m. let m = set_destination handle m in
           send_remote fd (hm_buffer m) (hm_header m) @ [Freed (hm_buffer m)]) queue;
       Some (out, put_node name i (node\<lparr>kv_queue := Some queue\<rparr>) h) } }"

definition dispatch_queue :: "nat \<Rightarrow> harbor \<Rightarrow> (harbor_out list \<times> harbor) option" where
  "dispatch_queue rid h = do {
     s \<leftarrow> lget (hb_s h) rid;
     let fd = sl_fd s;
     cassert (fd \<noteq> 0);
     (case sl_queue s of
        None \<Rightarrow> Some ([], h)
      | Some queue \<Rightarrow> do {
          (out, queue) \<leftarrow> emit_each (\<lambda>m. send_remote fd (hm_buffer m) (hm_header m) @ [Freed (hm_buffer m)]) queue;
          out' \<leftarrow> release_queue (Some queue);
          Some (out @ out', put_slave rid (s\<lparr>sl_queue := None\<rparr>) h) }) }"

section \<open>Bytes from a peer\<close>

text \<open>\<open>memcpy\<close> to an offset of a block; \<open>None\<close> when it does not fit.\<close>

definition copy_at :: "nat \<Rightarrow> 'a list \<Rightarrow> 'a list \<Rightarrow> 'a list option" where
  "copy_at k bs mem =
     (if k + length bs \<le> length mem then Some (take k mem @ bs @ drop (k + length bs) mem) else None)"

text \<open>
  The cases of the switch in \<open>push_socket_data\<close>. Each gives the bytes with which the loop goes round
  again, or \<open>None\<close> when the function returns.
\<close>

definition recv_content :: "(harbor_out \<Rightarrow> int) \<Rightarrow> nat \<Rightarrow> bytes \<Rightarrow> harbor
    \<Rightarrow> (bytes option \<times> harbor_out list \<times> harbor) option" where
  "recv_content ret rid buffer h = do {
     s \<leftarrow> lget (hb_s h) rid;
     cassert (sl_read s \<le> sl_length s);
     let need = sl_length s - sl_read s;
     if length buffer < need then do {
       recv \<leftarrow> copy_at (sl_read s) (map Some buffer) (sl_recv_buffer s);
       Some (None, [], put_slave rid (s\<lparr>sl_recv_buffer := recv, sl_read := sl_read s + length buffer\<rparr>) h) }
     else do {
       recv \<leftarrow> copy_at (sl_read s) (map Some (take need buffer)) (sl_recv_buffer s);
       msg \<leftarrow> those (take (sl_length s) recv);
       out \<leftarrow> forward_local ret msg h;
       let h = put_slave rid (s\<lparr>sl_length := 0, sl_read := 0, sl_recv_buffer := [], sl_status := STATUS_HEADER\<rparr>) h;
       let buffer = drop need buffer;
       Some (if buffer = [] then None else Some buffer, out, h) } }"

definition recv_header :: "(harbor_out \<Rightarrow> int) \<Rightarrow> nat \<Rightarrow> bytes \<Rightarrow> harbor
    \<Rightarrow> (bytes option \<times> harbor_out list \<times> harbor) option" where
  "recv_header ret rid buffer h = do {
     s \<leftarrow> lget (hb_s h) rid;
     cassert (sl_read s \<le> 4);
     let need = 4 - sl_read s;
     if length buffer < need then do {
       sz \<leftarrow> copy_at (sl_read s) buffer (sl_size s);
       Some (None, [], put_slave rid (s\<lparr>sl_size := sz, sl_read := sl_read s + length buffer\<rparr>) h) }
     else do {
       sz \<leftarrow> copy_at (sl_read s) (take need buffer) (sl_size s);
       let buffer = drop need buffer;
       let s = s\<lparr>sl_size := sz\<rparr>;
       if sz ! 0 \<noteq> 0 then do {
         (out, h) \<leftarrow> close_harbor rid (put_slave rid s h);
         Some (None, HarborError # out, h) }
       else do {
         let len = unat (push_bit 16 (ucast (sz ! 1)) OR push_bit 8 (ucast (sz ! 2)) OR ucast (sz ! 3) :: u32);
         let h = put_slave rid (s\<lparr>sl_length := len, sl_read := 0, sl_recv_buffer := replicate len None,
           sl_status := STATUS_CONTENT\<rparr>) h;
         if buffer = [] then Some (None, [], h) else recv_content ret rid buffer h } } }"

definition recv_handshake :: "(harbor_out \<Rightarrow> int) \<Rightarrow> nat \<Rightarrow> bytes \<Rightarrow> harbor
    \<Rightarrow> (bytes option \<times> harbor_out list \<times> harbor) option" where
  "recv_handshake ret rid buffer h = do {
     s \<leftarrow> lget (hb_s h) rid;
     cassert (buffer \<noteq> []);
     if unat (hd buffer) \<noteq> rid then do {
       (out, h) \<leftarrow> close_harbor rid h;
       Some (None, HarborError # out, h) }
     else do {
       let buffer = tl buffer;
       (out, h) \<leftarrow> dispatch_queue rid (put_slave rid (s\<lparr>sl_status := STATUS_HEADER\<rparr>) h);
       if buffer = [] then Some (Some [], out, h)
       else do {
         (k, out', h) \<leftarrow> recv_header ret rid buffer h;
         Some (k, out @ out', h) } } }"

definition recv_step :: "(harbor_out \<Rightarrow> int) \<Rightarrow> nat \<Rightarrow> bytes \<Rightarrow> harbor
    \<Rightarrow> (bytes option \<times> harbor_out list \<times> harbor) option" where
  "recv_step ret rid buffer h = do {
     s \<leftarrow> lget (hb_s h) rid;
     (if sl_status s = STATUS_HANDSHAKE then recv_handshake ret rid buffer h
      else if sl_status s = STATUS_HEADER then recv_header ret rid buffer h
      else if sl_status s = STATUS_CONTENT then recv_content ret rid buffer h
      else Some (None, [], h)) }"

partial_function (option) recv_loop ::
    "(harbor_out \<Rightarrow> int) \<Rightarrow> nat \<Rightarrow> bytes \<Rightarrow> harbor \<Rightarrow> (harbor_out list \<times> harbor) option" where
  "recv_loop ret rid buffer h = do {
     (k, out, h) \<leftarrow> recv_step ret rid buffer h;
     (case k of
        None \<Rightarrow> Some (out, h)
      | Some buffer \<Rightarrow> do {
          (out', h) \<leftarrow> recv_loop ret rid buffer h;
          Some (out @ out', h) }) }"

text \<open>\<open>harbor_id\<close>: the first peer with that socket, 0 when there is none.\<close>

definition harbor_id :: "int \<Rightarrow> harbor \<Rightarrow> nat" where
  "harbor_id fd h =
     (case filter (\<lambda>i. sl_fd (hb_s h ! i) = fd) [1..<REMOTE_MAX] of [] \<Rightarrow> 0 | i # _ \<Rightarrow> i)"

definition push_socket_data ::
    "(harbor_out \<Rightarrow> int) \<Rightarrow> socket_message \<Rightarrow> harbor \<Rightarrow> (harbor_out list \<times> harbor) option" where
  "push_socket_data ret m h = do {
     cassert (sm_type m = SOCKET_TYPE_DATA);
     let rid = harbor_id (sm_id m) h;
     if rid = 0 then Some ([HarborError], h) else recv_loop ret rid (sm_buffer m) h }"

section \<open>Sending\<close>

definition update_name :: "bytes \<Rightarrow> u32 \<Rightarrow> harbor \<Rightarrow> (harbor_out list \<times> harbor) option" where
  "update_name name handle h =
     (let (i, hash) = hash_node name (hb_map h);
          h = put_node name i ((node_at hash name i)\<lparr>kv_value := handle\<rparr>) (h\<lparr>hb_map := hash\<rparr>)
      in if kv_queue (node_at (hb_map h) name i) = None then Some ([], h)
         else do {
           (out, h) \<leftarrow> dispatch_name_queue name i h;
           let node = node_at (hb_map h) name i;
           out' \<leftarrow> release_queue (kv_queue node);
           Some (out @ out', put_node name i (node\<lparr>kv_queue := None\<rparr>) h) })"

text \<open>
  \<open>remote_send_handle\<close> and \<open>remote_send_name\<close>: the first component is what they return, \<open>True\<close> when
  the buffer of the message is not the caller's any more.
\<close>

definition remote_send_handle :: "u32 \<Rightarrow> u32 \<Rightarrow> u32 \<Rightarrow> u32 \<Rightarrow> bytes \<Rightarrow> harbor
    \<Rightarrow> (bool \<times> harbor_out list \<times> harbor) option" where
  "remote_send_handle source destination type session msg h =
     (let rid = unat (drop_bit HANDLE_REMOTE_SHIFT destination);
          header = \<lparr>rh_source = source,
            rh_destination = push_bit HANDLE_REMOTE_SHIFT type OR (destination AND HANDLE_MASK), rh_session = session\<rparr>
      in if int rid = hb_id h
         then Some (True, [SkynetSend source destination (type OR PTYPE_TAG_DONTCOPY) session (Some msg)], h)
         else do {
           s \<leftarrow> lget (hb_s h) rid;
           if sl_fd s = 0 \<or> sl_status s = STATUS_HANDSHAKE then
             (if sl_status s = STATUS_DOWN
              then Some (False, [SkynetSend destination source PTYPE_ERROR session None, HarborError], h)
              else do {
                queue \<leftarrow> push_queue msg header (case sl_queue s of None \<Rightarrow> new_queue | Some q \<Rightarrow> q);
                Some (True, [], put_slave rid (s\<lparr>sl_queue := Some queue\<rparr>) h) })
           else Some (False, send_remote (sl_fd s) msg header, h) })"

definition remote_send_name :: "u32 \<Rightarrow> bytes \<Rightarrow> u32 \<Rightarrow> u32 \<Rightarrow> bytes \<Rightarrow> harbor
    \<Rightarrow> (bool \<times> harbor_out list \<times> harbor) option" where
  "remote_send_name source name type session msg h =
     (let (i, hash) = hash_node name (hb_map h); h = h\<lparr>hb_map := hash\<rparr>; node = node_at hash name i in
      if kv_value node = 0 then do {
        let header = \<lparr>rh_source = source, rh_destination = push_bit HANDLE_REMOTE_SHIFT type, rh_session = session\<rparr>;
        queue \<leftarrow> push_queue msg header (case kv_queue node of None \<Rightarrow> new_queue | Some q \<Rightarrow> q);
        Some (True, [SkynetSend 0 (hb_slave h) 0 0 (Some (str ''Q '' @ cstr (take GLOBALNAME_LENGTH name)))],
          put_node name i (node\<lparr>kv_queue := Some queue\<rparr>) h) }
      else remote_send_handle source (kv_value node) type session msg h)"

section \<open>Commands\<close>

definition handshake :: "nat \<Rightarrow> harbor \<Rightarrow> harbor_out list option" where
  "handshake rid h = do {
     s \<leftarrow> lget (hb_s h) rid;
     Some [SocketSend (sl_fd s) [of_int (hb_id h)]] }"

text \<open>\<open>N name\<close>: a service of the given handle has registered a global name.\<close>

definition command_name :: "bytes \<Rightarrow> u32 \<Rightarrow> harbor \<Rightarrow> (harbor_out list \<times> harbor) option" where
  "command_name name source h =
     (if length name = 0 \<or> length name \<ge> GLOBALNAME_LENGTH then Some ([HarborError], h)
      else update_name (name @ replicate (GLOBALNAME_LENGTH - length name) 0) source h)"

text \<open>\<open>S fd id\<close> and \<open>A fd id\<close>: the socket of a peer.\<close>

definition scan_peer :: "bytes \<Rightarrow> int \<times> int" where
  "scan_peer s =
     (case scan_int s of None \<Rightarrow> (0, 0)
      | Some (fd, s) \<Rightarrow> (case scan_int s of None \<Rightarrow> (fd, 0) | Some (rid, _) \<Rightarrow> (fd, rid)))"

definition command_socket :: "bool \<Rightarrow> bytes \<Rightarrow> harbor \<Rightarrow> (harbor_out list \<times> harbor) option" where
  "command_socket connect arg h =
     (let (fd, rid) = scan_peer (cstr arg) in
      if fd = 0 \<or> rid \<le> 0 \<or> rid \<ge> int REMOTE_MAX then Some ([HarborError], h)
      else do {
        let rid = nat rid;
        s \<leftarrow> lget (hb_s h) rid;
        if sl_fd s \<noteq> 0 then Some ([HarborError], h)
        else do {
          let h = put_slave rid (s\<lparr>sl_fd := fd\<rparr>) h;
          shake \<leftarrow> handshake rid h;
          s \<leftarrow> lget (hb_s h) rid;
          if connect then Some (SocketStart fd # shake, put_slave rid (s\<lparr>sl_status := STATUS_HANDSHAKE\<rparr>) h)
          else do {
            (out, h) \<leftarrow> dispatch_queue rid (put_slave rid (s\<lparr>sl_status := STATUS_HEADER\<rparr>) h);
            Some (SocketStart fd # shake @ out, h) } } })"

definition harbor_command :: "bytes \<Rightarrow> u32 \<Rightarrow> harbor \<Rightarrow> (harbor_out list \<times> harbor) option" where
  "harbor_command msg source h = do {
     cassert (msg \<noteq> []);
     if hd msg = of_char CHR ''N'' then command_name (drop 2 msg) source h
     else if hd msg = of_char CHR ''S'' \<or> hd msg = of_char CHR ''A'' then do {
       cassert (2 \<le> length msg);
       command_socket (hd msg = of_char CHR ''S'') (drop 2 msg) h }
     else Some ([HarborError], h) }"

section \<open>The callback\<close>

definition PTYPE_SOCKET :: u32 where "PTYPE_SOCKET = 6"

text \<open>What the message of the callback points to, by its type.\<close>

datatype harbor_in = CommandText bytes | SocketEvent socket_message | RemoteMessage payload | OtherMessage

definition socket_event :: "(harbor_out \<Rightarrow> int) \<Rightarrow> socket_message \<Rightarrow> harbor \<Rightarrow> (harbor_out list \<times> harbor) option" where
  "socket_event ret m h =
     (if sm_type m = SOCKET_TYPE_DATA then do {
        (out, h) \<leftarrow> push_socket_data ret m h;
        Some (out @ [Freed (sm_buffer m)], h) }
      else if sm_type m = SOCKET_TYPE_ERROR \<or> sm_type m = SOCKET_TYPE_CLOSE then
        (let rid = harbor_id (sm_id m) h in
         Some (if rid \<noteq> 0 then report_harbor_down rid h else [HarborError], h))
      else if sm_type m = SOCKET_TYPE_CONNECT then Some ([], h)
      else if sm_type m = SOCKET_TYPE_WARNING then
        Some (if harbor_id (sm_id m) h \<noteq> 0 then [HarborError] else [], h)
      else Some ([HarborError], h))"

text \<open>The \<open>sz\<close> bytes at the message pointer of a \<open>struct remote_message\<close>.\<close>

definition block :: "payload option \<Rightarrow> u64 \<Rightarrow> bytes option" where
  "block p sz =
     (case p of
        None \<Rightarrow> if sz = 0 then Some [] else None
      | Some (Bytes b) \<Rightarrow> if unat sz \<le> length b then Some (take (unat sz) b) else None
      | Some (Remote _ _ _ _) \<Rightarrow> None)"

definition remote_out :: "payload \<Rightarrow> u32 \<Rightarrow> u32 \<Rightarrow> harbor \<Rightarrow> (harbor_out list \<times> harbor) option" where
  "remote_out rmsg session source h =
     (case rmsg of
        Bytes _ \<Rightarrow> None
      | Remote dest message sz type \<Rightarrow> do {
          msg \<leftarrow> block message sz;
          (kept, out, h) \<leftarrow> (if rn_handle dest = 0
             then remote_send_name source (rn_name dest) type session msg h
             else remote_send_handle source (rn_handle dest) type session msg h);
          Some (if kept then out else out @ [Freed msg], h) })"

definition mainloop :: "(harbor_out \<Rightarrow> int) \<Rightarrow> u32 \<Rightarrow> u32 \<Rightarrow> u32 \<Rightarrow> harbor_in \<Rightarrow> harbor
    \<Rightarrow> (harbor_out list \<times> harbor) option" where
  "mainloop ret type session source msg h =
     (if type = PTYPE_SOCKET then (case msg of SocketEvent m \<Rightarrow> socket_event ret m h | _ \<Rightarrow> None)
      else if type = PTYPE_HARBOR then (case msg of CommandText t \<Rightarrow> harbor_command t source h | _ \<Rightarrow> None)
      else if type = PTYPE_SYSTEM then (case msg of RemoteMessage r \<Rightarrow> remote_out r session source h | _ \<Rightarrow> None)
      else Some (HarborError # (if session \<noteq> 0 \<and> type \<noteq> PTYPE_ERROR
          then [SkynetSend 0 source PTYPE_ERROR session None] else []), h))"

text \<open>\<open>harbor_init\<close>: 1 when there is no slave service to report to.\<close>

definition harbor_init :: "bytes \<Rightarrow> harbor \<Rightarrow> (int \<times> harbor_out list \<times> harbor) option" where
  "harbor_init args h =
     (let (rid, slave) = (case scan_int args of None \<Rightarrow> (0, 0)
            | Some (rid, r) \<Rightarrow> (case scan_uint r of None \<Rightarrow> (rid, 0) | Some (sl, _) \<Rightarrow> (rid, sl)))
      in if slave = 0 then Some (1, [], h)
         else let h = h\<lparr>hb_id := rid, hb_slave := slave\<rparr> in
           if rid = 0 then do { (out, h) \<leftarrow> close_all_remotes h; Some (0, out, h) } else Some (0, [], h))"

end
