(* ===== verification/HarborSpec.thy ===== *)
theory HarborSpec
  imports Harbor
begin

text \<open>
  What the harbor service of theory \<open>Harbor\<close> does with messages: its queues are FIFO, the name
  table is a map, a message framed by one node and cut into pieces by the network is forwarded
  once, whole and in order by the other, and every buffer handed to the service ends in exactly one
  place.
\<close>

section \<open>Queues\<close>

definition hq_cells :: "harbor_msg_queue \<Rightarrow> harbor_msg option list" where
  "hq_cells q = ring (hq_data q) (hq_size q) (hq_head q) (ring_len (hq_size q) (hq_head q) (hq_tail q))"

definition hq_contents :: "harbor_msg_queue \<Rightarrow> harbor_msg list" where
  "hq_contents q = map the (hq_cells q)"

definition hq_inv :: "harbor_msg_queue \<Rightarrow> bool" where
  "hq_inv q \<longleftrightarrow> 2 \<le> hq_size q \<and> hq_head q < hq_size q \<and> hq_tail q < hq_size q \<and> length (hq_data q) = hq_size q
     \<and> None \<notin> set (hq_cells q)"

lemma hq_invD:
  assumes "hq_inv q"
  shows "2 \<le> hq_size q" "hq_head q < hq_size q" "hq_tail q < hq_size q" "length (hq_data q) = hq_size q"
    "hq_cells q = map Some (hq_contents q)"
  using assms by (auto simp: hq_inv_def hq_contents_def o_def intro!: map_idI [symmetric])
    (metis option.collapse)

lemma hq_invI:
  assumes "2 \<le> hq_size q" "hq_head q < hq_size q" "hq_tail q < hq_size q" "length (hq_data q) = hq_size q"
    "hq_cells q = map Some xs"
  shows "hq_inv q" "hq_contents q = xs"
  using assms by (auto simp: hq_inv_def hq_contents_def o_def)

lemma hq_contents_Nil: "hq_inv q \<Longrightarrow> hq_contents q = [] \<longleftrightarrow> hq_head q = hq_tail q"
proof -
  assume q: "hq_inv q"
  have "length (hq_contents q) = ring_len (hq_size q) (hq_head q) (hq_tail q)"
    by (simp add: hq_contents_def hq_cells_def)
  then show ?thesis using ring_len_0 [OF hq_invD(2,3) [OF q]] by (metis length_0_conv)
qed

lemma new_queue_inv [simp]: "hq_inv new_queue" "hq_contents new_queue = []"
  by (rule hq_invI [where xs = "[]"]; simp add: new_queue_def hq_cells_def ring_len_def QUEUE_SIZE_def)+

lemma pop_queue_cons:
  assumes q: "hq_inv q" and ne: "hq_contents q = m # ms"
  shows "\<exists>q'. pop_queue q = Some (q', Some m) \<and> hq_inv q' \<and> hq_contents q' = ms"
proof -
  note D = hq_invD [OF q]
  have ht: "hq_head q \<noteq> hq_tail q" using ne hq_contents_Nil [OF q] by auto
  let ?h = "ring_next (hq_size q) (hq_head q)"
  have h: "(hq_head q + 1) mod hq_size q = ?h" using ring_next_mod [OF D(2)] by simp
  have "hq_cells q = hq_data q ! hq_head q # ring (hq_data q) (hq_size q) ?h (ring_len (hq_size q) ?h (hq_tail q))"
    by (simp add: hq_cells_def ring_len_next_head [OF D(2,3) ht] ring_Cons [OF D(2)])
  then have m: "hq_data q ! hq_head q = Some m"
    and ms: "hq_cells (q\<lparr>hq_head := ?h\<rparr>) = map Some ms"
    using D(5) ne by (auto simp: hq_cells_def)
  have "hq_inv (q\<lparr>hq_head := ?h\<rparr>)" "hq_contents (q\<lparr>hq_head := ?h\<rparr>) = ms"
    by (rule hq_invI [where xs = ms]; use D ms in simp)+
  then show ?thesis using m ht h D by (simp add: pop_queue_def del: One_nat_def)
qed

lemma grow_queue_ok:
  assumes q: "hq_inv q"
  shows "hq_inv (grow_queue q) \<and> hq_contents (grow_queue q) = hq_contents q
     \<and> ring_next (hq_size (grow_queue q)) (hq_tail (grow_queue q)) \<noteq> hq_head (grow_queue q)"
proof (cases "(hq_tail q + 1) mod hq_size q = hq_head q")
  case True
  note D = hq_invD [OF q]
  have n: "ring_next (hq_size q) (hq_tail q) = hq_head q" using True ring_next_mod [OF D(3)] by simp
  have full: "ring_len (hq_size q) (hq_head q) (hq_tail q) = hq_size q - 1"
    using ring_len_full [OF D(2,3) n] by simp
  have arr: "map (\<lambda>i. hq_data q ! ((i + hq_head q) mod hq_size q)) [0..<hq_size q - 1] = map Some (hq_contents q)"
    using D(5) full by (simp add: hq_cells_def ring_def add.commute)
  have len: "length (hq_contents q) = hq_size q - 1" using arg_cong [OF arr, of length] by simp
  have g: "grow_queue q = q\<lparr>hq_data := map Some (hq_contents q) @ replicate (hq_size q + 1) None,
      hq_head := 0, hq_tail := hq_size q - 1, hq_size := hq_size q * 2\<rparr>"
    unfolding grow_queue_def arr using True by simp
  have cc: "hq_cells (grow_queue q) = map Some (hq_contents q)"
  proof -
    have "ring (map Some (hq_contents q) @ replicate (hq_size q + 1) None) (hq_size q * 2) 0 (hq_size q - 1)
        = take (hq_size q - 1) (map Some (hq_contents q))"
      by (rule ring_front) (use len D(1) in auto)
    then show ?thesis using len by (simp add: hq_cells_def g ring_len_def)
  qed
  have "hq_inv (grow_queue q)" "hq_contents (grow_queue q) = hq_contents q"
    by (rule hq_invI [where xs = "hq_contents q"]; use cc g len D(1) in simp)+
  then show ?thesis using g D(1) by (simp add: ring_next_def)
next
  case False
  with q ring_next_mod [OF hq_invD(3) [OF q]] show ?thesis by (simp add: grow_queue_def)
qed

lemma push_queue_msg_snoc:
  assumes q: "hq_inv q"
  shows "\<exists>q'. push_queue_msg m q = Some q' \<and> hq_inv q' \<and> hq_contents q' = hq_contents q @ [m]"
proof -
  define g where "g = grow_queue q"
  have g: "hq_inv g" "hq_contents g = hq_contents q" "ring_next (hq_size g) (hq_tail g) \<noteq> hq_head g"
    using grow_queue_ok [OF q] by (auto simp: g_def)
  note D = hq_invD [OF g(1)]
  let ?t = "ring_next (hq_size g) (hq_tail g)"
  let ?q = "g\<lparr>hq_data := (hq_data g)[hq_tail g := Some m], hq_tail := ?t\<rparr>"
  have t: "(hq_tail g + 1) mod hq_size g = ?t" using ring_next_mod [OF D(3)] by simp
  have "hq_cells ?q = map Some (hq_contents g @ [m])"
    using ring_store [OF D(2,3,4), of "Some m"] ring_len_next_tail [OF D(2,3) g(3)] D(5)
    by (simp add: hq_cells_def)
  then have "hq_inv ?q" "hq_contents ?q = hq_contents g @ [m]"
    by (intro hq_invI [where xs = "hq_contents g @ [m]"]; use D in simp)+
  then show ?thesis using g(2) t D(3,4) by (simp add: push_queue_msg_def g_def [symmetric] Let_def del: One_nat_def)
qed

interpretation harbor_queue: fifo hq_inv hq_contents push_queue_msg pop_queue
proof
  fix q and m :: harbor_msg and ms
  assume q: "hq_inv q"
  show "\<exists>q'. push_queue_msg m q = Some q' \<and> hq_inv q' \<and> hq_contents q' = hq_contents q @ [m]"
    by (rule push_queue_msg_snoc [OF q])
  show "\<exists>q'. pop_queue q = Some (q', None) \<and> hq_inv q' \<and> hq_contents q' = []" if "hq_contents q = []"
    using q that hq_contents_Nil [OF q] by (simp add: pop_queue_def)
  show "\<exists>q'. pop_queue q = Some (q', Some m) \<and> hq_inv q' \<and> hq_contents q' = ms" if "hq_contents q = m # ms"
    by (rule pop_queue_cons [OF q that])
qed

text \<open>A loop over a queue is a fold over its contents, and empties it.\<close>

fun fold_opt :: "('a \<Rightarrow> 's \<Rightarrow> 's option) \<Rightarrow> 'a list \<Rightarrow> 's \<Rightarrow> 's option" where
  "fold_opt f [] s = Some s"
| "fold_opt f (x # xs) s = do { s \<leftarrow> f x s; fold_opt f xs s }"

lemma while_pop_fold:
  assumes "hq_inv q" "fold_opt f (hq_contents q) st = Some st'"
  shows "\<exists>q'. while_pop f q st = Some (st', q') \<and> hq_inv q' \<and> hq_contents q' = []"
  using assms
proof (induction "hq_contents q" arbitrary: q st)
  case Nil
  from harbor_queue.deq_empty [OF Nil.prems(1) Nil.hyps [symmetric]] obtain q' where
    "pop_queue q = Some (q', None)" "hq_inv q'" "hq_contents q' = []" by blast
  with Nil show ?case by (subst while_pop.simps) simp
next
  case (Cons m ms)
  from harbor_queue.deq_cons [OF Cons.prems(1) Cons.hyps(2) [symmetric]] obtain q' where
    q': "pop_queue q = Some (q', Some m)" "hq_inv q'" "hq_contents q' = ms" by blast
  from Cons.prems(2) obtain s where s: "f m st = Some s" "fold_opt f ms s = Some st'"
    by (auto simp: Cons.hyps(2) [symmetric] bind_eq_Some_conv)
  from Cons.hyps(1) [of q' s] q' s obtain q'' where
    "while_pop f q' s = Some (st', q'')" "hq_inv q''" "hq_contents q'' = []" by auto
  with q' s show ?case by (subst while_pop.simps) simp
qed

lemma emit_fold: "fold_opt (\<lambda>m out. Some (out @ g m)) ms acc = Some (acc @ concat (map g ms))"
  by (induction ms arbitrary: acc) auto

lemma emit_each_ok:
  assumes "hq_inv q"
  obtains q' where "emit_each g q = Some (concat (map g (hq_contents q)), q')" "hq_inv q'" "hq_contents q' = []"
  using while_pop_fold [OF assms, of "\<lambda>m out. Some (out @ g m)" "[]"] emit_fold [of g "hq_contents q" "[]"] that
  by (auto simp: emit_each_def)

definition opt_inv :: "harbor_msg_queue option \<Rightarrow> bool" where
  "opt_inv q \<longleftrightarrow> (case q of None \<Rightarrow> True | Some q \<Rightarrow> hq_inv q)"

definition opt_contents :: "harbor_msg_queue option \<Rightarrow> harbor_msg list" where
  "opt_contents q = (case q of None \<Rightarrow> [] | Some q \<Rightarrow> hq_contents q)"

lemma opt_simps [simp]: "opt_inv None" "opt_contents None = []" "opt_inv (Some q) = hq_inv q" "opt_contents (Some q) = hq_contents q"
  by (simp_all add: opt_inv_def opt_contents_def)

lemma release_queue_ok:
  "opt_inv q \<Longrightarrow> release_queue q = Some (map (\<lambda>m. Freed (hm_buffer m)) (opt_contents q))"
proof (cases q)
  case (Some p)
  moreover assume "opt_inv q"
  ultimately have "hq_inv p" by simp
  from emit_each_ok [OF this, of "\<lambda>m. [Freed (hm_buffer m)]"] obtain p' where
    "emit_each (\<lambda>m. [Freed (hm_buffer m)]) p = Some (concat (map (\<lambda>m. [Freed (hm_buffer m)]) (hq_contents p)), p')" by metis
  with Some show ?thesis by (simp add: release_queue_def concat_map_singleton)
qed (simp add: release_queue_def)

lemma release_empty: "hq_inv q \<Longrightarrow> hq_contents q = [] \<Longrightarrow> release_queue (Some q) = Some []"
  by (simp add: release_queue_ok)

lemma push_all:
  "hq_inv q \<Longrightarrow> \<exists>q'. fold_opt push_queue_msg ms q = Some q' \<and> hq_inv q' \<and> hq_contents q' = hq_contents q @ ms"
proof (induction ms arbitrary: q)
  case (Cons m ms)
  from push_queue_msg_snoc [OF Cons.prems, of m] obtain q1 where
    q1: "push_queue_msg m q = Some q1" "hq_inv q1" "hq_contents q1 = hq_contents q @ [m]" by blast
  from Cons.IH [OF q1(2)] q1 show ?case by auto
qed simp

section \<open>The format of a message\<close>

lemma le_bytes_u32: "length bs = 4 \<Longrightarrow> le_bytes 4 (unat (of_nat (un_le bs) :: u32)) = bs"
proof -
  assume l: "length bs = 4"
  then have "un_le bs < 2 ^ 32" using un_le_less [of bs] by simp
  then have "unat (of_nat (un_le bs) :: u32) = un_le bs" by (simp add: unat_of_nat take_bit_eq_mod)
  then show ?thesis using le_bytes_un_le [of bs] l by simp
qed

lemma from_bigendian_at:
  "from_bigendian (u32_at (xs @ [a, b, c, d] @ ys) (length xs)) =
     push_bit 24 (ucast a) OR push_bit 16 (ucast b) OR push_bit 8 (ucast c) OR ucast d"
  unfolding from_bigendian_def u32_at_def Let_def
  by (simp add: le_bytes_u32 del: un_le.simps)

lemma four_bytes:
  "push_bit 24 (ucast (ucast (drop_bit 24 n AND 0xff) :: u8)) OR push_bit 16 (ucast (ucast (drop_bit 16 n AND 0xff) :: u8))
     OR push_bit 8 (ucast (ucast (drop_bit 8 n AND 0xff) :: u8)) OR ucast (ucast (n AND 0xff) :: u8) = (n :: u32)"
proof (rule bit_word_eqI)
  have m: "(0xff :: u32) = mask 8" by (simp add: mask_eq_exp_minus_1)
  fix i assume "i < LENGTH(32)"
  then have i: "i < 32" by simp
  then consider "i < 8" | "8 \<le> i" "i < 16" | "16 \<le> i" "i < 24" | "24 \<le> i" by linarith
  then show "bit (push_bit 24 (ucast (ucast (drop_bit 24 n AND 0xff) :: u8) :: u32) OR push_bit 16 (ucast (ucast (drop_bit 16 n AND 0xff) :: u8))
     OR push_bit 8 (ucast (ucast (drop_bit 8 n AND 0xff) :: u8)) OR ucast (ucast (n AND 0xff) :: u8)) i = bit n i"
    using i by cases (auto simp: m bit_simps)
qed

lemma length_to_bigendian [simp]: "length (to_bigendian n) = 4"
  by (simp add: to_bigendian_def)

lemma length_header_to_message [simp]: "length (header_to_message hdr) = 12"
  by (simp add: header_to_message_def)

lemma from_to_bigendian: "from_bigendian (u32_at (xs @ to_bigendian n @ ys) (length xs)) = n"
  unfolding to_bigendian_def from_bigendian_at by (rule four_bytes)

lemma message_to_header_to_message: "message_to_header (header_to_message hdr) = hdr"
  using from_to_bigendian [of "[]" "rh_source hdr" "to_bigendian (rh_destination hdr) @ to_bigendian (rh_session hdr)"]
    from_to_bigendian [of "to_bigendian (rh_source hdr)" "rh_destination hdr" "to_bigendian (rh_session hdr)"]
    from_to_bigendian [of "to_bigendian (rh_source hdr) @ to_bigendian (rh_destination hdr)" "rh_session hdr" "[]"]
  by (simp add: message_to_header_def header_to_message_def)

text \<open>The frame at the head of a stream.\<close>

datatype wire = WMore | WBad | WFrame bytes bytes

definition wire_len :: "bytes \<Rightarrow> nat" where
  "wire_len sz = unat (push_bit 16 (ucast (sz ! 1)) OR push_bit 8 (ucast (sz ! 2)) OR ucast (sz ! 3) :: u32)"

definition next_wire :: "bytes \<Rightarrow> wire" where
  "next_wire bs =
     (if length bs < 4 then WMore
      else if bs ! 0 \<noteq> 0 \<or> wire_len bs < HEADER_COOKIE_LENGTH then WBad
      else if length bs - 4 < wire_len bs then WMore
      else WFrame (take (wire_len bs) (drop 4 bs)) (drop (4 + wire_len bs) bs))"

function wire_frames :: "bytes \<Rightarrow> bytes list \<times> bytes option" where
  "wire_frames bs =
     (case next_wire bs of
        WMore \<Rightarrow> ([], Some bs)
      | WBad \<Rightarrow> ([], None)
      | WFrame m r \<Rightarrow> (let (fs, t) = wire_frames r in (m # fs, t)))"
  by pat_completeness auto
termination by (relation "measure length") (auto simp: next_wire_def split: if_splits)

declare wire_frames.simps [simp del]

lemma wire_len_cong: "4 \<le> length a \<Longrightarrow> wire_len (a @ b) = wire_len a" "4 \<le> length a \<Longrightarrow> wire_len (take 4 a) = wire_len a"
  by (simp_all add: wire_len_def nth_append)

lemma next_wire_append:
  "next_wire a = WFrame m r \<Longrightarrow> next_wire (a @ b) = WFrame m (r @ b)"
  "next_wire a = WBad \<Longrightarrow> next_wire (a @ b) = WBad"
  by (auto simp: next_wire_def wire_len_cong nth_append split: if_splits)

lemma next_wire_shorter: "next_wire a = WFrame m r \<Longrightarrow> length r < length a"
  by (auto simp: next_wire_def split: if_splits)

lemma wire_frames_append:
  "wire_frames (a @ b) = (case wire_frames a of
      (fs, None) \<Rightarrow> (fs, None)
    | (fs, Some r) \<Rightarrow> (let (fs', t) = wire_frames (r @ b) in (fs @ fs', t)))"
proof (induction "length a" arbitrary: a rule: less_induct)
  case less
  show ?case
  proof (cases "next_wire a")
    case WMore
    then show ?thesis by (simp add: wire_frames.simps [of a] split: prod.splits)
  next
    case WBad
    then show ?thesis using next_wire_append(2) by (simp add: wire_frames.simps [of a] wire_frames.simps [of "a @ b"])
  next
    case (WFrame m r)
    from less [OF next_wire_shorter [OF this]] show ?thesis
      using WFrame next_wire_append(1) [OF WFrame, of b]
      by (simp add: wire_frames.simps [of a] wire_frames.simps [of "a @ b"] split: prod.splits option.splits)
  qed
qed

lemma wire_frames_rest: "wire_frames bs = (fs, Some r) \<Longrightarrow> wire_frames r = ([], Some r)"
proof (induction "length bs" arbitrary: bs fs rule: less_induct)
  case less
  show ?case
  proof (cases "next_wire bs")
    case (WFrame m t)
    with less.prems obtain fs' where "wire_frames t = (fs', Some r)"
      by (auto simp: wire_frames.simps [of bs] split: prod.splits)
    from less.hyps [OF next_wire_shorter [OF WFrame] this] show ?thesis .
  next
    case WMore
    with less.prems have "bs = r" by (simp add: wire_frames.simps [of bs])
    with WMore show ?thesis by (simp add: wire_frames.simps [of r])
  qed (use less.prems in \<open>simp add: wire_frames.simps [of bs]\<close>)
qed

text \<open>What \<open>send_remote\<close> writes is one such frame.\<close>

definition wire_of :: "bytes \<Rightarrow> remote_message_header \<Rightarrow> bytes" where
  "wire_of buffer hdr = to_bigendian (of_nat (length buffer + HEADER_COOKIE_LENGTH)) @ buffer @ header_to_message hdr"

lemma send_remote_wire:
  "length buffer + HEADER_COOKIE_LENGTH < 2 ^ 32 \<Longrightarrow> send_remote fd buffer hdr = [SocketSend fd (wire_of buffer hdr)]"
  by (simp add: send_remote_def wire_of_def Let_def)

lemma to_bigendian_len:
  assumes "n < 2 ^ 24"
  shows "to_bigendian (of_nat n) ! 0 = 0" "wire_len (to_bigendian (of_nat n) @ bs) = n"
proof -
  define w :: u32 where "w = of_nat n"
  have w: "unat w = n" using assms by (simp add: w_def unat_of_nat take_bit_eq_mod)
  have "drop_bit 24 w = 0"
    using assms w by (intro word_unat_eq_iff [THEN iffD2]) (simp add: drop_bit_eq_div unat_div_distrib)
  then show "to_bigendian (of_nat n) ! 0 = 0" by (simp add: to_bigendian_def flip: w_def)
  from four_bytes [of w] \<open>drop_bit 24 w = 0\<close>
  have "push_bit 16 (ucast (ucast (drop_bit 16 w AND 0xff) :: u8)) OR push_bit 8 (ucast (ucast (drop_bit 8 w AND 0xff) :: u8))
     OR ucast (ucast (w AND 0xff) :: u8) = w" by simp
  then show "wire_len (to_bigendian (of_nat n) @ bs) = n"
    unfolding wire_len_def to_bigendian_def w_def [symmetric] using w by simp
qed

lemma next_wire_of:
  assumes "length buffer + HEADER_COOKIE_LENGTH < 2 ^ 24"
  shows "next_wire (wire_of buffer hdr @ rest) = WFrame (buffer @ header_to_message hdr) rest"
proof -
  define L where "L = to_bigendian (of_nat (length buffer + HEADER_COOKIE_LENGTH))"
  have L: "length L = 4" "L ! 0 = 0" "wire_len (L @ bs) = length buffer + HEADER_COOKIE_LENGTH" for bs
    using to_bigendian_len [OF assms] by (simp_all add: L_def)
  show ?thesis
    using L unfolding next_wire_def wire_of_def L_def [symmetric]
    by (simp add: nth_append HEADER_COOKIE_LENGTH_def)
qed

section \<open>Framing\<close>

definition forwarded :: "(harbor_out \<Rightarrow> int) \<Rightarrow> int \<Rightarrow> bytes \<Rightarrow> harbor_out list" where
  "forwarded ret me msg = the (forward_local ret msg (harbor_create\<lparr>hb_id := me\<rparr>))"

lemma forward_local_Some:
  "HEADER_COOKIE_LENGTH \<le> length msg \<Longrightarrow> forward_local ret msg h = Some (forwarded ret (hb_id h) msg)"
  by (simp add: forwarded_def forward_local_def Let_def)

text \<open>The bytes of the stream that a connection has read and not forwarded.\<close>

definition stream_of :: "slave \<Rightarrow> bytes \<Rightarrow> bool" where
  "stream_of s bs \<longleftrightarrow> length (sl_size s) = 4 \<and>
     (if sl_status s = STATUS_HEADER then sl_read s < 4 \<and> take (sl_read s) (sl_size s) = bs
      else sl_status s = STATUS_CONTENT \<and> sl_size s ! 0 = 0 \<and> sl_length s = wire_len (sl_size s)
        \<and> HEADER_COOKIE_LENGTH \<le> sl_length s \<and> length (sl_recv_buffer s) = sl_length s
        \<and> (\<exists>p. bs = sl_size s @ p \<and> length p = sl_read s \<and> sl_read s < sl_length s
             \<and> take (sl_read s) (sl_recv_buffer s) = map Some p))"

definition same_conn :: "slave \<Rightarrow> slave \<Rightarrow> bool" where
  "same_conn s t \<longleftrightarrow> sl_fd s = sl_fd t \<and> sl_queue s = sl_queue t"

lemma those_Some [simp]: "those (map Some xs) = Some xs"
  by (induction xs) auto

lemma put_slave_simps [simp]:
  "length (hb_s (put_slave i s h)) = length (hb_s h)" "hb_id (put_slave i s h) = hb_id h"
  "hb_map (put_slave i s h) = hb_map h" "hb_slave (put_slave i s h) = hb_slave h"
  "put_slave i s (put_slave i t h) = put_slave i s h"
  "i < length (hb_s h) \<Longrightarrow> hb_s (put_slave i s h) ! i = s"
  "hb_s (put_slave i s h) = (hb_s h)[i := s]"
  by (simp_all add: put_slave_def)

lemma recv_content_ok:
  assumes h: "rid < length (hb_s h)" "hb_s h ! rid = s" and c: "sl_status s = STATUS_CONTENT" and st: "stream_of s bs"
    and d: "data \<noteq> []"
  shows "\<exists>s'. same_conn s' s \<and> (case next_wire (bs @ data) of
      WBad \<Rightarrow> False
    | WMore \<Rightarrow> recv_content ret rid data h = Some (None, [], put_slave rid s' h) \<and> stream_of s' (bs @ data)
    | WFrame m r \<Rightarrow> recv_content ret rid data h =
        Some (if r = [] then None else Some r, forwarded ret (hb_id h) m, put_slave rid s' h) \<and> stream_of s' [] \<and> length r < length data)"
proof -
  from st c obtain p where p: "length (sl_size s) = 4" "sl_size s ! 0 = 0" "sl_length s = wire_len (sl_size s)"
    "HEADER_COOKIE_LENGTH \<le> sl_length s" "length (sl_recv_buffer s) = sl_length s" "bs = sl_size s @ p"
    "length p = sl_read s" "sl_read s < sl_length s" "take (sl_read s) (sl_recv_buffer s) = map Some p"
    by (auto simp: stream_of_def STATUS_HEADER_def STATUS_CONTENT_def)
  have wl: "wire_len (bs @ data) = sl_length s" "(bs @ data) ! 0 = 0"
    using p by (simp_all add: wire_len_cong nth_append)
  show ?thesis
  proof (cases "length data < sl_length s - sl_read s")
    case True
    have nw: "next_wire (bs @ data) = WMore" using True wl p by (simp add: next_wire_def)
    let ?recv = "map Some p @ map Some data @ drop (sl_read s + length data) (sl_recv_buffer s)"
    let ?s = "s\<lparr>sl_recv_buffer := ?recv, sl_read := sl_read s + length data\<rparr>"
    have "copy_at (sl_read s) (map Some data) (sl_recv_buffer s) = Some ?recv"
      using True p by (simp add: copy_at_def)
    then have "recv_content ret rid data h = Some (None, [], put_slave rid ?s h)"
      using h True p(8) by (simp add: recv_content_def)
    moreover have "stream_of ?s (bs @ data)"
      using p True c by (simp add: stream_of_def STATUS_CONTENT_def STATUS_HEADER_def)
    moreover have "same_conn ?s s" by (simp add: same_conn_def)
    ultimately show ?thesis using nw by (intro exI [of _ ?s]) simp
  next
    case False
    define need where "need = sl_length s - sl_read s"
    define m where "m = p @ take need data"
    have len: "length m = sl_length s" using False p by (simp add: m_def need_def)
    have nw: "next_wire (bs @ data) = WFrame m (drop need data)"
      using False wl p by (simp add: next_wire_def m_def need_def add.commute)
    have recv: "copy_at (sl_read s) (map Some (take need data)) (sl_recv_buffer s) = Some (map Some m)"
      using False p by (simp add: copy_at_def m_def need_def)
    let ?s = "s\<lparr>sl_length := 0, sl_read := 0, sl_recv_buffer := [], sl_status := STATUS_HEADER\<rparr>"
    have "recv_content ret rid data h =
        Some (if drop need data = [] then None else Some (drop need data), forwarded ret (hb_id h) m, put_slave rid ?s h)"
      using h False p(4,8) recv len forward_local_Some [of m ret h]
      by (simp add: recv_content_def need_def [symmetric] Let_def)
    moreover have "stream_of ?s []" using p(1) by (simp add: stream_of_def)
    moreover have "same_conn ?s s" by (simp add: same_conn_def)
    moreover have "0 < need" using p(8) by (simp add: need_def)
    ultimately show ?thesis using nw d by (intro exI [of _ ?s]) simp
  qed
qed

text \<open>One turn of the loop takes at most one frame from the stream.\<close>

definition turn :: "(harbor_out \<Rightarrow> int) \<Rightarrow> nat \<Rightarrow> harbor \<Rightarrow> slave \<Rightarrow> bytes \<Rightarrow> bytes
    \<Rightarrow> (bytes option \<times> harbor_out list \<times> harbor) option \<Rightarrow> bool" where
  "turn ret rid h s bs data res \<longleftrightarrow> (case next_wire (bs @ data) of
      WBad \<Rightarrow> True
    | WMore \<Rightarrow> \<exists>s'. same_conn s' s \<and> res = Some (None, [], put_slave rid s' h) \<and> stream_of s' (bs @ data)
    | WFrame m r \<Rightarrow> \<exists>s'. same_conn s' s \<and> stream_of s' [] \<and> length r < length data
        \<and> res = Some (if r = [] then None else Some r, forwarded ret (hb_id h) m, put_slave rid s' h))"

lemma turn_content:
  assumes "rid < length (hb_s h)" "hb_s h ! rid = s" "sl_status s = STATUS_CONTENT" "stream_of s bs" "data \<noteq> []"
  shows "turn ret rid h s bs data (recv_content ret rid data h)"
  using recv_content_ok [OF assms, of ret] unfolding turn_def by (auto split: wire.splits)

lemma turn_header:
  assumes h: "rid < length (hb_s h)" "hb_s h ! rid = s" and c: "sl_status s = STATUS_HEADER" and st: "stream_of s bs"
    and d: "data \<noteq> []"
  shows "turn ret rid h s bs data (recv_header ret rid data h)"
proof -
  have p: "length (sl_size s) = 4" "sl_read s < 4" "take (sl_read s) (sl_size s) = bs"
    using st c by (auto simp: stream_of_def)
  then have lb: "length bs = sl_read s" by auto
  define need where "need = 4 - sl_read s"
  show ?thesis
  proof (cases "length data < need")
    case True
    have "length (bs @ data) < 4" using True lb p(2) by (simp add: need_def less_diff_conv)
    then have nw: "next_wire (bs @ data) = WMore" by (simp add: next_wire_def del: length_append)
    let ?sz = "take (sl_read s) (sl_size s) @ data @ drop (sl_read s + length data) (sl_size s)"
    let ?s = "s\<lparr>sl_size := ?sz, sl_read := sl_read s + length data\<rparr>"
    have "copy_at (sl_read s) data (sl_size s) = Some ?sz" using True p by (simp add: copy_at_def need_def)
    then have "recv_header ret rid data h = Some (None, [], put_slave rid ?s h)"
      using h True p(2) by (simp add: recv_header_def need_def)
    moreover have "stream_of ?s (bs @ data)"
      using p True lb c by (simp add: stream_of_def need_def)
    moreover have "same_conn ?s s" by (simp add: same_conn_def)
    ultimately show ?thesis using nw unfolding turn_def by auto
  next
    case False
    define sz where "sz = bs @ take need data"
    define rest where "rest = drop need data"
    have sz: "length sz = 4" "bs @ data = sz @ rest" using False lb p(2) by (auto simp: sz_def need_def rest_def)
    have copy: "copy_at (sl_read s) (take need data) (sl_size s) = Some sz"
      using False p by (simp add: copy_at_def sz_def need_def)
    have len: "unat (push_bit 16 (ucast (sz ! Suc 0)) OR push_bit 8 (ucast (sz ! 2)) OR ucast (sz ! 3) :: u32) = wire_len sz"
      by (simp add: wire_len_def)
    have at0: "(bs @ data) ! 0 = sz ! 0" "wire_len (bs @ data) = wire_len sz"
      using sz by (simp_all add: nth_append wire_len_cong)
    show ?thesis
    proof (cases "sz ! 0 \<noteq> 0 \<or> wire_len sz < HEADER_COOKIE_LENGTH")
      case True
      then have "next_wire (bs @ data) = WBad" using sz at0 by (simp add: next_wire_def)
      then show ?thesis by (simp add: turn_def)
    next
      case ok: False
      let ?s = "s\<lparr>sl_size := sz, sl_length := wire_len sz, sl_read := 0, sl_recv_buffer := replicate (wire_len sz) None,
           sl_status := STATUS_CONTENT\<rparr>"
      let ?h = "put_slave rid ?s h"
      have hdr: "recv_header ret rid data h = (if rest = [] then Some (None, [], ?h) else recv_content ret rid rest ?h)"
        using h False p(2) ok copy by (simp add: recv_header_def need_def [symmetric] rest_def [symmetric] len Let_def)
      have st': "stream_of ?s sz" "sl_status ?s = STATUS_CONTENT"
        using sz(1) ok by (auto simp: stream_of_def STATUS_HEADER_def STATUS_CONTENT_def HEADER_COOKIE_LENGTH_def)
      have conn: "same_conn ?s s" by (simp add: same_conn_def)
      have more: "length rest \<le> length data" by (simp add: rest_def)
      show ?thesis
      proof (cases "rest = []")
        case True
        then have "next_wire (bs @ data) = WMore"
          using sz at0 ok by (simp add: next_wire_def HEADER_COOKIE_LENGTH_def)
        moreover have "recv_header ret rid data h = Some (None, [], ?h)" "stream_of ?s (bs @ data)"
          using hdr st' True sz(2) by simp_all
        ultimately show ?thesis using conn by (simp only: turn_def wire.case) blast
      next
        case ne: False
        have "turn ret rid ?h ?s sz rest (recv_content ret rid rest ?h)"
          by (rule turn_content) (use h st' ne in simp_all)
        then show ?thesis
          using hdr ne conn more sz(2) unfolding turn_def
          by (auto simp: same_conn_def split: wire.splits intro: less_le_trans)
      qed
    qed
  qed
qed

lemma turn_step:
  assumes "rid < length (hb_s h)" "hb_s h ! rid = s" "stream_of s bs" "data \<noteq> []"
  shows "turn ret rid h s bs data (recv_step ret rid data h)"
proof -
  have "sl_status s = STATUS_HEADER \<or> sl_status s = STATUS_CONTENT"
    using assms(3) by (auto simp: stream_of_def split: if_splits)
  then show ?thesis
  proof
    assume c: "sl_status s = STATUS_HEADER"
    then have "recv_step ret rid data h = recv_header ret rid data h"
      using assms(1,2) by (simp add: recv_step_def STATUS_HEADER_def STATUS_HANDSHAKE_def)
    with turn_header [OF assms(1,2) c assms(3,4)] show ?thesis by simp
  next
    assume c: "sl_status s = STATUS_CONTENT"
    then have "recv_step ret rid data h = recv_content ret rid data h"
      using assms(1,2) by (simp add: recv_step_def STATUS_HEADER_def STATUS_HANDSHAKE_def STATUS_CONTENT_def)
    with turn_content [OF assms(1,2) c assms(3,4)] show ?thesis by simp
  qed
qed

lemma same_conn_trans: "same_conn a b \<Longrightarrow> same_conn b c \<Longrightarrow> same_conn a c"
  by (simp add: same_conn_def)

lemma recv_loop_frames:
  "rid < length (hb_s h) \<Longrightarrow> hb_s h ! rid = s \<Longrightarrow> stream_of s bs \<Longrightarrow> data \<noteq> [] \<Longrightarrow> wire_frames (bs @ data) = (fs, Some r) \<Longrightarrow>
   \<exists>s'. recv_loop ret rid data h = Some (concat (map (forwarded ret (hb_id h)) fs), put_slave rid s' h)
     \<and> stream_of s' r \<and> same_conn s' s"
proof (induction "length data" arbitrary: data bs h s fs rule: less_induct)
  case less
  note P = less.prems
  have T: "turn ret rid h s bs data (recv_step ret rid data h)" by (rule turn_step [OF P(1-4)])
  show ?case
  proof (cases "next_wire (bs @ data)")
    case WMore
    with P(5) have "fs = []" "r = bs @ data" by (simp_all add: wire_frames.simps [of "bs @ data"])
    with T WMore show ?thesis by (subst recv_loop.simps) (auto simp: turn_def)
  next
    case WBad
    with P(5) show ?thesis by (simp add: wire_frames.simps [of "bs @ data"])
  next
    case (WFrame m t)
    with T obtain s1 where s1: "same_conn s1 s" "stream_of s1 []" "length t < length data"
      "recv_step ret rid data h = Some (if t = [] then None else Some t, forwarded ret (hb_id h) m, put_slave rid s1 h)"
      by (auto simp: turn_def)
    from WFrame P(5) obtain gs where gs: "wire_frames t = (gs, Some r)" "fs = m # gs"
      by (auto simp: wire_frames.simps [of "bs @ data"] split: prod.splits)
    show ?thesis
    proof (cases "t = []")
      case True
      then have "gs = []" "r = []" using gs(1) by (simp_all add: wire_frames.simps [of "[]"] next_wire_def)
      with s1 gs(2) True show ?thesis by (subst recv_loop.simps) auto
    next
      case False
      have "\<exists>s'. recv_loop ret rid t (put_slave rid s1 h) = Some (concat (map (forwarded ret (hb_id (put_slave rid s1 h))) gs),
            put_slave rid s' (put_slave rid s1 h)) \<and> stream_of s' r \<and> same_conn s' s1"
        by (rule less.hyps [OF s1(3) _ _ s1(2)]) (use P(1) False gs(1) in simp_all)
      then obtain s' where "recv_loop ret rid t (put_slave rid s1 h) = Some (concat (map (forwarded ret (hb_id h)) gs), put_slave rid s' h)"
        "stream_of s' r" "same_conn s' s1" by (auto simp del: put_slave_simps(7))
      with s1 gs(2) False same_conn_trans show ?thesis by (subst recv_loop.simps) auto
    qed
  qed
qed

text \<open>Peer \<open>rid\<close> is the one with socket \<open>fd\<close>.\<close>

definition peer_of :: "harbor \<Rightarrow> nat \<Rightarrow> int \<Rightarrow> bool" where
  "peer_of h rid fd \<longleftrightarrow> length (hb_s h) = REMOTE_MAX \<and> 0 < rid \<and> rid < REMOTE_MAX \<and> sl_fd (hb_s h ! rid) = fd
     \<and> (\<forall>j. 0 < j \<longrightarrow> j < rid \<longrightarrow> sl_fd (hb_s h ! j) \<noteq> fd)"

lemma harbor_id_peer:
  assumes "peer_of h rid fd"
  shows "harbor_id fd h = rid"
proof -
  have "[1..<REMOTE_MAX] = [1..<rid] @ rid # [Suc rid..<REMOTE_MAX]"
    using assms upt_add_eq_append [of 1 rid "REMOTE_MAX - rid"] by (simp add: peer_of_def upt_conv_Cons)
  moreover have "filter (\<lambda>i. sl_fd (hb_s h ! i) = fd) [1..<rid] = []"
    using assms by (auto simp: peer_of_def filter_empty_conv)
  ultimately show ?thesis using assms by (simp add: harbor_id_def peer_of_def)
qed

lemma peer_of_put: "peer_of h rid fd \<Longrightarrow> same_conn s (hb_s h ! rid) \<Longrightarrow> peer_of (put_slave rid s h) rid fd"
  by (auto simp: peer_of_def same_conn_def)

definition socket_data :: "int \<Rightarrow> bytes \<Rightarrow> socket_message" where
  "socket_data fd data = \<lparr>sm_type = SOCKET_TYPE_DATA, sm_id = fd, sm_ud = int (length data), sm_buffer = data, sm_extra = []\<rparr>"

fun feed_chunks :: "(harbor_out \<Rightarrow> int) \<Rightarrow> int \<Rightarrow> bytes list \<Rightarrow> harbor \<Rightarrow> (harbor_out list \<times> harbor) option" where
  "feed_chunks ret fd [] h = Some ([], h)"
| "feed_chunks ret fd (c # cs) h = do {
     (out, h) \<leftarrow> push_socket_data ret (socket_data fd c) h;
     (out', h) \<leftarrow> feed_chunks ret fd cs h;
     Some (out @ out', h) }"

lemma feed_wires:
  "peer_of h rid fd \<Longrightarrow> stream_of (hb_s h ! rid) bs \<Longrightarrow> [] \<notin> set cs \<Longrightarrow> wire_frames (bs @ concat cs) = (fs, Some r) \<Longrightarrow>
   wire_frames bs = ([], Some bs) \<Longrightarrow>
   \<exists>s'. feed_chunks ret fd cs h = Some (concat (map (forwarded ret (hb_id h)) fs), put_slave rid s' h)
     \<and> stream_of s' r \<and> same_conn s' (hb_s h ! rid)"
proof (induction cs arbitrary: h bs fs)
  case Nil
  have "put_slave rid (hb_s h ! rid) h = h" by (simp add: put_slave_def)
  with Nil show ?case by (intro exI [of _ "hb_s h ! rid"]) (simp add: same_conn_def del: put_slave_simps)
next
  case (Cons c cs)
  note P = Cons.prems
  have app: "wire_frames ((bs @ c) @ concat cs) = (fs, Some r)" using P(4) by simp
  obtain f1 r1 f2 where f: "wire_frames (bs @ c) = (f1, Some r1)" "wire_frames (r1 @ concat cs) = (f2, Some r)" "fs = f1 @ f2"
    using app unfolding wire_frames_append [of "bs @ c"] by (auto split: prod.splits option.splits)
  have rid: "rid < length (hb_s h)" using P(1) by (simp add: peer_of_def)
  from recv_loop_frames [OF rid refl P(2) _ f(1), of ret] P(3) obtain s1 where
    s1: "recv_loop ret rid c h = Some (concat (map (forwarded ret (hb_id h)) f1), put_slave rid s1 h)"
      "stream_of s1 r1" "same_conn s1 (hb_s h ! rid)" by auto
  have push: "push_socket_data ret (socket_data fd c) h = Some (concat (map (forwarded ret (hb_id h)) f1), put_slave rid s1 h)"
    using s1(1) harbor_id_peer [OF P(1)] P(1) by (simp add: push_socket_data_def socket_data_def peer_of_def)
  let ?h = "put_slave rid s1 h"
  have "\<exists>s'. feed_chunks ret fd cs ?h = Some (concat (map (forwarded ret (hb_id ?h)) f2), put_slave rid s' ?h)
     \<and> stream_of s' r \<and> same_conn s' (hb_s ?h ! rid)"
    by (rule Cons.IH [OF peer_of_put [OF P(1) s1(3)]])
      (use s1(2) rid P(3) f(2) wire_frames_rest [OF f(1)] in simp_all)
  then obtain s' where "feed_chunks ret fd cs ?h = Some (concat (map (forwarded ret (hb_id h)) f2), put_slave rid s' h)"
    "stream_of s' r" "same_conn s' s1" using rid by (auto simp del: put_slave_simps(7))
  with push f(3) s1(3) same_conn_trans show ?case by auto
qed

section \<open>From one node to another\<close>

record outgoing =
  og_source :: u32
  og_destination :: u32
  og_type :: u32
  og_session :: u32
  og_data :: bytes

text \<open>The message a local service sends, as the framework hands it to the harbor service.\<close>

definition submit :: "(harbor_out \<Rightarrow> int) \<Rightarrow> outgoing \<Rightarrow> harbor \<Rightarrow> (harbor_out list \<times> harbor) option" where
  "submit ret m h = mainloop ret PTYPE_SYSTEM (og_session m) (og_source m)
     (RemoteMessage (Remote \<lparr>rn_name = [], rn_handle = og_destination m\<rparr> (Some (Bytes (og_data m)))
        (of_nat (length (og_data m))) (og_type m))) h"

fun submit_all :: "(harbor_out \<Rightarrow> int) \<Rightarrow> outgoing list \<Rightarrow> harbor \<Rightarrow> (harbor_out list \<times> harbor) option" where
  "submit_all ret [] h = Some ([], h)"
| "submit_all ret (m # ms) h = do {
     (out, h) \<leftarrow> submit ret m h;
     (out', h) \<leftarrow> submit_all ret ms h;
     Some (out @ out', h) }"

definition cookie :: "outgoing \<Rightarrow> remote_message_header" where
  "cookie m = \<lparr>rh_source = og_source m,
     rh_destination = push_bit HANDLE_REMOTE_SHIFT (og_type m) OR (og_destination m AND HANDLE_MASK), rh_session = og_session m\<rparr>"

text \<open>A message for a service of node \<open>rid\<close> that fits into a frame.\<close>

definition sendable :: "nat \<Rightarrow> outgoing \<Rightarrow> bool" where
  "sendable rid m \<longleftrightarrow> og_destination m \<noteq> 0 \<and> unat (drop_bit HANDLE_REMOTE_SHIFT (og_destination m)) = rid \<and> og_type m < 256
     \<and> length (og_data m) + HEADER_COOKIE_LENGTH < 2 ^ 24"

definition delivered :: "(harbor_out \<Rightarrow> int) \<Rightarrow> outgoing \<Rightarrow> harbor_out list" where
  "delivered ret m =
     (let send = SkynetSend (og_source m) (og_destination m) (og_type m OR PTYPE_TAG_DONTCOPY) (og_session m) (Some (og_data m)) in
      if ret send < 0
      then send # (if og_type m \<noteq> PTYPE_ERROR then [SkynetSend (og_destination m) (og_source m) PTYPE_ERROR (og_session m) None] else [])
        @ [HarborError]
      else [send])"

definition sent_on :: "int \<Rightarrow> harbor_out list \<Rightarrow> bytes" where
  "sent_on fd outs = concat (map (\<lambda>r. case r of SocketSend f b \<Rightarrow> if f = fd then b else [] | _ \<Rightarrow> []) outs)"

definition connected :: "harbor \<Rightarrow> nat \<Rightarrow> int \<Rightarrow> bool" where
  "connected h rid fd \<longleftrightarrow> length (hb_s h) = REMOTE_MAX \<and> rid < REMOTE_MAX \<and> sl_fd (hb_s h ! rid) = fd \<and> fd \<noteq> 0
     \<and> sl_status (hb_s h ! rid) \<noteq> STATUS_HANDSHAKE \<and> hb_id h \<noteq> int rid"

lemma mask24: "HANDLE_MASK = mask 24"
  by (simp add: HANDLE_MASK_def mask_eq_exp_minus_1)

lemma bit_small: "(ty :: u32) < 256 \<Longrightarrow> bit ty n \<Longrightarrow> n < 8"
proof (rule ccontr)
  assume "ty < 256" "bit ty n" "\<not> n < 8"
  have "take_bit 8 ty = ty" using \<open>ty < 256\<close> by (simp add: word_unat_eq_iff take_bit_eq_mod word_less_nat_alt unat_mod_distrib)
  with \<open>bit ty n\<close> have "bit (take_bit 8 ty) n" by simp
  with \<open>\<not> n < 8\<close> show False by (simp add: bit_take_bit_iff)
qed

lemma destination_parts:
  assumes "(ty :: u32) < 256"
  shows "drop_bit 24 (push_bit 24 ty OR (d AND mask 24)) = ty"
    "(push_bit 24 ty OR (d AND mask 24)) AND mask 24 = d AND mask 24"
  by (rule bit_word_eqI; use bit_small [OF assms] in \<open>auto simp: bit_simps\<close>)+

lemma destination_join: "(d AND mask 24) OR push_bit 24 (drop_bit 24 d) = (d :: u32)"
proof (rule bit_word_eqI)
  fix i assume "i < LENGTH(32)"
  then show "bit ((d AND mask 24) OR push_bit 24 (drop_bit 24 d)) i = bit d i"
    by (cases "i < 24") (auto simp: bit_simps)
qed

lemma block_whole: "length b < 2 ^ 64 \<Longrightarrow> block (Some (Bytes b)) (of_nat (length b)) = Some b"
  by (simp add: block_def unat_of_nat take_bit_eq_mod)

lemma submit_simps:
  assumes "sendable rid m"
  shows "submit ret m h = (do {
    (kept, out, h) \<leftarrow> remote_send_handle (og_source m) (og_destination m) (og_type m) (og_session m) (og_data m) h;
    Some (if kept then out else out @ [Freed (og_data m)], h) })"
  using assms block_whole [of "og_data m"]
  by (simp add: submit_def mainloop_def PTYPE_SYSTEM_def PTYPE_SOCKET_def PTYPE_HARBOR_def remote_out_def sendable_def)

definition flushed :: "int \<Rightarrow> outgoing \<Rightarrow> harbor_out list" where
  "flushed fd m = [SocketSend fd (wire_of (og_data m) (cookie m)), Freed (og_data m)]"

lemma submit_connected:
  assumes c: "connected h rid fd" and m: "sendable rid m"
  shows "submit ret m h = Some (flushed fd m, h)"
  using c m send_remote_wire [of "og_data m"]
  by (simp add: submit_simps [OF m] remote_send_handle_def connected_def sendable_def flushed_def cookie_def Let_def)

lemma submit_all_connected:
  "connected h rid fd \<Longrightarrow> (\<And>m. m \<in> set ms \<Longrightarrow> sendable rid m) \<Longrightarrow>
   submit_all ret ms h = Some (concat (map (flushed fd) ms), h)"
proof (induction ms)
  case (Cons m ms)
  then show ?case using submit_connected [OF Cons.prems(1), of m ret] by simp
qed simp

lemma sent_flushed: "sent_on fd (concat (map (flushed fd) ms)) = concat (map (\<lambda>m. wire_of (og_data m) (cookie m)) ms)"
  by (induction ms) (simp_all add: sent_on_def flushed_def)

lemma frames_of_wires:
  "(\<And>m. m \<in> set ms \<Longrightarrow> sendable rid m) \<Longrightarrow>
   wire_frames (concat (map (\<lambda>m. wire_of (og_data m) (cookie m)) ms))
     = (map (\<lambda>m. og_data m @ header_to_message (cookie m)) ms, Some [])"
proof (induction ms)
  case Nil
  then show ?case by (simp add: wire_frames.simps [of "[]"] next_wire_def)
next
  case (Cons m ms)
  then have "length (og_data m) + HEADER_COOKIE_LENGTH < 2 ^ 24" by (simp add: sendable_def)
  from next_wire_of [OF this, of "cookie m" "concat (map (\<lambda>m. wire_of (og_data m) (cookie m)) ms)"] Cons
  show ?case by (subst wire_frames.simps) simp
qed

lemma forwarded_delivered:
  assumes m: "sendable rid m"
  shows "forwarded ret (int rid) (og_data m @ header_to_message (cookie m)) = delivered ret m"
proof -
  have r: "of_int (int rid) = drop_bit 24 (og_destination m)"
    using m by (auto simp: sendable_def HANDLE_REMOTE_SHIFT_def)
  have d: "drop_bit 24 (rh_destination (cookie m)) = og_type m"
    "rh_destination (cookie m) AND mask 24 = og_destination m AND mask 24"
    using m destination_parts [of "og_type m"]
    by (simp_all add: cookie_def sendable_def HANDLE_REMOTE_SHIFT_def mask24)
  have s: "rh_source (cookie m) = og_source m" "rh_session (cookie m) = og_session m" by (simp_all add: cookie_def)
  show ?thesis
    unfolding forwarded_def forward_local_def delivered_def Let_def
    using r d s destination_join [of "og_destination m"]
    by (simp add: message_to_header_to_message HEADER_COOKIE_LENGTH_def HANDLE_REMOTE_SHIFT_def mask24)
qed

section \<open>Messages that wait for the connection\<close>

lemma digit_ok: "48 \<le> b \<and> b \<le> 57 \<longleftrightarrow> 48 \<le> unat b \<and> unat b \<le> 57" for b :: u8
  by (simp add: word_le_nat_alt)

lemma scan_number_show:
  assumes "case rest of [] \<Rightarrow> True | b # _ \<Rightarrow> \<not> (48 \<le> b \<and> b \<le> 57)"
  shows "scan_number (show_int i @ rest) = Some (show_int i, rest)"
proof -
  have tw: "takeWhile (\<lambda>b. 48 \<le> b \<and> b \<le> 57) (show_nat n @ rest) = show_nat n" for n
    using assms show_nat_chars [of _ n] by (cases rest) (auto simp: takeWhile_append)
  obtain b bs where b: "show_nat (nat i) = b # bs" by (cases "show_nat (nat i)") auto
  have r: "48 \<le> b" "b \<le> 57" using show_nat_chars [of b "nat i"] b by auto
  have ns: "\<not> isspace b" "b \<noteq> 45" "b \<noteq> 43" using r unfolding isspace_def word_le_nat_alt by auto
  show ?thesis
  proof (cases "i < 0")
    case True
    then show ?thesis using tw [of "nat (- i)"] by (simp add: scan_number_def show_int_def isspace_def)
  next
    case False
    have tw': "takeWhile (\<lambda>b. 48 \<le> b \<and> b \<le> 57) (b # bs @ rest) = b # bs" using tw [of "nat i"] b by simp
    show ?thesis using False ns b tw' by (simp add: scan_number_def show_int_def del: takeWhile.simps)
  qed
qed

lemma scan_int_show:
  assumes "case rest of [] \<Rightarrow> True | b # _ \<Rightarrow> \<not> (48 \<le> b \<and> b \<le> 57)" "- (2 ^ 31) \<le> i" "i < 2 ^ 31"
  shows "scan_int (show_int i @ rest) = Some (i, rest)"
proof -
  have "parse_long 10 (show_int i @ []) = i" by (rule parse_show_int) simp
  then have "strtol 10 (show_int i) = i" using assms(2,3) by (simp add: strtol_def)
  moreover have "to_int i = i" using assms(2,3) by (simp add: to_int_def signed_take_bit_int_eq_self)
  ultimately show ?thesis using scan_number_show [OF assms(1)] by (simp add: scan_int_def)
qed

lemma scan_space: "scan_int (32 # s) = scan_int s"
  by (simp add: scan_int_def scan_number_def isspace_def)

lemma show_int_nonzero: "b \<in> set (show_int i) \<Longrightarrow> b \<noteq> 0"
  using show_nat_chars [of b] by (auto simp: show_int_def word_le_nat_alt split: if_splits)

text \<open>The command that gives peer \<open>rid\<close> its socket: \<open>S\<close> when this node connects, \<open>A\<close> when it accepts.\<close>

definition socket_command :: "char \<Rightarrow> int \<Rightarrow> nat \<Rightarrow> bytes" where
  "socket_command c fd rid = of_char c # 32 # show_int fd @ 32 # show_int (int rid)"

lemma scan_peer_show:
  assumes "- (2 ^ 31) \<le> fd" "fd < 2 ^ 31" "rid < REMOTE_MAX"
  shows "scan_peer (cstr (drop 2 (socket_command c fd rid))) = (fd, int rid)"
proof -
  have all: "\<forall>b \<in> set (show_int fd @ 32 # show_int (int rid)). b \<noteq> 0" using show_int_nonzero by auto
  then have c: "cstr (show_int fd @ 32 # show_int (int rid)) = show_int fd @ 32 # show_int (int rid)"
    by (simp add: cstr_def takeWhile_eq_all_conv)
  have "scan_int (show_int fd @ 32 # show_int (int rid)) = Some (fd, 32 # show_int (int rid))"
    by (rule scan_int_show) (use assms in \<open>auto simp: word_le_nat_alt\<close>)
  moreover have "scan_int (32 # show_int (int rid)) = Some (int rid, [])"
    using scan_int_show [of "[]" "int rid"] assms(3) by (simp add: scan_space REMOTE_MAX_def)
  ultimately show ?thesis using c by (simp add: scan_peer_def socket_command_def)
qed

text \<open>A peer without a socket, and the messages queued for it.\<close>

definition waiting :: "harbor \<Rightarrow> nat \<Rightarrow> harbor_msg list \<Rightarrow> bool" where
  "waiting h rid q \<longleftrightarrow> length (hb_s h) = REMOTE_MAX \<and> 0 < rid \<and> rid < REMOTE_MAX \<and> hb_id h \<noteq> int rid
     \<and> sl_fd (hb_s h ! rid) = 0 \<and> sl_status (hb_s h ! rid) = STATUS_WAIT
     \<and> sl_read (hb_s h ! rid) = 0 \<and> length (sl_size (hb_s h ! rid)) = 4
     \<and> opt_inv (sl_queue (hb_s h ! rid)) \<and> opt_contents (sl_queue (hb_s h ! rid)) = q"

definition queued_msg :: "outgoing \<Rightarrow> harbor_msg" where
  "queued_msg m = \<lparr>hm_header = cookie m, hm_buffer = og_data m\<rparr>"

lemma push_queue_ok:
  assumes "opt_inv q"
  shows "\<exists>q'. push_queue b hdr (case q of None \<Rightarrow> new_queue | Some p \<Rightarrow> p) = Some q' \<and> hq_inv q'
     \<and> hq_contents q' = opt_contents q @ [\<lparr>hm_header = hdr, hm_buffer = b\<rparr>]"
  using assms push_queue_msg_snoc [of "case q of None \<Rightarrow> new_queue | Some p \<Rightarrow> p"]
  by (cases q) (auto simp: push_queue_def)

lemma submit_waiting:
  assumes w: "waiting h rid q" and m: "sendable rid m"
  shows "\<exists>s'. submit ret m h = Some ([], put_slave rid s' h) \<and> waiting (put_slave rid s' h) rid (q @ [queued_msg m])"
proof -
  from push_queue_ok [of "sl_queue (hb_s h ! rid)" "og_data m" "cookie m"] w obtain p where
    p: "push_queue (og_data m) (cookie m) (case sl_queue (hb_s h ! rid) of None \<Rightarrow> new_queue | Some p \<Rightarrow> p) = Some p" "hq_inv p"
      "hq_contents p = q @ [queued_msg m]" by (auto simp: waiting_def queued_msg_def)
  let ?h = "put_slave rid ((hb_s h ! rid)\<lparr>sl_queue := Some p\<rparr>) h"
  have "submit ret m h = Some ([], ?h)"
    using w m p(1) unfolding submit_simps [OF m] remote_send_handle_def cookie_def Let_def
    by (simp add: waiting_def sendable_def STATUS_WAIT_def STATUS_DOWN_def)
  moreover have "waiting ?h rid (q @ [queued_msg m])" using w p by (simp add: waiting_def)
  ultimately show ?thesis by auto
qed

lemma submit_all_waiting:
  "waiting h rid q \<Longrightarrow> (\<And>m. m \<in> set ms \<Longrightarrow> sendable rid m) \<Longrightarrow>
   \<exists>s'. submit_all ret ms h = Some ([], put_slave rid s' h) \<and> waiting (put_slave rid s' h) rid (q @ map queued_msg ms)"
proof (induction ms arbitrary: h q)
  case Nil
  have "put_slave rid (hb_s h ! rid) h = h" by (simp add: put_slave_def)
  with Nil show ?case by (intro exI [of _ "hb_s h ! rid"]) (simp del: put_slave_simps)
next
  case (Cons m ms)
  then have "sendable rid m" by simp
  from submit_waiting [OF Cons.prems(1) this, of ret] obtain s1 where
    s1: "submit ret m h = Some ([], put_slave rid s1 h)" "waiting (put_slave rid s1 h) rid (q @ [queued_msg m])" by blast
  from Cons.IH [OF s1(2)] Cons.prems(2) obtain s2 where
    "submit_all ret ms (put_slave rid s1 h) = Some ([], put_slave rid s2 (put_slave rid s1 h))"
    "waiting (put_slave rid s2 (put_slave rid s1 h)) rid ((q @ [queued_msg m]) @ map queued_msg ms)" by auto
  with s1 show ?case by (intro exI [of _ s2]) simp
qed

lemma dispatch_queue_ok:
  assumes "rid < length (hb_s h)" "hb_s h ! rid = s" "sl_fd s = fd" "fd \<noteq> 0" "opt_inv (sl_queue s)"
  shows "dispatch_queue rid h = Some (concat (map (\<lambda>m. send_remote fd (hm_buffer m) (hm_header m) @ [Freed (hm_buffer m)])
     (opt_contents (sl_queue s))), put_slave rid (s\<lparr>sl_queue := None\<rparr>) h)"
proof (cases "sl_queue s")
  case None
  then have "s\<lparr>sl_queue := None\<rparr> = s" by (cases s) simp
  then have "put_slave rid (s\<lparr>sl_queue := None\<rparr>) h = h" using assms(1,2) by (simp only: put_slave_def) (auto simp: list_update_same_conv)
  then show ?thesis using None assms(1-4) by (simp add: dispatch_queue_def del: put_slave_simps)
next
  case (Some q)
  with assms(5) have "hq_inv q" by simp
  from emit_each_ok [OF this, of "\<lambda>m. send_remote fd (hm_buffer m) (hm_header m) @ [Freed (hm_buffer m)]"] obtain q' where
    "emit_each (\<lambda>m. send_remote fd (hm_buffer m) (hm_header m) @ [Freed (hm_buffer m)]) q
       = Some (concat (map (\<lambda>m. send_remote fd (hm_buffer m) (hm_header m) @ [Freed (hm_buffer m)]) (hq_contents q)), q')"
    "hq_inv q'" "hq_contents q' = []" by blast
  with Some assms release_empty show ?thesis by (simp add: dispatch_queue_def)
qed

lemma flush_queued:
  "(\<And>m. m \<in> set ms \<Longrightarrow> sendable rid m) \<Longrightarrow>
   concat (map (\<lambda>m. send_remote fd (hm_buffer m) (hm_header m) @ [Freed (hm_buffer m)]) (map queued_msg ms))
     = concat (map (flushed fd) ms)"
proof (induction ms)
  case (Cons m ms)
  then have "sendable rid m" by simp
  then have "length (og_data m) + HEADER_COOKIE_LENGTH < 2 ^ 32" by (simp add: sendable_def)
  from send_remote_wire [OF this] Cons show ?case by (simp add: queued_msg_def flushed_def)
qed simp

definition unconnected :: "harbor \<Rightarrow> nat \<Rightarrow> bool" where
  "unconnected h rid \<longleftrightarrow> length (hb_s h) = REMOTE_MAX \<and> 0 < rid \<and> rid < REMOTE_MAX \<and> sl_fd (hb_s h ! rid) = 0"

lemma waiting_unconnected: "waiting h rid q \<Longrightarrow> unconnected h rid"
  by (simp add: waiting_def unconnected_def)

lemma command_socket_ok:
  assumes "unconnected h rid" "fd \<noteq> 0" "scan_peer (cstr arg) = (fd, int rid)"
  shows "command_socket True arg h = Some ([SocketStart fd, SocketSend fd [of_int (hb_id h)]],
      put_slave rid ((hb_s h ! rid)\<lparr>sl_fd := fd, sl_status := STATUS_HANDSHAKE\<rparr>) h)"
    and "command_socket False arg h = do {
        (out, h') \<leftarrow> dispatch_queue rid (put_slave rid ((hb_s h ! rid)\<lparr>sl_fd := fd, sl_status := STATUS_HEADER\<rparr>) h);
        Some ([SocketStart fd, SocketSend fd [of_int (hb_id h)]] @ out, h') }"
  using assms by (simp_all add: command_socket_def unconnected_def handshake_def Let_def)

lemma mainloop_command:
  assumes "unconnected h rid" "fd \<noteq> 0" "- (2 ^ 31) \<le> fd" "fd < 2 ^ 31"
  shows "mainloop ret PTYPE_HARBOR session source (CommandText (socket_command CHR ''S'' fd rid)) h =
      Some ([SocketStart fd, SocketSend fd [of_int (hb_id h)]],
        put_slave rid ((hb_s h ! rid)\<lparr>sl_fd := fd, sl_status := STATUS_HANDSHAKE\<rparr>) h)"
    and "mainloop ret PTYPE_HARBOR session source (CommandText (socket_command CHR ''A'' fd rid)) h = do {
        (out, h') \<leftarrow> dispatch_queue rid (put_slave rid ((hb_s h ! rid)\<lparr>sl_fd := fd, sl_status := STATUS_HEADER\<rparr>) h);
        Some ([SocketStart fd, SocketSend fd [of_int (hb_id h)]] @ out, h') }"
proof -
  have r: "rid < REMOTE_MAX" using assms(1) by (simp add: unconnected_def)
  have hd: "mainloop ret PTYPE_HARBOR session source (CommandText (socket_command c fd rid)) h =
      command_socket (c = CHR ''S'') (drop 2 (socket_command c fd rid)) h" if "c = CHR ''S'' \<or> c = CHR ''A''" for c
  proof -
    have "2 \<le> length (socket_command c fd rid)" "hd (socket_command c fd rid) = of_char c" "socket_command c fd rid \<noteq> []"
      by (simp_all add: socket_command_def)
    with that show ?thesis
      by (elim disjE) (simp_all add: mainloop_def PTYPE_HARBOR_def PTYPE_SOCKET_def harbor_command_def)
  qed
  note ok = command_socket_ok [OF assms(1,2) scan_peer_show [OF assms(3,4) r]]
  show "mainloop ret PTYPE_HARBOR session source (CommandText (socket_command CHR ''S'' fd rid)) h =
      Some ([SocketStart fd, SocketSend fd [of_int (hb_id h)]],
        put_slave rid ((hb_s h ! rid)\<lparr>sl_fd := fd, sl_status := STATUS_HANDSHAKE\<rparr>) h)"
    using hd [of "CHR ''S''"] ok(1) [of "CHR ''S''"] by simp
  show "mainloop ret PTYPE_HARBOR session source (CommandText (socket_command CHR ''A'' fd rid)) h = do {
        (out, h') \<leftarrow> dispatch_queue rid (put_slave rid ((hb_s h ! rid)\<lparr>sl_fd := fd, sl_status := STATUS_HEADER\<rparr>) h);
        Some ([SocketStart fd, SocketSend fd [of_int (hb_id h)]] @ out, h') }"
    using hd [of "CHR ''A''"] ok(2) [of "CHR ''A''"] by simp
qed

lemma recv_handshake_ok:
  assumes h: "rid < length (hb_s h)" "rid < REMOTE_MAX" "hb_s h ! rid = s"
    and s: "sl_status s = STATUS_HANDSHAKE" "sl_fd s = fd" "fd \<noteq> 0" "opt_inv (sl_queue s)" "sl_read s = 0" "length (sl_size s) = 4"
  shows "recv_loop ret rid [of_nat rid] h =
     Some (concat (map (\<lambda>m. send_remote fd (hm_buffer m) (hm_header m) @ [Freed (hm_buffer m)]) (opt_contents (sl_queue s))),
       put_slave rid (s\<lparr>sl_status := STATUS_HEADER, sl_queue := None\<rparr>) h)"
proof -
  let ?s = "s\<lparr>sl_status := STATUS_HEADER\<rparr>" and ?t = "s\<lparr>sl_status := STATUS_HEADER, sl_queue := None\<rparr>"
  have b: "unat (of_nat rid :: u8) = rid" using h(2) by (simp add: REMOTE_MAX_def unat_of_nat take_bit_eq_mod)
  have "dispatch_queue rid (put_slave rid ?s h) =
      Some (concat (map (\<lambda>m. send_remote fd (hm_buffer m) (hm_header m) @ [Freed (hm_buffer m)]) (opt_contents (sl_queue s))),
        put_slave rid ?t h)"
    using dispatch_queue_ok [of rid "put_slave rid ?s h" ?s fd] h s by simp
  then have 1: "recv_step ret rid [of_nat rid] h = Some (Some [],
      concat (map (\<lambda>m. send_remote fd (hm_buffer m) (hm_header m) @ [Freed (hm_buffer m)]) (opt_contents (sl_queue s))), put_slave rid ?t h)"
    using h s(1) b by (simp add: recv_step_def recv_handshake_def)
  have ne: "STATUS_HEADER \<noteq> STATUS_HANDSHAKE" by (simp add: STATUS_HEADER_def STATUS_HANDSHAKE_def)
  have eq: "s\<lparr>sl_status := STATUS_HEADER, sl_queue := None, sl_read := 0\<rparr> = ?t" using s(5) by (cases s) simp
  have 2: "recv_step ret rid [] (put_slave rid ?t h) = Some (None, [], put_slave rid ?t h)"
    using h s ne by (simp add: recv_step_def recv_header_def copy_at_def del: put_slave_simps(7)) (simp only: eq)
  have "recv_loop ret rid [] (put_slave rid ?t h) = Some ([], put_slave rid ?t h)"
    using 2 by (subst recv_loop.simps) (simp del: put_slave_simps)
  with 1 show ?thesis by (subst recv_loop.simps) (simp del: put_slave_simps)
qed


definition demo_slave :: slave where
  "demo_slave = empty_slave\<lparr>sl_fd := 7, sl_status := STATUS_HEADER\<rparr>"

definition demo_harbor :: "int \<Rightarrow> nat \<Rightarrow> harbor" where
  "demo_harbor me rid = put_slave rid demo_slave (harbor_create\<lparr>hb_id := me\<rparr>)"

definition demo_out :: outgoing where
  "demo_out = \<lparr>og_source = 0x01000005, og_destination = 0x02000009, og_type = 10, og_session = 3, og_data = [1, 2, 3]\<rparr>"

lemma demo_harbors:
  "connected (demo_harbor 1 2) 2 7" "peer_of (demo_harbor 2 1) 1 7" "stream_of (hb_s (demo_harbor 2 1) ! 1) []"
  "hb_id (demo_harbor me rid) = me" "sendable 2 demo_out"
  by (simp_all add: connected_def peer_of_def stream_of_def demo_harbor_def demo_slave_def harbor_create_def empty_slave_def
      REMOTE_MAX_def STATUS_HEADER_def STATUS_HANDSHAKE_def STATUS_CONTENT_def sendable_def demo_out_def HANDLE_REMOTE_SHIFT_def
      HEADER_COOKIE_LENGTH_def drop_bit_eq_div)




end
