(* ===== verification/HarborInv.thy ===== *)
theory HarborInv
  imports HarborSpec
begin

text \<open>
  The invariant of the harbor service, that every operation returns and keeps it, that the table of
  names is a map, and that no buffer is lost or freed twice: a message buffer handed to the service
  is in one of its queues until it is given to the framework or freed.
\<close>

section \<open>The table of names\<close>

definition name_ok :: "bytes \<Rightarrow> bool" where
  "name_ok name \<longleftrightarrow> length name = GLOBALNAME_LENGTH \<and> name = cstr name @ replicate (GLOBALNAME_LENGTH - length (cstr name)) 0"

lemma strncmp_names: "name_ok a \<Longrightarrow> name_ok b \<Longrightarrow> strncmp_eq a b \<longleftrightarrow> a = b"
  unfolding strncmp_eq_def name_ok_def by (metis order_refl take_all)

definition kv_ok :: "nat \<Rightarrow> keyvalue \<Rightarrow> bool" where
  "kv_ok c node \<longleftrightarrow> name_ok (kv_key node) \<and> kv_hash node = name_hash (kv_key node) \<and> chain_of (kv_key node) = c
     \<and> opt_inv (kv_queue node)"

definition map_ok :: "hashmap \<Rightarrow> bool" where
  "map_ok m \<longleftrightarrow> length m = HASH_SIZE \<and> (\<forall>c < HASH_SIZE. (\<forall>node \<in> set (m ! c). kv_ok c node) \<and> distinct (map kv_key (m ! c)))"

lemma chain_less [simp]: "chain_of name < HASH_SIZE"
  by (simp add: chain_of_def HASH_SIZE_def)

lemma find_node_None:
  "(\<And>node. node \<in> set ns \<Longrightarrow> kv_ok c node) \<Longrightarrow> name_ok name \<Longrightarrow>
   find_node (name_hash name) name ns k = None \<longleftrightarrow> name \<notin> kv_key ` set ns"
  by (induction ns arbitrary: k) (auto simp: strncmp_names kv_ok_def)

lemma find_node_Some:
  "(\<And>node. node \<in> set ns \<Longrightarrow> kv_ok c node) \<Longrightarrow> name_ok name \<Longrightarrow> find_node (name_hash name) name ns k = Some i \<Longrightarrow>
   k \<le> i \<and> i - k < length ns \<and> kv_key (ns ! (i - k)) = name"
proof (induction ns arbitrary: k)
  case (Cons n ns)
  show ?case
  proof (cases "kv_hash n = name_hash name \<and> strncmp_eq (kv_key n) name")
    case True
    moreover have "name_ok (kv_key n)" using Cons.prems(1) [of n] by (simp add: kv_ok_def)
    ultimately show ?thesis using Cons.prems(2,3) strncmp_names by auto
  next
    case False
    then have "find_node (name_hash name) name ns (k + 1) = Some i" using Cons.prems(3) by auto
    with Cons.IH [of "k + 1"] Cons.prems(1,2) have "k + 1 \<le> i" "i - (k + 1) < length ns" "kv_key (ns ! (i - (k + 1))) = name" by auto
    moreover have "i - k = Suc (i - (k + 1))" using \<open>k + 1 \<le> i\<close> by simp
    ultimately show ?thesis by simp
  qed
qed simp

text \<open>The nodes of a name: where it is, and what an update does.\<close>

lemma search_Some:
  assumes "map_ok m" "name_ok name" "hash_search m name = Some i"
  shows "i < length (m ! chain_of name)" "kv_key (node_at m name i) = name" "kv_ok (chain_of name) (node_at m name i)"
proof -
  have ok: "\<And>node. node \<in> set (m ! chain_of name) \<Longrightarrow> kv_ok (chain_of name) node" using assms(1) by (simp add: map_ok_def)
  have "0 \<le> i \<and> i - 0 < length (m ! chain_of name) \<and> kv_key (m ! chain_of name ! (i - 0)) = name"
    by (rule find_node_Some [OF ok assms(2)]) (use assms(3) in \<open>simp_all add: hash_search_def\<close>)
  then show "i < length (m ! chain_of name)" "kv_key (node_at m name i) = name" by (simp_all add: node_at_def)
  then show "kv_ok (chain_of name) (node_at m name i)" using ok by (simp add: node_at_def)
qed

lemma search_None:
  assumes "map_ok m" "name_ok name"
  shows "hash_search m name = None \<longleftrightarrow> name \<notin> kv_key ` set (m ! chain_of name)"
  using find_node_None [of "m ! chain_of name" "chain_of name" name 0] assms by (simp add: map_ok_def hash_search_def)

lemma hash_insert_ok:
  assumes "map_ok m" "name_ok name" "hash_search m name = None"
  shows "map_ok (hash_insert m name)"
proof -
  let ?n = "\<lparr>kv_key = take GLOBALNAME_LENGTH name, kv_hash = name_hash name, kv_value = 0, kv_queue = None\<rparr>"
  have k: "take GLOBALNAME_LENGTH name = name" using assms(2) by (simp add: name_ok_def)
  have "kv_ok (chain_of name) ?n" using assms(2) k by (simp add: kv_ok_def)
  moreover have "name \<notin> kv_key ` set (m ! chain_of name)" using search_None [OF assms(1,2)] assms(3) by simp
  ultimately show ?thesis using assms(1) k
    by (auto simp: map_ok_def hash_insert_def nth_list_update)
qed

lemma map_update_same: "i < length xs \<Longrightarrow> f y = f (xs ! i) \<Longrightarrow> map f (xs[i := y]) = map f xs"
  by (rule nth_equalityI) (auto simp: nth_list_update)

lemma map_ok_put:
  assumes "map_ok m" "i < length (m ! c)" "c < HASH_SIZE" "kv_ok c node" "kv_key node = kv_key (m ! c ! i)"
  shows "map_ok (m[c := (m ! c)[i := node]])"
proof -
  have "map kv_key ((m ! c)[i := node]) = map kv_key (m ! c)"
    by (rule map_update_same) (use assms(2,5) in simp_all)
  moreover have "\<forall>x \<in> set ((m ! c)[i := node]). kv_ok c x"
    using assms(1,3,4) set_update_subset_insert [of "m ! c" i node] by (auto simp: map_ok_def)
  ultimately show ?thesis using assms(1,3) by (auto simp: map_ok_def nth_list_update)
qed

lemma hash_node_ok:
  assumes m: "map_ok m" and n: "name_ok name" and h: "hash_node name m = (i, m')"
  shows "map_ok m'" "hash_search m' name = Some i" "i < length (m' ! chain_of name)" "kv_key (node_at m' name i) = name"
    "kv_ok (chain_of name) (node_at m' name i)"
proof -
  show m': "map_ok m'"
    using h m hash_insert_ok [OF m n] by (auto simp: hash_node_def split: option.splits)
  show s: "hash_search m' name = Some i"
  proof (cases "hash_search m name")
    case None
    with h have eq: "i = 0" "m' = hash_insert m name" by (simp_all add: hash_node_def)
    have k: "take GLOBALNAME_LENGTH name = name" using n by (simp add: name_ok_def)
    show ?thesis unfolding eq using m by (simp add: hash_search_def hash_insert_def k strncmp_eq_def map_ok_def)
  next
    case (Some j)
    with h show ?thesis by (auto simp: hash_node_def)
  qed
  show "i < length (m' ! chain_of name)" "kv_key (node_at m' name i) = name" "kv_ok (chain_of name) (node_at m' name i)"
    by (rule search_Some [OF m' n s])+
qed

section \<open>The invariant\<close>

definition slave_ok :: "slave \<Rightarrow> bool" where
  "slave_ok s \<longleftrightarrow> opt_inv (sl_queue s) \<and> length (sl_size s) = 4 \<and> (sl_status s \<noteq> STATUS_CONTENT \<longrightarrow> sl_read s < 4)
     \<and> (sl_fd s = 0 \<longrightarrow> sl_status s \<in> {STATUS_WAIT, STATUS_DOWN})
     \<and> (sl_fd s \<noteq> 0 \<longrightarrow> sl_status s \<in> {STATUS_HANDSHAKE, STATUS_HEADER, STATUS_CONTENT})
     \<and> (sl_queue s \<noteq> None \<longrightarrow> sl_status s \<in> {STATUS_WAIT, STATUS_HANDSHAKE})"

definition harbor_shape :: "harbor \<Rightarrow> bool" where
  "harbor_shape h \<longleftrightarrow> length (hb_s h) = REMOTE_MAX \<and> (\<forall>s \<in> set (hb_s h). slave_ok s) \<and> map_ok (hb_map h)"

text \<open>A name that has got its handle has no queue any more.\<close>

definition drained :: "hashmap \<Rightarrow> bool" where
  "drained m \<longleftrightarrow> (\<forall>c < HASH_SIZE. \<forall>node \<in> set (m ! c). kv_value node \<noteq> 0 \<longrightarrow> kv_queue node = None)"

definition harbor_ok :: "harbor \<Rightarrow> bool" where
  "harbor_ok h \<longleftrightarrow> harbor_shape h \<and> drained (hb_map h)"

text \<open>The buffers in the queues of the service, and those it has given away.\<close>

definition slave_bufs :: "slave \<Rightarrow> bytes list" where
  "slave_bufs s = map hm_buffer (opt_contents (sl_queue s))"

definition node_bufs :: "keyvalue \<Rightarrow> bytes list" where
  "node_bufs node = map hm_buffer (opt_contents (kv_queue node))"

definition buffers :: "harbor \<Rightarrow> bytes multiset" where
  "buffers h = mset (concat (map slave_bufs (hb_s h))) + mset (concat (concat (map (map node_bufs) (hb_map h))))"

definition given_one :: "harbor_out \<Rightarrow> bytes list" where
  "given_one r = (case r of
     SkynetSend _ _ type _ (Some b) \<Rightarrow> if type AND PTYPE_TAG_DONTCOPY \<noteq> 0 then [b] else []
   | Freed b \<Rightarrow> [b]
   | _ \<Rightarrow> [])"

definition given :: "harbor_out list \<Rightarrow> bytes multiset" where
  "given outs = mset (concat (map given_one outs))"

lemma given_append [simp]: "given (a @ b) = given a + given b" "given (r # a) = mset (given_one r) + given a" "given [] = {#}"
  by (simp_all add: given_def)

lemma dontcopy_set [simp]: "PTYPE_TAG_DONTCOPY \<noteq> 0"
  by (simp add: PTYPE_TAG_DONTCOPY_def)

lemma given_one_simps [simp]:
  "given_one (SkynetSend a b (ty OR PTYPE_TAG_DONTCOPY) d (Some m)) = [m]" "given_one (SkynetSend a b 0 d x) = []"
  "given_one (SkynetSend a b t d None) = []" "given_one (Freed m) = [m]" "given_one (SocketSend fd m) = []"
  "given_one (SocketClose fd) = []" "given_one (SocketStart fd) = []" "given_one HarborError = []"
  by (simp_all add: given_one_def split: option.splits)

lemma given_send_remote [simp]: "given (send_remote fd b hdr) = {#}"
  by (simp add: send_remote_def Let_def)

lemma slave_at: "harbor_shape h \<Longrightarrow> i < REMOTE_MAX \<Longrightarrow> slave_ok (hb_s h ! i) \<and> i < length (hb_s h)"
  by (simp add: harbor_shape_def)

lemma put_slave_ok: "harbor_shape h \<Longrightarrow> slave_ok s \<Longrightarrow> harbor_shape (put_slave i s h)"
  using set_update_subset_insert [of "hb_s h" i s] by (auto simp: harbor_shape_def)

lemma put_slave_bufs:
  "i < length (hb_s h) \<Longrightarrow> buffers (put_slave i s h) + mset (slave_bufs (hb_s h ! i)) = buffers h + mset (slave_bufs s)"
  using mset_concat_update [of i "map slave_bufs (hb_s h)" "slave_bufs s"]
  by (simp add: buffers_def map_update [symmetric] ac_simps)

lemma put_node_simps [simp]:
  "hb_s (put_node name i node h) = hb_s h" "hb_id (put_node name i node h) = hb_id h"
  "hb_slave (put_node name i node h) = hb_slave h"
  "hb_map (put_node name i node h) = (hb_map h)[chain_of name := (hb_map h ! chain_of name)[i := node]]"
  by (simp_all add: put_node_def)

lemma put_node_ok:
  "harbor_shape h \<Longrightarrow> i < length (hb_map h ! chain_of name) \<Longrightarrow> kv_ok (chain_of name) node \<Longrightarrow>
   kv_key node = kv_key (node_at (hb_map h) name i) \<Longrightarrow> harbor_shape (put_node name i node h)"
  using map_ok_put [of "hb_map h" i "chain_of name" node] by (simp add: harbor_shape_def node_at_def)

lemma put_node_bufs:
  assumes "harbor_shape h" "i < length (hb_map h ! chain_of name)"
  shows "buffers (put_node name i node h) + mset (node_bufs (node_at (hb_map h) name i)) = buffers h + mset (node_bufs node)"
proof -
  let ?c = "chain_of name" and ?M = "map (map node_bufs) (hb_map h)"
  have c: "?c < length ?M" using assms(1) by (simp add: harbor_shape_def map_ok_def)
  let ?row = "(?M ! ?c)[i := node_bufs node]"
  have 1: "mset (concat (concat (?M[?c := ?row]))) + mset (concat (?M ! ?c)) = mset (concat (concat ?M)) + mset (concat ?row)"
    by (rule mset_concat_update2 [OF c])
  have 2: "mset (concat ?row) + mset (?M ! ?c ! i) = mset (concat (?M ! ?c)) + mset (node_bufs node)"
    by (rule mset_concat_update) (use c assms(2) in simp)
  have 3: "?M ! ?c ! i = node_bufs (node_at (hb_map h) name i)" using c assms(2) by (simp add: node_at_def)
  have 4: "map (map node_bufs) (hb_map (put_node name i node h)) = ?M[?c := ?row]" using c by (simp add: map_update)
  have "mset (concat (concat (?M[?c := ?row]))) + mset (node_bufs (node_at (hb_map h) name i)) + mset (concat (?M ! ?c))
      = mset (concat (concat ?M)) + mset (node_bufs node) + mset (concat (?M ! ?c))"
    using 1 2 by (simp add: 3 ac_simps)
  then have "mset (concat (concat (?M[?c := ?row]))) + mset (node_bufs (node_at (hb_map h) name i))
      = mset (concat (concat ?M)) + mset (node_bufs node)" by (simp only: add_right_cancel)
  then show ?thesis unfolding buffers_def 4 by (simp only: put_node_simps(1) add.assoc)
qed

section \<open>Operations\<close>

definition keeps :: "bytes multiset \<Rightarrow> harbor \<Rightarrow> (harbor_out list \<times> harbor) option \<Rightarrow> bool" where
  "keeps b h res \<longleftrightarrow> (\<exists>out h'. res = Some (out, h') \<and> harbor_ok h' \<and> buffers h + b = buffers h' + given out)"

lemma keepsI: "harbor_ok h' \<Longrightarrow> buffers h + b = buffers h' + given out \<Longrightarrow> keeps b h (Some (out, h'))"
  by (auto simp: keeps_def)

lemma given_flush: "given (concat (map (\<lambda>m. send_remote fd (hm_buffer m) (hm_header m) @ [Freed (hm_buffer m)]) ms)) = mset (map hm_buffer ms)"
  by (induction ms) simp_all

lemma given_freed: "given (map (\<lambda>m. Freed (hm_buffer m)) ms) = mset (map hm_buffer ms)"
  by (induction ms) simp_all

lemma given_sends:
  "given (concat (map (\<lambda>m. [SkynetSend (f m) handle (g m OR PTYPE_TAG_DONTCOPY) (k m) (Some (hm_buffer m))]) ms)) = mset (map hm_buffer ms)"
  by (induction ms) simp_all

lemma ok_put_slave: "harbor_ok h \<Longrightarrow> slave_ok s \<Longrightarrow> harbor_ok (put_slave i s h)"
  using put_slave_ok by (auto simp: harbor_ok_def)

lemma slave_bufs_simps [simp]:
  "slave_bufs (s\<lparr>sl_queue := q\<rparr>) = map hm_buffer (opt_contents q)" "slave_bufs (s\<lparr>sl_fd := fd\<rparr>) = slave_bufs s"
  "slave_bufs (s\<lparr>sl_status := st\<rparr>) = slave_bufs s"
  by (simp_all add: slave_bufs_def)

lemma node_bufs_simps [simp]:
  "node_bufs (n\<lparr>kv_queue := q\<rparr>) = map hm_buffer (opt_contents q)" "node_bufs (n\<lparr>kv_value := v\<rparr>) = node_bufs n"
  by (simp_all add: node_bufs_def)

lemma close_harbor_ok:
  assumes h: "harbor_ok h" and r: "rid < REMOTE_MAX" and c: "sl_status (hb_s h ! rid) \<noteq> STATUS_CONTENT"
  shows "keeps {#} h (close_harbor rid h)"
proof -
  define s where "s = hb_s h ! rid"
  have s: "slave_ok s" "rid < length (hb_s h)" using slave_at [of h rid] h r by (auto simp: harbor_ok_def s_def)
  let ?s = "s\<lparr>sl_status := STATUS_DOWN, sl_fd := 0, sl_queue := None\<rparr>"
  have rel: "release_queue (sl_queue s) = Some (map (\<lambda>m. Freed (hm_buffer m)) (opt_contents (sl_queue s)))"
    using s(1) by (intro release_queue_ok) (simp add: slave_ok_def)
  have "slave_ok ?s" using s(1) c unfolding slave_ok_def by (simp add: s_def)
  then have "harbor_ok (put_slave rid ?s h)" using ok_put_slave h by blast
  moreover have "buffers h = buffers (put_slave rid ?s h) + mset (slave_bufs s)"
    using put_slave_bufs [OF s(2), of ?s] by (simp add: s_def slave_bufs_def)
  ultimately show ?thesis
    using s(2) rel unfolding s_def by (auto simp: close_harbor_def Let_def given_freed slave_bufs_def keeps_def)
qed

lemma keepsD:
  assumes "keeps b h res"
  obtains out h' where "res = Some (out, h')" "harbor_ok h'" "buffers h + b = buffers h' + given out"
  using assms by (auto simp: keeps_def)

lemma status_distinct:
  "STATUS_WAIT \<noteq> STATUS_HANDSHAKE" "STATUS_WAIT \<noteq> STATUS_HEADER" "STATUS_WAIT \<noteq> STATUS_CONTENT" "STATUS_WAIT \<noteq> STATUS_DOWN"
  "STATUS_HANDSHAKE \<noteq> STATUS_HEADER" "STATUS_HANDSHAKE \<noteq> STATUS_CONTENT" "STATUS_HANDSHAKE \<noteq> STATUS_DOWN"
  "STATUS_HEADER \<noteq> STATUS_CONTENT" "STATUS_HEADER \<noteq> STATUS_DOWN" "STATUS_CONTENT \<noteq> STATUS_DOWN"
  by (simp_all add: STATUS_WAIT_def STATUS_HANDSHAKE_def STATUS_HEADER_def STATUS_CONTENT_def STATUS_DOWN_def)

lemma slave_idle:
  assumes "slave_ok s" "sl_fd s = 0"
  shows "sl_status s \<noteq> STATUS_CONTENT \<and> sl_status s \<noteq> STATUS_HANDSHAKE \<and> sl_status s \<noteq> STATUS_HEADER"
proof -
  have "sl_status s = STATUS_WAIT \<or> sl_status s = STATUS_DOWN" using assms by (simp add: slave_ok_def)
  then show ?thesis by (elim disjE) (simp_all add: status_distinct status_distinct [symmetric])
qed

lemma slave_busy:
  assumes "slave_ok s" "sl_fd s \<noteq> 0"
  shows "sl_status s \<noteq> STATUS_WAIT \<and> sl_status s \<noteq> STATUS_DOWN"
proof -
  have "sl_status s = STATUS_HANDSHAKE \<or> sl_status s = STATUS_HEADER \<or> sl_status s = STATUS_CONTENT"
    using assms by (simp add: slave_ok_def)
  then show ?thesis by (elim disjE) (simp_all add: status_distinct status_distinct [symmetric])
qed

text \<open>A queue is flushed when a connection is ready: the peer is then in order.\<close>

lemma flush_ok:
  assumes h: "harbor_ok h" and r: "rid < REMOTE_MAX" and s: "slave_ok (s\<lparr>sl_queue := None\<rparr>)" "sl_fd s \<noteq> 0"
    "sl_queue s = sl_queue (hb_s h ! rid)"
  shows "keeps {#} h (dispatch_queue rid (put_slave rid s h))"
proof -
  have old: "slave_ok (hb_s h ! rid)" "rid < length (hb_s h)" using slave_at [of h rid] h r by (auto simp: harbor_ok_def)
  have oi: "opt_inv (sl_queue s)" using old(1) s(3) by (simp add: slave_ok_def)
  have eq: "dispatch_queue rid (put_slave rid s h) = Some (concat (map (\<lambda>m. send_remote (sl_fd s) (hm_buffer m) (hm_header m) @ [Freed (hm_buffer m)])
     (opt_contents (sl_queue s))), put_slave rid (s\<lparr>sl_queue := None\<rparr>) h)"
    using dispatch_queue_ok [of rid "put_slave rid s h" s, OF _ _ refl s(2) oi] old(2) by simp
  have "buffers (put_slave rid (s\<lparr>sl_queue := None\<rparr>) h) + mset (map hm_buffer (opt_contents (sl_queue s))) = buffers h"
    using put_slave_bufs [OF old(2), of "s\<lparr>sl_queue := None\<rparr>"] s(3) by (simp add: slave_bufs_def)
  then show ?thesis unfolding eq by (intro keepsI) (simp_all only: ok_put_slave [OF h s(1)] given_flush add_0_right)
qed

lemma queue_slave_ok:
  assumes "slave_ok s" "hq_inv q" "sl_status s \<in> {STATUS_WAIT, STATUS_HANDSHAKE}"
  shows "slave_ok (s\<lparr>sl_queue := Some q\<rparr>)"
  using assms unfolding slave_ok_def by simp

lemma remote_send_handle_ok:
  assumes h: "harbor_ok h"
  obtains kept out h' where "remote_send_handle source dest type session msg h = Some (kept, out, h')" "harbor_ok h'"
    "buffers h + {#msg#} = buffers h' + given out + (if kept then {#} else {#msg#})"
proof -
  let ?rid = "unat (drop_bit HANDLE_REMOTE_SHIFT dest)"
  let ?hdr = "\<lparr>rh_source = source, rh_destination = push_bit HANDLE_REMOTE_SHIFT type OR (dest AND HANDLE_MASK), rh_session = session\<rparr>"
  define s where "s = hb_s h ! ?rid"
  have r: "?rid < REMOTE_MAX"
    using u32_less [of dest] by (simp add: HANDLE_REMOTE_SHIFT_def REMOTE_MAX_def drop_bit_eq_div unat_div_distrib less_mult_imp_div_less)
  have s: "slave_ok s" "?rid < length (hb_s h)" using slave_at [of h ?rid] h r by (auto simp: harbor_ok_def s_def)
  consider "int ?rid = hb_id h" | "int ?rid \<noteq> hb_id h" "sl_status s = STATUS_DOWN"
    | "int ?rid \<noteq> hb_id h" "sl_status s \<in> {STATUS_WAIT, STATUS_HANDSHAKE}"
    | "int ?rid \<noteq> hb_id h" "sl_status s \<in> {STATUS_HEADER, STATUS_CONTENT}"
    using s(1) unfolding slave_ok_def by blast
  then show thesis
  proof cases
    case 1
    then show thesis using that [of True "[SkynetSend source dest (type OR PTYPE_TAG_DONTCOPY) session (Some msg)]" h] h
      by (simp add: remote_send_handle_def Let_def)
  next
    case 2
    then have "sl_fd s = 0" using slave_busy [OF s(1)] by auto
    with 2 s(2) show thesis using that [of False "[SkynetSend dest source PTYPE_ERROR session None, HarborError]" h] h
      by (simp add: remote_send_handle_def Let_def s_def)
  next
    case 3
    have oi: "opt_inv (sl_queue s)" using s(1) by (simp add: slave_ok_def)
    from push_queue_ok [OF oi, of msg ?hdr] obtain q where
      q: "push_queue msg ?hdr (case sl_queue s of None \<Rightarrow> new_queue | Some p \<Rightarrow> p) = Some q" "hq_inv q"
      "hq_contents q = opt_contents (sl_queue s) @ [\<lparr>hm_header = ?hdr, hm_buffer = msg\<rparr>]" by blast
    let ?h = "put_slave ?rid (s\<lparr>sl_queue := Some q\<rparr>) h"
    have "sl_fd s = 0 \<or> sl_status s = STATUS_HANDSHAKE" "sl_status s \<noteq> STATUS_DOWN"
      using 3(2) slave_busy [OF s(1)] by (auto simp: status_distinct status_distinct [symmetric])
    then have "remote_send_handle source dest type session msg h = Some (True, [], ?h)"
      using 3 s(2) q(1) by (simp add: remote_send_handle_def Let_def s_def)
    moreover have "harbor_ok ?h" by (rule ok_put_slave [OF h queue_slave_ok [OF s(1) q(2) 3(2)]])
    moreover have "buffers h + {#msg#} = buffers ?h"
      using put_slave_bufs [OF s(2), of "s\<lparr>sl_queue := Some q\<rparr>"] q(3) by (simp add: slave_bufs_def s_def)
    ultimately show thesis using that by simp
  next
    case 4
    then have "sl_fd s \<noteq> 0" "sl_status s \<noteq> STATUS_HANDSHAKE"
      using slave_idle [OF s(1)] by (auto simp: status_distinct status_distinct [symmetric])
    with 4 s(2) show thesis using that [of False "send_remote (sl_fd s) msg ?hdr" h] h
      by (simp add: remote_send_handle_def Let_def s_def)
  qed
qed

section \<open>Names\<close>

lemma chain_at: "map_ok m \<Longrightarrow> chain_of name < length m"
  by (simp add: map_ok_def)

text \<open>The table with the node of a name: nothing is queued at a node that is new.\<close>

lemma hash_node_map:
  assumes h: "harbor_ok h" and n: "name_ok name" and hn: "hash_node name (hb_map h) = (i, m)"
  shows "harbor_ok (h\<lparr>hb_map := m\<rparr>)" "buffers (h\<lparr>hb_map := m\<rparr>) = buffers h"
proof -
  have m0: "map_ok (hb_map h)" "drained (hb_map h)" using h by (simp_all add: harbor_ok_def harbor_shape_def)
  let ?n = "\<lparr>kv_key = take GLOBALNAME_LENGTH name, kv_hash = name_hash name, kv_value = 0, kv_queue = None\<rparr>"
  let ?c = "chain_of name"
  have c: "?c < length (hb_map h)" by (rule chain_at [OF m0(1)])
  consider "m = hb_map h" | "m = hash_insert (hb_map h) name"
    using hn by (auto simp: hash_node_def split: option.splits)
  then have "drained m \<and> mset (concat (concat (map (map node_bufs) m))) = mset (concat (concat (map (map node_bufs) (hb_map h))))"
  proof cases
    case 2
    have d: "drained m" using m0 unfolding 2 by (auto simp: drained_def hash_insert_def nth_list_update map_ok_def)
    have e: "map (map node_bufs) m = (map (map node_bufs) (hb_map h))[?c := [] # map (map node_bufs) (hb_map h) ! ?c]"
      unfolding 2 hash_insert_def using c by (simp add: map_update node_bufs_def)
    have "mset (concat (concat (map (map node_bufs) m))) + mset (concat (map (map node_bufs) (hb_map h) ! ?c))
        = mset (concat (concat (map (map node_bufs) (hb_map h)))) + mset (concat ([] # map (map node_bufs) (hb_map h) ! ?c))"
      unfolding e by (rule mset_concat_update2) (use c in simp)
    then have "mset (concat (concat (map (map node_bufs) m))) = mset (concat (concat (map (map node_bufs) (hb_map h))))"
      by simp
    with d show ?thesis by simp
  qed (use m0 in simp)
  moreover have "map_ok m" by (rule hash_node_ok(1) [OF m0(1) n hn])
  ultimately show "harbor_ok (h\<lparr>hb_map := m\<rparr>)" "buffers (h\<lparr>hb_map := m\<rparr>) = buffers h"
    using h by (simp_all add: harbor_ok_def harbor_shape_def buffers_def)
qed

lemma drained_put:
  assumes "drained m" "map_ok m" "kv_value node \<noteq> 0 \<Longrightarrow> kv_queue node = None"
  shows "drained (m[chain_of name := (m ! chain_of name)[i := node]])"
proof -
  have "x = node \<or> x \<in> set (m ! chain_of name)" if "x \<in> set ((m ! chain_of name)[i := node])" for x
    using that set_update_subset_insert [of "m ! chain_of name" i node] by auto
  moreover have "\<forall>x \<in> set (m ! chain_of name). kv_value x \<noteq> 0 \<longrightarrow> kv_queue x = None"
    using assms(1) chain_less [of name] unfolding drained_def by blast
  ultimately have "\<forall>x \<in> set ((m ! chain_of name)[i := node]). kv_value x \<noteq> 0 \<longrightarrow> kv_queue x = None"
    using assms(3) by metis
  then show ?thesis using assms(1,2) by (simp add: drained_def nth_list_update map_ok_def)
qed

lemma remote_send_name_ok:
  assumes h: "harbor_ok h" and n: "name_ok name"
  obtains kept out h' where "remote_send_name source name type session msg h = Some (kept, out, h')" "harbor_ok h'"
    "buffers h + {#msg#} = buffers h' + given out + (if kept then {#} else {#msg#})"
proof -
  obtain i m where hn: "hash_node name (hb_map h) = (i, m)" by fastforce
  let ?h = "h\<lparr>hb_map := m\<rparr>"
  note hm = hash_node_map [OF h n hn]
  have m0: "map_ok (hb_map h)" using h by (simp add: harbor_ok_def harbor_shape_def)
  note hk = hash_node_ok [OF m0 n hn]
  define node where "node = node_at m name i"
  have f: "remote_send_name source name type session msg h =
     (if kv_value node = 0 then do {
        queue \<leftarrow> push_queue msg \<lparr>rh_source = source, rh_destination = push_bit HANDLE_REMOTE_SHIFT type, rh_session = session\<rparr>
          (case kv_queue node of None \<Rightarrow> new_queue | Some q \<Rightarrow> q);
        Some (True, [SkynetSend 0 (hb_slave h) 0 0 (Some (str ''Q '' @ cstr (take GLOBALNAME_LENGTH name)))],
          put_node name i (node\<lparr>kv_queue := Some queue\<rparr>) ?h) }
      else remote_send_handle source (kv_value node) type session msg ?h)"
    by (simp add: remote_send_name_def hn node_def Let_def)
  show thesis
  proof (cases "kv_value node = 0")
    case True
    let ?hdr = "\<lparr>rh_source = source, rh_destination = push_bit HANDLE_REMOTE_SHIFT type, rh_session = session\<rparr>"
    have nk: "kv_ok (chain_of name) node" "opt_inv (kv_queue node)" using hk(5) by (simp_all add: node_def kv_ok_def)
    from push_queue_ok [OF nk(2), of msg ?hdr] obtain q where
      q: "push_queue msg ?hdr (case kv_queue node of None \<Rightarrow> new_queue | Some p \<Rightarrow> p) = Some q" "hq_inv q"
      "hq_contents q = opt_contents (kv_queue node) @ [\<lparr>hm_header = ?hdr, hm_buffer = msg\<rparr>]" by blast
    let ?h' = "put_node name i (node\<lparr>kv_queue := Some q\<rparr>) ?h"
    have nq: "kv_ok (chain_of name) (node\<lparr>kv_queue := Some q\<rparr>)" using nk(1) q(2) by (simp add: kv_ok_def)
    have "harbor_shape ?h'"
      by (rule put_node_ok) (use hm(1) hk(3) nq in \<open>simp_all add: harbor_ok_def node_def\<close>)
    moreover have "drained (hb_map ?h')"
      using drained_put [of m "node\<lparr>kv_queue := Some q\<rparr>" name i] hm(1) hk(1) True by (simp add: harbor_ok_def)
    ultimately have "harbor_ok ?h'" by (simp add: harbor_ok_def)
    moreover have "buffers ?h' + mset (node_bufs node) = buffers h + mset (node_bufs (node\<lparr>kv_queue := Some q\<rparr>))"
      using put_node_bufs [of ?h i name "node\<lparr>kv_queue := Some q\<rparr>"] hm hk(3) by (simp add: harbor_ok_def node_def)
    then have "buffers h + {#msg#} = buffers ?h'" using q(3) by (simp add: node_bufs_def)
    ultimately show thesis using that f True q(1) by simp
  next
    case False
    from remote_send_handle_ok [OF hm(1), of source "kv_value node" type session msg] obtain kept out h' where
      "remote_send_handle source (kv_value node) type session msg ?h = Some (kept, out, h')" "harbor_ok h'"
      "buffers ?h + {#msg#} = buffers h' + given out + (if kept then {#} else {#msg#})" by blast
    with that f False hm(2) show thesis by simp
  qed
qed

lemma mset_hq: "mset (map hm_buffer (a @ b)) = mset (map hm_buffer a) + mset (map hm_buffer b)"
  by simp

text \<open>
  What \<open>dispatch_name_queue\<close> leaves behind: the peers in order, the node of the name with whatever is
  left of its queue, and every buffer accounted for.
\<close>

lemma dispatch_name_queue_ok:
  assumes h: "harbor_shape h" and i: "i < length (hb_map h ! chain_of name)" and q: "kv_queue (node_at (hb_map h) name i) = Some q"
  obtains out h' q' where "dispatch_name_queue name i h = Some (out, h')" "harbor_shape h'"
    "hb_map h' = hb_map (put_node name i ((node_at (hb_map h) name i)\<lparr>kv_queue := q'\<rparr>) h)" "opt_inv q'"
    "buffers h = buffers h' + given out"
proof -
  define node where "node = node_at (hb_map h) name i"
  let ?handle = "kv_value node"
  let ?rid = "unat (drop_bit HANDLE_REMOTE_SHIFT ?handle)"
  have r: "?rid < REMOTE_MAX"
    using u32_less [of ?handle] by (simp add: HANDLE_REMOTE_SHIFT_def REMOTE_MAX_def drop_bit_eq_div unat_div_distrib less_mult_imp_div_less)
  define s where "s = hb_s h ! ?rid"
  have s: "slave_ok s" "?rid < length (hb_s h)" using slave_at [of h ?rid] h r by (auto simp: s_def)
  have c: "chain_of name < length (hb_map h)" using h by (simp add: harbor_shape_def map_ok_def)
  have nd: "kv_ok (chain_of name) node"
    using h i by (auto simp: node_def node_at_def harbor_shape_def map_ok_def)
  then have q_inv: "hq_inv q" using q by (simp add: kv_ok_def node_def)
  have put: "harbor_shape (put_node name i (node\<lparr>kv_queue := q'\<rparr>) h)"
    "buffers (put_node name i (node\<lparr>kv_queue := q'\<rparr>) h) + mset (map hm_buffer (hq_contents q)) = buffers h + mset (map hm_buffer (opt_contents q'))"
    if "opt_inv q'" for q'
  proof -
    have "kv_ok (chain_of name) (node\<lparr>kv_queue := q'\<rparr>)" using nd that by (simp add: kv_ok_def)
    with put_node_ok [OF h i this] show "harbor_shape (put_node name i (node\<lparr>kv_queue := q'\<rparr>) h)" by (simp add: node_def)
    show "buffers (put_node name i (node\<lparr>kv_queue := q'\<rparr>) h) + mset (map hm_buffer (hq_contents q)) = buffers h + mset (map hm_buffer (opt_contents q'))"
      using put_node_bufs [OF h i, of "node\<lparr>kv_queue := q'\<rparr>"] q by (simp add: node_def node_bufs_def)
  qed
  show thesis
  proof (cases "sl_fd s = 0")
    case False
    let ?g = "\<lambda>m. let m = set_destination ?handle m in send_remote (sl_fd s) (hm_buffer m) (hm_header m) @ [Freed (hm_buffer m)]"
    from emit_each_ok [OF q_inv, of ?g] obtain q' where
      e: "emit_each ?g q = Some (concat (map ?g (hq_contents q)), q')" "hq_inv q'" "hq_contents q' = []" by blast
    have "given (concat (map ?g ms)) = mset (map hm_buffer ms)" for ms
      by (induction ms) (simp_all add: Let_def set_destination_def)
    moreover have "dispatch_name_queue name i h = Some (concat (map ?g (hq_contents q)), put_node name i (node\<lparr>kv_queue := Some q'\<rparr>) h)"
      using False q e(1) s(2)
      by (simp add: dispatch_name_queue_def node_def [symmetric] s_def [symmetric] del: put_node_simps put_slave_simps)
    ultimately show thesis using put [of "Some q'"] e(2,3) that by (simp add: node_def)
  next
    case fd: True
    show thesis
    proof (cases "sl_status s = STATUS_DOWN")
      case True
      then have "dispatch_name_queue name i h = Some ([HarborError], h)"
        using fd q s(2)
        by (simp add: dispatch_name_queue_def node_def [symmetric] s_def [symmetric] del: put_node_simps put_slave_simps)
      moreover have "put_node name i (node\<lparr>kv_queue := Some q\<rparr>) h = h"
      proof -
        have "node\<lparr>kv_queue := Some q\<rparr> = node" using q by (cases node) (simp add: node_def)
        then show ?thesis by (simp add: put_node_def node_def node_at_def)
      qed
      ultimately show thesis
        using that [of "[HarborError]" h "Some q"] h q_inv by (simp add: node_def del: put_node_simps)
    next
      case False
      then have w: "sl_status s = STATUS_WAIT" using fd s(1) by (auto simp: slave_ok_def)
      let ?merge = "case sl_queue s of
             None \<Rightarrow> Some (s\<lparr>sl_queue := Some q\<rparr>, node\<lparr>kv_queue := None\<rparr>)
           | Some sq \<Rightarrow> do {
               (sq, queue) \<leftarrow> while_pop push_queue_msg q sq;
               Some (s\<lparr>sl_queue := Some sq\<rparr>, node\<lparr>kv_queue := Some queue\<rparr>) }"
      have "\<exists>sq nq. ?merge = Some (s\<lparr>sl_queue := Some sq\<rparr>, node\<lparr>kv_queue := nq\<rparr>) \<and> hq_inv sq \<and> opt_inv nq
         \<and> hq_contents sq = opt_contents (sl_queue s) @ hq_contents q \<and> opt_contents nq = []"
      proof (cases "sl_queue s")
        case None
        then show ?thesis using q_inv by (intro exI [of _ q] exI [of _ None]) simp
      next
        case (Some sq0)
        then have "hq_inv sq0" using s(1) by (simp add: slave_ok_def)
        from push_all [OF this, of "hq_contents q"] obtain sq where
          sq: "fold_opt push_queue_msg (hq_contents q) sq0 = Some sq" "hq_inv sq" "hq_contents sq = hq_contents sq0 @ hq_contents q" by blast
        from while_pop_fold [OF q_inv sq(1)] obtain q' where
          "while_pop push_queue_msg q sq0 = Some (sq, q')" "hq_inv q'" "hq_contents q' = []" by blast
        with Some sq show ?thesis by (intro exI [of _ sq] exI [of _ "Some q'"]) simp
      qed
      then obtain sq nq where m: "?merge = Some (s\<lparr>sl_queue := Some sq\<rparr>, node\<lparr>kv_queue := nq\<rparr>)" "hq_inv sq" "opt_inv nq"
        "hq_contents sq = opt_contents (sl_queue s) @ hq_contents q" "opt_contents nq = []" by blast
      let ?G = "\<lambda>m. [SkynetSend (rh_source (hm_header m)) ?handle
              (drop_bit HANDLE_REMOTE_SHIFT (rh_destination (hm_header m)) OR PTYPE_TAG_DONTCOPY) (rh_session (hm_header m)) (Some (hm_buffer m))]"
      have eq: "dispatch_name_queue name i h = do {
          (s, node) \<leftarrow> ?merge;
          (out, s) \<leftarrow> (if ?rid = unat (drop_bit HANDLE_REMOTE_SHIFT (hb_slave h)) then do {
               sq \<leftarrow> sl_queue s;
               (out, sq) \<leftarrow> emit_each ?G sq;
               out' \<leftarrow> release_queue (Some sq);
               Some (out @ out', s\<lparr>sl_queue := None\<rparr>) }
             else Some ([], s));
          Some (out, put_slave ?rid s (put_node name i node h)) }"
        unfolding dispatch_name_queue_def node_def [symmetric] Let_def using fd False q s(2)
        by (simp add: s_def [symmetric] node_def [symmetric] del: put_node_simps put_slave_simps)
      let ?h1 = "put_node name i (node\<lparr>kv_queue := nq\<rparr>) h"
      have b1: "harbor_shape ?h1" "buffers ?h1 + mset (map hm_buffer (hq_contents q)) = buffers h"
        using put [OF m(3)] m(5) by simp_all
      show thesis
      proof (cases "?rid = unat (drop_bit HANDLE_REMOTE_SHIFT (hb_slave h))")
        case True
        let ?g = "\<lambda>m. [SkynetSend (rh_source (hm_header m)) ?handle
              (drop_bit HANDLE_REMOTE_SHIFT (rh_destination (hm_header m)) OR PTYPE_TAG_DONTCOPY) (rh_session (hm_header m)) (Some (hm_buffer m))]"
        from emit_each_ok [OF m(2), of ?g] obtain q' where
          e: "emit_each ?g sq = Some (concat (map ?g (hq_contents sq)), q')" "hq_inv q'" "hq_contents q' = []" by blast
        let ?s = "s\<lparr>sl_queue := None\<rparr>"
        let ?h' = "put_slave ?rid ?s ?h1"
        have res: "dispatch_name_queue name i h = Some (concat (map ?g (hq_contents sq)), ?h')"
          unfolding eq m(1) using True e(1) release_empty [OF e(2,3)] by (simp del: put_node_simps put_slave_simps)
        have "slave_ok ?s" using s(1) unfolding slave_ok_def by simp
        then have "harbor_shape ?h'" by (rule put_slave_ok [OF b1(1)])
        moreover have "buffers ?h' + mset (map hm_buffer (opt_contents (sl_queue s))) = buffers ?h1"
          using put_slave_bufs [of ?rid ?h1 ?s] s(2) by (simp add: slave_bufs_def s_def)
        then have "buffers h = buffers ?h' + given (concat (map ?g (hq_contents sq)))"
          unfolding given_sends m(4) mset_hq using b1(2) by (simp add: ac_simps)
        ultimately show thesis using that [OF res, of nq] m(3) by (simp add: node_def)
      next
        case False
        let ?s = "s\<lparr>sl_queue := Some sq\<rparr>"
        let ?h' = "put_slave ?rid ?s ?h1"
        have res: "dispatch_name_queue name i h = Some ([], ?h')"
          unfolding eq m(1) using False by (simp del: put_node_simps put_slave_simps)
        have "slave_ok ?s" by (rule queue_slave_ok [OF s(1) m(2)]) (simp add: w)
        then have "harbor_shape ?h'" by (rule put_slave_ok [OF b1(1)])
        moreover have "buffers ?h' + mset (map hm_buffer (opt_contents (sl_queue s))) = buffers ?h1 + mset (map hm_buffer (hq_contents sq))"
          using put_slave_bufs [of ?rid ?h1 ?s] s(2) by (simp add: slave_bufs_def s_def)
        then have "buffers h = buffers ?h' + given []"
          unfolding m(4) mset_hq using b1(2) by (simp add: ac_simps)
        ultimately show thesis using that [OF res, of nq] m(3) by (simp add: node_def)
      qed
    qed
  qed
qed

text \<open>The table as a map from names to the handle and the messages that wait for it.\<close>

definition name_view :: "hashmap \<Rightarrow> bytes \<Rightarrow> u32 \<times> harbor_msg list" where
  "name_view m name = (case hash_search m name of
     None \<Rightarrow> (0, [])
   | Some i \<Rightarrow> (kv_value (node_at m name i), opt_contents (kv_queue (node_at m name i))))"

lemma find_node_cong:
  "map (\<lambda>n. (kv_hash n, kv_key n)) ns = map (\<lambda>n. (kv_hash n, kv_key n)) ns' \<Longrightarrow> find_node hv name ns k = find_node hv name ns' k"
proof (induction ns arbitrary: ns' k)
  case (Cons n ns)
  then obtain n' t where "ns' = n' # t" by (cases ns') auto
  with Cons show ?case by auto
qed simp

lemma find_node_shift: "find_node hv name ns (Suc k) = map_option Suc (find_node hv name ns k)"
  by (induction ns arbitrary: k) auto

lemma name_view_hash_node:
  assumes m: "map_ok m" and n: "name_ok name" "name_ok other" and hn: "hash_node name m = (i, m')"
  shows "name_view m' other = name_view m other"
proof (cases "hash_search m name")
  case (Some j)
  with hn show ?thesis by (simp add: hash_node_def)
next
  case None
  then have m': "m' = hash_insert m name" using hn by (simp add: hash_node_def)
  have c: "chain_of name < length m" using m by (simp add: map_ok_def)
  have k: "take GLOBALNAME_LENGTH name = name" using n(1) by (simp add: name_ok_def)
  show ?thesis
  proof (cases "other = name")
    case True
    have "hash_search m' name = Some 0" using hash_node_ok(2) [OF m n(1) hn] hn None by (simp add: hash_node_def)
    then show ?thesis using True None c unfolding m' by (simp add: name_view_def node_at_def hash_insert_def)
  next
    case False
    then have ne: "\<not> strncmp_eq name other" using strncmp_names n by auto
    show ?thesis
    proof (cases "chain_of other = chain_of name")
      case True
      have "hash_search m' other = map_option Suc (hash_search m other)"
        using ne c unfolding m' by (simp add: hash_search_def True hash_insert_def k find_node_shift)
      then show ?thesis using c unfolding m' by (simp add: name_view_def node_at_def hash_insert_def True split: option.splits)
    next
      case False
      then show ?thesis unfolding m' by (simp add: name_view_def hash_search_def node_at_def hash_insert_def split: option.split)
    qed
  qed
qed

lemma name_view_put:
  assumes m: "map_ok m" and n: "name_ok name" "name_ok other" and s: "hash_search m name = Some i"
    and k: "kv_key node = kv_key (node_at m name i)" "kv_hash node = kv_hash (node_at m name i)"
  shows "name_view (m[chain_of name := (m ! chain_of name)[i := node]]) other =
     (if other = name then (kv_value node, opt_contents (kv_queue node)) else name_view m other)"
proof -
  let ?m = "m[chain_of name := (m ! chain_of name)[i := node]]"
  have c: "chain_of name < length m" using m by (simp add: map_ok_def)
  have i: "i < length (m ! chain_of name)" by (rule search_Some(1) [OF m n(1) s])
  have "map (\<lambda>n. (kv_hash n, kv_key n)) ((m ! chain_of name)[i := node]) = map (\<lambda>n. (kv_hash n, kv_key n)) (m ! chain_of name)"
    by (rule map_update_same) (use i k in \<open>simp_all add: node_at_def\<close>)
  from find_node_cong [OF this]
  have fc: "find_node hv x ((m ! chain_of name)[i := node]) j = find_node hv x (m ! chain_of name) j" for hv x j .
  have same: "hash_search ?m x = hash_search m x" for x
    using c by (cases "chain_of x = chain_of name") (simp_all add: hash_search_def fc)
  show ?thesis
  proof (cases "other = name")
    case True
    then show ?thesis using s c i unfolding name_view_def same by (simp add: node_at_def)
  next
    case False
    have "node_at ?m other j = node_at m other j" if j: "hash_search m other = Some j" for j
    proof (cases "chain_of other = chain_of name \<and> j = i")
      case True
      then have "other = name" using search_Some(2) [OF m n(2) j] search_Some(2) [OF m n(1) s] by (simp add: node_at_def)
      with False show ?thesis by simp
    next
      case False
      then show ?thesis using c by (cases "chain_of other = chain_of name") (simp_all add: node_at_def)
    qed
    then show ?thesis using False unfolding name_view_def same by (simp split: option.splits)
  qed
qed

lemma update_name_ok:
  assumes h: "harbor_ok h" and n: "name_ok name"
  obtains out h' where "update_name name handle h = Some (out, h')" "harbor_ok h'" "buffers h = buffers h' + given out"
    "\<And>other. name_ok other \<Longrightarrow> name_view (hb_map h') other = (if other = name then (handle, []) else name_view (hb_map h) other)"
proof -
  obtain i m where hn: "hash_node name (hb_map h) = (i, m)" by fastforce
  note hm = hash_node_map [OF h n hn]
  have m0: "map_ok (hb_map h)" using h by (simp add: harbor_ok_def harbor_shape_def)
  note hk = hash_node_ok [OF m0 n hn]
  have c: "chain_of name < length m" using hk(1) by (simp add: map_ok_def)
  define node where "node = (node_at m name i)\<lparr>kv_value := handle\<rparr>"
  define h1 where "h1 = put_node name i node (h\<lparr>hb_map := m\<rparr>)"
  have nd: "kv_ok (chain_of name) node" "kv_key node = kv_key (node_at m name i)" "kv_hash node = kv_hash (node_at m name i)"
    using hk(5) by (simp_all add: node_def kv_ok_def)
  have s1: "harbor_shape h1" unfolding h1_def
    by (rule put_node_ok) (use hm(1) hk(3) nd in \<open>simp_all add: harbor_ok_def\<close>)
  have "buffers h1 + mset (node_bufs (node_at m name i)) = buffers (h\<lparr>hb_map := m\<rparr>) + mset (node_bufs node)"
    using put_node_bufs [of "h\<lparr>hb_map := m\<rparr>" i name node] hm(1) hk(3) by (simp add: harbor_ok_def h1_def)
  then have b1: "buffers h1 = buffers h" using hm(2) by (simp add: node_def)
  have at1: "node_at (hb_map h1) name i = node" "hb_map h1 = m[chain_of name := (m ! chain_of name)[i := node]]"
    "i < length (hb_map h1 ! chain_of name)"
    using c hk(3) by (simp_all add: h1_def node_at_def)
  have v: "name_view (m[chain_of name := (m ! chain_of name)[i := x]]) other = (if other = name then (handle, []) else name_view (hb_map h) other)"
    if "name_ok other" "kv_key x = kv_key node" "kv_hash x = kv_hash node" "kv_value x = handle" "kv_queue x = None" for other x
    using name_view_put [OF hk(1) n that(1) hk(2), of x] that nd name_view_hash_node [OF m0 n that(1) hn] by simp
  have f: "update_name name handle h = (if kv_queue node = None then Some ([], h1)
         else do {
           (out, h) \<leftarrow> dispatch_name_queue name i h1;
           let node = node_at (hb_map h) name i;
           out' \<leftarrow> release_queue (kv_queue node);
           Some (out @ out', put_node name i (node\<lparr>kv_queue := None\<rparr>) h) })"
    unfolding update_name_def hn h1_def node_def using at1(1) by (simp add: h1_def node_def Let_def del: put_node_simps)
  show thesis
  proof (cases "kv_queue node")
    case None
    have "drained (hb_map h1)" unfolding at1(2) by (rule drained_put) (use hm(1) hk(1) None in \<open>simp_all add: harbor_ok_def\<close>)
    then have "harbor_ok h1" using s1 by (simp add: harbor_ok_def)
    moreover have "name_view (hb_map h1) other = (if other = name then (handle, []) else name_view (hb_map h) other)" if "name_ok other" for other
      unfolding at1(2) by (rule v [OF that refl refl]) (simp_all add: node_def None [unfolded node_def])
    ultimately show thesis using that [of "[]" h1] f None b1 by simp
  next
    case (Some q)
    then have "kv_queue (node_at (hb_map h1) name i) = Some q" using at1(1) by simp
    from dispatch_name_queue_ok [OF s1 at1(3) this] obtain out h2 q' where d:
      "dispatch_name_queue name i h1 = Some (out, h2)" "harbor_shape h2"
      "hb_map h2 = hb_map (put_node name i (node\<lparr>kv_queue := q'\<rparr>) h1)" "opt_inv q'" "buffers h1 = buffers h2 + given out"
      unfolding at1(1) by blast
    have map2: "hb_map h2 = m[chain_of name := (m ! chain_of name)[i := node\<lparr>kv_queue := q'\<rparr>]]"
      using d(3) c by (simp add: at1(2))
    then have at2: "node_at (hb_map h2) name i = node\<lparr>kv_queue := q'\<rparr>" "i < length (hb_map h2 ! chain_of name)"
      using c hk(3) by (simp_all add: node_at_def)
    let ?x = "node\<lparr>kv_queue := None\<rparr>"
    let ?h3 = "put_node name i ?x h2"
    have x: "kv_ok (chain_of name) ?x" using nd(1) by (simp add: kv_ok_def)
    have "harbor_shape ?h3" by (rule put_node_ok [OF d(2) at2(2) x]) (simp add: at2)
    moreover have map3: "hb_map ?h3 = m[chain_of name := (m ! chain_of name)[i := ?x]]" using c by (simp add: map2)
    moreover have "drained (hb_map ?h3)" unfolding map3
      by (rule drained_put) (use hm(1) hk(1) in \<open>simp_all add: harbor_ok_def\<close>)
    ultimately have ok3: "harbor_ok ?h3" by (simp add: harbor_ok_def)
    have "buffers ?h3 + mset (map hm_buffer (opt_contents q')) = buffers h2"
      using put_node_bufs [OF d(2) at2(2), of ?x] by (simp add: at2 node_bufs_def)
    then have "buffers h = buffers ?h3 + given (out @ map (\<lambda>m. Freed (hm_buffer m)) (opt_contents q'))"
      using b1 d(5) by (simp add: given_freed ac_simps)
    moreover have "update_name name handle h = Some (out @ map (\<lambda>m. Freed (hm_buffer m)) (opt_contents q'), ?h3)"
      unfolding f using Some d(1) release_queue_ok [OF d(4)] by (simp add: at2 del: put_node_simps)
    moreover have "name_view (hb_map ?h3) other = (if other = name then (handle, []) else name_view (hb_map h) other)" if "name_ok other" for other
      unfolding map3 by (rule v [OF that]) (simp_all add: node_def)
    ultimately show thesis using that ok3 by blast
  qed
qed

section \<open>Commands and the callback\<close>

lemma command_name_ok:
  assumes h: "harbor_ok h" and n: "0 \<notin> set name"
  shows "keeps {#} h (command_name name source h)"
proof (cases "length name = 0 \<or> length name \<ge> GLOBALNAME_LENGTH")
  case True
  then show ?thesis using h by (auto simp: command_name_def intro!: keepsI)
next
  case False
  have "takeWhile (\<lambda>b. b \<noteq> 0) (name @ replicate k 0) = name" for k
    using n by (induction name) (auto simp: takeWhile_replicate)
  then have "name_ok (name @ replicate (GLOBALNAME_LENGTH - length name) 0)"
    using False by (simp add: name_ok_def cstr_def)
  from update_name_ok [OF h this, of source] obtain out h' where
    "update_name (name @ replicate (GLOBALNAME_LENGTH - length name) 0) source h = Some (out, h')" "harbor_ok h'"
    "buffers h = buffers h' + given out" by blast
  with False show ?thesis by (auto simp: command_name_def intro!: keepsI)
qed

lemma command_socket_keeps:
  assumes h: "harbor_ok h"
  shows "keeps {#} h (command_socket connect arg h)"
proof -
  obtain fd r where p: "scan_peer (cstr arg) = (fd, r)" by fastforce
  show ?thesis
  proof (cases "fd = 0 \<or> r \<le> 0 \<or> r \<ge> int REMOTE_MAX \<or> sl_fd (hb_s h ! nat r) \<noteq> 0")
    case True
    have "command_socket connect arg h = Some ([HarborError], h)"
    proof (cases "fd = 0 \<or> r \<le> 0 \<or> r \<ge> int REMOTE_MAX")
      case False
      then have "nat r < length (hb_s h)" "sl_fd (hb_s h ! nat r) \<noteq> 0" using True h by (auto simp: harbor_ok_def harbor_shape_def)
      with False p show ?thesis by (simp add: command_socket_def)
    qed (use p in \<open>simp add: command_socket_def\<close>)
    with h show ?thesis by (auto intro!: keepsI)
  next
    case False
    define rid where "rid = nat r"
    define s where "s = hb_s h ! rid"
    have r: "fd \<noteq> 0" "rid < REMOTE_MAX" "sl_fd s = 0" "\<not> r \<le> 0" "\<not> int REMOTE_MAX \<le> r" using False by (auto simp: rid_def s_def)
    have s: "slave_ok s" "rid < length (hb_s h)" using slave_at [of h rid] h r(2) by (auto simp: harbor_ok_def s_def)
    have st: "sl_status s \<noteq> STATUS_CONTENT" using slave_idle [OF s(1) r(3)] by simp
    let ?sS = "s\<lparr>sl_fd := fd, sl_status := STATUS_HANDSHAKE\<rparr>" and ?sA = "s\<lparr>sl_fd := fd, sl_status := STATUS_HEADER\<rparr>"
    have f: "command_socket connect arg h = (if connect then Some ([SocketStart fd, SocketSend fd [of_int (hb_id h)]], put_slave rid ?sS h)
        else do { (out, h') \<leftarrow> dispatch_queue rid (put_slave rid ?sA h);
          Some ([SocketStart fd, SocketSend fd [of_int (hb_id h)]] @ out, h') })"
      using r s(2) p by (simp add: command_socket_def handshake_def Let_def s_def rid_def [symmetric])
    show ?thesis
    proof (cases connect)
      case True
      have "slave_ok ?sS" using s(1) r(1) st unfolding slave_ok_def by simp
      moreover have "buffers (put_slave rid ?sS h) = buffers h"
        using put_slave_bufs [OF s(2), of ?sS] by (simp add: slave_bufs_def s_def)
      ultimately show ?thesis unfolding f using True ok_put_slave [OF h] by (simp add: keepsI del: put_slave_simps)
    next
      case False
      have "keeps {#} h (dispatch_queue rid (put_slave rid ?sA h))"
      proof (rule flush_ok [OF h r(2)])
        show "slave_ok (?sA\<lparr>sl_queue := None\<rparr>)" using s(1) r(1) st unfolding slave_ok_def by simp
      qed (use r(1) in \<open>simp_all add: s_def\<close>)
      then obtain out h' where "dispatch_queue rid (put_slave rid ?sA h) = Some (out, h')" "harbor_ok h'"
        "buffers h + {#} = buffers h' + given out" by (rule keepsD)
      then show ?thesis unfolding f using False by (simp add: keepsI del: put_slave_simps)
    qed
  qed
qed

text \<open>Events and commands as the other services and the socket thread send them, data apart.\<close>

definition input_ok :: "u32 \<Rightarrow> harbor_in \<Rightarrow> bool" where
  "input_ok type msg \<longleftrightarrow>
     (if type = PTYPE_SOCKET then (case msg of SocketEvent m \<Rightarrow> sm_type m \<noteq> SOCKET_TYPE_DATA | _ \<Rightarrow> False)
      else if type = PTYPE_HARBOR then (case msg of CommandText t \<Rightarrow> 2 \<le> length t \<and> 0 \<notin> set t | _ \<Rightarrow> False)
      else if type = PTYPE_SYSTEM then (case msg of
          RemoteMessage (Remote dest m sz ty) \<Rightarrow> block m sz \<noteq> None \<and> (rn_handle dest = 0 \<longrightarrow> name_ok (rn_name dest))
        | _ \<Rightarrow> False)
      else True)"

text \<open>The buffer a message hands over.\<close>

definition input_bufs :: "u32 \<Rightarrow> harbor_in \<Rightarrow> bytes multiset" where
  "input_bufs type msg =
     (case msg of RemoteMessage (Remote dest m sz ty) \<Rightarrow> if type = PTYPE_SYSTEM then {#the (block m sz)#} else {#} | _ \<Rightarrow> {#})"

lemma ptype_distinct [simp]: "PTYPE_SYSTEM \<noteq> PTYPE_SOCKET" "PTYPE_SYSTEM \<noteq> PTYPE_HARBOR" "PTYPE_HARBOR \<noteq> PTYPE_SOCKET"
  by (simp_all add: PTYPE_SYSTEM_def PTYPE_SOCKET_def PTYPE_HARBOR_def)

lemma remote_out_ok:
  assumes h: "harbor_ok h" and m: "block msg sz = Some b" "rn_handle dest = 0 \<Longrightarrow> name_ok (rn_name dest)"
  shows "keeps {#b#} h (remote_out (Remote dest msg sz ty) session source h)"
proof -
  have "\<exists>kept out h'. (if rn_handle dest = 0 then remote_send_name source (rn_name dest) ty session b h
             else remote_send_handle source (rn_handle dest) ty session b h) = Some (kept, out, h') \<and> harbor_ok h'
             \<and> buffers h + {#b#} = buffers h' + given out + (if kept then {#} else {#b#})"
  proof (cases "rn_handle dest = 0")
    case True
    from remote_send_name_ok [OF h m(2) [OF this], of source ty session b] True show ?thesis by (metis (no_types, lifting))
  next
    case False
    from remote_send_handle_ok [OF h, of source "rn_handle dest" ty session b] False show ?thesis by (metis (no_types, lifting))
  qed
  then obtain kept out h' where o: "(if rn_handle dest = 0 then remote_send_name source (rn_name dest) ty session b h
             else remote_send_handle source (rn_handle dest) ty session b h) = Some (kept, out, h')" "harbor_ok h'"
    "buffers h + {#b#} = buffers h' + given out + (if kept then {#} else {#b#})" by blast
  have "remote_out (Remote dest msg sz ty) session source h = Some (if kept then out else out @ [Freed b], h')"
    unfolding remote_out_def using m(1) o(1) by simp
  with o(2,3) show ?thesis by (cases kept) (simp_all add: keepsI)
qed

lemma socket_event_quiet:
  assumes "sm_type m \<noteq> SOCKET_TYPE_DATA"
  shows "\<exists>out. socket_event ret m h = Some (out, h) \<and> given out = {#}"
  using assms by (simp add: socket_event_def report_harbor_down_def Let_def)



text \<open>
  C38: The table of global names is a map. Registering a name (the command \<open>N\<close>) gives it that handle,
  leaves no message waiting at it and changes no other name; sending to a name that is registered
  changes nothing and goes where sending to its handle goes; sending to one that is not appends the
  message to those that wait for this name, asks the slave service for it, and changes no other name.
\<close>

theorem harbor_names_refine:
  assumes "harbor_ok h" "name_ok name"
  shows "(\<exists>out h'. update_name name handle h = Some (out, h') \<and> harbor_ok h'
       \<and> (\<forall>n. name_ok n \<longrightarrow> name_view (hb_map h') n = ((name_view (hb_map h))(name := (handle, []))) n))
     \<and> (\<exists>h0. harbor_ok h0 \<and> hb_s h0 = hb_s h \<and> (\<forall>n. name_ok n \<longrightarrow> name_view (hb_map h0) n = name_view (hb_map h) n)
       \<and> (if fst (name_view (hb_map h) name) \<noteq> 0
          then remote_send_name source name type session msg h = remote_send_handle source (fst (name_view (hb_map h) name)) type session msg h0
          else \<exists>h'. remote_send_name source name type session msg h =
              Some (True, [SkynetSend 0 (hb_slave h) 0 0 (Some (str ''Q '' @ cstr name))], h') \<and> harbor_ok h' \<and> hb_s h' = hb_s h
            \<and> (\<forall>n. name_ok n \<longrightarrow> name_view (hb_map h') n = ((name_view (hb_map h))(name := (0, snd (name_view (hb_map h) name) @
                [\<lparr>hm_header = \<lparr>rh_source = source, rh_destination = push_bit HANDLE_REMOTE_SHIFT type, rh_session = session\<rparr>,
                  hm_buffer = msg\<rparr>]))) n)))"
    (is "?A \<and> ?B")
proof
  from update_name_ok [OF assms, of handle] obtain out h' where
    "update_name name handle h = Some (out, h')" "harbor_ok h'"
    "\<And>n. name_ok n \<Longrightarrow> name_view (hb_map h') n = (if n = name then (handle, []) else name_view (hb_map h) n)" by blast
  then show ?A by simp
  obtain i m where hn: "hash_node name (hb_map h) = (i, m)" by fastforce
  let ?h = "h\<lparr>hb_map := m\<rparr>"
  let ?hdr = "\<lparr>rh_source = source, rh_destination = push_bit HANDLE_REMOTE_SHIFT type, rh_session = session\<rparr>"
  note hm = hash_node_map [OF assms hn]
  have m0: "map_ok (hb_map h)" using assms(1) by (simp add: harbor_ok_def harbor_shape_def)
  note hk = hash_node_ok [OF m0 assms(2) hn]
  note vn = name_view_hash_node [OF m0 assms(2) _ hn]
  have c: "chain_of name < length m" using hk(1) by (simp add: map_ok_def)
  define node where "node = node_at m name i"
  have v: "name_view (hb_map h) name = (kv_value node, opt_contents (kv_queue node))"
    using vn [OF assms(2)] hk(2) by (simp add: name_view_def node_def)
  have k: "take GLOBALNAME_LENGTH name = name" using assms(2) by (simp add: name_ok_def)
  have f: "remote_send_name source name type session msg h =
     (if kv_value node = 0 then do {
        queue \<leftarrow> push_queue msg ?hdr (case kv_queue node of None \<Rightarrow> new_queue | Some q \<Rightarrow> q);
        Some (True, [SkynetSend 0 (hb_slave h) 0 0 (Some (str ''Q '' @ cstr name))], put_node name i (node\<lparr>kv_queue := Some queue\<rparr>) ?h) }
      else remote_send_handle source (kv_value node) type session msg ?h)"
    by (simp add: remote_send_name_def hn node_def Let_def k)
  have "\<exists>h'. remote_send_name source name type session msg h =
       Some (True, [SkynetSend 0 (hb_slave h) 0 0 (Some (str ''Q '' @ cstr name))], h') \<and> harbor_ok h' \<and> hb_s h' = hb_s h
     \<and> (\<forall>n. name_ok n \<longrightarrow> name_view (hb_map h') n = ((name_view (hb_map h))(name := (0, opt_contents (kv_queue node) @ [\<lparr>hm_header = ?hdr, hm_buffer = msg\<rparr>]))) n)"
    if z: "kv_value node = 0"
  proof -
    from hk(5) have "opt_inv (kv_queue node)" by (simp add: kv_ok_def node_def)
    from push_queue_ok [OF this, of msg ?hdr] obtain q where
      q: "push_queue msg ?hdr (case kv_queue node of None \<Rightarrow> new_queue | Some p \<Rightarrow> p) = Some q"
      "hq_contents q = opt_contents (kv_queue node) @ [\<lparr>hm_header = ?hdr, hm_buffer = msg\<rparr>]" by blast
    let ?h' = "put_node name i (node\<lparr>kv_queue := Some q\<rparr>) ?h"
    have "remote_send_name source name type session msg h = Some (True, [SkynetSend 0 (hb_slave h) 0 0 (Some (str ''Q '' @ cstr name))], ?h')"
      unfolding f using z q(1) by simp
    moreover from remote_send_name_ok [OF assms, of source type session msg] calculation have "harbor_ok ?h'" by auto
    moreover have "name_view (hb_map ?h') n = ((name_view (hb_map h))(name := (0, hq_contents q))) n" if "name_ok n" for n
      using name_view_put [OF hk(1) assms(2) that hk(2), of "node\<lparr>kv_queue := Some q\<rparr>"] vn [OF that] z by (simp add: node_def)
    ultimately show ?thesis unfolding q(2) by (intro exI [of _ ?h']) (simp del: put_node_simps(4))
  qed
  then show ?B using hm(1) vn v f by (intro exI [of _ ?h]) simp
qed

lemma harbor_create_ok: "harbor_ok harbor_create"
  by (simp add: harbor_ok_def harbor_shape_def harbor_create_def empty_slave_def slave_ok_def map_ok_def drained_def hash_new_def
      STATUS_WAIT_def STATUS_CONTENT_def)

definition demo_name :: bytes where
  "demo_name = [102, 111, 111, 0, 0, 0, 0, 0, 0, 0, 0, 0, 0, 0, 0, 0]"

lemma demo_name_ok: "name_ok demo_name"
  by code_simp

theorem harbor_names_refine_witness:
  "(\<exists>out h'. update_name demo_name 9 harbor_create = Some (out, h') \<and> harbor_ok h'
       \<and> (\<forall>n. name_ok n \<longrightarrow> name_view (hb_map h') n = ((name_view (hb_map harbor_create))(demo_name := (9, []))) n))
     \<and> (\<exists>h0. harbor_ok h0 \<and> hb_s h0 = hb_s harbor_create \<and> (\<forall>n. name_ok n \<longrightarrow> name_view (hb_map h0) n = name_view (hb_map harbor_create) n)
       \<and> (if fst (name_view (hb_map harbor_create) demo_name) \<noteq> 0
          then remote_send_name 5 demo_name 10 3 [1, 2] harbor_create
             = remote_send_handle 5 (fst (name_view (hb_map harbor_create) demo_name)) 10 3 [1, 2] h0
          else \<exists>h'. remote_send_name 5 demo_name 10 3 [1, 2] harbor_create =
              Some (True, [SkynetSend 0 (hb_slave harbor_create) 0 0 (Some (str ''Q '' @ cstr demo_name))], h') \<and> harbor_ok h'
            \<and> hb_s h' = hb_s harbor_create
            \<and> (\<forall>n. name_ok n \<longrightarrow> name_view (hb_map h') n = ((name_view (hb_map harbor_create))(demo_name := (0,
                snd (name_view (hb_map harbor_create) demo_name) @
                [\<lparr>hm_header = \<lparr>rh_source = 5, rh_destination = push_bit HANDLE_REMOTE_SHIFT 10, rh_session = 3\<rparr>,
                  hm_buffer = [1, 2]\<rparr>]))) n)))"
  by (rule harbor_names_refine [OF harbor_create_ok demo_name_ok])

section \<open>Two defects\<close>

lemma dispatch_name_queue_wait:
  assumes "kv_queue (node_at (hb_map h) name i) = Some q" "unat (drop_bit HANDLE_REMOTE_SHIFT (kv_value (node_at (hb_map h) name i))) = rid"
    "rid < length (hb_s h)" "sl_fd (hb_s h ! rid) = 0" "sl_status (hb_s h ! rid) \<noteq> STATUS_DOWN" "sl_queue (hb_s h ! rid) = None"
    "unat (drop_bit HANDLE_REMOTE_SHIFT (hb_slave h)) \<noteq> rid"
  shows "dispatch_name_queue name i h =
     Some ([], put_slave rid ((hb_s h ! rid)\<lparr>sl_queue := Some q\<rparr>) (put_node name i ((node_at (hb_map h) name i)\<lparr>kv_queue := None\<rparr>) h))"
  using assms by (simp add: dispatch_name_queue_def Let_def)

text \<open>
  C39: A message sent to a global name before the name is known reaches the wrong service when the
  node of the name is not connected at the moment the name is registered. The message waits in the
  queue of the name without the handle of its destination; the branch of \<open>dispatch_name_queue\<close> that
  writes to a connection fills the handle in, but the branch that hands the queue to a peer which is
  still to be connected does not. When the connection comes up the message goes out addressed to
  handle 0 of the other node.
\<close>

theorem harbor_named_message_loses_its_handle:
  assumes h: "harbor_ok h" and n: "name_ok name" and unknown: "name_view (hb_map h) name = (0, [])"
    and w: "waiting h rid []" "sl_queue (hb_s h ! rid) = None"
    and to: "unat (drop_bit HANDLE_REMOTE_SHIFT handle) = rid" "unat (drop_bit HANDLE_REMOTE_SHIFT (hb_slave h)) \<noteq> rid"
    and fd: "fd \<noteq> 0" "- (2 ^ 31) \<le> fd" "fd < 2 ^ 31" and sz: "length data + HEADER_COOKIE_LENGTH < 2 ^ 24"
  shows "\<exists>out h1 h2 h3. remote_send_name source name type session data h = Some (True, out, h1)
     \<and> update_name name handle h1 = Some ([], h2)
     \<and> mainloop ret PTYPE_HARBOR 0 0 (CommandText (socket_command CHR ''A'' fd rid)) h2 =
         Some ([SocketStart fd, SocketSend fd [of_int (hb_id h)], SocketSend fd
           (wire_of data \<lparr>rh_source = source, rh_destination = push_bit HANDLE_REMOTE_SHIFT type, rh_session = session\<rparr>), Freed data], h3)
     \<and> push_bit HANDLE_REMOTE_SHIFT type AND HANDLE_MASK = 0"
proof -
  let ?hdr = "\<lparr>rh_source = source, rh_destination = push_bit HANDLE_REMOTE_SHIFT type, rh_session = session\<rparr>"
  obtain i m where hn: "hash_node name (hb_map h) = (i, m)" by fastforce
  have m0: "map_ok (hb_map h)" using h by (simp add: harbor_ok_def harbor_shape_def)
  note hk = hash_node_ok [OF m0 n hn]
  define node where "node = node_at m name i"
  have v: "kv_value node = 0" "opt_contents (kv_queue node) = []"
    using name_view_hash_node [OF m0 n n hn] unknown hk(2) by (simp_all add: name_view_def node_def)
  from hk(5) have "opt_inv (kv_queue node)" by (simp add: kv_ok_def node_def)
  from push_queue_ok [OF this, of data ?hdr] v(2) obtain q where
    q: "push_queue data ?hdr (case kv_queue node of None \<Rightarrow> new_queue | Some p \<Rightarrow> p) = Some q" "hq_inv q"
    "hq_contents q = [\<lparr>hm_header = ?hdr, hm_buffer = data\<rparr>]" by auto
  let ?c = "chain_of name"
  have c: "?c < length m" using hk(1) by (simp add: map_ok_def)
  define h1 where "h1 = put_node name i (node\<lparr>kv_queue := Some q\<rparr>) (h\<lparr>hb_map := m\<rparr>)"
  have send: "remote_send_name source name type session data h
      = Some (True, [SkynetSend 0 (hb_slave h) 0 0 (Some (str ''Q '' @ cstr (take GLOBALNAME_LENGTH name)))], h1)"
    using v(1) q(1) by (simp add: remote_send_name_def hn node_def Let_def h1_def)
  have S: "hb_s h1 = hb_s h" "hb_id h1 = hb_id h" "hb_slave h1 = hb_slave h" by (simp_all add: h1_def)
  have at1: "hb_map h1 = m[?c := (m ! ?c)[i := node\<lparr>kv_queue := Some q\<rparr>]]" by (simp add: h1_def)
  have key: "map (\<lambda>x. (kv_hash x, kv_key x)) ((m ! ?c)[i := node\<lparr>kv_queue := Some q\<rparr>]) = map (\<lambda>x. (kv_hash x, kv_key x)) (m ! ?c)"
    by (rule map_update_same) (use hk(3) in \<open>simp_all add: node_def node_at_def\<close>)
  have "hash_search (hb_map h1) name = Some i"
    using hk(2) c unfolding at1 by (simp add: hash_search_def find_node_cong [OF key])
  then have hn1: "hash_node name (hb_map h1) = (i, hb_map h1)" by (simp add: hash_node_def)
  let ?n1 = "node\<lparr>kv_queue := Some q, kv_value := handle\<rparr>"
  let ?g = "put_node name i ?n1 h1"
  have node1: "node_at (hb_map h1) name i = node\<lparr>kv_queue := Some q\<rparr>" "node_at (hb_map ?g) name i = ?n1"
    using c hk(3) unfolding node_at_def by (simp_all add: at1)
  have W: "length (hb_s h) = REMOTE_MAX" "rid < REMOTE_MAX" "sl_fd (hb_s h ! rid) = 0" "sl_status (hb_s h ! rid) = STATUS_WAIT"
    "sl_read (hb_s h ! rid) = 0" "length (sl_size (hb_s h ! rid)) = 4" "0 < rid" "hb_id h \<noteq> int rid"
    using w(1) by (simp_all add: waiting_def)
  let ?s = "(hb_s h ! rid)\<lparr>sl_queue := Some q\<rparr>"
  let ?d = "put_slave rid ?s (put_node name i (?n1\<lparr>kv_queue := None\<rparr>) ?g)"
  have disp: "dispatch_name_queue name i ?g = Some ([], ?d)"
    using dispatch_name_queue_wait [of ?g name i q rid] node1(2) to W w(2) S
    by (simp add: status_distinct del: put_node_simps(4) put_slave_simps)
  have upd: "\<exists>h2. update_name name handle h1 = Some ([], h2) \<and> hb_s h2 = (hb_s h)[rid := ?s] \<and> hb_id h2 = hb_id h"
  proof -
    have self: "h1\<lparr>hb_map := hb_map h1\<rparr> = h1" by simp
    have g: "(node_at (hb_map h1) name i)\<lparr>kv_value := handle\<rparr> = ?n1" using node1(1) by simp
    have "update_name name handle h1 = (if kv_queue ?n1 = None then Some ([], ?g)
         else do {
           (out, h) \<leftarrow> dispatch_name_queue name i ?g;
           let node = node_at (hb_map h) name i;
           out' \<leftarrow> release_queue (kv_queue node);
           Some (out @ out', put_node name i (node\<lparr>kv_queue := None\<rparr>) h) })"
      unfolding update_name_def hn1 prod.case Let_def self g node1(2) by (rule refl)
    moreover have "kv_queue (node_at (hb_map ?d) name i) = None"
      using c hk(3) by (simp add: node_at_def at1)
    ultimately show ?thesis using disp S by (simp add: release_queue_def del: put_slave_simps(5))
  qed
  then obtain h2 where h2: "update_name name handle h1 = Some ([], h2)" "hb_s h2 = (hb_s h)[rid := ?s]" "hb_id h2 = hb_id h" by blast
  have w2: "waiting h2 rid [\<lparr>hm_header = ?hdr, hm_buffer = data\<rparr>]"
    using W h2 q(2,3) by (simp add: waiting_def)
  have at2: "hb_s h2 ! rid = ?s" using h2(2) W by simp
  have "dispatch_queue rid (put_slave rid (?s\<lparr>sl_fd := fd, sl_status := STATUS_HEADER\<rparr>) h2)
      = Some ([SocketSend fd (wire_of data ?hdr), Freed data], put_slave rid (?s\<lparr>sl_fd := fd, sl_status := STATUS_HEADER, sl_queue := None\<rparr>) h2)"
    using dispatch_queue_ok [of rid "put_slave rid (?s\<lparr>sl_fd := fd, sl_status := STATUS_HEADER\<rparr>) h2" "?s\<lparr>sl_fd := fd, sl_status := STATUS_HEADER\<rparr>" fd]
      W h2(2) q(2,3) fd(1) sz send_remote_wire [of data fd ?hdr] by simp
  then have "\<exists>h3. mainloop ret PTYPE_HARBOR 0 0 (CommandText (socket_command CHR ''A'' fd rid)) h2 =
      Some ([SocketStart fd, SocketSend fd [of_int (hb_id h)], SocketSend fd (wire_of data ?hdr), Freed data], h3)"
    using mainloop_command(2) [OF waiting_unconnected [OF w2] fd, of ret 0 0] unfolding at2 h2(3) by simp
  moreover have "push_bit HANDLE_REMOTE_SHIFT type AND HANDLE_MASK = (0 :: u32)"
    by (rule bit_word_eqI) (simp add: HANDLE_REMOTE_SHIFT_def mask24 bit_simps)
  ultimately show ?thesis using send h2(1) by blast
qed

theorem harbor_named_message_loses_its_handle_witness:
  "\<exists>out h1 h2 h3. remote_send_name 5 demo_name 10 3 [1, 2] (harbor_create\<lparr>hb_id := 1, hb_slave := 0x01000003\<rparr>) = Some (True, out, h1)
     \<and> update_name demo_name 0x02000009 h1 = Some ([], h2)
     \<and> mainloop (\<lambda>_. 0) PTYPE_HARBOR 0 0 (CommandText (socket_command CHR ''A'' 7 2)) h2 =
         Some ([SocketStart 7, SocketSend 7 [of_int (hb_id (harbor_create\<lparr>hb_id := 1, hb_slave := 0x01000003\<rparr>))], SocketSend 7
           (wire_of [1, 2] \<lparr>rh_source = 5, rh_destination = push_bit HANDLE_REMOTE_SHIFT 10, rh_session = 3\<rparr>), Freed [1, 2]], h3)
     \<and> push_bit HANDLE_REMOTE_SHIFT (10 :: u32) AND HANDLE_MASK = 0"
proof (rule harbor_named_message_loses_its_handle)
  let ?h = "harbor_create\<lparr>hb_id := 1, hb_slave := 0x01000003\<rparr>"
  show "harbor_ok ?h" using harbor_create_ok by (simp add: harbor_ok_def harbor_shape_def)
  show "name_ok demo_name" by (rule demo_name_ok)
  show "name_view (hb_map ?h) demo_name = (0, [])"
    using chain_less [of demo_name] by (simp add: name_view_def hash_search_def harbor_create_def hash_new_def)
qed (simp_all add: waiting_def harbor_create_def empty_slave_def REMOTE_MAX_def STATUS_WAIT_def HANDLE_REMOTE_SHIFT_def
    HEADER_COOKIE_LENGTH_def drop_bit_eq_div)

text \<open>A header whose first byte is not 0 closes the connection, whatever was read before it.\<close>

lemma bad_header_closes:
  assumes p: "peer_of h rid fd" and fd: "fd \<noteq> 0"
    and s: "s = hb_s h ! rid" "sl_status s = STATUS_HEADER" "sl_queue s = None" "length (sl_size s) = 4" "sl_read s < 4"
    and d: "4 - sl_read s \<le> length d" "(take (sl_read s) (sl_size s) @ d) ! 0 \<noteq> 0"
  shows "push_socket_data ret (socket_data fd d) h = Some ([HarborError, SocketClose fd],
     put_slave rid (s\<lparr>sl_size := take 4 (take (sl_read s) (sl_size s) @ d), sl_status := STATUS_DOWN, sl_fd := 0, sl_queue := None\<rparr>) h)"
proof -
  let ?sz = "take 4 (take (sl_read s) (sl_size s) @ d)"
  have r: "rid < length (hb_s h)" "0 < rid" "hb_s h ! rid = s" "sl_fd s = fd" using p s(1) by (auto simp: peer_of_def)
  have copy: "copy_at (sl_read s) (take (4 - sl_read s) d) (sl_size s) = Some ?sz" using s(4,5) d(1) by (simp add: copy_at_def)
  have z: "?sz ! 0 \<noteq> 0" using d(2) by (simp only: nth_take) simp
  have "recv_step ret rid d h = Some (None, [HarborError, SocketClose fd],
     put_slave rid (s\<lparr>sl_size := ?sz, sl_status := STATUS_DOWN, sl_fd := 0, sl_queue := None\<rparr>) h)"
    using r s(2,3,5) d(1) copy z fd
    by (simp add: recv_step_def recv_header_def close_harbor_def release_queue_def Let_def status_distinct [symmetric])
  then have "recv_loop ret rid d h = Some ([HarborError, SocketClose fd],
     put_slave rid (s\<lparr>sl_size := ?sz, sl_status := STATUS_DOWN, sl_fd := 0, sl_queue := None\<rparr>) h)"
    by (subst recv_loop.simps) (simp del: put_slave_simps)
  then show ?thesis using harbor_id_peer [OF p] r(2) by (simp add: push_socket_data_def socket_data_def del: put_slave_simps)
qed

text \<open>
  A peer whose bad header came in two pieces can never connect again. A header that starts with
  a byte other than 0 (a message of 16 MB or more, which the sender does not refuse) closes the
  connection; when its four bytes arrive in two pieces, the number of bytes of the first piece
  stays in the record of the peer. A later connection of this peer starts to fill the header
  there, keeps the old first byte, and is closed by the first bytes the peer sends, whatever they are.
\<close>

theorem harbor_split_bad_header_sticks:
  assumes p: "peer_of h rid fd" and s: "sl_status (hb_s h ! rid) = STATUS_HEADER" "sl_read (hb_s h ! rid) = 0"
      "length (sl_size (hb_s h ! rid)) = 4" "sl_queue (hb_s h ! rid) = None"
    and fd: "fd \<noteq> 0" "fd' \<noteq> 0" "- (2 ^ 31) \<le> fd'" "fd' < 2 ^ 31" "\<And>j. 0 < j \<Longrightarrow> j < rid \<Longrightarrow> sl_fd (hb_s h ! j) \<noteq> fd'"
    and a: "0 < length a" "length a < 4" "a ! 0 \<noteq> 0" and b: "4 - length a \<le> length b"
  shows "\<exists>h1 h2 h3. push_socket_data ret (socket_data fd a) h = Some ([], h1)
     \<and> push_socket_data ret (socket_data fd b) h1 = Some ([HarborError, SocketClose fd], h2)
     \<and> mainloop ret PTYPE_HARBOR 0 0 (CommandText (socket_command CHR ''A'' fd' rid)) h2
         = Some ([SocketStart fd', SocketSend fd' [of_int (hb_id h)]], h3)
     \<and> (\<forall>d. 4 - length a \<le> length d \<longrightarrow>
          (\<exists>h4. push_socket_data ret (socket_data fd' d) h3 = Some ([HarborError, SocketClose fd'], h4)))"
proof -
  define s0 where "s0 = hb_s h ! rid"
  have r: "rid < length (hb_s h)" "0 < rid" "length (hb_s h) = REMOTE_MAX" "sl_fd s0 = fd" "hb_s h ! rid = s0"
    using p by (auto simp: peer_of_def s0_def)
  note S = s [folded s0_def]
  let ?sz = "a @ drop (length a) (sl_size s0)"
  let ?s1 = "s0\<lparr>sl_size := ?sz, sl_read := length a\<rparr>"
  let ?h1 = "put_slave rid ?s1 h"
  have "recv_step ret rid a h = Some (None, [], ?h1)"
    using r S a by (simp add: recv_step_def recv_header_def copy_at_def status_distinct [symmetric])
  then have "recv_loop ret rid a h = Some ([], ?h1)" by (subst recv_loop.simps) (simp del: put_slave_simps)
  then have 1: "push_socket_data ret (socket_data fd a) h = Some ([], ?h1)"
    using harbor_id_peer [OF p] r(2) by (simp add: push_socket_data_def socket_data_def del: put_slave_simps)
  have p1: "peer_of ?h1 rid fd" by (rule peer_of_put [OF p]) (use r in \<open>simp add: same_conn_def\<close>)
  define c where "c = take 4 (a @ b)"
  have c: "length c = 4" "c ! 0 \<noteq> 0" using a b by (simp_all add: c_def nth_append)
  let ?s2 = "?s1\<lparr>sl_size := c, sl_status := STATUS_DOWN, sl_fd := 0, sl_queue := None\<rparr>"
  let ?h2 = "put_slave rid ?s2 h"
  have 2: "push_socket_data ret (socket_data fd b) ?h1 = Some ([HarborError, SocketClose fd], ?h2)"
    using bad_header_closes [OF p1 fd(1), of ?s1 b ret] r S a b by (simp add: c_def nth_append del: put_slave_simps(7))
  let ?s3 = "?s2\<lparr>sl_fd := fd', sl_status := STATUS_HEADER\<rparr>"
  let ?h3 = "put_slave rid (?s3\<lparr>sl_queue := None\<rparr>) h"
  have un: "unconnected ?h2 rid" using r by (simp add: unconnected_def)
  have dq: "dispatch_queue rid (put_slave rid ?s3 h) = Some ([], ?h3)"
    using dispatch_queue_ok [of rid "put_slave rid ?s3 h" ?s3 fd'] r fd(2) by simp
  have 3: "mainloop ret PTYPE_HARBOR 0 0 (CommandText (socket_command CHR ''A'' fd' rid)) ?h2
      = Some ([SocketStart fd', SocketSend fd' [of_int (hb_id h)]], ?h3)"
    using mainloop_command(2) [OF un fd(2-4), of ret 0 0] dq r by simp
  have p3: "peer_of ?h3 rid fd'" using r fd(5) by (simp add: peer_of_def)
  have "\<exists>h4. push_socket_data ret (socket_data fd' d) ?h3 = Some ([HarborError, SocketClose fd'], h4)" if "4 - length a \<le> length d" for d
    using bad_header_closes [OF p3 fd(2), of "?s3\<lparr>sl_queue := None\<rparr>" d ret] that r a c by (simp add: nth_append del: put_slave_simps(7))
  with 1 2 3 show ?thesis by blast
qed

theorem harbor_split_bad_header_sticks_witness:
  "\<exists>h1 h2 h3. push_socket_data (\<lambda>_. 0) (socket_data 7 [1, 0]) (demo_harbor 1 2) = Some ([], h1)
     \<and> push_socket_data (\<lambda>_. 0) (socket_data 7 [0, 20]) h1 = Some ([HarborError, SocketClose 7], h2)
     \<and> mainloop (\<lambda>_. 0) PTYPE_HARBOR 0 0 (CommandText (socket_command CHR ''A'' 8 2)) h2
         = Some ([SocketStart 8, SocketSend 8 [of_int (hb_id (demo_harbor 1 2))]], h3)
     \<and> (\<forall>d. 4 - length [1 :: u8, 0] \<le> length d \<longrightarrow>
          (\<exists>h4. push_socket_data (\<lambda>_. 0) (socket_data 8 d) h3 = Some ([HarborError, SocketClose 8], h4)))"
  by (rule harbor_split_bad_header_sticks)
    (auto simp: peer_of_def demo_harbor_def demo_slave_def harbor_create_def empty_slave_def REMOTE_MAX_def)

text \<open>The sender accepts messages the receiver takes for an error.\<close>

lemma harbor_long_message_cuts:
  assumes n: "2 ^ 24 \<le> length data + HEADER_COOKIE_LENGTH" "length data + HEADER_COOKIE_LENGTH < 2 ^ 32"
    and p: "peer_of h rid fd" "fd \<noteq> 0" "sl_status (hb_s h ! rid) = STATUS_HEADER" "sl_queue (hb_s h ! rid) = None"
      "length (sl_size (hb_s h ! rid)) = 4" "sl_read (hb_s h ! rid) = 0"
  shows "\<exists>h'. send_remote fd0 data hdr = [SocketSend fd0 (wire_of data hdr)]
     \<and> push_socket_data ret (socket_data fd (wire_of data hdr)) h = Some ([HarborError, SocketClose fd], h')"
proof -
  define n where "n = length data + HEADER_COOKIE_LENGTH"
  define w :: u32 where "w = of_nat n"
  note n = n [folded n_def]
  have w: "unat w = n" using n(2) by (simp add: w_def unat_of_nat take_bit_eq_mod)
  have m: "(0xff :: u32) = mask 8" by (simp add: mask_eq_exp_minus_1)
  have "unat (ucast (drop_bit 24 w AND 0xff) :: u8) = take_bit 8 (n div 2 ^ 24)"
    using w by (simp add: m unsigned_ucast_eq unsigned_take_bit_eq drop_bit_eq_div unat_div_distrib flip: take_bit_eq_mask)
  moreover have "n div 2 ^ 24 < 256" "n div 2 ^ 24 \<noteq> 0" using n by (simp_all add: less_mult_imp_div_less div_eq_0_iff)
  ultimately have "unat (ucast (drop_bit 24 w AND 0xff) :: u8) \<noteq> 0" by (simp add: take_bit_eq_mod)
  then have z: "wire_of data hdr ! 0 \<noteq> 0" by (auto simp: wire_of_def to_bigendian_def n_def [symmetric] w_def [symmetric])
  have "4 \<le> length (wire_of data hdr)" by (simp add: wire_of_def)
  with bad_header_closes [OF p(1,2) refl p(3-5), of "wire_of data hdr" ret] p(6) z send_remote_wire [of data fd0 hdr] n
  show ?thesis by (simp add: n_def del: put_slave_simps)
qed

lemma harbor_short_frame_reads_outside: "length msg < HEADER_COOKIE_LENGTH \<Longrightarrow> forward_local ret msg h = None"
  by (simp add: forward_local_def Let_def)

end
