(* ===== verification/Socket.thy ===== *)
theory Socket
  imports CString
begin

text \<open>
  \<open>skynet/skynet-src/socket_server.c\<close>: the socket server. Services hand it requests through a pipe;
  one socket thread carries them out and waits for events of the sockets; a service may also write
  to a socket directly. The kernel is a script: every read, write or accept takes the next of its
  answers (\<open>ss_io\<close>; a call beyond the end of the script would block), every call of the poller takes
  the next of \<open>ss_poll\<close> (\<open>True\<close>: an error; none at the end), every wait the next events of \<open>ss_wait\<close> (no event: it
  was interrupted). What the server does is appended to \<open>ss_out\<close>.
  The \<open>struct socket_message\<close> the functions fill is \<open>ss_result\<close>. A buffer to send is a block of memory
  or an object of the user. \<open>None\<close> is a failed assert or an access outside a block.
\<close>

section \<open>State\<close>

definition MAX_SOCKET :: nat where "MAX_SOCKET = 65536"
definition MIN_READ_BUFFER :: int where "MIN_READ_BUFFER = 64"
definition WARNING_SIZE :: int where "WARNING_SIZE = 1024 * 1024"

definition TYPE_INVALID :: nat where "TYPE_INVALID = 0"
definition TYPE_RESERVE :: nat where "TYPE_RESERVE = 1"
definition TYPE_PLISTEN :: nat where "TYPE_PLISTEN = 2"
definition TYPE_LISTEN :: nat where "TYPE_LISTEN = 3"
definition TYPE_CONNECTING :: nat where "TYPE_CONNECTING = 4"
definition TYPE_CONNECTED :: nat where "TYPE_CONNECTED = 5"
definition TYPE_HALFCLOSE_READ :: nat where "TYPE_HALFCLOSE_READ = 6"
definition TYPE_HALFCLOSE_WRITE :: nat where "TYPE_HALFCLOSE_WRITE = 7"
definition TYPE_PACCEPT :: nat where "TYPE_PACCEPT = 8"
definition TYPE_BIND :: nat where "TYPE_BIND = 9"

definition PROTOCOL_TCP :: nat where "PROTOCOL_TCP = 0"
definition PROTOCOL_UDP :: nat where "PROTOCOL_UDP = 1"
definition PROTOCOL_UDPv6 :: nat where "PROTOCOL_UDPv6 = 2"
definition PROTOCOL_UNKNOWN :: nat where "PROTOCOL_UNKNOWN = 255"

text \<open>What \<open>socket_server_poll\<close> reports.\<close>

definition SOCKET_DATA :: int where "SOCKET_DATA = 0"
definition SOCKET_CLOSE :: int where "SOCKET_CLOSE = 1"
definition SOCKET_OPEN :: int where "SOCKET_OPEN = 2"
definition SOCKET_ACCEPT :: int where "SOCKET_ACCEPT = 3"
definition SOCKET_ERR :: int where "SOCKET_ERR = 4"
definition SOCKET_EXIT :: int where "SOCKET_EXIT = 5"
definition SOCKET_UDP :: int where "SOCKET_UDP = 6"
definition SOCKET_WARNING :: int where "SOCKET_WARNING = 7"
definition SOCKET_RST :: int where "SOCKET_RST = 8"
definition SOCKET_MORE :: int where "SOCKET_MORE = 9"

definition EINTR :: nat where "EINTR = 4"
definition EAGAIN :: nat where "EAGAIN = 11"
definition ENFILE :: nat where "ENFILE = 23"
definition EMFILE :: nat where "EMFILE = 24"
definition EINPROGRESS :: nat where "EINPROGRESS = 115"

text \<open>
  What the kernel answers: a count or descriptor, an error, the bytes read, a packet and its sender
  (port and address), the text of an address and a port.
\<close>

datatype answer = Done nat | Fail nat | Got bytes | Packet bytes bytes | Name bytes int

datatype blob = Mem bytes | Obj bytes

fun blob_bytes :: "blob \<Rightarrow> bytes" where
  "blob_bytes (Mem b) = b"
| "blob_bytes (Obj b) = b"

text \<open>\<open>wb_addr\<close> is there in a \<open>struct write_buffer_udp\<close> only.\<close>

record write_buffer =
  wb_blob :: blob
  wb_off :: nat \<comment> \<open>\<open>ptr\<close>, from the start of the data\<close>
  wb_sz :: nat
  wb_addr :: "bytes option"

record socket =
  sk_opaque :: u64
  sk_high :: "write_buffer list"
  sk_low :: "write_buffer list"
  sk_wb_size :: int
  sk_rtime :: u64
  sk_wtime :: u64
  sk_nread :: nat
  sk_nwrite :: nat
  sk_sending :: u64
  sk_fd :: int
  sk_id :: int
  sk_type :: nat
  sk_protocol :: nat
  sk_reading :: bool
  sk_writing :: bool
  sk_closing :: bool
  sk_udpconnecting :: int
  sk_warn_size :: int
  sk_size :: int
  sk_udp_address :: bytes
  sk_locked :: bool \<comment> \<open>\<open>dw_lock\<close> is held by a thread that writes directly\<close>
  sk_dw_offset :: nat
  sk_dw_buffer :: "blob option"

text \<open>\<open>data\<close> of a result: nothing, a block, a string, the text of an error number.\<close>

datatype rdata = RNull | RBytes bytes | RText bytes | RErrno nat

record socket_result =
  sr_id :: int
  sr_opaque :: u64
  sr_ud :: int
  sr_data :: rdata

datatype request =
  ReqOpen int int u64 bytes
| ReqSend bool int blob \<comment> \<open>\<open>D\<close> (high priority) or \<open>P\<close>\<close>
| ReqSendUdp int blob bytes
| ReqSetUdp int bytes
| ReqClose int bool u64
| ReqListen int int u64
| ReqBind int int u64
| ReqResume int u64
| ReqPause int u64
| ReqSetopt int int int
| ReqUdp int int bool u64 \<comment> \<open>\<open>True\<close>: IPv6\<close>
| ReqDial int int u64 bytes
| ReqWrite int
| ReqExit

datatype sock_out =
  Wire int bytes \<comment> \<open>descriptor, bytes the kernel has taken\<close>
| SentTo int bytes bytes
| CloseFd int
| ShutWrite int
| ShutRead int
| SetOpt int int int
| PollAdd int
| PollDel int
| PollSet int bool bool
| FreeBlob blob
| LogError

record event =
  ev_socket :: "nat option" \<comment> \<open>the slot; \<open>None\<close>: the pipe\<close>
  ev_read :: bool
  ev_write :: bool
  ev_error :: bool
  ev_eof :: bool

record socket_server =
  ss_time :: u64
  ss_reserve_fd :: int
  ss_recv_fd :: int \<comment> \<open>the pipe\<close>
  ss_send_fd :: int
  ss_checkctrl :: bool
  ss_alloc_id :: u32
  ss_events :: "event list" \<comment> \<open>the events from \<open>event_index\<close> on\<close>
  ss_slot :: "nat \<Rightarrow> socket"
  ss_pipe :: "request list"
  ss_result :: socket_result
  ss_io :: "answer list"
  ss_poll :: "bool list"
  ss_wait :: "event list list"
  ss_more :: bool \<comment> \<open>\<open>*more\<close>\<close>
  ss_inplace :: bool \<comment> \<open>the data of a user object are at its own address\<close>
  ss_out :: "sock_out list"

definition hash_id :: "int \<Rightarrow> nat" where
  "hash_id sid = nat (sid mod int MAX_SOCKET)"

definition id_tag16 :: "int \<Rightarrow> u64" where
  "id_tag16 sid = of_int (sid div int MAX_SOCKET mod 65536)"

section \<open>The kernel\<close>

definition emit :: "sock_out list \<Rightarrow> socket_server \<Rightarrow> socket_server" where
  "emit outs ss = ss\<lparr>ss_out := ss_out ss @ outs\<rparr>"

definition put :: "nat \<Rightarrow> socket \<Rightarrow> socket_server \<Rightarrow> socket_server" where
  "put i s ss = ss\<lparr>ss_slot := (ss_slot ss)(i := s)\<rparr>"

definition next_io :: "socket_server \<Rightarrow> answer \<times> socket_server" where
  "next_io ss = (case ss_io ss of [] \<Rightarrow> (Fail EAGAIN, ss) | a # as \<Rightarrow> (a, ss\<lparr>ss_io := as\<rparr>))"

definition poll_op :: "sock_out \<Rightarrow> socket_server \<Rightarrow> bool \<times> socket_server" where
  "poll_op op ss = (case ss_poll ss of [] \<Rightarrow> (False, emit [op] ss) | b # bs \<Rightarrow> (b, emit [op] (ss\<lparr>ss_poll := bs\<rparr>)))"

text \<open>\<open>write\<close>, again after an interrupt: the count (at most the size asked for) or the error.\<close>

fun write_retry :: "answer list \<Rightarrow> nat \<Rightarrow> (nat + nat) \<times> answer list" where
  "write_retry [] sz = (Inr EAGAIN, [])"
| "write_retry (a # as) sz =
     (case a of
        Done n \<Rightarrow> (Inl (min n sz), as)
      | Fail e \<Rightarrow> if e = EINTR then write_retry as sz else (Inr e, as)
      | _ \<Rightarrow> (Inr EAGAIN, as))"

text \<open>One \<open>write\<close> or \<open>sendto\<close> without that.\<close>

definition write_once :: "nat \<Rightarrow> socket_server \<Rightarrow> (nat + nat) \<times> socket_server" where
  "write_once sz ss =
     (case next_io ss of
        (Done n, ss) \<Rightarrow> (Inl (min n sz), ss)
      | (Fail e, ss) \<Rightarrow> (Inr e, ss)
      | (_, ss) \<Rightarrow> (Inr EAGAIN, ss))"

section \<open>Slots and buffers\<close>

definition socket_invalid :: "socket \<Rightarrow> int \<Rightarrow> bool" where
  "socket_invalid s sid \<longleftrightarrow> sk_id s \<noteq> sid \<or> sk_type s = TYPE_INVALID"

text \<open>The loop of \<open>reserve_id\<close>; nobody else reserves the slot in between.\<close>

fun reserve_loop :: "nat \<Rightarrow> socket_server \<Rightarrow> int \<times> socket_server" where
  "reserve_loop 0 ss = (- 1, ss)"
| "reserve_loop (Suc n) ss =
     (let raw = ss_alloc_id ss + 1;
          alloc = (if sint raw < 0 then raw AND 0x7fffffff else raw);
          sid = sint alloc;
          ss = ss\<lparr>ss_alloc_id := alloc\<rparr>;
          s = ss_slot ss (hash_id sid)
      in if sk_type s = TYPE_INVALID
         then (sid, put (hash_id sid) (s\<lparr>sk_type := TYPE_RESERVE, sk_id := sid, sk_protocol := PROTOCOL_UNKNOWN,
                 sk_udpconnecting := 0, sk_fd := - 1\<rparr>) ss)
         else reserve_loop n ss)"

definition reserve_id :: "socket_server \<Rightarrow> int \<times> socket_server" where
  "reserve_id ss = reserve_loop MAX_SOCKET ss"

definition free_wb_list :: "write_buffer list \<Rightarrow> sock_out list" where
  "free_wb_list list = map (\<lambda>wb. FreeBlob (wb_blob wb)) list"

definition force_close :: "nat \<Rightarrow> socket_server \<Rightarrow> socket_server option" where
  "force_close i ss =
     (let s = ss_slot ss i;
          ss = ss\<lparr>ss_result := \<lparr>sr_id = sk_id s, sr_opaque = sk_opaque s, sr_ud = 0, sr_data = RNull\<rparr>\<rparr>
      in if sk_type s = TYPE_INVALID then Some ss
         else do {
           cassert (sk_type s \<noteq> TYPE_RESERVE);
           Some (put i (s\<lparr>sk_high := [], sk_low := [], sk_type := TYPE_INVALID, sk_dw_buffer := None\<rparr>)
             (emit (free_wb_list (sk_high s) @ free_wb_list (sk_low s) @ [PollDel (sk_fd s)]
                @ (if sk_type s \<noteq> TYPE_BIND then [CloseFd (sk_fd s)] else [])
                @ (case sk_dw_buffer s of None \<Rightarrow> [] | Some b \<Rightarrow> [FreeBlob b])) ss)) })"

definition enable_write :: "nat \<Rightarrow> bool \<Rightarrow> socket_server \<Rightarrow> bool \<times> socket_server" where
  "enable_write i enable ss =
     (let s = ss_slot ss i in
      if sk_writing s \<noteq> enable
      then poll_op (PollSet (sk_fd s) (sk_reading s) enable) (put i (s\<lparr>sk_writing := enable\<rparr>) ss)
      else (False, ss))"

definition enable_read :: "nat \<Rightarrow> bool \<Rightarrow> socket_server \<Rightarrow> bool \<times> socket_server" where
  "enable_read i enable ss =
     (let s = ss_slot ss i in
      if sk_reading s \<noteq> enable
      then poll_op (PollSet (sk_fd s) enable (sk_writing s)) (put i (s\<lparr>sk_reading := enable\<rparr>) ss)
      else (False, ss))"

text \<open>\<open>new_fd\<close>: \<open>False\<close> when the poller refuses the descriptor.\<close>

definition new_fd :: "int \<Rightarrow> int \<Rightarrow> nat \<Rightarrow> u64 \<Rightarrow> bool \<Rightarrow> socket_server \<Rightarrow> (bool \<times> socket_server) option" where
  "new_fd sid fd protocol opaque reading ss =
     (let i = hash_id sid; s = ss_slot ss i in do {
        cassert (sk_type s = TYPE_RESERVE);
        let (err, ss) = poll_op (PollAdd fd) ss;
        if err then Some (False, put i (s\<lparr>sk_type := TYPE_INVALID\<rparr>) ss)
        else do {
          cassert (sk_high s = [] \<and> sk_low s = []);
          let ss = put i (s\<lparr>sk_id := sid, sk_fd := fd, sk_reading := True, sk_writing := False, sk_closing := False,
            sk_sending := push_bit 16 (id_tag16 sid), sk_protocol := protocol, sk_size := MIN_READ_BUFFER, sk_opaque := opaque,
            sk_wb_size := 0, sk_warn_size := 0, sk_dw_buffer := None, sk_nread := 0, sk_nwrite := 0, sk_rtime := 0, sk_wtime := 0\<rparr>) ss;
          let (err, ss) = enable_read i reading ss;
          Some (if err then (False, put i ((ss_slot ss i)\<lparr>sk_type := TYPE_INVALID\<rparr>) ss) else (True, ss)) } })"

definition stat_read :: "nat \<Rightarrow> nat \<Rightarrow> socket_server \<Rightarrow> socket_server" where
  "stat_read i n ss = put i ((ss_slot ss i)\<lparr>sk_nread := sk_nread (ss_slot ss i) + n, sk_rtime := ss_time ss\<rparr>) ss"

definition stat_write :: "nat \<Rightarrow> nat \<Rightarrow> socket_server \<Rightarrow> socket_server" where
  "stat_write i n ss = put i ((ss_slot ss i)\<lparr>sk_nwrite := sk_nwrite (ss_slot ss i) + n, sk_wtime := ss_time ss\<rparr>) ss"

definition set_type :: "nat \<Rightarrow> nat \<Rightarrow> socket_server \<Rightarrow> socket_server" where
  "set_type i t ss = put i ((ss_slot ss i)\<lparr>sk_type := t\<rparr>) ss"

definition set_result :: "int \<Rightarrow> u64 \<Rightarrow> int \<Rightarrow> rdata \<Rightarrow> socket_server \<Rightarrow> socket_server" where
  "set_result sid opaque ud data ss = ss\<lparr>ss_result := \<lparr>sr_id = sid, sr_opaque = opaque, sr_ud = ud, sr_data = data\<rparr>\<rparr>"

definition set_data :: "rdata \<Rightarrow> socket_server \<Rightarrow> socket_server" where
  "set_data data ss = ss\<lparr>ss_result := (ss_result ss)\<lparr>sr_data := data\<rparr>\<rparr>"

definition report_error :: "nat \<Rightarrow> rdata \<Rightarrow> socket_server \<Rightarrow> int \<times> socket_server" where
  "report_error i err ss =
     (let s = ss_slot ss i in (SOCKET_ERR, set_result (sk_id s) (sk_opaque s) 0 err ss))"

definition close_write :: "nat \<Rightarrow> nat \<Rightarrow> socket_server \<Rightarrow> (int \<times> socket_server) option" where
  "close_write i errno ss =
     (let s = ss_slot ss i in
      if sk_closing s \<or> sk_type s = TYPE_HALFCLOSE_READ
      then do { ss \<leftarrow> force_close i ss; Some (SOCKET_RST, ss) }
      else if sk_type s = TYPE_HALFCLOSE_WRITE then Some (SOCKET_RST, ss)
      else Some (report_error i (RErrno errno)
        (snd (enable_write i False (emit [ShutWrite (sk_fd s)] (set_type i TYPE_HALFCLOSE_WRITE ss))))))"

section \<open>Writing the queues\<close>

text \<open>The two queues of a socket: \<open>True\<close> is the one of high priority.\<close>

definition wb_list :: "bool \<Rightarrow> socket \<Rightarrow> write_buffer list" where
  "wb_list hi s = (if hi then sk_high s else sk_low s)"

definition set_wb_list :: "bool \<Rightarrow> write_buffer list \<Rightarrow> socket \<Rightarrow> socket" where
  "set_wb_list hi l s = (if hi then s\<lparr>sk_high := l\<rparr> else s\<lparr>sk_low := l\<rparr>)"

text \<open>The buffer leaves its queue, \<open>n\<close> bytes counted, and is freed.\<close>

definition wb_done :: "nat \<Rightarrow> bool \<Rightarrow> write_buffer \<Rightarrow> write_buffer list \<Rightarrow> socket_server \<Rightarrow> socket_server" where
  "wb_done i hi wb wbs ss =
     (let s = ss_slot ss i in
      emit [FreeBlob (wb_blob wb)] (put i (set_wb_list hi wbs (s\<lparr>sk_wb_size := sk_wb_size s - int (wb_sz wb)\<rparr>)) ss))"

definition wb_data :: "write_buffer \<Rightarrow> bytes" where
  "wb_data wb = drop (wb_off wb) (blob_bytes (wb_blob wb))"

text \<open>\<open>write\<close> has taken \<open>n\<close> bytes of \<open>wb\<close>: not all of them, or all.\<close>

definition wb_partial :: "nat \<Rightarrow> bool \<Rightarrow> nat \<Rightarrow> write_buffer \<Rightarrow> write_buffer list \<Rightarrow> socket_server \<Rightarrow> socket_server" where
  "wb_partial i hi n wb wbs ss =
     (let s = ss_slot ss i in
      put i (set_wb_list hi (wb\<lparr>wb_off := wb_off wb + n, wb_sz := wb_sz wb - n\<rparr> # wbs)
        (s\<lparr>sk_wb_size := sk_wb_size s - int n\<rparr>)) ss)"

definition wire :: "nat \<Rightarrow> bytes \<Rightarrow> socket_server \<Rightarrow> socket_server" where
  "wire i b ss = stat_write i (length b) (emit [Wire (sk_fd (ss_slot ss i)) b] ss)"

fun tcp_loop :: "write_buffer list \<Rightarrow> nat \<Rightarrow> bool \<Rightarrow> socket_server \<Rightarrow> (int \<times> socket_server) option" where
  "tcp_loop [] i hi ss = Some (- 1, ss)"
| "tcp_loop (wb # wbs) i hi ss =
     (case write_retry (ss_io ss) (wb_sz wb) of
        (Inr e, io) \<Rightarrow> if e = EAGAIN then Some (- 1, ss\<lparr>ss_io := io\<rparr>) else close_write i e (ss\<lparr>ss_io := io\<rparr>)
      | (Inl n, io) \<Rightarrow>
          (let ss = wire i (take n (wb_data wb)) (ss\<lparr>ss_io := io\<rparr>) in
           if n \<noteq> wb_sz wb then Some (- 1, wb_partial i hi n wb wbs ss)
           else tcp_loop wbs i hi (wb_done i hi wb wbs ss)))"

definition send_list_tcp :: "nat \<Rightarrow> bool \<Rightarrow> socket_server \<Rightarrow> (int \<times> socket_server) option" where
  "send_list_tcp i hi ss = tcp_loop (wb_list hi (ss_slot ss i)) i hi ss"

text \<open>
  An address is a byte for the protocol, two for the port, four or sixteen for the host;
  \<open>None\<close> stands for the size 0 of a mismatch.
\<close>

definition udp_socket_address :: "socket \<Rightarrow> bytes \<Rightarrow> bytes option" where
  "udp_socket_address s addr =
     (if map unat (take 1 addr) \<noteq> [sk_protocol s] then None
      else if sk_protocol s = PROTOCOL_UDP then Some (take 6 (drop 1 addr))
      else if sk_protocol s = PROTOCOL_UDPv6 then Some (take 18 (drop 1 addr))
      else None)"

text \<open>
  The cast to \<open>struct write_buffer_udp\<close> reads the address behind the \<open>struct write_buffer\<close>, which is
  outside the block when the buffer was not queued with one (\<open>None\<close>). \<open>drop_udp\<close> is \<open>wb_done\<close>.
\<close>

fun udp_loop :: "write_buffer list \<Rightarrow> nat \<Rightarrow> bool \<Rightarrow> socket_server \<Rightarrow> (int \<times> socket_server) option" where
  "udp_loop [] i hi ss = Some (- 1, ss)"
| "udp_loop (wb # wbs) i hi ss =
     do {
       addr \<leftarrow> wb_addr wb;
       (case udp_socket_address (ss_slot ss i) addr of
          None \<Rightarrow> Some (- 1, wb_done i hi wb wbs (emit [LogError] ss))
        | Some sa \<Rightarrow>
            (case write_once (wb_sz wb) ss of
               (Inr e, ss) \<Rightarrow> if e = EINTR \<or> e = EAGAIN then Some (- 1, ss)
                              else Some (- 1, wb_done i hi wb wbs (emit [LogError] ss))
             | (Inl n, ss) \<Rightarrow>
                 udp_loop wbs i hi (wb_done i hi wb wbs
                   (stat_write i (wb_sz wb) (emit [SentTo (sk_fd (ss_slot ss i)) sa (take (wb_sz wb) (wb_data wb))] ss))))) }"

definition send_list_udp :: "nat \<Rightarrow> bool \<Rightarrow> socket_server \<Rightarrow> (int \<times> socket_server) option" where
  "send_list_udp i hi ss = udp_loop (wb_list hi (ss_slot ss i)) i hi ss"

definition send_list :: "nat \<Rightarrow> bool \<Rightarrow> socket_server \<Rightarrow> (int \<times> socket_server) option" where
  "send_list i hi ss =
     (if sk_protocol (ss_slot ss i) = PROTOCOL_TCP then send_list_tcp i hi ss else send_list_udp i hi ss)"

text \<open>\<open>ptr\<close> is not the start of \<open>buffer\<close>: for an object, \<open>buffer\<close> is the object and \<open>ptr\<close> its data.\<close>

fun is_object :: "blob \<Rightarrow> bool" where
  "is_object (Obj b) = True"
| "is_object (Mem b) = False"

definition list_uncomplete :: "socket_server \<Rightarrow> write_buffer list \<Rightarrow> bool" where
  "list_uncomplete ss list =
     (case list of [] \<Rightarrow> False
      | wb # _ \<Rightarrow> wb_off wb \<noteq> 0 \<or> is_object (wb_blob wb) \<and> \<not> ss_inplace ss)"

definition raise_uncomplete :: "nat \<Rightarrow> socket_server \<Rightarrow> socket_server option" where
  "raise_uncomplete i ss =
     (let s = ss_slot ss i in
      case sk_low s of
        [] \<Rightarrow> None
      | wb # wbs \<Rightarrow> do {
          cassert (sk_high s = []);
          Some (put i (s\<lparr>sk_low := wbs, sk_high := [wb]\<rparr>) ss) })"

definition send_buffer_empty :: "socket \<Rightarrow> bool" where
  "send_buffer_empty s \<longleftrightarrow> sk_high s = [] \<and> sk_low s = []"

text \<open>Step 4 of \<open>send_buffer_\<close>: everything is written.\<close>

definition send_finish :: "nat \<Rightarrow> socket_server \<Rightarrow> (int \<times> socket_server) option" where
  "send_finish i ss =
     do {
       cassert (send_buffer_empty (ss_slot ss i) \<and> sk_wb_size (ss_slot ss i) = 0);
       if sk_closing (ss_slot ss i) then do { ss \<leftarrow> force_close i ss; Some (- 1, ss) }
       else (case enable_write i False ss of
          (True, ss) \<Rightarrow> Some (report_error i (RText (str ''disable write failed'')) ss)
        | (False, ss) \<Rightarrow>
            (let s = ss_slot ss i in
             if sk_warn_size s > 0
             then Some (SOCKET_WARNING, set_result (sk_id s) (sk_opaque s) 0 RNull (put i (s\<lparr>sk_warn_size := 0\<rparr>) ss))
             else Some (- 1, ss))) }"

text \<open>Steps 2 to 4 when there are buffers of low priority.\<close>

definition send_low :: "nat \<Rightarrow> socket_server \<Rightarrow> (int \<times> socket_server) option" where
  "send_low i ss =
     do {
       (ret, ss) \<leftarrow> send_list i False ss;
       if ret \<noteq> - 1 then Some (if ret = SOCKET_ERR then (SOCKET_ERR, ss) else (- 1, ss))
       else if list_uncomplete ss (sk_low (ss_slot ss i)) then do { ss \<leftarrow> raise_uncomplete i ss; Some (- 1, ss) }
       else if sk_low (ss_slot ss i) \<noteq> [] then Some (- 1, ss)
       else send_finish i ss }"

definition send_queues :: "nat \<Rightarrow> socket_server \<Rightarrow> (int \<times> socket_server) option" where
  "send_queues i ss =
     do {
       cassert (\<not> list_uncomplete ss (sk_low (ss_slot ss i)));
       (ret, ss) \<leftarrow> send_list i True ss;
       if ret \<noteq> - 1 then Some (if ret = SOCKET_ERR then (SOCKET_ERR, ss) else (- 1, ss))
       else if sk_high (ss_slot ss i) \<noteq> [] then Some (- 1, ss)
       else if sk_low (ss_slot ss i) = [] then send_finish i ss
       else send_low i ss }"

text \<open>What a direct write has left goes before the queue; it has no address.\<close>

definition take_dw :: "nat \<Rightarrow> socket_server \<Rightarrow> socket_server" where
  "take_dw i ss =
     (let s = ss_slot ss i in
      case sk_dw_buffer s of
        None \<Rightarrow> ss
      | Some b \<Rightarrow>
          (let wb = \<lparr>wb_blob = b, wb_off = sk_dw_offset s, wb_sz = length (blob_bytes b) - sk_dw_offset s, wb_addr = None\<rparr>
           in put i (s\<lparr>sk_wb_size := sk_wb_size s + int (wb_sz wb), sk_high := wb # sk_high s, sk_dw_buffer := None\<rparr>) ss))"

definition send_buffer :: "nat \<Rightarrow> socket_server \<Rightarrow> (int \<times> socket_server) option" where
  "send_buffer i ss = (if sk_locked (ss_slot ss i) then Some (- 1, ss) else send_queues i (take_dw i ss))"

end
