(* ===== verification/SocketCmd.thy ===== *)
theory SocketCmd
  imports Socket
begin

text \<open>
  \<open>skynet/skynet-src/socket_server.c\<close>, the socket thread: the requests of the pipe and the events of
  the poller. A handler returns what \<open>socket_server_poll\<close> reports, - 1 for nothing.
\<close>

section \<open>Sending\<close>

definition append_sendbuffer :: "nat \<Rightarrow> bool \<Rightarrow> blob \<Rightarrow> bytes option \<Rightarrow> socket_server \<Rightarrow> socket_server" where
  "append_sendbuffer i hi b addr ss =
     (let s = ss_slot ss i;
          wb = \<lparr>wb_blob = b, wb_off = 0, wb_sz = length (blob_bytes b), wb_addr = addr\<rparr>
      in put i (set_wb_list hi (wb_list hi s @ [wb]) (s\<lparr>sk_wb_size := sk_wb_size s + int (wb_sz wb)\<rparr>)) ss)"

definition trigger_write :: "int \<Rightarrow> socket_server \<Rightarrow> int \<times> socket_server" where
  "trigger_write sid ss =
     (let i = hash_id sid in
      if socket_invalid (ss_slot ss i) sid then (- 1, ss)
      else (case enable_write i True ss of
          (True, ss) \<Rightarrow> report_error i (RText (str ''enable write failed'')) ss
        | (False, ss) \<Rightarrow> (- 1, ss)))"

definition warn_size :: "nat \<Rightarrow> socket_server \<Rightarrow> int \<times> socket_server" where
  "warn_size i ss =
     (let s = ss_slot ss i in
      if sk_wb_size s \<ge> WARNING_SIZE \<and> sk_wb_size s \<ge> sk_warn_size s
      then (SOCKET_WARNING,
            set_result (sk_id s) (sk_opaque s)
              (if sk_wb_size s mod 1024 = 0 then sk_wb_size s div 1024 else sk_wb_size s div 1024 + 1) RNull
              (put i (s\<lparr>sk_warn_size := (if sk_warn_size s = 0 then WARNING_SIZE * 2 else sk_warn_size s * 2)\<rparr>) ss))
      else (- 1, ss))"

text \<open>The first buffer of an empty queue asks for the write event.\<close>

definition append_first :: "nat \<Rightarrow> bool \<Rightarrow> blob \<Rightarrow> bytes option \<Rightarrow> socket_server \<Rightarrow> int \<times> socket_server" where
  "append_first i hi b addr ss =
     (case enable_write i True (append_sendbuffer i hi b addr ss) of
        (True, ss) \<Rightarrow> report_error i (RText (str ''enable write failed'')) ss
      | (False, ss) \<Rightarrow> warn_size i ss)"

definition send_dropped :: "socket \<Rightarrow> int \<Rightarrow> bool" where
  "send_dropped s sid \<longleftrightarrow>
     sk_type s = TYPE_INVALID \<or> sk_id s \<noteq> sid \<or> sk_type s = TYPE_HALFCLOSE_WRITE \<or> sk_type s = TYPE_PACCEPT \<or> sk_closing s"

definition send_socket :: "int \<Rightarrow> blob \<Rightarrow> bool \<Rightarrow> bytes option \<Rightarrow> socket_server \<Rightarrow> int \<times> socket_server" where
  "send_socket sid b hi udp_address ss =
     (let i = hash_id sid; s = ss_slot ss i;
          addr = (case udp_address of None \<Rightarrow> sk_udp_address s | Some a \<Rightarrow> a)
      in if send_dropped s sid then (- 1, emit [FreeBlob b] ss)
         else if sk_type s = TYPE_PLISTEN \<or> sk_type s = TYPE_LISTEN then (- 1, emit [LogError, FreeBlob b] ss)
         else if send_buffer_empty s then
           (if sk_protocol s = PROTOCOL_TCP then append_first i True b None ss
            else (case udp_socket_address s addr of
                None \<Rightarrow> (- 1, emit [LogError, FreeBlob b] ss)
              | Some sa \<Rightarrow>
                  (case write_once (length (blob_bytes b)) ss of
                     (Inl n, ss) \<Rightarrow>
                       if n \<noteq> length (blob_bytes b) then append_first i hi b (Some addr) ss
                       else (- 1, stat_write i n (emit [SentTo (sk_fd s) sa (blob_bytes b), FreeBlob b] ss))
                   | (Inr e, ss) \<Rightarrow> append_first i hi b (Some addr) ss)))
         else warn_size i (append_sendbuffer i hi b (if sk_protocol s = PROTOCOL_TCP then None else Some addr) ss))"

section \<open>Opening and closing\<close>

text \<open>The addresses \<open>getaddrinfo\<close> found, tried in turn: descriptor and whether it is connected, or the last error.\<close>

fun connect_loop :: "nat \<Rightarrow> nat \<Rightarrow> socket_server \<Rightarrow> (int \<times> bool + nat) \<times> socket_server" where
  "connect_loop 0 e ss = (Inr e, ss)"
| "connect_loop (Suc n) e ss =
     (case next_io ss of
        (Done fd, ss) \<Rightarrow>
          (case next_io ss of
             (Fail e, ss) \<Rightarrow> if e = EINPROGRESS then (Inl (int fd, False), ss)
                            else connect_loop n e (emit [CloseFd (int fd)] ss)
           | (_, ss) \<Rightarrow> (Inl (int fd, True), ss))
      | (Fail e, ss) \<Rightarrow> connect_loop n e ss
      | (_, ss) \<Rightarrow> connect_loop n e ss)"

definition open_failed :: "nat \<Rightarrow> sock_out list \<Rightarrow> rdata \<Rightarrow> socket_server \<Rightarrow> int \<times> socket_server" where
  "open_failed i outs err ss = (SOCKET_ERR, set_type i TYPE_INVALID (emit outs (set_data err ss)))"

text \<open>\<open>inet_ntop\<close>\<close>

definition next_name :: "socket_server \<Rightarrow> (bytes \<times> int) option \<times> socket_server" where
  "next_name ss = (case next_io ss of (Name n p, ss) \<Rightarrow> (Some (n, p), ss) | (_, ss) \<Rightarrow> (None, ss))"

definition open_socket :: "int \<Rightarrow> u64 \<Rightarrow> socket_server \<Rightarrow> (int \<times> socket_server) option" where
  "open_socket sid opaque ss =
     (let i = hash_id sid; ss = set_result sid opaque 0 RNull ss in
      case next_io ss of
        (Done n, ss) \<Rightarrow>
          (case connect_loop n 0 ss of
             (Inr e, ss) \<Rightarrow> Some (open_failed i [] (RErrno e) ss)
           | (Inl (fd, connected), ss) \<Rightarrow> do {
               (ok, ss) \<leftarrow> new_fd sid fd PROTOCOL_TCP opaque True ss;
               if \<not> ok then Some (open_failed i [CloseFd fd] (RText (str ''reach skynet socket number limit'')) ss)
               else if connected
               then (case next_name (set_type i TYPE_CONNECTED ss) of
                   (Some (n, p), ss) \<Rightarrow> Some (SOCKET_OPEN, set_data (RText n) ss)
                 | (None, ss) \<Rightarrow> Some (SOCKET_OPEN, ss))
               else (case enable_write i True ss of
                   (True, ss) \<Rightarrow> Some (open_failed i [CloseFd fd] (RText (str ''enable write failed'')) ss)
                 | (False, ss) \<Rightarrow> Some (- 1, set_type i TYPE_CONNECTING ss)) })
      | (Fail e, ss) \<Rightarrow> Some (open_failed i [] (RErrno e) ss)
      | (_, ss) \<Rightarrow> Some (open_failed i [] RNull ss))"

definition listen_socket :: "int \<Rightarrow> int \<Rightarrow> u64 \<Rightarrow> socket_server \<Rightarrow> (int \<times> socket_server) option" where
  "listen_socket sid fd opaque ss =
     (let i = hash_id sid in do {
        (ok, ss) \<leftarrow> new_fd sid fd PROTOCOL_TCP opaque False ss;
        if \<not> ok
        then Some (SOCKET_ERR, set_type i TYPE_INVALID
               (set_result sid opaque 0 (RText (str ''reach skynet socket number limit'')) (emit [CloseFd fd] ss)))
        else (let ss = set_result sid opaque 0 (RText (str ''listen'')) (set_type i TYPE_PLISTEN ss) in
          case next_io ss of
            (Name n p, ss) \<Rightarrow> Some (SOCKET_OPEN, set_result sid opaque p (RText n) ss)
          | (Fail e, ss) \<Rightarrow> Some (SOCKET_ERR, set_data (RErrno e) ss)
          | (_, ss) \<Rightarrow> Some (SOCKET_ERR, set_data (RErrno 0) ss)) })"

definition nomore_sending_data :: "socket \<Rightarrow> bool" where
  "nomore_sending_data s \<longleftrightarrow>
     send_buffer_empty s \<and> sk_dw_buffer s = None \<and> sk_sending s AND 0xffff = 0 \<or> sk_type s = TYPE_HALFCLOSE_WRITE"

definition close_read :: "nat \<Rightarrow> socket_server \<Rightarrow> socket_server" where
  "close_read i ss =
     (let ss = snd (enable_read i False (set_type i TYPE_HALFCLOSE_READ ss)); s = ss_slot ss i
      in set_result (sk_id s) (sk_opaque s) 0 RNull (emit [ShutRead (sk_fd s)] ss))"

definition halfclose_read :: "socket \<Rightarrow> bool" where
  "halfclose_read s \<longleftrightarrow> sk_type s = TYPE_HALFCLOSE_READ"

definition close_socket :: "int \<Rightarrow> bool \<Rightarrow> socket_server \<Rightarrow> (int \<times> socket_server) option" where
  "close_socket sid shutdown ss =
     (let i = hash_id sid; s = ss_slot ss i; shutdown_read = halfclose_read s in
      if socket_invalid s sid then Some (- 1, ss)
      else if shutdown \<or> nomore_sending_data s
      then do { ss \<leftarrow> force_close i ss; Some (if shutdown_read then - 1 else SOCKET_CLOSE, ss) }
      else (let ss = put i (s\<lparr>sk_closing := True\<rparr>) ss in
        Some (if \<not> shutdown_read then (SOCKET_CLOSE, close_read i ss) else (- 1, ss))))"

definition bind_socket :: "int \<Rightarrow> int \<Rightarrow> u64 \<Rightarrow> socket_server \<Rightarrow> (int \<times> socket_server) option" where
  "bind_socket sid fd opaque ss =
     do {
       (ok, ss) \<leftarrow> new_fd sid fd PROTOCOL_TCP opaque True (set_result sid opaque 0 (sr_data (ss_result ss)) ss);
       Some (if \<not> ok then (SOCKET_ERR, set_data (RText (str ''reach skynet socket number limit'')) ss)
         else (SOCKET_OPEN, set_data (RText (str ''binding'')) (set_type (hash_id sid) TYPE_BIND ss))) }"

definition resume_socket :: "int \<Rightarrow> u64 \<Rightarrow> socket_server \<Rightarrow> int \<times> socket_server" where
  "resume_socket sid opaque ss =
     (let i = hash_id sid; ss = set_result sid opaque 0 RNull ss in
      if socket_invalid (ss_slot ss i) sid then (SOCKET_ERR, set_data (RText (str ''invalid socket'')) ss)
      else if halfclose_read (ss_slot ss i) then (SOCKET_ERR, set_data (RText (str ''socket closed'')) ss)
      else (case enable_read i True ss of
          (True, ss) \<Rightarrow> (SOCKET_ERR, set_data (RText (str ''enable read failed'')) ss)
        | (False, ss) \<Rightarrow>
            (let s = ss_slot ss i in
             if sk_type s = TYPE_PACCEPT \<or> sk_type s = TYPE_PLISTEN
             then (SOCKET_OPEN, set_data (RText (str ''start''))
                    (put i (s\<lparr>sk_type := (if sk_type s = TYPE_PACCEPT then TYPE_CONNECTED else TYPE_LISTEN), sk_opaque := opaque\<rparr>) ss))
             else if sk_type s = TYPE_CONNECTED
             then (SOCKET_OPEN, set_data (RText (str ''transfer'')) (put i (s\<lparr>sk_opaque := opaque\<rparr>) ss))
             else (- 1, ss))))"

definition pause_socket :: "int \<Rightarrow> socket_server \<Rightarrow> int \<times> socket_server" where
  "pause_socket sid ss =
     (let i = hash_id sid in
      if socket_invalid (ss_slot ss i) sid then (- 1, ss)
      else (case enable_read i False ss of
          (True, ss) \<Rightarrow> report_error i (RText (str ''enable read failed'')) ss
        | (False, ss) \<Rightarrow> (- 1, ss)))"

definition setopt_socket :: "int \<Rightarrow> int \<Rightarrow> int \<Rightarrow> socket_server \<Rightarrow> socket_server" where
  "setopt_socket sid what v ss =
     (let s = ss_slot ss (hash_id sid) in
      if socket_invalid s sid then ss else emit [SetOpt (sk_fd s) what v] ss)"

section \<open>UDP\<close>

definition drop_slot :: "nat \<Rightarrow> int \<Rightarrow> socket_server \<Rightarrow> socket_server" where
  "drop_slot i fd ss = set_type i TYPE_INVALID (emit [CloseFd fd] ss)"

definition set_address :: "nat \<Rightarrow> bytes \<Rightarrow> socket_server \<Rightarrow> socket_server" where
  "set_address i a ss = put i ((ss_slot ss i)\<lparr>sk_udp_address := a\<rparr>) ss"

text \<open>\<open>memcpy\<close> of the part of an address its protocol uses.\<close>

definition copy_address :: "bytes \<Rightarrow> bytes \<Rightarrow> bytes" where
  "copy_address a old =
     (let n = (if map unat (take 1 a) = [PROTOCOL_UDP] then 7 else 19) in take n a @ drop n old)"

definition udpconnecting_dec :: "nat \<Rightarrow> socket_server \<Rightarrow> socket_server" where
  "udpconnecting_dec i ss = put i ((ss_slot ss i)\<lparr>sk_udpconnecting := sk_udpconnecting (ss_slot ss i) - 1\<rparr>) ss"

definition add_udp_socket :: "int \<Rightarrow> int \<Rightarrow> bool \<Rightarrow> u64 \<Rightarrow> socket_server \<Rightarrow> socket_server option" where
  "add_udp_socket sid fd v6 opaque ss =
     do {
       (ok, ss) \<leftarrow> new_fd sid fd (if v6 then PROTOCOL_UDPv6 else PROTOCOL_UDP) opaque True ss;
       let i = hash_id sid;
       Some (if \<not> ok then drop_slot i fd ss
         else set_address i (replicate 19 0) (set_type i TYPE_CONNECTED ss)) }"

definition set_udp_address :: "int \<Rightarrow> bytes \<Rightarrow> socket_server \<Rightarrow> int \<times> socket_server" where
  "set_udp_address sid a ss =
     (let i = hash_id sid; s = ss_slot ss i in
      if socket_invalid s sid then (- 1, ss)
      else if map unat (take 1 a) \<noteq> [sk_protocol s] then report_error i (RText (str ''protocol mismatch'')) ss
      else (- 1, udpconnecting_dec i (set_address i (copy_address a (sk_udp_address s)) ss)))"

definition dial_udp_socket :: "int \<Rightarrow> int \<Rightarrow> u64 \<Rightarrow> bytes \<Rightarrow> socket_server \<Rightarrow> socket_server option" where
  "dial_udp_socket sid fd opaque a ss =
     do {
       (ok, ss) \<leftarrow> new_fd sid fd (unat (hd (a @ [0]))) opaque True ss;
       let i = hash_id sid;
       Some (if \<not> ok then drop_slot i fd ss
         else udpconnecting_dec i (set_type i TYPE_CONNECTED
                (set_address i (copy_address a (sk_udp_address (ss_slot ss i))) ss))) }"

section \<open>Requests\<close>

text \<open>Messages in flight: the low 16 bits of \<open>sending\<close>; \<open>None\<close>: it would wait for the socket thread.\<close>

definition inc_sending_ref :: "int \<Rightarrow> socket \<Rightarrow> socket option" where
  "inc_sending_ref sid s =
     (if sk_protocol s \<noteq> PROTOCOL_TCP then Some s
      else if drop_bit 16 (sk_sending s) = id_tag16 sid
      then (if sk_sending s AND 0xffff = 0xffff then None else Some (s\<lparr>sk_sending := sk_sending s + 1\<rparr>))
      else Some s)"

definition dec_sending_ref :: "int \<Rightarrow> socket_server \<Rightarrow> socket_server option" where
  "dec_sending_ref sid ss =
     (let i = hash_id sid; s = ss_slot ss i in
      if sk_id s = sid \<and> sk_protocol s = PROTOCOL_TCP
      then do { cassert (sk_sending s AND 0xffff \<noteq> 0); Some (put i (s\<lparr>sk_sending := sk_sending s - 1\<rparr>) ss) }
      else Some ss)"

fun ctrl_cmd :: "request \<Rightarrow> socket_server \<Rightarrow> (int \<times> socket_server) option" where
  "ctrl_cmd (ReqResume sid opaque) ss = Some (resume_socket sid opaque ss)"
| "ctrl_cmd (ReqPause sid opaque) ss = Some (pause_socket sid ss)"
| "ctrl_cmd (ReqBind sid fd opaque) ss = bind_socket sid fd opaque ss"
| "ctrl_cmd (ReqListen sid fd opaque) ss = listen_socket sid fd opaque ss"
| "ctrl_cmd (ReqClose sid shut opaque) ss = close_socket sid shut ss"
| "ctrl_cmd (ReqOpen sid port opaque host) ss = open_socket sid opaque ss"
| "ctrl_cmd ReqExit ss = Some (SOCKET_EXIT, set_result 0 0 0 RNull ss)"
| "ctrl_cmd (ReqWrite sid) ss = Some (trigger_write sid ss)"
| "ctrl_cmd (ReqSend hi sid b) ss =
     (let (ret, ss) = send_socket sid b hi None ss in do { ss \<leftarrow> dec_sending_ref sid ss; Some (ret, ss) })"
| "ctrl_cmd (ReqSendUdp sid b a) ss = Some (send_socket sid b True (Some a) ss)"
| "ctrl_cmd (ReqSetUdp sid a) ss = Some (set_udp_address sid a ss)"
| "ctrl_cmd (ReqDial sid fd opaque a) ss = do { ss \<leftarrow> dial_udp_socket sid fd opaque a ss; Some (- 1, ss) }"
| "ctrl_cmd (ReqSetopt sid what v) ss = Some (- 1, setopt_socket sid what v ss)"
| "ctrl_cmd (ReqUdp sid fd v6 opaque) ss = do { ss \<leftarrow> add_udp_socket sid fd v6 opaque ss; Some (- 1, ss) }"

section \<open>Events\<close>

definition set_size :: "nat \<Rightarrow> int \<Rightarrow> socket_server \<Rightarrow> socket_server" where
  "set_size i n ss = put i ((ss_slot ss i)\<lparr>sk_size := n\<rparr>) ss"

text \<open>The other end has closed (\<open>read\<close> gives 0).\<close>

definition remote_closed :: "nat \<Rightarrow> socket_server \<Rightarrow> (int \<times> socket_server) option" where
  "remote_closed i ss =
     (let s = ss_slot ss i in
      if sk_closing s then
        (if nomore_sending_data s then do { ss \<leftarrow> force_close i ss; Some (- 1, ss) } else Some (- 1, ss))
      else if sk_type s = TYPE_HALFCLOSE_READ then Some (- 1, ss)
      else if sk_type s = TYPE_HALFCLOSE_WRITE then do { ss \<leftarrow> force_close i ss; Some (SOCKET_CLOSE, ss) }
      else Some (SOCKET_CLOSE, close_read i ss))"

text \<open>A block of \<open>n > 0\<close> bytes; the size of the next read grows and shrinks. Doubling must not overflow.\<close>

definition tcp_data :: "nat \<Rightarrow> bytes \<Rightarrow> socket_server \<Rightarrow> (int \<times> socket_server) option" where
  "tcp_data i b ss =
     (let s = ss_slot ss i; sz = sk_size s; n = int (length b);
          ss = set_result (sk_id s) (sk_opaque s) n (RBytes b) (stat_read i (length b) ss)
      in if n = sz then do { cassert (sz * 2 < 2 ^ 31); Some (SOCKET_MORE, set_size i (sz * 2) ss) }
         else if sz > MIN_READ_BUFFER \<and> n * 2 < sz then Some (SOCKET_DATA, set_size i (sz div 2) ss)
         else Some (SOCKET_DATA, ss))"

definition forward_message_tcp :: "nat \<Rightarrow> socket_server \<Rightarrow> (int \<times> socket_server) option" where
  "forward_message_tcp i ss =
     (case next_io ss of
        (Got b, ss) \<Rightarrow>
          (let b = take (nat (sk_size (ss_slot ss i))) b in
           if b = [] then remote_closed i ss
           else if halfclose_read (ss_slot ss i) then Some (- 1, ss)
           else tcp_data i b ss)
      | (Fail e, ss) \<Rightarrow> if e = EINTR \<or> e = EAGAIN then Some (- 1, ss) else Some (report_error i (RErrno e) ss)
      | (_, ss) \<Rightarrow> Some (- 1, ss))"

definition gen_udp_address :: "nat \<Rightarrow> bytes \<Rightarrow> bytes" where
  "gen_udp_address protocol sa = of_nat protocol # take (if protocol = PROTOCOL_UDP then 6 else 18) sa"

definition MAX_UDP_PACKAGE :: nat where "MAX_UDP_PACKAGE = 65535"

definition forward_message_udp :: "nat \<Rightarrow> socket_server \<Rightarrow> (int \<times> socket_server) option" where
  "forward_message_udp i ss =
     (case next_io ss of
        (Packet b sa, ss) \<Rightarrow>
          (let b = take MAX_UDP_PACKAGE b; ss = stat_read i (length b) ss; s = ss_slot ss i;
               protocol = (if length sa = 6 then PROTOCOL_UDP else PROTOCOL_UDPv6) in
           if sk_protocol s \<noteq> protocol then Some (- 1, ss)
           else Some (SOCKET_UDP, set_result (sk_id s) (sk_opaque s) (int (length b))
                  (RBytes (b @ gen_udp_address protocol sa)) ss))
      | (Fail e, ss) \<Rightarrow>
          if e = EINTR \<or> e = EAGAIN then Some (- 1, ss)
          else do { ss \<leftarrow> force_close i ss; Some (SOCKET_ERR, set_data (RErrno e) ss) }
      | (_, ss) \<Rightarrow> Some (- 1, ss))"

definition connect_failed :: "nat \<Rightarrow> rdata \<Rightarrow> socket_server \<Rightarrow> (int \<times> socket_server) option" where
  "connect_failed i err ss = do { ss \<leftarrow> force_close i ss; Some (SOCKET_ERR, set_data err ss) }"

definition connect_name :: "socket_server \<Rightarrow> int \<times> socket_server" where
  "connect_name ss =
     (case next_name ss of
        (Some (n, p), ss) \<Rightarrow> (SOCKET_OPEN, set_data (RText n) ss)
      | (None, ss) \<Rightarrow> (SOCKET_OPEN, set_data RNull ss))"

definition report_connect :: "nat \<Rightarrow> socket_server \<Rightarrow> (int \<times> socket_server) option" where
  "report_connect i ss =
     (case next_io ss of
        (Fail e, ss) \<Rightarrow> connect_failed i (RErrno e) ss
      | (_, ss) \<Rightarrow>
          (let ss = set_type i TYPE_CONNECTED ss; s = ss_slot ss i;
               ss = set_result (sk_id s) (sk_opaque s) 0 (sr_data (ss_result ss)) ss in
           if nomore_sending_data s
           then (case enable_write i False ss of
               (True, ss) \<Rightarrow> connect_failed i (RText (str ''disable write failed'')) ss
             | (False, ss) \<Rightarrow> Some (connect_name ss))
           else Some (connect_name ss)))"

definition getname :: "bytes \<Rightarrow> int \<Rightarrow> bytes" where
  "getname n p = n @ str '':'' @ show_int p"

text \<open>With no descriptor left, the reserved one is given up to refuse the connection.\<close>

definition refuse_accept :: "nat \<Rightarrow> nat \<Rightarrow> socket_server \<Rightarrow> int \<times> socket_server" where
  "refuse_accept i e ss =
     (let s = ss_slot ss i; ss = set_result (sk_id s) (sk_opaque s) 0 (RErrno e) ss in
      if ss_reserve_fd ss \<ge> 0
      then (let ss = emit [CloseFd (ss_reserve_fd ss)] ss in
        case next_io ss of
          (Done fd, ss) \<Rightarrow> (case next_io (emit [CloseFd (int fd)] ss) of
              (Done d, ss) \<Rightarrow> (- 1, ss\<lparr>ss_reserve_fd := int d\<rparr>) | (_, ss) \<Rightarrow> (- 1, ss\<lparr>ss_reserve_fd := - 1\<rparr>))
        | (_, ss) \<Rightarrow> (case next_io ss of
              (Done d, ss) \<Rightarrow> (- 1, ss\<lparr>ss_reserve_fd := int d\<rparr>) | (_, ss) \<Rightarrow> (- 1, ss\<lparr>ss_reserve_fd := - 1\<rparr>)))
      else (- 1, ss))"

definition report_accept :: "nat \<Rightarrow> socket_server \<Rightarrow> (int \<times> socket_server) option" where
  "report_accept i ss =
     (case next_io ss of
        (Done fd, ss) \<Rightarrow>
          (let (sid, ss) = reserve_id ss in
           if sid < 0 then Some (0, emit [CloseFd (int fd)] ss)
           else do {
             (ok, ss) \<leftarrow> new_fd sid (int fd) PROTOCOL_TCP (sk_opaque (ss_slot ss i)) False ss;
             if \<not> ok then Some (0, emit [CloseFd (int fd)] ss)
             else (let ss = set_type (hash_id sid) TYPE_PACCEPT (stat_read i 1 ss); s = ss_slot ss i in
               case next_name ss of
                 (Some (n, p), ss) \<Rightarrow> Some (1, set_result (sk_id s) (sk_opaque s) sid (RText (getname n p)) ss)
               | (None, ss) \<Rightarrow> Some (1, set_result (sk_id s) (sk_opaque s) sid RNull ss)) })
      | (Fail e, ss) \<Rightarrow> Some (if e = EMFILE \<or> e = ENFILE then refuse_accept i e ss else (0, ss))
      | (_, ss) \<Rightarrow> Some (0, ss))"

section \<open>The loop\<close>

text \<open>After a close, the first waiting event of the socket loses its slot.\<close>

fun clear_event :: "int \<Rightarrow> (nat \<Rightarrow> socket) \<Rightarrow> event list \<Rightarrow> event list" where
  "clear_event sid slot [] = []"
| "clear_event sid slot (e # es) =
     (case ev_socket e of
        None \<Rightarrow> e # clear_event sid slot es
      | Some i \<Rightarrow> if socket_invalid (slot i) sid \<and> sk_id (slot i) = sid then e\<lparr>ev_socket := None\<rparr> # es
                  else e # clear_event sid slot es)"

definition clear_closed_event :: "int \<Rightarrow> socket_server \<Rightarrow> socket_server" where
  "clear_closed_event type ss =
     (if type = SOCKET_CLOSE \<or> type = SOCKET_ERR
      then ss\<lparr>ss_events := clear_event (sr_id (ss_result ss)) (ss_slot ss) (ss_events ss)\<rparr> else ss)"

datatype poll = Report int | Again | Waiting

definition again_event :: "event \<Rightarrow> socket_server \<Rightarrow> socket_server" where
  "again_event e ss = ss\<lparr>ss_events := e # ss_events ss\<rparr>"

definition poll_of :: "int \<Rightarrow> poll" where
  "poll_of type = (if type = - 1 then Again else Report type)"

text \<open>The write part of an event comes after its read part.\<close>

definition read_event :: "event \<Rightarrow> nat \<Rightarrow> socket_server \<Rightarrow> (poll \<times> socket_server) option" where
  "read_event e i ss =
     do {
       (type, ss) \<leftarrow> (if sk_protocol (ss_slot ss i) = PROTOCOL_TCP then forward_message_tcp i ss else forward_message_udp i ss);
       if type = SOCKET_MORE then Some (Report SOCKET_DATA, again_event e ss)
       else if type = SOCKET_UDP then Some (Report SOCKET_UDP, again_event e ss)
       else Some (poll_of type,
         if ev_write e \<and> type \<noteq> SOCKET_CLOSE \<and> type \<noteq> SOCKET_ERR then again_event (e\<lparr>ev_read := False\<rparr>) ss else ss) }"

definition error_event :: "nat \<Rightarrow> socket_server \<Rightarrow> poll \<times> socket_server" where
  "error_event i ss =
     (case next_io ss of
        (Fail e, ss) \<Rightarrow> (let (t, ss) = report_error i (RErrno e) ss in (Report t, ss))
      | (_, ss) \<Rightarrow> (let (t, ss) = report_error i (RText (str ''Unknown error'')) ss in (Report t, ss)))"

definition eof_event :: "nat \<Rightarrow> socket_server \<Rightarrow> (poll \<times> socket_server) option" where
  "eof_event i ss =
     (let halfclose = halfclose_read (ss_slot ss i) in
      do { ss \<leftarrow> force_close i ss; Some (if halfclose then Again else Report SOCKET_CLOSE, ss) })"

definition dispatch_event :: "event \<Rightarrow> nat \<Rightarrow> socket_server \<Rightarrow> (poll \<times> socket_server) option" where
  "dispatch_event e i ss =
     (let t = sk_type (ss_slot ss i) in
      if t = TYPE_CONNECTING then do { (r, ss) \<leftarrow> report_connect i ss; Some (Report r, ss) }
      else if t = TYPE_LISTEN
      then do { (ok, ss) \<leftarrow> report_accept i ss;
             Some (if ok > 0 then Report SOCKET_ACCEPT else if ok < 0 then Report SOCKET_ERR else Again, ss) }
      else if t = TYPE_INVALID then Some (Again, emit [LogError] ss)
      else if ev_read e then read_event e i ss
      else if ev_write e then do { (r, ss) \<leftarrow> send_buffer i ss; Some (poll_of r, ss) }
      else if ev_error e then Some (error_event i ss)
      else if ev_eof e then eof_event i ss
      else Some (Again, ss))"

definition MAX_EVENT :: nat where "MAX_EVENT = 64"

definition poll_events :: "socket_server \<Rightarrow> (poll \<times> socket_server) option" where
  "poll_events ss =
     (case ss_events ss of
        [] \<Rightarrow> (case ss_wait ss of
            [] \<Rightarrow> Some (Waiting, ss)
          | es # w \<Rightarrow> Some (Again, ss\<lparr>ss_wait := w, ss_events := take MAX_EVENT es, ss_checkctrl := True, ss_more := False\<rparr>))
      | e # es \<Rightarrow>
          (let ss = ss\<lparr>ss_events := es\<rparr> in
           case ev_socket e of None \<Rightarrow> Some (Again, ss) | Some i \<Rightarrow> dispatch_event e i ss))"

text \<open>One round of \<open>socket_server_poll\<close>; \<open>Waiting\<close> when it would wait and no events come any more.\<close>

definition poll_step :: "socket_server \<Rightarrow> (poll \<times> socket_server) option" where
  "poll_step ss =
     (if ss_checkctrl ss
      then (case ss_pipe ss of
          r # rs \<Rightarrow> do {
            (type, ss) \<leftarrow> ctrl_cmd r (ss\<lparr>ss_pipe := rs\<rparr>);
            Some (if type \<noteq> - 1 then (Report type, clear_closed_event type ss) else (Again, ss)) }
        | [] \<Rightarrow> poll_events (ss\<lparr>ss_checkctrl := False\<rparr>))
      else poll_events ss)"

end
