(* ===== verification/SocketApi.thy ===== *)
theory SocketApi
  imports SocketCmd
begin

text \<open>
  \<open>skynet/skynet-src/socket_server.c\<close>, what the other threads call: they reserve ids, write requests
  into the pipe and may write to a socket directly. Also the creation and the release of the server.
\<close>

section \<open>Creation\<close>

text \<open>\<open>MALLOC\<close> does not clear the slots: \<open>junk\<close> is what their memory held.\<close>

definition socket_server_create ::
    "u64 \<Rightarrow> (nat \<Rightarrow> socket) \<Rightarrow> answer list \<Rightarrow> bool list \<Rightarrow> event list list \<Rightarrow> sock_out list \<times> socket_server option" where
  "socket_server_create time junk io polls waits =
     (case io of
        Done efd # Done r # Done w # io \<Rightarrow>
          (let (bad, polls) = (case polls of [] \<Rightarrow> (False, []) | b # bs \<Rightarrow> (b, bs));
               (fd, io) = (case io of Done n # as \<Rightarrow> (int n, as) | _ # as \<Rightarrow> (- 1, as) | [] \<Rightarrow> (- 1, []))
           in if bad then ([LogError, CloseFd (int r), CloseFd (int w)], None)
              else ([PollAdd (int r)], Some
                \<lparr>ss_time = time, ss_reserve_fd = fd, ss_recv_fd = int r, ss_send_fd = int w, ss_checkctrl = True, ss_alloc_id = 0,
                 ss_events = [],
                 ss_slot = (\<lambda>i. (junk i)\<lparr>sk_type := TYPE_INVALID, sk_high := [], sk_low := [], sk_locked := False\<rparr>),
                 ss_pipe = [], ss_result = \<lparr>sr_id = 0, sr_opaque = 0, sr_ud = 0, sr_data = RNull\<rparr>,
                 ss_io = io, ss_poll = polls, ss_wait = waits, ss_more = False, ss_inplace = False, ss_out = []\<rparr>))
      | _ \<Rightarrow> ([LogError], None))"

definition socket_server_updatetime :: "u64 \<Rightarrow> socket_server \<Rightarrow> socket_server" where
  "socket_server_updatetime time ss = ss\<lparr>ss_time := time\<rparr>"

fun release_slots :: "nat list \<Rightarrow> socket_server \<Rightarrow> socket_server option" where
  "release_slots [] ss = Some ss"
| "release_slots (i # is) ss =
     (if sk_type (ss_slot ss i) \<noteq> TYPE_RESERVE then do { ss \<leftarrow> force_close i ss; release_slots is ss }
      else release_slots is ss)"

definition socket_server_release :: "socket_server \<Rightarrow> sock_out list option" where
  "socket_server_release ss =
     do {
       ss \<leftarrow> release_slots [0..<MAX_SOCKET] ss;
       Some (ss_out ss @ [CloseFd (ss_send_fd ss), CloseFd (ss_recv_fd ss)]
         @ (if ss_reserve_fd ss \<ge> 0 then [CloseFd (ss_reserve_fd ss)] else [])) }"

section \<open>Requests\<close>

definition send_request :: "request \<Rightarrow> socket_server \<Rightarrow> socket_server" where
  "send_request r ss = ss\<lparr>ss_pipe := ss_pipe ss @ [r]\<rparr>"

text \<open>The host must fit: 24 bytes of \<open>struct request_open\<close> and its text are less than 256.\<close>

definition socket_server_connect :: "u64 \<Rightarrow> bytes \<Rightarrow> int \<Rightarrow> socket_server \<Rightarrow> int \<times> socket_server" where
  "socket_server_connect opaque addr port ss =
     (if length (cstr addr) + 24 \<ge> 256 then (- 1, emit [LogError] ss)
      else (let (sid, ss) = reserve_id ss in
        if sid < 0 then (- 1, ss) else (sid, send_request (ReqOpen sid port opaque (cstr addr)) ss)))"

definition socket_server_exit :: "socket_server \<Rightarrow> socket_server" where
  "socket_server_exit ss = send_request ReqExit ss"

definition socket_server_close :: "u64 \<Rightarrow> int \<Rightarrow> socket_server \<Rightarrow> socket_server" where
  "socket_server_close opaque sid ss = send_request (ReqClose sid False opaque) ss"

definition socket_server_shutdown :: "u64 \<Rightarrow> int \<Rightarrow> socket_server \<Rightarrow> socket_server" where
  "socket_server_shutdown opaque sid ss = send_request (ReqClose sid True opaque) ss"

definition socket_server_bind :: "u64 \<Rightarrow> int \<Rightarrow> socket_server \<Rightarrow> int \<times> socket_server" where
  "socket_server_bind opaque fd ss =
     (let (sid, ss) = reserve_id ss in
      if sid < 0 then (- 1, ss) else (sid, send_request (ReqBind sid fd opaque) ss))"

definition socket_server_start :: "u64 \<Rightarrow> int \<Rightarrow> socket_server \<Rightarrow> socket_server" where
  "socket_server_start opaque sid ss = send_request (ReqResume sid opaque) ss"

definition socket_server_pause :: "u64 \<Rightarrow> int \<Rightarrow> socket_server \<Rightarrow> socket_server" where
  "socket_server_pause opaque sid ss = send_request (ReqPause sid opaque) ss"

definition TCP_NODELAY :: int where "TCP_NODELAY = 1"

definition socket_server_nodelay :: "int \<Rightarrow> socket_server \<Rightarrow> socket_server" where
  "socket_server_nodelay sid ss = send_request (ReqSetopt sid TCP_NODELAY 1) ss"

definition socket_server_userobject :: "bool \<Rightarrow> socket_server \<Rightarrow> socket_server" where
  "socket_server_userobject inplace ss = ss\<lparr>ss_inplace := inplace\<rparr>"

section \<open>Listening\<close>

text \<open>\<open>getaddrinfo\<close> (\<open>Done 1\<close>: an IPv6 address), \<open>socket\<close>, \<open>setsockopt\<close> and \<open>bind\<close>: descriptor and family.\<close>

definition do_bind :: "socket_server \<Rightarrow> (int \<times> bool) option \<times> socket_server" where
  "do_bind ss =
     (case next_io ss of
        (Done family, ss) \<Rightarrow>
          (case next_io ss of
             (Done fd, ss) \<Rightarrow>
               (case next_io ss of
                  (Fail e, ss) \<Rightarrow> (None, emit [CloseFd (int fd)] ss)
                | (_, ss) \<Rightarrow>
                    (case next_io ss of
                       (Fail e, ss) \<Rightarrow> (None, emit [CloseFd (int fd)] ss)
                     | (_, ss) \<Rightarrow> (Some (int fd, family = 1), ss)))
           | (_, ss) \<Rightarrow> (None, ss))
      | (_, ss) \<Rightarrow> (None, ss))"

definition do_listen :: "socket_server \<Rightarrow> int option \<times> socket_server" where
  "do_listen ss =
     (case do_bind ss of
        (None, ss) \<Rightarrow> (None, ss)
      | (Some (fd, v6), ss) \<Rightarrow>
          (case next_io ss of (Fail e, ss) \<Rightarrow> (None, emit [CloseFd fd] ss) | (_, ss) \<Rightarrow> (Some fd, ss)))"

text \<open>The common end of the calls that open a descriptor: reserve an id, or close it again.\<close>

definition reserve_for :: "int \<Rightarrow> (int \<Rightarrow> request) \<Rightarrow> socket_server \<Rightarrow> int \<times> socket_server" where
  "reserve_for fd req ss =
     (let (sid, ss) = reserve_id ss in
      if sid < 0 then (- 1, emit [CloseFd fd] ss) else (sid, send_request (req sid) ss))"

definition socket_server_listen :: "u64 \<Rightarrow> socket_server \<Rightarrow> int \<times> socket_server" where
  "socket_server_listen opaque ss =
     (case do_listen ss of
        (None, ss) \<Rightarrow> (- 1, ss)
      | (Some fd, ss) \<Rightarrow> reserve_for fd (\<lambda>sid. ReqListen sid fd opaque) ss)"

definition socket_server_udp :: "u64 \<Rightarrow> bytes option \<Rightarrow> int \<Rightarrow> socket_server \<Rightarrow> int \<times> socket_server" where
  "socket_server_udp opaque addr port ss =
     (case (if port \<noteq> 0 \<or> addr \<noteq> None then do_bind ss
            else (case next_io ss of (Done fd, ss) \<Rightarrow> (Some (int fd, False), ss) | (_, ss) \<Rightarrow> (None, ss))) of
        (None, ss) \<Rightarrow> (- 1, ss)
      | (Some (fd, v6), ss) \<Rightarrow> reserve_for fd (\<lambda>sid. ReqUdp sid fd v6 opaque) ss)"

definition socket_server_udp_listen :: "u64 \<Rightarrow> int \<Rightarrow> socket_server \<Rightarrow> int \<times> socket_server" where
  "socket_server_udp_listen opaque port ss =
     (if port = 0 then (- 1, ss)
      else (case do_bind ss of
          (None, ss) \<Rightarrow> (- 1, ss)
        | (Some (fd, v6), ss) \<Rightarrow> reserve_for fd (\<lambda>sid. ReqUdp sid fd v6 opaque) ss))"

text \<open>\<open>getaddrinfo\<close> for a packet socket: the address, with a protocol if it is of a known family.\<close>

definition resolve_udp :: "socket_server \<Rightarrow> (nat \<times> bytes) option \<times> socket_server" where
  "resolve_udp ss =
     (case next_io ss of
        (Packet b sa, ss) \<Rightarrow>
          (if length sa = 6 then (Some (PROTOCOL_UDP, gen_udp_address PROTOCOL_UDP sa), ss)
           else if length sa = 18 then (Some (PROTOCOL_UDPv6, gen_udp_address PROTOCOL_UDPv6 sa), ss)
           else (None, ss))
      | (_, ss) \<Rightarrow> (None, ss))"

definition socket_server_udp_dial :: "u64 \<Rightarrow> socket_server \<Rightarrow> int \<times> socket_server" where
  "socket_server_udp_dial opaque ss =
     (case resolve_udp ss of
        (None, ss) \<Rightarrow> (- 1, ss)
      | (Some (protocol, a), ss) \<Rightarrow>
          (case next_io ss of
             (Done fd, ss) \<Rightarrow> reserve_for (int fd) (\<lambda>sid. ReqDial sid (int fd) opaque a) ss
           | (_, ss) \<Rightarrow> (- 1, ss)))"

definition socket_server_udp_connect :: "int \<Rightarrow> socket_server \<Rightarrow> int \<times> socket_server" where
  "socket_server_udp_connect sid ss =
     (let i = hash_id sid; s = ss_slot ss i in
      if socket_invalid s sid then (- 1, ss)
      else (case resolve_udp (put i (s\<lparr>sk_udpconnecting := sk_udpconnecting s + 1\<rparr>) ss) of
          (None, ss) \<Rightarrow> (- 1, ss)
        | (Some (protocol, a), ss) \<Rightarrow> (0, send_request (ReqSetUdp sid a) ss)))"

section \<open>Sending\<close>

definition SOCKET_BUFFER_MEMORY :: nat where "SOCKET_BUFFER_MEMORY = 0"
definition SOCKET_BUFFER_OBJECT :: nat where "SOCKET_BUFFER_OBJECT = 1"
definition SOCKET_BUFFER_RAWPOINTER :: nat where "SOCKET_BUFFER_RAWPOINTER = 2"

record socket_sendbuffer =
  sb_id :: int
  sb_type :: nat
  sb_buffer :: bytes

text \<open>A raw pointer stays with the caller; the queue gets a copy.\<close>

definition free_buffer :: "socket_sendbuffer \<Rightarrow> sock_out list" where
  "free_buffer buf =
     (if sb_type buf = SOCKET_BUFFER_MEMORY then [FreeBlob (Mem (sb_buffer buf))]
      else if sb_type buf = SOCKET_BUFFER_OBJECT then [FreeBlob (Obj (sb_buffer buf))]
      else [])"

definition clone_buffer :: "socket_sendbuffer \<Rightarrow> blob" where
  "clone_buffer buf = (if sb_type buf = SOCKET_BUFFER_OBJECT then Obj (sb_buffer buf) else Mem (sb_buffer buf))"

definition can_direct_write :: "socket \<Rightarrow> int \<Rightarrow> bool" where
  "can_direct_write s sid \<longleftrightarrow>
     sk_id s = sid \<and> nomore_sending_data s \<and> sk_type s = TYPE_CONNECTED \<and> sk_udpconnecting s = 0"

definition set_locked :: "nat \<Rightarrow> bool \<Rightarrow> socket_server \<Rightarrow> socket_server" where
  "set_locked i b ss = put i ((ss_slot ss i)\<lparr>sk_locked := b\<rparr>) ss"

definition set_dw :: "nat \<Rightarrow> blob \<Rightarrow> nat \<Rightarrow> socket_server \<Rightarrow> socket_server" where
  "set_dw i b n ss = put i ((ss_slot ss i)\<lparr>sk_dw_buffer := Some b, sk_dw_offset := n\<rparr>) ss"

text \<open>
  The write under the lock: the result of the call, and whether the socket thread must be told
  (\<open>W\<close>) to send what is left. An error of the kernel counts as nothing written.
\<close>

definition direct_write :: "nat \<Rightarrow> socket_sendbuffer \<Rightarrow> socket_server \<Rightarrow> (int \<times> bool) \<times> socket_server" where
  "direct_write i buf ss =
     (let s = ss_slot ss i; b = sb_buffer buf in
      if sk_protocol s = PROTOCOL_TCP
      then (case write_once (length b) ss of (r, ss) \<Rightarrow>
        (let n = (case r of Inl n \<Rightarrow> n | Inr _ \<Rightarrow> 0); ss = wire i (take n b) ss in
         if n = length b then ((0, False), emit (free_buffer buf) ss)
         else ((0, True), set_dw i (clone_buffer buf) n ss)))
      else (case udp_socket_address s (sk_udp_address s) of
          None \<Rightarrow> ((- 1, False), emit (LogError # free_buffer buf) ss)
        | Some sa \<Rightarrow> (case write_once (length b) ss of (r, ss) \<Rightarrow>
            (let n = (case r of Inl n \<Rightarrow> n | Inr _ \<Rightarrow> 0); ss = stat_write i n ss in
             if n = length b then ((0, False), emit (SentTo (sk_fd s) sa b # free_buffer buf) ss)
             else ((0, True), set_dw i (clone_buffer buf) n ss)))))"

definition queue_send :: "bool \<Rightarrow> socket_sendbuffer \<Rightarrow> socket_server \<Rightarrow> (int \<times> socket_server) option" where
  "queue_send hi buf ss =
     (let sid = sb_id buf; i = hash_id sid in do {
        s \<leftarrow> inc_sending_ref sid (ss_slot ss i);
        Some (0, send_request (ReqSend hi sid (clone_buffer buf)) (put i s ss)) })"

definition socket_server_send :: "socket_sendbuffer \<Rightarrow> socket_server \<Rightarrow> (int \<times> socket_server) option" where
  "socket_server_send buf ss =
     (let sid = sb_id buf; i = hash_id sid; s = ss_slot ss i in
      if socket_invalid s sid \<or> sk_closing s then Some (- 1, emit (free_buffer buf) ss)
      else if can_direct_write s sid \<and> \<not> sk_locked s
      then (let ss = set_locked i True ss in
        if can_direct_write (ss_slot ss i) sid
        then (case direct_write i buf ss of ((r, w), ss) \<Rightarrow>
          (let ss = set_locked i False ss in Some (r, if w then send_request (ReqWrite sid) ss else ss)))
        else queue_send True buf (set_locked i False ss))
      else queue_send True buf ss)"

definition socket_server_send_lowpriority :: "socket_sendbuffer \<Rightarrow> socket_server \<Rightarrow> (int \<times> socket_server) option" where
  "socket_server_send_lowpriority buf ss =
     (if socket_invalid (ss_slot ss (hash_id (sb_id buf))) (sb_id buf) then Some (- 1, emit (free_buffer buf) ss)
      else queue_send False buf ss)"

text \<open>A packet is sent directly or left to the socket thread as a whole.\<close>

definition udp_send_queue :: "bytes \<Rightarrow> socket_sendbuffer \<Rightarrow> socket_server \<Rightarrow> int \<times> socket_server" where
  "udp_send_queue addr buf ss = (0, send_request (ReqSendUdp (sb_id buf) (clone_buffer buf) addr) ss)"

definition udp_send_direct :: "nat \<Rightarrow> bytes \<Rightarrow> socket_sendbuffer \<Rightarrow> socket_server \<Rightarrow> int \<times> socket_server" where
  "udp_send_direct i addr buf ss =
     (case udp_socket_address (ss_slot ss i) addr of
        None \<Rightarrow> (- 1, emit (free_buffer buf) (set_locked i False ss))
      | Some sa \<Rightarrow>
          (case write_once (length (sb_buffer buf)) ss of
             (Inl n, ss) \<Rightarrow>
               (0, emit (SentTo (sk_fd (ss_slot ss i)) sa (sb_buffer buf) # free_buffer buf)
                     (set_locked i False (stat_write i n ss)))
           | (Inr e, ss) \<Rightarrow> udp_send_queue addr buf (set_locked i False ss)))"

definition socket_server_udp_send :: "bytes \<Rightarrow> socket_sendbuffer \<Rightarrow> socket_server \<Rightarrow> int \<times> socket_server" where
  "socket_server_udp_send addr buf ss =
     (let sid = sb_id buf; i = hash_id sid; s = ss_slot ss i; t = map unat (take 1 addr) in
      if socket_invalid s sid then (- 1, emit (free_buffer buf) ss)
      else if t \<noteq> [PROTOCOL_UDP] \<and> t \<noteq> [PROTOCOL_UDPv6] then (- 1, emit (free_buffer buf) ss)
      else (let addr = take (if t = [PROTOCOL_UDP] then 7 else 19) addr in
        if can_direct_write s sid \<and> \<not> sk_locked s
        then (let ss = set_locked i True ss in
          if can_direct_write (ss_slot ss i) sid then udp_send_direct i addr buf ss
          else udp_send_queue addr buf (set_locked i False ss))
        else udp_send_queue addr buf ss))"

text \<open>The address behind the data of a packet that was reported.\<close>

definition socket_server_udp_address :: "bytes \<Rightarrow> nat \<Rightarrow> bytes option" where
  "socket_server_udp_address data ud =
     (let a = drop ud data; t = map unat (take 1 a) in
      if t = [PROTOCOL_UDP] then Some (take 7 a)
      else if t = [PROTOCOL_UDPv6] then Some (take 19 a)
      else None)"

section \<open>Information\<close>

definition SOCKET_INFO_LISTEN :: nat where "SOCKET_INFO_LISTEN = 1"
definition SOCKET_INFO_TCP :: nat where "SOCKET_INFO_TCP = 2"
definition SOCKET_INFO_UDP :: nat where "SOCKET_INFO_UDP = 3"
definition SOCKET_INFO_BIND :: nat where "SOCKET_INFO_BIND = 4"
definition SOCKET_INFO_CLOSING :: nat where "SOCKET_INFO_CLOSING = 5"

record socket_info =
  si_id :: int
  si_type :: nat
  si_opaque :: u64
  si_read :: nat
  si_write :: nat
  si_rtime :: u64
  si_wtime :: u64
  si_wbuffer :: int
  si_reading :: bool
  si_writing :: bool
  si_name :: bytes

definition info_of :: "socket \<Rightarrow> nat \<Rightarrow> bytes \<Rightarrow> socket_info" where
  "info_of s t n =
     \<lparr>si_id = sk_id s, si_type = t, si_opaque = sk_opaque s, si_read = sk_nread s, si_write = sk_nwrite s,
      si_rtime = sk_rtime s, si_wtime = sk_wtime s, si_wbuffer = sk_wb_size s, si_reading = sk_reading s,
      si_writing = sk_writing s, si_name = n\<rparr>"

text \<open>
  The text of an address: of the peer, the socket or a packet (\<open>getname\<close> leaves the empty text when
  it fails). \<open>junk\<close> is what the variable \<open>temp\<close> holds, for nobody clears its name.
\<close>

definition name_text :: "bytes \<Rightarrow> socket_server \<Rightarrow> bytes \<times> socket_server" where
  "name_text junk ss =
     (case next_io ss of
        (Name n p, ss) \<Rightarrow> (getname n p, ss)
      | (Fail e, ss) \<Rightarrow> (junk, ss)
      | (_, ss) \<Rightarrow> ([], ss))"

definition query_info :: "nat \<Rightarrow> bytes \<Rightarrow> socket_server \<Rightarrow> socket_info option \<times> socket_server" where
  "query_info i junk ss =
     (let s = ss_slot ss i; t = sk_type s; closing = (t = TYPE_HALFCLOSE_READ \<or> t = TYPE_HALFCLOSE_WRITE) in
      if t = TYPE_BIND then (Some (info_of s SOCKET_INFO_BIND []), ss)
      else if t = TYPE_LISTEN then (let (n, ss) = name_text junk ss in (Some (info_of s SOCKET_INFO_LISTEN n), ss))
      else if closing \<or> t = TYPE_CONNECTED
      then (if sk_protocol s = PROTOCOL_TCP
            then (let (n, ss) = name_text junk ss in
              (Some (info_of s (if closing then SOCKET_INFO_CLOSING else SOCKET_INFO_TCP) n), ss))
            else if udp_socket_address s (sk_udp_address s) \<noteq> None
            then (case next_name ss of
                (Some (n, p), ss) \<Rightarrow> (Some (info_of s SOCKET_INFO_UDP (getname n p)), ss)
              | (None, ss) \<Rightarrow> (Some (info_of s SOCKET_INFO_UDP []), ss))
            else (Some (info_of s SOCKET_INFO_UDP junk), ss))
      else (None, ss))"

fun info_slots :: "(nat \<Rightarrow> bytes) \<Rightarrow> nat list \<Rightarrow> socket_info list \<Rightarrow> socket_server \<Rightarrow> socket_info list \<times> socket_server" where
  "info_slots junk [] si ss = (si, ss)"
| "info_slots junk (i # is) si ss =
     (case query_info i (junk i) ss of
        (None, ss) \<Rightarrow> info_slots junk is si ss
      | (Some info, ss) \<Rightarrow> info_slots junk is (info # si) ss)"

definition socket_server_info :: "(nat \<Rightarrow> bytes) \<Rightarrow> socket_server \<Rightarrow> socket_info list \<times> socket_server" where
  "socket_server_info junk ss = info_slots junk [0..<MAX_SOCKET] [] ss"

end
