(* ===== verification/SocketInv.thy ===== *)
theory SocketInv
  imports SocketApi
begin

text \<open>
  The invariant of a slot of the socket server (\<open>sock_ok\<close>), the way a slot may change (\<open>life\<close>), and
  the proof that every handler of the socket thread and every call of the other threads keeps to them.
\<close>

section \<open>The invariant of a slot\<close>

definition idle_type :: "nat \<Rightarrow> bool" where
  "idle_type t \<longleftrightarrow> t = TYPE_INVALID \<or> t = TYPE_RESERVE"

definition queued :: "socket \<Rightarrow> int" where
  "queued s = sum_list (map (\<lambda>wb. int (wb_sz wb)) (sk_high s @ sk_low s))"

definition wb_ok :: "write_buffer \<Rightarrow> bool" where
  "wb_ok wb \<longleftrightarrow> wb_off wb + wb_sz wb = length (blob_bytes (wb_blob wb))"

definition fresh :: "write_buffer list \<Rightarrow> bool" where
  "fresh wbs \<longleftrightarrow> (\<forall>wb \<in> set wbs. wb_off wb = 0)"

text \<open>All but the head of the queue of low priority, which may be partly written within \<open>send_queues\<close>.\<close>

definition base_ok :: "socket \<Rightarrow> bool" where
  "base_ok s \<longleftrightarrow>
     sk_wb_size s = queued s \<and> list_all wb_ok (sk_high s @ sk_low s) \<and>
     fresh (tl (sk_high s)) \<and> fresh (tl (sk_low s)) \<and>
     (case sk_dw_buffer s of None \<Rightarrow> True | Some b \<Rightarrow> sk_dw_offset s \<le> length (blob_bytes b) \<and> fresh (sk_high s)) \<and>
     (\<exists>k. sk_size s = 64 * 2 ^ k)"

definition sock_ok :: "socket \<Rightarrow> bool" where
  "sock_ok s \<longleftrightarrow>
     (if idle_type (sk_type s)
      then sk_high s = [] \<and> sk_low s = [] \<and> sk_dw_buffer s = None \<and> (sk_type s = TYPE_RESERVE \<longrightarrow> sk_protocol s = PROTOCOL_UNKNOWN)
      else base_ok s \<and> fresh (sk_low s))"

text \<open>
  What a step may do to a slot it does not reserve: a free slot stays free, a socket that no
  longer reads is at most closed, no slot is reserved, and only opening sets the protocol.
\<close>

definition life :: "socket \<Rightarrow> socket \<Rightarrow> bool" where
  "life s t \<longleftrightarrow>
     sk_id t = sk_id s \<and>
     (sk_type s = TYPE_INVALID \<longrightarrow> sk_type t = TYPE_INVALID) \<and>
     (sk_type s = TYPE_HALFCLOSE_READ \<longrightarrow> sk_type t = TYPE_HALFCLOSE_READ \<or> sk_type t = TYPE_INVALID) \<and>
     (sk_type t = TYPE_RESERVE \<longrightarrow> sk_type s = TYPE_RESERVE) \<and>
     (sk_type s \<noteq> TYPE_RESERVE \<longrightarrow> sk_protocol t = sk_protocol s) \<and>
     (sk_locked t \<longleftrightarrow> sk_locked s)"

definition env :: "socket_server \<Rightarrow> request list \<times> event list \<times> event list list \<times> bool \<times> u32" where
  "env ss = (ss_pipe ss, ss_events ss, ss_wait ss, ss_checkctrl ss, ss_alloc_id ss)"

text \<open>What a handler does to the server.\<close>

definition pres :: "socket_server \<Rightarrow> socket_server \<Rightarrow> bool" where
  "pres ss ss' \<longleftrightarrow>
     env ss' = env ss \<and>
     (\<forall>j. life (ss_slot ss j) (ss_slot ss' j) \<and> (sock_ok (ss_slot ss j) \<longrightarrow> sock_ok (ss_slot ss' j)))"

lemmas type_defs = TYPE_INVALID_def TYPE_RESERVE_def TYPE_PLISTEN_def TYPE_LISTEN_def TYPE_CONNECTING_def
  TYPE_CONNECTED_def TYPE_HALFCLOSE_READ_def TYPE_HALFCLOSE_WRITE_def TYPE_PACCEPT_def TYPE_BIND_def

lemmas result_defs = SOCKET_DATA_def SOCKET_CLOSE_def SOCKET_OPEN_def SOCKET_ACCEPT_def SOCKET_ERR_def
  SOCKET_EXIT_def SOCKET_UDP_def SOCKET_WARNING_def SOCKET_RST_def SOCKET_MORE_def

lemmas protocol_defs = PROTOCOL_TCP_def PROTOCOL_UDP_def PROTOCOL_UDPv6_def PROTOCOL_UNKNOWN_def

lemma type_neq [simp]:
  "TYPE_INVALID \<noteq> TYPE_RESERVE" "TYPE_INVALID \<noteq> TYPE_HALFCLOSE_READ"
  "TYPE_INVALID \<noteq> TYPE_HALFCLOSE_WRITE" "TYPE_HALFCLOSE_WRITE \<noteq> TYPE_INVALID"
  "TYPE_INVALID \<noteq> TYPE_CONNECTED" "TYPE_CONNECTED \<noteq> TYPE_INVALID"
  "TYPE_INVALID \<noteq> TYPE_CONNECTING" "TYPE_CONNECTING \<noteq> TYPE_INVALID"
  "TYPE_INVALID \<noteq> TYPE_PLISTEN" "TYPE_PLISTEN \<noteq> TYPE_INVALID" "TYPE_INVALID \<noteq> TYPE_LISTEN"
  "TYPE_LISTEN \<noteq> TYPE_INVALID" "TYPE_INVALID \<noteq> TYPE_PACCEPT" "TYPE_PACCEPT \<noteq> TYPE_INVALID"
  "TYPE_INVALID \<noteq> TYPE_BIND" "TYPE_BIND \<noteq> TYPE_INVALID" "TYPE_RESERVE \<noteq> TYPE_INVALID"
  "TYPE_RESERVE \<noteq> TYPE_HALFCLOSE_READ" "TYPE_RESERVE \<noteq> TYPE_HALFCLOSE_WRITE"
  "TYPE_HALFCLOSE_WRITE \<noteq> TYPE_RESERVE" "TYPE_RESERVE \<noteq> TYPE_CONNECTED"
  "TYPE_CONNECTED \<noteq> TYPE_RESERVE" "TYPE_RESERVE \<noteq> TYPE_CONNECTING"
  "TYPE_CONNECTING \<noteq> TYPE_RESERVE" "TYPE_RESERVE \<noteq> TYPE_PLISTEN" "TYPE_PLISTEN \<noteq> TYPE_RESERVE"
  "TYPE_RESERVE \<noteq> TYPE_LISTEN" "TYPE_LISTEN \<noteq> TYPE_RESERVE" "TYPE_RESERVE \<noteq> TYPE_PACCEPT"
  "TYPE_PACCEPT \<noteq> TYPE_RESERVE" "TYPE_RESERVE \<noteq> TYPE_BIND" "TYPE_BIND \<noteq> TYPE_RESERVE"
  "TYPE_HALFCLOSE_READ \<noteq> TYPE_INVALID" "TYPE_HALFCLOSE_READ \<noteq> TYPE_RESERVE"
  "TYPE_HALFCLOSE_READ \<noteq> TYPE_HALFCLOSE_WRITE" "TYPE_HALFCLOSE_WRITE \<noteq> TYPE_HALFCLOSE_READ"
  "TYPE_HALFCLOSE_READ \<noteq> TYPE_CONNECTED" "TYPE_CONNECTED \<noteq> TYPE_HALFCLOSE_READ"
  "TYPE_HALFCLOSE_READ \<noteq> TYPE_CONNECTING" "TYPE_CONNECTING \<noteq> TYPE_HALFCLOSE_READ"
  "TYPE_HALFCLOSE_READ \<noteq> TYPE_PLISTEN" "TYPE_PLISTEN \<noteq> TYPE_HALFCLOSE_READ"
  "TYPE_HALFCLOSE_READ \<noteq> TYPE_LISTEN" "TYPE_LISTEN \<noteq> TYPE_HALFCLOSE_READ"
  "TYPE_HALFCLOSE_READ \<noteq> TYPE_PACCEPT" "TYPE_PACCEPT \<noteq> TYPE_HALFCLOSE_READ"
  "TYPE_HALFCLOSE_READ \<noteq> TYPE_BIND" "TYPE_BIND \<noteq> TYPE_HALFCLOSE_READ"
  by (simp_all add: type_defs)

lemma life_refl [simp, intro]: "life s s"
  by (simp add: life_def)

lemma life_trans: "life s t \<Longrightarrow> life t u \<Longrightarrow> life s u"
  unfolding life_def by metis

lemma pres_refl [simp, intro]: "pres ss ss"
  by (simp add: pres_def)

lemma pres_trans [trans]: "pres a b \<Longrightarrow> pres b c \<Longrightarrow> pres a c"
  unfolding pres_def using life_trans by metis

text \<open>The kernel, the results and the output do not matter.\<close>

definition same :: "socket_server \<Rightarrow> socket_server \<Rightarrow> bool" where
  "same ss ss' \<longleftrightarrow> ss_slot ss' = ss_slot ss \<and> env ss' = env ss"

lemma same_pres: "same a b \<Longrightarrow> pres a b"
  by (simp add: same_def pres_def)

named_theorems ss_simps \<open>slots and environment after a step\<close>

lemma env_simps [ss_simps, simp]:
  "env (emit outs ss) = env ss" "env (put i s ss) = env ss" "env (set_result a b c d ss) = env ss"
  "env (set_data d ss) = env ss" "env (stat_read i n ss) = env ss" "env (stat_write i n ss) = env ss"
  "env (set_type i t ss) = env ss" "env (ss\<lparr>ss_io := io\<rparr>) = env ss" "env (ss\<lparr>ss_poll := p\<rparr>) = env ss"
  "env (ss\<lparr>ss_reserve_fd := f\<rparr>) = env ss" "env (ss\<lparr>ss_result := m\<rparr>) = env ss"
  by (simp_all add: env_def emit_def put_def set_result_def set_data_def stat_read_def stat_write_def set_type_def)

lemma slot_simps [ss_simps, simp]:
  "ss_slot (emit outs ss) = ss_slot ss" "ss_slot (put i s ss) = (ss_slot ss)(i := s)"
  "ss_slot (set_result a b c d ss) = ss_slot ss" "ss_slot (set_data d ss) = ss_slot ss"
  "ss_slot (set_type i t ss) = (ss_slot ss)(i := (ss_slot ss i)\<lparr>sk_type := t\<rparr>)"
  by (simp_all add: emit_def put_def set_result_def set_data_def set_type_def)

lemma stat_slot [simp]:
  "ss_slot (stat_read i n ss) = (ss_slot ss)(i := (ss_slot ss i)\<lparr>sk_nread := sk_nread (ss_slot ss i) + n, sk_rtime := ss_time ss\<rparr>)"
  "ss_slot (stat_write i n ss) = (ss_slot ss)(i := (ss_slot ss i)\<lparr>sk_nwrite := sk_nwrite (ss_slot ss i) + n, sk_wtime := ss_time ss\<rparr>)"
  by (simp_all add: stat_read_def stat_write_def)

lemma next_io_same: "next_io ss = (a, ss') \<Longrightarrow> same ss ss'"
  by (auto simp: next_io_def same_def env_def split: list.splits)

lemma write_once_same: "write_once sz ss = (r, ss') \<Longrightarrow> same ss ss'"
  by (auto simp: write_once_def split: prod.splits answer.splits dest: next_io_same)

lemma next_name_same: "next_name ss = (r, ss') \<Longrightarrow> same ss ss'"
  by (auto simp: next_name_def split: prod.splits answer.splits dest: next_io_same)

lemma poll_op_same: "poll_op op ss = (b, ss') \<Longrightarrow> same ss ss'"
  by (auto simp: poll_op_def same_def env_def emit_def split: list.splits)

lemma same_refl [simp]: "same ss ss"
  by (simp add: same_def)

lemma same_trans: "same a b \<Longrightarrow> same b c \<Longrightarrow> same a c"
  by (simp add: same_def)

lemma enable_write_slot:
  "enable_write i b ss = (r, ss') \<Longrightarrow>
     ss_slot ss' = (ss_slot ss)(i := (ss_slot ss i)\<lparr>sk_writing := b\<rparr>) \<and> env ss' = env ss"
  by (auto simp: enable_write_def Let_def same_def split: if_splits dest!: poll_op_same)

lemma enable_read_slot:
  "enable_read i b ss = (r, ss') \<Longrightarrow>
     ss_slot ss' = (ss_slot ss)(i := (ss_slot ss i)\<lparr>sk_reading := b\<rparr>) \<and> env ss' = env ss"
  by (auto simp: enable_read_def Let_def same_def split: if_splits dest!: poll_op_same)

lemmas same_dests = next_io_same write_once_same next_name_same poll_op_same

text \<open>A step that changes one slot.\<close>

definition slot_ok_step :: "socket \<Rightarrow> socket \<Rightarrow> bool" where
  "slot_ok_step s t \<longleftrightarrow> life s t \<and> (sock_ok s \<longrightarrow> sock_ok t \<and> (sk_type s = TYPE_RESERVE \<longrightarrow> sk_type t = TYPE_RESERVE))"

lemma pres_slot:
  assumes "ss_slot ss' = (ss_slot ss)(i := t)" "env ss' = env ss" "slot_ok_step (ss_slot ss i) t"
  shows "pres ss ss'"
  using assms by (simp add: pres_def slot_ok_step_def)

section \<open>Steps of a slot\<close>

lemma slot_ok_refl [simp]: "slot_ok_step s s"
  by (simp add: slot_ok_step_def)

text \<open>Two states of a slot that agree on what the invariant reads.\<close>

definition agree :: "socket \<Rightarrow> socket \<Rightarrow> bool" where
  "agree s t \<longleftrightarrow>
     sk_high t = sk_high s \<and> sk_low t = sk_low s \<and> sk_wb_size t = sk_wb_size s \<and> sk_dw_buffer t = sk_dw_buffer s \<and>
     sk_dw_offset t = sk_dw_offset s \<and> sk_size t = sk_size s \<and> sk_locked t = sk_locked s \<and> sk_id t = sk_id s \<and>
     sk_protocol t = sk_protocol s"

lemma agree_base: "agree s t \<Longrightarrow> base_ok t \<longleftrightarrow> base_ok s"
  by (auto simp: agree_def base_ok_def queued_def split: option.splits)

lemma agree_ok: "agree s t \<Longrightarrow> sk_type t = sk_type s \<Longrightarrow> slot_ok_step s t"
  using agree_base [of s t] by (simp add: slot_ok_step_def life_def sock_ok_def agree_def)

lemma type_ok:
  assumes "agree s t" "\<not> idle_type (sk_type s)" "\<not> idle_type (sk_type t)" "sk_type s \<noteq> TYPE_HALFCLOSE_READ \<or> sk_type t = sk_type s"
  shows "slot_ok_step s t"
  using assms agree_base [of s t] by (auto simp: slot_ok_step_def life_def sock_ok_def agree_def idle_type_def)

lemma closed_ok:
  assumes "sk_type s \<noteq> TYPE_RESERVE" "sk_protocol t = sk_protocol s" "sk_id t = sk_id s" "sk_locked t = sk_locked s" "sk_type t = TYPE_INVALID" "sk_high t = []" "sk_low t = []" "sk_dw_buffer t = None"
  shows "slot_ok_step s t"
  using assms by (simp add: slot_ok_step_def life_def sock_ok_def idle_type_def type_defs)

lemma idle_simps [simp]:
  "idle_type TYPE_INVALID" "idle_type TYPE_RESERVE" "\<not> idle_type TYPE_PLISTEN" "\<not> idle_type TYPE_LISTEN"
  "\<not> idle_type TYPE_CONNECTING" "\<not> idle_type TYPE_CONNECTED" "\<not> idle_type TYPE_HALFCLOSE_READ"
  "\<not> idle_type TYPE_HALFCLOSE_WRITE" "\<not> idle_type TYPE_PACCEPT" "\<not> idle_type TYPE_BIND"
  by (simp_all add: idle_type_def type_defs)

text \<open>A step of one slot, with what it does to it.\<close>

definition at :: "nat \<Rightarrow> (socket \<Rightarrow> socket \<Rightarrow> bool) \<Rightarrow> socket_server \<Rightarrow> socket_server \<Rightarrow> bool" where
  "at i P ss ss' \<longleftrightarrow> env ss' = env ss \<and> (\<forall>j. j \<noteq> i \<longrightarrow> ss_slot ss' j = ss_slot ss j) \<and> P (ss_slot ss i) (ss_slot ss' i)"

lemma at_pres: "at i slot_ok_step ss ss' \<Longrightarrow> pres ss ss'"
  unfolding at_def pres_def slot_ok_step_def by (metis life_refl)

lemma at_mono: "at i P ss ss' \<Longrightarrow> P (ss_slot ss i) (ss_slot ss' i) \<longrightarrow> Q (ss_slot ss i) (ss_slot ss' i) \<Longrightarrow> at i Q ss ss'"
  unfolding at_def by auto

lemma at_same: "same a b \<Longrightarrow> P (ss_slot a i) (ss_slot a i) \<Longrightarrow> at i P a b"
  unfolding at_def same_def by simp

lemma at_trans: "at i P a b \<Longrightarrow> at i Q b c \<Longrightarrow> (\<And>s t u. P s t \<Longrightarrow> Q t u \<Longrightarrow> R s u) \<Longrightarrow> at i R a c"
  unfolding at_def by auto

lemma at_slot: "at i P ss ss' \<Longrightarrow> P (ss_slot ss i) (ss_slot ss' i)"
  unfolding at_def by auto

lemma at_other: "at i P ss ss' \<Longrightarrow> j \<noteq> i \<Longrightarrow> ss_slot ss' j = ss_slot ss j"
  unfolding at_def by auto

lemma at_same_left: "same a b \<Longrightarrow> at i P b c \<Longrightarrow> at i P a c"
  unfolding at_def same_def by simp

lemma enable_write_at: "enable_write i b ss = (r, ss') \<Longrightarrow> at i (\<lambda>s t. t = s\<lparr>sk_writing := b\<rparr>) ss ss'"
  unfolding at_def using enable_write_slot by auto

lemma enable_read_at: "enable_read i b ss = (r, ss') \<Longrightarrow> at i (\<lambda>s t. t = s\<lparr>sk_reading := b\<rparr>) ss ss'"
  unfolding at_def using enable_read_slot by auto

definition closed_slot :: "socket \<Rightarrow> socket" where
  "closed_slot s = s\<lparr>sk_high := [], sk_low := [], sk_type := TYPE_INVALID, sk_dw_buffer := None\<rparr>"

lemma force_close_at:
  "force_close i ss = Some ss' \<Longrightarrow>
     at i (\<lambda>s t. t = (if sk_type s = TYPE_INVALID then s else closed_slot s) \<and> sk_type s \<noteq> TYPE_RESERVE) ss ss'"
  unfolding at_def closed_slot_def
  by (auto simp: force_close_def Let_def type_defs split: if_splits)

lemma closed_slot_ok [simp]: "sk_type s \<noteq> TYPE_RESERVE \<Longrightarrow> slot_ok_step s (closed_slot s)"
  by (rule closed_ok) (simp_all add: closed_slot_def)

lemma force_close_pres: "force_close i ss = Some ss' \<Longrightarrow> at i slot_ok_step ss ss'"
  by (drule force_close_at) (auto elim!: at_mono)

lemma force_close_invalid: "force_close i ss = Some ss' \<Longrightarrow> sk_type (ss_slot ss' i) = TYPE_INVALID"
  by (auto dest!: force_close_at at_slot simp: closed_slot_def)

lemma report_error_slot: "report_error i e ss = (r, ss') \<Longrightarrow> ss_slot ss' = ss_slot ss \<and> env ss' = env ss \<and> r = SOCKET_ERR"
  by (auto simp: report_error_def Let_def)

lemma report_error_same: "report_error i e ss = (r, ss') \<Longrightarrow> same ss ss' \<and> r = SOCKET_ERR"
  by (auto simp: report_error_def Let_def same_def)

section \<open>The handlers of the socket thread\<close>

lemma trigger_write_at: "trigger_write sid ss = (r, ss') \<Longrightarrow> at (hash_id sid) slot_ok_step ss ss'"
  by (auto simp: trigger_write_def Let_def at_def agree_def intro!: agree_ok
        split: if_splits prod.splits bool.splits dest!: enable_write_slot report_error_slot)

lemma fresh_simps [simp]: "fresh []" "fresh (wb # wbs) \<longleftrightarrow> wb_off wb = 0 \<and> fresh wbs" "fresh (xs @ ys) \<longleftrightarrow> fresh xs \<and> fresh ys"
  by (auto simp: fresh_def)

lemma fresh_tl: "fresh wbs \<Longrightarrow> fresh (tl wbs)"
  by (cases wbs) auto

lemma fresh_tl_append: "fresh (tl xs) \<Longrightarrow> fresh ys \<Longrightarrow> fresh (tl (xs @ ys))"
  by (cases xs) (auto intro: fresh_tl)

lemma append_sendbuffer_base:
  assumes "base_ok (ss_slot ss i)"
  shows "base_ok (ss_slot (append_sendbuffer i hi b addr ss) i)"
  using assms
  by (auto simp: append_sendbuffer_def Let_def base_ok_def queued_def set_wb_list_def wb_list_def wb_ok_def
        intro!: fresh_tl_append split: option.splits)

lemma append_sendbuffer_at:
  assumes "idle_type (sk_type (ss_slot ss i)) \<longrightarrow> \<not> sock_ok (ss_slot ss i)"
  shows "at i slot_ok_step ss (append_sendbuffer i hi b addr ss)"
proof -
  let ?ss = "append_sendbuffer i hi b addr ss"
  have "life (ss_slot ss i) (ss_slot ?ss i)" "sk_type (ss_slot ?ss i) = sk_type (ss_slot ss i)"
      "fresh (sk_low (ss_slot ss i)) \<longrightarrow> fresh (sk_low (ss_slot ?ss i))"
    by (simp_all add: append_sendbuffer_def Let_def set_wb_list_def wb_list_def life_def)
  then show ?thesis
    using assms append_sendbuffer_base [of ss i hi b addr]
    by (auto simp: at_def slot_ok_step_def sock_ok_def append_sendbuffer_def Let_def)
qed

lemma slot_ok_trans: "slot_ok_step s t \<Longrightarrow> slot_ok_step t u \<Longrightarrow> slot_ok_step s u"
  unfolding slot_ok_step_def using life_trans by blast

lemma at_ok_trans [trans]: "at i slot_ok_step a b \<Longrightarrow> at i slot_ok_step b c \<Longrightarrow> at i slot_ok_step a c"
  using at_trans slot_ok_trans by blast

lemma at_ok_refl [simp]: "at i slot_ok_step ss ss"
  by (simp add: at_def)

lemma enable_write_ok: "enable_write i b ss = (r, ss') \<Longrightarrow> at i slot_ok_step ss ss'"
  by (drule enable_write_at) (auto elim!: at_mono intro!: agree_ok simp: agree_def)

lemma enable_read_ok: "enable_read i b ss = (r, ss') \<Longrightarrow> at i slot_ok_step ss ss'"
  by (drule enable_read_at) (auto elim!: at_mono intro!: agree_ok simp: agree_def)

lemma put_ok: "slot_ok_step (ss_slot ss i) s \<Longrightarrow> at i slot_ok_step ss (put i s ss)"
  by (simp add: at_def)

lemma same_ok: "same a b \<Longrightarrow> at i slot_ok_step a b"
  by (simp add: at_same)

lemma same_simps [simp]:
  "same ss (emit outs ss)" "same ss (set_result a b c d ss)" "same ss (set_data e ss)"
  "same ss (ss\<lparr>ss_io := io\<rparr>)" "same ss (ss\<lparr>ss_poll := p\<rparr>)" "same ss (ss\<lparr>ss_reserve_fd := f\<rparr>)"
  by (simp_all add: same_def)

lemma warn_size_ok: "warn_size i ss = (r, ss') \<Longrightarrow> at i slot_ok_step ss ss'"
  by (auto simp: warn_size_def Let_def at_def agree_def intro!: agree_ok split: if_splits)

lemma append_first_ok:
  assumes "append_first i hi b addr ss = (r, ss')" "idle_type (sk_type (ss_slot ss i)) \<longrightarrow> \<not> sock_ok (ss_slot ss i)"
  shows "at i slot_ok_step ss ss'"
proof -
  obtain e s1 where e: "enable_write i True (append_sendbuffer i hi b addr ss) = (e, s1)" by fastforce
  have "at i slot_ok_step ss s1"
    using append_sendbuffer_at [OF assms(2)] enable_write_ok [OF e] by (rule at_ok_trans)
  moreover have "at i slot_ok_step s1 ss'"
    using assms(1) e by (auto simp: append_first_def split: bool.splits dest: warn_size_ok report_error_same intro: same_ok)
  ultimately show ?thesis by (rule at_ok_trans)
qed

lemma send_socket_ok:
  assumes "send_socket sid b hi a ss = (r, ss')"
  shows "at (hash_id sid) slot_ok_step ss ss'"
proof -
  let ?i = "hash_id sid"
  let ?s = "ss_slot ss ?i"
  define addr where "addr = (case a of None \<Rightarrow> sk_udp_address ?s | Some x \<Rightarrow> x)"
  note eq = assms [unfolded send_socket_def Let_def addr_def [symmetric]]
  have idle: "idle_type (sk_type ?s) \<longrightarrow> \<not> sock_ok ?s"
    if "\<not> send_dropped ?s sid" "\<not> send_buffer_empty ?s \<or> sk_protocol ?s \<noteq> PROTOCOL_UNKNOWN"
    using that by (auto simp: send_dropped_def idle_type_def sock_ok_def send_buffer_empty_def)
  show ?thesis
  proof (cases "send_dropped ?s sid \<or> sk_type ?s = TYPE_PLISTEN \<or> sk_type ?s = TYPE_LISTEN")
    case True
    then show ?thesis using eq by (auto split: if_splits intro!: same_ok)
  next
    case d: False
    show ?thesis
    proof (cases "send_buffer_empty ?s")
      case False
      then obtain x where "warn_size ?i (append_sendbuffer ?i hi b x ss) = (r, ss')" using d eq by (auto split: if_splits)
      then show ?thesis
        using append_sendbuffer_at [OF idle] warn_size_ok at_ok_trans d False by (metis (no_types, lifting))
    next
      case e: True
      show ?thesis
      proof (cases "sk_protocol ?s = PROTOCOL_TCP")
        case True
        then have "sk_protocol ?s \<noteq> PROTOCOL_UNKNOWN" by (simp add: protocol_defs)
        then show ?thesis using append_first_ok [OF _ idle] d e eq True by auto
      next
        case u: False
        show ?thesis
        proof (cases "udp_socket_address ?s addr")
          case None
          then show ?thesis using d e u eq by (auto intro!: same_ok)
        next
          case (Some sa)
          then have k: "sk_protocol ?s \<noteq> PROTOCOL_UNKNOWN"
            by (auto simp: udp_socket_address_def protocol_defs split: if_splits)
          obtain w s1 where w: "write_once (length (blob_bytes b)) ss = (w, s1)" by fastforce
          have same: "same ss s1" using write_once_same [OF w] .
          then have i1: "idle_type (sk_type (ss_slot s1 ?i)) \<longrightarrow> \<not> sock_ok (ss_slot s1 ?i)"
            using idle d k by (simp add: same_def)
          have "append_first ?i hi b (Some addr) s1 = (r, ss') \<or>
              (\<exists>n. ss' = stat_write ?i n (emit [SentTo (sk_fd ?s) sa (blob_bytes b), FreeBlob b] s1))"
            using d e u Some eq w by (auto split: sum.splits if_splits)
          then have "at ?i slot_ok_step s1 ss'"
          proof
            assume "append_first ?i hi b (Some addr) s1 = (r, ss')"
            then show ?thesis using i1 by (rule append_first_ok)
          next
            assume "\<exists>n. ss' = stat_write ?i n (emit [SentTo (sk_fd ?s) sa (blob_bytes b), FreeBlob b] s1)"
            then show ?thesis by (auto simp: at_def agree_def intro!: agree_ok)
          qed
          then show ?thesis using same by (rule at_same_left [rotated])
        qed
      qed
    qed
  qed
qed

lemma dec_sending_ref_ok: "dec_sending_ref sid ss = Some ss' \<Longrightarrow> at (hash_id sid) slot_ok_step ss ss'"
  by (auto simp: dec_sending_ref_def Let_def at_def agree_def intro!: agree_ok split: if_splits)

lemma close_read_ok:
  assumes "sock_ok (ss_slot ss i) \<longrightarrow> \<not> idle_type (sk_type (ss_slot ss i))" "sk_type (ss_slot ss i) \<noteq> TYPE_INVALID"
  shows "at i slot_ok_step ss (close_read i ss)"
proof -
  obtain e s1 where e: "enable_read i False (set_type i TYPE_HALFCLOSE_READ ss) = (e, s1)" by fastforce
  let ?s = "ss_slot ss i" and ?t = "ss_slot (close_read i ss) i"
  have t: "agree ?s ?t" "sk_type ?t = TYPE_HALFCLOSE_READ" "env (close_read i ss) = env ss"
      "\<forall>j. j \<noteq> i \<longrightarrow> ss_slot (close_read i ss) j = ss_slot ss j"
    using enable_read_slot [OF e] by (auto simp: close_read_def e Let_def agree_def)
  have "life ?s ?t" using t assms(2) by (auto simp: life_def agree_def type_defs)
  moreover have "sock_ok ?s \<longrightarrow> sock_ok ?t"
    using t(2) agree_base [OF t(1)] assms(1) t(1) by (auto simp: sock_ok_def agree_def)
  moreover have "sock_ok ?s \<longrightarrow> sk_type ?s \<noteq> TYPE_RESERVE" using assms(1) by auto
  ultimately show ?thesis using t by (simp add: at_def slot_ok_step_def)
qed

section \<open>Writing the queues\<close>

lemma close_write_at:
  assumes "close_write i e ss = Some (r, ss')" "sk_type (ss_slot ss i) \<noteq> TYPE_INVALID"
  shows "r \<noteq> - 1 \<and> at i (\<lambda>s t. life s t \<and> (\<not> idle_type (sk_type s) \<and> sock_ok s \<longrightarrow> sock_ok t)) ss ss'"
proof (cases "sk_closing (ss_slot ss i) \<or> sk_type (ss_slot ss i) = TYPE_HALFCLOSE_READ")
  case True
  then have "force_close i ss = Some ss'" "r = SOCKET_RST"
    using assms(1) by (auto simp: close_write_def Let_def split: bind_splits)
  then show ?thesis using force_close_pres [of i ss ss'] by (auto simp: at_def slot_ok_step_def SOCKET_RST_def)
next
  case c: False
  show ?thesis
  proof (cases "sk_type (ss_slot ss i) = TYPE_HALFCLOSE_WRITE")
    case True
    then show ?thesis using assms(1) c by (auto simp: close_write_def Let_def SOCKET_RST_def at_def)
  next
    case False
    obtain x s1 where e: "enable_write i False (emit [ShutWrite (sk_fd (ss_slot ss i))] (set_type i TYPE_HALFCLOSE_WRITE ss)) = (x, s1)"
      by fastforce
    have r: "ss_slot ss' = ss_slot s1" "env ss' = env s1" "r = SOCKET_ERR"
      using assms(1) c False e by (auto simp: close_write_def Let_def dest!: report_error_slot)
    have a: "agree (ss_slot ss i) (ss_slot ss' i)" "sk_type (ss_slot ss' i) = TYPE_HALFCLOSE_WRITE"
      using r enable_write_slot [OF e] by (auto simp: agree_def)
    then have "life (ss_slot ss i) (ss_slot ss' i)" using assms(2) c by (auto simp: life_def agree_def type_defs)
    moreover have "\<not> idle_type (sk_type (ss_slot ss i)) \<and> sock_ok (ss_slot ss i) \<longrightarrow> sock_ok (ss_slot ss' i)"
      using a agree_base [OF a(1)] by (auto simp: sock_ok_def agree_def)
    ultimately show ?thesis using r enable_write_slot [OF e] by (auto simp: at_def SOCKET_ERR_def)
  qed
qed

definition loop_ok :: "bool \<Rightarrow> socket \<Rightarrow> bool" where
  "loop_ok hi s \<longleftrightarrow> \<not> idle_type (sk_type s) \<and> base_ok s \<and> sk_dw_buffer s = None \<and> (if hi then fresh (sk_low s) else sk_high s = [])"

text \<open>What a pass over a queue does, from a state without partly written buffers of low priority.\<close>

definition loop_step :: "bool \<Rightarrow> int \<Rightarrow> socket \<Rightarrow> socket \<Rightarrow> bool" where
  "loop_step hi r s t \<longleftrightarrow> life s t \<and>
     (loop_ok hi s \<and> fresh (sk_low s) \<longrightarrow> (if r = - 1 then loop_ok hi t \<and> sk_type t = sk_type s else sock_ok t)) \<and>
     (r = - 1 \<longrightarrow> sk_type t = sk_type s)"

lemma loop_step_refl [simp]: "loop_step hi r s s"
  by (auto simp: loop_step_def loop_ok_def sock_ok_def)

lemma wb_done_at:
  assumes "wb_list hi (ss_slot ss i) = wb # wbs"
  shows "at i (\<lambda>s t. life s t \<and> sk_type t = sk_type s \<and> (loop_ok hi s \<and> fresh (sk_low s) \<longrightarrow> loop_ok hi t \<and> fresh (sk_low t)) \<and>
     wb_list hi t = wbs \<and> sk_protocol t = sk_protocol s) ss (wb_done i hi wb wbs ss)"
proof -
  let ?s = "ss_slot ss i"
  let ?t = "set_wb_list hi wbs (?s\<lparr>sk_wb_size := sk_wb_size ?s - int (wb_sz wb)\<rparr>)"
  have "loop_ok hi ?s \<and> fresh (sk_low ?s) \<longrightarrow> loop_ok hi ?t \<and> fresh (sk_low ?t)"
    using assms fresh_tl [of wbs]
    by (cases hi; cases "sk_dw_buffer ?s") (simp_all add: set_wb_list_def wb_list_def loop_ok_def base_ok_def queued_def)
  moreover have "life ?s ?t" "sk_type ?t = sk_type ?s" "wb_list hi ?t = wbs" "sk_protocol ?t = sk_protocol ?s"
    by (simp_all add: set_wb_list_def life_def wb_list_def)
  ultimately show ?thesis by (simp add: at_def wb_done_def Let_def)
qed

lemma wb_partial_at:
  assumes "wb_list hi (ss_slot ss i) = wb # wbs" "n \<le> wb_sz wb"
  shows "at i (loop_step hi (- 1)) ss (wb_partial i hi n wb wbs ss)"
proof -
  let ?s = "ss_slot ss i"
  let ?t = "set_wb_list hi (wb\<lparr>wb_off := wb_off wb + n, wb_sz := wb_sz wb - n\<rparr> # wbs)
      (?s\<lparr>sk_wb_size := sk_wb_size ?s - int n\<rparr>)"
  have "loop_ok hi ?s \<and> fresh (sk_low ?s) \<longrightarrow> loop_ok hi ?t"
    using assms
    by (cases hi; cases "sk_dw_buffer ?s")
       (simp_all add: set_wb_list_def wb_list_def loop_ok_def base_ok_def queued_def wb_ok_def of_nat_diff)
  moreover have "life ?s ?t" "sk_type ?t = sk_type ?s" by (simp_all add: set_wb_list_def life_def)
  ultimately show ?thesis by (simp add: at_def wb_partial_def Let_def loop_step_def)
qed

lemma agree_loop: "agree s t \<Longrightarrow> sk_type t = sk_type s \<Longrightarrow> loop_ok hi t \<longleftrightarrow> loop_ok hi s"
  using agree_base [of s t] by (simp add: loop_ok_def agree_def)

lemma at_pre:
  assumes "at i P a b" "at i Q b c" "\<And>t u. t = ss_slot b i \<Longrightarrow> u = ss_slot c i \<Longrightarrow> P (ss_slot a i) t \<Longrightarrow> Q t u \<Longrightarrow> R (ss_slot a i) u"
  shows "at i R a c"
  using assms by (auto simp: at_def)

lemma wire_slot [simp]:
  "ss_slot (wire i b ss) =
     (ss_slot ss)(i := (ss_slot ss i)\<lparr>sk_nwrite := sk_nwrite (ss_slot ss i) + length b, sk_wtime := ss_time ss\<rparr>)"
  "env (wire i b ss) = env ss"
  by (simp_all add: wire_def) (simp add: emit_def)

lemma wire_at: "at i (\<lambda>s t. agree s t \<and> sk_type t = sk_type s) ss (wire i b ss)"
  by (simp add: at_def agree_def)

lemma write_retry_le: "write_retry io sz = (Inl n, io') \<Longrightarrow> n \<le> sz"
  by (induction io sz rule: write_retry.induct) (auto split: answer.splits if_splits)

lemma close_write_loop:
  assumes "close_write i e ss = Some (r, ss')" "sk_type (ss_slot ss i) \<noteq> TYPE_INVALID"
  shows "at i (loop_step hi r) ss ss'"
proof -
  have "loop_ok hi s \<and> fresh (sk_low s) \<longrightarrow> \<not> idle_type (sk_type s) \<and> sock_ok s" for s
    by (auto simp: loop_ok_def sock_ok_def)
  then show ?thesis using close_write_at [OF assms] by (auto simp: at_def loop_step_def)
qed

lemma done_loop_step:
  assumes "life s t" "sk_type t = sk_type s" "loop_ok hi s \<and> fresh (sk_low s) \<longrightarrow> loop_ok hi t \<and> fresh (sk_low t)" "loop_step hi r t u"
  shows "loop_step hi r s u"
  using assms life_trans [of s t u] by (simp add: loop_step_def)

lemma agree_life: "agree s t \<Longrightarrow> sk_type t = sk_type s \<Longrightarrow> life s t"
  by (simp add: life_def agree_def)

lemma agree_loop_step: "agree s t \<Longrightarrow> sk_type t = sk_type s \<Longrightarrow> loop_step hi r t u \<Longrightarrow> loop_step hi r s u"
  using done_loop_step [of s t hi r u] agree_loop [of s t hi] agree_life [of s t] by (simp add: agree_def)

lemma tcp_loop_at:
  "tcp_loop wbs i hi ss = Some (r, ss') \<Longrightarrow> wb_list hi (ss_slot ss i) = wbs \<Longrightarrow> sk_type (ss_slot ss i) \<noteq> TYPE_INVALID \<Longrightarrow>
     at i (loop_step hi r) ss ss'"
proof (induction wbs i hi ss rule: tcp_loop.induct)
  case (1 i hi ss)
  then show ?case by (auto simp: at_def)
next
  case (2 wb wbs i hi ss)
  obtain w io where w: "write_retry (ss_io ss) (wb_sz wb) = (w, io)" by fastforce
  let ?s0 = "ss\<lparr>ss_io := io\<rparr>"
  have same: "same ss ?s0" by simp
  show ?case
  proof (cases w)
    case (Inr e)
    then have "(r = - 1 \<and> ss' = ?s0) \<or> close_write i e ?s0 = Some (r, ss')" using 2(2) w by (auto split: if_splits)
    then have "at i (loop_step hi r) ?s0 ss'" using close_write_loop [of i e ?s0 r ss' hi] 2(4) by (auto simp: at_def)
    then show ?thesis using same by (rule at_same_left [rotated])
  next
    case (Inl n)
    let ?s1 = "wire i (take n (wb_data wb)) ?s0"
    have 3: "at i (\<lambda>s t. agree s t \<and> sk_type t = sk_type s) ?s0 ?s1" by (rule wire_at)
    have l1: "wb_list hi (ss_slot ?s1 i) = wb # wbs" using 2(3) by (simp add: wb_list_def split: if_splits)
    have le: "n \<le> wb_sz wb" using write_retry_le w Inl by simp
    have "at i (loop_step hi r) ?s1 ss'"
    proof (cases "n = wb_sz wb")
      case False
      then have "r = - 1" "ss' = wb_partial i hi n wb wbs ?s1" using 2(2) w Inl by (auto simp: Let_def)
      then show ?thesis using wb_partial_at [OF l1 le] by simp
    next
      case True
      let ?s2 = "wb_done i hi wb wbs ?s1"
      have step: "tcp_loop wbs i hi ?s2 = Some (r, ss')" using 2(2) w Inl True by (simp add: Let_def)
      note d = wb_done_at [OF l1]
      have "at i (loop_step hi r) ?s2 ss'"
        using 2(1) [OF w [symmetric] Inl refl _ step] True d 2(4) by (simp add: at_def)
      with d show ?thesis by (rule at_pre) (blast intro: done_loop_step)
    qed
    with 3 have "at i (loop_step hi r) ?s0 ss'" by (rule at_pre) (blast intro: agree_loop_step)
    then show ?thesis using same by (rule at_same_left [rotated])
  qed
qed

lemma wb_done_loop:
  "wb_list hi (ss_slot ss i) = wb # wbs \<Longrightarrow> at i (loop_step hi (- 1)) ss (wb_done i hi wb wbs ss)"
  by (drule wb_done_at) (auto simp: at_def loop_step_def)

lemma stat_write_at: "at i (\<lambda>s t. agree s t \<and> sk_type t = sk_type s) ss (stat_write i n ss)"
  by (simp add: at_def agree_def)

lemma udp_loop_at:
  "udp_loop wbs i hi ss = Some (r, ss') \<Longrightarrow> wb_list hi (ss_slot ss i) = wbs \<Longrightarrow> r = - 1 \<and> at i (loop_step hi r) ss ss'"
proof (induction wbs i hi ss rule: udp_loop.induct)
  case (1 i hi ss)
  then show ?case by (auto simp: at_def)
next
  case (2 wb wbs i hi ss)
  from 2(2) obtain addr where a: "wb_addr wb = Some addr" by (auto simp: bind_eq_Some_conv)
  show ?case
  proof (cases "udp_socket_address (ss_slot ss i) addr")
    case None
    then have eq: "r = - 1" "ss' = wb_done i hi wb wbs (emit [LogError] ss)" using 2(2) a by simp_all
    have "at i (loop_step hi (- 1)) (emit [LogError] ss) (wb_done i hi wb wbs (emit [LogError] ss))"
      by (rule wb_done_loop) (use 2(3) in simp)
    then show ?thesis using eq at_same_left [of ss "emit [LogError] ss"] by simp
  next
    case (Some sa)
    obtain w s1 where w: "write_once (wb_sz wb) ss = (w, s1)" by fastforce
    have same: "same ss s1" using write_once_same [OF w] .
    then have l1: "wb_list hi (ss_slot s1 i) = wb # wbs" using 2(3) by (simp add: same_def)
    have "r = - 1 \<and> at i (loop_step hi r) s1 ss'"
    proof (cases w)
      case (Inr e)
      then have eq: "r = - 1" "ss' = s1 \<or> ss' = wb_done i hi wb wbs (emit [LogError] s1)"
        using 2(2) a Some w by (auto split: if_splits)
      have "at i (loop_step hi (- 1)) (emit [LogError] s1) (wb_done i hi wb wbs (emit [LogError] s1))"
        by (rule wb_done_loop) (use l1 in simp)
      then have "at i (loop_step hi (- 1)) s1 (wb_done i hi wb wbs (emit [LogError] s1))"
        by (rule at_same_left [rotated]) simp
      moreover have "at i (loop_step hi (- 1)) s1 s1" by (simp add: at_def)
      ultimately show ?thesis using eq by auto
    next
      case (Inl n)
      let ?e = "emit [SentTo (sk_fd (ss_slot s1 i)) sa (take (wb_sz wb) (wb_data wb))] s1"
      let ?s2 = "stat_write i (wb_sz wb) ?e"
      let ?s3 = "wb_done i hi wb wbs ?s2"
      have l2: "wb_list hi (ss_slot ?s2 i) = wb # wbs" using l1 by (simp add: wb_list_def split: if_splits)
      note d = wb_done_at [OF l2]
      have "udp_loop wbs i hi ?s3 = Some (r, ss')" using 2(2) a Some w Inl by simp
      then have ih: "r = - 1" "at i (loop_step hi r) ?s3 ss'"
        using 2(1) [OF a Some w [symmetric] Inl] at_slot [OF d] by blast+
      from d ih(2) have "at i (loop_step hi r) ?s2 ss'" by (rule at_pre) (blast intro: done_loop_step)
      with stat_write_at have "at i (loop_step hi r) ?e ss'" by (rule at_pre) (blast intro: agree_loop_step)
      then have "at i (loop_step hi r) s1 ss'" by (rule at_same_left [rotated]) simp
      then show ?thesis using ih(1) by simp
    qed
    then show ?thesis using same at_same_left by blast
  qed
qed

lemma send_list_at:
  assumes "send_list i hi ss = Some (r, ss')" "sk_type (ss_slot ss i) \<noteq> TYPE_INVALID"
  shows "at i (loop_step hi r) ss ss'"
  using assms tcp_loop_at udp_loop_at
  by (auto simp: send_list_def send_list_tcp_def send_list_udp_def split: if_splits)

lemma send_finish_ok:
  assumes "send_finish i ss = Some (r, ss')"
  shows "at i slot_ok_step ss ss'"
proof (cases "sk_closing (ss_slot ss i)")
  case True
  then have "force_close i ss = Some ss'" using assms by (auto simp: send_finish_def split: bind_splits if_splits)
  then show ?thesis by (rule force_close_pres)
next
  case False
  obtain e s1 where e: "enable_write i False ss = (e, s1)" by fastforce
  have "at i slot_ok_step s1 ss'"
    using assms False e
    by (cases e) (auto simp: send_finish_def Let_def at_def agree_def intro!: agree_ok split: if_splits dest!: report_error_slot)
  with enable_write_ok [OF e] show ?thesis by (rule at_ok_trans)
qed

lemma loop_ok_sock: "loop_ok True s \<Longrightarrow> sock_ok s"
  by (simp add: loop_ok_def sock_ok_def)

lemma raise_uncomplete_at:
  assumes "raise_uncomplete i ss = Some ss'"
  shows "at i (\<lambda>s t. life s t \<and> (loop_ok False s \<longrightarrow> sock_ok t)) ss ss'"
proof -
  let ?s = "ss_slot ss i"
  from assms obtain wb wbs where l: "sk_low ?s = wb # wbs" "sk_high ?s = []" "ss' = put i (?s\<lparr>sk_low := wbs, sk_high := [wb]\<rparr>) ss"
    by (auto simp: raise_uncomplete_def Let_def split: list.splits if_splits)
  have "loop_ok False ?s \<longrightarrow> sock_ok (?s\<lparr>sk_low := wbs, sk_high := [wb]\<rparr>)"
    using l fresh_tl [of wbs] by (auto simp: loop_ok_def sock_ok_def base_ok_def queued_def)
  then show ?thesis using l by (simp add: at_def life_def)
qed

text \<open>Fit for \<open>send_queues\<close>: nothing is queued, or the queue of low priority has no partly written head.\<close>

definition send_ready :: "socket \<Rightarrow> bool" where
  "send_ready s \<longleftrightarrow> loop_ok True s \<or> idle_type (sk_type s) \<and> sock_ok s"

lemma send_ready_ok: "send_ready s \<Longrightarrow> sock_ok s"
  using loop_ok_sock by (auto simp: send_ready_def)

lemma send_list_empty: "wb_list hi (ss_slot ss i) = [] \<Longrightarrow> send_list i hi ss = Some (- 1, ss)"
  by (simp add: send_list_def send_list_tcp_def send_list_udp_def)

lemma send_list_ready:
  assumes "send_list i True ss = Some (r, s1)" "sk_type (ss_slot ss i) \<noteq> TYPE_INVALID" "send_ready (ss_slot ss i)"
  shows "if r = - 1 then send_ready (ss_slot s1 i) else sock_ok (ss_slot s1 i)"
proof (cases "loop_ok True (ss_slot ss i)")
  case True
  then have "fresh (sk_low (ss_slot ss i))" by (simp add: loop_ok_def)
  then show ?thesis using at_slot [OF send_list_at [OF assms(1,2)]] True by (simp add: loop_step_def send_ready_def)
next
  case False
  then have i: "idle_type (sk_type (ss_slot ss i))" "sock_ok (ss_slot ss i)" using assms(3) by (simp_all add: send_ready_def)
  then have "wb_list True (ss_slot ss i) = []" by (simp add: sock_ok_def wb_list_def)
  then show ?thesis using send_list_empty [of True ss i] assms(1,3) by simp
qed

lemma send_low_list:
  assumes "send_list i False ss = Some (r, s1)" "sk_type (ss_slot ss i) \<noteq> TYPE_INVALID" "send_ready (ss_slot ss i)"
    "sk_high (ss_slot ss i) = []" "sk_low (ss_slot ss i) \<noteq> []"
  shows "if r = - 1 then loop_ok False (ss_slot s1 i) else sock_ok (ss_slot s1 i)"
proof -
  have l: "loop_ok True (ss_slot ss i)" using assms(3,5) by (auto simp: send_ready_def sock_ok_def)
  then have "loop_ok False (ss_slot ss i) \<and> fresh (sk_low (ss_slot ss i))" using assms(4) by (simp add: loop_ok_def)
  then show ?thesis using at_slot [OF send_list_at [OF assms(1,2)]] by (simp add: loop_step_def)
qed

definition sends :: "socket \<Rightarrow> socket \<Rightarrow> bool" where
  "sends s t \<longleftrightarrow> life s t \<and> (send_ready s \<longrightarrow> sock_ok t \<and> (sk_type s = TYPE_RESERVE \<longrightarrow> sk_type t = TYPE_RESERVE))"

lemma at_step:
  assumes "at i P a b" "at i Q b c" "P (ss_slot a i) (ss_slot b i) \<Longrightarrow> Q (ss_slot b i) (ss_slot c i) \<Longrightarrow> R (ss_slot a i) (ss_slot c i)"
  shows "at i R a c"
  using assms by (auto simp: at_def)

lemma at_weaken: "at i P a b \<Longrightarrow> (P (ss_slot a i) (ss_slot b i) \<Longrightarrow> Q (ss_slot a i) (ss_slot b i)) \<Longrightarrow> at i Q a b"
  by (auto simp: at_def)

lemma send_low_at:
  assumes "send_low i s1 = Some (r', ss')"
    and s: "sk_type (ss_slot s1 i) \<noteq> TYPE_INVALID" "sk_high (ss_slot s1 i) = []" "sk_low (ss_slot s1 i) \<noteq> []"
  shows "at i sends s1 ss'"
proof -
  obtain r s2 where eq: "send_list i False s1 = Some (r, s2)" "r \<noteq> - 1 \<and> ss' = s2 \<or> r = - 1 \<and> raise_uncomplete i s2 = Some ss' \<or>
      r = - 1 \<and> sk_low (ss_slot s2 i) \<noteq> [] \<and> \<not> list_uncomplete s2 (sk_low (ss_slot s2 i)) \<and> ss' = s2 \<or>
      r = - 1 \<and> sk_low (ss_slot s2 i) = [] \<and> send_finish i s2 = Some (r', ss')"
    using assms(1) by (auto simp: send_low_def bind_eq_Some_conv split: if_splits)
  note l = send_list_at [OF eq(1) s(1)]
  note ok = send_low_list [OF eq(1) s(1) _ s(2,3)]
  have life: "life (ss_slot s1 i) (ss_slot s2 i)" using at_slot [OF l] by (simp add: loop_step_def)
  have fresh: "loop_ok False s \<Longrightarrow> fresh (sk_low s) \<Longrightarrow> sock_ok s" for s by (simp add: loop_ok_def sock_ok_def)
  have busy: "send_ready (ss_slot s1 i) \<Longrightarrow> sk_type (ss_slot s1 i) \<noteq> TYPE_RESERVE"
    using s(3) by (auto simp: send_ready_def sock_ok_def loop_ok_def)
  from eq(2) show ?thesis
  proof (elim disjE conjE)
    assume "r \<noteq> - 1" "ss' = s2"
    then show ?thesis using l ok life busy by (auto elim: at_weaken simp: sends_def)
  next
    assume r: "r = - 1" and "raise_uncomplete i s2 = Some ss'"
    then have a: "at i (\<lambda>s t. life s t \<and> (loop_ok False s \<longrightarrow> sock_ok t)) s2 ss'" by (intro raise_uncomplete_at)
    show ?thesis using l a by (rule at_step) (use ok r life life_trans busy in \<open>auto simp: sends_def\<close>)
  next
    assume r: "r = - 1" "sk_low (ss_slot s2 i) \<noteq> []" "\<not> list_uncomplete s2 (sk_low (ss_slot s2 i))" "ss' = s2"
    have "loop_ok False (ss_slot s2 i) \<Longrightarrow> fresh (sk_low (ss_slot s2 i))"
      using r(2,3) by (cases "sk_low (ss_slot s2 i)") (auto simp: list_uncomplete_def loop_ok_def base_ok_def)
    then show ?thesis using l ok r life fresh busy by (auto elim!: at_weaken simp: sends_def)
  next
    assume r: "r = - 1" "sk_low (ss_slot s2 i) = []" and f: "send_finish i s2 = Some (r', ss')"
    show ?thesis
      using l send_finish_ok [OF f]
      by (rule at_step) (use ok r life life_trans fresh busy in \<open>auto simp: sends_def slot_ok_step_def\<close>)
  qed
qed

lemma sends_refl: "sends s s"
  using send_ready_ok by (simp add: sends_def)

lemma send_queues_at:
  assumes eq: "send_queues i ss = Some (r, ss')" and t: "sk_type (ss_slot ss i) \<noteq> TYPE_INVALID"
  shows "at i sends ss ss'"
proof -
  from eq obtain r1 s1 where s: "send_list i True ss = Some (r1, s1)"
    and rest: "(if r1 \<noteq> - 1 then Some (if r1 = SOCKET_ERR then (SOCKET_ERR, s1) else (- 1, s1))
      else if sk_high (ss_slot s1 i) \<noteq> [] then Some (- 1, s1)
      else if sk_low (ss_slot s1 i) = [] then send_finish i s1
      else send_low i s1) = Some (r, ss')"
    by (cases "send_list i True ss") (auto simp: send_queues_def split: if_splits)
  note l = send_list_at [OF s t]
  have ready: "send_ready (ss_slot ss i) \<Longrightarrow> if r1 = - 1 then send_ready (ss_slot s1 i) else sock_ok (ss_slot s1 i)"
    using send_list_ready [OF s t] .
  have life: "life (ss_slot ss i) (ss_slot s1 i)" and type: "r1 = - 1 \<longrightarrow> sk_type (ss_slot s1 i) = sk_type (ss_slot ss i)"
    using at_slot [OF l] by (simp_all add: loop_step_def)
  have join: "at i sends ss ss'" if "r1 = - 1" "at i sends s1 ss'"
    using l that(2) by (rule at_step) (use ready that(1) life life_trans type in \<open>auto simp: sends_def\<close>)
  have idle: "s1 = ss \<and> r1 = - 1" if "send_ready (ss_slot ss i)" "sk_type (ss_slot ss i) = TYPE_RESERVE"
    using that s send_list_empty [of True ss i] by (auto simp: send_ready_def loop_ok_def sock_ok_def wb_list_def)
  have stop: "at i sends ss s1"
    using l by (rule at_weaken) (use ready send_ready_ok life idle in \<open>auto simp: sends_def split: if_splits\<close>)
  consider "r1 \<noteq> - 1" | "r1 = - 1" "sk_high (ss_slot s1 i) \<noteq> []"
    | "r1 = - 1" "sk_high (ss_slot s1 i) = []" "sk_low (ss_slot s1 i) = []"
    | "r1 = - 1" "sk_high (ss_slot s1 i) = []" "sk_low (ss_slot s1 i) \<noteq> []" by blast
  then show ?thesis
  proof cases
    case 1
    then show ?thesis using rest stop by (auto split: if_splits)
  next
    case 2
    then show ?thesis using rest stop by auto
  next
    case 3
    then have "at i slot_ok_step s1 ss'" using rest send_finish_ok by auto
    then have "at i sends s1 ss'"
      by (rule at_weaken) (use send_ready_ok in \<open>auto simp: sends_def slot_ok_step_def\<close>)
    then show ?thesis using join 3(1) by blast
  next
    case 4
    then have "at i sends s1 ss'" using rest type t send_low_at by auto
    then show ?thesis using join 4(1) by blast
  qed
qed

lemma take_dw_at:
  "at i (\<lambda>s t. life s t \<and> (sock_ok s \<longrightarrow> send_ready t) \<and> sk_type t = sk_type s) ss (take_dw i ss)"
proof (cases "sk_dw_buffer (ss_slot ss i)")
  case None
  then show ?thesis by (auto simp: at_def take_dw_def send_ready_def loop_ok_def sock_ok_def)
next
  case (Some b)
  then show ?thesis
    by (auto simp: at_def take_dw_def Let_def send_ready_def loop_ok_def sock_ok_def base_ok_def queued_def life_def wb_ok_def)
qed

lemma send_buffer_ok:
  assumes "send_buffer i ss = Some (r, ss')" "sk_type (ss_slot ss i) \<noteq> TYPE_INVALID"
  shows "at i slot_ok_step ss ss'"
proof (cases "sk_locked (ss_slot ss i)")
  case True
  then show ?thesis using assms by (simp add: send_buffer_def)
next
  case False
  note d = take_dw_at [of i ss]
  then have "sk_type (ss_slot (take_dw i ss) i) \<noteq> TYPE_INVALID" using assms(2) by (simp add: at_def)
  then have "at i sends (take_dw i ss) ss'" using send_queues_at assms(1) False by (simp add: send_buffer_def)
  with d show ?thesis by (rule at_step) (use life_trans in \<open>auto simp: sends_def slot_ok_step_def\<close>)
qed

section \<open>Opening\<close>

text \<open>A slot that can be opened or freed: nothing is queued.\<close>

definition unused :: "socket \<Rightarrow> bool" where
  "unused t \<longleftrightarrow> sk_high t = [] \<and> sk_low t = [] \<and> sk_dw_buffer t = None"

definition opened :: "socket \<Rightarrow> bool" where
  "opened t \<longleftrightarrow> unused t \<and> sk_wb_size t = 0 \<and> sk_size t = 64"

lemma opened_base: "opened t \<Longrightarrow> base_ok t"
  by (auto simp: opened_def unused_def base_ok_def queued_def intro: exI [of _ 0])

lemma opened_ok: "opened t \<Longrightarrow> \<not> idle_type (sk_type t) \<Longrightarrow> sock_ok t"
  using opened_base by (simp add: sock_ok_def opened_def unused_def)

lemma invalid_ok: "unused t \<Longrightarrow> sk_type t = TYPE_INVALID \<Longrightarrow> sock_ok t"
  by (simp add: sock_ok_def unused_def)

lemma reserved_life: "sk_type s = TYPE_RESERVE \<Longrightarrow> sk_id t = sk_id s \<Longrightarrow> sk_locked t = sk_locked s \<Longrightarrow> life s t"
  by (simp add: life_def type_defs)

definition opens :: "bool \<Rightarrow> socket \<Rightarrow> socket \<Rightarrow> bool" where
  "opens ok s t \<longleftrightarrow> sk_type s = TYPE_RESERVE \<and> sk_locked t = sk_locked s \<and> sk_id t = sk_id s \<and>
     (if ok then opened t else (sock_ok s \<longrightarrow> unused t) \<and> sk_type t = TYPE_INVALID)"

lemma new_fd_at:
  assumes "new_fd sid fd protocol opaque reading ss = Some (ok, ss')" "sk_id (ss_slot ss (hash_id sid)) = sid"
  shows "at (hash_id sid) (opens ok) ss ss'"
proof -
  let ?i = "hash_id sid"
  let ?s = "ss_slot ss ?i"
  obtain e s1 where p: "poll_op (PollAdd fd) ss = (e, s1)" by fastforce
  have s1: "ss_slot s1 = ss_slot ss" "env s1 = env ss" using poll_op_same [OF p] by (simp_all add: same_def)
  have r: "sk_type ?s = TYPE_RESERVE" using assms(1) by (auto simp: new_fd_def Let_def split: if_splits)
  show ?thesis
  proof (cases e)
    case True
    then show ?thesis
      using assms p r s1 by (auto simp: new_fd_def Let_def at_def opens_def sock_ok_def unused_def)
  next
    case False
    let ?t = "?s\<lparr>sk_id := sid, sk_fd := fd, sk_reading := True, sk_writing := False, sk_closing := False,
            sk_sending := push_bit 16 (id_tag16 sid), sk_protocol := protocol, sk_size := MIN_READ_BUFFER, sk_opaque := opaque,
            sk_wb_size := 0, sk_warn_size := 0, sk_dw_buffer := None, sk_nread := 0, sk_nwrite := 0, sk_rtime := 0, sk_wtime := 0\<rparr>"
    obtain e2 s2 where e2: "enable_read ?i reading (put ?i ?t s1) = (e2, s2)" by fastforce
    have "sk_high ?s = []" "sk_low ?s = []"
      and eq: "(ok, ss') = (if e2 then (False, put ?i ((ss_slot s2 ?i)\<lparr>sk_type := TYPE_INVALID\<rparr>) s2) else (True, s2))"
      using assms p r s1 False e2 by (auto simp: new_fd_def Let_def split: if_splits)
    then show ?thesis
      using enable_read_slot [OF e2] s1 r assms(2)
      by (cases e2) (auto simp: at_def opens_def opened_def unused_def MIN_READ_BUFFER_def)
  qed
qed

definition open_step :: "socket \<Rightarrow> socket \<Rightarrow> bool" where
  "open_step s t \<longleftrightarrow> life s t \<and> (sock_ok s \<longrightarrow> sock_ok t) \<and> sk_type s = TYPE_RESERVE \<and> sk_type t \<noteq> TYPE_RESERVE"

lemma opens_ok:
  assumes "at i (opens ok) a b" "at i (\<lambda>s t. sk_locked t = sk_locked s \<and> sk_id t = sk_id s \<and>
     (if ok \<and> \<not> idle_type (sk_type t) then opened s \<longrightarrow> opened t
      else (unused s \<longrightarrow> unused t) \<and> sk_type t = TYPE_INVALID)) b c"
  shows "at i open_step a c"
proof -
  have "life (ss_slot a i) (ss_slot c i)" using assms reserved_life by (simp add: at_def opens_def)
  moreover have "sock_ok (ss_slot c i)" if "sock_ok (ss_slot a i)"
  proof (cases "ok \<and> \<not> idle_type (sk_type (ss_slot c i))")
    case True
    then show ?thesis using assms opened_ok by (simp add: at_def opens_def)
  next
    case False
    have "unused (ss_slot b i)" using assms(1) that by (auto simp: at_def opens_def opened_def split: if_splits)
    then show ?thesis using False assms(2) invalid_ok by (auto simp: at_def)
  qed
  moreover have "sk_type (ss_slot a i) = TYPE_RESERVE" "sk_type (ss_slot c i) \<noteq> TYPE_RESERVE"
    using assms by (auto simp: at_def opens_def split: if_splits)
  ultimately show ?thesis using assms by (simp add: at_def open_step_def)
qed

lemma opened_simps [simp]:
  "opened (t\<lparr>sk_type := x\<rparr>) = opened t" "opened (t\<lparr>sk_opaque := o'\<rparr>) = opened t" "opened (t\<lparr>sk_writing := b\<rparr>) = opened t"
  "opened (t\<lparr>sk_udp_address := a\<rparr>) = opened t" "opened (t\<lparr>sk_udpconnecting := n\<rparr>) = opened t"
  "unused (t\<lparr>sk_type := x\<rparr>) = unused t"
  "unused (t\<lparr>sk_writing := b\<rparr>) = unused t"
  by (simp_all add: opened_def unused_def)

lemma bind_socket_ok:
  assumes "bind_socket sid fd opaque ss = Some (r, ss')" and res: "sk_id (ss_slot ss (hash_id sid)) = sid"
  shows "at (hash_id sid) open_step ss ss' \<and> r \<noteq> SOCKET_CLOSE"
proof -
  let ?s0 = "set_result sid opaque 0 (sr_data (ss_result ss)) ss"
  from assms obtain ok s1 where n: "new_fd sid fd PROTOCOL_TCP opaque True ?s0 = Some (ok, s1)"
    and eq: "(r, ss') = (if \<not> ok then (SOCKET_ERR, set_data (RText (str ''reach skynet socket number limit'')) s1)
         else (SOCKET_OPEN, set_data (RText (str ''binding'')) (set_type (hash_id sid) TYPE_BIND s1)))"
    by (auto simp: bind_socket_def bind_eq_Some_conv)
  have id0: "sk_id (ss_slot ?s0 (hash_id sid)) = sid" using res by simp
  have "at (hash_id sid) open_step ?s0 ss'"
    by (rule opens_ok [OF new_fd_at [OF n id0]]) (use eq new_fd_at [OF n id0] in \<open>auto simp: at_def opens_def split: if_splits\<close>)
  moreover have "r \<noteq> SOCKET_CLOSE" using eq by (auto simp: result_defs split: if_splits)
  ultimately show ?thesis using at_same_left same_simps(2) by blast
qed

lemma listen_socket_ok:
  assumes "listen_socket sid fd opaque ss = Some (r, ss')" and res: "sk_id (ss_slot ss (hash_id sid)) = sid"
  shows "at (hash_id sid) open_step ss ss' \<and> r \<noteq> SOCKET_CLOSE"
proof -
  let ?i = "hash_id sid"
  from assms obtain ok s1 where n: "new_fd sid fd PROTOCOL_TCP opaque False ss = Some (ok, s1)"
    by (auto simp: listen_socket_def Let_def bind_eq_Some_conv)
  let ?s2 = "set_result sid opaque 0 (RText (str ''listen'')) (set_type ?i TYPE_PLISTEN s1)"
  obtain a s3 where a: "next_io ?s2 = (a, s3)" by fastforce
  have same: "ss_slot s3 = ss_slot ?s2" "env s3 = env s1" using next_io_same [OF a] by (simp_all add: same_def)
  have eq: "if ok then ss_slot ss' = ss_slot s3 \<and> env ss' = env s3
      else ss_slot ss' = ss_slot (set_type ?i TYPE_INVALID s1) \<and> env ss' = env s1" "r \<noteq> SOCKET_CLOSE"
    using assms n a by (auto simp: listen_socket_def Let_def result_defs split: answer.splits if_splits)
  have "at ?i open_step ss ss'"
    by (rule opens_ok [OF new_fd_at [OF n res]]) (use eq same new_fd_at [OF n res] in \<open>auto simp: at_def opens_def split: if_splits\<close>)
  then show ?thesis using eq(2) by simp
qed

lemma add_udp_socket_ok:
  assumes "add_udp_socket sid fd v6 opaque ss = Some ss'" and res: "sk_id (ss_slot ss (hash_id sid)) = sid"
  shows "at (hash_id sid) open_step ss ss'"
proof -
  from assms obtain ok s1 where n: "new_fd sid fd (if v6 then PROTOCOL_UDPv6 else PROTOCOL_UDP) opaque True ss = Some (ok, s1)"
    and eq: "ss' = (if \<not> ok then drop_slot (hash_id sid) fd s1
         else set_address (hash_id sid) (replicate 19 0) (set_type (hash_id sid) TYPE_CONNECTED s1))"
    by (auto simp: add_udp_socket_def Let_def bind_eq_Some_conv)
  show ?thesis
    by (rule opens_ok [OF new_fd_at [OF n res]])
       (use eq new_fd_at [OF n res] in \<open>auto simp: at_def opens_def drop_slot_def set_address_def split: if_splits\<close>)
qed

lemma dial_udp_socket_ok:
  assumes "dial_udp_socket sid fd opaque a ss = Some ss'" and res: "sk_id (ss_slot ss (hash_id sid)) = sid"
  shows "at (hash_id sid) open_step ss ss'"
proof -
  from assms obtain ok s1 where n: "new_fd sid fd (unat (hd (a @ [0]))) opaque True ss = Some (ok, s1)"
    and eq: "ss' = (if \<not> ok then drop_slot (hash_id sid) fd s1
         else udpconnecting_dec (hash_id sid) (set_type (hash_id sid) TYPE_CONNECTED
                (set_address (hash_id sid) (copy_address a (sk_udp_address (ss_slot s1 (hash_id sid)))) s1)))"
    by (auto simp: dial_udp_socket_def Let_def bind_eq_Some_conv)
  show ?thesis
    by (rule opens_ok [OF new_fd_at [OF n res]])
       (use eq new_fd_at [OF n res] in \<open>auto simp: at_def opens_def drop_slot_def set_address_def udpconnecting_dec_def split: if_splits\<close>)
qed

lemma connect_loop_same: "connect_loop n e ss = (r, ss') \<Longrightarrow> same ss ss'"
proof (induction n e ss rule: connect_loop.induct)
  case (2 n e ss)
  obtain a s1 where a: "next_io ss = (a, s1)" by fastforce
  obtain b s2 where b: "next_io s1 = (b, s2)" by fastforce
  have s: "same ss s1" "same s1 s2" using next_io_same a b by blast+
  have "same s1 ss' \<or> same s2 ss'"
    using 2 a b s by (auto split: answer.splits if_splits simp: same_def)
  then show ?case using s same_trans by blast
qed auto

text \<open>Failing after the descriptor: the slot is free again.\<close>

lemma open_failed_slot:
  "open_failed i outs err ss = (r, ss') \<Longrightarrow> ss_slot ss' = ss_slot (set_type i TYPE_INVALID ss) \<and> env ss' = env ss \<and> r = SOCKET_ERR"
  by (auto simp: open_failed_def)

lemma opens_fail_ok:
  assumes "ss_slot ss' = ss_slot (set_type i TYPE_INVALID ss)" "env ss' = env ss" "sk_type (ss_slot ss i) = TYPE_RESERVE"
  shows "at i open_step ss ss'"
proof -
  have "sock_ok (ss_slot ss i) \<Longrightarrow> sock_ok ((ss_slot ss i)\<lparr>sk_type := TYPE_INVALID\<rparr>)"
    using assms(3) by (simp add: sock_ok_def)
  then show ?thesis using assms reserved_life by (auto simp: at_def open_step_def)
qed

lemma open_socket_ok:
  assumes eq: "open_socket sid opaque ss = Some (r, ss')" and res: "sk_type (ss_slot ss (hash_id sid)) = TYPE_RESERVE"
    and home: "sk_id (ss_slot ss (hash_id sid)) = sid"
  shows "at (hash_id sid) open_step ss ss' \<and> r \<noteq> SOCKET_CLOSE"
proof -
  let ?i = "hash_id sid"
  let ?s0 = "set_result sid opaque 0 RNull ss"
  obtain a s1 where a: "next_io ?s0 = (a, s1)" by fastforce
  have s1: "same ss s1" using next_io_same [OF a] same_trans same_simps(2) by blast
  have fail: "at ?i open_step ss ss' \<and> r \<noteq> SOCKET_CLOSE"
    if "open_failed ?i outs err s = (r, ss')" "same ss s" for outs err s
    using open_failed_slot [OF that(1)] opens_fail_ok [of ss' ?i s] res that(2) at_same_left [OF that(2)]
    by (auto simp: same_def result_defs)
  show ?thesis
  proof (cases "\<exists>n. a = Done n")
    case False
    then obtain outs err where "open_failed ?i outs err s1 = (r, ss')"
      using eq a by (cases a) (auto simp: open_socket_def Let_def)
    then show ?thesis using fail s1 by blast
  next
    case True
    then obtain k where k: "a = Done k" by blast
    obtain c s2 where c: "connect_loop k 0 s1 = (c, s2)" by fastforce
    have s2: "same ss s2" using connect_loop_same [OF c] s1 same_trans by blast
    show ?thesis
    proof (cases c)
      case (Inr e)
      then have "open_failed ?i [] (RErrno e) s2 = (r, ss')" using eq a k c by (simp add: open_socket_def Let_def)
      then show ?thesis using fail s2 by blast
    next
      case (Inl x)
      then obtain fd conn where x: "c = Inl (fd, conn)" by (cases x) auto
      have "new_fd sid fd PROTOCOL_TCP opaque True s2 \<noteq> None"
        using eq a k c x by (cases "new_fd sid fd PROTOCOL_TCP opaque True s2") (simp_all add: open_socket_def Let_def)
      then obtain ok s3 where n: "new_fd sid fd PROTOCOL_TCP opaque True s2 = Some (ok, s3)" by auto
      have id2: "sk_id (ss_slot s2 ?i) = sid" using home s2 by (simp add: same_def)
      obtain w s4 where w: "enable_write ?i True s3 = (w, s4)" by fastforce
      obtain m s5 where m: "next_name (set_type ?i TYPE_CONNECTED s3) = (m, s5)" by fastforce
      note rest = eq a k c x n w m
      have "env ss' = env s3 \<and> (\<forall>j. j \<noteq> ?i \<longrightarrow> ss_slot ss' j = ss_slot s3 j) \<and> r \<noteq> SOCKET_CLOSE \<and>
          (if ok \<and> conn then ss_slot ss' ?i = (ss_slot s3 ?i)\<lparr>sk_type := TYPE_CONNECTED\<rparr>
           else if ok \<and> \<not> w then ss_slot ss' ?i = (ss_slot s3 ?i)\<lparr>sk_writing := True, sk_type := TYPE_CONNECTING\<rparr>
           else if ok then ss_slot ss' ?i = (ss_slot s3 ?i)\<lparr>sk_writing := True, sk_type := TYPE_INVALID\<rparr>
           else ss_slot ss' ?i = (ss_slot s3 ?i)\<lparr>sk_type := TYPE_INVALID\<rparr>)"
        using rest enable_write_slot [OF w] next_name_same [OF m]
        by (cases ok; cases conn; cases w; cases m)
           (auto simp: open_socket_def Let_def open_failed_def same_def result_defs)
      then have q: "at ?i (\<lambda>s t. sk_locked t = sk_locked s \<and> sk_id t = sk_id s \<and>
           (if ok \<and> \<not> idle_type (sk_type t) then opened s \<longrightarrow> opened t
            else (unused s \<longrightarrow> unused t) \<and> sk_type t = TYPE_INVALID)) s3 ss'" "r \<noteq> SOCKET_CLOSE"
        using at_slot [OF new_fd_at [OF n id2]] by (auto simp: at_def opens_def split: if_splits)
      have "at ?i open_step s2 ss'" using new_fd_at [OF n id2] q(1) by (rule opens_ok)
      then show ?thesis using at_same_left s2 q(2) by blast
    qed
  qed
qed

section \<open>Closing and the other requests\<close>

text \<open>What a close that is reported (\<open>SOCKET_CLOSE\<close>) says of the slot.\<close>

definition reading :: "socket \<Rightarrow> bool" where
  "reading s \<longleftrightarrow> sk_type s \<noteq> TYPE_INVALID \<and> sk_type s \<noteq> TYPE_HALFCLOSE_READ"

definition close_report :: "nat \<Rightarrow> int \<Rightarrow> socket_server \<Rightarrow> socket_server \<Rightarrow> bool" where
  "close_report i r ss ss' \<longleftrightarrow>
     (r = SOCKET_CLOSE \<longrightarrow> reading (ss_slot ss i) \<and> \<not> reading (ss_slot ss' i) \<and> sr_id (ss_result ss') = sk_id (ss_slot ss i))"

lemma result_simps [simp]:
  "ss_result (emit outs ss) = ss_result ss" "ss_result (put i s ss) = ss_result ss"
  "ss_result (set_result a b c d ss) = \<lparr>sr_id = a, sr_opaque = b, sr_ud = c, sr_data = d\<rparr>"
  by (simp_all add: emit_def put_def set_result_def)

lemma force_close_result:
  "force_close i ss = Some ss' \<Longrightarrow> sr_id (ss_result ss') = sk_id (ss_slot ss i)"
  by (auto simp: force_close_def Let_def split: if_splits)

lemma force_close_report:
  assumes "force_close i ss = Some ss'" "reading (ss_slot ss i)"
  shows "close_report i r ss ss'"
  using assms force_close_result force_close_invalid by (auto simp: close_report_def reading_def)

lemma close_read_slot:
  "sk_type (ss_slot (close_read i ss) i) = TYPE_HALFCLOSE_READ"
  "sr_id (ss_result (close_read i ss)) = sk_id (ss_slot ss i)"
proof -
  obtain e s1 where e: "enable_read i False (set_type i TYPE_HALFCLOSE_READ ss) = (e, s1)" by fastforce
  show "sk_type (ss_slot (close_read i ss) i) = TYPE_HALFCLOSE_READ"
    "sr_id (ss_result (close_read i ss)) = sk_id (ss_slot ss i)"
    using enable_read_slot [OF e] by (simp_all add: close_read_def e Let_def)
qed

lemma close_socket_ok:
  assumes eq: "close_socket sid shut ss = Some (r, ss')"
    and t: "socket_invalid (ss_slot ss (hash_id sid)) sid \<or> sk_type (ss_slot ss (hash_id sid)) \<noteq> TYPE_RESERVE"
  shows "at (hash_id sid) slot_ok_step ss ss' \<and> close_report (hash_id sid) r ss ss'"
proof -
  let ?i = "hash_id sid"
  let ?s = "ss_slot ss ?i"
  let ?c = "put ?i (?s\<lparr>sk_closing := True\<rparr>) ss"
  have c: "at ?i slot_ok_step ss ?c" by (rule put_ok, rule agree_ok) (simp_all add: agree_def)
  consider "socket_invalid ?s sid" "ss' = ss" "r = - 1"
    | "\<not> socket_invalid ?s sid" "force_close ?i ss = Some ss'" "r = (if halfclose_read ?s then - 1 else SOCKET_CLOSE)"
    | "\<not> socket_invalid ?s sid" "\<not> halfclose_read ?s" "r = SOCKET_CLOSE" "ss' = close_read ?i ?c"
    | "ss' = ?c" "r = - 1"
    using eq by (auto simp: close_socket_def Let_def bind_eq_Some_conv split: if_splits)
  then show ?thesis
  proof cases
    case 1
    then show ?thesis by (simp add: close_report_def SOCKET_CLOSE_def)
  next
    case 2
    then show ?thesis using force_close_pres force_close_report [of ?i ss ss' r]
      by (auto simp: reading_def socket_invalid_def halfclose_read_def close_report_def result_defs split: if_splits)
  next
    case 3
    have "at ?i slot_ok_step ?c ss'"
      using 3 t by (auto intro!: close_read_ok simp: socket_invalid_def idle_type_def)
    then show ?thesis
      using 3 at_ok_trans [OF c] close_read_slot [of ?i ?c]
      by (auto simp: close_report_def reading_def socket_invalid_def halfclose_read_def)
  next
    case 4
    then show ?thesis using c by (simp add: close_report_def SOCKET_CLOSE_def)
  qed
qed

lemma resume_socket_ok:
  assumes "resume_socket sid opaque ss = (r, ss')"
  shows "at (hash_id sid) slot_ok_step ss ss' \<and> r \<noteq> SOCKET_CLOSE"
proof -
  let ?i = "hash_id sid"
  let ?s0 = "set_result sid opaque 0 RNull ss"
  obtain e s1 where e: "enable_read ?i True ?s0 = (e, s1)" by fastforce
  have s1: "at ?i slot_ok_step ss s1" using enable_read_ok [OF e] at_same_left same_simps(2) by blast
  let ?s = "ss_slot s1 ?i"
  note eq = assms [unfolded resume_socket_def Let_def e]
  show ?thesis
  proof (cases "socket_invalid (ss_slot ss ?i) sid \<or> halfclose_read (ss_slot ss ?i)")
    case True
    then show ?thesis using eq by (auto simp: at_def result_defs split: if_splits)
  next
    case False
    have start: "slot_ok_step ?s (?s\<lparr>sk_type := (if sk_type ?s = TYPE_PACCEPT then TYPE_CONNECTED else TYPE_LISTEN), sk_opaque := opaque\<rparr>)"
      if "sk_type ?s = TYPE_PACCEPT \<or> sk_type ?s = TYPE_PLISTEN"
      by (rule type_ok) (use that in \<open>auto simp: agree_def\<close>)
    have transfer: "slot_ok_step ?s (?s\<lparr>sk_opaque := opaque\<rparr>)" by (rule agree_ok) (simp_all add: agree_def)
    have "at ?i slot_ok_step s1 ss' \<and> r \<noteq> SOCKET_CLOSE"
      using eq False start transfer by (cases e) (auto simp: at_def result_defs split: if_splits)
    then show ?thesis using s1 at_ok_trans by blast
  qed
qed

lemma pause_socket_ok:
  assumes "pause_socket sid ss = (r, ss')"
  shows "at (hash_id sid) slot_ok_step ss ss' \<and> r \<noteq> SOCKET_CLOSE"
  using assms
  by (auto simp: pause_socket_def Let_def result_defs at_def agree_def intro!: agree_ok
      split: if_splits prod.splits bool.splits dest!: enable_read_slot report_error_slot)

lemma set_udp_address_ok:
  assumes "set_udp_address sid a ss = (r, ss')"
  shows "at (hash_id sid) slot_ok_step ss ss' \<and> r \<noteq> SOCKET_CLOSE"
  using assms
  by (auto simp: set_udp_address_def Let_def result_defs at_def agree_def set_address_def udpconnecting_dec_def
      intro!: agree_ok split: if_splits dest!: report_error_slot)

lemma not_close [simp]:
  "SOCKET_ERR \<noteq> SOCKET_CLOSE" "SOCKET_OPEN \<noteq> SOCKET_CLOSE" "SOCKET_WARNING \<noteq> SOCKET_CLOSE" "SOCKET_DATA \<noteq> SOCKET_CLOSE"
  "SOCKET_MORE \<noteq> SOCKET_CLOSE" "SOCKET_UDP \<noteq> SOCKET_CLOSE" "SOCKET_ACCEPT \<noteq> SOCKET_CLOSE" "- 1 \<noteq> SOCKET_CLOSE"
  "SOCKET_EXIT \<noteq> SOCKET_CLOSE" "SOCKET_RST \<noteq> SOCKET_CLOSE"
  by (simp_all add: result_defs)

lemma warn_size_ret: "warn_size i ss = (r, ss') \<Longrightarrow> r \<noteq> SOCKET_CLOSE"
  by (auto simp: warn_size_def Let_def split: if_splits)

lemma append_first_ret: "append_first i hi b a ss = (r, ss') \<Longrightarrow> r \<noteq> SOCKET_CLOSE"
  by (auto simp: append_first_def report_error_def Let_def split: prod.splits bool.splits dest: warn_size_ret)

lemma send_socket_ret: "send_socket sid b hi a ss = (r, ss') \<Longrightarrow> r \<noteq> SOCKET_CLOSE"
  by (auto simp: send_socket_def Let_def split: if_splits option.splits prod.splits sum.splits
      dest: append_first_ret warn_size_ret)

lemma trigger_write_ret: "trigger_write sid ss = (r, ss') \<Longrightarrow> r \<noteq> SOCKET_CLOSE"
  by (auto simp: trigger_write_def report_error_def Let_def split: if_splits prod.splits bool.splits)

text \<open>
  The requests that the socket thread relies on: one that opens comes for a reserved slot, one that
  closes not before the socket is opened.
\<close>

definition reserved_for :: "socket_server \<Rightarrow> int \<Rightarrow> bool" where
  "reserved_for ss sid \<longleftrightarrow> sk_type (ss_slot ss (hash_id sid)) = TYPE_RESERVE \<and> sk_id (ss_slot ss (hash_id sid)) = sid"

fun timely :: "socket_server \<Rightarrow> request \<Rightarrow> bool" where
  "timely ss (ReqOpen sid port opaque host) = reserved_for ss sid"
| "timely ss (ReqListen sid fd opaque) = reserved_for ss sid"
| "timely ss (ReqBind sid fd opaque) = reserved_for ss sid"
| "timely ss (ReqUdp sid fd v6 opaque) = reserved_for ss sid"
| "timely ss (ReqDial sid fd opaque a) = reserved_for ss sid"
| "timely ss (ReqClose sid shut opaque) =
     (socket_invalid (ss_slot ss (hash_id sid)) sid \<or> sk_type (ss_slot ss (hash_id sid)) \<noteq> TYPE_RESERVE)"
| "timely ss _ = True"

text \<open>The id a request opens.\<close>

fun opener :: "request \<Rightarrow> int option" where
  "opener (ReqOpen sid port opaque host) = Some sid"
| "opener (ReqListen sid fd opaque) = Some sid"
| "opener (ReqBind sid fd opaque) = Some sid"
| "opener (ReqUdp sid fd v6 opaque) = Some sid"
| "opener (ReqDial sid fd opaque a) = Some sid"
| "opener _ = None"

fun request_slot :: "request \<Rightarrow> nat" where
  "request_slot (ReqOpen sid port opaque host) = hash_id sid"
| "request_slot (ReqSend hi sid b) = hash_id sid"
| "request_slot (ReqSendUdp sid b a) = hash_id sid"
| "request_slot (ReqSetUdp sid a) = hash_id sid"
| "request_slot (ReqClose sid shut opaque) = hash_id sid"
| "request_slot (ReqListen sid fd opaque) = hash_id sid"
| "request_slot (ReqBind sid fd opaque) = hash_id sid"
| "request_slot (ReqResume sid opaque) = hash_id sid"
| "request_slot (ReqPause sid opaque) = hash_id sid"
| "request_slot (ReqSetopt sid what v) = hash_id sid"
| "request_slot (ReqUdp sid fd v6 opaque) = hash_id sid"
| "request_slot (ReqDial sid fd opaque a) = hash_id sid"
| "request_slot (ReqWrite sid) = hash_id sid"
| "request_slot ReqExit = 0"

lemma ctrl_cmd_ok:
  assumes "ctrl_cmd q ss = Some (r, ss')" "timely ss q"
  shows "at (request_slot q) (if opener q = None then slot_ok_step else open_step) ss ss' \<and> close_report (request_slot q) r ss ss'"
proof (cases q)
  case (ReqSend hi sid b)
  obtain r1 s1 where s: "send_socket sid b hi None ss = (r1, s1)" by fastforce
  then have "dec_sending_ref sid s1 = Some ss'" "r = r1" using assms ReqSend by (auto simp: bind_eq_Some_conv)
  then show ?thesis
    using send_socket_ok [OF s] send_socket_ret [OF s] dec_sending_ref_ok at_ok_trans ReqSend
    by (fastforce simp: close_report_def)
next
  case (ReqClose sid shut opaque)
  then show ?thesis using close_socket_ok assms by simp
next
  case (ReqOpen sid port opaque host)
  then show ?thesis using open_socket_ok assms by (auto simp: close_report_def reserved_for_def)
next
  case ReqExit
  then show ?thesis using assms by (auto simp: at_def close_report_def)
next
  case (ReqSetopt sid what v)
  then show ?thesis using assms by (auto simp: setopt_socket_def Let_def at_def close_report_def split: if_splits)
qed (use assms in \<open>auto simp: close_report_def bind_eq_Some_conv reserved_for_def
    dest: resume_socket_ok pause_socket_ok set_udp_address_ok bind_socket_ok listen_socket_ok
      add_udp_socket_ok dial_udp_socket_ok trigger_write_at trigger_write_ret send_socket_ok send_socket_ret\<close>)

section \<open>Events\<close>

lemma set_size_base:
  assumes "base_ok s" "\<exists>k. n = 64 * 2 ^ k"
  shows "base_ok (s\<lparr>sk_size := n\<rparr>)"
  using assms by (auto simp: base_ok_def queued_def split: option.splits)

lemma set_size_ok:
  assumes "base_ok (ss_slot ss i) \<Longrightarrow> \<exists>k. n = 64 * 2 ^ k"
  shows "at i slot_ok_step ss (set_size i n ss)"
  using assms set_size_base [of "ss_slot ss i" n]
  by (auto simp: at_def set_size_def slot_ok_step_def sock_ok_def life_def)

lemma base_size: "base_ok s \<Longrightarrow> \<exists>k. sk_size s = 64 * 2 ^ k"
  by (simp add: base_ok_def)

lemma tcp_data_ok:
  assumes "tcp_data i b ss = Some (r, ss')"
  shows "at i slot_ok_step ss ss' \<and> r \<noteq> SOCKET_CLOSE"
proof -
  let ?s = "ss_slot ss i"
  let ?s1 = "set_result (sk_id ?s) (sk_opaque ?s) (int (length b)) (RBytes b) (stat_read i (length b) ss)"
  have s1: "at i slot_ok_step ss ?s1" by (auto simp: at_def agree_def intro!: agree_ok)
  have sz: "sk_size (ss_slot ?s1 i) = sk_size ?s" by simp
  consider "ss' = set_size i (sk_size ?s * 2) ?s1" | "sk_size ?s > 64" "ss' = set_size i (sk_size ?s div 2) ?s1" | "ss' = ?s1"
    using assms by (auto simp: tcp_data_def Let_def MIN_READ_BUFFER_def split: if_splits)
  then have "at i slot_ok_step ?s1 ss'"
  proof cases
    case 1
    have "\<exists>k. sk_size ?s * 2 = 64 * 2 ^ k" if ok: "base_ok (ss_slot ?s1 i)"
    proof -
      obtain k where "sk_size ?s = 64 * 2 ^ k" using base_size [OF ok] unfolding sz by blast
      then show ?thesis by (intro exI [of _ "Suc k"]) simp
    qed
    then show ?thesis using 1 set_size_ok by blast
  next
    case 2
    have "\<exists>k. sk_size ?s div 2 = 64 * 2 ^ k" if ok: "base_ok (ss_slot ?s1 i)"
    proof -
      obtain k where k: "sk_size ?s = 64 * 2 ^ k" using base_size [OF ok] unfolding sz by blast
      then have "k \<noteq> 0" using 2(1) by (cases k) auto
      then show ?thesis using k by (cases k) auto
    qed
    then show ?thesis using 2 set_size_ok by blast
  qed simp
  moreover have "r \<noteq> SOCKET_CLOSE" using assms by (auto simp: tcp_data_def Let_def split: if_splits)
  ultimately show ?thesis using s1 at_ok_trans by blast
qed

lemma remote_closed_ok:
  assumes "remote_closed i ss = Some (r, ss')" "sk_type (ss_slot ss i) \<noteq> TYPE_INVALID"
    "sock_ok (ss_slot ss i) \<longrightarrow> sk_type (ss_slot ss i) \<noteq> TYPE_RESERVE"
  shows "at i slot_ok_step ss ss' \<and> close_report i r ss ss'"
proof -
  let ?s = "ss_slot ss i"
  have "r = - 1 \<and> (ss' = ss \<or> force_close i ss = Some ss') \<or>
      sk_type ?s = TYPE_HALFCLOSE_WRITE \<and> r = SOCKET_CLOSE \<and> force_close i ss = Some ss' \<or>
      sk_type ?s \<noteq> TYPE_HALFCLOSE_READ \<and> r = SOCKET_CLOSE \<and> ss' = close_read i ss"
    using assms(1) unfolding remote_closed_def Let_def by (simp split: if_splits bind_splits)
  then consider "r = - 1" "ss' = ss \<or> force_close i ss = Some ss'"
    | "sk_type ?s = TYPE_HALFCLOSE_WRITE" "r = SOCKET_CLOSE" "force_close i ss = Some ss'"
    | "sk_type ?s \<noteq> TYPE_HALFCLOSE_READ" "r = SOCKET_CLOSE" "ss' = close_read i ss" by blast
  then show ?thesis
  proof cases
    case 1
    then show ?thesis using force_close_pres by (auto simp: close_report_def)
  next
    case 2
    then have "reading ?s" by (simp add: reading_def)
    then show ?thesis using 2 force_close_pres force_close_report by blast
  next
    case 3
    have "at i slot_ok_step ss ss'" using 3 assms by (auto intro!: close_read_ok simp: idle_type_def)
    then show ?thesis using 3 assms(2) close_read_slot [of i ss] by (auto simp: close_report_def reading_def)
  qed
qed

lemma next_io_at: "next_io ss = (a, s1) \<Longrightarrow> ss_slot s1 = ss_slot ss \<and> env s1 = env ss"
  using next_io_same by (simp add: same_def)

lemma close_report_same: "ss_slot b = ss_slot a \<Longrightarrow> close_report i r b c = close_report i r a c"
  by (simp add: close_report_def)

lemma forward_message_tcp_ok:
  assumes eq: "forward_message_tcp i ss = Some (r, ss')" and t: "sk_type (ss_slot ss i) \<noteq> TYPE_INVALID" "sk_protocol (ss_slot ss i) = PROTOCOL_TCP"
  shows "at i slot_ok_step ss ss' \<and> close_report i r ss ss'"
proof -
  obtain a s1 where a: "next_io ss = (a, s1)" by fastforce
  note s1 = next_io_at [OF a]
  have same: "same ss s1" using s1 by (simp add: same_def)
  have res: "sock_ok (ss_slot s1 i) \<longrightarrow> sk_type (ss_slot s1 i) \<noteq> TYPE_RESERVE"
    using t s1 by (auto simp: sock_ok_def protocol_defs)
  have "(r = - 1 \<and> ss' = s1) \<or> remote_closed i s1 = Some (r, ss') \<or> (\<exists>b. tcp_data i b s1 = Some (r, ss')) \<or>
      (\<exists>e. report_error i e s1 = (r, ss'))"
    using eq a by (cases a) (auto simp: forward_message_tcp_def Let_def split: if_splits)
  then have "at i slot_ok_step s1 ss' \<and> close_report i r s1 ss'"
    using remote_closed_ok [of i s1 r ss'] t s1 res tcp_data_ok
    by (fastforce simp: close_report_def at_def dest: report_error_slot)
  then show ?thesis using same at_same_left close_report_same s1 by blast
qed

lemma forward_message_udp_ok:
  assumes eq: "forward_message_udp i ss = Some (r, ss')"
  shows "at i slot_ok_step ss ss' \<and> r \<noteq> SOCKET_CLOSE"
proof -
  obtain a s1 where a: "next_io ss = (a, s1)" by fastforce
  note s1 = next_io_at [OF a]
  have same: "same ss s1" using s1 by (simp add: same_def)
  have "r \<noteq> SOCKET_CLOSE \<and> (ss_slot ss' = ss_slot s1 \<and> env ss' = env s1 \<or>
      (\<exists>n. ss_slot ss' = ss_slot (stat_read i n s1) \<and> env ss' = env s1) \<or>
      (\<exists>s2. force_close i s1 = Some s2 \<and> ss_slot ss' = ss_slot s2 \<and> env ss' = env s2))"
    using eq a by (cases a) (auto simp: forward_message_udp_def Let_def bind_eq_Some_conv split: if_splits)
  moreover have "at i slot_ok_step s1 (stat_read i n s1)" for n by (auto simp: at_def agree_def intro!: agree_ok)
  ultimately have "at i slot_ok_step s1 ss' \<and> r \<noteq> SOCKET_CLOSE"
    using force_close_pres [of i s1] by (auto simp: at_def)
  then show ?thesis using same at_same_left by blast
qed

lemma connect_failed_ok:
  assumes "connect_failed i err ss = Some (r, ss')"
  shows "at i slot_ok_step ss ss' \<and> r = SOCKET_ERR"
proof -
  from assms obtain s1 where "force_close i ss = Some s1" "ss' = set_data err s1" "r = SOCKET_ERR"
    by (auto simp: connect_failed_def bind_eq_Some_conv)
  then show ?thesis using force_close_pres [of i ss s1] by (simp add: at_def)
qed

lemma connect_name_ok: "connect_name ss = (r, ss') \<Longrightarrow> ss_slot ss' = ss_slot ss \<and> env ss' = env ss \<and> r = SOCKET_OPEN"
  by (auto simp: connect_name_def same_def split: prod.splits option.splits dest!: next_name_same)

lemma report_connect_ok:
  assumes eq: "report_connect i ss = Some (r, ss')" and t: "sk_type (ss_slot ss i) = TYPE_CONNECTING"
  shows "at i slot_ok_step ss ss' \<and> r \<noteq> SOCKET_CLOSE"
proof -
  obtain a s1 where a: "next_io ss = (a, s1)" by fastforce
  note s1 = next_io_at [OF a]
  have same: "same ss s1" using s1 by (simp add: same_def)
  let ?s2 = "set_type i TYPE_CONNECTED s1"
  let ?s = "ss_slot ?s2 i"
  let ?s3 = "set_result (sk_id ?s) (sk_opaque ?s) 0 (sr_data (ss_result ?s2)) ?s2"
  obtain w s4 where w: "enable_write i False ?s3 = (w, s4)" by fastforce
  have s3: "at i slot_ok_step s1 ?s3"
    using t s1 by (auto simp: at_def agree_def type_defs idle_type_def intro!: type_ok)
  have s4: "at i slot_ok_step s1 s4" using at_ok_trans [OF s3 enable_write_ok [OF w]] .
  have fail: "at i slot_ok_step s1 ss' \<and> r \<noteq> SOCKET_CLOSE" if "connect_failed i x s = Some (r, ss')" "at i slot_ok_step s1 s" for x s
    using connect_failed_ok [OF that(1)] at_ok_trans [OF that(2)] by simp
  have name: "at i slot_ok_step s1 ss' \<and> r \<noteq> SOCKET_CLOSE" if "connect_name s = (r, ss')" "at i slot_ok_step s1 s" for s
    using connect_name_ok [OF that(1)] that(2) by (simp add: at_def)
  have "at i slot_ok_step s1 ss' \<and> r \<noteq> SOCKET_CLOSE"
  proof (cases "\<exists>e. a = Fail e")
    case True
    then obtain e where "connect_failed i (RErrno e) s1 = Some (r, ss')" using eq a by (auto simp: report_connect_def)
    then show ?thesis using fail at_ok_refl by blast
  next
    case False
    then have "(if nomore_sending_data ?s then
        (if w then connect_failed i (RText (str ''disable write failed'')) s4 else Some (connect_name s4))
        else Some (connect_name ?s3)) = Some (r, ss')"
      using eq a w by (cases a; cases w) (simp_all add: report_connect_def Let_def del: slot_simps split: if_splits)
    then show ?thesis using fail name s3 s4 by (simp split: if_splits)
  qed
  then show ?thesis using same at_same_left by blast
qed

section \<open>Reserving\<close>

definition reserved_slot :: "int \<Rightarrow> socket \<Rightarrow> socket" where
  "reserved_slot sid s = s\<lparr>sk_type := TYPE_RESERVE, sk_id := sid, sk_protocol := PROTOCOL_UNKNOWN, sk_udpconnecting := 0, sk_fd := - 1\<rparr>"

lemma and_positive: "0 \<le> sint ((raw :: u32) AND 0x7fffffff)"
proof -
  have m: "(0x7fffffff :: u32) = mask 31" by (simp add: mask_eq_exp_minus_1)
  have "\<not> bit (raw AND mask 31) 31" by (simp add: bit_and_iff bit_mask_iff)
  then have "\<not> sint (raw AND mask 31) < 0" using bit_last_iff [of "raw AND mask 31"] by simp
  then show ?thesis unfolding m by simp
qed

lemma reserve_loop_slot:
  "reserve_loop n ss = (sid, ss') \<Longrightarrow>
     (sid = - 1 \<and> ss_slot ss' = ss_slot ss \<or>
      0 \<le> sid \<and> sk_type (ss_slot ss (hash_id sid)) = TYPE_INVALID \<and>
      ss_slot ss' = (ss_slot ss)(hash_id sid := reserved_slot sid (ss_slot ss (hash_id sid)))) \<and>
     ss_pipe ss' = ss_pipe ss \<and> ss_events ss' = ss_events ss \<and> ss_wait ss' = ss_wait ss \<and> ss_checkctrl ss' = ss_checkctrl ss"
proof (induction n arbitrary: ss)
  case 0
  then show ?case by auto
next
  case (Suc n)
  let ?raw = "ss_alloc_id ss + 1"
  let ?alloc = "if sint ?raw < 0 then ?raw AND 0x7fffffff else ?raw"
  let ?ss = "ss\<lparr>ss_alloc_id := ?alloc\<rparr>"
  have pos: "0 \<le> sint ?alloc" using and_positive by simp
  show ?case
  proof (cases "sk_type (ss_slot ss (hash_id (sint ?alloc))) = TYPE_INVALID")
    case True
    then show ?thesis using Suc.prems pos by (auto simp: Let_def reserved_slot_def put_def)
  next
    case False
    then have "reserve_loop n ?ss = (sid, ss')" using Suc.prems by (simp add: Let_def)
    then show ?thesis using Suc.IH [of ?ss] by simp
  qed
qed

lemma reserve_id_slot:
  assumes "reserve_id ss = (sid, ss')" "0 \<le> sid"
  shows "sk_type (ss_slot ss (hash_id sid)) = TYPE_INVALID"
    "ss_slot ss' = (ss_slot ss)(hash_id sid := reserved_slot sid (ss_slot ss (hash_id sid)))"
  using reserve_loop_slot [of MAX_SOCKET ss sid ss'] assms by (auto simp: reserve_id_def)

lemma reserve_id_fail: "reserve_id ss = (sid, ss') \<Longrightarrow> sid < 0 \<Longrightarrow> ss_slot ss' = ss_slot ss"
  using reserve_loop_slot [of MAX_SOCKET ss sid ss'] by (auto simp: reserve_id_def)

lemma reserve_id_env:
  "reserve_id ss = (sid, ss') \<Longrightarrow>
     ss_pipe ss' = ss_pipe ss \<and> ss_events ss' = ss_events ss \<and> ss_wait ss' = ss_wait ss \<and> ss_checkctrl ss' = ss_checkctrl ss"
  using reserve_loop_slot [of MAX_SOCKET ss sid ss'] by (auto simp: reserve_id_def)

section \<open>Rounds of the loop\<close>

text \<open>A slot moves: a free one may have been reserved.\<close>

definition home :: "nat \<Rightarrow> socket \<Rightarrow> bool" where
  "home j s \<longleftrightarrow> sk_type s \<noteq> TYPE_INVALID \<longrightarrow> hash_id (sk_id s) = j"

definition slot_change :: "nat \<Rightarrow> socket \<Rightarrow> socket \<Rightarrow> bool" where
  "slot_change j s t \<longleftrightarrow> (sk_type s = TYPE_INVALID \<or> life s t) \<and> (sock_ok s \<longrightarrow> sock_ok t) \<and> (home j s \<longrightarrow> home j t) \<and>
     sk_locked t = sk_locked s \<and> (sk_type t = TYPE_RESERVE \<longrightarrow> sk_type s = TYPE_RESERVE)"

text \<open>Only the request that opens a socket ends a reservation.\<close>

definition slot_move :: "nat \<Rightarrow> socket \<Rightarrow> socket \<Rightarrow> bool" where
  "slot_move j s t \<longleftrightarrow> slot_change j s t \<and> (sock_ok s \<longrightarrow> sk_type s = TYPE_RESERVE \<longrightarrow> sk_type t = TYPE_RESERVE)"

definition frame :: "socket_server \<Rightarrow> request list \<times> event list \<times> event list list \<times> bool" where
  "frame ss = (ss_pipe ss, ss_events ss, ss_wait ss, ss_checkctrl ss)"

definition moves :: "socket_server \<Rightarrow> socket_server \<Rightarrow> bool" where
  "moves ss ss' \<longleftrightarrow> frame ss' = frame ss \<and> (\<forall>j. slot_move j (ss_slot ss j) (ss_slot ss' j))"

lemma env_frame: "env a = env b \<Longrightarrow> frame a = frame b"
  by (simp add: env_def frame_def)

lemma step_move: "slot_ok_step s t \<Longrightarrow> slot_move j s t"
  unfolding slot_ok_step_def slot_move_def slot_change_def life_def home_def by metis

lemma open_change: "open_step s t \<Longrightarrow> slot_change j s t"
  unfolding open_step_def slot_change_def life_def home_def by metis

lemma move_refl [simp]: "slot_move j s s"
  by (simp add: slot_move_def slot_change_def)

lemma at_moves: "at i slot_ok_step ss ss' \<Longrightarrow> moves ss ss'"
  unfolding at_def moves_def using step_move env_frame by (metis move_refl)

lemma same_moves: "same a b \<Longrightarrow> moves b c \<Longrightarrow> moves a c"
  unfolding moves_def same_def using env_frame by metis

lemma reserved_ok: "sk_type s = TYPE_INVALID \<Longrightarrow> sock_ok s \<Longrightarrow> sock_ok (reserved_slot sid s)"
  by (simp add: sock_ok_def reserved_slot_def)

lemma refuse_accept_same: "refuse_accept i e ss = (r, ss') \<Longrightarrow> same ss ss'"
  by (auto simp: refuse_accept_def Let_def same_def split: if_splits prod.splits answer.splits dest!: next_io_at)

text \<open>From a free slot through the reserved one to an opened one.\<close>

lemma free_opened_move:
  assumes "sk_type s = TYPE_INVALID" "open_step (reserved_slot sid s) t"
  shows "slot_move (hash_id sid) s t"
  using assms reserved_ok [of s sid]
  by (auto simp: slot_move_def slot_change_def open_step_def life_def reserved_slot_def home_def)

lemma report_accept_ok:
  assumes eq: "report_accept i ss = Some (r, ss')" and t: "sk_type (ss_slot ss i) = TYPE_LISTEN"
  shows "moves ss ss'"
proof -
  obtain a s1 where a: "next_io ss = (a, s1)" by fastforce
  have same: "same ss s1" using next_io_same [OF a] .
  obtain sid s2 where rs: "reserve_id s1 = (sid, s2)" by fastforce
  show ?thesis
  proof (cases "(\<exists>fd. a = Done fd) \<and> 0 \<le> sid")
    case False
    have "moves s1 ss'"
    proof (cases "\<exists>fd. a = Done fd")
      case True
      then obtain fd where "ss' = emit [CloseFd (int fd)] s2" using False eq a rs by (auto simp: report_accept_def)
      moreover have "ss_slot s2 = ss_slot s1" "frame s2 = frame s1"
        using True \<open>\<not> ((\<exists>fd. a = Done fd) \<and> 0 \<le> sid)\<close> reserve_id_fail [OF rs] reserve_id_env [OF rs] by (auto simp: frame_def)
      ultimately show ?thesis using env_frame [of "emit [CloseFd (int fd)] s2" s2] by (simp add: moves_def)
    next
      case False
      then obtain e where "ss' = s1 \<or> refuse_accept i e s1 = (r, ss')"
        using eq a by (cases a) (auto simp: report_accept_def split: if_splits)
      then have "same s1 ss'" using refuse_accept_same [of i e s1 r ss'] by auto
      then show ?thesis using same_ok at_moves by blast
    qed
    then show ?thesis using same same_moves by blast
  next
    case True
    then obtain fd where fd: "a = Done fd" and pos: "0 \<le> sid" by blast
    let ?k = "hash_id sid"
    note r = reserve_id_slot [OF rs pos]
    have "new_fd sid (int fd) PROTOCOL_TCP (sk_opaque (ss_slot s2 i)) False s2 \<noteq> None"
      using eq a rs fd pos
      by (cases "new_fd sid (int fd) PROTOCOL_TCP (sk_opaque (ss_slot s2 i)) False s2") (simp_all add: report_accept_def)
    then obtain ok s3 where n: "new_fd sid (int fd) PROTOCOL_TCP (sk_opaque (ss_slot s2 i)) False s2 = Some (ok, s3)" by auto
    have res: "sk_id (ss_slot s2 ?k) = sid" using r(2) by (simp add: reserved_slot_def)
    have ne: "?k \<noteq> i" using r(1) t same by (auto simp: same_def)
    let ?s4 = "stat_read i 1 s3" and ?s5 = "set_type ?k TYPE_PACCEPT (stat_read i 1 s3)"
    obtain m s6 where m: "next_name ?s5 = (m, s6)" by fastforce
    have m6: "ss_slot s6 = ss_slot ?s5" "env s6 = env ?s5" using next_name_same [OF m] by (simp_all add: same_def)
    have out: "env ss' = env s3 \<and> ss_slot ss' = (if ok then ss_slot ?s5 else ss_slot s3)"
      using eq a rs fd pos n m m6 by (cases ok; cases m) (auto simp: report_accept_def Let_def del: slot_simps)
    have "at ?k open_step s2 (if ok then set_type ?k TYPE_PACCEPT s3 else s3)"
      by (rule opens_ok [OF new_fd_at [OF n res]])
         (use new_fd_at [OF n res] in \<open>auto simp: at_def opens_def split: if_splits\<close>)
    then have k: "open_step (ss_slot s2 ?k) (ss_slot ss' ?k)" and o: "env ss' = env s2"
        "\<And>j. j \<noteq> ?k \<Longrightarrow> j \<noteq> i \<Longrightarrow> ss_slot ss' j = ss_slot s2 j"
      using out ne by (auto simp: at_def split: if_splits)
    have i: "slot_ok_step (ss_slot s2 i) (ss_slot ss' i)"
      using out ne at_other [OF new_fd_at [OF n res], of i] by (auto simp: agree_def intro!: agree_ok)
    have "slot_move j (ss_slot s1 j) (ss_slot ss' j)" for j
      using free_opened_move [OF r(1)] k i o(2) [of j] r(2) ne step_move by (cases "j = ?k"; cases "j = i") simp_all
    moreover have "frame ss' = frame s1" using env_frame [OF o(1)] reserve_id_env [OF rs] by (simp add: frame_def)
    ultimately have "moves s1 ss'" by (simp add: moves_def)
    then show ?thesis using same same_moves by blast
  qed
qed

lemma moves_refl [simp]: "moves ss ss"
  by (simp add: moves_def)

text \<open>Nothing but a close takes a slot from reading to not reading and reports it.\<close>

definition close_said :: "poll \<Rightarrow> socket_server \<Rightarrow> socket_server \<Rightarrow> bool" where
  "close_said p ss ss' \<longleftrightarrow>
     (p = Report SOCKET_CLOSE \<longrightarrow>
        (\<exists>i. reading (ss_slot ss i) \<and> \<not> reading (ss_slot ss' i) \<and> sr_id (ss_result ss') = sk_id (ss_slot ss i)))"

lemma close_report_said: "close_report i r ss ss' \<Longrightarrow> close_said (Report r) ss ss'"
  by (auto simp: close_report_def close_said_def)

lemma poll_of_said: "close_report i r ss ss' \<Longrightarrow> close_said (poll_of r) ss ss'"
  by (auto simp: close_report_def close_said_def poll_of_def)

text \<open>What is left of the events: the ones that wait, before them perhaps the present one again.\<close>

definition requeued :: "event \<Rightarrow> poll \<Rightarrow> event list \<Rightarrow> event list \<Rightarrow> bool" where
  "requeued e p es es' \<longleftrightarrow> es' = es \<or> es' = e\<lparr>ev_read := False\<rparr> # es \<and> ev_read e \<or> es' = e # es \<and> p \<noteq> Again"

definition event_step :: "event \<Rightarrow> poll \<Rightarrow> socket_server \<Rightarrow> socket_server \<Rightarrow> bool" where
  "event_step e p ss ss' \<longleftrightarrow>
     (\<forall>j. slot_move j (ss_slot ss j) (ss_slot ss' j)) \<and>
     ss_pipe ss' = ss_pipe ss \<and> ss_wait ss' = ss_wait ss \<and> ss_checkctrl ss' = ss_checkctrl ss \<and>
     requeued e p (ss_events ss) (ss_events ss') \<and> close_said p ss ss'"

lemma moves_event: "moves ss ss' \<Longrightarrow> close_said p ss ss' \<Longrightarrow> event_step e p ss ss'"
  by (simp add: moves_def event_step_def requeued_def frame_def)

lemma at_event: "at i slot_ok_step ss ss' \<Longrightarrow> close_said p ss ss' \<Longrightarrow> event_step e p ss ss'"
  using moves_event at_moves by blast

lemma read_event_ok:
  assumes eq: "read_event e i ss = Some (p, ss')" and t: "sk_type (ss_slot ss i) \<noteq> TYPE_INVALID" and rd: "ev_read e"
  shows "event_step e p ss ss'"
proof -
  obtain r s1 where f: "(if sk_protocol (ss_slot ss i) = PROTOCOL_TCP then forward_message_tcp i ss else forward_message_udp i ss) = Some (r, s1)"
    and rest: "(if r = SOCKET_MORE then (Report SOCKET_DATA, again_event e s1)
       else if r = SOCKET_UDP then (Report SOCKET_UDP, again_event e s1)
       else (poll_of r,
         if ev_write e \<and> r \<noteq> SOCKET_CLOSE \<and> r \<noteq> SOCKET_ERR then again_event (e\<lparr>ev_read := False\<rparr>) s1 else s1)) = (p, ss')"
    using eq unfolding read_event_def by (auto simp: bind_eq_Some_conv split: if_splits)
  have ok: "at i slot_ok_step ss s1 \<and> close_report i r ss s1"
    using f t forward_message_tcp_ok forward_message_udp_ok by (auto simp: close_report_def split: if_splits)
  note mv = at_moves [OF conjunct1 [OF ok]]
  consider "p \<noteq> Report SOCKET_CLOSE" "p \<noteq> Again" "ss' = again_event e s1"
    | "p = poll_of r" "r \<noteq> SOCKET_CLOSE" "ss' = again_event (e\<lparr>ev_read := False\<rparr>) s1" | "p = poll_of r" "ss' = s1"
    using rest by (auto split: if_splits)
  then show ?thesis
  proof cases
    case 1
    then show ?thesis using mv by (simp add: event_step_def moves_def frame_def requeued_def close_said_def again_event_def)
  next
    case 2
    then show ?thesis using mv rd
      by (simp add: event_step_def moves_def frame_def requeued_def close_said_def again_event_def poll_of_def)
  next
    case 3
    then show ?thesis using mv ok poll_of_said moves_event by blast
  qed
qed

lemma tcp_loop_ret: "tcp_loop wbs i hi ss = Some (r, ss') \<Longrightarrow> r \<noteq> SOCKET_CLOSE"
proof (induction wbs i hi ss rule: tcp_loop.induct)
  case (2 wb wbs i hi ss)
  obtain w io where w: "write_retry (ss_io ss) (wb_sz wb) = (w, io)" by fastforce
  have cw: "close_write i e s = Some (r, ss') \<Longrightarrow> r \<noteq> SOCKET_CLOSE" for e s
    by (auto simp: close_write_def Let_def bind_eq_Some_conv report_error_def split: if_splits)
  show ?case using 2 w cw by (cases w) (auto simp: Let_def split: if_splits)
qed auto

lemma send_list_ret:
  assumes "send_list i hi ss = Some (r, ss')"
  shows "r \<noteq> SOCKET_CLOSE"
proof (cases "sk_protocol (ss_slot ss i) = PROTOCOL_TCP")
  case True
  then show ?thesis using assms tcp_loop_ret by (auto simp: send_list_def send_list_tcp_def)
next
  case False
  then have "r = - 1" using assms udp_loop_at [OF _ refl] by (simp add: send_list_def send_list_udp_def)
  then show ?thesis by simp
qed

lemma send_finish_ret: "send_finish i ss = Some (r, ss') \<Longrightarrow> r \<noteq> SOCKET_CLOSE"
  by (auto simp: send_finish_def bind_eq_Some_conv Let_def report_error_def split: if_splits prod.splits bool.splits)

lemma send_low_ret: "send_low i ss = Some (r, ss') \<Longrightarrow> r \<noteq> SOCKET_CLOSE"
  by (auto simp: send_low_def bind_eq_Some_conv split: if_splits dest: send_finish_ret)

lemma send_buffer_ret:
  assumes "send_buffer i ss = Some (r, ss')"
  shows "r \<noteq> SOCKET_CLOSE"
  using assms
  by (cases "send_list i True (take_dw i ss)")
     (auto simp: send_buffer_def send_queues_def split: if_splits dest: send_finish_ret send_low_ret)

lemma dispatch_event_ok:
  assumes eq: "dispatch_event e i ss = Some (p, ss')"
  shows "event_step e p ss ss'"
proof -
  let ?t = "sk_type (ss_slot ss i)"
  have mono: "close_said p ss ss'" if "p \<noteq> Report SOCKET_CLOSE" using that by (simp add: close_said_def)
  note d = eq [unfolded dispatch_event_def Let_def]
  consider "?t = TYPE_CONNECTING" | "?t = TYPE_LISTEN" | "?t = TYPE_INVALID"
    | "?t \<noteq> TYPE_CONNECTING" "?t \<noteq> TYPE_LISTEN" "?t \<noteq> TYPE_INVALID" by blast
  then show ?thesis
  proof cases
    case 1
    then obtain r where "report_connect i ss = Some (r, ss')" "p = Report r" using d by (auto simp: bind_eq_Some_conv)
    then show ?thesis using report_connect_ok [OF _ 1] mono at_event by auto
  next
    case 2
    then have "?t \<noteq> TYPE_CONNECTING" by (simp add: type_defs)
    then obtain r where "report_accept i ss = Some (r, ss')" "p \<noteq> Report SOCKET_CLOSE"
      using d 2 by (auto simp: bind_eq_Some_conv split: if_splits)
    then show ?thesis using report_accept_ok [OF _ 2] mono moves_event by auto
  next
    case 3
    then have "p = Again" "ss' = emit [LogError] ss" using d by (auto simp: type_defs)
    then show ?thesis using mono at_event same_ok by auto
  next
    case 4
    have "(if ev_read e then read_event e i ss
        else if ev_write e then do { (r, ss) \<leftarrow> send_buffer i ss; Some (poll_of r, ss) }
        else if ev_error e then Some (error_event i ss) else if ev_eof e then eof_event i ss else Some (Again, ss)) = Some (p, ss')"
      using d 4 by simp
    then have "ev_read e \<and> read_event e i ss = Some (p, ss') \<or> (\<exists>r. send_buffer i ss = Some (r, ss') \<and> p = poll_of r) \<or>
        error_event i ss = (p, ss') \<or> eof_event i ss = Some (p, ss') \<or> p = Again \<and> ss' = ss"
      by (cases "send_buffer i ss") (simp_all split: if_splits prod.splits)
    then consider "ev_read e" "read_event e i ss = Some (p, ss')"
      | r where "send_buffer i ss = Some (r, ss')" "p = poll_of r"
      | "error_event i ss = (p, ss')" | "eof_event i ss = Some (p, ss')" | "p = Again" "ss' = ss" by blast
    then show ?thesis
    proof cases
      case 1
      then show ?thesis using read_event_ok 4 by blast
    next
      case 2
      then show ?thesis using send_buffer_ok [OF 2(1) 4(3)] send_buffer_ret [OF 2(1)] mono at_event by (auto simp: poll_of_def)
    next
      case 3
      then have "p = Report SOCKET_ERR" "same ss ss'"
        by (auto simp: error_event_def report_error_def Let_def same_def split: prod.splits answer.splits dest!: next_io_at)
      then show ?thesis using mono at_event same_ok by auto
    next
      case c: 4
      then have f: "force_close i ss = Some ss'" "p = (if halfclose_read (ss_slot ss i) then Again else Report SOCKET_CLOSE)"
        by (auto simp: eof_event_def Let_def bind_eq_Some_conv)
      have "close_said p ss ss'"
      proof (cases "halfclose_read (ss_slot ss i)")
        case True
        then show ?thesis using f(2) mono by simp
      next
        case False
        then have r: "reading (ss_slot ss i)" using 4(3) by (simp add: reading_def halfclose_read_def)
        then show ?thesis using close_report_said [OF force_close_report [OF f(1) r]] f(2) False by simp
      qed
      then show ?thesis using force_close_pres [OF f(1)] at_event by blast
    next
      case 5
      then show ?thesis using mono moves_event moves_refl by auto
    qed
  qed
qed

text \<open>The close requests and the openings of the pipe come at their time.\<close>

definition pipe_timely :: "socket_server \<Rightarrow> bool" where
  "pipe_timely ss \<longleftrightarrow> (ss_checkctrl ss \<longrightarrow> (case ss_pipe ss of [] \<Rightarrow> True | r # _ \<Rightarrow> timely ss r))"

lemma clear_closed_slot [simp]:
  "ss_slot (clear_closed_event t ss) = ss_slot ss" "ss_result (clear_closed_event t ss) = ss_result ss"
  "ss_pipe (clear_closed_event t ss) = ss_pipe ss" "ss_wait (clear_closed_event t ss) = ss_wait ss"
  "ss_checkctrl (clear_closed_event t ss) = ss_checkctrl ss"
  by (simp_all add: clear_closed_event_def)

lemma poll_events_ok:
  assumes "poll_events ss = Some (p, ss')"
  shows "(\<forall>j. slot_move j (ss_slot ss j) (ss_slot ss' j)) \<and> close_said p ss ss'"
proof (cases "ss_events ss")
  case Nil
  then show ?thesis using assms by (auto simp: poll_events_def close_said_def split: list.splits)
next
  case (Cons e es)
  let ?s0 = "ss\<lparr>ss_events := es\<rparr>"
  have "event_step e p ?s0 ss'"
    using assms Cons dispatch_event_ok [of e _ ?s0 p ss']
    by (auto simp: poll_events_def Let_def close_said_def event_step_def requeued_def split: option.splits)
  then show ?thesis by (simp add: event_step_def close_said_def)
qed

text \<open>The id that the request at the head of the pipe opens.\<close>

definition head_opens :: "socket_server \<Rightarrow> int option" where
  "head_opens ss = (if ss_checkctrl ss then (case ss_pipe ss of [] \<Rightarrow> None | r # _ \<Rightarrow> opener r) else None)"

definition round_change :: "int option \<Rightarrow> nat \<Rightarrow> socket \<Rightarrow> socket \<Rightarrow> bool" where
  "round_change x j s t \<longleftrightarrow>
     (if map_option hash_id x = Some j then slot_change j s t \<and> sk_type s = TYPE_RESERVE \<and> sk_type t \<noteq> TYPE_RESERVE
      else slot_move j s t)"

lemma opener_slot: "opener q = Some sid \<Longrightarrow> request_slot q = hash_id sid"
  by (cases q) auto

lemma poll_step_ok:
  assumes eq: "poll_step ss = Some (p, ss')" and t: "pipe_timely ss"
  shows "(\<forall>j. round_change (head_opens ss) j (ss_slot ss j) (ss_slot ss' j)) \<and> close_said p ss ss'"
proof (cases "ss_checkctrl ss \<and> ss_pipe ss \<noteq> []")
  case True
  then obtain q qs where q: "ss_pipe ss = q # qs" by (cases "ss_pipe ss") auto
  let ?s0 = "ss\<lparr>ss_pipe := qs\<rparr>"
  obtain r s1 where c: "ctrl_cmd q ?s0 = Some (r, s1)"
    and out: "(p, ss') = (if r \<noteq> - 1 then (Report r, clear_closed_event r s1) else (Again, s1))"
    using eq True q by (cases "ctrl_cmd q ?s0") (auto simp: poll_step_def split: if_splits)
  have tq: "timely ?s0 q" using t True q by (cases q) (auto simp: pipe_timely_def reserved_for_def)
  note ok = ctrl_cmd_ok [OF c tq]
  have h: "head_opens ss = opener q" using True q by (simp add: head_opens_def)
  have "\<forall>j. round_change (head_opens ss) j (ss_slot ss j) (ss_slot s1 j)"
  proof (cases "opener q")
    case None
    then show ?thesis using at_moves [of "request_slot q" ?s0 s1] ok h by (simp add: moves_def round_change_def)
  next
    case (Some sid)
    then have "at (hash_id sid) open_step ?s0 s1" using ok opener_slot by simp
    then show ?thesis using h Some open_change by (auto simp: at_def round_change_def open_step_def)
  qed
  moreover have "close_said (Report r) ss s1" using close_report_said [OF conjunct2 [OF ok]] by (simp add: close_said_def)
  ultimately show ?thesis using out by (auto simp: close_said_def split: if_splits)
next
  case False
  then have "poll_events (if ss_checkctrl ss then ss\<lparr>ss_checkctrl := False\<rparr> else ss) = Some (p, ss')"
    using eq by (auto simp: poll_step_def split: list.splits)
  then show ?thesis using False poll_events_ok [of "if ss_checkctrl ss then ss\<lparr>ss_checkctrl := False\<rparr> else ss" p ss']
    by (auto simp: close_said_def round_change_def head_opens_def split: if_splits list.splits)
qed

lemma poll_events_pipe: "poll_events ss = Some (p, ss') \<Longrightarrow> ss_pipe ss' = ss_pipe ss"
  using dispatch_event_ok [of _ _ "ss\<lparr>ss_events := _\<rparr>" p ss']
  by (fastforce simp: poll_events_def event_step_def Let_def split: list.splits option.splits)

text \<open>A round takes at most the first request.\<close>

lemma poll_step_pipe:
  assumes eq: "poll_step ss = Some (p, ss')" and t: "pipe_timely ss"
  shows "ss_pipe ss' = (if ss_checkctrl ss then tl (ss_pipe ss) else ss_pipe ss)"
proof (cases "ss_checkctrl ss \<and> ss_pipe ss \<noteq> []")
  case True
  then obtain q qs where q: "ss_pipe ss = q # qs" by (cases "ss_pipe ss") auto
  let ?s0 = "ss\<lparr>ss_pipe := qs\<rparr>"
  obtain r s1 where c: "ctrl_cmd q ?s0 = Some (r, s1)"
    and out: "(p, ss') = (if r \<noteq> - 1 then (Report r, clear_closed_event r s1) else (Again, s1))"
    using eq True q by (cases "ctrl_cmd q ?s0") (auto simp: poll_step_def split: if_splits)
  have tq: "timely ?s0 q" using t True q by (cases q) (auto simp: pipe_timely_def reserved_for_def)
  have "ss_pipe s1 = qs" using ctrl_cmd_ok [OF c tq] by (simp add: at_def env_def)
  then show ?thesis using out True q by (auto split: if_splits)
next
  case False
  then have "poll_events (if ss_checkctrl ss then ss\<lparr>ss_checkctrl := False\<rparr> else ss) = Some (p, ss')"
    using eq by (auto simp: poll_step_def split: list.splits)
  then show ?thesis using poll_events_pipe [of "if ss_checkctrl ss then ss\<lparr>ss_checkctrl := False\<rparr> else ss" p ss'] False
    by (auto split: if_splits)
qed

end
