(* ===== verification/SocketRun.thy ===== *)
theory SocketRun
  imports SocketInv
begin

text \<open>
  Runs of the socket server: rounds of the socket thread and calls of the other threads, each a
  step. The invariant of all runs (\<open>run_inv\<close>), and what it gives: exact counts of queued bytes, no
  failing assert when a TCP socket is written, one report per closed socket, openings that find
  the slot reserved for them, and a loop that ends.
\<close>

section \<open>Calls\<close>

datatype sock_call =
  Connect u64 bytes int | Listen u64 | Bind u64 int | Udp u64 "bytes option" int | UdpListen u64 int | UdpDial u64
| UdpConnect int | Send socket_sendbuffer | SendLow socket_sendbuffer | UdpSend bytes socket_sendbuffer
| Close u64 int | Shutdown u64 int | Start u64 int | Pause u64 int | Nodelay int | Exit | Updatetime u64

fun do_call :: "sock_call \<Rightarrow> socket_server \<Rightarrow> (int \<times> socket_server) option" where
  "do_call (Connect opaque addr port) ss = Some (socket_server_connect opaque addr port ss)"
| "do_call (Listen opaque) ss = Some (socket_server_listen opaque ss)"
| "do_call (Bind opaque fd) ss = Some (socket_server_bind opaque fd ss)"
| "do_call (Udp opaque addr port) ss = Some (socket_server_udp opaque addr port ss)"
| "do_call (UdpListen opaque port) ss = Some (socket_server_udp_listen opaque port ss)"
| "do_call (UdpDial opaque) ss = Some (socket_server_udp_dial opaque ss)"
| "do_call (UdpConnect sid) ss = Some (socket_server_udp_connect sid ss)"
| "do_call (Send buf) ss = socket_server_send buf ss"
| "do_call (SendLow buf) ss = socket_server_send_lowpriority buf ss"
| "do_call (UdpSend addr buf) ss = Some (socket_server_udp_send addr buf ss)"
| "do_call (Close opaque sid) ss = Some (0, socket_server_close opaque sid ss)"
| "do_call (Shutdown opaque sid) ss = Some (0, socket_server_shutdown opaque sid ss)"
| "do_call (Start opaque sid) ss = Some (0, socket_server_start opaque sid ss)"
| "do_call (Pause opaque sid) ss = Some (0, socket_server_pause opaque sid ss)"
| "do_call (Nodelay sid) ss = Some (0, socket_server_nodelay sid ss)"
| "do_call Exit ss = Some (0, socket_server_exit ss)"
| "do_call (Updatetime t) ss = Some (0, socket_server_updatetime t ss)"

text \<open>A call changes no slot much and may add a request that opens nothing.\<close>

definition plain_call :: "socket_server \<Rightarrow> socket_server \<Rightarrow> bool" where
  "plain_call ss ss' \<longleftrightarrow>
     (\<forall>j. slot_ok_step (ss_slot ss j) (ss_slot ss' j)) \<and>
     (ss_pipe ss' = ss_pipe ss \<or> (\<exists>q. ss_pipe ss' = ss_pipe ss @ [q] \<and> opener q = None))"

text \<open>A call that reserves a slot asks for it to be opened.\<close>

definition reserving_call :: "int \<Rightarrow> socket_server \<Rightarrow> socket_server \<Rightarrow> bool" where
  "reserving_call sid ss ss' \<longleftrightarrow>
     sk_type (ss_slot ss (hash_id sid)) = TYPE_INVALID \<and>
     ss_slot ss' = (ss_slot ss)(hash_id sid := reserved_slot sid (ss_slot ss (hash_id sid))) \<and>
     (\<exists>q. ss_pipe ss' = ss_pipe ss @ [q] \<and> opener q = Some sid)"

lemma plain_same: "ss_slot ss' = ss_slot ss \<Longrightarrow> ss_pipe ss' = ss_pipe ss \<Longrightarrow> plain_call ss ss'"
  by (simp add: plain_call_def)

lemma plain_at: "at i slot_ok_step ss ss' \<Longrightarrow> plain_call ss ss'"
  by (auto simp: plain_call_def at_def env_def)

lemma send_request_simps [simp]:
  "ss_slot (send_request q ss) = ss_slot ss" "ss_pipe (send_request q ss) = ss_pipe ss @ [q]"
  by (simp_all add: send_request_def)

lemma plain_request: "plain_call ss s1 \<Longrightarrow> ss_pipe s1 = ss_pipe ss \<Longrightarrow> opener q = None \<Longrightarrow> plain_call ss (send_request q s1)"
  by (simp add: plain_call_def)

lemma same_pipe: "same ss ss' \<Longrightarrow> ss_pipe ss' = ss_pipe ss"
  by (simp add: same_def env_def)

lemma env_pipe: "env ss' = env ss \<Longrightarrow> ss_pipe ss' = ss_pipe ss"
  by (simp add: env_def)

text \<open>Reserving after the kernel has been asked.\<close>

lemma reserve_call:
  assumes "same ss s0" "reserve_id s0 = (sid, s1)" "0 \<le> sid" "opener q = Some sid"
  shows "reserving_call sid ss (send_request q s1)"
  using assms reserve_id_slot [OF assms(2,3)] reserve_id_env [OF assms(2)] same_pipe [OF assms(1)]
  by (simp add: reserving_call_def same_def)

lemma reserve_fail:
  assumes "same ss s0" "reserve_id s0 = (sid, s1)" "sid < 0"
  shows "plain_call ss s1"
  using assms reserve_id_fail [OF assms(2,3)] reserve_id_env [OF assms(2)] same_pipe [OF assms(1)]
  by (intro plain_same) (simp_all add: same_def)

definition call_ok :: "socket_server \<Rightarrow> socket_server \<Rightarrow> bool" where
  "call_ok ss ss' \<longleftrightarrow> plain_call ss ss' \<or> (\<exists>sid. reserving_call sid ss ss')"

lemma emit_pipe [simp]: "ss_pipe (emit outs ss) = ss_pipe ss"
  by (simp add: emit_def)

lemma plain_emit: "plain_call ss s1 \<Longrightarrow> plain_call ss (emit outs s1)"
  by (simp add: plain_call_def)

lemma reserve_for_ok:
  assumes "reserve_for fd req s0 = (r, ss')" "same ss s0" "\<And>sid. opener (req sid) = Some sid"
  shows "call_ok ss ss'"
proof -
  obtain sid s1 where rs: "reserve_id s0 = (sid, s1)" by fastforce
  show ?thesis
  proof (cases "sid < 0")
    case True
    then have "ss' = emit [CloseFd fd] s1" using assms(1) rs by (simp add: reserve_for_def)
    then show ?thesis using reserve_fail [OF assms(2) rs True] plain_emit by (simp add: call_ok_def)
  next
    case False
    then have "ss' = send_request (req sid) s1" using assms(1) rs by (auto simp: reserve_for_def)
    then show ?thesis using reserve_call [OF assms(2) rs _ assms(3)] False by (auto simp: call_ok_def)
  qed
qed

lemma same_emit: "same ss s1 \<Longrightarrow> same ss (emit outs s1)"
  using same_trans same_simps(1) by blast

lemma do_bind_same:
  assumes "do_bind ss = (r, ss')"
  shows "same ss ss'"
proof -
  obtain a1 s1 where 1: "next_io ss = (a1, s1)" by fastforce
  obtain a2 s2 where 2: "next_io s1 = (a2, s2)" by fastforce
  obtain a3 s3 where 3: "next_io s2 = (a3, s3)" by fastforce
  obtain a4 s4 where 4: "next_io s3 = (a4, s4)" by fastforce
  have s: "same ss s1" "same ss s2" "same ss s3" "same ss s4"
    using next_io_same [OF 1] next_io_same [OF 2] next_io_same [OF 3] next_io_same [OF 4] same_trans by blast+
  have "\<exists>outs. ss' \<in> {s1, s2, s3, s4} \<or> ss' = emit outs s3 \<or> ss' = emit outs s4"
    using assms 1 2 3 4 unfolding do_bind_def by (simp split: answer.splits) blast+
  then show ?thesis using s same_emit by blast
qed

lemma do_listen_same:
  assumes "do_listen ss = (r, ss')"
  shows "same ss ss'"
proof -
  obtain b s1 where b: "do_bind ss = (b, s1)" by fastforce
  obtain a s2 where a: "next_io s1 = (a, s2)" by fastforce
  have s: "same ss s1" "same ss s2" using do_bind_same [OF b] next_io_same [OF a] same_trans by blast+
  have "\<exists>outs. ss' = s1 \<or> ss' = s2 \<or> ss' = emit outs s2"
    using assms a b unfolding do_listen_def by (simp split: option.splits prod.splits answer.splits) blast+
  then show ?thesis using s same_emit by blast
qed

lemma resolve_udp_same: "resolve_udp ss = (r, ss') \<Longrightarrow> same ss ss'"
  by (auto simp: resolve_udp_def split: prod.splits answer.splits if_splits dest: next_io_same)

lemma same_call: "same ss ss' \<Longrightarrow> call_ok ss ss'"
  using plain_same [of ss' ss] same_pipe [of ss ss'] by (simp add: call_ok_def same_def)

lemma listen_call:
  assumes "socket_server_listen opaque ss = (r, ss')"
  shows "call_ok ss ss'"
proof -
  obtain x s1 where x: "do_listen ss = (x, s1)" by fastforce
  have s: "same ss s1" using do_listen_same [OF x] .
  show ?thesis
  proof (cases x)
    case None
    then show ?thesis using assms x s same_call by (simp add: socket_server_listen_def)
  next
    case (Some fd)
    then have "reserve_for fd (\<lambda>sid. ReqListen sid fd opaque) s1 = (r, ss')"
      using assms x by (simp add: socket_server_listen_def)
    then show ?thesis by (rule reserve_for_ok [OF _ s]) simp
  qed
qed

lemma udp_listen_call:
  assumes "socket_server_udp_listen opaque port ss = (r, ss')"
  shows "call_ok ss ss'"
proof (cases "port = 0")
  case True
  then show ?thesis using assms same_call by (simp add: socket_server_udp_listen_def)
next
  case False
  obtain x s1 where x: "do_bind ss = (x, s1)" by fastforce
  have s: "same ss s1" using do_bind_same [OF x] .
  show ?thesis
  proof (cases x)
    case None
    then show ?thesis using assms x s same_call False by (simp add: socket_server_udp_listen_def)
  next
    case (Some p)
    then have "reserve_for (fst p) (\<lambda>sid. ReqUdp sid (fst p) (snd p) opaque) s1 = (r, ss')"
      using assms x False by (cases p) (simp add: socket_server_udp_listen_def)
    then show ?thesis by (rule reserve_for_ok [OF _ s]) simp
  qed
qed

lemma udp_call:
  assumes "socket_server_udp opaque addr port ss = (r, ss')"
  shows "call_ok ss ss'"
proof -
  obtain x s1 where x: "(if port \<noteq> 0 \<or> addr \<noteq> None then do_bind ss
      else (case next_io ss of (Done fd, ss) \<Rightarrow> (Some (int fd, False), ss) | (_, ss) \<Rightarrow> (None, ss))) = (x, s1)" by fastforce
  have s: "same ss s1" using x by (auto split: if_splits prod.splits answer.splits dest: do_bind_same next_io_same)
  show ?thesis
  proof (cases x)
    case None
    then show ?thesis using assms [unfolded socket_server_udp_def x] s same_call by simp
  next
    case (Some p)
    then have "reserve_for (fst p) (\<lambda>sid. ReqUdp sid (fst p) (snd p) opaque) s1 = (r, ss')"
      using assms [unfolded socket_server_udp_def x] by (cases p) simp
    then show ?thesis by (rule reserve_for_ok [OF _ s]) simp
  qed
qed

lemma udp_dial_call:
  assumes "socket_server_udp_dial opaque ss = (r, ss')"
  shows "call_ok ss ss'"
proof -
  obtain x s1 where x: "resolve_udp ss = (x, s1)" by fastforce
  obtain a s2 where a: "next_io s1 = (a, s2)" by fastforce
  have s: "same ss s1" "same ss s2" using resolve_udp_same [OF x] next_io_same [OF a] same_trans by blast+
  show ?thesis
  proof (cases x)
    case None
    then show ?thesis using assms x s(1) same_call by (simp add: socket_server_udp_dial_def)
  next
    case (Some p)
    show ?thesis
    proof (cases "\<exists>fd. a = Done fd")
      case True
      then obtain fd where "reserve_for (int fd) (\<lambda>sid. ReqDial sid (int fd) opaque (snd p)) s2 = (r, ss')"
        using assms x a Some by (cases p) (auto simp: socket_server_udp_dial_def)
      then show ?thesis by (rule reserve_for_ok [OF _ s(2)]) simp
    next
      case False
      then have "ss' = s2" using assms x a Some by (cases p; cases a) (auto simp: socket_server_udp_dial_def)
      then show ?thesis using s(2) same_call by blast
    qed
  qed
qed

lemma connect_call:
  assumes "socket_server_connect opaque addr port ss = (r, ss')"
  shows "call_ok ss ss'"
proof -
  obtain sid s1 where rs: "reserve_id ss = (sid, s1)" by fastforce
  have "ss' = emit [LogError] ss \<or> sid < 0 \<and> ss' = s1 \<or>
      0 \<le> sid \<and> ss' = send_request (ReqOpen sid port opaque (cstr addr)) s1"
    using assms rs by (auto simp: socket_server_connect_def split: if_splits)
  then show ?thesis
    using same_call [of ss "emit [LogError] ss"] reserve_fail [OF same_refl rs]
      reserve_call [OF same_refl rs, of "ReqOpen sid port opaque (cstr addr)"]
    unfolding call_ok_def by auto
qed

lemma bind_call:
  assumes "socket_server_bind opaque fd ss = (r, ss')"
  shows "call_ok ss ss'"
proof -
  obtain sid s1 where rs: "reserve_id ss = (sid, s1)" by fastforce
  have "sid < 0 \<and> ss' = s1 \<or> 0 \<le> sid \<and> ss' = send_request (ReqBind sid fd opaque) s1"
    using assms rs by (auto simp: socket_server_bind_def split: if_splits)
  then show ?thesis
    using reserve_fail [OF same_refl rs] reserve_call [OF same_refl rs, of "ReqBind sid fd opaque"]
    by (auto simp: call_ok_def)
qed

lemma udp_connect_call:
  assumes "socket_server_udp_connect sid ss = (r, ss')"
  shows "plain_call ss ss'"
proof -
  let ?i = "hash_id sid"
  let ?s = "ss_slot ss ?i"
  let ?s0 = "put ?i (?s\<lparr>sk_udpconnecting := sk_udpconnecting ?s + 1\<rparr>) ss"
  obtain x s1 where x: "resolve_udp ?s0 = (x, s1)" by fastforce
  have "at ?i slot_ok_step ss ?s0" by (rule put_ok, rule agree_ok) (simp_all add: agree_def)
  then have "at ?i slot_ok_step ss s1" using resolve_udp_same [OF x] same_ok at_ok_trans by blast
  then have p: "plain_call ss s1" "ss_pipe s1 = ss_pipe ss" using plain_at by (simp_all add: at_def env_def)
  have "ss' = ss \<or> ss' = s1 \<or> (\<exists>a. ss' = send_request (ReqSetUdp sid a) s1)"
    using assms x by (cases x) (auto simp: socket_server_udp_connect_def Let_def split: if_splits)
  then show ?thesis using p plain_same plain_request by auto
qed

section \<open>Sending\<close>

lemma inc_sending_agree: "inc_sending_ref sid s = Some t \<Longrightarrow> agree s t \<and> sk_type t = sk_type s"
  by (auto simp: inc_sending_ref_def agree_def split: if_splits)

lemma queue_send_call:
  assumes "queue_send hi buf ss = Some (r, ss')"
  shows "plain_call ss ss'"
proof -
  let ?i = "hash_id (sb_id buf)"
  obtain t where t: "inc_sending_ref (sb_id buf) (ss_slot ss ?i) = Some t"
    "ss' = send_request (ReqSend hi (sb_id buf) (clone_buffer buf)) (put ?i t ss)"
    using assms by (auto simp: queue_send_def Let_def bind_eq_Some_conv)
  have a: "at ?i slot_ok_step ss (put ?i t ss)"
    using inc_sending_agree [OF t(1)] by (intro put_ok agree_ok) auto
  then show ?thesis using t(2) plain_request [OF plain_at [OF a]] env_pipe [OF env_simps(2)] by simp
qed

lemma set_locked_at: "at i (\<lambda>s t. t = s\<lparr>sk_locked := b\<rparr>) ss (set_locked i b ss)"
  by (simp add: at_def set_locked_def)

text \<open>Up to the lock.\<close>

definition unlocked :: "socket \<Rightarrow> socket" where
  "unlocked s = s\<lparr>sk_locked := False\<rparr>"

lemma direct_write_at:
  assumes eq: "direct_write i buf ss = ((r, w), ss')" and c: "can_direct_write (ss_slot ss i) sid"
  shows "at i (\<lambda>s t. slot_ok_step (unlocked s) (unlocked t)) ss ss'"
proof -
  obtain x s1 where x: "write_once (length (sb_buffer buf)) ss = (x, s1)" by fastforce
  have s1: "ss_slot s1 = ss_slot ss" "env s1 = env ss" using write_once_same [OF x] by (simp_all add: same_def)
  define n where "n = (case x of Inl n \<Rightarrow> n | Inr _ \<Rightarrow> 0)"
  have n: "n \<le> length (sb_buffer buf)"
    using x by (auto simp: n_def write_once_def split: sum.splits prod.splits answer.splits)
  have b: "blob_bytes (clone_buffer buf) = sb_buffer buf" by (simp add: clone_buffer_def)
  let ?s = "ss_slot ss i"
  have idle: "sk_type ?s = TYPE_CONNECTED" "sk_high ?s = []" "sk_low ?s = []"
    using c by (auto simp: can_direct_write_def nomore_sending_data_def send_buffer_empty_def type_defs)
  have keep: "slot_ok_step (unlocked ?s) (unlocked t)" if "agree ?s t" "sk_type t = sk_type ?s" for t
    using that by (intro agree_ok) (auto simp: agree_def unlocked_def)
  have dw: "slot_ok_step (unlocked ?s) (unlocked (t\<lparr>sk_dw_buffer := Some (clone_buffer buf), sk_dw_offset := n\<rparr>))"
    if "agree ?s t" "sk_type t = sk_type ?s" for t
    using that idle n b agree_base [OF that(1)]
    by (auto simp: slot_ok_step_def unlocked_def agree_def life_def sock_ok_def base_ok_def queued_def split: option.splits)
  let ?P = "\<lambda>s t. agree s t \<and> sk_type t = sk_type s"
  let ?w = "wire i (take n (sb_buffer buf)) s1"
  have m: "at i ?P ss (emit outs ss)" "at i ?P ss ?w" "at i ?P ss (emit outs ?w)"
    "at i ?P ss (stat_write i n s1)" "at i ?P ss (emit outs (stat_write i n s1))" for outs
    using s1 by (simp_all add: at_def agree_def)
  consider "sk_protocol ?s = PROTOCOL_TCP" | "sk_protocol ?s \<noteq> PROTOCOL_TCP" "udp_socket_address ?s (sk_udp_address ?s) = None"
    | sa where "sk_protocol ?s \<noteq> PROTOCOL_TCP" "udp_socket_address ?s (sk_udp_address ?s) = Some sa" by fastforce
  then have "\<exists>m. at i ?P ss m \<and> (ss' = m \<or> ss' = set_dw i (clone_buffer buf) n m)"
  proof cases
    case 1
    then have "ss' = emit (free_buffer buf) ?w \<or> ss' = set_dw i (clone_buffer buf) n ?w"
      using eq x by (auto simp: direct_write_def Let_def n_def [symmetric] split: if_splits)
    then show ?thesis using m by blast
  next
    case 2
    then have "ss' = emit (LogError # free_buffer buf) ss" using eq by (simp add: direct_write_def)
    then show ?thesis using m by blast
  next
    case 3
    let ?m = "stat_write i n s1"
    have "ss' = emit (SentTo (sk_fd ?s) sa (sb_buffer buf) # free_buffer buf) ?m \<or> ss' = set_dw i (clone_buffer buf) n ?m"
      using eq x 3 by (auto simp: direct_write_def Let_def n_def [symmetric] split: if_splits)
    then show ?thesis using m by blast
  qed
  then obtain m where m: "at i ?P ss m" "ss' = m \<or> ss' = set_dw i (clone_buffer buf) n m" by blast
  have p: "agree ?s (ss_slot m i)" "sk_type (ss_slot m i) = sk_type ?s" using m(1) by (simp_all add: at_def)
  from m(2) show ?thesis
  proof
    assume "ss' = m"
    then show ?thesis using m(1) keep [OF p] by (simp add: at_def)
  next
    assume "ss' = set_dw i (clone_buffer buf) n m"
    then show ?thesis using m(1) dw [OF p] by (simp add: at_def set_dw_def)
  qed
qed

lemma unlocked_id: "\<not> sk_locked s \<Longrightarrow> unlocked s = s"
  by (cases s) (simp add: unlocked_def)

lemma set_locked_simps [simp]:
  "ss_slot (set_locked i b ss) = (ss_slot ss)(i := (ss_slot ss i)\<lparr>sk_locked := b\<rparr>)"
  "ss_pipe (set_locked i b ss) = ss_pipe ss" "env (set_locked i b ss) = env ss"
  by (simp_all add: set_locked_def put_def env_def)

text \<open>Taking the lock and giving it back.\<close>

lemma locked_at:
  assumes "at i (\<lambda>s t. slot_ok_step (unlocked s) (unlocked t)) (set_locked i True ss) s1" "\<not> sk_locked (ss_slot ss i)"
  shows "at i slot_ok_step ss (set_locked i False s1)"
proof -
  have "unlocked ((ss_slot ss i)\<lparr>sk_locked := True\<rparr>) = ss_slot ss i"
    using unlocked_id [OF assms(2)] by (simp add: unlocked_def)
  moreover have "(ss_slot s1 i)\<lparr>sk_locked := False\<rparr> = unlocked (ss_slot s1 i)" by (simp add: unlocked_def)
  ultimately show ?thesis using assms(1) by (simp add: at_def)
qed

lemma unlock_id:
  assumes "\<not> sk_locked (ss_slot ss i)"
  shows "at i slot_ok_step ss (set_locked i False (set_locked i True ss))"
  using locked_at [of i ss "set_locked i True ss"] assms by (simp add: at_def)

lemma plain_trans: "at i slot_ok_step ss s1 \<Longrightarrow> plain_call s1 s2 \<Longrightarrow> plain_call ss s2"
  unfolding plain_call_def at_def using slot_ok_trans env_pipe by metis

lemma send_call:
  assumes eq: "socket_server_send buf ss = Some (r, ss')"
  shows "plain_call ss ss'"
proof -
  let ?i = "hash_id (sb_id buf)"
  let ?l = "set_locked ?i True ss"
  have "ss' = emit (free_buffer buf) ss \<or> queue_send True buf ss = Some (r, ss') \<or>
      \<not> sk_locked (ss_slot ss ?i) \<and>
        (queue_send True buf (set_locked ?i False ?l) = Some (r, ss') \<or>
         can_direct_write (ss_slot ?l ?i) (sb_id buf) \<and>
         (\<exists>w s1. direct_write ?i buf ?l = ((r, w), s1) \<and>
            ss' = (if w then send_request (ReqWrite (sb_id buf)) (set_locked ?i False s1) else set_locked ?i False s1)))"
    using eq by (auto simp: socket_server_send_def Let_def split: if_splits prod.splits)
  then show ?thesis
  proof (elim disjE conjE exE)
    assume "ss' = emit (free_buffer buf) ss"
    then show ?thesis using plain_same [of ss' ss] by simp
  next
    assume "queue_send True buf ss = Some (r, ss')"
    then show ?thesis by (rule queue_send_call)
  next
    assume "\<not> sk_locked (ss_slot ss ?i)" "queue_send True buf (set_locked ?i False ?l) = Some (r, ss')"
    then show ?thesis using plain_trans [OF unlock_id] queue_send_call by blast
  next
    fix w s1
    assume l: "\<not> sk_locked (ss_slot ss ?i)" and c: "can_direct_write (ss_slot ?l ?i) (sb_id buf)"
      and d: "direct_write ?i buf ?l = ((r, w), s1)"
      and o: "ss' = (if w then send_request (ReqWrite (sb_id buf)) (set_locked ?i False s1) else set_locked ?i False s1)"
    have a: "at ?i slot_ok_step ss (set_locked ?i False s1)" using locked_at [OF direct_write_at [OF d c] l] .
    have "env (set_locked ?i False s1) = env ss" using a unfolding at_def by blast
    then have "ss_pipe (set_locked ?i False s1) = ss_pipe ss" by (rule env_pipe)
    then show ?thesis using o plain_at [OF a] plain_request [OF plain_at [OF a], of "ReqWrite (sb_id buf)"] by (cases w) simp_all
  qed
qed

lemma send_low_call:
  assumes "socket_server_send_lowpriority buf ss = Some (r, ss')"
  shows "plain_call ss ss'"
  using assms queue_send_call [of False buf ss r ss'] plain_same [of "emit (free_buffer buf) ss" ss]
  by (auto simp: socket_server_send_lowpriority_def split: if_splits)

lemma udp_queue_call: "plain_call ss s1 \<Longrightarrow> ss_pipe s1 = ss_pipe ss \<Longrightarrow> udp_send_queue addr buf s1 = (r, ss') \<Longrightarrow> plain_call ss ss'"
  by (auto simp: udp_send_queue_def intro: plain_request)

lemma udp_direct_call:
  assumes eq: "udp_send_direct i addr buf (set_locked i True ss) = (r, ss')" and l: "\<not> sk_locked (ss_slot ss i)"
  shows "plain_call ss ss'"
proof -
  let ?l = "set_locked i True ss"
  obtain x s1 where x: "write_once (length (sb_buffer buf)) ?l = (x, s1)" by fastforce
  have s1: "ss_slot s1 = ss_slot ?l" "env s1 = env ?l" using write_once_same [OF x] by (simp_all add: same_def)
  have step: "at i slot_ok_step ss (set_locked i False m)"
    if "env m = env ss" "\<forall>j. j \<noteq> i \<longrightarrow> ss_slot m j = ss_slot ss j" "agree (ss_slot ?l i) (ss_slot m i)" "sk_type (ss_slot m i) = sk_type (ss_slot ss i)" for m
    by (rule locked_at) (use that l in \<open>auto simp: at_def agree_def unlocked_def intro!: agree_ok\<close>)
  have "at i slot_ok_step ss (set_locked i False ?l)" "at i slot_ok_step ss (set_locked i False s1)"
      "at i slot_ok_step ss (set_locked i False (stat_write i n s1))" for n
    using s1 by (intro step; simp add: agree_def)+
  then have p: "plain_call ss (set_locked i False ?l)" "plain_call ss (set_locked i False s1)"
      "plain_call ss (set_locked i False (stat_write i n s1))" for n
    using plain_at by blast+
  have pipe: "ss_pipe s1 = ss_pipe ss" using s1 env_pipe [of s1 ?l] by simp
  show ?thesis
  proof (cases "udp_socket_address (ss_slot ?l i) addr")
    case None
    then have "ss' = emit (free_buffer buf) (set_locked i False ?l)" using eq by (simp add: udp_send_direct_def del: set_locked_simps)
    then show ?thesis using p(1) plain_emit by blast
  next
    case (Some sa)
    have "(\<exists>outs n. ss' = emit outs (set_locked i False (stat_write i n s1))) \<or> udp_send_queue addr buf (set_locked i False s1) = (r, ss')"
      using eq x Some by (cases x) (auto simp: udp_send_direct_def simp del: set_locked_simps)
    then show ?thesis using p plain_emit udp_queue_call pipe by (metis set_locked_simps(2))
  qed
qed

lemma udp_send_call:
  assumes eq: "socket_server_udp_send addr buf ss = (r, ss')"
  shows "plain_call ss ss'"
proof -
  let ?i = "hash_id (sb_id buf)"
  let ?l = "set_locked ?i True ss"
  have "ss' = emit (free_buffer buf) ss \<or> (\<exists>a. udp_send_queue a buf ss = (r, ss')) \<or>
      \<not> sk_locked (ss_slot ss ?i) \<and>
        ((\<exists>a. udp_send_queue a buf (set_locked ?i False ?l) = (r, ss')) \<or> (\<exists>a. udp_send_direct ?i a buf ?l = (r, ss')))"
    using eq unfolding socket_server_udp_send_def Let_def by (simp split: if_splits) blast+
  then consider "ss' = emit (free_buffer buf) ss" | a where "udp_send_queue a buf ss = (r, ss')"
    | a where "\<not> sk_locked (ss_slot ss ?i)" "udp_send_queue a buf (set_locked ?i False ?l) = (r, ss')"
    | a where "\<not> sk_locked (ss_slot ss ?i)" "udp_send_direct ?i a buf ?l = (r, ss')" by blast
  then show ?thesis
  proof cases
    case 1
    then show ?thesis using plain_same [of ss' ss] by simp
  next
    case 2
    then show ?thesis using udp_queue_call [OF plain_at [OF at_ok_refl] refl] by blast
  next
    case 3
    show ?thesis by (rule udp_queue_call [OF plain_at [OF unlock_id [OF 3(1)]] _ 3(2)]) simp
  next
    case 4
    then show ?thesis using udp_direct_call by blast
  qed
qed

lemma request_call: "opener q = None \<Longrightarrow> call_ok ss (send_request q ss)"
  using plain_request [OF plain_at [OF at_ok_refl] refl] by (simp add: call_ok_def)

lemma do_call_ok:
  assumes "do_call c ss = Some (r, ss')"
  shows "call_ok ss ss'"
proof -
  have p: "plain_call ss ss' \<Longrightarrow> call_ok ss ss'" by (simp add: call_ok_def)
  have t: "call_ok ss (socket_server_updatetime t ss)" for t
    using plain_same [of "socket_server_updatetime t ss" ss] by (simp add: call_ok_def socket_server_updatetime_def)
  show ?thesis
    using assms p t request_call [of "ReqClose _ _ _" ss] request_call [of "ReqResume _ _" ss] request_call [of "ReqPause _ _" ss]
      request_call [of "ReqSetopt _ _ _" ss] request_call [of ReqExit ss]
      connect_call listen_call bind_call udp_call udp_listen_call udp_dial_call udp_connect_call send_call send_low_call udp_send_call
    by (cases c) (auto simp: socket_server_close_def socket_server_shutdown_def socket_server_start_def
        socket_server_pause_def socket_server_nodelay_def socket_server_exit_def)
qed

section \<open>The invariant of the runs\<close>

fun openers :: "request list \<Rightarrow> int list" where
  "openers [] = []"
| "openers (q # qs) = (case opener q of None \<Rightarrow> openers qs | Some sid \<Rightarrow> sid # openers qs)"

text \<open>No request to close a socket comes before the one that opens it.\<close>

fun closes_ok :: "request list \<Rightarrow> bool" where
  "closes_ok [] = True"
| "closes_ok (q # qs) = ((case q of ReqClose sid shut opaque \<Rightarrow> sid \<notin> set (openers qs) | _ \<Rightarrow> True) \<and> closes_ok qs)"

definition pipe_ok :: "socket_server \<Rightarrow> bool" where
  "pipe_ok ss \<longleftrightarrow>
     (\<forall>sid \<in> set (openers (ss_pipe ss)). reserved_for ss sid) \<and> distinct (openers (ss_pipe ss)) \<and> closes_ok (ss_pipe ss) \<and>
     (\<forall>j. sk_type (ss_slot ss j) = TYPE_RESERVE \<longrightarrow> sk_id (ss_slot ss j) \<in> set (openers (ss_pipe ss)))"

definition run_inv :: "socket_server \<Rightarrow> bool" where
  "run_inv ss \<longleftrightarrow> (\<forall>j. sock_ok (ss_slot ss j) \<and> home j (ss_slot ss j) \<and> \<not> sk_locked (ss_slot ss j)) \<and> pipe_ok ss"

text \<open>An id is not closed before it has been handed out.\<close>

definition early_close :: "socket_server \<Rightarrow> socket_server \<Rightarrow> bool" where
  "early_close ss ss' \<longleftrightarrow>
     (\<exists>q \<in> set (ss_pipe ss). case q of ReqClose sid shut opaque \<Rightarrow> reserved_for ss' sid \<and> \<not> reserved_for ss sid | _ \<Rightarrow> False)"

definition fresh_server :: "socket_server \<Rightarrow> bool" where
  "fresh_server ss \<longleftrightarrow>
     (\<forall>j. sk_type (ss_slot ss j) = TYPE_INVALID \<and> sk_high (ss_slot ss j) = [] \<and> sk_low (ss_slot ss j) = [] \<and>
        sk_dw_buffer (ss_slot ss j) = None \<and> \<not> sk_locked (ss_slot ss j)) \<and> ss_pipe ss = []"

inductive sock_step :: "socket_server \<Rightarrow> socket_server \<Rightarrow> bool" where
  poll: "poll_step ss = Some (p, ss') \<Longrightarrow> sock_step ss ss'"
| call: "do_call c ss = Some (r, ss') \<Longrightarrow> \<not> early_close ss ss' \<Longrightarrow> sock_step ss ss'"

abbreviation sock_reach :: "socket_server \<Rightarrow> bool" where
  "sock_reach \<equiv> reach fresh_server sock_step"

lemma reach_poll: "sock_reach ss \<Longrightarrow> poll_step ss = Some (p, ss') \<Longrightarrow> sock_reach ss'"
  using reach_step sock_step.poll by metis

lemma reach_call: "sock_reach ss \<Longrightarrow> do_call c ss = Some (r, ss') \<Longrightarrow> \<not> early_close ss ss' \<Longrightarrow> sock_reach ss'"
  using reach_step sock_step.call by metis

lemma openers_append [simp]: "openers (xs @ ys) = openers xs @ openers ys"
  by (induction xs) (auto split: option.splits)

lemma closes_ok_append:
  assumes "closes_ok qs" "\<And>sid sh o'. opener q = Some sid \<Longrightarrow> ReqClose sid sh o' \<notin> set qs"
  shows "closes_ok (qs @ [q])"
  using assms by (induction qs) (auto split: request.splits option.splits)

lemma fresh_inv: "fresh_server ss \<Longrightarrow> run_inv ss"
  by (auto simp: fresh_server_def run_inv_def pipe_ok_def sock_ok_def home_def)

lemma inv_timely:
  assumes "run_inv ss"
  shows "pipe_timely ss"
proof (cases "ss_pipe ss")
  case (Cons q qs)
  have p: "pipe_ok ss" using assms by (simp add: run_inv_def)
  have "timely ss q"
  proof (cases "opener q")
    case (Some sid)
    then have "reserved_for ss sid" using p Cons by (simp add: pipe_ok_def)
    then show ?thesis using Some by (cases q) auto
  next
    case None
    show ?thesis
    proof (cases q)
      case (ReqClose sid sh op)
      then have "sid \<notin> set (openers (ss_pipe ss))" using p Cons by (simp add: pipe_ok_def)
      then show ?thesis using p ReqClose by (auto simp: pipe_ok_def socket_invalid_def)
    qed (use None in auto)
  qed
  then show ?thesis using Cons by (simp add: pipe_timely_def)
qed (simp add: pipe_timely_def)

lemma poll_inv:
  assumes inv: "run_inv ss" and eq: "poll_step ss = Some (p, ss')"
  shows "run_inv ss'"
proof -
  have po: "pipe_ok ss" using inv by (simp add: run_inv_def)
  note ok = poll_step_ok [OF eq inv_timely [OF inv]]
  have ch: "slot_change j (ss_slot ss j) (ss_slot ss' j)" for j
    using ok by (auto simp: round_change_def slot_move_def split: if_splits)
  have slots: "sock_ok (ss_slot ss j)" "home j (ss_slot ss j)" for j using inv by (simp_all add: run_inv_def)
  have 1: "sock_ok (ss_slot ss' j) \<and> home j (ss_slot ss' j) \<and> \<not> sk_locked (ss_slot ss' j)" for j
    using ch [of j] inv by (simp add: slot_change_def run_inv_def)
  have prior: "sk_type (ss_slot ss j) = TYPE_RESERVE \<and> sk_id (ss_slot ss' j) = sk_id (ss_slot ss j)"
    if "sk_type (ss_slot ss' j) = TYPE_RESERVE" for j
    using ch [of j] that by (auto simp: slot_change_def life_def)
  have keep: "reserved_for ss' sid" if "reserved_for ss sid" "head_opens ss \<noteq> Some sid" for sid
  proof -
    let ?j = "hash_id sid"
    have "map_option hash_id (head_opens ss) \<noteq> Some ?j"
    proof
      assume "map_option hash_id (head_opens ss) = Some ?j"
      then obtain sid' where s: "head_opens ss = Some sid'" "hash_id sid' = ?j" by auto
      then have "sid' \<in> set (openers (ss_pipe ss))" by (auto simp: head_opens_def split: if_splits list.splits option.splits)
      then have "reserved_for ss sid'" using po by (simp add: pipe_ok_def)
      then have "sid' = sid" using that(1) s by (simp add: reserved_for_def)
      then show False using that(2) s by simp
    qed
    then have "slot_move ?j (ss_slot ss ?j) (ss_slot ss' ?j)" using ok by (simp add: round_change_def)
    then show ?thesis using that(1) slots [of ?j] by (auto simp: slot_move_def slot_change_def reserved_for_def life_def)
  qed
  have pipe: "ss_pipe ss' = (if ss_checkctrl ss then tl (ss_pipe ss) else ss_pipe ss)"
    using poll_step_pipe [OF eq inv_timely [OF inv]] .
  have gone: "\<not> reserved_for ss' sid" if "head_opens ss = Some sid" for sid
    using ok that by (auto simp: round_change_def reserved_for_def)
  have op: "set (openers (ss_pipe ss')) = set (openers (ss_pipe ss)) - set_option (head_opens ss)" "distinct (openers (ss_pipe ss'))"
      "closes_ok (ss_pipe ss')"
    using po pipe by (cases "ss_pipe ss"; auto simp: pipe_ok_def head_opens_def split: option.splits)+
  have "pipe_ok ss'"
    unfolding pipe_ok_def
  proof (intro conjI allI impI ballI)
    fix sid assume "sid \<in> set (openers (ss_pipe ss'))"
    then show "reserved_for ss' sid" using op(1) po keep by (auto simp: pipe_ok_def)
  next
    fix j assume j: "sk_type (ss_slot ss' j) = TYPE_RESERVE"
    note b = prior [OF j]
    then have "sk_id (ss_slot ss j) \<in> set (openers (ss_pipe ss))" using po by (simp add: pipe_ok_def)
    moreover have "head_opens ss \<noteq> Some (sk_id (ss_slot ss j))"
    proof
      assume h: "head_opens ss = Some (sk_id (ss_slot ss j))"
      have "hash_id (sk_id (ss_slot ss j)) = j" using slots(2) [of j] b by (simp add: home_def)
      then show False using gone [OF h] j b by (simp add: reserved_for_def)
    qed
    ultimately show "sk_id (ss_slot ss' j) \<in> set (openers (ss_pipe ss'))" using op(1) b by auto
  qed (use op in simp_all)
  then show ?thesis using 1 by (simp add: run_inv_def)
qed

lemma plain_inv:
  assumes inv: "run_inv ss" and c: "plain_call ss ss'"
  shows "run_inv ss'"
proof -
  have po: "pipe_ok ss" using inv by (simp add: run_inv_def)
  have st: "slot_ok_step (ss_slot ss j) (ss_slot ss' j)" for j using c by (simp add: plain_call_def)
  have s: "sock_ok (ss_slot ss j)" "home j (ss_slot ss j)" "\<not> sk_locked (ss_slot ss j)" for j
    using inv by (simp_all add: run_inv_def)
  have 1: "sock_ok (ss_slot ss' j) \<and> home j (ss_slot ss' j) \<and> \<not> sk_locked (ss_slot ss' j)" for j
    using step_move [OF st [of j], of j] s [of j] by (simp add: slot_move_def slot_change_def)
  have res: "sk_type (ss_slot ss' j) = TYPE_RESERVE \<longleftrightarrow> sk_type (ss_slot ss j) = TYPE_RESERVE"
    and ids: "sk_id (ss_slot ss' j) = sk_id (ss_slot ss j)" for j
    using st [of j] s(1) [of j] unfolding slot_ok_step_def life_def by metis+
  obtain q where q: "ss_pipe ss' = ss_pipe ss \<or> ss_pipe ss' = ss_pipe ss @ [q] \<and> opener q = None"
    using c by (auto simp: plain_call_def)
  then have op: "openers (ss_pipe ss') = openers (ss_pipe ss)" by auto
  have "closes_ok (ss_pipe ss')" using q po closes_ok_append [of "ss_pipe ss" q] by (auto simp: pipe_ok_def)
  then have "pipe_ok ss'" using po op res ids by (simp add: pipe_ok_def reserved_for_def)
  then show ?thesis using 1 by (simp add: run_inv_def)
qed

lemma reserving_inv:
  assumes inv: "run_inv ss" and c: "reserving_call sid ss ss'" and e: "\<not> early_close ss ss'"
  shows "run_inv ss'"
proof -
  let ?i = "hash_id sid"
  have po: "pipe_ok ss" using inv by (simp add: run_inv_def)
  have s: "sock_ok (ss_slot ss j)" "home j (ss_slot ss j)" "\<not> sk_locked (ss_slot ss j)" for j
    using inv by (simp_all add: run_inv_def)
  have free: "sk_type (ss_slot ss ?i) = TYPE_INVALID"
    and sl: "ss_slot ss' = (ss_slot ss)(?i := reserved_slot sid (ss_slot ss ?i))" using c by (simp_all add: reserving_call_def)
  obtain q where q: "ss_pipe ss' = ss_pipe ss @ [q]" "opener q = Some sid" using c by (auto simp: reserving_call_def)
  have new: "reserved_for ss' sid" "\<not> reserved_for ss sid" using sl free by (simp_all add: reserved_for_def reserved_slot_def)
  have other: "reserved_for ss sid' \<Longrightarrow> reserved_for ss' sid' \<and> sid' \<noteq> sid" for sid'
    using sl free by (auto simp: reserved_for_def)
  have cl: "closes_ok (ss_pipe ss')"
    unfolding q(1)
  proof (rule closes_ok_append)
    show "closes_ok (ss_pipe ss)" using po by (simp add: pipe_ok_def)
  next
    fix x sh o' assume "opener q = Some x"
    then have "x = sid" using q(2) by simp
    then show "ReqClose x sh o' \<notin> set (ss_pipe ss)" using e new by (force simp: early_close_def)
  qed
  have "sock_ok (reserved_slot sid (ss_slot ss ?i)) \<and> home ?i (reserved_slot sid (ss_slot ss ?i)) \<and>
      \<not> sk_locked (reserved_slot sid (ss_slot ss ?i))"
    using s [of ?i] reserved_ok [OF free s(1)] by (simp add: home_def reserved_slot_def)
  then have "sock_ok (ss_slot ss' j) \<and> home j (ss_slot ss' j) \<and> \<not> sk_locked (ss_slot ss' j)" for j
    using s [of j] unfolding sl by (cases "j = ?i") simp_all
  moreover have "pipe_ok ss'"
    unfolding pipe_ok_def
  proof (intro conjI allI impI ballI)
    fix x assume "x \<in> set (openers (ss_pipe ss'))"
    then show "reserved_for ss' x" using q new other po by (auto simp: pipe_ok_def)
  next
    have "sid \<notin> set (openers (ss_pipe ss))" using po new(2) by (auto simp: pipe_ok_def)
    then show "distinct (openers (ss_pipe ss'))" using q po by (simp add: pipe_ok_def)
  next
    fix j assume "sk_type (ss_slot ss' j) = TYPE_RESERVE"
    then show "sk_id (ss_slot ss' j) \<in> set (openers (ss_pipe ss'))"
      using q po unfolding sl by (cases "j = ?i") (simp_all add: pipe_ok_def reserved_slot_def)
  qed (rule cl)
  ultimately show ?thesis by (simp add: run_inv_def)
qed

lemma sock_step_inv: "sock_step ss ss' \<Longrightarrow> run_inv ss \<Longrightarrow> run_inv ss'"
proof (induction rule: sock_step.induct)
  case (poll ss p ss')
  then show ?case using poll_inv by blast
next
  case (call c ss r ss')
  from do_call_ok [OF call(1)] show ?case
    unfolding call_ok_def using plain_inv [OF call(3)] reserving_inv [OF call(3) _ call(2)] by blast
qed

interpretation sockets: machine fresh_server sock_step run_inv
  by unfold_locales (auto intro: fresh_inv sock_step_inv)

section \<open>The whole of \<open>socket_server_poll\<close>\<close>

text \<open>A round that does not report uses up a request, an event or the reading part of one, or a wait.\<close>

definition event_weight :: "event \<Rightarrow> nat" where
  "event_weight e = (if ev_read e then 2 else 1)"

definition poll_weight :: "socket_server \<Rightarrow> nat" where
  "poll_weight ss =
     2 * length (ss_pipe ss) + sum_list (map event_weight (ss_events ss)) +
     sum_list (map (\<lambda>es. 2 + sum_list (map event_weight es)) (ss_wait ss)) + (if ss_checkctrl ss then 1 else 0)"

lemma take_weight: "sum_list (map event_weight (take n es)) \<le> sum_list (map event_weight es)"
proof -
  have "sum_list (map event_weight es) = sum_list (map event_weight (take n es)) + sum_list (map event_weight (drop n es))"
    by (metis append_take_drop_id map_append sum_list_append)
  then show ?thesis by simp
qed

lemma clear_weight: "sum_list (map event_weight (clear_event sid slot es)) = sum_list (map event_weight es)"
  by (induction sid slot es rule: clear_event.induct) (auto simp: event_weight_def split: option.splits)

lemma events_weight:
  assumes eq: "poll_events ss = Some (Again, ss')"
  shows "poll_weight ss' < poll_weight ss"
proof (cases "ss_events ss")
  case Nil
  then obtain es w where w: "ss_wait ss = es # w"
    "ss' = ss\<lparr>ss_wait := w, ss_events := take MAX_EVENT es, ss_checkctrl := True, ss_more := False\<rparr>"
    using eq by (auto simp: poll_events_def split: list.splits)
  then show ?thesis using Nil take_weight [of MAX_EVENT es] by (simp add: poll_weight_def)
next
  case (Cons e es)
  let ?s0 = "ss\<lparr>ss_events := es\<rparr>"
  have "event_step e Again ?s0 ss'"
    using eq Cons dispatch_event_ok [of e _ ?s0 Again ss'] moves_event [OF moves_refl, of Again ?s0 e]
    by (auto simp: poll_events_def Let_def close_said_def split: option.splits)
  then have "ss_pipe ss' = ss_pipe ss" "ss_wait ss' = ss_wait ss" "ss_checkctrl ss' = ss_checkctrl ss"
      "sum_list (map event_weight (ss_events ss')) < sum_list (map event_weight (ss_events ss))"
    using Cons by (auto simp: event_step_def requeued_def event_weight_def)
  then show ?thesis by (simp add: poll_weight_def)
qed

lemma step_weight:
  assumes eq: "poll_step ss = Some (Again, ss')" and t: "pipe_timely ss"
  shows "poll_weight ss' < poll_weight ss"
proof (cases "ss_checkctrl ss \<and> ss_pipe ss \<noteq> []")
  case True
  then obtain q qs where q: "ss_pipe ss = q # qs" by (cases "ss_pipe ss") auto
  let ?s0 = "ss\<lparr>ss_pipe := qs\<rparr>"
  obtain r where c: "ctrl_cmd q ?s0 = Some (r, ss')"
    using eq True q by (cases "ctrl_cmd q ?s0") (auto simp: poll_step_def split: if_splits)
  have tq: "timely ?s0 q" using t True q by (cases q) (auto simp: pipe_timely_def reserved_for_def)
  have "env ss' = env ?s0" using ctrl_cmd_ok [OF c tq] by (simp add: at_def)
  then show ?thesis using q by (simp add: poll_weight_def env_def)
next
  case False
  let ?s1 = "if ss_checkctrl ss then ss\<lparr>ss_checkctrl := False\<rparr> else ss"
  have "poll_events ?s1 = Some (Again, ss')" using False eq by (auto simp: poll_step_def split: list.splits)
  then have "poll_weight ss' < poll_weight ?s1" by (rule events_weight)
  then show ?thesis by (simp add: poll_weight_def split: if_splits)
qed

text \<open>
  The whole function; the outer \<open>None\<close> is a loop that never ends, the inner one a failed assert.
\<close>

partial_function (option) socket_server_poll :: "socket_server \<Rightarrow> (poll \<times> socket_server) option option" where
  "socket_server_poll ss =
     (case poll_step ss of
        None \<Rightarrow> Some None
      | Some (p, ss') \<Rightarrow> if p = Again then socket_server_poll ss' else Some (Some (p, ss')))"

lemma poll_ends: "run_inv ss \<Longrightarrow> \<exists>r. socket_server_poll ss = Some r"
proof (induction ss rule: measure_induct_rule [where f = poll_weight])
  case (less ss)
  show ?case
  proof (cases "poll_step ss")
    case None
    then show ?thesis by (subst socket_server_poll.simps) simp
  next
    case (Some x)
    then obtain p ss' where x: "poll_step ss = Some (p, ss')" by (cases x) auto
    show ?thesis
    proof (cases "p = Again")
      case True
      then have "\<exists>r. socket_server_poll ss' = Some r"
        using less.IH step_weight inv_timely poll_inv less.prems x by blast
      then show ?thesis using x True by (subst socket_server_poll.simps) simp
    next
      case False
      then show ?thesis using x by (subst socket_server_poll.simps) simp
    qed
  qed
qed

text \<open>What runs start from.\<close>

lemma create_fresh:
  assumes "\<And>i. sk_dw_buffer (junk i) = None" "socket_server_create time junk io polls waits = (outs, Some ss)"
  shows "fresh_server ss"
  using assms by (auto simp: socket_server_create_def fresh_server_def Let_def split: list.splits answer.splits if_splits prod.splits)

section \<open>Queued bytes\<close>

section \<open>Writing never fails an assert\<close>

lemma force_close_total: "sk_type (ss_slot ss i) \<noteq> TYPE_RESERVE \<Longrightarrow> force_close i ss \<noteq> None"
  by (simp add: force_close_def Let_def)

lemma close_write_total: "sk_type (ss_slot ss i) \<noteq> TYPE_RESERVE \<Longrightarrow> close_write i e ss \<noteq> None"
  using force_close_total [of ss i] by (auto simp: close_write_def Let_def)

lemma tcp_loop_total:
  "sk_type (ss_slot ss i) \<noteq> TYPE_RESERVE \<Longrightarrow> wb_list hi (ss_slot ss i) = wbs \<Longrightarrow> tcp_loop wbs i hi ss \<noteq> None"
proof (induction wbs i hi ss rule: tcp_loop.induct)
  case (2 wb wbs i hi ss)
  obtain w io where w: "write_retry (ss_io ss) (wb_sz wb) = (w, io)" by fastforce
  let ?s0 = "ss\<lparr>ss_io := io\<rparr>"
  show ?case
  proof (cases w)
    case (Inr e)
    then show ?thesis using w 2(2) close_write_total [of ?s0 i e] by simp
  next
    case (Inl n)
    let ?s1 = "wire i (take n (wb_data wb)) ?s0"
    have "wb_list hi (ss_slot ?s1 i) = wb # wbs" using 2(3) by (simp add: wb_list_def split: if_splits)
    note d = at_slot [OF wb_done_at [OF this]]
    have "sk_type (ss_slot (wb_done i hi wb wbs ?s1) i) \<noteq> TYPE_RESERVE" using d 2(2) by simp
    then show ?thesis using 2(1) [OF w [symmetric] Inl refl] w Inl d by (auto simp: Let_def)
  qed
qed simp

lemma send_list_total:
  "sk_type (ss_slot ss i) \<noteq> TYPE_RESERVE \<Longrightarrow> sk_protocol (ss_slot ss i) = PROTOCOL_TCP \<Longrightarrow> send_list i hi ss \<noteq> None"
  using tcp_loop_total by (simp add: send_list_def send_list_tcp_def)

lemma send_finish_total:
  assumes "base_ok (ss_slot ss i)" "send_buffer_empty (ss_slot ss i)" "sk_type (ss_slot ss i) \<noteq> TYPE_RESERVE"
  shows "send_finish i ss \<noteq> None"
proof -
  have "sk_wb_size (ss_slot ss i) = 0" using assms(1,2) by (simp add: base_ok_def queued_def send_buffer_empty_def)
  then show ?thesis
    using assms force_close_total [of ss i]
    by (auto simp: send_finish_def Let_def split: prod.splits bool.splits)
qed

text \<open>An open TCP socket.\<close>

definition tcp_open :: "socket \<Rightarrow> bool" where
  "tcp_open s \<longleftrightarrow> \<not> idle_type (sk_type s) \<and> sk_protocol s = PROTOCOL_TCP"

lemma loop_tcp_open:
  assumes "at i (loop_step hi (- 1)) ss s1" "tcp_open (ss_slot ss i)"
  shows "tcp_open (ss_slot s1 i)"
  using at_slot [OF assms(1)] assms(2) by (auto simp: loop_step_def life_def tcp_open_def idle_type_def)

lemma send_low_total:
  assumes t: "tcp_open (ss_slot ss i)" and l: "loop_ok True (ss_slot ss i)" "sk_high (ss_slot ss i) = []" "sk_low (ss_slot ss i) \<noteq> []"
  shows "send_low i ss \<noteq> None"
proof -
  have n: "sk_type (ss_slot ss i) \<noteq> TYPE_RESERVE" "sk_type (ss_slot ss i) \<noteq> TYPE_INVALID" "sk_protocol (ss_slot ss i) = PROTOCOL_TCP"
    using t by (auto simp: tcp_open_def idle_type_def)
  obtain r s1 where s: "send_list i False ss = Some (r, s1)" using send_list_total n by fastforce
  have k: "loop_ok False (ss_slot s1 i)" "tcp_open (ss_slot s1 i)" if "r = - 1"
    using send_low_list [OF s n(2) _ l(2,3)] l(1) send_list_at [OF s n(2)] loop_tcp_open t that by (auto simp: send_ready_def)
  have raise: "raise_uncomplete i s1 \<noteq> None" if "r = - 1" "list_uncomplete s1 (sk_low (ss_slot s1 i))"
    using that k by (auto simp: raise_uncomplete_def list_uncomplete_def loop_ok_def Let_def split: list.splits)
  have fin: "send_finish i s1 \<noteq> None" if "r = - 1" "sk_low (ss_slot s1 i) = []"
    using that k by (intro send_finish_total) (auto simp: loop_ok_def send_buffer_empty_def tcp_open_def idle_type_def)
  show ?thesis using s raise fin by (auto simp: send_low_def)
qed

lemma send_buffer_total:
  assumes ok: "sock_ok (ss_slot ss i)" and t: "tcp_open (ss_slot ss i)"
    and o: "ss_inplace ss \<or> (\<forall>wb \<in> set (sk_low (ss_slot ss i)). \<not> is_object (wb_blob wb))"
  shows "send_buffer i ss \<noteq> None"
proof (cases "sk_locked (ss_slot ss i)")
  case False
  let ?s0 = "take_dw i ss"
  have d: "life (ss_slot ss i) (ss_slot ?s0 i)" "send_ready (ss_slot ?s0 i)" "sk_type (ss_slot ?s0 i) = sk_type (ss_slot ss i)"
    using at_slot [OF take_dw_at [of i ss]] ok by simp_all
  have n: "sk_type (ss_slot ?s0 i) \<noteq> TYPE_RESERVE" "sk_type (ss_slot ?s0 i) \<noteq> TYPE_INVALID"
    "sk_protocol (ss_slot ?s0 i) = PROTOCOL_TCP" and t0: "tcp_open (ss_slot ?s0 i)"
    using t d by (auto simp: tcp_open_def idle_type_def life_def)
  have l: "loop_ok True (ss_slot ?s0 i)" using d(2) t0 by (simp add: send_ready_def tcp_open_def)
  have low: "sk_low (ss_slot ?s0 i) = sk_low (ss_slot ss i)" and ip: "ss_inplace ?s0 = ss_inplace ss"
    by (auto simp: take_dw_def Let_def put_def split: option.splits)
  have "\<not> list_uncomplete ?s0 (sk_low (ss_slot ?s0 i))"
    using l o low ip by (auto simp: list_uncomplete_def loop_ok_def split: list.splits)
  moreover obtain r s1 where s: "send_list i True ?s0 = Some (r, s1)" using send_list_total n by fastforce
  have k: "loop_ok True (ss_slot s1 i)" "tcp_open (ss_slot s1 i)" if "r = - 1"
  proof -
    have "send_ready (ss_slot s1 i)" using send_list_ready [OF s n(2) d(2)] that by simp
    moreover show "tcp_open (ss_slot s1 i)" using send_list_at [OF s n(2)] loop_tcp_open t0 that by blast
    ultimately show "loop_ok True (ss_slot s1 i)" by (simp add: send_ready_def tcp_open_def)
  qed
  have "send_finish i s1 \<noteq> None" if "r = - 1" "sk_high (ss_slot s1 i) = []" "sk_low (ss_slot s1 i) = []"
    using that k by (intro send_finish_total) (auto simp: loop_ok_def send_buffer_empty_def tcp_open_def idle_type_def)
  moreover have "send_low i s1 \<noteq> None" if "r = - 1" "sk_high (ss_slot s1 i) = []" "sk_low (ss_slot s1 i) \<noteq> []"
    using send_low_total k that by blast
  ultimately show ?thesis using s False by (auto simp: send_buffer_def send_queues_def)
qed (simp add: send_buffer_def)

text \<open>
  An object of the user whose data are elsewhere, queued with low priority behind another buffer, fails
  the first assert of \<open>send_buffer_\<close>: \<open>list_uncomplete\<close> takes it for partly written.
\<close>

lemma low_object_aborts:
  assumes "sk_low (ss_slot ss i) = wb # wbs" "is_object (wb_blob wb)" "\<not> ss_inplace ss" "sk_dw_buffer (ss_slot ss i) = None"
    "\<not> sk_locked (ss_slot ss i)"
  shows "send_buffer i ss = None"
  using assms by (simp add: send_buffer_def send_queues_def take_dw_def list_uncomplete_def)

section \<open>One report per closed socket\<close>

text \<open>A part of a run in which a slot, once free, is not reserved again.\<close>

inductive run_keeping :: "nat \<Rightarrow> socket_server \<Rightarrow> socket_server \<Rightarrow> bool" where
  stop: "run_keeping j ss ss"
| poll: "run_keeping j a ss \<Longrightarrow> poll_step ss = Some (p, ss') \<Longrightarrow>
    (sk_type (ss_slot ss j) = TYPE_INVALID \<longrightarrow> sk_type (ss_slot ss' j) = TYPE_INVALID) \<Longrightarrow> run_keeping j a ss'"
| call: "run_keeping j a ss \<Longrightarrow> do_call c ss = Some (r, ss') \<Longrightarrow> \<not> early_close ss ss' \<Longrightarrow>
    (sk_type (ss_slot ss j) = TYPE_INVALID \<longrightarrow> sk_type (ss_slot ss' j) = TYPE_INVALID) \<Longrightarrow> run_keeping j a ss'"

lemma keeping_reading: "life s t \<Longrightarrow> \<not> reading s \<Longrightarrow> \<not> reading t"
  unfolding life_def reading_def by metis

lemma run_keeping_reading:
  "run_keeping j a ss \<Longrightarrow> sock_reach a \<Longrightarrow> \<not> reading (ss_slot a j) \<Longrightarrow> sock_reach ss \<and> \<not> reading (ss_slot ss j)"
proof (induction rule: run_keeping.induct)
  case (poll j a ss p ss')
  then have r: "sock_reach ss" "\<not> reading (ss_slot ss j)" by blast+
  have "slot_change j (ss_slot ss j) (ss_slot ss' j)"
    using poll_step_ok [OF poll(2) inv_timely [OF sockets.reach_inv [OF r(1)]]]
    by (auto simp: round_change_def slot_move_def split: if_splits)
  then have "\<not> reading (ss_slot ss' j)"
    using r(2) poll(3) keeping_reading by (auto simp: slot_change_def reading_def)
  then show ?case using reach_poll [OF r(1) poll(2)] by blast
next
  case (call j a ss c r ss')
  then have r: "sock_reach ss" "\<not> reading (ss_slot ss j)" by blast+
  have "\<not> reading (ss_slot ss' j)"
    using do_call_ok [OF call(2)] unfolding call_ok_def
  proof (elim disjE exE)
    assume "plain_call ss ss'"
    then show ?thesis using r(2) keeping_reading by (auto simp: plain_call_def slot_ok_step_def)
  next
    fix sid assume "reserving_call sid ss ss'"
    then show ?thesis using r(2) call(4) by (cases "j = hash_id sid") (auto simp: reserving_call_def reading_def)
  qed
  then show ?case using reach_call [OF r(1) call(2,3)] by blast
qed blast

section \<open>Opening\<close>

lemma new_fd_total:
  assumes "sk_type (ss_slot ss (hash_id sid)) = TYPE_RESERVE" "sock_ok (ss_slot ss (hash_id sid))"
  shows "new_fd sid fd protocol opaque reads ss \<noteq> None"
proof -
  obtain e s1 where p: "poll_op (PollAdd fd) ss = (e, s1)" by fastforce
  show ?thesis using assms p by (auto simp: new_fd_def Let_def sock_ok_def split: prod.splits)
qed

section \<open>Reserving\<close>

lemma next_id:
  assumes "unat a < 2 ^ 31"
  shows "unat (if sint ((a :: u32) + 1) < 0 then (a + 1) AND 0x7fffffff else a + 1) = (unat a + 1) mod 2 ^ 31"
proof -
  have u: "unat (a + 1) = unat a + 1" using assms by (simp add: unat_word_ariths)
  have m: "(0x7fffffff :: u32) = mask 31" by (simp add: mask_eq_exp_minus_1)
  have b: "sint (a + 1) < 0 \<longleftrightarrow> 2 ^ 31 \<le> unat (a + 1)"
  proof -
    have "sint (a + 1) < 0 \<longleftrightarrow> bit (a + 1) 31" using bit_last_iff [of "a + 1"] by simp
    also have "\<dots> \<longleftrightarrow> bit (unat (a + 1)) 31" by (simp add: bit_unsigned_iff)
    also have "\<dots> \<longleftrightarrow> odd (unat (a + 1) div 2 ^ 31)" by (simp only: bit_iff_odd)
    also have "\<dots> \<longleftrightarrow> 2 ^ 31 \<le> unat (a + 1)"
      using u assms by (cases "unat a + 1 = 2 ^ 31") (auto simp: div_less)
    finally show ?thesis .
  qed
  show ?thesis
  proof (cases "sint (a + 1) < 0")
    case True
    then have "unat a + 1 = 2 ^ 31" using b u assms by simp
    moreover have "unat ((a + 1) AND mask 31) = unat (a + 1) mod 2 ^ 31"
      by (simp only: unsigned_take_bit_eq take_bit_eq_mod [symmetric] flip: take_bit_eq_mask)
    ultimately show ?thesis using True u unfolding m by simp
  next
    case False
    then have "unat a + 1 < 2 ^ 31" using b u by simp
    then show ?thesis using False u by simp
  qed
qed

lemma sint_unat: "unat (a :: u32) < 2 ^ 31 \<Longrightarrow> sint a = int (unat a)"
proof -
  assume a: "unat a < 2 ^ 31"
  have "bit a 31 = bit (unat a) 31" by (simp add: bit_unsigned_iff)
  then have "\<not> bit a 31" using a by (simp add: bit_iff_odd [of "unat a"])
  then have "\<not> bit (uint a) 31" by (simp add: bit_unsigned_iff)
  then have "signed_take_bit 31 (uint a) = take_bit 31 (uint a)" by (rule signed_take_bit_eq_if_positive)
  also have "\<dots> = uint a"
  proof (rule take_bit_int_eq_self)
    have "int (unat a) < int (2 ^ 31)" using a by (simp only: of_nat_less_iff)
    then show "uint a < 2 ^ 31" by simp
  qed simp
  finally show "sint a = int (unat a)" by (simp add: sint_uint)
qed

text \<open>The \<open>k\<close>-th try of \<open>reserve_id\<close> looks at slot \<open>alloc_id + k\<close>, modulo the number of slots.\<close>

lemma reserve_loop_fails:
  assumes "reserve_loop n ss = (- 1, ss')" "unat (ss_alloc_id ss) < 2 ^ 31"
  shows "\<forall>k < n. sk_type (ss_slot ss ((unat (ss_alloc_id ss) + k + 1) mod MAX_SOCKET)) \<noteq> TYPE_INVALID"
  using assms
proof (induction n arbitrary: ss)
  case (Suc n)
  define a where "a = ss_alloc_id ss"
  define b where "b = (if sint (a + 1) < 0 then (a + 1) AND 0x7fffffff else a + 1)"
  let ?s1 = "ss\<lparr>ss_alloc_id := b\<rparr>"
  have "unat a < 2 ^ 31" using Suc.prems(2) by (simp add: a_def)
  then have ub: "unat b = (unat a + 1) mod 2 ^ 31" unfolding b_def by (rule next_id)
  then have lt: "unat b < 2 ^ 31" by simp
  have h: "hash_id (sint b) = (unat a + 1) mod MAX_SOCKET"
    using sint_unat [OF lt] ub by (simp add: hash_id_def MAX_SOCKET_def nat_mod_distrib mod_mod_cancel flip: of_nat_mod)
  have step: "\<exists>x. reserve_loop (Suc n) ss =
      (if sk_type (ss_slot ss (hash_id (sint b))) = TYPE_INVALID then (sint b, x) else reserve_loop n ?s1)"
    by (simp only: reserve_loop.simps Let_def flip: a_def b_def) auto
  have busy: "sk_type (ss_slot ss (hash_id (sint b))) \<noteq> TYPE_INVALID"
  proof
    assume "sk_type (ss_slot ss (hash_id (sint b))) = TYPE_INVALID"
    then have "sint b = - 1" using Suc.prems(1) step by auto
    then show False using sint_unat [OF lt] by linarith
  qed
  then have "reserve_loop n ?s1 = (- 1, ss')" using Suc.prems(1) step by simp
  then have ih: "\<forall>k < n. sk_type (ss_slot ss ((unat b + k + 1) mod MAX_SOCKET)) \<noteq> TYPE_INVALID"
    using Suc.IH [of ?s1] lt by simp
  have shift: "(unat b + k + 1) mod MAX_SOCKET = (unat a + Suc k + 1) mod MAX_SOCKET" for k
  proof -
    have m: "unat b mod MAX_SOCKET = (unat a + 1) mod MAX_SOCKET" unfolding ub by (rule mod_mod_cancel) (simp add: MAX_SOCKET_def)
    have "(unat b + k + 1) mod MAX_SOCKET = (unat b mod MAX_SOCKET + (k + 1)) mod MAX_SOCKET"
      by (simp only: mod_add_left_eq add.assoc)
    also have "\<dots> = (unat a + 1 + (k + 1)) mod MAX_SOCKET" unfolding m by (simp only: mod_add_left_eq)
    finally show ?thesis by (simp add: ac_simps)
  qed
  show ?case
  proof (intro allI impI)
    fix k assume "k < Suc n"
    then show "sk_type (ss_slot ss ((unat (ss_alloc_id ss) + k + 1) mod MAX_SOCKET)) \<noteq> TYPE_INVALID"
      using busy h ih shift by (cases k) (auto simp: a_def)
  qed
qed simp

end
