(* ===== verification/SocketFlow.thy ===== *)
theory SocketFlow
  imports SocketRun
begin

text \<open>
  What writing the queues of a TCP socket does when the kernel reports no error other than EAGAIN
  and EINTR: bytes only move from the queues to the wire, in order, and buffers leave the queues
  from the front (\<open>flow\<close>).
\<close>

section \<open>Bytes sent and to send\<close>

definition calm :: "answer list \<Rightarrow> bool" where
  "calm io \<longleftrightarrow> (\<forall>e. Fail e \<in> set io \<longrightarrow> e = EINTR \<or> e = EAGAIN)"

fun sent_bytes :: "int \<Rightarrow> sock_out list \<Rightarrow> bytes" where
  "sent_bytes fd [] = []"
| "sent_bytes fd (Wire f b # outs) = (if f = fd then b @ sent_bytes fd outs else sent_bytes fd outs)"
| "sent_bytes fd (v # outs) = sent_bytes fd outs"

definition wired :: "int \<Rightarrow> socket_server \<Rightarrow> bytes" where
  "wired fd ss = sent_bytes fd (ss_out ss)"

definition to_send :: "write_buffer list \<Rightarrow> bytes" where
  "to_send wbs = concat (map wb_data wbs)"

lemma to_send_simps [simp]: "to_send [] = []" "to_send (wb # wbs) = wb_data wb @ to_send wbs"
  "to_send (xs @ ys) = to_send xs @ to_send ys"
  by (simp_all add: to_send_def)

lemma sent_bytes_append [simp]: "sent_bytes fd (xs @ ys) = sent_bytes fd xs @ sent_bytes fd ys"
  by (induction fd xs rule: sent_bytes.induct) auto

fun silent :: "sock_out \<Rightarrow> bool" where
  "silent (Wire f b) = False"
| "silent v = True"

lemma sent_bytes_silent: "list_all silent outs \<Longrightarrow> sent_bytes fd outs = []"
  by (induction fd outs rule: sent_bytes.induct) auto

lemma wired_simps [simp]:
  "list_all silent outs \<Longrightarrow> wired fd (emit outs ss) = wired fd ss"
  "wired fd (put i s ss) = wired fd ss" "wired fd (ss\<lparr>ss_io := io\<rparr>) = wired fd ss"
  "wired fd (ss\<lparr>ss_poll := p\<rparr>) = wired fd ss" "wired fd (ss\<lparr>ss_pipe := q\<rparr>) = wired fd ss"
  "wired fd (set_result a b c d ss) = wired fd ss" "wired fd (stat_write i n ss) = wired fd ss"
  "wired fd (wire i w ss) = wired fd ss @ (if sk_fd (ss_slot ss i) = fd then w else [])"
  by (simp_all add: wired_def emit_def put_def set_result_def stat_write_def wire_def sent_bytes_silent)

lemma io_simps [simp]:
  "ss_io (emit outs ss) = ss_io ss" "ss_io (put i s ss) = ss_io ss" "ss_io (set_result a b c d ss) = ss_io ss"
  "ss_io (stat_write i n ss) = ss_io ss" "ss_io (wire i w ss) = ss_io ss"
  by (simp_all add: emit_def put_def set_result_def stat_write_def wire_def)

section \<open>The flow\<close>

text \<open>What does not change.\<close>

definition fixed :: "socket \<Rightarrow> socket \<Rightarrow> bool" where
  "fixed s t \<longleftrightarrow> sk_type t = sk_type s \<and> sk_protocol t = sk_protocol s \<and> sk_id t = sk_id s \<and> sk_fd t = sk_fd s \<and>
     sk_closing t = sk_closing s \<and> sk_sending t = sk_sending s \<and> sk_locked t = sk_locked s \<and>
     sk_udpconnecting t = sk_udpconnecting s \<and> sk_dw_buffer t = sk_dw_buffer s"

lemma fixed_refl [simp]: "fixed s s"
  by (simp add: fixed_def)

lemma fixed_trans: "fixed s t \<Longrightarrow> fixed t u \<Longrightarrow> fixed s u"
  by (simp add: fixed_def)


definition flow :: "nat \<Rightarrow> socket_server \<Rightarrow> socket_server \<Rightarrow> bool" where
  "flow i ss ss' \<longleftrightarrow> (let s = ss_slot ss i; t = ss_slot ss' i in
     env ss' = env ss \<and> fixed s t \<and> calm (ss_io ss') \<and>
     wired (sk_fd s) ss' @ to_send (sk_high t @ sk_low t) = wired (sk_fd s) ss @ to_send (sk_high s @ sk_low s) \<and>
     (\<exists>k \<le> length (sk_high s @ sk_low s).
        map wb_blob (sk_high t @ sk_low t) = drop k (map wb_blob (sk_high s @ sk_low s))) \<and>
     length (sk_low t) \<le> length (sk_low s) \<and>
     (sk_high t @ sk_low t \<noteq> [] \<longrightarrow> sk_writing t = sk_writing s))"

lemma flow_refl: "calm (ss_io ss) \<Longrightarrow> flow i ss ss"
  by (auto simp: flow_def Let_def intro: exI [of _ 0])

lemma flow_trans:
  assumes "flow i a b" "flow i b c"
  shows "flow i a c"
proof -
  define qa qb qc where q: "qa = sk_high (ss_slot a i) @ sk_low (ss_slot a i)"
    "qb = sk_high (ss_slot b i) @ sk_low (ss_slot b i)" "qc = sk_high (ss_slot c i) @ sk_low (ss_slot c i)"
  note 1 = assms(1) [unfolded flow_def Let_def q [symmetric]] and 2 = assms(2) [unfolded flow_def Let_def q [symmetric]]
  obtain k where k: "k \<le> length qa" "map wb_blob qb = drop k (map wb_blob qa)" using 1 by blast
  obtain l where l: "l \<le> length qb" "map wb_blob qc = drop l (map wb_blob qb)" using 2 by blast
  have lb: "length qb = length qa - k" using arg_cong [OF k(2), of length] by simp
  have d: "map wb_blob qc = drop (l + k) (map wb_blob qa)" "l + k \<le> length qa" using k l lb by (simp_all add: add.commute)
  have e: "qc \<noteq> [] \<Longrightarrow> qb \<noteq> []" using l(2) by auto
  have f: "sk_fd (ss_slot b i) = sk_fd (ss_slot a i)" using 1 by (simp add: fixed_def)
  show ?thesis unfolding flow_def Let_def q [symmetric]
  proof (intro conjI)
    show "env c = env a" using 1 2 by simp
    show "fixed (ss_slot a i) (ss_slot c i)" using 1 2 fixed_trans by blast
    show "calm (ss_io c)" using 2 by simp
    show "wired (sk_fd (ss_slot a i)) c @ to_send qc = wired (sk_fd (ss_slot a i)) a @ to_send qa" using 1 2 f by simp
    show "\<exists>k \<le> length qa. map wb_blob qc = drop k (map wb_blob qa)" using d by blast
    show "length (sk_low (ss_slot c i)) \<le> length (sk_low (ss_slot a i))" using 1 2 by simp
    show "qc \<noteq> [] \<longrightarrow> sk_writing (ss_slot c i) = sk_writing (ss_slot a i)" using 1 2 e by simp
  qed
qed

section \<open>One pass\<close>

lemma write_retry_calm:
  "write_retry io n = (r, io') \<Longrightarrow> calm io \<Longrightarrow> calm io' \<and> (\<forall>e. r = Inr e \<longrightarrow> e = EAGAIN)"
proof (induction io n rule: write_retry.induct)
  case (2 a as sz)
  then show ?case by (cases a) (auto simp: calm_def split: if_splits)
qed (auto simp: calm_def)

lemma tcp_loop_flow:
  "tcp_loop wbs i hi ss = Some (r, ss') \<Longrightarrow> wb_list hi (ss_slot ss i) = wbs \<Longrightarrow> list_all wb_ok wbs \<Longrightarrow> calm (ss_io ss) \<Longrightarrow>
     (hi \<or> sk_high (ss_slot ss i) = []) \<Longrightarrow>
     r = - 1 \<and> flow i ss ss' \<and> wb_list (\<not> hi) (ss_slot ss' i) = wb_list (\<not> hi) (ss_slot ss i)"
proof (induction wbs i hi ss rule: tcp_loop.induct)
  case (1 i hi ss)
  then show ?case using flow_refl by simp
next
  case (2 wb wbs i hi ss)
  let ?s = "ss_slot ss i"
  obtain w io where w: "write_retry (ss_io ss) (wb_sz wb) = (w, io)" by fastforce
  have calm: "calm io" "\<And>e. w = Inr e \<Longrightarrow> e = EAGAIN" using write_retry_calm [OF w] 2(5) by auto
  show ?case
  proof (cases w)
    case (Inr e)
    then have "r = - 1" "ss' = ss\<lparr>ss_io := io\<rparr>" using 2(2) w calm(2) by auto
    then show ?thesis using calm(1) by (auto simp: flow_def Let_def env_def wired_def intro: exI [of _ 0])
  next
    case (Inl n)
    let ?s1 = "wire i (take n (wb_data wb)) (ss\<lparr>ss_io := io\<rparr>)"
    have ok: "length (wb_data wb) = wb_sz wb" using 2(4) by (auto simp: wb_ok_def wb_data_def)
    show ?thesis
    proof (cases "n = wb_sz wb")
      case False
      have eq: "r = - 1" "ss' = wb_partial i hi n wb wbs ?s1" using 2(2) w Inl False by (auto simp: Let_def)
      have data: "wb_data (wb\<lparr>wb_off := wb_off wb + n, wb_sz := wb_sz wb - n\<rparr>) = drop n (wb_data wb)"
        by (simp add: wb_data_def add.commute)
      have "flow i ss ss'" using eq(2) 2(3,6) calm(1) data
        by (cases hi) (auto simp: flow_def Let_def wb_partial_def wb_list_def set_wb_list_def fixed_def wired_def [symmetric]
            intro: exI [of _ 0])
      then show ?thesis using eq by (cases hi) (simp_all add: wb_partial_def Let_def wb_list_def set_wb_list_def)
    next
      case True
      let ?s2 = "wb_done i hi wb wbs ?s1"
      have step: "tcp_loop wbs i hi ?s2 = Some (r, ss')" using 2(2) w Inl True by (simp add: Let_def)
      have f: "flow i ss ?s2" using 2(3,6) calm(1) True ok
        by (cases hi) (auto simp: flow_def Let_def wb_done_def wb_list_def set_wb_list_def fixed_def intro: exI [of _ 1])
      have l: "wb_list hi (ss_slot ?s2 i) = wbs" "wb_list (\<not> hi) (ss_slot ?s2 i) = wb_list (\<not> hi) ?s"
        "hi \<or> sk_high (ss_slot ?s2 i) = []"
        using 2(6) by (cases hi; simp add: wb_done_def Let_def wb_list_def set_wb_list_def)+
      have "r = - 1 \<and> flow i ?s2 ss' \<and> wb_list (\<not> hi) (ss_slot ss' i) = wb_list (\<not> hi) (ss_slot ?s2 i)"
        using 2(1) [OF w [symmetric] Inl refl _ step] True l 2(4) f by (simp add: flow_def Let_def)
      then show ?thesis using flow_trans [OF f] l(2) by simp
    qed
  qed
qed

section \<open>The whole of \<open>send_buffer\<close>\<close>

lemma enable_write_wired:
  assumes "enable_write i b ss = (e, ss')"
  shows "wired fd ss' = wired fd ss" "ss_io ss' = ss_io ss"
  using assms by (auto simp: enable_write_def Let_def poll_op_def split: if_splits list.splits)

lemma report_error_wired:
  assumes "report_error i err ss = (r, ss')"
  shows "wired fd ss' = wired fd ss" "ss_io ss' = ss_io ss" "ss_slot ss' = ss_slot ss" "env ss' = env ss"
  using assms by (auto simp: report_error_def Let_def)

lemma send_list_flow:
  assumes "send_list i hi ss = Some (r, ss')" "sk_protocol (ss_slot ss i) = PROTOCOL_TCP"
    "list_all wb_ok (sk_high (ss_slot ss i) @ sk_low (ss_slot ss i))" "calm (ss_io ss)" "hi \<or> sk_high (ss_slot ss i) = []"
  shows "r = - 1 \<and> flow i ss ss' \<and> wb_list (\<not> hi) (ss_slot ss' i) = wb_list (\<not> hi) (ss_slot ss i)"
proof -
  have "tcp_loop (wb_list hi (ss_slot ss i)) i hi ss = Some (r, ss')"
    using assms(1,2) by (simp add: send_list_def send_list_tcp_def)
  moreover have "list_all wb_ok (wb_list hi (ss_slot ss i))" using assms(3) by (simp add: wb_list_def)
  ultimately show ?thesis using tcp_loop_flow assms(4,5) by blast
qed

lemma send_finish_flow:
  assumes "send_finish i ss = Some (r, ss')" "\<not> sk_closing (ss_slot ss i)" "calm (ss_io ss)"
  shows "flow i ss ss'"
proof -
  have q: "sk_high (ss_slot ss i) = []" "sk_low (ss_slot ss i) = []"
    using assms(1) by (simp_all add: send_finish_def send_buffer_empty_def split: if_splits)
  obtain e s1 where e: "enable_write i False ss = (e, s1)" by fastforce
  have s1: "flow i ss s1" using enable_write_slot [OF e] enable_write_wired [OF e] q assms(3)
    by (auto simp: flow_def Let_def fixed_def)
  have "flow i s1 ss'"
    using assms(1,2) e s1 q enable_write_slot [OF e]
    by (cases e) (auto simp: send_finish_def Let_def flow_def fixed_def report_error_def split: if_splits)
  then show ?thesis by (rule flow_trans [OF s1])
qed

lemma raise_flow: "raise_uncomplete i ss = Some ss' \<Longrightarrow> calm (ss_io ss) \<Longrightarrow> flow i ss ss'"
  by (auto simp: raise_uncomplete_def Let_def flow_def fixed_def intro!: exI [of _ 0] split: list.splits if_splits)

text \<open>The socket fit for it.\<close>

definition plain_tcp :: "socket \<Rightarrow> bool" where
  "plain_tcp s \<longleftrightarrow> tcp_open s \<and> \<not> sk_closing s"

lemma flow_plain: "flow i ss ss' \<Longrightarrow> plain_tcp (ss_slot ss i) \<Longrightarrow> plain_tcp (ss_slot ss' i)"
  by (simp add: flow_def fixed_def plain_tcp_def tcp_open_def Let_def)

lemma flow_calm: "flow i ss ss' \<Longrightarrow> calm (ss_io ss')"
  by (simp add: flow_def Let_def)

lemma send_low_flow:
  assumes "send_low i ss = Some (r, ss')" "plain_tcp (ss_slot ss i)" "calm (ss_io ss)"
    "list_all wb_ok (sk_low (ss_slot ss i))" "sk_high (ss_slot ss i) = []"
  shows "flow i ss ss'"
proof -
  obtain ret s1 where s: "send_list i False ss = Some (ret, s1)"
    using assms(1) by (cases "send_list i False ss") (auto simp: send_low_def)
  have f: "ret = - 1" "flow i ss s1"
    using send_list_flow [OF s] assms(2-5) by (simp_all add: plain_tcp_def tcp_open_def)
  note c = flow_calm [OF f(2)] flow_plain [OF f(2) assms(2)]
  consider "raise_uncomplete i s1 = Some ss'" | "ss' = s1" | "send_finish i s1 = Some (r, ss')"
    using assms(1) s f(1) by (auto simp: send_low_def bind_eq_Some_conv split: if_splits)
  then have "flow i s1 ss'"
  proof cases
    case 1 then show ?thesis using raise_flow c by blast
  next
    case 2 then show ?thesis using flow_refl c by blast
  next
    case 3 then show ?thesis using send_finish_flow c by (simp add: plain_tcp_def)
  qed
  then show ?thesis by (rule flow_trans [OF f(2)])
qed

lemma send_queues_flow:
  assumes "send_queues i ss = Some (r, ss')" "plain_tcp (ss_slot ss i)" "calm (ss_io ss)"
    "list_all wb_ok (sk_high (ss_slot ss i) @ sk_low (ss_slot ss i))"
  shows "flow i ss ss'"
proof -
  obtain ret s1 where s: "send_list i True ss = Some (ret, s1)"
    using assms(1) by (cases "send_list i True ss") (auto simp: send_queues_def split: if_splits)
  have f: "ret = - 1" "flow i ss s1" "sk_low (ss_slot s1 i) = sk_low (ss_slot ss i)"
    using send_list_flow [OF s] assms(2-4) by (simp_all add: plain_tcp_def tcp_open_def wb_list_def)
  note c = flow_calm [OF f(2)] flow_plain [OF f(2) assms(2)]
  consider "ss' = s1" | "send_finish i s1 = Some (r, ss')" | "send_low i s1 = Some (r, ss')" "sk_high (ss_slot s1 i) = []"
    using assms(1) s f(1) by (auto simp: send_queues_def split: if_splits)
  then have "flow i s1 ss'"
  proof cases
    case 1 then show ?thesis using flow_refl c by blast
  next
    case 2 then show ?thesis using send_finish_flow c by (simp add: plain_tcp_def)
  next
    case 3 then show ?thesis using send_low_flow c f(3) assms(4) by simp
  qed
  then show ?thesis by (rule flow_trans [OF f(2)])
qed

text \<open>What a direct write has left, as a queue.\<close>

definition dw_list :: "socket \<Rightarrow> write_buffer list" where
  "dw_list s = (case sk_dw_buffer s of None \<Rightarrow> []
     | Some b \<Rightarrow> [\<lparr>wb_blob = b, wb_off = sk_dw_offset s, wb_sz = length (blob_bytes b) - sk_dw_offset s, wb_addr = None\<rparr>])"

definition all_queued :: "socket \<Rightarrow> write_buffer list" where
  "all_queued s = dw_list s @ sk_high s @ sk_low s"

lemma take_dw_slot:
  "\<exists>n. ss_slot (take_dw i ss) i =
     (ss_slot ss i)\<lparr>sk_wb_size := n, sk_high := dw_list (ss_slot ss i) @ sk_high (ss_slot ss i), sk_dw_buffer := None\<rparr>"
proof (cases "sk_dw_buffer (ss_slot ss i)")
  case None
  then show ?thesis by (intro exI [of _ "sk_wb_size (ss_slot ss i)"]) (simp add: take_dw_def dw_list_def)
next
  case (Some b)
  then show ?thesis by (simp add: take_dw_def Let_def dw_list_def) blast
qed

lemma take_dw_other [simp]:
  "env (take_dw i ss) = env ss" "ss_io (take_dw i ss) = ss_io ss" "wired fd (take_dw i ss) = wired fd ss"
  by (simp_all add: take_dw_def Let_def split: option.splits)

lemma send_buffer_flow:
  assumes "send_buffer i ss = Some (r, ss')" "plain_tcp (ss_slot ss i)" "calm (ss_io ss)" "sock_ok (ss_slot ss i)"
    and "\<not> sk_locked (ss_slot ss i)"
  shows "env ss' = env ss" "calm (ss_io ss')"
    "fixed ((ss_slot ss i)\<lparr>sk_dw_buffer := None\<rparr>) (ss_slot ss' i)"
    "wired (sk_fd (ss_slot ss i)) ss' @ to_send (all_queued (ss_slot ss' i)) =
       wired (sk_fd (ss_slot ss i)) ss @ to_send (all_queued (ss_slot ss i))"
    "\<exists>k \<le> length (all_queued (ss_slot ss i)).
       map wb_blob (all_queued (ss_slot ss' i)) = drop k (map wb_blob (all_queued (ss_slot ss i)))"
    "length (sk_low (ss_slot ss' i)) \<le> length (sk_low (ss_slot ss i))"
    "sk_high (ss_slot ss' i) @ sk_low (ss_slot ss' i) \<noteq> [] \<longrightarrow> sk_writing (ss_slot ss' i) = sk_writing (ss_slot ss i)"
proof -
  let ?s = "ss_slot ss i" and ?d = "take_dw i ss"
  obtain n where d: "ss_slot ?d i = ?s\<lparr>sk_wb_size := n, sk_high := dw_list ?s @ sk_high ?s, sk_dw_buffer := None\<rparr>"
    using take_dw_slot by blast
  have "\<not> idle_type (sk_type ?s)" using assms(2) by (simp add: plain_tcp_def tcp_open_def)
  then have "list_all wb_ok (dw_list ?s @ sk_high ?s @ sk_low ?s)"
    using assms(4) by (auto simp: sock_ok_def base_ok_def dw_list_def wb_ok_def split: option.splits)
  then have f: "flow i ?d ss'"
    using send_queues_flow [of i ?d r ss'] assms d
    by (simp add: send_buffer_def plain_tcp_def tcp_open_def)
  have none: "sk_dw_buffer (ss_slot ss' i) = None" using f d by (simp add: flow_def fixed_def Let_def)
  then have q: "all_queued (ss_slot ss' i) = sk_high (ss_slot ss' i) @ sk_low (ss_slot ss' i)"
    by (simp add: all_queued_def dw_list_def)
  note g = f [unfolded flow_def Let_def d]
  show "env ss' = env ss" "calm (ss_io ss')" using g by simp_all
  show "fixed (?s\<lparr>sk_dw_buffer := None\<rparr>) (ss_slot ss' i)" using g by (simp add: fixed_def)
  show "wired (sk_fd ?s) ss' @ to_send (all_queued (ss_slot ss' i)) = wired (sk_fd ?s) ss @ to_send (all_queued ?s)"
    using g unfolding q by (simp add: all_queued_def)
  show "\<exists>k \<le> length (all_queued ?s). map wb_blob (all_queued (ss_slot ss' i)) = drop k (map wb_blob (all_queued ?s))"
    using g unfolding q by (simp add: all_queued_def)
  show "length (sk_low (ss_slot ss' i)) \<le> length (sk_low ?s)" using g by simp
  show "sk_high (ss_slot ss' i) @ sk_low (ss_slot ss' i) \<noteq> [] \<longrightarrow> sk_writing (ss_slot ss' i) = sk_writing ?s" using g by simp
qed

end
