(* ===== verification/SocketRace.thy ===== *)
theory SocketRace
  imports SocketFlow "HOL-Library.Multiset"
begin

text \<open>
  \<open>skynet/skynet-src/socket_server.c\<close>: services that write to one TCP socket at the same time, and the
  socket thread. A sender looks at the socket without its lock, field by field, tries the lock, looks
  again, writes, leaves what the kernel has not taken in \<open>dw_buffer\<close>, unlocks and tells the socket
  thread; or it counts its message in \<open>sending\<close> and queues it through the pipe. The socket thread queues
  a message and takes it off the count, enables the write event, and writes the queues under the
  lock. Each access to what they share is a step; the steps are those of the functions of
  \<open>SocketApi\<close> and \<open>SocketCmd\<close>. The socket stays connected and the kernel reports no error other than
  EAGAIN and EINTR.
\<close>

section \<open>The interleaving\<close>

text \<open>A sender, its priority (\<open>True\<close> is high), the bytes.\<close>

type_synonym sending = "nat \<times> bool \<times> bytes"

text \<open>
  Where a sender is: the test of \<open>can_direct_write\<close> it does next (\<open>Looking\<close>, \<open>True\<close>: under the lock), trying the
  lock, writing, unlocking (\<open>True\<close>: with bytes left), telling the socket thread; or giving up the lock,
  counting its message, writing it into the pipe.
\<close>

datatype sender = Ready | Looking bool nat bytes | Locking bytes | Writing bytes | Unlocking bool | Telling
| Giving_up bytes | Counting bool bytes | Pushing bool bytes

text \<open>
  The last fields record, for the properties, which messages are sent, left by a direct write, queued, in
  the pipe, and the order in which they were handed over; no step looks at them.
\<close>

record race =
  rc_server :: socket_server
  rc_pc :: "nat \<Rightarrow> sender"
  rc_dec :: bool \<comment> \<open>the socket thread is about to take a message off the count\<close>
  rc_sent :: "sending list"
  rc_dw :: "sending list"
  rc_high :: "sending list"
  rc_low :: "sending list"
  rc_pipe :: "sending list"
  rc_log :: "sending list"

definition memory_buffer :: "int \<Rightarrow> bytes \<Rightarrow> socket_sendbuffer" where
  "memory_buffer sid m = \<lparr>sb_id = sid, sb_type = SOCKET_BUFFER_MEMORY, sb_buffer = m\<rparr>"

text \<open>What \<open>can_direct_write\<close> reads of a connected socket, in its order.\<close>

definition direct_test :: "nat \<Rightarrow> socket \<Rightarrow> bool" where
  "direct_test n s = (if n = 0 then sk_high s = [] else if n = 1 then sk_low s = []
     else if n = 2 then sk_dw_buffer s = None else sk_sending s AND 0xffff = 0)"

definition goto :: "nat \<Rightarrow> sender \<Rightarrow> race \<Rightarrow> race" where
  "goto t p r = r\<lparr>rc_pc := (rc_pc r)(t := p)\<rparr>"

definition with_server :: "socket_server \<Rightarrow> race \<Rightarrow> race" where
  "with_server ss r = r\<lparr>rc_server := ss\<rparr>"

text \<open>The records after a message was queued by the socket thread, and after the queues were written.\<close>

definition queue_record :: "bool \<Rightarrow> race \<Rightarrow> race" where
  "queue_record to_high r =
     (if to_high then r\<lparr>rc_high := rc_high r @ take 1 (rc_pipe r), rc_pipe := tl (rc_pipe r)\<rparr>
      else r\<lparr>rc_low := rc_low r @ take 1 (rc_pipe r), rc_pipe := tl (rc_pipe r)\<rparr>)"

definition write_record :: "socket \<Rightarrow> race \<Rightarrow> race" where
  "write_record s r =
     (let q = rc_dw r @ rc_high r @ rc_low r; d = length (dw_list s); h = length (sk_high s);
          k = length q - (d + h + length (sk_low s))
      in r\<lparr>rc_sent := rc_sent r @ take k q, rc_dw := take d (drop k q), rc_high := take h (drop (k + d) q),
           rc_low := drop (k + d + h) q\<rparr>)"

definition direct_record :: "nat \<Rightarrow> bytes \<Rightarrow> bool \<Rightarrow> race \<Rightarrow> race" where
  "direct_record t m left r =
     (if left then r\<lparr>rc_dw := [(t, True, m)], rc_log := rc_log r @ [(t, True, m)]\<rparr>
      else r\<lparr>rc_sent := rc_sent r @ [(t, True, m)], rc_log := rc_log r @ [(t, True, m)]\<rparr>)"

definition push_record :: "sending \<Rightarrow> race \<Rightarrow> race" where
  "push_record x r = r\<lparr>rc_pipe := rc_pipe r @ [x], rc_log := rc_log r @ [x]\<rparr>"

definition pop_pipe :: "socket_server \<Rightarrow> socket_server" where
  "pop_pipe ss = ss\<lparr>ss_pipe := tl (ss_pipe ss)\<rparr>"

inductive race_step :: "int \<Rightarrow> race \<Rightarrow> race \<Rightarrow> bool" for sid where
  start_high: "rc_pc r t = Ready \<Longrightarrow> race_step sid r (goto t (Looking False 0 m) r)"
| start_low: "rc_pc r t = Ready \<Longrightarrow> race_step sid r (goto t (Counting False m) r)"
| look: "rc_pc r t = Looking again n m \<Longrightarrow> direct_test n (ss_slot (rc_server r) (hash_id sid)) \<Longrightarrow>
    race_step sid r (goto t (if n < 3 then Looking again (Suc n) m else if again then Writing m else Locking m) r)"
| refuse: "rc_pc r t = Looking again n m \<Longrightarrow> \<not> direct_test n (ss_slot (rc_server r) (hash_id sid)) \<Longrightarrow>
    race_step sid r (goto t (if again then Giving_up m else Counting True m) r)"
| lock: "rc_pc r t = Locking m \<Longrightarrow> \<not> sk_locked (ss_slot (rc_server r) (hash_id sid)) \<Longrightarrow>
    race_step sid r (goto t (Looking True 0 m) (with_server (set_locked (hash_id sid) True (rc_server r)) r))"
| busy: "rc_pc r t = Locking m \<Longrightarrow> sk_locked (ss_slot (rc_server r) (hash_id sid)) \<Longrightarrow>
    race_step sid r (goto t (Counting True m) r)"
| write_direct: "rc_pc r t = Writing m \<Longrightarrow> direct_write (hash_id sid) (memory_buffer sid m) (rc_server r) = ((ret, w), ss) \<Longrightarrow>
    race_step sid r (goto t (Unlocking w) (with_server ss (direct_record t m w r)))"
| unlock: "rc_pc r t = Unlocking w \<Longrightarrow>
    race_step sid r (goto t (if w then Telling else Ready) (with_server (set_locked (hash_id sid) False (rc_server r)) r))"
| give_up: "rc_pc r t = Giving_up m \<Longrightarrow>
    race_step sid r (goto t (Counting True m) (with_server (set_locked (hash_id sid) False (rc_server r)) r))"
| tell: "rc_pc r t = Telling \<Longrightarrow>
    race_step sid r (goto t Ready (with_server (send_request (ReqWrite sid) (rc_server r)) r))"
| count: "rc_pc r t = Counting hi m \<Longrightarrow> inc_sending_ref sid (ss_slot (rc_server r) (hash_id sid)) = Some s \<Longrightarrow>
    race_step sid r (goto t (Pushing hi m) (with_server (put (hash_id sid) s (rc_server r)) r))"
| push: "rc_pc r t = Pushing hi m \<Longrightarrow>
    race_step sid r (goto t Ready (with_server
      (send_request (ReqSend hi sid (clone_buffer (memory_buffer sid m))) (rc_server r)) (push_record (t, hi, m) r)))"
| take_send: "\<not> rc_dec r \<Longrightarrow> ss_pipe (rc_server r) = ReqSend hi sid b # qs \<Longrightarrow>
    send_socket sid b hi None (pop_pipe (rc_server r)) = (ret, ss) \<Longrightarrow>
    race_step sid r (with_server ss
      (queue_record (hi \<or> send_buffer_empty (ss_slot (rc_server r) (hash_id sid))) (r\<lparr>rc_dec := True\<rparr>)))"
| uncount: "rc_dec r \<Longrightarrow> dec_sending_ref sid (rc_server r) = Some ss \<Longrightarrow>
    race_step sid r (with_server ss (r\<lparr>rc_dec := False\<rparr>))"
| take_write: "\<not> rc_dec r \<Longrightarrow> ss_pipe (rc_server r) = ReqWrite sid # qs \<Longrightarrow>
    trigger_write sid (pop_pipe (rc_server r)) = (ret, ss) \<Longrightarrow> race_step sid r (with_server ss r)"
| event: "\<not> rc_dec r \<Longrightarrow> send_buffer (hash_id sid) (rc_server r) = Some (ret, ss) \<Longrightarrow>
    race_step sid r (with_server ss (write_record (ss_slot ss (hash_id sid)) r))"

definition steady :: "int \<Rightarrow> socket \<Rightarrow> bool" where
  "steady sid s \<longleftrightarrow> sk_type s = TYPE_CONNECTED \<and> sk_protocol s = PROTOCOL_TCP \<and> \<not> sk_closing s \<and> sk_id s = sid \<and>
     sk_udpconnecting s = 0"

text \<open>A connected socket with nothing sent yet and nothing to send.\<close>

definition race_init :: "int \<Rightarrow> race \<Rightarrow> bool" where
  "race_init sid r \<longleftrightarrow> (let ss = rc_server r; s = ss_slot ss (hash_id sid) in
     steady sid s \<and> sock_ok s \<and> send_buffer_empty s \<and> sk_dw_buffer s = None \<and> \<not> sk_locked s \<and>
     sk_sending s = push_bit 16 (id_tag16 sid) \<and> ss_pipe ss = [] \<and> calm (ss_io ss) \<and> wired (sk_fd s) ss = []) \<and>
   rc_pc r = (\<lambda>t. Ready) \<and> \<not> rc_dec r \<and>
   rc_sent r = [] \<and> rc_dw r = [] \<and> rc_high r = [] \<and> rc_low r = [] \<and> rc_pipe r = [] \<and> rc_log r = []"

section \<open>The steps are those of the calls\<close>

lemma direct_tests:
  "steady sid s \<Longrightarrow> can_direct_write s sid \<longleftrightarrow> (\<forall>n < 4. direct_test n s)"
  by (auto simp: can_direct_write_def nomore_sending_data_def send_buffer_empty_def steady_def direct_test_def
      type_defs numeral_eq_Suc All_less_Suc less_Suc_eq)

lemma goto_simps [simp]:
  "rc_server (goto t p r) = rc_server r" "rc_pc (goto t p r) = (rc_pc r)(t := p)" "rc_dec (goto t p r) = rc_dec r"
  "rc_sent (goto t p r) = rc_sent r" "rc_dw (goto t p r) = rc_dw r" "rc_high (goto t p r) = rc_high r"
  "rc_low (goto t p r) = rc_low r" "rc_pipe (goto t p r) = rc_pipe r" "rc_log (goto t p r) = rc_log r"
  by (simp_all add: goto_def)

lemma with_server_simps [simp]:
  "rc_server (with_server ss r) = ss" "rc_pc (with_server ss r) = rc_pc r" "rc_dec (with_server ss r) = rc_dec r"
  "rc_sent (with_server ss r) = rc_sent r" "rc_dw (with_server ss r) = rc_dw r" "rc_high (with_server ss r) = rc_high r"
  "rc_low (with_server ss r) = rc_low r" "rc_pipe (with_server ss r) = rc_pipe r" "rc_log (with_server ss r) = rc_log r"
  by (simp_all add: with_server_def)

lemma record_simps [simp]:
  "rc_server (queue_record b r) = rc_server r" "rc_pc (queue_record b r) = rc_pc r" "rc_dec (queue_record b r) = rc_dec r"
  "rc_server (write_record s r) = rc_server r" "rc_pc (write_record s r) = rc_pc r" "rc_dec (write_record s r) = rc_dec r"
  "rc_server (direct_record t m b r) = rc_server r" "rc_pc (direct_record t m b r) = (rc_pc r)"
  "rc_dec (direct_record t m b r) = rc_dec r"
  "rc_server (push_record x r) = rc_server r" "rc_pc (push_record x r) = rc_pc r" "rc_dec (push_record x r) = rc_dec r"
  by (simp_all add: queue_record_def write_record_def direct_record_def push_record_def Let_def)

section \<open>The count of messages\<close>

lemma tag_bound: "\<exists>k < 65536. id_tag16 sid = of_nat k"
  by (rule exI [of _ "nat (sid div 65536 mod 65536)"])
     (simp add: id_tag16_def MAX_SOCKET_def nat_less_iff of_nat_nat)

definition counted :: "int \<Rightarrow> nat \<Rightarrow> u64" where
  "counted sid n = push_bit 16 (id_tag16 sid) + of_nat n"

lemma counted_nat: "\<exists>k < 65536. counted sid n = of_nat (k * 65536 + n)"
proof -
  obtain k where "k < 65536" "id_tag16 sid = of_nat k" using tag_bound by blast
  then show ?thesis by (intro exI [of _ k]) (simp add: counted_def push_bit_eq_mult)
qed

lemma counted_low: "n < 65536 \<Longrightarrow> counted sid n AND 0xffff = of_nat n"
proof -
  assume n: "n < 65536"
  obtain k where k: "k < 65536" "counted sid n = of_nat (k * 65536 + n)" using counted_nat by blast
  have m: "(0xffff :: u64) = mask 16" by (simp add: mask_eq_exp_minus_1)
  have "counted sid n AND 0xffff = take_bit 16 (of_nat (k * 65536 + n))" unfolding m k(2) by (simp only: take_bit_eq_mask)
  also have "\<dots> = of_nat (take_bit 16 (k * 65536 + n))" by (simp only: take_bit_of_nat)
  also have "take_bit 16 (k * 65536 + n) = n" using n by (simp add: take_bit_eq_mod)
  finally show ?thesis .
qed

lemma counted_high: "n < 65536 \<Longrightarrow> drop_bit 16 (counted sid n) = id_tag16 sid"
proof -
  assume n: "n < 65536"
  obtain t where t: "t < 65536" "id_tag16 sid = of_nat t" using tag_bound by blast
  have c: "counted sid n = of_nat (t * 65536 + n)" using t by (simp add: counted_def push_bit_eq_mult)
  have u: "unat (of_nat (t * 65536 + n) :: u64) = t * 65536 + n" using t n by (simp only: unat_of_nat) simp
  have "unat (drop_bit 16 (counted sid n)) = t" unfolding c using n
    by (simp only: unat_drop_bit_eq u) (simp add: drop_bit_eq_div)
  then have "drop_bit 16 (counted sid n) = of_nat t" using t(1) by (simp only: word_unat_eq_iff unat_of_nat) simp
  then show ?thesis using t by simp
qed

lemma of_nat_zero: "n < 65536 \<Longrightarrow> (of_nat n :: u64) = 0 \<longleftrightarrow> n = 0"
  by (auto simp: word_of_nat_eq_0_iff dest: dvd_imp_le)

section \<open>What a step does to the socket\<close>

lemma sock_ok_simps [simp]:
  "sock_ok (s\<lparr>sk_locked := b\<rparr>) = sock_ok s" "sock_ok (s\<lparr>sk_sending := c\<rparr>) = sock_ok s" "sock_ok (s\<lparr>sk_writing := b\<rparr>) = sock_ok s"
  "sock_ok (s\<lparr>sk_nwrite := n, sk_wtime := w\<rparr>) = sock_ok s" "sock_ok (s\<lparr>sk_warn_size := z\<rparr>) = sock_ok s"
  by (auto simp: sock_ok_def base_ok_def queued_def cong: option.case_cong)

lemma write_once_calm:
  assumes "write_once n ss = (x, ss')"
  shows "calm (ss_io ss) \<Longrightarrow> calm (ss_io ss')" "wired fd ss' = wired fd ss" "\<And>k. x = Inl k \<Longrightarrow> k \<le> n"
  using assms by (auto simp: write_once_def next_io_def calm_def split: list.splits answer.splits)

lemma direct_write_effect:
  assumes "direct_write i (memory_buffer sid m) ss = ((ret, w), ss')" "sk_protocol (ss_slot ss i) = PROTOCOL_TCP" "calm (ss_io ss)"
  shows "\<exists>n \<le> length m. w = (n \<noteq> length m) \<and> calm (ss_io ss') \<and> env ss' = env ss \<and>
    wired (sk_fd (ss_slot ss i)) ss' = wired (sk_fd (ss_slot ss i)) ss @ take n m \<and>
    (\<exists>c d. ss_slot ss' i = (let s = (ss_slot ss i)\<lparr>sk_nwrite := c, sk_wtime := d\<rparr>
       in if w then s\<lparr>sk_dw_buffer := Some (Mem m), sk_dw_offset := n\<rparr> else s))"
proof -
  obtain x s1 where x: "write_once (length m) ss = (x, s1)" by fastforce
  have s1: "ss_slot s1 = ss_slot ss" "env s1 = env ss" using write_once_same [OF x] by (simp_all add: same_def)
  define n where "n = (case x of Inl n \<Rightarrow> n | Inr _ \<Rightarrow> 0)"
  have n: "n \<le> length m" using write_once_calm(3) [OF x] by (auto simp: n_def split: sum.splits)
  let ?w = "wire i (take n m) s1"
  have eq: "(ret, w, ss') = (if n = length m then (0, False, emit (free_buffer (memory_buffer sid m)) ?w)
      else (0, True, set_dw i (Mem m) n ?w))"
    using assms(1,2) x
    by (auto simp: direct_write_def memory_buffer_def clone_buffer_def Let_def n_def [symmetric] SOCKET_BUFFER_OBJECT_def
        SOCKET_BUFFER_MEMORY_def split: if_splits)
  have f: "list_all silent (free_buffer (memory_buffer sid m))" by (simp add: free_buffer_def)
  show ?thesis
    using eq n s1 write_once_calm(1,2) [OF x] assms(3) f
    by (intro exI [of _ n]) (auto simp: set_dw_def Let_def wired_def [symmetric] split: if_splits)
qed

lemma warn_size_effect:
  assumes "warn_size i ss = (r, ss')"
  shows "wired fd ss' = wired fd ss" "ss_io ss' = ss_io ss" "env ss' = env ss"
    "\<exists>z. ss_slot ss' i = (ss_slot ss i)\<lparr>sk_warn_size := z\<rparr>"
proof -
  show "wired fd ss' = wired fd ss" "ss_io ss' = ss_io ss" "env ss' = env ss"
    using assms by (auto simp: warn_size_def Let_def split: if_splits)
  have "ss_slot ss' i = (ss_slot ss i)\<lparr>sk_warn_size := sk_warn_size (ss_slot ss' i)\<rparr>"
    using assms by (auto simp: warn_size_def Let_def split: if_splits)
  then show "\<exists>z. ss_slot ss' i = (ss_slot ss i)\<lparr>sk_warn_size := z\<rparr>" by blast
qed

text \<open>The socket with a message queued; \<open>hi\<close> is the queue it went to.\<close>

definition queued_socket :: "bool \<Rightarrow> bytes \<Rightarrow> socket \<Rightarrow> socket \<Rightarrow> bool" where
  "queued_socket hi m s t \<longleftrightarrow>
     (\<exists>wb. wb_blob wb = Mem m \<and> wb_off wb = 0 \<and> wb_list hi t = wb_list hi s @ [wb]) \<and>
     wb_list (\<not> hi) t = wb_list (\<not> hi) s \<and> fixed s t \<and> sk_dw_offset t = sk_dw_offset s \<and>
     (if send_buffer_empty s then sk_writing t else sk_writing t = sk_writing s)"

lemma send_socket_effect:
  assumes "send_socket sid (Mem m) hi None ss = (r, ss')" "steady sid (ss_slot ss (hash_id sid))"
  shows "wired fd ss' = wired fd ss" "ss_io ss' = ss_io ss" "env ss' = env ss"
    "queued_socket (hi \<or> send_buffer_empty (ss_slot ss (hash_id sid))) m (ss_slot ss (hash_id sid)) (ss_slot ss' (hash_id sid))"
proof -
  let ?i = "hash_id sid" and ?s = "ss_slot ss (hash_id sid)"
  let ?a = "\<lambda>h. append_sendbuffer ?i h (Mem m) None ss"
  have live: "\<not> send_dropped ?s sid" "sk_type ?s \<noteq> TYPE_PLISTEN" "sk_type ?s \<noteq> TYPE_LISTEN" "sk_protocol ?s = PROTOCOL_TCP"
    using assms(2) by (auto simp: steady_def send_dropped_def type_defs)
  have a: "wired fd (?a h) = wired fd ss" "ss_io (?a h) = ss_io ss" "env (?a h) = env ss" for h
    by (simp_all add: append_sendbuffer_def Let_def)
  have as: "ss_slot (?a h) ?i = set_wb_list h (wb_list h ?s @ [\<lparr>wb_blob = Mem m, wb_off = 0, wb_sz = length m, wb_addr = None\<rparr>])
      (?s\<lparr>sk_wb_size := sk_wb_size ?s + int (length m)\<rparr>)" for h
    by (simp add: append_sendbuffer_def Let_def)
  have "wired fd ss' = wired fd ss \<and> ss_io ss' = ss_io ss \<and> env ss' = env ss \<and>
    queued_socket (hi \<or> send_buffer_empty ?s) m ?s (ss_slot ss' ?i)"
  proof (cases "send_buffer_empty ?s")
    case False
    then have w: "warn_size ?i (?a hi) = (r, ss')" using assms(1) live by (simp add: send_socket_def Let_def)
    obtain z where "ss_slot ss' ?i = (ss_slot (?a hi) ?i)\<lparr>sk_warn_size := z\<rparr>" using warn_size_effect(4) [OF w] by blast
    then have "queued_socket hi m ?s (ss_slot ss' ?i)" using False unfolding as queued_socket_def
      by (cases hi) (auto simp: set_wb_list_def wb_list_def fixed_def)
    then show ?thesis using warn_size_effect(1-3) [OF w] a False by simp
  next
    case True
    then have f: "append_first ?i True (Mem m) None ss = (r, ss')" using assms(1) live by (simp add: send_socket_def Let_def)
    obtain e s1 where e: "enable_write ?i True (?a True) = (e, s1)" by fastforce
    note es = enable_write_slot [OF e] enable_write_wired [OF e]
    have "\<exists>z. wired fd ss' = wired fd s1 \<and> ss_io ss' = ss_io s1 \<and> env ss' = env s1 \<and>
        ss_slot ss' ?i = (ss_slot s1 ?i)\<lparr>sk_warn_size := z\<rparr>"
    proof (cases e)
      case True
      then have "report_error ?i (RText (str ''enable write failed'')) s1 = (r, ss')" using f e by (simp add: append_first_def)
      then show ?thesis using report_error_wired [of ?i "RText (str ''enable write failed'')" s1 r ss']
        by (intro exI [of _ "sk_warn_size (ss_slot s1 ?i)"]) simp
    next
      case False
      then have "warn_size ?i s1 = (r, ss')" using f e by (simp add: append_first_def)
      then show ?thesis using warn_size_effect [of ?i s1 r ss'] by blast
    qed
    then obtain z where z: "wired fd ss' = wired fd s1" "ss_io ss' = ss_io s1" "env ss' = env s1"
      "ss_slot ss' ?i = (ss_slot s1 ?i)\<lparr>sk_warn_size := z\<rparr>" by blast
    then have "queued_socket True m ?s (ss_slot ss' ?i)" using True es as unfolding queued_socket_def
      by (auto simp: set_wb_list_def wb_list_def fixed_def)
    then show ?thesis using z es a True by simp
  qed
  then show "wired fd ss' = wired fd ss" "ss_io ss' = ss_io ss" "env ss' = env ss"
    "queued_socket (hi \<or> send_buffer_empty ?s) m ?s (ss_slot ss' ?i)" by auto
qed

lemma trigger_write_effect:
  assumes "trigger_write sid ss = (r, ss')" "steady sid (ss_slot ss (hash_id sid))"
  shows "wired fd ss' = wired fd ss" "ss_io ss' = ss_io ss" "env ss' = env ss"
    "ss_slot ss' (hash_id sid) = (ss_slot ss (hash_id sid))\<lparr>sk_writing := True\<rparr>"
proof -
  let ?i = "hash_id sid"
  obtain e s1 where e: "enable_write ?i True ss = (e, s1)" by fastforce
  have "\<not> socket_invalid (ss_slot ss ?i) sid" using assms(2) by (simp add: steady_def socket_invalid_def)
  then have "ss' = s1 \<or> report_error ?i (RText (str ''enable write failed'')) s1 = (r, ss')"
    using assms(1) e by (auto simp: trigger_write_def Let_def split: bool.splits)
  then show "wired fd ss' = wired fd ss" "ss_io ss' = ss_io ss" "env ss' = env ss"
    "ss_slot ss' ?i = (ss_slot ss ?i)\<lparr>sk_writing := True\<rparr>"
    using enable_write_slot [OF e] enable_write_wired [OF e] report_error_wired by (auto dest: report_error_wired)
qed

section \<open>The invariant\<close>

definition blobs :: "sending list \<Rightarrow> blob list" where
  "blobs xs = map (\<lambda>(t, hi, m). Mem m) xs"

definition texts :: "sending list \<Rightarrow> bytes" where
  "texts xs = concat (map (\<lambda>(t, hi, m). m) xs)"

text \<open>The messages of high priority of a sender.\<close>

definition own :: "nat \<Rightarrow> sending list \<Rightarrow> sending list" where
  "own t xs = filter (\<lambda>(u, hi, m). u = t \<and> hi) xs"

lemma list_simps [simp]:
  "blobs [] = []" "blobs (x # xs) = Mem (snd (snd x)) # blobs xs" "blobs (xs @ ys) = blobs xs @ blobs ys"
  "texts [] = []" "texts (x # xs) = snd (snd x) @ texts xs" "texts (xs @ ys) = texts xs @ texts ys"
  "own t [] = []" "own t (xs @ ys) = own t xs @ own t ys"
  "own t ((u, hi, m) # xs) = (if u = t \<and> hi then (u, hi, m) # own t xs else own t xs)"
  "length (blobs xs) = length xs"
  by (simp_all add: blobs_def texts_def own_def split: prod.splits)

lemma own_append: "own t (xs @ ys) = own t xs @ own t ys"
  by simp

text \<open>The queues hold the recorded messages, and what is on the wire and what is still to send make them up.\<close>

definition data_inv :: "int \<Rightarrow> race \<Rightarrow> bool" where
  "data_inv sid r \<longleftrightarrow> (let ss = rc_server r; s = ss_slot ss (hash_id sid) in
     steady sid s \<and> sock_ok s \<and> calm (ss_io ss) \<and>
     map wb_blob (dw_list s) = blobs (rc_dw r) \<and> map wb_blob (sk_high s) = blobs (rc_high r) \<and>
     map wb_blob (sk_low s) = blobs (rc_low r) \<and> (\<forall>x \<in> set (rc_low r). \<not> fst (snd x)) \<and>
     wired (sk_fd s) ss @ to_send (all_queued s) = texts (rc_sent r @ rc_dw r @ rc_high r @ rc_low r))"

fun pipe_send :: "request \<Rightarrow> (bool \<times> blob) option" where
  "pipe_send (ReqSend hi sid b) = Some (hi, b)"
| "pipe_send q = None"

definition pipe_inv :: "race \<Rightarrow> bool" where
  "pipe_inv r \<longleftrightarrow> List.map_filter pipe_send (ss_pipe (rc_server r)) = map (\<lambda>(t, hi, m). (hi, Mem m)) (rc_pipe r)"

fun pushing :: "sender \<Rightarrow> bool" where
  "pushing (Pushing hi m) = True"
| "pushing p = False"

definition pushers :: "(nat \<Rightarrow> sender) \<Rightarrow> nat set" where
  "pushers f = {t. pushing (f t)}"

definition in_flight :: "race \<Rightarrow> nat" where
  "in_flight r = length (rc_pipe r) + (if rc_dec r then 1 else 0) + card (pushers (rc_pc r))"

definition count_inv :: "int \<Rightarrow> race \<Rightarrow> bool" where
  "count_inv sid r \<longleftrightarrow> finite (pushers (rc_pc r)) \<and> in_flight r < 65536 \<and>
     sk_sending (ss_slot (rc_server r) (hash_id sid)) = counted sid (in_flight r)"

fun holds_lock :: "sender \<Rightarrow> bool" where
  "holds_lock (Looking again n m) = again"
| "holds_lock (Writing m) = True"
| "holds_lock (Unlocking w) = True"
| "holds_lock (Giving_up m) = True"
| "holds_lock p = False"

definition lock_inv :: "int \<Rightarrow> race \<Rightarrow> bool" where
  "lock_inv sid r \<longleftrightarrow>
     (sk_locked (ss_slot (rc_server r) (hash_id sid)) \<longleftrightarrow> (\<exists>t. holds_lock (rc_pc r t))) \<and>
     (\<forall>t u. holds_lock (rc_pc r t) \<and> holds_lock (rc_pc r u) \<longrightarrow> t = u)"

text \<open>What a sender knows from its tests: those under the lock last until it unlocks.\<close>

fun knows :: "socket \<Rightarrow> sending list \<Rightarrow> sending list \<Rightarrow> nat \<Rightarrow> sender \<Rightarrow> bool" where
  "knows s high pipe t (Locking m) \<longleftrightarrow> own t pipe = []"
| "knows s high pipe t (Looking again n m) \<longleftrightarrow> (again \<longrightarrow>
     own t pipe = [] \<and> (0 < n \<longrightarrow> own t high = [] \<and> fresh (sk_high s)) \<and> (2 < n \<longrightarrow> sk_dw_buffer s = None))"
| "knows s high pipe t (Writing m) \<longleftrightarrow> own t pipe = [] \<and> own t high = [] \<and> fresh (sk_high s) \<and> sk_dw_buffer s = None"
| "knows s high pipe t p \<longleftrightarrow> True"

definition view_inv :: "int \<Rightarrow> race \<Rightarrow> bool" where
  "view_inv sid r \<longleftrightarrow>
     (\<forall>t. knows (ss_slot (rc_server r) (hash_id sid)) (rc_high r) (rc_pipe r) t (rc_pc r t))"

definition order_inv :: "race \<Rightarrow> bool" where
  "order_inv r \<longleftrightarrow>
     (\<forall>t. own t (rc_sent r @ rc_dw r @ rc_high r @ rc_pipe r) = own t (rc_log r)) \<and>
     mset (rc_sent r @ rc_dw r @ rc_high r @ rc_low r @ rc_pipe r) = mset (rc_log r)"

fun will_tell :: "sender \<Rightarrow> bool" where
  "will_tell (Unlocking w) = w"
| "will_tell Telling = True"
| "will_tell p = False"

definition wake_inv :: "int \<Rightarrow> race \<Rightarrow> bool" where
  "wake_inv sid r \<longleftrightarrow> (let s = ss_slot (rc_server r) (hash_id sid) in
     all_queued s \<noteq> [] \<longrightarrow>
       sk_writing s \<or> ReqWrite sid \<in> set (ss_pipe (rc_server r)) \<or> (\<exists>t. will_tell (rc_pc r t)))"

definition race_inv :: "int \<Rightarrow> race \<Rightarrow> bool" where
  "race_inv sid r \<longleftrightarrow> data_inv sid r \<and> pipe_inv r \<and> count_inv sid r \<and> lock_inv sid r \<and> view_inv sid r \<and> order_inv r \<and> wake_inv sid r"

lemma race_init_inv: "race_init sid r \<Longrightarrow> race_inv sid r"
  by (auto simp: race_init_def race_inv_def data_inv_def pipe_inv_def count_inv_def lock_inv_def view_inv_def order_inv_def
      wake_inv_def Let_def dw_list_def all_queued_def send_buffer_empty_def in_flight_def pushers_def counted_def List.map_filter_simps)

subsection \<open>Steps of a sender that change no message\<close>

lemma pushers_upd: "pushers (f(t := p)) = (if pushing p then insert t (pushers f) else pushers f - {t})"
  by (auto simp: pushers_def)

lemma mem_pushers: "t \<in> pushers f \<longleftrightarrow> pushing (f t)"
  by (simp add: pushers_def)

lemma in_flight_goto:
  "finite (pushers (rc_pc r)) \<Longrightarrow> in_flight (goto t p r) + (if pushing (rc_pc r t) then 1 else 0) =
     in_flight r + (if pushing p then 1 else 0)"
  using card_Suc_Diff1 [of "pushers (rc_pc r)" t]
  by (auto simp: in_flight_def pushers_upd card_insert_if insert_absorb mem_pushers)

text \<open>Only the place of one sender changes, or the lock with it.\<close>

lemma data_goto [simp]: "data_inv sid (goto t p r) = data_inv sid r"
  by (simp add: data_inv_def)

lemma order_goto [simp]: "order_inv (goto t p r) = order_inv r" "pipe_inv (goto t p r) = pipe_inv r"
  by (simp_all add: order_inv_def pipe_inv_def)

lemma count_goto:
  assumes "count_inv sid r" "\<not> pushing (rc_pc r t)" "\<not> pushing p"
  shows "count_inv sid (goto t p r)"
proof -
  have "pushers ((rc_pc r)(t := p)) = pushers (rc_pc r)" using assms(2,3) by (auto simp: pushers_def)
  then show ?thesis using assms(1) by (simp add: count_inv_def in_flight_def)
qed

lemma lock_goto:
  assumes "lock_inv sid r" "holds_lock p = holds_lock (rc_pc r t)"
  shows "lock_inv sid (goto t p r)"
proof -
  have "holds_lock (((rc_pc r)(t := p)) u) = holds_lock (rc_pc r u)" for u using assms(2) by simp
  then show ?thesis using assms(1) by (simp add: lock_inv_def)
qed

lemma view_goto:
  "view_inv sid r \<Longrightarrow> knows (ss_slot (rc_server r) (hash_id sid)) (rc_high r) (rc_pipe r) t p \<Longrightarrow> view_inv sid (goto t p r)"
  by (simp add: view_inv_def)

lemma wake_goto:
  assumes "wake_inv sid r" "will_tell (rc_pc r t) \<longrightarrow> will_tell p"
  shows "wake_inv sid (goto t p r)"
proof -
  have "(\<exists>u. will_tell (rc_pc r u)) \<longrightarrow> (\<exists>u. will_tell (((rc_pc r)(t := p)) u))" using assms(2) by auto
  then show ?thesis using assms(1) unfolding wake_inv_def Let_def goto_simps by blast
qed

lemma goto_inv:
  assumes "race_inv sid r" "\<not> pushing (rc_pc r t)" "\<not> pushing p" "holds_lock p = holds_lock (rc_pc r t)"
    "knows (ss_slot (rc_server r) (hash_id sid)) (rc_high r) (rc_pipe r) t p" "will_tell (rc_pc r t) \<longrightarrow> will_tell p"
  shows "race_inv sid (goto t p r)"
  using assms count_goto lock_goto view_goto wake_goto by (simp add: race_inv_def)

lemma inv_parts:
  "race_inv sid r \<Longrightarrow> data_inv sid r" "race_inv sid r \<Longrightarrow> pipe_inv r" "race_inv sid r \<Longrightarrow> count_inv sid r"
  "race_inv sid r \<Longrightarrow> lock_inv sid r" "race_inv sid r \<Longrightarrow> view_inv sid r" "race_inv sid r \<Longrightarrow> order_inv r"
  "race_inv sid r \<Longrightarrow> wake_inv sid r"
  by (simp_all add: race_inv_def)

lemma view_at: "race_inv sid r \<Longrightarrow> rc_pc r t = p \<Longrightarrow>
    knows (ss_slot (rc_server r) (hash_id sid)) (rc_high r) (rc_pipe r) t p"
  by (auto simp: race_inv_def view_inv_def)

lemma nothing_in_flight:
  assumes "count_inv sid r" "sk_sending (ss_slot (rc_server r) (hash_id sid)) AND 0xffff = 0"
  shows "rc_pipe r = []"
proof -
  have "(of_nat (in_flight r) :: u64) = 0" using assms counted_low [of "in_flight r" sid] by (simp add: count_inv_def)
  then have "in_flight r = 0" using assms(1) of_nat_zero by (simp add: count_inv_def)
  then show ?thesis by (simp add: in_flight_def)
qed

lemma high_recorded: "data_inv sid r \<Longrightarrow> sk_high (ss_slot (rc_server r) (hash_id sid)) = [] \<longleftrightarrow> rc_high r = []"
proof -
  assume "data_inv sid r"
  then have "map wb_blob (sk_high (ss_slot (rc_server r) (hash_id sid))) = blobs (rc_high r)" by (simp add: data_inv_def Let_def)
  from arg_cong [OF this, of length] show ?thesis by auto
qed

lemma look_inv:
  assumes inv: "race_inv sid r" and p: "rc_pc r t = Looking again n m" and d: "direct_test n (ss_slot (rc_server r) (hash_id sid))"
  shows "race_inv sid (goto t (if n < 3 then Looking again (Suc n) m else if again then Writing m else Locking m) r)"
proof (rule goto_inv [OF inv])
  let ?s = "ss_slot (rc_server r) (hash_id sid)"
  note v = view_at [OF inv p]
  have high: "n = 0 \<Longrightarrow> rc_high r = []" "n = 0 \<Longrightarrow> sk_high ?s = []" "n = 2 \<Longrightarrow> sk_dw_buffer ?s = None"
    using d high_recorded [OF inv_parts(1) [OF inv]] by (auto simp: direct_test_def)
  have idle: "3 \<le> n \<Longrightarrow> rc_pipe r = []"
    using d nothing_in_flight [OF inv_parts(3) [OF inv]] by (simp add: direct_test_def split: if_splits)
  show "knows ?s (rc_high r) (rc_pipe r) t (if n < 3 then Looking again (Suc n) m else if again then Writing m else Locking m)"
    using v high idle by (cases "n = 0"; cases "n = 2") (auto simp: fresh_def)
qed (use p in auto)

subsection \<open>Locking and counting\<close>

lemma data_server:
  assumes "data_inv sid r" "ss_slot ss (hash_id sid) = t" "sock_ok t" "calm (ss_io ss)"
    and "fixed ((ss_slot (rc_server r) (hash_id sid))\<lparr>sk_locked := sk_locked t, sk_sending := sk_sending t\<rparr>) t"
    and "sk_high t = sk_high (ss_slot (rc_server r) (hash_id sid))" "sk_low t = sk_low (ss_slot (rc_server r) (hash_id sid))"
    "sk_dw_offset t = sk_dw_offset (ss_slot (rc_server r) (hash_id sid))"
    and "\<And>fd. wired fd ss = wired fd (rc_server r)"
  shows "data_inv sid (with_server ss r)"
proof -
  have "dw_list t = dw_list (ss_slot (rc_server r) (hash_id sid))" using assms(5,8) by (simp add: dw_list_def fixed_def cong: option.case_cong)
  then show ?thesis using assms by (simp add: data_inv_def Let_def all_queued_def steady_def fixed_def)
qed

lemma all_queued_simps [simp]:
  "all_queued (s\<lparr>sk_locked := b\<rparr>) = all_queued s" "all_queued (s\<lparr>sk_sending := c\<rparr>) = all_queued s"
  "all_queued (s\<lparr>sk_writing := b\<rparr>) = all_queued s"
  by (simp_all add: all_queued_def dw_list_def cong: option.case_cong)

lemma set_locked_other [simp]:
  "env (set_locked i b ss) = env ss" "ss_io (set_locked i b ss) = ss_io ss" "wired fd (set_locked i b ss) = wired fd ss"
  "ss_pipe (set_locked i b ss) = ss_pipe ss" "ss_slot (set_locked i b ss) i = (ss_slot ss i)\<lparr>sk_locked := b\<rparr>"
  by (simp_all add: set_locked_def) (simp add: put_def)

lemma knows_cong:
  "sk_high s = sk_high u \<Longrightarrow> sk_dw_buffer s = sk_dw_buffer u \<Longrightarrow> knows s high pipe t p = knows u high pipe t p"
  by (cases p) auto

lemma view_server:
  assumes "view_inv sid r" "sk_high (ss_slot ss (hash_id sid)) = sk_high (ss_slot (rc_server r) (hash_id sid))"
    "sk_dw_buffer (ss_slot ss (hash_id sid)) = sk_dw_buffer (ss_slot (rc_server r) (hash_id sid))"
  shows "view_inv sid (with_server ss r)"
  using assms(1) knows_cong [OF assms(2,3)] by (simp add: view_inv_def)

lemma locked_inv:
  assumes inv: "race_inv sid r" and pc: "\<not> pushing (rc_pc r t)" "\<not> pushing p" "will_tell (rc_pc r t) \<longrightarrow> will_tell p"
    and k: "knows (ss_slot (rc_server r) (hash_id sid)) (rc_high r) (rc_pipe r) t p"
    and l: "if b then \<not> sk_locked (ss_slot (rc_server r) (hash_id sid)) \<and> holds_lock p else holds_lock (rc_pc r t) \<and> \<not> holds_lock p"
  shows "race_inv sid (goto t p (with_server (set_locked (hash_id sid) b (rc_server r)) r))"
proof -
  let ?q = "with_server (set_locked (hash_id sid) b (rc_server r)) r"
  have d: "data_inv sid ?q"
    using inv by (intro data_server [OF _ refl]) (auto simp: race_inv_def data_inv_def Let_def fixed_def)
  have c: "count_inv sid (goto t p ?q)"
  proof (rule count_goto)
    show "count_inv sid ?q" using inv by (simp add: race_inv_def count_inv_def in_flight_def)
  qed (use pc in auto)
  have v: "view_inv sid (goto t p ?q)"
  proof (rule view_goto)
    show "view_inv sid ?q" by (rule view_server [OF inv_parts(5) [OF inv]]) simp_all
    show "knows (ss_slot (rc_server ?q) (hash_id sid)) (rc_high ?q) (rc_pipe ?q) t p"
      using k knows_cong [of "ss_slot (rc_server ?q) (hash_id sid)" "ss_slot (rc_server r) (hash_id sid)"] by simp
  qed
  have w: "wake_inv sid (goto t p ?q)"
  proof (rule wake_goto)
    show "wake_inv sid ?q" using inv by (simp add: race_inv_def wake_inv_def Let_def)
  qed (use pc in auto)
  have "lock_inv sid (goto t p ?q)" using inv_parts(4) [OF inv] l by (cases b) (auto simp: lock_inv_def)
  then show ?thesis using d c v w inv by (simp add: race_inv_def order_inv_def pipe_inv_def)
qed

lemma count_step_inv:
  assumes inv: "race_inv sid r" and p: "rc_pc r t = Counting hi m"
    and s: "inc_sending_ref sid (ss_slot (rc_server r) (hash_id sid)) = Some s"
  shows "race_inv sid (goto t (Pushing hi m) (with_server (put (hash_id sid) s (rc_server r)) r))"
proof -
  let ?i = "hash_id sid" and ?s = "ss_slot (rc_server r) (hash_id sid)"
  let ?q = "with_server (put ?i s (rc_server r)) r"
  have st: "steady sid ?s" and n: "in_flight r < 65536" "sk_sending ?s = counted sid (in_flight r)" "finite (pushers (rc_pc r))"
    using inv by (simp_all add: race_inv_def data_inv_def count_inv_def Let_def)
  have "sk_protocol ?s = PROTOCOL_TCP" using st by (simp add: steady_def)
  then have eq: "s = ?s\<lparr>sk_sending := sk_sending ?s + 1\<rparr>" "counted sid (in_flight r) AND 0xffff \<noteq> 0xffff"
    using s n(1,2) counted_high by (auto simp: inc_sending_ref_def split: if_splits)
  have "in_flight r \<noteq> 65535" using eq(2) counted_low [OF n(1)] by auto
  then have f: "in_flight (goto t (Pushing hi m) ?q) = Suc (in_flight r)" "Suc (in_flight r) < 65536"
    using in_flight_goto [of ?q t "Pushing hi m"] n p by (simp_all add: in_flight_def)
  have "sk_sending s = counted sid (Suc (in_flight r))" using eq(1) n(2) by (simp add: counted_def)
  then have c: "count_inv sid (goto t (Pushing hi m) ?q)" using f n(3) by (simp add: count_inv_def pushers_upd)
  have d: "data_inv sid ?q"
    using inv eq(1) by (intro data_server [OF _ refl]) (auto simp: race_inv_def data_inv_def Let_def fixed_def)
  have v: "view_inv sid (goto t (Pushing hi m) ?q)"
    using view_server [OF inv_parts(5) [OF inv]] eq(1) by (intro view_goto) simp_all
  have w: "wake_inv sid (goto t (Pushing hi m) ?q)"
  proof (rule wake_goto)
    show "wake_inv sid ?q" using inv eq(1) by (simp add: race_inv_def wake_inv_def put_def Let_def)
  qed (use p in auto)
  have l: "lock_inv sid (goto t (Pushing hi m) ?q)"
  proof (rule lock_goto)
    show "lock_inv sid ?q" using inv eq(1) by (simp add: race_inv_def lock_inv_def)
  qed (use p in auto)
  show ?thesis using c d v w l inv by (simp add: race_inv_def order_inv_def pipe_inv_def put_def)
qed

subsection \<open>The pipe\<close>

lemma request_server [simp]:
  "wired fd (send_request q ss) = wired fd ss" "ss_io (send_request q ss) = ss_io ss"
  by (simp_all add: send_request_def wired_def)

lemma tell_inv:
  assumes inv: "race_inv sid r" and p: "rc_pc r t = Telling"
  shows "race_inv sid (goto t Ready (with_server (send_request (ReqWrite sid) (rc_server r)) r))"
proof -
  let ?q = "with_server (send_request (ReqWrite sid) (rc_server r)) r"
  have d: "data_inv sid ?q" using inv_parts(1) [OF inv] by (simp add: data_inv_def Let_def)
  have c: "count_inv sid (goto t Ready ?q)"
  proof (rule count_goto)
    show "count_inv sid ?q" using inv_parts(3) [OF inv] by (simp add: count_inv_def in_flight_def)
  qed (use p in auto)
  have l: "lock_inv sid (goto t Ready ?q)"
  proof (rule lock_goto)
    show "lock_inv sid ?q" using inv_parts(4) [OF inv] by (simp add: lock_inv_def)
  qed (use p in auto)
  have v: "view_inv sid (goto t Ready ?q)"
    using view_server [OF inv_parts(5) [OF inv], of "send_request (ReqWrite sid) (rc_server r)"] by (intro view_goto) simp_all
  have w: "wake_inv sid (goto t Ready ?q)" by (simp add: wake_inv_def Let_def)
  have "pipe_inv ?q" using inv_parts(2) [OF inv] by (simp add: pipe_inv_def List.map_filter_def)
  then show ?thesis using d c l v w inv_parts(6) [OF inv] by (simp add: race_inv_def order_inv_def)
qed

lemma own_one: "own u [(t, hi, m)] = (if u = t \<and> hi then [(t, hi, m)] else [])"
  by (simp add: own_def)

lemma knows_pipe:
  assumes "knows s high pipe u p" "own u pipe' = own u pipe"
  shows "knows s high pipe' u p"
  using assms by (cases p) auto

lemma push_inv:
  assumes inv: "race_inv sid r" and p: "rc_pc r t = Pushing hi m"
  shows "race_inv sid (goto t Ready (with_server
      (send_request (ReqSend hi sid (clone_buffer (memory_buffer sid m))) (rc_server r)) (push_record (t, hi, m) r)))"
proof -
  let ?ss = "send_request (ReqSend hi sid (clone_buffer (memory_buffer sid m))) (rc_server r)"
  let ?q = "with_server ?ss (push_record (t, hi, m) r)"
  have b: "clone_buffer (memory_buffer sid m) = Mem m"
    by (simp add: clone_buffer_def memory_buffer_def SOCKET_BUFFER_MEMORY_def SOCKET_BUFFER_OBJECT_def)
  have d: "data_inv sid ?q" using inv_parts(1) [OF inv] by (simp add: data_inv_def Let_def push_record_def)
  have n: "finite (pushers (rc_pc r))" "in_flight r < 65536" using inv_parts(3) [OF inv] by (simp_all add: count_inv_def)
  have "in_flight ?q = Suc (in_flight r)" by (simp add: in_flight_def push_record_def)
  then have "in_flight (goto t Ready ?q) = in_flight r"
    using in_flight_goto [of ?q t Ready] n(1) p by (simp add: push_record_def)
  then have c: "count_inv sid (goto t Ready ?q)" using inv_parts(3) [OF inv] by (simp add: count_inv_def pushers_upd push_record_def)
  have l: "lock_inv sid (goto t Ready ?q)"
  proof (rule lock_goto)
    show "lock_inv sid ?q" using inv_parts(4) [OF inv] by (simp add: lock_inv_def)
  qed (use p in \<open>auto simp: push_record_def\<close>)
  have "knows (ss_slot ?ss (hash_id sid)) (rc_high r) (rc_pipe r @ [(t, hi, m)]) u (((rc_pc r)(t := Ready)) u)" for u
    using inv_parts(5) [OF inv] knows_pipe [of _ "rc_high r" "rc_pipe r" u _ "rc_pipe r @ [(t, hi, m)]"]
    by (simp add: view_inv_def)
  then have v: "view_inv sid (goto t Ready ?q)" by (simp add: view_inv_def push_record_def)
  have "(\<exists>u. will_tell (rc_pc r u)) \<longrightarrow> (\<exists>u. will_tell (((rc_pc r)(t := Ready)) u))"
    using p by (metis fun_upd_apply will_tell.simps(9))
  then have w: "wake_inv sid (goto t Ready ?q)" using inv_parts(7) [OF inv]
    unfolding wake_inv_def Let_def by (simp del: fun_upd_apply) blast
  have "pipe_inv ?q" using inv_parts(2) [OF inv] b by (simp add: pipe_inv_def List.map_filter_def push_record_def)
  moreover have "order_inv ?q" using inv_parts(6) [OF inv] by (simp add: order_inv_def push_record_def)
  ultimately show ?thesis using d c l v w by (simp add: race_inv_def)
qed

subsection \<open>The direct write\<close>

lemma fresh_texts: "map wb_blob wbs = blobs xs \<Longrightarrow> fresh wbs \<Longrightarrow> to_send wbs = texts xs"
proof (induction wbs arbitrary: xs)
  case (Cons wb wbs)
  then obtain x ys where x: "xs = x # ys" by (cases xs) auto
  then show ?case using Cons by (auto simp: fresh_def wb_data_def)
qed (auto simp: blobs_def)

lemma knows_unlocked: "\<not> holds_lock p \<Longrightarrow> knows s high pipe t p = knows s' high' pipe t p"
  by (cases p) auto

lemma write_inv:
  assumes inv: "race_inv sid r" and p: "rc_pc r t = Writing m"
    and w: "direct_write (hash_id sid) (memory_buffer sid m) (rc_server r) = ((ret, w), ss)"
  shows "race_inv sid (goto t (Unlocking w) (with_server ss (direct_record t m w r)))"
proof -
  let ?i = "hash_id sid" and ?s = "ss_slot (rc_server r) (hash_id sid)" and ?x = "(t, True, m)"
  let ?q = "with_server ss (direct_record t m w r)"
  let ?t = "ss_slot ss (hash_id sid)"
  note d = inv_parts(1) [OF inv, unfolded data_inv_def Let_def]
  have k: "own t (rc_pipe r) = []" "own t (rc_high r) = []" "fresh (sk_high ?s)" "sk_dw_buffer ?s = None"
    using view_at [OF inv p] by simp_all
  have "sk_protocol ?s = PROTOCOL_TCP" "calm (ss_io (rc_server r))" using d by (auto simp: steady_def)
  then obtain n c e where n: "n \<le> length m" "w = (n \<noteq> length m)" "calm (ss_io ss)" "env ss = env (rc_server r)"
    "wired (sk_fd ?s) ss = wired (sk_fd ?s) (rc_server r) @ take n m"
    "?t = (let u = ?s\<lparr>sk_nwrite := c, sk_wtime := e\<rparr> in if w then u\<lparr>sk_dw_buffer := Some (Mem m), sk_dw_offset := n\<rparr> else u)"
    using direct_write_effect [OF w] by blast
  have f: "sk_high ?t = sk_high ?s" "sk_low ?t = sk_low ?s" "sk_fd ?t = sk_fd ?s" "sk_sending ?t = sk_sending ?s"
    "sk_locked ?t = sk_locked ?s" "sk_writing ?t = sk_writing ?s" "steady sid ?t"
    "dw_list ?t = (if w then [\<lparr>wb_blob = Mem m, wb_off = n, wb_sz = length m - n, wb_addr = None\<rparr>] else [])"
    using n(6) d k(4) by (auto simp: Let_def steady_def dw_list_def)
  have dw0: "dw_list ?s = []" "rc_dw r = []" using d k(4) by (auto simp: dw_list_def blobs_def)
  have low: "fresh (sk_low ?s)" using d by (auto simp: sock_ok_def steady_def)
  have "wired (sk_fd ?s) (rc_server r) @ to_send (sk_high ?s @ sk_low ?s) = texts (rc_sent r @ rc_high r @ rc_low r)"
    using d dw0 by (simp add: all_queued_def)
  then have sent: "wired (sk_fd ?s) (rc_server r) = texts (rc_sent r)"
    and q: "to_send (sk_high ?s) = texts (rc_high r)" "to_send (sk_low ?s) = texts (rc_low r)"
    using fresh_texts [of "sk_high ?s" "rc_high r"] fresh_texts [of "sk_low ?s" "rc_low r"] d k(3) low by simp_all
  have "\<not> idle_type (sk_type ?s)" using d by (simp add: steady_def idle_type_def)
  then have ok: "sock_ok ?t" using d n(1,6) k(3)
    by (auto simp: Let_def sock_ok_def base_ok_def queued_def split: option.splits)
  have "data_inv sid ?q"
    using d f n ok sent q dw0 by (auto simp: data_inv_def Let_def direct_record_def all_queued_def wb_data_def)
  moreover have "count_inv sid (goto t (Unlocking w) ?q)"
  proof (rule count_goto)
    show "count_inv sid ?q" using inv_parts(3) [OF inv] f by (simp add: count_inv_def in_flight_def direct_record_def)
  qed (use p in auto)
  moreover have "lock_inv sid (goto t (Unlocking w) ?q)"
  proof (rule lock_goto)
    show "lock_inv sid ?q" using inv_parts(4) [OF inv] f by (simp add: lock_inv_def)
  qed (use p in auto)
  moreover have "knows ?t (rc_high r) (rc_pipe r) u (((rc_pc r)(t := Unlocking w)) u)" for u
  proof (cases "u = t")
    case False
    then have "\<not> holds_lock (rc_pc r u)" using inv_parts(4) [OF inv] p unfolding lock_inv_def by (metis holds_lock.simps(2))
    then show ?thesis using inv_parts(5) [OF inv] False knows_unlocked by (simp add: view_inv_def) metis
  qed simp
  then have "view_inv sid (goto t (Unlocking w) ?q)" by (cases w) (simp_all add: view_inv_def direct_record_def del: fun_upd_apply)
  moreover have "wake_inv sid (goto t (Unlocking w) ?q)"
  proof (cases w)
    case True
    then have "will_tell (((rc_pc r)(t := Unlocking w)) t)" by simp
    then show ?thesis unfolding wake_inv_def Let_def by (metis goto_simps(2) record_simps(8) with_server_simps(2))
  next
    case False
    have e: "ss_pipe ss = ss_pipe (rc_server r)" using n(4) by (simp add: env_def)
    have "all_queued ?t = all_queued ?s" using False f dw0 by (simp add: all_queued_def)
    then have "wake_inv sid ?q" using inv_parts(7) [OF inv] f e by (simp add: wake_inv_def Let_def)
    then show ?thesis by (rule wake_goto) (use p in simp)
  qed
  moreover have "order_inv ?q"
  proof -
    have o: "own u (rc_sent r) @ own u (rc_high r) @ own u (rc_pipe r) = own u (rc_log r)" for u
      using inv_parts(6) [OF inv] dw0 by (simp add: order_inv_def)
    then have "own t (rc_sent r) = own t (rc_log r)" using k by (metis append_Nil2)
    then show ?thesis using inv_parts(6) [OF inv] k dw0 o by (auto simp: order_inv_def direct_record_def own_one)
  qed
  moreover have "pipe_inv ?q" using inv_parts(2) [OF inv] n(4) by (simp add: pipe_inv_def direct_record_def env_def)
  ultimately show ?thesis by (simp add: race_inv_def)
qed

subsection \<open>The socket thread\<close>

lemma pop_pipe_simps [simp]:
  "ss_slot (pop_pipe ss) = ss_slot ss" "ss_pipe (pop_pipe ss) = tl (ss_pipe ss)" "wired fd (pop_pipe ss) = wired fd ss"
  "ss_io (pop_pipe ss) = ss_io ss"
  by (simp_all add: pop_pipe_def)

lemma uncount_inv:
  assumes inv: "race_inv sid r" and dec: "rc_dec r" and s: "dec_sending_ref sid (rc_server r) = Some ss"
  shows "race_inv sid (with_server ss (r\<lparr>rc_dec := False\<rparr>))"
proof -
  let ?s = "ss_slot (rc_server r) (hash_id sid)" and ?q = "with_server ss (r\<lparr>rc_dec := False\<rparr>)"
  have d: "data_inv sid r" using inv by (rule inv_parts)
  then have "sk_id ?s = sid \<and> sk_protocol ?s = PROTOCOL_TCP" by (simp add: data_inv_def steady_def Let_def)
  then have ss: "ss = put (hash_id sid) (?s\<lparr>sk_sending := sk_sending ?s - 1\<rparr>) (rc_server r)"
    using s by (auto simp: dec_sending_ref_def Let_def split: if_splits)
  have n: "in_flight r = Suc (in_flight ?q)" using dec by (simp add: in_flight_def)
  have c: "sk_sending ?s = counted sid (Suc (in_flight ?q))" "Suc (in_flight ?q) < 65536" "finite (pushers (rc_pc r))"
    using inv_parts(3) [OF inv] unfolding count_inv_def n by blast+
  have "sk_sending (ss_slot ss (hash_id sid)) = sk_sending ?s - 1" by (simp add: ss)
  also have "\<dots> = counted sid (in_flight ?q)" unfolding c(1) by (simp add: counted_def)
  finally have "count_inv sid ?q" using c(2,3) by (simp add: count_inv_def)
  moreover have "data_inv sid (with_server ss r)"
    using d ss by (intro data_server [OF d refl]) (auto simp: data_inv_def Let_def fixed_def)
  then have "data_inv sid ?q" by (simp add: data_inv_def)
  moreover have "view_inv sid ?q"
    using view_server [OF inv_parts(5) [OF inv], of ss] ss by (simp add: view_inv_def)
  ultimately show ?thesis using inv_parts(2,4,6,7) [OF inv] ss
    by (simp add: race_inv_def pipe_inv_def lock_inv_def order_inv_def wake_inv_def Let_def put_def)
qed

lemma take_write_inv:
  assumes inv: "race_inv sid r" and q: "ss_pipe (rc_server r) = ReqWrite sid # qs"
    and w: "trigger_write sid (pop_pipe (rc_server r)) = (ret, ss)"
  shows "race_inv sid (with_server ss r)"
proof -
  let ?s = "ss_slot (rc_server r) (hash_id sid)"
  have d: "data_inv sid r" using inv by (rule inv_parts)
  then have "steady sid (ss_slot (pop_pipe (rc_server r)) (hash_id sid))" by (simp add: data_inv_def Let_def)
  note e = trigger_write_effect [OF w this]
  have t: "ss_slot ss (hash_id sid) = ?s\<lparr>sk_writing := True\<rparr>" using e(4) by simp
  have p: "ss_pipe ss = qs" using e(3) q by (simp add: env_def)
  have "data_inv sid (with_server ss r)"
    using d e(1,2) t by (intro data_server [OF d t]) (auto simp: data_inv_def Let_def fixed_def)
  moreover have "view_inv sid (with_server ss r)" using view_server [OF inv_parts(5) [OF inv], of ss] t by simp
  ultimately show ?thesis using inv_parts(2-4,6) [OF inv] t p q
    by (simp add: race_inv_def pipe_inv_def lock_inv_def order_inv_def wake_inv_def count_inv_def in_flight_def Let_def
        List.map_filter_def)
qed

lemma knows_queued:
  assumes "knows s high (x # pipe) t p" "sk_dw_buffer u = sk_dw_buffer s" "fresh (sk_high s) \<longrightarrow> fresh (sk_high u)"
    and "high' = high \<or> high' = high @ [x]"
  shows "knows u high' pipe t p"
  using assms by (cases p; cases x) (auto split: if_splits)

lemma take_send_inv:
  assumes inv: "race_inv sid r" and dec: "\<not> rc_dec r" and q: "ss_pipe (rc_server r) = ReqSend hi sid b # qs"
    and w: "send_socket sid b hi None (pop_pipe (rc_server r)) = (ret, ss)"
  shows "race_inv sid (with_server ss
      (queue_record (hi \<or> send_buffer_empty (ss_slot (rc_server r) (hash_id sid))) (r\<lparr>rc_dec := True\<rparr>)))"
proof -
  let ?s = "ss_slot (rc_server r) (hash_id sid)" and ?t = "ss_slot ss (hash_id sid)"
  define h where "h = (hi \<or> send_buffer_empty ?s)"
  let ?q = "with_server ss (queue_record h (r\<lparr>rc_dec := True\<rparr>))"
  note d = inv_parts(1) [OF inv, unfolded data_inv_def Let_def]
  have "map (\<lambda>(t, hi, m). (hi, Mem m)) (rc_pipe r) = (hi, b) # List.map_filter pipe_send qs"
    using inv_parts(2) [OF inv] q by (simp add: pipe_inv_def List.map_filter_simps)
  then obtain t m xs where x: "rc_pipe r = (t, hi, m) # xs" "b = Mem m"
    "map (\<lambda>(t, hi, m). (hi, Mem m)) xs = List.map_filter pipe_send qs" by auto
  let ?x = "(t, hi, m)"
  have st: "steady sid (ss_slot (pop_pipe (rc_server r)) (hash_id sid))" using d by simp
  note e = send_socket_effect [OF w [unfolded x(2)] st]
  have p: "ss_pipe ss = qs" using e(3) q by (simp add: env_def)
  have qs: "queued_socket h m ?s ?t" using e(4) by (simp add: h_def)
  then obtain wb where wb: "wb_blob wb = Mem m" "wb_off wb = 0" "wb_list h ?t = wb_list h ?s @ [wb]"
    "wb_list (\<not> h) ?t = wb_list (\<not> h) ?s" and f: "fixed ?s ?t" "sk_dw_offset ?t = sk_dw_offset ?s"
    and wr: "if send_buffer_empty ?s then sk_writing ?t else sk_writing ?t = sk_writing ?s"
    unfolding queued_socket_def by blast
  have dw: "dw_list ?t = dw_list ?s" using f by (simp add: dw_list_def fixed_def cong: option.case_cong)
  have ok: "sock_ok ?t" using at_slot [OF send_socket_ok [OF w]] d by (simp add: slot_ok_step_def)
  have low: "to_send (sk_low ?s) = texts (rc_low r)"
  proof (rule fresh_texts)
    show "fresh (sk_low ?s)" using d by (auto simp: sock_ok_def steady_def)
  qed (use d in simp)
  have data: "wb_data wb = m" using wb by (simp add: wb_data_def)
  have fd: "sk_fd ?t = sk_fd ?s" "sk_sending ?t = sk_sending ?s" "sk_locked ?t = sk_locked ?s" "steady sid ?t"
    "sk_dw_buffer ?t = sk_dw_buffer ?s"
    using f(1) d by (simp_all add: fixed_def steady_def)
  have "data_inv sid ?q"
  proof (cases h)
    case True
    then show ?thesis using d e(1,2) ok wb dw fd low data x(1)
      by (simp add: data_inv_def Let_def queue_record_def wb_list_def all_queued_def)
  next
    case False
    then have "\<not> hi" by (simp add: h_def)
    then show ?thesis using False d e(1,2) ok wb dw fd low data x(1)
      by (simp add: data_inv_def Let_def queue_record_def wb_list_def all_queued_def)
  qed
  moreover have "pipe_inv ?q" using x(1,3) p by (simp add: pipe_inv_def queue_record_def)
  moreover have "count_inv sid ?q"
    using inv_parts(3) [OF inv] dec x(1) fd by (simp add: count_inv_def in_flight_def queue_record_def)
  moreover have "lock_inv sid ?q" using inv_parts(4) [OF inv] fd by (simp add: lock_inv_def)
  moreover have pq: "rc_pipe ?q = xs" using x(1) by (simp add: queue_record_def)
  have "knows ?t (rc_high ?q) xs u (rc_pc r u)" for u
  proof (rule knows_queued)
    show "knows ?s (rc_high r) (?x # xs) u (rc_pc r u)" using inv_parts(5) [OF inv] x(1) by (simp add: view_inv_def)
    show "fresh (sk_high ?s) \<longrightarrow> fresh (sk_high ?t)" using wb by (cases h) (auto simp: wb_list_def fresh_def)
  qed (use fd x(1) in \<open>auto simp: queue_record_def\<close>)
  then have "view_inv sid ?q" unfolding view_inv_def pq by simp
  moreover have "order_inv ?q"
  proof -
    have "own u (?x # xs) = own u [?x] @ own u xs" for u by (simp add: own_def)
    then have o: "own u (rc_sent r) @ own u (rc_dw r) @ own u (rc_high r) @ own u [?x] @ own u xs = own u (rc_log r)" for u
      using inv_parts(6) [OF inv] x(1) unfolding order_inv_def own_append by metis
    have ms: "mset (rc_sent r @ rc_dw r @ rc_high r @ rc_low r @ ?x # xs) = mset (rc_log r)"
      using inv_parts(6) [OF inv] x(1) unfolding order_inv_def by simp
    show ?thesis
    proof (cases h)
      case True
      have "own u (rc_sent r @ rc_dw r @ (rc_high r @ [?x]) @ xs) = own u (rc_log r)" for u
        using o [of u] by (simp only: own_append append.assoc)
      then show ?thesis using True ms x(1) by (simp add: order_inv_def queue_record_def del: list_simps)
    next
      case False
      then have "own u [?x] = []" for u by (simp add: own_one h_def)
      then have "own u (rc_sent r @ rc_dw r @ rc_high r @ xs) = own u (rc_log r)" for u
        using o [of u] by (simp only: own_append append_Nil)
      then show ?thesis using False ms x(1) by (simp add: order_inv_def queue_record_def del: list_simps)
    qed
  qed
  moreover have "wake_inv sid ?q"
  proof -
    have "all_queued ?s \<noteq> []" if "\<not> send_buffer_empty ?s" using that by (auto simp: all_queued_def send_buffer_empty_def)
    then show ?thesis using inv_parts(7) [OF inv] wr p q by (auto simp: wake_inv_def Let_def split: if_splits)
  qed
  ultimately show ?thesis unfolding h_def [symmetric] by (simp add: race_inv_def)
qed

lemma write_record_same:
  assumes "length (dw_list s) = length (rc_dw r)" "length (sk_high s) = length (rc_high r)" "length (sk_low s) = length (rc_low r)"
  shows "write_record s r = r"
  using assms by (simp add: write_record_def Let_def)

lemma recorded_lengths:
  assumes "data_inv sid r"
  shows "length (dw_list (ss_slot (rc_server r) (hash_id sid))) = length (rc_dw r)"
    "length (sk_high (ss_slot (rc_server r) (hash_id sid))) = length (rc_high r)"
    "length (sk_low (ss_slot (rc_server r) (hash_id sid))) = length (rc_low r)"
  using assms unfolding data_inv_def Let_def by (metis length_map list_simps(10))+

lemma own_none: "\<forall>x \<in> set xs. \<not> fst (snd x) \<Longrightarrow> own u xs = []"
  by (auto simp: own_def filter_empty_conv)

lemma event_inv:
  assumes inv: "race_inv sid r" and e: "send_buffer (hash_id sid) (rc_server r) = Some (ret, ss)"
  shows "race_inv sid (with_server ss (write_record (ss_slot ss (hash_id sid)) r))"
proof (cases "sk_locked (ss_slot (rc_server r) (hash_id sid))")
  case True
  then have "ss = rc_server r" using e by (simp add: send_buffer_def)
  then show ?thesis using inv write_record_same recorded_lengths [OF inv_parts(1) [OF inv]] by (simp add: with_server_def)
next
  case False
  let ?s = "ss_slot (rc_server r) (hash_id sid)" and ?t = "ss_slot ss (hash_id sid)"
  define q where "q = rc_dw r @ rc_high r @ rc_low r"
  define k where "k = length q - length (all_queued ?t)"
  define h where "h = length (sk_high ?t)"
  let ?q = "with_server ss (write_record ?t r)"
  note d = inv_parts(1) [OF inv, unfolded data_inv_def Let_def]
  have "plain_tcp ?s" using d by (simp add: plain_tcp_def tcp_open_def steady_def idle_type_def)
  then have f: "env ss = env (rc_server r)" "calm (ss_io ss)" "fixed (?s\<lparr>sk_dw_buffer := None\<rparr>) ?t"
    "wired (sk_fd ?s) ss @ to_send (all_queued ?t) = wired (sk_fd ?s) (rc_server r) @ to_send (all_queued ?s)"
    "\<exists>k \<le> length (all_queued ?s). map wb_blob (all_queued ?t) = drop k (map wb_blob (all_queued ?s))"
    "length (sk_low ?t) \<le> length (sk_low ?s)"
    "sk_high ?t @ sk_low ?t \<noteq> [] \<longrightarrow> sk_writing ?t = sk_writing ?s"
    using send_buffer_flow [OF e] d False by blast+
  have bq: "map wb_blob (all_queued ?s) = blobs q" using d by (simp add: all_queued_def q_def)
  have lq: "length (all_queued ?s) = length q" using arg_cong [OF bq, of length] by simp
  obtain j where j: "j \<le> length q" "map wb_blob (all_queued ?t) = drop j (blobs q)" using f(5) bq lq by auto
  have "length (all_queued ?t) = length q - j" using arg_cong [OF j(2), of length] by simp
  then have "j = k" using j(1) by (simp add: k_def)
  then have k: "k \<le> length q" "map wb_blob (all_queued ?t) = blobs (drop k q)" using j by (simp_all add: blobs_def drop_map)
  have t: "sk_dw_buffer ?t = None" "sk_fd ?t = sk_fd ?s" "sk_sending ?t = sk_sending ?s" "sk_locked ?t = sk_locked ?s" "steady sid ?t"
    using f(3) d by (simp_all add: fixed_def steady_def)
  have dw: "dw_list ?t = []" using t(1) by (simp add: dw_list_def)
  then have aq: "all_queued ?t = sk_high ?t @ sk_low ?t" by (simp add: all_queued_def)
  then have la: "length (all_queued ?t) = h + length (sk_low ?t)" by (simp add: h_def)
  have rec: "rc_sent ?q = rc_sent r @ take k q" "rc_dw ?q = []" "rc_high ?q = take h (drop k q)" "rc_low ?q = drop h (drop k q)"
    "rc_pipe ?q = rc_pipe r" "rc_log ?q = rc_log r"
    unfolding k_def la by (simp_all add: write_record_def Let_def q_def [symmetric] dw h_def add.commute)
  have split: "map wb_blob (sk_high ?t) = blobs (take h (drop k q))" "map wb_blob (sk_low ?t) = blobs (drop h (drop k q))"
  proof -
    have m: "map wb_blob (sk_high ?t) @ map wb_blob (sk_low ?t) = blobs (drop k q)" using k(2) aq by simp
    have "map wb_blob (sk_high ?t) = take h (blobs (drop k q))" unfolding m [symmetric] by (simp add: h_def)
    then show "map wb_blob (sk_high ?t) = blobs (take h (drop k q))" by (simp add: blobs_def take_map)
    have "map wb_blob (sk_low ?t) = drop h (blobs (drop k q))" unfolding m [symmetric] by (simp add: h_def)
    then show "map wb_blob (sk_low ?t) = blobs (drop h (drop k q))" by (simp add: blobs_def drop_map)
  qed
  have low: "\<not> fst (snd x)" if "x \<in> set (drop h (drop k q))" for x
  proof -
    have qa: "q = (rc_dw r @ rc_high r) @ rc_low r" by (simp add: q_def)
    have "length q - k - h \<le> length (rc_low r)"
      using arg_cong [OF split(2), of length] f(6) recorded_lengths(3) [OF inv_parts(1) [OF inv]] by simp
    moreover have "length q = length (rc_dw r @ rc_high r) + length (rc_low r)" by (simp add: q_def)
    ultimately have "length (rc_dw r @ rc_high r) \<le> h + k" by linarith
    then have "drop (h + k) ((rc_dw r @ rc_high r) @ rc_low r) = drop (h + k - length (rc_dw r @ rc_high r)) (rc_low r)"
      by (subst drop_append) (simp only: drop_all append_Nil)
    then have "drop h (drop k q) = drop (h + k - length (rc_dw r @ rc_high r)) (rc_low r)"
      unfolding drop_drop qa .
    then have "x \<in> set (rc_low r)" using that in_set_dropD by simp
    then show ?thesis using d by blast
  qed
  have none: "own u (drop h (drop k q)) = []" "own u (rc_low r) = []" for u
    using own_none low d by blast+
  have parts: "take k q @ take h (drop k q) @ drop h (drop k q) = q" by (metis append_take_drop_id)
  have "sock_ok ?t" using at_slot [OF send_buffer_ok [OF e]] d by (auto simp: slot_ok_step_def steady_def type_defs)
  moreover have "wired (sk_fd ?t) ss @ to_send (all_queued ?t) = texts (rc_sent ?q @ rc_dw ?q @ rc_high ?q @ rc_low ?q)"
  proof -
    have "texts (rc_sent ?q @ rc_dw ?q @ rc_high ?q @ rc_low ?q) = texts (rc_sent r @ (take k q @ take h (drop k q) @ drop h (drop k q)))"
      unfolding rec(1-4) by simp
    also have "\<dots> = texts (rc_sent r @ q)" unfolding parts by simp
    finally show ?thesis using f(4) d t(2) by (simp add: q_def)
  qed
  ultimately have "data_inv sid ?q"
    unfolding data_inv_def Let_def using t dw split low f(2) unfolding rec(2-4) by (simp add: rec)
  moreover have "pipe_inv ?q" using inv_parts(2) [OF inv] f(1) rec by (simp add: pipe_inv_def env_def)
  moreover have "count_inv sid ?q" using inv_parts(3) [OF inv] t rec by (simp add: count_inv_def in_flight_def)
  moreover have "lock_inv sid ?q" using inv_parts(4) [OF inv] t by (simp add: lock_inv_def)
  moreover have "view_inv sid ?q"
  proof -
    have "\<not> holds_lock (rc_pc r u)" for u using inv_parts(4) [OF inv] False by (auto simp: lock_inv_def)
    then have "knows ?t (rc_high ?q) (rc_pipe r) u (rc_pc r u)" for u
      using knows_unlocked inv_parts(5) [OF inv] unfolding view_inv_def by metis
    then show ?thesis unfolding view_inv_def rec(5) by simp
  qed
  moreover have "order_inv ?q"
  proof -
    have "own u (rc_sent ?q @ rc_dw ?q @ rc_high ?q @ rc_pipe ?q) = own u (rc_log ?q)" for u
    proof -
      have "own u (take k q) @ own u (take h (drop k q)) = own u (rc_dw r) @ own u (rc_high r)"
        using arg_cong [OF parts, of "own u"] none by (simp add: q_def)
      then have "own u (rc_sent ?q @ rc_dw ?q @ rc_high ?q @ rc_pipe ?q) = own u (rc_sent r @ rc_dw r @ rc_high r @ rc_pipe r)"
        unfolding rec by (simp only: own_append append.assoc append_Nil) (metis append.assoc)
      then show ?thesis using inv_parts(6) [OF inv] rec(6) by (simp add: order_inv_def)
    qed
    moreover have "mset (rc_sent ?q @ rc_dw ?q @ rc_high ?q @ rc_low ?q @ rc_pipe ?q) = mset (rc_log ?q)"
    proof -
      have "mset (take k q @ take h (drop k q) @ drop h (drop k q)) = mset q" unfolding parts ..
      then show ?thesis using inv_parts(6) [OF inv] unfolding rec by (simp add: order_inv_def q_def ac_simps)
    qed
    ultimately show ?thesis by (simp add: order_inv_def)
  qed
  moreover have "wake_inv sid ?q"
  proof -
    have "all_queued ?s \<noteq> []" if "all_queued ?t \<noteq> []" using that f(5) by auto
    then show ?thesis using inv_parts(7) [OF inv] f(1,7) aq by (auto simp: wake_inv_def Let_def env_def)
  qed
  ultimately show ?thesis by (simp add: race_inv_def)
qed

lemma race_step_inv: "race_step sid r r' \<Longrightarrow> race_inv sid r \<Longrightarrow> race_inv sid r'"
proof (induction rule: race_step.induct)
  case (look r t again n m)
  then show ?case by (intro look_inv)
next
  case (refuse r t again n m)
  then show ?case by (intro goto_inv) auto
next
  case (lock r t m)
  then show ?case using view_at by (intro locked_inv) fastforce+
next
  case (unlock r t w)
  then show ?case by (intro locked_inv) auto
next
  case (give_up r t m)
  then show ?case by (intro locked_inv) auto
qed (auto intro: goto_inv look_inv write_inv tell_inv count_step_inv push_inv take_send_inv uncount_inv take_write_inv event_inv)

interpretation senders: machine "race_init sid" "race_step sid" "race_inv sid"
  by unfold_locales (auto intro: race_init_inv race_step_inv)

end
