(* ===== verification/SocketSpec.thy ===== *)
theory SocketSpec
  imports SocketRun
begin

text \<open>
  The properties of the socket server over all runs, with concrete runs as their witnesses. The
  witnesses are computed: \<open>run_ops\<close> runs a list of calls (\<open>Some\<close>) and rounds (\<open>None\<close>) from a new server
  whose kernel gives the answers of a list.
\<close>

section \<open>Concrete runs\<close>

fun run_ops :: "sock_call option list \<Rightarrow> socket_server \<Rightarrow> socket_server option" where
  "run_ops [] ss = Some ss"
| "run_ops (None # os) ss = (case poll_step ss of None \<Rightarrow> None | Some (p, ss) \<Rightarrow> run_ops os ss)"
| "run_ops (Some c # os) ss =
     (case do_call c ss of None \<Rightarrow> None | Some (r, ss') \<Rightarrow> if early_close ss ss' then None else run_ops os ss')"

lemma run_ops_reach: "run_ops os ss = Some ss' \<Longrightarrow> sock_reach ss \<Longrightarrow> sock_reach ss'"
proof (induction os arbitrary: ss)
  case (Cons a os)
  show ?case
  proof (cases a)
    case None
    then obtain p s1 where s: "poll_step ss = Some (p, s1)" "run_ops os s1 = Some ss'"
      using Cons.prems(1) by (auto split: option.splits)
    then show ?thesis using Cons.IH reach_poll Cons.prems(2) by blast
  next
    case (Some c)
    then obtain r s1 where s: "do_call c ss = Some (r, s1)" "\<not> early_close ss s1" "run_ops os s1 = Some ss'"
      using Cons.prems(1) by (auto split: option.splits if_splits)
    then show ?thesis using Cons.IH reach_call Cons.prems(2) by blast
  qed
qed simp

definition blank :: socket where
  "blank = \<lparr>sk_opaque = 0, sk_high = [], sk_low = [], sk_wb_size = 0, sk_rtime = 0, sk_wtime = 0, sk_nread = 0, sk_nwrite = 0,
     sk_sending = 0, sk_fd = 0, sk_id = 0, sk_type = 0, sk_protocol = 0, sk_reading = False, sk_writing = False, sk_closing = False,
     sk_udpconnecting = 0, sk_warn_size = 0, sk_size = 0, sk_udp_address = [], sk_locked = False, sk_dw_offset = 0, sk_dw_buffer = None\<rparr>"

definition demo :: "answer list \<Rightarrow> event list list \<Rightarrow> socket_server" where
  "demo io waits = the (snd (socket_server_create 0 (\<lambda>i. blank) ([Done 3, Done 4, Done 5, Done 6] @ io) [] waits))"

lemma sock_demo_reach: "sock_reach (demo io waits)"
  by (rule reach_init)
     (simp add: demo_def socket_server_create_def fresh_server_def blank_def)

lemma hash_id_code [code]: "hash_id sid = nat (sid mod 65536)"
  by (simp add: hash_id_def MAX_SOCKET_def)

lemma id_tag16_code [code]: "id_tag16 sid = of_int (sid div 65536 mod 65536)"
  by (simp add: id_tag16_def MAX_SOCKET_def)

lemma reserve_id_code [code]:
  "reserve_id ss =
     (let raw = ss_alloc_id ss + 1; alloc = (if sint raw < 0 then raw AND 0x7fffffff else raw); sid = sint alloc;
          ss = ss\<lparr>ss_alloc_id := alloc\<rparr>; s = ss_slot ss (hash_id sid)
      in if sk_type s = TYPE_INVALID
         then (sid, put (hash_id sid) (s\<lparr>sk_type := TYPE_RESERVE, sk_id := sid, sk_protocol := PROTOCOL_UNKNOWN,
                 sk_udpconnecting := 0, sk_fd := - 1\<rparr>) ss)
         else reserve_loop 65535 ss)"
proof -
  have m: "MAX_SOCKET = Suc 65535" by (simp add: MAX_SOCKET_def)
  show ?thesis unfolding reserve_id_def m by (simp only: reserve_loop.simps)
qed

text \<open>The state after a run, and what a round reports in it.\<close>

definition after :: "sock_call option list \<Rightarrow> answer list \<Rightarrow> event list list \<Rightarrow> socket_server" where
  "after os io waits = the (run_ops os (demo io waits))"

definition runs :: "sock_call option list \<Rightarrow> answer list \<Rightarrow> event list list \<Rightarrow> bool" where
  "runs os io waits \<longleftrightarrow> \<not> Option.is_none (run_ops os (demo io waits))"

definition reported :: "socket_server \<Rightarrow> poll option" where
  "reported ss = map_option fst (poll_step ss)"

definition polled :: "socket_server \<Rightarrow> socket_server" where
  "polled ss = snd (the (poll_step ss))"

lemma after_reach: "runs os io waits \<Longrightarrow> sock_reach (after os io waits)"
  using run_ops_reach [OF _ sock_demo_reach] by (cases "run_ops os (demo io waits)") (auto simp: after_def runs_def)

lemma polledI: "reported ss = Some p \<Longrightarrow> poll_step ss = Some (p, polled ss)"
  by (auto simp: reported_def polled_def)

text \<open>One socket connected, with the answers \<open>io\<close> after that.\<close>

definition opened_ops :: "sock_call option list" where
  "opened_ops = [Some (Connect 9 [104] 80), None]"

definition opened_io :: "answer list" where
  "opened_io = [Done 1, Done 7, Done 0, Name [49] 80]"

definition message :: "int \<Rightarrow> bytes \<Rightarrow> socket_sendbuffer" where
  "message sid b = \<lparr>sb_id = sid, sb_type = SOCKET_BUFFER_MEMORY, sb_buffer = b\<rparr>"

section \<open>Properties\<close>

text \<open>C12: In every run, \<open>socket_server_poll\<close> comes back or waits for events: its loop over requests
  and events ends, though a round may put an event back to handle its other half.\<close>

theorem socket_poll_ends: "sock_reach ss \<Longrightarrow> \<exists>r. socket_server_poll ss = Some r"
  using poll_ends sockets.reach_inv by blast

lemma socket_poll_ends_witness: "\<exists>r. socket_server_poll (after (opened_ops @ [Some (Shutdown 9 1)]) opened_io []) = Some r"
  by (rule socket_poll_ends [OF after_reach]) code_simp

text \<open>C10: In every run, the count of bytes to send of an open socket (\<open>wb_size\<close>) is the sum of what its two
  queues hold, every buffer is sent from where the last write stopped, only the first of the queue of high
  priority may be partly sent, and the size of the next read is at least 64.\<close>

theorem socket_queues_exact:
  assumes "sock_reach ss" "sk_type (ss_slot ss i) \<noteq> TYPE_INVALID" "sk_type (ss_slot ss i) \<noteq> TYPE_RESERVE"
  shows "sk_wb_size (ss_slot ss i) = queued (ss_slot ss i) \<and>
    (\<forall>wb \<in> set (sk_high (ss_slot ss i) @ sk_low (ss_slot ss i)). wb_off wb + wb_sz wb = length (blob_bytes (wb_blob wb))) \<and>
    (\<forall>wb \<in> set (tl (sk_high (ss_slot ss i)) @ sk_low (ss_slot ss i)). wb_off wb = 0) \<and>
    64 \<le> sk_size (ss_slot ss i)"
proof -
  have "sock_ok (ss_slot ss i)" using sockets.reach_inv [OF assms(1)] by (simp add: run_inv_def)
  then have b: "base_ok (ss_slot ss i)" "fresh (sk_low (ss_slot ss i))" using assms by (simp_all add: sock_ok_def idle_type_def)
  then have q: "sk_wb_size (ss_slot ss i) = queued (ss_slot ss i)"
    and o: "\<forall>wb \<in> set (sk_high (ss_slot ss i) @ sk_low (ss_slot ss i)). wb_off wb + wb_sz wb = length (blob_bytes (wb_blob wb))"
    and f: "\<forall>wb \<in> set (tl (sk_high (ss_slot ss i)) @ sk_low (ss_slot ss i)). wb_off wb = 0"
    by (auto simp: base_ok_def wb_ok_def fresh_def list_all_iff)
  obtain k where "sk_size (ss_slot ss i) = 64 * 2 ^ k" using base_size [OF b(1)] by blast
  then have "64 \<le> sk_size (ss_slot ss i)" by simp
  with q o f show ?thesis by blast
qed

lemma socket_queues_exact_witness:
  "let s = ss_slot (after (opened_ops @ [Some (Send (message 1 [1, 2, 3])), Some (SendLow (message 1 [4])), None, None])
        (opened_io @ [Done 1]) []) 1
   in sk_wb_size s = queued s \<and>
     (\<forall>wb \<in> set (sk_high s @ sk_low s). wb_off wb + wb_sz wb = length (blob_bytes (wb_blob wb))) \<and>
     (\<forall>wb \<in> set (tl (sk_high s) @ sk_low s). wb_off wb = 0) \<and> 64 \<le> sk_size s"
  unfolding Let_def by (rule socket_queues_exact [OF after_reach]) code_simp+



text \<open>C9: A closed socket is reported (\<open>SOCKET_CLOSE\<close>) only once, whether the service or the other end closed
  it: after the report of an id the poll does not report that id again until its slot has been freed and
  reserved anew.\<close>

theorem socket_close_once:
  assumes "sock_reach s0" "poll_step s0 = Some (Report SOCKET_CLOSE, s1)"
    and "run_keeping (hash_id (sr_id (ss_result s1))) s1 s2" "poll_step s2 = Some (Report SOCKET_CLOSE, s3)"
  shows "sr_id (ss_result s3) \<noteq> sr_id (ss_result s1)"
proof -
  have said: "\<exists>i. reading (ss_slot a i) \<and> \<not> reading (ss_slot b i) \<and> sr_id (ss_result b) = sk_id (ss_slot a i) \<and>
      i = hash_id (sr_id (ss_result b))"
    if r: "sock_reach a" and st: "poll_step a = Some (Report SOCKET_CLOSE, b)" for a b
  proof -
    have inv: "run_inv a" using sockets.reach_inv r by blast
    obtain i where i: "reading (ss_slot a i)" "\<not> reading (ss_slot b i)" "sr_id (ss_result b) = sk_id (ss_slot a i)"
      using poll_step_ok [OF st inv_timely [OF inv]] by (auto simp: close_said_def)
    then have "i = hash_id (sk_id (ss_slot a i))" using inv by (simp add: run_inv_def home_def reading_def)
    then show ?thesis using i by auto
  qed
  let ?j = "hash_id (sr_id (ss_result s1))"
  have j: "\<not> reading (ss_slot s1 ?j)" using said [OF assms(1,2)] by auto
  have "sock_reach s1" using reach_poll [OF assms(1,2)] .
  then have r2: "sock_reach s2" "\<not> reading (ss_slot s2 ?j)" using run_keeping_reading [OF assms(3) _ j] by blast+
  show ?thesis using said [OF r2(1) assms(4)] r2(2) by auto
qed

lemma socket_close_once_witness:
  "let s0 = after (opened_ops @ opened_ops @ [Some (Shutdown 9 1), Some (Shutdown 9 2)]) (opened_io @ opened_io) []
   in sr_id (ss_result (polled (polled s0))) \<noteq> sr_id (ss_result (polled s0))"
  unfolding Let_def
  by (rule socket_close_once [OF after_reach polledI run_keeping.stop polledI]) code_simp+

text \<open>C8: In every run the slots are well-formed: a socket lies in the slot its id hashes to, a free or reserved
  slot has nothing queued, and the reserved slots are exactly those that a request in the pipe will open,
  each of them one request, which finds the slot as it was reserved, so that the asserts of \<open>new_fd\<close> hold.\<close>

theorem socket_slots_well_formed:
  assumes "sock_reach ss"
  shows "(sk_type (ss_slot ss i) \<noteq> TYPE_INVALID \<longrightarrow> hash_id (sk_id (ss_slot ss i)) = i) \<and>
    (sk_type (ss_slot ss i) = TYPE_INVALID \<or> sk_type (ss_slot ss i) = TYPE_RESERVE \<longrightarrow>
       sk_high (ss_slot ss i) = [] \<and> sk_low (ss_slot ss i) = [] \<and> sk_dw_buffer (ss_slot ss i) = None) \<and>
    (sk_type (ss_slot ss i) = TYPE_RESERVE \<longrightarrow>
       sk_protocol (ss_slot ss i) = PROTOCOL_UNKNOWN \<and> sk_id (ss_slot ss i) \<in> set (openers (ss_pipe ss))) \<and>
    distinct (openers (ss_pipe ss)) \<and>
    (\<forall>sid \<in> set (openers (ss_pipe ss)).
       sk_type (ss_slot ss (hash_id sid)) = TYPE_RESERVE \<and> sk_id (ss_slot ss (hash_id sid)) = sid \<and>
       new_fd sid fd protocol opaque reads ss \<noteq> None)"
proof -
  have inv: "run_inv ss" using sockets.reach_inv assms by blast
  then have s: "\<And>j. sock_ok (ss_slot ss j)" "\<And>j. home j (ss_slot ss j)" and p: "pipe_ok ss" by (simp_all add: run_inv_def)
  have o: "sk_type (ss_slot ss (hash_id sid)) = TYPE_RESERVE \<and> sk_id (ss_slot ss (hash_id sid)) = sid \<and>
      new_fd sid fd protocol opaque reads ss \<noteq> None" if "sid \<in> set (openers (ss_pipe ss))" for sid
  proof -
    have r: "reserved_for ss sid" using p that by (simp add: pipe_ok_def)
    then show ?thesis using new_fd_total [of ss sid] s(1) [of "hash_id sid"] by (simp add: reserved_for_def sock_ok_def)
  qed
  show ?thesis using s(1) [of i] s(2) [of i] p o by (auto simp: sock_ok_def home_def pipe_ok_def idle_type_def)
qed

lemma socket_slots_well_formed_witness:
  "let ss = after [Some (Connect 9 [104] 80)] [] []
   in (sk_type (ss_slot ss 1) \<noteq> TYPE_INVALID \<longrightarrow> hash_id (sk_id (ss_slot ss 1)) = 1) \<and>
    (sk_type (ss_slot ss 1) = TYPE_INVALID \<or> sk_type (ss_slot ss 1) = TYPE_RESERVE \<longrightarrow>
       sk_high (ss_slot ss 1) = [] \<and> sk_low (ss_slot ss 1) = [] \<and> sk_dw_buffer (ss_slot ss 1) = None) \<and>
    (sk_type (ss_slot ss 1) = TYPE_RESERVE \<longrightarrow>
       sk_protocol (ss_slot ss 1) = PROTOCOL_UNKNOWN \<and> sk_id (ss_slot ss 1) \<in> set (openers (ss_pipe ss))) \<and>
    distinct (openers (ss_pipe ss)) \<and>
    (\<forall>sid \<in> set (openers (ss_pipe ss)).
       sk_type (ss_slot ss (hash_id sid)) = TYPE_RESERVE \<and> sk_id (ss_slot ss (hash_id sid)) = sid \<and>
       new_fd sid 7 0 9 True ss \<noteq> None)"
  unfolding Let_def by (rule socket_slots_well_formed [OF after_reach]) code_simp

text \<open>\<open>reserve_id\<close> finds a free slot whenever there is one, wherever the counter of ids stands (it wraps
  from 2^31 - 1 to 0), and hands out a non-negative id of that slot; it fails only when all are taken.\<close>

theorem reserve_id_exact:
  assumes "reserve_id ss = (sid, ss')" "unat (ss_alloc_id ss) < 2 ^ 31"
  shows "if \<exists>j < MAX_SOCKET. sk_type (ss_slot ss j) = TYPE_INVALID
    then 0 \<le> sid \<and> sk_type (ss_slot ss (hash_id sid)) = TYPE_INVALID \<and>
      ss_slot ss' = (ss_slot ss)(hash_id sid := reserved_slot sid (ss_slot ss (hash_id sid)))
    else sid = - 1 \<and> ss_slot ss' = ss_slot ss"
proof (cases "sid = - 1")
  case False
  then have 1: "0 \<le> sid \<and> sk_type (ss_slot ss (hash_id sid)) = TYPE_INVALID \<and>
      ss_slot ss' = (ss_slot ss)(hash_id sid := reserved_slot sid (ss_slot ss (hash_id sid)))"
    using reserve_loop_slot [of MAX_SOCKET ss sid ss'] assms(1) by (auto simp: reserve_id_def)
  have "hash_id sid < MAX_SOCKET" by (simp add: hash_id_def MAX_SOCKET_def nat_less_iff)
  then show ?thesis using 1 by auto
next
  case True
  let ?a = "unat (ss_alloc_id ss)"
  have all: "\<forall>k < MAX_SOCKET. sk_type (ss_slot ss ((?a + k + 1) mod MAX_SOCKET)) \<noteq> TYPE_INVALID"
    using reserve_loop_fails assms True by (simp add: reserve_id_def)
  have "sk_type (ss_slot ss j) \<noteq> TYPE_INVALID" if "j < MAX_SOCKET" for j
  proof -
    let ?k = "(j + (MAX_SOCKET - (?a + 1) mod MAX_SOCKET)) mod MAX_SOCKET"
    have "?k < MAX_SOCKET" by (simp add: MAX_SOCKET_def)
    moreover have "(?a + ?k + 1) mod MAX_SOCKET = j"
    proof -
      have "(?a + ?k + 1) mod MAX_SOCKET = (?a + 1 + ?k) mod MAX_SOCKET" by (simp only: ac_simps)
      also have "\<dots> = ((?a + 1) mod MAX_SOCKET + (j + (MAX_SOCKET - (?a + 1) mod MAX_SOCKET))) mod MAX_SOCKET"
        by (metis mod_add_left_eq mod_add_right_eq)
      also have "\<dots> = (j + MAX_SOCKET) mod MAX_SOCKET" by (simp add: MAX_SOCKET_def)
      finally show ?thesis using that by simp
    qed
    ultimately show ?thesis using all by metis
  qed
  then show ?thesis
    using True reserve_loop_slot [of MAX_SOCKET ss sid ss'] assms(1) by (auto simp: reserve_id_def)
qed

lemma reserve_id_exact_witness:
  "let ss = (demo [] [])\<lparr>ss_alloc_id := 0x7fffffff\<rparr>; sid = fst (reserve_id ss)
   in if \<exists>j < MAX_SOCKET. sk_type (ss_slot ss j) = TYPE_INVALID
     then 0 \<le> sid \<and> sk_type (ss_slot ss (hash_id sid)) = TYPE_INVALID \<and>
       ss_slot (snd (reserve_id ss)) = (ss_slot ss)(hash_id sid := reserved_slot sid (ss_slot ss (hash_id sid)))
     else sid = - 1 \<and> ss_slot (snd (reserve_id ss)) = ss_slot ss"
  unfolding Let_def by (rule reserve_id_exact) (simp_all add: demo_def socket_server_create_def)

section \<open>Defects\<close>

lemma push_low: "(push_bit 16 (t :: u64)) AND 0xffff = 0"
proof -
  have m: "(0xffff :: u64) = mask 16" by (simp add: mask_eq_exp_minus_1)
  show ?thesis unfolding m by (rule bit_word_eqI) (auto simp: bit_and_iff bit_push_bit_iff bit_mask_iff)
qed

lemma new_fd_fields:
  assumes "new_fd sid fd protocol opaque reads ss = Some (True, ss')"
  shows "sk_protocol (ss_slot ss' (hash_id sid)) = protocol \<and> sk_id (ss_slot ss' (hash_id sid)) = sid \<and>
    sk_sending (ss_slot ss' (hash_id sid)) = push_bit 16 (id_tag16 sid) \<and>
    sk_udpconnecting (ss_slot ss' (hash_id sid)) = sk_udpconnecting (ss_slot ss (hash_id sid))"
proof -
  let ?i = "hash_id sid"
  let ?s = "ss_slot ss ?i"
  obtain e s1 where p: "poll_op (PollAdd fd) ss = (e, s1)" by fastforce
  let ?t = "?s\<lparr>sk_id := sid, sk_fd := fd, sk_reading := True, sk_writing := False, sk_closing := False,
      sk_sending := push_bit 16 (id_tag16 sid), sk_protocol := protocol, sk_size := MIN_READ_BUFFER, sk_opaque := opaque,
      sk_wb_size := 0, sk_warn_size := 0, sk_dw_buffer := None, sk_nread := 0, sk_nwrite := 0, sk_rtime := 0, sk_wtime := 0\<rparr>"
  obtain e2 s2 where e2: "enable_read ?i reads (put ?i ?t s1) = (e2, s2)" by fastforce
  have "ss' = s2" using assms p e2 by (auto simp: new_fd_def Let_def split: if_splits)
  then show ?thesis using enable_read_slot [OF e2] by simp
qed

lemma open_socket_fields:
  assumes eq: "open_socket sid opaque ss = Some (r, ss')" and t: "sk_type (ss_slot ss' (hash_id sid)) \<noteq> TYPE_INVALID"
  shows "sk_protocol (ss_slot ss' (hash_id sid)) = PROTOCOL_TCP \<and> sk_id (ss_slot ss' (hash_id sid)) = sid \<and>
    sk_sending (ss_slot ss' (hash_id sid)) = push_bit 16 (id_tag16 sid)"
proof -
  let ?i = "hash_id sid"
  have fail: "open_failed ?i outs err s \<noteq> (r, ss')" for outs err s
    using t by (auto simp: open_failed_def)
  obtain a s1 where a: "next_io (set_result sid opaque 0 RNull ss) = (a, s1)" by fastforce
  then obtain k where k: "a = Done k" using eq fail by (cases a) (auto simp: open_socket_def Let_def)
  obtain c s2 where c: "connect_loop k 0 s1 = (c, s2)" by fastforce
  then obtain fd conn where x: "c = Inl (fd, conn)" using eq a k fail by (cases c) (auto simp: open_socket_def Let_def)
  have "new_fd sid fd PROTOCOL_TCP opaque True s2 \<noteq> None"
    using eq a k c x by (cases "new_fd sid fd PROTOCOL_TCP opaque True s2") (simp_all add: open_socket_def Let_def)
  then obtain ok s3 where n: "new_fd sid fd PROTOCOL_TCP opaque True s2 = Some (ok, s3)" by auto
  have ok: ok using eq a k c x n fail by (auto simp: open_socket_def Let_def split: if_splits)
  note f = new_fd_fields [OF n [unfolded eqTrueI [OF ok]]]
  obtain w s4 where w: "enable_write ?i True s3 = (w, s4)" by fastforce
  obtain m s5 where m: "next_name (set_type ?i TYPE_CONNECTED s3) = (m, s5)" by fastforce
  note rest = eq a k c x n w m
  have "if conn then ss_slot ss' ?i = (ss_slot s3 ?i)\<lparr>sk_type := TYPE_CONNECTED\<rparr>
    else if \<not> w then ss_slot ss' ?i = (ss_slot s3 ?i)\<lparr>sk_writing := True, sk_type := TYPE_CONNECTING\<rparr>
    else ss_slot ss' ?i = (ss_slot s3 ?i)\<lparr>sk_writing := True, sk_type := TYPE_INVALID\<rparr>"
    using rest ok enable_write_slot [OF w] next_name_same [OF m]
    by (cases conn; cases w; cases m) (auto simp: open_socket_def Let_def open_failed_def same_def result_defs)
  then show ?thesis using f t by (auto split: if_splits)
qed

lemma warn_size_sending: "warn_size i ss = (r, ss') \<Longrightarrow> sk_sending (ss_slot ss' j) = sk_sending (ss_slot ss j)"
  by (auto simp: warn_size_def Let_def split: if_splits)

lemma append_sendbuffer_sending [simp]: "sk_sending (ss_slot (append_sendbuffer i hi b a ss) j) = sk_sending (ss_slot ss j)"
  by (simp add: append_sendbuffer_def Let_def set_wb_list_def)

lemma append_first_sending:
  assumes "append_first i hi b a ss = (r, ss')"
  shows "sk_sending (ss_slot ss' j) = sk_sending (ss_slot ss j)"
proof -
  obtain e s1 where e: "enable_write i True (append_sendbuffer i hi b a ss) = (e, s1)" by fastforce
  have "sk_sending (ss_slot s1 j) = sk_sending (ss_slot ss j)"
    using enable_write_slot [OF e] append_sendbuffer_sending [of i hi b a ss] by simp
  moreover have "sk_sending (ss_slot ss' j) = sk_sending (ss_slot s1 j)"
    using assms e by (cases e) (auto simp: append_first_def report_error_def Let_def dest: warn_size_sending)
  ultimately show ?thesis by simp
qed

lemma send_socket_sending:
  assumes "send_socket sid b hi a ss = (r, ss')"
  shows "sk_sending (ss_slot ss' j) = sk_sending (ss_slot ss j)"
proof -
  let ?i = "hash_id sid"
  obtain w s1 where w: "write_once (length (blob_bytes b)) ss = (w, s1)" by fastforce
  have s1: "ss_slot s1 = ss_slot ss" using write_once_same [OF w] by (simp add: same_def)
  have "(\<exists>outs. ss' = emit outs ss) \<or> (\<exists>h x. append_first ?i h b x ss = (r, ss')) \<or> (\<exists>h x. append_first ?i h b x s1 = (r, ss')) \<or>
      (\<exists>n outs. ss' = stat_write ?i n (emit outs s1)) \<or> (\<exists>x. warn_size ?i (append_sendbuffer ?i hi b x ss) = (r, ss'))"
    using assms w unfolding send_socket_def Let_def
    by (simp split: if_splits option.splits sum.splits) blast+
  then show ?thesis
    using append_first_sending warn_size_sending s1 by (elim disjE exE) fastforce+
qed

lemma poll_step_ctrl:
  assumes "ss_checkctrl ss" "ss_pipe ss = q # qs" "poll_step ss = Some (p, ss')"
  shows "\<exists>r s1. ctrl_cmd q (ss\<lparr>ss_pipe := qs\<rparr>) = Some (r, s1) \<and> ss_slot ss' = ss_slot s1 \<and> ss_pipe ss' = ss_pipe s1 \<and>
    ss_checkctrl ss' = ss_checkctrl s1"
  using assms by (cases "ctrl_cmd q (ss\<lparr>ss_pipe := qs\<rparr>)") (auto simp: poll_step_def split: if_splits)

text \<open>C13: Sending to a socket between \<open>socket_server_connect\<close> and its opening makes the socket thread abort:
  the sender does not count its message (\<open>inc_sending_ref\<close> looks at the protocol, still unknown), the opening
  sets the count to 0, and \<open>dec_sending_ref\<close> then fails its assert.\<close>

theorem socket_send_before_open_aborts:
  assumes "sock_reach ss" "ss_checkctrl ss" "ss_pipe ss = [ReqOpen sid port opaque host]"
    and "\<not> sk_closing (ss_slot ss (hash_id sid))" "sb_id buf = sid" "socket_server_send buf ss = Some (r, s1)"
    and "poll_step s1 = Some (p, s2)" "sk_type (ss_slot s2 (hash_id sid)) \<noteq> TYPE_INVALID"
  shows "r = 0 \<and> poll_step s2 = None"
proof -
  let ?i = "hash_id sid"
  have inv: "run_inv ss" using sockets.reach_inv assms(1) by blast
  then have res: "reserved_for ss sid" using assms(3) by (simp add: run_inv_def pipe_ok_def)
  have ok: "sock_ok (ss_slot ss ?i)" using inv by (simp add: run_inv_def)
  have un: "sk_protocol (ss_slot ss ?i) \<noteq> PROTOCOL_TCP" using ok res by (simp add: sock_ok_def reserved_for_def protocol_defs)
  have nd: "\<not> can_direct_write (ss_slot ss ?i) sid" using res by (simp add: can_direct_write_def reserved_for_def type_defs)
  have q: "queue_send True buf ss = Some (r, s1)"
    using assms(4-6) nd res by (simp add: socket_server_send_def socket_invalid_def reserved_for_def)
  have s1: "r = 0" "s1 = send_request (ReqSend True sid (clone_buffer buf)) (put ?i (ss_slot ss ?i) ss)"
    using q assms(5) un by (auto simp: queue_send_def inc_sending_ref_def Let_def)
  let ?qs = "[ReqSend True sid (clone_buffer buf)]"
  have p1: "ss_checkctrl s1" "ss_pipe s1 = ReqOpen sid port opaque host # ?qs" using s1 assms(2,3)
    by (simp_all add: send_request_def put_def)
  obtain r1 s2' where o: "open_socket sid opaque (s1\<lparr>ss_pipe := ?qs\<rparr>) = Some (r1, s2')"
    and s2: "ss_slot s2 = ss_slot s2'" "ss_pipe s2 = ss_pipe s2'" "ss_checkctrl s2 = ss_checkctrl s2'"
    using poll_step_ctrl [OF p1 assms(7)] by auto
  have "reserved_for (s1\<lparr>ss_pipe := ?qs\<rparr>) sid" using res s1 by (simp add: reserved_for_def)
  then have e: "env s2' = env (s1\<lparr>ss_pipe := ?qs\<rparr>)"
    using open_socket_ok [OF o] by (simp add: reserved_for_def at_def)
  have f: "sk_protocol (ss_slot s2 ?i) = PROTOCOL_TCP \<and> sk_id (ss_slot s2 ?i) = sid \<and> sk_sending (ss_slot s2 ?i) = push_bit 16 (id_tag16 sid)"
    using open_socket_fields [OF o] assms(8) s2 by simp
  obtain r3 s3 where s3: "send_socket sid (clone_buffer buf) True None (s2\<lparr>ss_pipe := []\<rparr>) = (r3, s3)" by fastforce
  have "life (ss_slot s2 ?i) (ss_slot s3 ?i)" using at_slot [OF send_socket_ok [OF s3]] by (simp add: slot_ok_step_def)
  then have "sk_id (ss_slot s3 ?i) = sid" "sk_sending (ss_slot s3 ?i) = push_bit 16 (id_tag16 sid)"
    using f send_socket_sending [OF s3] by (simp_all add: life_def)
  moreover have "sk_protocol (ss_slot s3 ?i) = PROTOCOL_TCP"
  proof -
    have "sk_type (ss_slot s2 ?i) \<noteq> TYPE_RESERVE"
    proof
      assume r: "sk_type (ss_slot s2 ?i) = TYPE_RESERVE"
      have "sock_reach s1" using assms(1,6) reach_call [of ss "Send buf" r s1] s1 assms(3) by (simp add: early_close_def)
      then have "sock_reach s2" using assms(7) reach_poll by blast
      then have "sock_ok (ss_slot s2 ?i)" using sockets.reach_inv by (simp add: run_inv_def)
      then show False using f r by (simp add: sock_ok_def protocol_defs)
    qed
    then show ?thesis using \<open>life (ss_slot s2 ?i) (ss_slot s3 ?i)\<close> f by (simp add: life_def)
  qed
  ultimately have "dec_sending_ref sid s3 = None" by (simp add: dec_sending_ref_def push_low)
  moreover have "ss_pipe s2 = ?qs" "ss_checkctrl s2" using e s2 p1 by (simp_all add: env_def)
  ultimately show ?thesis using s1(1) s3 by (simp add: poll_step_def)
qed

lemma sentI: "map_option fst (socket_server_send buf ss) = Some r \<Longrightarrow>
    socket_server_send buf ss = Some (r, snd (the (socket_server_send buf ss)))"
  by auto

lemma socket_send_before_open_aborts_witness:
  "let ss = after [Some (Connect 9 [104] 80)] opened_io []; s1 = snd (the (socket_server_send (message 1 [5]) ss))
   in (0 :: int) = 0 \<and> poll_step (polled s1) = None"
  unfolding Let_def
  by (rule socket_send_before_open_aborts [OF after_reach _ _ _ _ sentI polledI, where port = 80 and opaque = 9 and
        host = "[104]" and p = "Report SOCKET_OPEN"]) code_simp+

text \<open>A dialed UDP socket counts one connecting request too few, and is never written directly.\<close>

lemma dialed_never_direct:
  assumes "dial_udp_socket sid fd opaque a ss = Some ss'" "sk_udpconnecting (ss_slot ss (hash_id sid)) = 0"
    and "sk_type (ss_slot ss' (hash_id sid)) = TYPE_CONNECTED"
  shows "sk_udpconnecting (ss_slot ss' (hash_id sid)) = - 1" "\<not> can_direct_write (ss_slot ss' (hash_id sid)) sid"
proof -
  obtain ok s1 where n: "new_fd sid fd (unat (hd (a @ [0]))) opaque True ss = Some (ok, s1)"
    using assms(1) by (cases "new_fd sid fd (unat (hd (a @ [0]))) opaque True ss") (auto simp: dial_udp_socket_def)
  have ok: ok using assms(1,3) n by (cases ok) (auto simp: dial_udp_socket_def drop_slot_def Let_def)
  have "sk_udpconnecting (ss_slot s1 (hash_id sid)) = 0" using new_fd_fields [OF n [unfolded eqTrueI [OF ok]]] assms(2) by simp
  then show c: "sk_udpconnecting (ss_slot ss' (hash_id sid)) = - 1"
    using assms(1) n ok by (auto simp: dial_udp_socket_def udpconnecting_dec_def set_address_def Let_def)
  show "\<not> can_direct_write (ss_slot ss' (hash_id sid)) sid" using c by (simp add: can_direct_write_def)
qed

lemma udp_socket_address_locked: "udp_socket_address (s\<lparr>sk_locked := b\<rparr>) a = udp_socket_address s a"
  by (simp add: udp_socket_address_def)

text \<open>C14: When the kernel refuses a packet that \<open>socket_server_send\<close> sends directly, the packet is left for the
  socket thread without its address, and sending it reads an address behind the end of its block
  (\<open>send_list_udp\<close> takes a \<open>struct write_buffer\<close> for a \<open>struct write_buffer_udp\<close>).\<close>

theorem socket_udp_refusal_overreads:
  assumes "can_direct_write (ss_slot ss (hash_id sid)) sid" "\<not> sk_locked (ss_slot ss (hash_id sid))"
    "\<not> sk_closing (ss_slot ss (hash_id sid))" "sk_protocol (ss_slot ss (hash_id sid)) \<noteq> PROTOCOL_TCP"
    "udp_socket_address (ss_slot ss (hash_id sid)) (sk_udp_address (ss_slot ss (hash_id sid))) = Some sa"
    and "sb_id buf = sid" "sb_buffer buf \<noteq> []" "ss_io ss = Fail e # io"
  shows "\<exists>ss'. socket_server_send buf ss = Some (0, ss') \<and> ss_pipe ss' = ss_pipe ss @ [ReqWrite sid] \<and>
    send_buffer (hash_id sid) ss' = None"
proof -
  let ?i = "hash_id sid"
  let ?s = "ss_slot ss ?i"
  have c: "\<not> socket_invalid ?s sid" "sk_high ?s = []" "sk_low ?s = []"
    using assms(1) by (auto simp: can_direct_write_def socket_invalid_def nomore_sending_data_def send_buffer_empty_def type_defs)
  have u: "udp_socket_address (?s\<lparr>sk_locked := True\<rparr>) (sk_udp_address ?s) = Some sa"
    using assms(5) udp_socket_address_locked by metis
  have l: "can_direct_write (?s\<lparr>sk_locked := True\<rparr>) sid"
    using assms(1) by (auto simp: can_direct_write_def nomore_sending_data_def send_buffer_empty_def)
  let ?b = "clone_buffer buf"
  have b: "blob_bytes ?b = sb_buffer buf" by (simp add: clone_buffer_def)
  let ?t = "?s\<lparr>sk_nwrite := sk_nwrite ?s, sk_wtime := ss_time ss, sk_locked := False, sk_dw_buffer := Some ?b, sk_dw_offset := 0\<rparr>"
  obtain ss' where s: "socket_server_send buf ss = Some (0, ss')" "ss_pipe ss' = ss_pipe ss @ [ReqWrite sid]" "ss_slot ss' ?i = ?t"
    using assms c u l by (simp add: socket_server_send_def direct_write_def write_once_def next_io_def
        set_locked_def put_def set_dw_def stat_write_def send_request_def Let_def)
  have "send_buffer ?i ss' = None"
    using s(3) c assms(4) by (simp add: send_buffer_def take_dw_def put_def send_queues_def list_uncomplete_def
        send_list_def send_list_udp_def wb_list_def Let_def)
  with s(1,2) show ?thesis by blast
qed

lemma socket_udp_refusal_overreads_witness:
  "let ss = after [Some (Udp 9 None 0), None, Some (UdpConnect 1), None]
        [Done 7, Packet [] [0, 80, 127, 0, 0, 1], Fail EAGAIN] []
   in \<exists>ss'. socket_server_send (message 1 [5]) ss = Some (0, ss') \<and> ss_pipe ss' = ss_pipe ss @ [ReqWrite 1] \<and>
     send_buffer (hash_id 1) ss' = None"
  unfolding Let_def
  by (rule socket_udp_refusal_overreads [where sa = "[0, 80, 127, 0, 0, 1]" and e = EAGAIN and io = "[]"]) code_simp+

end
