(* ===== verification/SocketRaceSpec.thy ===== *)
theory SocketRaceSpec
  imports SocketRace SocketSpec
begin

text \<open>
  The properties of services that write to one socket at the same time: whole messages on the wire,
  each sender's in its order, none lost, no wake-up lost, no failing assert; and that the calls as
  \<open>SocketApi\<close> and \<open>SocketCmd\<close> have them, in one step, are runs of the interleaving.
\<close>

section \<open>Running the interleaving\<close>

datatype move = Begin nat bool bytes | Go nat | Serve | Handle_event

fun race_go :: "int \<Rightarrow> nat \<Rightarrow> sender \<Rightarrow> race \<Rightarrow> race option" where
  "race_go sid t Ready r = None"
| "race_go sid t (Looking again n m) r = Some (goto t
     (if direct_test n (ss_slot (rc_server r) (hash_id sid))
      then if n < 3 then Looking again (Suc n) m else if again then Writing m else Locking m
      else if again then Giving_up m else Counting True m) r)"
| "race_go sid t (Locking m) r = Some
     (if sk_locked (ss_slot (rc_server r) (hash_id sid)) then goto t (Counting True m) r
      else goto t (Looking True 0 m) (with_server (set_locked (hash_id sid) True (rc_server r)) r))"
| "race_go sid t (Writing m) r = (case direct_write (hash_id sid) (memory_buffer sid m) (rc_server r) of
     ((ret, w), ss) \<Rightarrow> Some (goto t (Unlocking w) (with_server ss (direct_record t m w r))))"
| "race_go sid t (Unlocking w) r =
     Some (goto t (if w then Telling else Ready) (with_server (set_locked (hash_id sid) False (rc_server r)) r))"
| "race_go sid t Telling r = Some (goto t Ready (with_server (send_request (ReqWrite sid) (rc_server r)) r))"
| "race_go sid t (Giving_up m) r = Some (goto t (Counting True m) (with_server (set_locked (hash_id sid) False (rc_server r)) r))"
| "race_go sid t (Counting hi m) r = (case inc_sending_ref sid (ss_slot (rc_server r) (hash_id sid)) of
     None \<Rightarrow> None
   | Some s \<Rightarrow> Some (goto t (Pushing hi m) (with_server (put (hash_id sid) s (rc_server r)) r)))"
| "race_go sid t (Pushing hi m) r = Some (goto t Ready (with_server
     (send_request (ReqSend hi sid (clone_buffer (memory_buffer sid m))) (rc_server r)) (push_record (t, hi, m) r)))"

definition race_serve :: "int \<Rightarrow> race \<Rightarrow> race option" where
  "race_serve sid r =
     (if rc_dec r then (case dec_sending_ref sid (rc_server r) of
         None \<Rightarrow> None | Some ss \<Rightarrow> Some (with_server ss (r\<lparr>rc_dec := False\<rparr>)))
      else (case ss_pipe (rc_server r) of
          ReqSend hi j b # qs \<Rightarrow>
            if j = sid
            then Some (with_server (snd (send_socket sid b hi None (pop_pipe (rc_server r))))
              (queue_record (hi \<or> send_buffer_empty (ss_slot (rc_server r) (hash_id sid))) (r\<lparr>rc_dec := True\<rparr>)))
            else None
        | ReqWrite j # qs \<Rightarrow> if j = sid then Some (with_server (snd (trigger_write sid (pop_pipe (rc_server r)))) r) else None
        | _ \<Rightarrow> None))"

fun race_do :: "int \<Rightarrow> move \<Rightarrow> race \<Rightarrow> race option" where
  "race_do sid (Begin t hi m) r =
     (if rc_pc r t = Ready then Some (goto t (if hi then Looking False 0 m else Counting False m) r) else None)"
| "race_do sid (Go t) r = race_go sid t (rc_pc r t) r"
| "race_do sid Serve r = race_serve sid r"
| "race_do sid Handle_event r =
     (if rc_dec r then None else (case send_buffer (hash_id sid) (rc_server r) of
        None \<Rightarrow> None | Some (ret, ss) \<Rightarrow> Some (with_server ss (write_record (ss_slot ss (hash_id sid)) r))))"

lemma race_go_step: "race_go sid t p r = Some r' \<Longrightarrow> rc_pc r t = p \<Longrightarrow> race_step sid r r'"
proof (cases p)
  case (Looking again n m)
  assume "race_go sid t p r = Some r'" "rc_pc r t = p"
  then show ?thesis using Looking race_step.look [of r t again n m sid] race_step.refuse [of r t again n m sid]
    by (simp only: race_go.simps option.inject split: if_splits) metis+
next
  case (Unlocking w)
  assume "race_go sid t p r = Some r'" "rc_pc r t = p"
  then show ?thesis using Unlocking race_step.unlock [of r t w sid] by (simp only: race_go.simps option.inject)
qed (auto intro: race_step.intros split: if_splits option.splits prod.splits)

lemma race_serve_step: "race_serve sid r = Some r' \<Longrightarrow> race_step sid r r'"
  unfolding race_serve_def
  by (auto split: if_splits option.splits list.splits request.splits intro: race_step.uncount
      intro!: race_step.take_send race_step.take_write surjective_pairing)

text \<open>The moves are exactly the steps.\<close>

lemma race_do_step: "race_step sid r r' \<longleftrightarrow> (\<exists>a. race_do sid a r = Some r')"
proof
  show "\<exists>a. race_do sid a r = Some r'" if "race_step sid r r'"
    using that
  proof cases
    case (start_high t m)
    then show ?thesis by (intro exI [of _ "Begin t True m"]) simp
  next
    case (start_low t m)
    then show ?thesis by (intro exI [of _ "Begin t False m"]) simp
  next
    case (take_send hi b qs ret ss)
    then show ?thesis by (intro exI [of _ Serve]) (simp add: race_serve_def)
  next
    case (uncount ss)
    then show ?thesis by (intro exI [of _ Serve]) (simp add: race_serve_def)
  next
    case (take_write qs ret ss)
    then show ?thesis by (intro exI [of _ Serve]) (simp add: race_serve_def)
  next
    case (event ret ss)
    then show ?thesis by (intro exI [of _ Handle_event]) simp
  next
    case (look t again n m)
    then show ?thesis by (intro exI [of _ "Go t"]) simp
  next
    case (refuse t again n m)
    then show ?thesis by (intro exI [of _ "Go t"]) simp
  next
    case (lock t m)
    then show ?thesis by (intro exI [of _ "Go t"]) simp
  next
    case (busy t m)
    then show ?thesis by (intro exI [of _ "Go t"]) simp
  next
    case (write_direct t m ret w ss)
    then show ?thesis by (intro exI [of _ "Go t"]) simp
  next
    case (unlock t w)
    then show ?thesis by (intro exI [of _ "Go t"]) simp
  next
    case (give_up t m)
    then show ?thesis by (intro exI [of _ "Go t"]) simp
  next
    case (tell t)
    then show ?thesis by (intro exI [of _ "Go t"]) simp
  next
    case (count t hi m s)
    then show ?thesis by (intro exI [of _ "Go t"]) simp
  next
    case (push t hi m)
    then show ?thesis by (intro exI [of _ "Go t"]) simp
  qed
  show "race_step sid r r'" if "\<exists>a. race_do sid a r = Some r'"
  proof -
    from that obtain a where "race_do sid a r = Some r'" ..
    then show ?thesis
      by (cases a) (auto intro: race_go_step race_serve_step race_step.intros split: if_splits option.splits)
  qed
qed

fun race_run :: "int \<Rightarrow> move list \<Rightarrow> race \<Rightarrow> race option" where
  "race_run sid [] r = Some r"
| "race_run sid (a # as) r = (case race_do sid a r of None \<Rightarrow> None | Some r \<Rightarrow> race_run sid as r)"

lemma race_run_reach:
  "race_run sid as r = Some r' \<Longrightarrow> reach (race_init sid) (race_step sid) r \<Longrightarrow> reach (race_init sid) (race_step sid) r'"
proof (induction as arbitrary: r)
  case (Cons a as)
  then obtain q where "race_do sid a r = Some q" "race_run sid as q = Some r'" by (auto split: option.splits)
  then show ?case using Cons race_do_step reach_step by metis
qed simp

section \<open>The calls in one step\<close>

abbreviation race_steps :: "int \<Rightarrow> race \<Rightarrow> race \<Rightarrow> bool" where
  "race_steps sid \<equiv> (race_step sid)\<^sup>*\<^sup>*"

lemma goto_goto [simp]: "goto t p (goto t q r) = goto t p r"
  by (simp add: goto_def)

lemma goto_same: "rc_pc r t = p \<Longrightarrow> goto t p r = r"
  by (auto simp: goto_def)

text \<open>The tests from the \<open>n\<close>-th on.\<close>

lemma look_steps:
  assumes "n \<le> 3" "rc_pc r t = Looking again n m"
  shows "race_steps sid r (goto t
    (if \<forall>k. n \<le> k \<and> k < 4 \<longrightarrow> direct_test k (ss_slot (rc_server r) (hash_id sid))
     then (if again then Writing m else Locking m) else (if again then Giving_up m else Counting True m)) r)"
  using assms
proof (induction "3 - n" arbitrary: n r)
  case 0
  then have n: "n = 3" by simp
  have k: "(\<forall>k. n \<le> k \<and> k < 4 \<longrightarrow> direct_test k s) \<longleftrightarrow> direct_test n s" for s
    unfolding n by (auto simp: numeral_eq_Suc less_Suc_eq)
  show ?case using race_step.look [OF 0(3), of sid] race_step.refuse [OF 0(3), of sid] unfolding k by (auto simp: n)
next
  case (Suc d)
  then have n: "n < 3" "d = 3 - Suc n" "Suc n \<le> 3" by simp_all
  let ?s = "ss_slot (rc_server r) (hash_id sid)"
  have k: "(\<forall>k. n \<le> k \<and> k < 4 \<longrightarrow> direct_test k ?s) \<longleftrightarrow> direct_test n ?s \<and> (\<forall>k. Suc n \<le> k \<and> k < 4 \<longrightarrow> direct_test k ?s)"
    using n(1) by (auto simp: Suc_le_eq) (metis le_neq_implies_less)
  show ?case
  proof (cases "direct_test n ?s")
    case True
    let ?q = "goto t (Looking again (Suc n) m) r"
    have "race_step sid r ?q" using race_step.look [OF Suc(4) True] n(1) by simp
    moreover have "rc_pc ?q t = Looking again (Suc n) m" by simp
    note Suc(1) [OF n(2,3) this]
    ultimately show ?thesis unfolding k using True by (auto intro: converse_rtranclp_into_rtranclp)
  next
    case False
    then show ?thesis using race_step.refuse [OF Suc(4) False] unfolding k by auto
  qed
qed

lemma look_all:
  assumes "rc_pc r t = Looking again 0 m" "steady sid (ss_slot (rc_server r) (hash_id sid))"
  shows "race_steps sid r (goto t
    (if can_direct_write (ss_slot (rc_server r) (hash_id sid)) sid
     then (if again then Writing m else Locking m) else (if again then Giving_up m else Counting True m)) r)"
  using look_steps [of 0 r t again m sid] assms direct_tests by simp

lemma queue_steps:
  assumes "rc_pc r t = Counting hi m" "queue_send hi (memory_buffer sid m) (rc_server r) = Some (ret, ss)"
  shows "\<exists>r'. race_steps sid r r' \<and> rc_server r' = ss \<and> rc_pc r' t = Ready"
proof -
  let ?b = "clone_buffer (memory_buffer sid m)"
  obtain s where s: "inc_sending_ref sid (ss_slot (rc_server r) (hash_id sid)) = Some s"
    "ss = send_request (ReqSend hi sid ?b) (put (hash_id sid) s (rc_server r))"
    using assms(2) by (auto simp: queue_send_def memory_buffer_def Let_def bind_eq_Some_conv)
  let ?q = "goto t (Pushing hi m) (with_server (put (hash_id sid) s (rc_server r)) r)"
  let ?p = "goto t Ready (with_server (send_request (ReqSend hi sid ?b) (rc_server ?q)) (push_record (t, hi, m) ?q))"
  have "race_step sid r ?q" using race_step.count [OF assms(1) s(1)] .
  moreover have "race_step sid ?q ?p" by (rule race_step.push) simp
  ultimately have "race_steps sid r ?p" by (meson converse_rtranclp_into_rtranclp r_into_rtranclp)
  moreover have "rc_server ?p = ss" "rc_pc ?p t = Ready" using s(2) by simp_all
  ultimately show ?thesis by blast
qed

text \<open>A call that nothing interrupts does what its function in \<open>SocketApi\<close> does; so do the requests.\<close>

lemma send_low_steps:
  assumes "rc_pc r t = Ready" "steady sid (ss_slot (rc_server r) (hash_id sid))"
    and "socket_server_send_lowpriority (memory_buffer sid m) (rc_server r) = Some (ret, ss)"
  shows "\<exists>r'. race_steps sid r r' \<and> rc_server r' = ss \<and> rc_pc r' t = Ready"
proof -
  let ?q = "goto t (Counting False m) r"
  have "race_step sid r ?q" using race_step.start_low assms(1) .
  moreover have "queue_send False (memory_buffer sid m) (rc_server ?q) = Some (ret, ss)"
    using assms(2,3) by (simp add: socket_server_send_lowpriority_def socket_invalid_def steady_def memory_buffer_def)
  ultimately show ?thesis
    using queue_steps [of ?q t False m sid ret ss] by (auto intro: converse_rtranclp_into_rtranclp)
qed

lemma serve_steps:
  assumes "\<not> rc_dec r" "ss_pipe (rc_server r) = q # qs" "q = ReqSend hi sid b \<or> q = ReqWrite sid"
    and "ctrl_cmd q ((rc_server r)\<lparr>ss_pipe := qs\<rparr>) = Some (ret, ss)"
  shows "\<exists>r'. race_steps sid r r' \<and> rc_server r' = ss \<and> \<not> rc_dec r'"
proof -
  have p: "pop_pipe (rc_server r) = (rc_server r)\<lparr>ss_pipe := qs\<rparr>" using assms(2) by (simp add: pop_pipe_def)
  from assms(3) show ?thesis
  proof
    assume q: "q = ReqWrite sid"
    then have "trigger_write sid (pop_pipe (rc_server r)) = (ret, ss)" using assms(4) p by simp
    then have "race_step sid r (with_server ss r)" using race_step.take_write assms(1,2) q by blast
    then show ?thesis using assms(1) by (intro exI [of _ "with_server ss r"]) auto
  next
    assume q: "q = ReqSend hi sid b"
    obtain rt s1 where s: "send_socket sid b hi None (pop_pipe (rc_server r)) = (rt, s1)" by fastforce
    then have d: "dec_sending_ref sid s1 = Some ss" using assms(4) p q by (auto simp: bind_eq_Some_conv)
    let ?h = "hi \<or> send_buffer_empty (ss_slot (rc_server r) (hash_id sid))"
    let ?q = "with_server s1 (queue_record ?h (r\<lparr>rc_dec := True\<rparr>))"
    have 1: "race_step sid r ?q" using race_step.take_send assms(1,2) q s by blast
    have 2: "race_step sid ?q (with_server ss (?q\<lparr>rc_dec := False\<rparr>))" using race_step.uncount [of ?q sid ss] d by simp
    show ?thesis using 1 2
      by (intro exI [of _ "with_server ss (?q\<lparr>rc_dec := False\<rparr>)"]) (auto intro: converse_rtranclp_into_rtranclp)
  qed
qed

section \<open>Properties\<close>

text \<open>One socket connected; sender 1 has written one of three bytes directly, sender 2 has queued a message.\<close>

definition demo_race :: race where
  "demo_race = \<lparr>rc_server = after opened_ops (opened_io @ [Done 1]) [], rc_pc = \<lambda>t. Ready, rc_dec = False,
     rc_sent = [], rc_dw = [], rc_high = [], rc_low = [], rc_pipe = [], rc_log = []\<rparr>"

definition demo_moves :: "move list" where
  "demo_moves = Begin 1 True [1, 2, 3] # replicate 11 (Go 1) @ Begin 2 True [4] # replicate 5 (Go 2)"

definition raced :: race where
  "raced = the (race_run 1 demo_moves demo_race)"

lemma demo_race_init: "race_init 1 demo_race"
proof -
  have "runs opened_ops (opened_io @ [Done 1]) []" by code_simp
  then have "run_inv (rc_server demo_race)" using sockets.reach_inv [OF after_reach] by (simp add: demo_race_def)
  then have "sock_ok (ss_slot (rc_server demo_race) (hash_id 1))" by (simp add: run_inv_def)
  moreover have "steady 1 (ss_slot (rc_server demo_race) (hash_id 1))" "send_buffer_empty (ss_slot (rc_server demo_race) (hash_id 1))"
    "sk_dw_buffer (ss_slot (rc_server demo_race) (hash_id 1)) = None" "\<not> sk_locked (ss_slot (rc_server demo_race) (hash_id 1))"
    "sk_sending (ss_slot (rc_server demo_race) (hash_id 1)) = push_bit 16 (id_tag16 1)" "ss_pipe (rc_server demo_race) = []"
    "ss_io (rc_server demo_race) = [Done 1]" "wired (sk_fd (ss_slot (rc_server demo_race) (hash_id 1))) (rc_server demo_race) = []"
    by code_simp+
  ultimately show ?thesis by (simp add: race_init_def demo_race_def Let_def calm_def)
qed

lemma raced_reach: "reach (race_init 1) (race_step 1) raced"
proof -
  have "\<not> Option.is_none (race_run 1 demo_moves demo_race)" by code_simp
  then have "race_run 1 demo_moves demo_race = Some raced" by (auto simp: raced_def Option.is_none_def)
  then show ?thesis by (rule race_run_reach [OF _ reach_init, OF _ demo_race_init])
qed

lemma sent_and_first:
  assumes "data_inv sid r"
  shows "\<exists>n. wired (sk_fd (ss_slot (rc_server r) (hash_id sid))) (rc_server r) =
    texts (rc_sent r) @ take n (texts (take 1 (rc_dw r @ rc_high r)))"
proof -
  let ?s = "ss_slot (rc_server r) (hash_id sid)"
  let ?w = "wired (sk_fd ?s) (rc_server r)"
  note d = assms [unfolded data_inv_def Let_def]
  have busy: "\<not> idle_type (sk_type ?s)" using d by (simp add: steady_def idle_type_def)
  then have low: "fresh (sk_low ?s)" using d by (simp add: sock_ok_def)
  have b: "map wb_blob (dw_list ?s @ sk_high ?s) = blobs (rc_dw r @ rc_high r)" using d by simp
  have "?w @ to_send (dw_list ?s @ sk_high ?s) @ to_send (sk_low ?s) =
      texts (rc_sent r) @ texts (rc_dw r @ rc_high r) @ texts (rc_low r)"
    using d by (simp add: all_queued_def)
  moreover have "to_send (sk_low ?s) = texts (rc_low r)" using fresh_texts [OF _ low] d by simp
  ultimately have e: "?w @ to_send (dw_list ?s @ sk_high ?s) = texts (rc_sent r) @ texts (rc_dw r @ rc_high r)" by simp
  show ?thesis
  proof (cases "dw_list ?s @ sk_high ?s")
    case Nil
    then have "rc_dw r @ rc_high r = []" using b by (simp add: blobs_def)
    then show ?thesis using e Nil by simp
  next
    case (Cons wb wbs)
    then obtain x xs where x: "rc_dw r @ rc_high r = x # xs" using b by (cases "rc_dw r @ rc_high r") auto
    have m: "wb_blob wb = Mem (snd (snd x))" "map wb_blob wbs = blobs xs" using b unfolding Cons x by simp_all
    have "fresh wbs" using Cons d busy
      by (cases "sk_dw_buffer ?s") (auto simp: sock_ok_def base_ok_def dw_list_def)
    then have "to_send wbs = texts xs" using fresh_texts m(2) by blast
    then have "?w @ wb_data wb = texts (rc_sent r) @ snd (snd x)" using e unfolding Cons x by simp
    moreover have "snd (snd x) = take (wb_off wb) (snd (snd x)) @ wb_data wb" using m(1) by (simp add: wb_data_def)
    ultimately have "?w = texts (rc_sent r) @ take (wb_off wb) (snd (snd x))" by (metis append.assoc append_same_eq)
    then show ?thesis unfolding x by auto
  qed
qed

text \<open>C3: Services may send to a TCP socket at the same time, directly or through the socket thread, in any
  interleaving: the bytes on the wire are whole messages, but for a part of the first one that waits; what waits in
  the queues and in \<open>dw_buffer\<close> are the other messages; the messages of high priority of each service go out
  in the order it sent them; and none is lost or sent twice.\<close>

theorem socket_senders_in_order:
  assumes "reach (race_init sid) (race_step sid) r"
  shows "(\<exists>n. wired (sk_fd (ss_slot (rc_server r) (hash_id sid))) (rc_server r) =
      texts (rc_sent r) @ take n (texts (take 1 (rc_dw r @ rc_high r)))) \<and>
    map wb_blob (all_queued (ss_slot (rc_server r) (hash_id sid))) = blobs (rc_dw r @ rc_high r @ rc_low r) \<and>
    own t (rc_sent r @ rc_dw r @ rc_high r @ rc_pipe r) = own t (rc_log r) \<and>
    mset (rc_sent r @ rc_dw r @ rc_high r @ rc_low r @ rc_pipe r) = mset (rc_log r)"
proof -
  have inv: "race_inv sid r" using senders.reach_inv assms by blast
  have "map wb_blob (all_queued (ss_slot (rc_server r) (hash_id sid))) = blobs (rc_dw r @ rc_high r @ rc_low r)"
    using inv_parts(1) [OF inv] by (simp add: data_inv_def all_queued_def Let_def)
  then show ?thesis using sent_and_first [OF inv_parts(1) [OF inv]] inv_parts(6) [OF inv] unfolding order_inv_def by blast
qed

lemma socket_senders_in_order_witness:
  "(\<exists>n. wired (sk_fd (ss_slot (rc_server raced) (hash_id 1))) (rc_server raced) =
      texts (rc_sent raced) @ take n (texts (take 1 (rc_dw raced @ rc_high raced)))) \<and>
    map wb_blob (all_queued (ss_slot (rc_server raced) (hash_id 1))) = blobs (rc_dw raced @ rc_high raced @ rc_low raced) \<and>
    own 2 (rc_sent raced @ rc_dw raced @ rc_high raced @ rc_pipe raced) = own 2 (rc_log raced) \<and>
    mset (rc_sent raced @ rc_dw raced @ rc_high raced @ rc_low raced @ rc_pipe raced) = mset (rc_log raced)"
  by (rule socket_senders_in_order [OF raced_reach])

text \<open>The state of the witness is the one it is meant to be.\<close>

lemma raced_state:
  "rc_dw raced = [(1, True, [1, 2, 3])]" "rc_pipe raced = [(2, True, [4])]" "rc_sent raced = []"
  "wired (sk_fd (ss_slot (rc_server raced) (hash_id 1))) (rc_server raced) = [1]"
  by code_simp+

text \<open>C4: As long as anything waits to be sent, the socket thread will hear of it: the write event is enabled, the
  request to enable it is in the pipe, or a sender is about to put it there.\<close>

theorem socket_senders_no_lost_wakeup:
  assumes "reach (race_init sid) (race_step sid) r" "all_queued (ss_slot (rc_server r) (hash_id sid)) \<noteq> []"
  shows "sk_writing (ss_slot (rc_server r) (hash_id sid)) \<or> ReqWrite sid \<in> set (ss_pipe (rc_server r)) \<or>
    (\<exists>t. rc_pc r t = Unlocking True \<or> rc_pc r t = Telling)"
proof -
  have "will_tell p \<Longrightarrow> p = Unlocking True \<or> p = Telling" for p by (cases p) auto
  moreover have "wake_inv sid r" using senders.reach_inv [OF assms(1)] by (rule inv_parts)
  ultimately show ?thesis using assms(2) unfolding wake_inv_def Let_def by blast
qed

lemma socket_senders_no_lost_wakeup_witness:
  "sk_writing (ss_slot (rc_server raced) (hash_id 1)) \<or> ReqWrite 1 \<in> set (ss_pipe (rc_server raced)) \<or>
    (\<exists>t. rc_pc raced t = Unlocking True \<or> rc_pc raced t = Telling)"
  by (rule socket_senders_no_lost_wakeup [OF raced_reach]) code_simp



text \<open>No assert fails: the count of messages is not zero when one is taken off, and the queues are as \<open>send_buffer_\<close> wants them.\<close>

lemma senders_no_abort:
  assumes "reach (race_init sid) (race_step sid) r"
  shows "rc_dec r \<Longrightarrow> dec_sending_ref sid (rc_server r) \<noteq> None" "send_buffer (hash_id sid) (rc_server r) \<noteq> None"
proof -
  let ?s = "ss_slot (rc_server r) (hash_id sid)"
  have inv: "race_inv sid r" using senders.reach_inv assms by blast
  note d = inv_parts(1) [OF inv, unfolded data_inv_def Let_def]
  show "dec_sending_ref sid (rc_server r) \<noteq> None" if "rc_dec r"
  proof -
    have n: "in_flight r < 65536" "sk_sending ?s = counted sid (in_flight r)" "in_flight r \<noteq> 0"
      using inv_parts(3) [OF inv] that by (auto simp: count_inv_def in_flight_def)
    then have "sk_sending ?s AND 0xffff \<noteq> 0" using counted_low [OF n(1)] of_nat_zero [OF n(1)] by simp
    then show ?thesis by (simp add: dec_sending_ref_def Let_def)
  qed
  have "\<not> is_object (wb_blob wb)" if "wb \<in> set (sk_low ?s)" for wb
  proof -
    have "wb_blob wb \<in> set (blobs (rc_low r))" using that d by (metis imageI list.set_map)
    then show ?thesis by (auto simp: blobs_def)
  qed
  then show "send_buffer (hash_id sid) (rc_server r) \<noteq> None"
    using send_buffer_total [of "rc_server r" "hash_id sid"] d by (auto simp: tcp_open_def steady_def idle_type_def)
qed

end
