(* ===== verification/Seri.thy ===== *)
theory Seri
  imports Endian
begin

text \<open>
  \<open>skynet/lualib-src/lua-seri.c\<close>: the serialisation of Lua values between services and nodes.
  A Lua value is a tree: \<open>LTable arr es\<close> is a table whose values at 1..\<open>lua_rawlen\<close> are \<open>arr\<close>
  and that \<open>lua_next\<close> traverses as \<open>es\<close>, \<open>LPairs es e\<close> is a table with a \<open>__pairs\<close> metamethod that
  yields the pairs \<open>es\<close> and then ends or, when \<open>e\<close>, raises an error, \<open>LOther\<close> is a function, thread
  or full userdata. A double and a pointer are their 64 bits. The Lua stack and memory are unbounded.
\<close>

section \<open>Values and blocks\<close>

datatype lua = LNil | LBool bool | LInt u64 | LReal u64 | LPtr u64 | LStr bytes
  | LTable "lua list" "(lua \<times> lua) list" | LPairs "(lua \<times> lua) list" bool | LOther

definition TYPE_NIL :: nat where "TYPE_NIL = 0"
definition TYPE_BOOLEAN :: nat where "TYPE_BOOLEAN = 1"
definition TYPE_NUMBER :: nat where "TYPE_NUMBER = 2"
definition TYPE_NUMBER_ZERO :: int where "TYPE_NUMBER_ZERO = 0"
definition TYPE_NUMBER_BYTE :: int where "TYPE_NUMBER_BYTE = 1"
definition TYPE_NUMBER_WORD :: int where "TYPE_NUMBER_WORD = 2"
definition TYPE_NUMBER_DWORD :: int where "TYPE_NUMBER_DWORD = 4"
definition TYPE_NUMBER_QWORD :: int where "TYPE_NUMBER_QWORD = 6"
definition TYPE_NUMBER_REAL :: int where "TYPE_NUMBER_REAL = 8"
definition TYPE_USERDATA :: nat where "TYPE_USERDATA = 3"
definition TYPE_SHORT_STRING :: nat where "TYPE_SHORT_STRING = 4"
definition TYPE_LONG_STRING :: nat where "TYPE_LONG_STRING = 5"
definition TYPE_TABLE :: nat where "TYPE_TABLE = 6"
definition MAX_COOKIE :: int where "MAX_COOKIE = 32"
definition MAX_DEPTH :: nat where "MAX_DEPTH = 32"
definition BLOCK_SIZE :: nat where "BLOCK_SIZE = 128"

text \<open>A C \<open>int\<close> and what a \<open>size_t\<close> becomes as one.\<close>

definition c_int :: "nat \<Rightarrow> int" where
  "c_int n = sint (of_nat n :: u32)"

definition INT_MAX :: nat where "INT_MAX = 2147483647"

definition COMBINE_TYPE :: "nat \<Rightarrow> int \<Rightarrow> u8" where
  "COMBINE_TYPE t v = of_nat t OR push_bit 3 (of_int v)"

text \<open>The chain of blocks: the full ones and the used part of the current one.\<close>

record write_block =
  wb_full :: "bytes list"
  wb_cur :: bytes
  wb_len :: nat

definition wb_init :: write_block where
  "wb_init = \<lparr>wb_full = [], wb_cur = [], wb_len = 0\<rparr>"

text \<open>\<open>None\<close> is a write outside the current block or an overflow of the total length.\<close>

function wb_push :: "bytes \<Rightarrow> write_block \<Rightarrow> write_block option" where
  "wb_push buf b =
     (if length (wb_cur b) > BLOCK_SIZE \<or> wb_len b + length buf > INT_MAX then None
      else
        (let b = (if length (wb_cur b) = BLOCK_SIZE then b\<lparr>wb_full := wb_full b @ [wb_cur b], wb_cur := []\<rparr> else b) in
         if length (wb_cur b) + length buf \<le> BLOCK_SIZE
         then Some (b\<lparr>wb_cur := wb_cur b @ buf, wb_len := wb_len b + length buf\<rparr>)
         else
           (let copy = BLOCK_SIZE - length (wb_cur b) in
            wb_push (drop copy buf) (b\<lparr>wb_cur := wb_cur b @ take copy buf, wb_len := wb_len b + copy\<rparr>))))"
  by pat_completeness auto
termination by (relation "measure (\<lambda>(buf, b). length buf)") (auto simp: BLOCK_SIZE_def)

declare wb_push.simps [simp del]

text \<open>\<open>seri\<close> copies \<open>len\<close> bytes out of the chain.\<close>

fun seri :: "bytes list \<Rightarrow> nat \<Rightarrow> bytes option" where
  "seri bs len =
     (if len = 0 then Some []
      else case bs of
          [] \<Rightarrow> None
        | b # bs \<Rightarrow>
            if len \<ge> BLOCK_SIZE then do { r \<leftarrow> seri bs (len - BLOCK_SIZE); Some (take BLOCK_SIZE b @ r) }
            else Some (take len b))"

declare seri.simps [simp del]

section \<open>Packing\<close>

definition wb_nil :: "write_block \<Rightarrow> write_block option" where
  "wb_nil wb = wb_push [COMBINE_TYPE TYPE_NIL 0] wb"

definition wb_boolean :: "bool \<Rightarrow> write_block \<Rightarrow> write_block option" where
  "wb_boolean b wb = wb_push [COMBINE_TYPE TYPE_BOOLEAN (if b then 1 else 0)] wb"

definition wb_integer :: "u64 \<Rightarrow> write_block \<Rightarrow> write_block option" where
  "wb_integer v wb =
     (if v = 0 then wb_push [COMBINE_TYPE TYPE_NUMBER TYPE_NUMBER_ZERO] wb
      else if v \<noteq> scast (ucast v :: u32) then do {
        wb \<leftarrow> wb_push [COMBINE_TYPE TYPE_NUMBER TYPE_NUMBER_QWORD] wb;
        wb_push (le_bytes 8 (unat v)) wb }
      else if sint v < 0 then do {
        wb \<leftarrow> wb_push [COMBINE_TYPE TYPE_NUMBER TYPE_NUMBER_DWORD] wb;
        wb_push (le_bytes 4 (unat (ucast v :: u32))) wb }
      else if v < 0x100 then do {
        wb \<leftarrow> wb_push [COMBINE_TYPE TYPE_NUMBER TYPE_NUMBER_BYTE] wb;
        wb_push [ucast v] wb }
      else if v < 0x10000 then do {
        wb \<leftarrow> wb_push [COMBINE_TYPE TYPE_NUMBER TYPE_NUMBER_WORD] wb;
        wb_push (le_bytes 2 (unat (ucast v :: u16))) wb }
      else do {
        wb \<leftarrow> wb_push [COMBINE_TYPE TYPE_NUMBER TYPE_NUMBER_DWORD] wb;
        wb_push (le_bytes 4 (unat (ucast v :: u32))) wb })"

definition wb_real :: "u64 \<Rightarrow> write_block \<Rightarrow> write_block option" where
  "wb_real v wb = do {
     wb \<leftarrow> wb_push [COMBINE_TYPE TYPE_NUMBER TYPE_NUMBER_REAL] wb;
     wb_push (le_bytes 8 (unat v)) wb }"

definition wb_pointer :: "u64 \<Rightarrow> write_block \<Rightarrow> write_block option" where
  "wb_pointer v wb = do {
     wb \<leftarrow> wb_push [COMBINE_TYPE TYPE_USERDATA 0] wb;
     wb_push (le_bytes 8 (unat v)) wb }"

definition wb_string :: "bytes \<Rightarrow> write_block \<Rightarrow> write_block option" where
  "wb_string s wb =
     (let len = c_int (length s) in
      if len < MAX_COOKIE then do {
        wb \<leftarrow> wb_push [COMBINE_TYPE TYPE_SHORT_STRING len] wb;
        if len > 0 then wb_push (take (nat len) s) wb else Some wb }
      else do {
        wb \<leftarrow> (if len < 0x10000 then do {
                 wb \<leftarrow> wb_push [COMBINE_TYPE TYPE_LONG_STRING 2] wb;
                 wb_push (le_bytes 2 (nat len)) wb }
               else do {
                 wb \<leftarrow> wb_push [COMBINE_TYPE TYPE_LONG_STRING 4] wb;
                 wb_push (le_bytes 4 (nat len)) wb });
        wb_push (take (nat len) s) wb })"

text \<open>The head of \<open>wb_table_array\<close>.\<close>

definition wb_array_head :: "int \<Rightarrow> write_block \<Rightarrow> write_block option" where
  "wb_array_head array_size wb =
     (if array_size \<ge> MAX_COOKIE - 1 then do {
        wb \<leftarrow> wb_push [COMBINE_TYPE TYPE_TABLE (MAX_COOKIE - 1)] wb;
        wb_integer (of_int array_size) wb }
      else wb_push [COMBINE_TYPE TYPE_TABLE array_size] wb)"

text \<open>The keys \<open>wb_table_hash\<close> skips.\<close>

definition array_key :: "int \<Rightarrow> lua \<Rightarrow> bool" where
  "array_key array_size k = (case k of LInt x \<Rightarrow> 0 < sint x \<and> sint x \<le> array_size | _ \<Rightarrow> False)"

text \<open>
  \<open>pack_one\<close> with the loops of \<open>wb_table_array\<close> (over the first \<open>n\<close> values), \<open>wb_table_hash\<close> and
  \<open>wb_table_metapairs\<close>. \<open>None\<close> is also a Lua error, raised after the blocks are freed.
\<close>

function (sequential) pack_one :: "nat \<Rightarrow> lua \<Rightarrow> write_block \<Rightarrow> write_block option"
  and pack_array :: "nat \<Rightarrow> int \<Rightarrow> lua list \<Rightarrow> write_block \<Rightarrow> write_block option"
  and pack_hash :: "nat \<Rightarrow> int \<Rightarrow> (lua \<times> lua) list \<Rightarrow> write_block \<Rightarrow> write_block option"
  and pack_metapairs :: "nat \<Rightarrow> (lua \<times> lua) list \<Rightarrow> write_block \<Rightarrow> write_block option" where
  "pack_one depth v b =
     (if depth > MAX_DEPTH then None
      else case v of
          LNil \<Rightarrow> wb_nil b
        | LInt x \<Rightarrow> wb_integer x b
        | LReal n \<Rightarrow> wb_real n b
        | LBool x \<Rightarrow> wb_boolean x b
        | LStr s \<Rightarrow> wb_string s b
        | LPtr p \<Rightarrow> wb_pointer p b
        | LTable arr es \<Rightarrow> do {
            b \<leftarrow> wb_array_head (c_int (length arr)) b;
            b \<leftarrow> pack_array (depth + 1) (c_int (length arr)) arr b;
            b \<leftarrow> pack_hash (depth + 1) (c_int (length arr)) es b;
            wb_nil b }
        | LPairs es fails \<Rightarrow> do {
            b \<leftarrow> wb_push [COMBINE_TYPE TYPE_TABLE 0] b;
            b \<leftarrow> pack_metapairs (depth + 1) es b;
            if fails then None else wb_nil b }
        | LOther \<Rightarrow> None)"
| "pack_array depth n [] b = Some b"
| "pack_array depth n (v # vs) b =
     (if n \<le> 0 then Some b else do { b \<leftarrow> pack_one depth v b; pack_array depth (n - 1) vs b })"
| "pack_hash depth n [] b = Some b"
| "pack_hash depth n ((k, v) # es) b =
     (if array_key n k then pack_hash depth n es b
      else do {
        b \<leftarrow> pack_one depth k b;
        b \<leftarrow> pack_one depth v b;
        pack_hash depth n es b })"
| "pack_metapairs depth [] b = Some b"
| "pack_metapairs depth ((k, v) # es) b = do {
     b \<leftarrow> pack_one depth k b;
     b \<leftarrow> pack_one depth v b;
     pack_metapairs depth es b }"
  by pat_completeness auto
termination
  by (relation "measure (case_sum (case_sum (\<lambda>(d, v, b). size v) (\<lambda>(d, n, vs, b). size_list size vs))
        (case_sum (\<lambda>(d, n, es, b). size_list (size_prod size size) es) (\<lambda>(d, es, b). size_list (size_prod size size) es)))") auto

declare pack_one.simps [simp del]

fun pack_from :: "lua list \<Rightarrow> write_block \<Rightarrow> write_block option" where
  "pack_from [] b = Some b"
| "pack_from (v # vs) b = do { b \<leftarrow> pack_one 0 v b; pack_from vs b }"

definition luaseri_pack :: "lua list \<Rightarrow> bytes option" where
  "luaseri_pack vs = do {
     wb \<leftarrow> pack_from vs wb_init;
     seri (wb_full wb @ [wb_cur wb]) (wb_len wb) }"

section \<open>Unpacking\<close>

text \<open>
  \<open>Invalid\<close> is the error \<open>invalid_stream\<close> or one raised by Lua, \<open>Fuel\<close> the end of the fuel.
\<close>

datatype 'a res = Ok 'a | Invalid | Fuel

fun rbind :: "'a res \<Rightarrow> ('a \<Rightarrow> 'b res) \<Rightarrow> 'b res" where
  "rbind (Ok x) f = f x"
| "rbind Invalid f = Invalid"
| "rbind Fuel f = Fuel"

definition rb_read :: "nat \<Rightarrow> bytes \<Rightarrow> (bytes \<times> bytes) res" where
  "rb_read sz rb = (if length rb < sz then Invalid else Ok (take sz rb, drop sz rb))"

definition get_integer :: "int \<Rightarrow> bytes \<Rightarrow> (u64 \<times> bytes) res" where
  "get_integer cookie rb =
     (if cookie = TYPE_NUMBER_ZERO then Ok (0, rb)
      else if cookie = TYPE_NUMBER_BYTE then rbind (rb_read 1 rb) (\<lambda>(p, rb). Ok (of_nat (un_le p), rb))
      else if cookie = TYPE_NUMBER_WORD then rbind (rb_read 2 rb) (\<lambda>(p, rb). Ok (of_nat (un_le p), rb))
      else if cookie = TYPE_NUMBER_DWORD then rbind (rb_read 4 rb) (\<lambda>(p, rb). Ok (scast (of_nat (un_le p) :: u32), rb))
      else if cookie = TYPE_NUMBER_QWORD then rbind (rb_read 8 rb) (\<lambda>(p, rb). Ok (of_nat (un_le p), rb))
      else Invalid)"

definition get_real :: "bytes \<Rightarrow> (u64 \<times> bytes) res" where
  "get_real rb = rbind (rb_read 8 rb) (\<lambda>(p, rb). Ok (of_nat (un_le p), rb))"

definition get_pointer :: "bytes \<Rightarrow> (u64 \<times> bytes) res" where
  "get_pointer rb = rbind (rb_read 8 rb) (\<lambda>(p, rb). Ok (of_nat (un_le p), rb))"

text \<open>
  The length is an \<open>int\<close>: a negative one passes the check of \<open>rb_read\<close>, but \<open>lua_pushlstring\<close>
  refuses it as too big.
\<close>

definition get_buffer :: "nat \<Rightarrow> bytes \<Rightarrow> (lua \<times> bytes) res" where
  "get_buffer len rb =
     (if c_int len < 0 then Invalid else rbind (rb_read (nat (c_int len)) rb) (\<lambda>(p, rb). Ok (LStr p, rb)))"

text \<open>
  \<open>lua_rawset\<close>: \<open>fkey\<close> is what Lua makes of a double as a key, \<open>None\<close> for NaN. A table as a key is
  always a new one.
\<close>

definition raw_key :: "(u64 \<Rightarrow> lua option) \<Rightarrow> lua \<Rightarrow> lua option" where
  "raw_key fkey k = (case k of LNil \<Rightarrow> None | LReal r \<Rightarrow> fkey r | _ \<Rightarrow> Some k)"

definition is_table :: "lua \<Rightarrow> bool" where
  "is_table k = (case k of LTable _ _ \<Rightarrow> True | LPairs _ _ \<Rightarrow> True | _ \<Rightarrow> False)"

definition put_entry :: "lua \<Rightarrow> lua \<Rightarrow> (lua \<times> lua) list \<Rightarrow> (lua \<times> lua) list" where
  "put_entry k v es =
     (let old = filter (\<lambda>e. is_table k \<or> fst e \<noteq> k) es in if v = LNil then old else old @ [(k, v)])"

definition array_index :: "lua \<Rightarrow> nat" where
  "array_index k = (case k of LInt x \<Rightarrow> nat (sint x) - 1 | _ \<Rightarrow> 0)"

definition rawset :: "(u64 \<Rightarrow> lua option) \<Rightarrow> lua list \<times> (lua \<times> lua) list \<Rightarrow> lua \<Rightarrow> lua
    \<Rightarrow> (lua list \<times> (lua \<times> lua) list) res" where
  "rawset fkey t k v =
     (case raw_key fkey k of
        None \<Rightarrow> Invalid
      | Some k \<Rightarrow>
          Ok (if array_key (int (length (fst t))) k then ((fst t)[array_index k := v], snd t)
              else (fst t, put_entry k v (snd t))))"

text \<open>The parts of \<open>push_value\<close> and \<open>unpack_table\<close> before the loops, over the reader of the rest.\<close>

definition unpack_table :: "(int \<Rightarrow> bytes \<Rightarrow> (lua \<times> bytes) res) \<Rightarrow> int \<Rightarrow> bytes \<Rightarrow> (lua \<times> bytes) res" where
  "unpack_table entries array_size rb =
     (if array_size = MAX_COOKIE - 1 then
        rbind (rb_read 1 rb) (\<lambda>(t, rb).
          let ty = un_le t mod 8; cookie = int (un_le t div 8) in
          if ty \<noteq> TYPE_NUMBER \<or> cookie = TYPE_NUMBER_REAL then Invalid
          else rbind (get_integer cookie rb) (\<lambda>(i, rb). entries (sint (ucast i :: u32)) rb))
      else entries array_size rb)"

definition push_value :: "(int \<Rightarrow> bytes \<Rightarrow> (lua \<times> bytes) res) \<Rightarrow> nat \<Rightarrow> int \<Rightarrow> bytes \<Rightarrow> (lua \<times> bytes) res" where
  "push_value entries ty cookie rb =
     (if ty = TYPE_NIL then Ok (LNil, rb)
      else if ty = TYPE_BOOLEAN then Ok (LBool (cookie \<noteq> 0), rb)
      else if ty = TYPE_NUMBER then
        (if cookie = TYPE_NUMBER_REAL then rbind (get_real rb) (\<lambda>(r, rb). Ok (LReal r, rb))
         else rbind (get_integer cookie rb) (\<lambda>(i, rb). Ok (LInt i, rb)))
      else if ty = TYPE_USERDATA then rbind (get_pointer rb) (\<lambda>(p, rb). Ok (LPtr p, rb))
      else if ty = TYPE_SHORT_STRING then get_buffer (nat cookie) rb
      else if ty = TYPE_LONG_STRING then
        (if cookie = 2 then rbind (rb_read 2 rb) (\<lambda>(p, rb). get_buffer (un_le p) rb)
         else if cookie \<noteq> 4 then Invalid
         else rbind (rb_read 4 rb) (\<lambda>(p, rb). get_buffer (un_le p) rb))
      else if ty = TYPE_TABLE then unpack_table entries cookie rb
      else Invalid)"

text \<open>\<open>unpack_one\<close> and the two loops of \<open>unpack_table\<close>.\<close>

fun unpack_one :: "(u64 \<Rightarrow> lua option) \<Rightarrow> nat \<Rightarrow> bytes \<Rightarrow> (lua \<times> bytes) res"
  and unpack_array :: "(u64 \<Rightarrow> lua option) \<Rightarrow> nat \<Rightarrow> lua list \<Rightarrow> int \<Rightarrow> bytes \<Rightarrow> (lua \<times> bytes) res"
  and unpack_pairs :: "(u64 \<Rightarrow> lua option) \<Rightarrow> nat \<Rightarrow> lua list \<times> (lua \<times> lua) list \<Rightarrow> bytes \<Rightarrow> (lua \<times> bytes) res" where
  "unpack_one fkey 0 rb = Fuel"
| "unpack_one fkey (Suc n) rb =
     rbind (rb_read 1 rb) (\<lambda>(t, rb).
       push_value (unpack_array fkey n []) (un_le t mod 8) (int (un_le t div 8)) rb)"
| "unpack_array fkey 0 vs k rb = Fuel"
| "unpack_array fkey (Suc n) vs k rb =
     (if k \<le> 0 then unpack_pairs fkey n (vs, []) rb
      else rbind (unpack_one fkey n rb) (\<lambda>(v, rb). unpack_array fkey n (vs @ [v]) (k - 1) rb))"
| "unpack_pairs fkey 0 t rb = Fuel"
| "unpack_pairs fkey (Suc n) t rb =
     rbind (unpack_one fkey n rb) (\<lambda>(k, rb).
       if k = LNil then Ok (LTable (fst t) (snd t), rb)
       else rbind (unpack_one fkey n rb) (\<lambda>(v, rb).
         rbind (rawset fkey t k v) (\<lambda>t. unpack_pairs fkey n t rb)))"

text \<open>The loop of \<open>luaseri_unpack\<close>.\<close>

fun unpack_all :: "(u64 \<Rightarrow> lua option) \<Rightarrow> nat \<Rightarrow> bytes \<Rightarrow> lua list res" where
  "unpack_all fkey 0 rb = Fuel"
| "unpack_all fkey (Suc n) rb =
     (if rb = [] then Ok []
      else rbind (unpack_one fkey n rb) (\<lambda>(v, rb). rbind (unpack_all fkey n rb) (\<lambda>vs. Ok (v # vs))))"

definition luaseri_unpack :: "(u64 \<Rightarrow> lua option) \<Rightarrow> bytes \<Rightarrow> lua list res" where
  "luaseri_unpack fkey buffer = unpack_all fkey (4 * length buffer + 4) buffer"

end
