(* ===== verification/SeriSpec.thy ===== *)
theory SeriSpec
  imports Seri
begin

text \<open>
  The byte format of \<open>Seri\<close> as a function of the value, and what packing and unpacking do: the
  chain of blocks is the concatenation of what is pushed, unpacking is the inverse of packing up to
  the order of the array part, and its fuel always suffices.
\<close>

section \<open>The format\<close>

definition enc_int :: "u64 \<Rightarrow> bytes" where
  "enc_int v =
     (if v = 0 then [COMBINE_TYPE TYPE_NUMBER TYPE_NUMBER_ZERO]
      else if v \<noteq> scast (ucast v :: u32) then COMBINE_TYPE TYPE_NUMBER TYPE_NUMBER_QWORD # le_bytes 8 (unat v)
      else if sint v < 0 then COMBINE_TYPE TYPE_NUMBER TYPE_NUMBER_DWORD # le_bytes 4 (unat (ucast v :: u32))
      else if v < 0x100 then [COMBINE_TYPE TYPE_NUMBER TYPE_NUMBER_BYTE, ucast v]
      else if v < 0x10000 then COMBINE_TYPE TYPE_NUMBER TYPE_NUMBER_WORD # le_bytes 2 (unat (ucast v :: u16))
      else COMBINE_TYPE TYPE_NUMBER TYPE_NUMBER_DWORD # le_bytes 4 (unat (ucast v :: u32)))"

definition enc_str :: "bytes \<Rightarrow> bytes" where
  "enc_str s =
     (let len = c_int (length s) in
      if len < MAX_COOKIE then COMBINE_TYPE TYPE_SHORT_STRING len # take (nat len) s
      else if len < 0x10000 then COMBINE_TYPE TYPE_LONG_STRING 2 # le_bytes 2 (nat len) @ take (nat len) s
      else COMBINE_TYPE TYPE_LONG_STRING 4 # le_bytes 4 (nat len) @ take (nat len) s)"

definition enc_head :: "int \<Rightarrow> bytes" where
  "enc_head n =
     (if n \<ge> MAX_COOKIE - 1 then COMBINE_TYPE TYPE_TABLE (MAX_COOKIE - 1) # enc_int (of_int n)
      else [COMBINE_TYPE TYPE_TABLE n])"

definition enc_nil :: bytes where
  "enc_nil = [COMBINE_TYPE TYPE_NIL 0]"

lemma size_take_le [termination_simp]: "x \<in> set (take n xs) \<Longrightarrow> size x < Suc (size_list size xs + m)"
  using size_list_estimation' [where f = size, OF in_set_takeD order_refl, of x n xs] by simp

lemma size_mem_le: "x \<in> set xs \<Longrightarrow> size x < Suc (size_list size xs + m)"
  using size_list_estimation' [where f = size, OF _ order_refl, of x xs] by simp

lemma size_filter_le [termination_simp]: "size_list f (filter p xs) < Suc (m + size_list f xs)"
  by (induction xs) auto

function (sequential) enc :: "lua \<Rightarrow> bytes"
  and enc_pairs :: "(lua \<times> lua) list \<Rightarrow> bytes" where
  "enc LNil = enc_nil"
| "enc (LBool b) = [COMBINE_TYPE TYPE_BOOLEAN (if b then 1 else 0)]"
| "enc (LInt v) = enc_int v"
| "enc (LReal v) = COMBINE_TYPE TYPE_NUMBER TYPE_NUMBER_REAL # le_bytes 8 (unat v)"
| "enc (LPtr v) = COMBINE_TYPE TYPE_USERDATA 0 # le_bytes 8 (unat v)"
| "enc (LStr s) = enc_str s"
| "enc (LTable arr es) =
     enc_head (c_int (length arr)) @ concat (map enc (take (nat (c_int (length arr))) arr))
     @ enc_pairs (filter (\<lambda>e. \<not> array_key (c_int (length arr)) (fst e)) es) @ enc_nil"
| "enc (LPairs es fails) = enc_head 0 @ enc_pairs es @ enc_nil"
| "enc LOther = []"
| "enc_pairs [] = []"
| "enc_pairs ((k, v) # es) = enc k @ enc v @ enc_pairs es"
  by pat_completeness auto

termination
  by (relation "measure (case_sum size (size_list (size_prod size size)))") (auto simp: size_take_le size_filter_le)

text \<open>The values that can be packed \<open>d\<close> tables deep.\<close>

function (sequential) packable :: "nat \<Rightarrow> lua \<Rightarrow> bool"
  and packable_pairs :: "nat \<Rightarrow> (lua \<times> lua) list \<Rightarrow> bool" where
  "packable d LOther \<longleftrightarrow> False"
| "packable d (LTable arr es) \<longleftrightarrow> d \<le> MAX_DEPTH
     \<and> (\<forall>v \<in> set (take (nat (c_int (length arr))) arr). packable (d + 1) v)
     \<and> packable_pairs (d + 1) (filter (\<lambda>e. \<not> array_key (c_int (length arr)) (fst e)) es)"
| "packable d (LPairs es fails) \<longleftrightarrow> d \<le> MAX_DEPTH \<and> \<not> fails \<and> packable_pairs (d + 1) es"
| "packable d v \<longleftrightarrow> d \<le> MAX_DEPTH"
| "packable_pairs d [] \<longleftrightarrow> True"
| "packable_pairs d ((k, v) # es) \<longleftrightarrow> packable d k \<and> packable d v \<and> packable_pairs d es"
  by pat_completeness auto
termination
  by (relation "measure (case_sum (\<lambda>(d, v). size v) (\<lambda>(d, es). size_list (size_prod size size) es))")
    (auto simp: size_take_le size_filter_le)

text \<open>A table without the entries \<open>wb_table_hash\<close> skips, and the one made by \<open>__pairs\<close>.\<close>

function (sequential) strip :: "lua \<Rightarrow> lua"
  and strip_pairs :: "(lua \<times> lua) list \<Rightarrow> (lua \<times> lua) list" where
  "strip (LTable arr es) =
     LTable (map strip arr) (strip_pairs (filter (\<lambda>e. \<not> array_key (int (length arr)) (fst e)) es))"
| "strip (LPairs es fails) = LTable [] (strip_pairs es)"
| "strip v = v"
| "strip_pairs [] = []"
| "strip_pairs ((k, v) # es) = (strip k, strip v) # strip_pairs es"
  by pat_completeness auto
termination
  by (relation "measure (case_sum size (size_list (size_prod size size)))") (auto simp: size_filter_le size_mem_le)

text \<open>
  The values Lua has: strings and arrays below 2 GB, keys that are not nil nor NaN and as Lua stores
  them, no two equal keys and no nil values in a table.
\<close>

function (sequential) sane :: "(u64 \<Rightarrow> lua option) \<Rightarrow> lua \<Rightarrow> bool"
  and sane_pairs :: "(u64 \<Rightarrow> lua option) \<Rightarrow> (lua \<times> lua) list \<Rightarrow> bool" where
  "sane fkey (LTable arr es) \<longleftrightarrow> length arr \<le> INT_MAX \<and> (\<forall>v \<in> set arr. sane fkey v)
     \<and> sane_pairs fkey (filter (\<lambda>e. \<not> array_key (int (length arr)) (fst e)) es)"
| "sane fkey (LPairs es fails) \<longleftrightarrow> sane_pairs fkey es"
| "sane fkey (LStr s) \<longleftrightarrow> length s \<le> INT_MAX"
| "sane fkey LOther \<longleftrightarrow> False"
| "sane fkey v \<longleftrightarrow> True"
| "sane_pairs fkey [] \<longleftrightarrow> True"
| "sane_pairs fkey ((k, v) # es) \<longleftrightarrow> sane fkey k \<and> sane fkey v \<and> v \<noteq> LNil \<and> raw_key fkey k = Some k
     \<and> (is_table k \<or> k \<notin> fst ` set es) \<and> sane_pairs fkey es"
  by pat_completeness auto
termination
  by (relation "measure (case_sum (\<lambda>(f, v). size v) (\<lambda>(f, es). size_list (size_prod size size) es))")
    (auto simp: size_filter_le size_mem_le)

section \<open>The chain of blocks\<close>

text \<open>The chain holds the bytes \<open>bs\<close>.\<close>

definition wb_rel :: "write_block \<Rightarrow> bytes \<Rightarrow> bool" where
  "wb_rel wb bs \<longleftrightarrow> (\<forall>b \<in> set (wb_full wb). length b = BLOCK_SIZE) \<and> length (wb_cur wb) \<le> BLOCK_SIZE
     \<and> concat (wb_full wb) @ wb_cur wb = bs \<and> wb_len wb = length bs \<and> length bs \<le> INT_MAX"

lemma wb_rel_init: "wb_rel wb_init []"
  by (simp add: wb_rel_def wb_init_def BLOCK_SIZE_def)

lemma wb_push_over: "wb_rel wb bs \<Longrightarrow> length bs + length buf > INT_MAX \<Longrightarrow> wb_push buf wb = None"
  by (subst wb_push.simps) (simp add: wb_rel_def)

lemma wb_push_rel:
  "wb_rel wb bs \<Longrightarrow> length bs + length buf \<le> INT_MAX \<Longrightarrow> \<exists>wb'. wb_push buf wb = Some wb' \<and> wb_rel wb' (bs @ buf)"
proof (induction buf wb arbitrary: bs rule: wb_push.induct)
  case (1 buf b)
  define b' where "b' = (if length (wb_cur b) = BLOCK_SIZE then b\<lparr>wb_full := wb_full b @ [wb_cur b], wb_cur := []\<rparr> else b)"
  have r: "wb_rel b' bs" using 1(2) by (auto simp: b'_def wb_rel_def)
  have nc: "\<not> (length (wb_cur b) > BLOCK_SIZE \<or> wb_len b + length buf > INT_MAX)"
    using 1(2,3) by (auto simp: wb_rel_def)
  have e: "wb_push buf b = (if length (wb_cur b') + length buf \<le> BLOCK_SIZE
         then Some (b'\<lparr>wb_cur := wb_cur b' @ buf, wb_len := wb_len b' + length buf\<rparr>)
         else wb_push (drop (BLOCK_SIZE - length (wb_cur b')) buf)
           (b'\<lparr>wb_cur := wb_cur b' @ take (BLOCK_SIZE - length (wb_cur b')) buf, wb_len := wb_len b' + (BLOCK_SIZE - length (wb_cur b'))\<rparr>))"
    using nc by (subst wb_push.simps) (simp add: b'_def Let_def)
  show ?case
  proof (cases "length (wb_cur b') + length buf \<le> BLOCK_SIZE")
    case True
    then show ?thesis using e r 1(3) by (auto simp: wb_rel_def)
  next
    case False
    let ?c = "BLOCK_SIZE - length (wb_cur b')"
    let ?b = "b'\<lparr>wb_cur := wb_cur b' @ take ?c buf, wb_len := wb_len b' + ?c\<rparr>"
    have "wb_rel ?b (bs @ take ?c buf)" using r False 1(3) by (auto simp: wb_rel_def min_def)
    moreover have "length (bs @ take ?c buf) + length (drop ?c buf) \<le> INT_MAX" using False 1(3) by simp
    ultimately have "\<exists>wb'. wb_push (drop ?c buf) ?b = Some wb' \<and> wb_rel wb' ((bs @ take ?c buf) @ drop ?c buf)"
      by (rule 1(1) [OF nc b'_def False refl])
    then show ?thesis using e False by simp
  qed
qed

lemma seri_blocks:
  assumes "\<forall>b \<in> set bs. length b = BLOCK_SIZE" "length c \<le> BLOCK_SIZE"
  shows "seri (bs @ [c]) (length (concat bs) + length c) = Some (concat bs @ c)"
  using assms
proof (induction bs)
  case Nil
  then show ?case by (auto simp: seri.simps)
next
  case (Cons b bs)
  then show ?case by (subst seri.simps) (auto simp: BLOCK_SIZE_def)
qed

lemma seri_rel: "wb_rel wb bs \<Longrightarrow> seri (wb_full wb @ [wb_cur wb]) (wb_len wb) = Some bs"
  using seri_blocks [of "wb_full wb" "wb_cur wb"] by (auto simp: wb_rel_def)

text \<open>A writer that appends \<open>e\<close> when \<open>c\<close> holds, and fails otherwise.\<close>

definition writes :: "bool \<Rightarrow> (write_block \<Rightarrow> write_block option) \<Rightarrow> bytes \<Rightarrow> bool" where
  "writes c f e \<longleftrightarrow> (\<forall>wb bs. wb_rel wb bs \<longrightarrow>
     (if c \<and> length bs + length e \<le> INT_MAX then \<exists>wb'. f wb = Some wb' \<and> wb_rel wb' (bs @ e) else f wb = None))"

named_theorems writes_intro \<open>writers and what they append\<close>

lemma writesD:
  assumes "writes c f e" "wb_rel wb bs"
  shows "c \<Longrightarrow> length bs + length e \<le> INT_MAX \<Longrightarrow> \<exists>wb'. f wb = Some wb' \<and> wb_rel wb' (bs @ e)"
    and "\<not> (c \<and> length bs + length e \<le> INT_MAX) \<Longrightarrow> f wb = None"
  using assms by (auto simp: writes_def)

lemma writes_push [writes_intro]: "writes True (wb_push e) e"
  using wb_push_rel wb_push_over by (auto simp: writes_def)

lemma writes_Some [writes_intro]: "writes True Some []"
  by (auto simp: writes_def wb_rel_def)

lemma writes_None: "writes False (\<lambda>wb. None) e"
  by (simp add: writes_def)

lemma writes_False: "writes False f e \<Longrightarrow> writes False f e'"
  by (simp add: writes_def)

lemma writes_bind:
  assumes "writes c f e" "writes c' g e'"
  shows "writes (c \<and> c') (\<lambda>wb. f wb \<bind> g) (e @ e')"
  unfolding writes_def
proof (intro allI impI)
  fix wb bs
  assume r: "wb_rel wb bs"
  show "if (c \<and> c') \<and> length bs + length (e @ e') \<le> INT_MAX
     then \<exists>wb'. (f wb \<bind> g) = Some wb' \<and> wb_rel wb' (bs @ e @ e') else (f wb \<bind> g) = None"
  proof (cases "c \<and> length bs + length e \<le> INT_MAX")
    case True
    then obtain wb' where w: "f wb = Some wb'" "wb_rel wb' (bs @ e)" using writesD(1) [OF assms(1) r] by blast
    show ?thesis
    proof (cases "c' \<and> length (bs @ e) + length e' \<le> INT_MAX")
      case True
      then show ?thesis using writesD(1) [OF assms(2) w(2)] w(1) \<open>c \<and> _\<close> by auto
    next
      case False
      then show ?thesis using writesD(2) [OF assms(2) w(2) False] w(1) by auto
    qed
  next
    case False
    then show ?thesis using writesD(2) [OF assms(1) r] by auto
  qed
qed

lemma writes_bind_eq [writes_intro]:
  "writes c f e \<Longrightarrow> writes c' g e' \<Longrightarrow> b = (c \<and> c') \<Longrightarrow> d = e @ e' \<Longrightarrow> writes b (\<lambda>wb. f wb \<bind> g) d"
  using writes_bind by simp

lemma writes_if [writes_intro]:
  "(p \<Longrightarrow> writes c f e) \<Longrightarrow> (\<not> p \<Longrightarrow> writes c' g e') \<Longrightarrow>
    writes (if p then c else c') (\<lambda>wb. if p then f wb else g wb) (if p then e else e')"
  by simp

lemma writes_integer [writes_intro]: "writes True (wb_integer v) (enc_int v)"
  unfolding wb_integer_def [abs_def] enc_int_def
  by (auto intro!: writes_intro)

lemma writes_real [writes_intro]: "writes True (wb_real v) (enc (LReal v))"
  unfolding wb_real_def [abs_def] by (auto intro!: writes_intro)

lemma writes_pointer [writes_intro]: "writes True (wb_pointer v) (enc (LPtr v))"
  unfolding wb_pointer_def [abs_def] by (auto intro!: writes_intro)

lemma writes_boolean [writes_intro]: "writes True (wb_boolean b) (enc (LBool b))"
  unfolding wb_boolean_def [abs_def] by (auto intro!: writes_intro)

lemma writes_nil [writes_intro]: "writes True wb_nil enc_nil"
  unfolding wb_nil_def [abs_def] enc_nil_def by (auto intro!: writes_intro)

lemma writes_string [writes_intro]: "writes True (wb_string s) (enc_str s)"
  unfolding wb_string_def [abs_def] enc_str_def Let_def
  by (auto intro!: writes_intro)

lemma writes_array_head [writes_intro]: "writes True (wb_array_head n) (enc_head n)"
  unfolding wb_array_head_def [abs_def] enc_head_def by (auto intro!: writes_intro)

lemma writes_push_head [writes_intro]: "writes True (wb_push [COMBINE_TYPE TYPE_TABLE 0]) (enc_head 0)"
  unfolding enc_head_def MAX_COOKIE_def by (auto intro: writes_intro)

section \<open>Packing writes the format\<close>

lemma pack_hash_metapairs:
  "pack_hash d n es b = pack_metapairs d (filter (\<lambda>e. \<not> array_key n (fst e)) es) b"
proof (induction es arbitrary: b)
  case (Cons e es)
  then show ?case by (cases e) (auto intro!: Option.bind_cong)
qed simp

lemma writes_array:
  "(\<And>v. v \<in> set (take (nat n) vs) \<Longrightarrow> writes (c v) (pack_one d v) (enc v)) \<Longrightarrow>
    writes (\<forall>v \<in> set (take (nat n) vs). c v) (pack_array d n vs) (concat (map enc (take (nat n) vs)))"
proof (induction vs arbitrary: n)
  case Nil
  then show ?case using writes_Some by (simp add: writes_def)
next
  case (Cons v vs)
  show ?case
  proof (cases "n \<le> 0")
    case True
    then show ?thesis using writes_Some by (simp add: writes_def)
  next
    case False
    then have n: "nat n = Suc (nat (n - 1))" by simp
    have a: "writes (\<forall>v \<in> set (take (nat (n - 1)) vs). c v) (pack_array d (n - 1) vs) (concat (map enc (take (nat (n - 1)) vs)))"
      using Cons.prems by (intro Cons.IH) (simp add: n)
    have "writes (c v) (pack_one d v) (enc v)" using Cons.prems [of v] n by simp
    then have "writes (\<forall>v \<in> set (take (nat n) (v # vs)). c v) (\<lambda>b. pack_one d v b \<bind> pack_array d (n - 1) vs)
        (concat (map enc (take (nat n) (v # vs))))"
      by (rule writes_bind_eq [OF _ a]) (simp_all add: n)
    then show ?thesis using False by (simp add: writes_def)
  qed
qed

lemma writes_depth: "writes True f e \<Longrightarrow> writes (d \<le> MAX_DEPTH) (\<lambda>b. if d > MAX_DEPTH then None else f b) e"
  by (auto simp: writes_def)

lemma pack_one_flat:
  "writes (d \<le> MAX_DEPTH) (pack_one d LNil) (enc LNil)"
  "writes (d \<le> MAX_DEPTH) (pack_one d (LBool x)) (enc (LBool x))"
  "writes (d \<le> MAX_DEPTH) (pack_one d (LInt i)) (enc (LInt i))"
  "writes (d \<le> MAX_DEPTH) (pack_one d (LReal r)) (enc (LReal r))"
  "writes (d \<le> MAX_DEPTH) (pack_one d (LPtr p)) (enc (LPtr p))"
  "writes (d \<le> MAX_DEPTH) (pack_one d (LStr s)) (enc (LStr s))"
  unfolding pack_one.simps [abs_def] lua.case enc.simps(1,3,6)
  by (rule writes_depth, rule writes_intro)+

lemma pack_one_other: "writes False (pack_one d LOther) e"
  by (simp add: writes_def pack_one.simps)

lemma pack_one_writes:
  "writes (packable d v) (pack_one d v) (enc v)"
  "writes (packable_pairs d es) (pack_metapairs d es) (enc_pairs es)"
proof (induction d v and d es rule: packable_packable_pairs.induct)
  case (2 d arr es)
  let ?n = "c_int (length arr)"
  let ?es = "filter (\<lambda>e. \<not> array_key ?n (fst e)) es"
  have arr: "writes (\<forall>v \<in> set (take (nat ?n) arr). packable (d + 1) v) (pack_array (d + 1) ?n arr) (concat (map enc (take (nat ?n) arr)))"
    by (rule writes_array) (rule 2(1))
  have hash: "writes (packable_pairs (d + 1) ?es) (pack_hash (d + 1) ?n es) (enc_pairs ?es)"
    using 2(2) by (simp add: writes_def pack_hash_metapairs)
  show ?case
  proof (cases "d \<le> MAX_DEPTH")
    case True
    have "writes (packable d (LTable arr es))
      (\<lambda>b. wb_array_head ?n b \<bind> (\<lambda>b. pack_array (d + 1) ?n arr b \<bind> (\<lambda>b. pack_hash (d + 1) ?n es b \<bind> wb_nil)))
      (enc (LTable arr es))"
      by (rule writes_intro arr hash writes_bind_eq)+ (use True in auto)
    then show ?thesis using True by (simp add: writes_def pack_one.simps)
  qed (simp add: writes_def pack_one.simps)
next
  case (3 d es fails)
  show ?case
  proof (cases "d \<le> MAX_DEPTH \<and> \<not> fails")
    case True
    have "writes (packable d (LPairs es fails))
      (\<lambda>b. wb_push [COMBINE_TYPE TYPE_TABLE 0] b \<bind> (\<lambda>b. pack_metapairs (d + 1) es b \<bind> wb_nil))
      (enc (LPairs es fails))"
      by (rule writes_push_head writes_nil 3 writes_bind_eq)+ (use True in auto)
    then show ?thesis using True by (simp add: writes_def pack_one.simps)
  next
    case False
    then have "pack_one d (LPairs es fails) b = None" for b
      by (cases "wb_push [COMBINE_TYPE TYPE_TABLE 0] b") (auto simp: pack_one.simps Option.bind_eq_None_conv)
    then show ?thesis using False by (auto simp: writes_def)
  qed
next
  case (5 d)
  then show ?case using writes_Some by (simp add: writes_def)
next
  case (6 d k v es)
  have "writes (packable_pairs d ((k, v) # es)) (\<lambda>b. pack_one d k b \<bind> (\<lambda>b. pack_one d v b \<bind> pack_metapairs d es))
     (enc_pairs ((k, v) # es))"
    by (rule 6 writes_bind_eq)+ auto
  then show ?case by (simp add: writes_def)
qed (simp_all only: packable.simps pack_one_flat pack_one_other)

lemma pack_from_writes: "writes (\<forall>v \<in> set vs. packable 0 v) (pack_from vs) (concat (map enc vs))"
proof (induction vs)
  case Nil
  then show ?case using writes_Some by (simp add: writes_def)
next
  case (Cons v vs)
  have "writes (\<forall>v \<in> set (v # vs). packable 0 v) (\<lambda>b. pack_one 0 v b \<bind> pack_from vs) (concat (map enc (v # vs)))"
    by (rule pack_one_writes Cons writes_bind_eq)+ auto
  then show ?case by (simp add: writes_def)
qed

section \<open>Unpacking reads the format\<close>

lemma COMBINE_table: "\<forall>t \<in> set [0..<8]. \<forall>c \<in> set [0..<32]. unat (COMBINE_TYPE t (int c)) = t + 8 * c"
  by code_simp

lemma COMBINE_small:
  assumes "t < 8" "c < 32"
  shows "unat (COMBINE_TYPE t (int c)) = t + 8 * c"
  using COMBINE_table assms unfolding set_upt by (metis atLeastLessThan_iff zero_le)

lemma COMBINE_head:
  assumes "t < 8" "0 \<le> c" "c < 32"
  shows "unat (COMBINE_TYPE t c) mod 8 = t" "int (unat (COMBINE_TYPE t c) div 8) = c"
  using COMBINE_small [OF assms(1), of "nat c"] assms by auto

lemmas seri_consts = TYPE_NIL_def TYPE_BOOLEAN_def TYPE_NUMBER_def TYPE_NUMBER_ZERO_def TYPE_NUMBER_BYTE_def
  TYPE_NUMBER_WORD_def TYPE_NUMBER_DWORD_def TYPE_NUMBER_QWORD_def TYPE_NUMBER_REAL_def TYPE_USERDATA_def
  TYPE_SHORT_STRING_def TYPE_LONG_STRING_def TYPE_TABLE_def MAX_COOKIE_def

lemma rb_read_append [simp]: "n = length p \<Longrightarrow> rb_read n (p @ r) = Ok (p, r)"
  by (simp add: rb_read_def)

lemma rb_read_1 [simp]: "rb_read (Suc 0) (b # r) = Ok ([b], r)"
  by (simp add: rb_read_def)

lemma unpack_one_head:
  assumes "t < 8" "0 \<le> c" "c < 32"
  shows "unpack_one fk (Suc n) (COMBINE_TYPE t c # rb) = push_value (unpack_array fk n []) t c rb"
  using COMBINE_head [OF assms] by simp

lemma get_integer_enc:
  obtains c t where "enc_int v = COMBINE_TYPE TYPE_NUMBER c # t" "0 \<le> c" "c < 32" "c \<noteq> TYPE_NUMBER_REAL"
    "\<And>r. get_integer c (t @ r) = Ok (v, r)"
proof -
  have w: "sint v < 0 \<or> \<not> sint v < 0" by simp
  have b: "unat (ucast v :: u8) = unat v" if "v < 0x100"
    using that by (simp add: word_less_nat_alt unsigned_ucast_eq take_bit_eq_mod)
  have h: "unat (ucast v :: u16) = unat v" if "v < 0x10000"
    using that by (simp add: word_less_nat_alt unsigned_ucast_eq take_bit_eq_mod)
  have h2: "un_le (le_bytes 2 (unat v)) = unat v" if "v < 0x10000"
    using that by (simp add: word_less_nat_alt un_le_le_bytes)
  show ?thesis
    by (rule that [of "if v = 0 then TYPE_NUMBER_ZERO else if v \<noteq> scast (ucast v :: u32) then TYPE_NUMBER_QWORD
          else if sint v < 0 then TYPE_NUMBER_DWORD else if v < 0x100 then TYPE_NUMBER_BYTE
          else if v < 0x10000 then TYPE_NUMBER_WORD else TYPE_NUMBER_DWORD" "List.tl (enc_int v)"])
      (auto simp: enc_int_def get_integer_def seri_consts le_word_inv b h h2)
qed

lemma c_int_small: "n \<le> INT_MAX \<Longrightarrow> c_int n = int n"
  by (simp add: c_int_def INT_MAX_def signed_of_nat signed_take_bit_int_eq_self_iff)

lemma get_buffer_append [simp]: "length s \<le> INT_MAX \<Longrightarrow> get_buffer (length s) (s @ r) = Ok (LStr s, r)"
  by (simp add: get_buffer_def c_int_small)

lemma unpack_str:
  assumes "length s \<le> INT_MAX"
  shows "unpack_one fk (Suc n) (enc_str s @ r) = Ok (LStr s, r)"
proof -
  have c: "c_int (length s) = int (length s)" using c_int_small [OF assms] .
  have "un_le (le_bytes 4 (length s)) = length s" using assms by (simp add: un_le_le_bytes INT_MAX_def)
  moreover have "length s < 65536 \<Longrightarrow> un_le (le_bytes 2 (length s)) = length s" by (simp add: un_le_le_bytes)
  ultimately show ?thesis using assms
    by (simp add: enc_str_def c Let_def unpack_one_head push_value_def seri_consts del: unpack_one.simps)
qed

text \<open>Enough fuel for one value is four times its bytes.\<close>

definition decodes :: "(u64 \<Rightarrow> lua option) \<Rightarrow> lua \<Rightarrow> bool" where
  "decodes fk v \<longleftrightarrow> (\<forall>n r. 4 * length (enc v) \<le> n \<longrightarrow> unpack_one fk n (enc v @ r) = Ok (strip v, r))"

lemma decodesD: "decodes fk v \<Longrightarrow> 4 * length (enc v) \<le> n \<Longrightarrow> unpack_one fk n (enc v @ r) = Ok (strip v, r)"
  by (simp add: decodes_def)

lemma decodesI: "(\<And>n r. unpack_one fk (Suc n) (enc v @ r) = Ok (strip v, r)) \<Longrightarrow> enc v \<noteq> [] \<Longrightarrow> decodes fk v"
  unfolding decodes_def
proof (intro allI impI)
  fix n r
  assume "\<And>n r. unpack_one fk (Suc n) (enc v @ r) = Ok (strip v, r)" "enc v \<noteq> []" "4 * length (enc v) \<le> n"
  then show "unpack_one fk n (enc v @ r) = Ok (strip v, r)" by (cases n) simp_all
qed

lemma unpack_array_enc:
  "\<lbrakk>\<And>v. v \<in> set vs \<Longrightarrow> decodes fk v \<and> 4 * length (enc v) \<le> n\<rbrakk> \<Longrightarrow>
    unpack_array fk (length vs + Suc n) acc (int (length vs)) (concat (map enc vs) @ r)
    = unpack_pairs fk n (acc @ map strip vs, []) r"
proof (induction vs arbitrary: acc)
  case (Cons v vs)
  have "unpack_one fk (length vs + Suc n) (enc v @ r') = Ok (strip v, r')" for r'
    using Cons.prems [of v] by (intro decodesD) auto
  then show ?case using Cons by simp
qed simp

lemma strip_LNil [simp]: "strip v = LNil \<longleftrightarrow> v = LNil"
  by (cases v) auto

lemma is_table_strip [simp]: "is_table (strip k) = is_table k"
  by (cases k) (auto simp: is_table_def)

lemma array_key_strip [simp]: "array_key n (strip k) = array_key n k"
  by (cases k) (auto simp: array_key_def)

lemma raw_key_LNil: "raw_key fk LNil = None"
  by (simp add: raw_key_def)

lemma raw_key_strip: "raw_key fk k = Some k \<Longrightarrow> raw_key fk (strip k) = Some (strip k)"
  by (cases k) (auto simp: raw_key_def)

lemma strip_flat: "is_table k \<or> strip k = k"
  by (cases k) (auto simp: is_table_def)

lemma unpack_pairs_enc:
  "\<lbrakk>\<And>k v. (k, v) \<in> set es \<Longrightarrow> decodes fk k \<and> decodes fk v \<and> 4 * length (enc k) \<le> n \<and> 4 * length (enc v) \<le> n
      \<and> \<not> array_key (int (length arr)) k;
    sane_pairs fk es; \<And>k. k \<in> fst ` set es \<Longrightarrow> is_table k \<or> k \<notin> fst ` set acc\<rbrakk> \<Longrightarrow>
    unpack_pairs fk (length es + n) (arr, acc) (enc_pairs es @ r) = unpack_pairs fk n (arr, acc @ strip_pairs es) r"
proof (induction es arbitrary: acc)
  case (Cons e es)
  obtain k v where e: "e = (k, v)" by (cases e)
  have u: "unpack_one fk (length es + n) (enc k @ r') = Ok (strip k, r')"
    "unpack_one fk (length es + n) (enc v @ r') = Ok (strip v, r')" for r'
    using Cons.prems(1) [of k v] by (auto simp: e intro!: decodesD)
  have kv: "strip k \<noteq> LNil" "strip v \<noteq> LNil" "raw_key fk (strip k) = Some (strip k)" "is_table (strip k) = is_table k"
    "\<not> array_key (int (length arr)) (strip k)" "is_table k \<or> strip k = k" "is_table k \<or> k \<notin> fst ` set es"
    using Cons.prems(1) [of k v] Cons.prems(2) strip_flat [of k] by (auto simp: e raw_key_strip raw_key_LNil)
  have f: "filter (\<lambda>e. is_table k \<or> fst e \<noteq> strip k) acc = acc"
    using Cons.prems(3) [of k] kv(6) by (auto simp: e filter_id_conv image_iff)
  have "rawset fk (arr, acc) (strip k) (strip v) = Ok (arr, acc @ [(strip k, strip v)])"
    using kv f by (simp add: rawset_def put_entry_def)
  moreover have "unpack_pairs fk (length es + n) (arr, acc @ [(strip k, strip v)]) (enc_pairs es @ r)
      = unpack_pairs fk n (arr, (acc @ [(strip k, strip v)]) @ strip_pairs es) r"
  proof (rule Cons.IH)
    fix k'
    assume k': "k' \<in> fst ` set es"
    have "\<not> is_table k' \<Longrightarrow> k' \<noteq> strip k"
      using kv(4,6,7) k' by (cases "is_table k") auto
    then show "is_table k' \<or> k' \<notin> fst ` set (acc @ [(strip k, strip v)])"
      using Cons.prems(3) [of k'] k' by auto
  qed (use Cons.prems(1,2) e in auto)
  ultimately show ?case using u kv(1) by (simp add: e)
qed simp

lemma unpack_pairs_nil: "unpack_pairs fk (Suc (Suc n)) (arr, es) (enc_nil @ r) = Ok (LTable arr es, r)"
  by (simp add: enc_nil_def unpack_one_head push_value_def seri_consts del: unpack_one.simps)

lemma enc_pos: "sane fk v \<Longrightarrow> 1 \<le> length (enc v)"
  by (cases v) (auto simp: enc_nil_def enc_int_def enc_str_def enc_head_def Let_def)

lemma sane_pairs_mem: "sane_pairs fk es \<Longrightarrow> (k, v) \<in> set es \<Longrightarrow> sane fk k \<and> sane fk v"
  by (induction es) auto

text \<open>One element and the number of the others are bounded by the total length.\<close>

lemma length_enc_array0: "(\<And>v. v \<in> set vs \<Longrightarrow> sane fk v) \<Longrightarrow> length vs \<le> length (concat (map enc vs))"
proof (induction vs)
  case (Cons w vs)
  then show ?case using enc_pos [of fk w] by force
qed simp

lemma length_enc_array:
  "(\<And>v. v \<in> set vs \<Longrightarrow> sane fk v) \<Longrightarrow> v \<in> set vs \<Longrightarrow>
    length (enc v) + length vs \<le> Suc (length (concat (map enc vs)))"
proof (induction vs)
  case (Cons w vs)
  have "length vs \<le> length (concat (map enc vs))" "1 \<le> length (enc w)"
    using Cons.prems(1) length_enc_array0 [of vs fk] enc_pos [of fk w] by auto
  then show ?case using Cons by auto
qed simp

lemma length_enc_pairs: "sane_pairs fk es \<Longrightarrow> 2 * length es \<le> length (enc_pairs es)"
proof (induction es)
  case (Cons e es)
  then show ?case using enc_pos [of fk "fst e"] enc_pos [of fk "snd e"] by (cases e) auto
qed simp

lemma length_enc_pairs_mem:
  "sane_pairs fk es \<Longrightarrow> (k, v) \<in> set es \<Longrightarrow>
    length (enc k) + length (enc v) + 2 * length es \<le> length (enc_pairs es) + 2"
proof (induction es)
  case (Cons e es)
  obtain a b where e: "e = (a, b)" by (cases e)
  have "1 \<le> length (enc a)" "1 \<le> length (enc b)" "2 * length es \<le> length (enc_pairs es)"
    using Cons.prems(1) enc_pos [of fk] length_enc_pairs [of fk] by (auto simp: e)
  then show ?case using Cons by (auto simp: e)
qed simp

lemma unpack_head:
  assumes "n \<le> INT_MAX"
  shows "unpack_one fk (Suc m) (enc_head (int n) @ r) = unpack_array fk m [] (int n) r"
proof (cases "int n \<ge> MAX_COOKIE - 1")
  case True
  obtain c t where c: "enc_int (of_int (int n)) = COMBINE_TYPE TYPE_NUMBER c # t" "0 \<le> c" "c < 32" "c \<noteq> TYPE_NUMBER_REAL"
    "\<And>r. get_integer c (t @ r) = Ok (of_int (int n), r)"
    by (rule get_integer_enc [of "of_int (int n)"]) blast
  have "sint (ucast (of_int (int n) :: u64) :: u32) = int n"
    using assms c_int_small [OF assms] unfolding c_int_def by (simp add: unsigned_of_nat take_bit_nat_eq_self INT_MAX_def)
  moreover have "TYPE_NUMBER < 8" by (simp add: TYPE_NUMBER_def)
  ultimately show ?thesis using c True COMBINE_head [of TYPE_NUMBER c]
    by (simp add: enc_head_def unpack_one_head push_value_def unpack_table_def Let_def seri_consts del: unpack_one.simps)
next
  case False
  then show ?thesis
    by (simp add: enc_head_def unpack_one_head push_value_def unpack_table_def seri_consts del: unpack_one.simps)
qed

lemma decodes_table:
  assumes arr: "length arr \<le> INT_MAX" "\<And>v. v \<in> set arr \<Longrightarrow> sane fk v" "\<And>v. v \<in> set arr \<Longrightarrow> decodes fk v"
    and es: "sane_pairs fk es" "\<And>k v. (k, v) \<in> set es \<Longrightarrow> decodes fk k \<and> decodes fk v \<and> \<not> array_key (int (length arr)) k"
    and n: "4 * length (enc_head (int (length arr)) @ concat (map enc arr) @ enc_pairs es @ enc_nil) \<le> n"
  shows "unpack_one fk n ((enc_head (int (length arr)) @ concat (map enc arr) @ enc_pairs es @ enc_nil) @ r)
    = Ok (LTable (map strip arr) (strip_pairs es), r)"
proof -
  let ?a = "length (concat (map enc arr))" and ?p = "length (enc_pairs es)"
  have l: "length arr \<le> ?a" "2 * length es \<le> ?p" "1 \<le> length (enc_head (int (length arr)))" "length enc_nil = 1"
    using length_enc_array0 [of arr fk] arr(2) length_enc_pairs [OF es(1)]
    by (auto simp: enc_head_def enc_nil_def)
  define q where "q = n - (4 + length arr + length es)"
  have nq: "n = Suc (length arr + Suc (length es + Suc (Suc q)))" "4 * (?a + ?p) + 4 \<le> q + length arr + length es"
    using n l by (auto simp: q_def)
  have "decodes fk v \<and> 4 * length (enc v) \<le> length es + Suc (Suc q)" if "v \<in> set arr" for v
    using nq(2) l length_enc_array [OF arr(2) that] arr(3) [OF that] by auto
  then have a: "unpack_array fk (length arr + Suc (length es + Suc (Suc q))) [] (int (length arr)) (concat (map enc arr) @ r')
      = unpack_pairs fk (length es + Suc (Suc q)) (map strip arr, []) r'" for r'
    using unpack_array_enc [of arr fk "length es + Suc (Suc q)" "[]"] by simp
  have "unpack_pairs fk (length es + Suc (Suc q)) (map strip arr, []) (enc_pairs es @ r')
      = unpack_pairs fk (Suc (Suc q)) (map strip arr, [] @ strip_pairs es) r'" for r'
  proof (rule unpack_pairs_enc)
    fix k v
    assume kv: "(k, v) \<in> set es"
    show "decodes fk k \<and> decodes fk v \<and> 4 * length (enc k) \<le> Suc (Suc q) \<and> 4 * length (enc v) \<le> Suc (Suc q)
        \<and> \<not> array_key (int (length (map strip arr))) k"
      using es(2) [OF kv] nq(2) l length_enc_pairs_mem [OF es(1) kv] length_pos_if_in_set [OF kv]
      by (simp del: length_greater_0_conv)
  qed (use es in auto)
  then show ?thesis
    by (simp only: nq(1) append_assoc unpack_head [OF arr(1)] a append_Nil unpack_pairs_nil)
qed

lemma unpack_int: "unpack_one fk (Suc n) (enc_int v @ r) = Ok (LInt v, r)"
proof -
  obtain c t where "enc_int v = COMBINE_TYPE TYPE_NUMBER c # t" "0 \<le> c" "c < 32" "c \<noteq> TYPE_NUMBER_REAL"
    "\<And>r. get_integer c (t @ r) = Ok (v, r)"
    by (rule get_integer_enc [of v]) blast
  moreover have "TYPE_NUMBER < 8" by (simp add: TYPE_NUMBER_def)
  ultimately show ?thesis
    by (simp add: unpack_one_head push_value_def TYPE_NUMBER_def TYPE_NIL_def TYPE_BOOLEAN_def del: unpack_one.simps)
qed

lemma decodes_flat:
  "decodes fk LNil" "decodes fk (LBool b)" "decodes fk (LReal x)" "decodes fk (LPtr x)"
  by (rule decodesI; simp add: enc_nil_def unpack_one_head push_value_def get_real_def
      get_pointer_def seri_consts le_word_inv del: unpack_one.simps)+

lemma decodes_int: "decodes fk (LInt i)"
  by (rule decodesI) (simp add: unpack_int del: unpack_one.simps, simp add: enc_int_def)

lemma decodes_str: "length s \<le> INT_MAX \<Longrightarrow> decodes fk (LStr s)"
  by (rule decodesI) (simp add: unpack_str del: unpack_one.simps, simp add: enc_str_def Let_def)

lemma enc_decodes:
  "sane fk v \<Longrightarrow> decodes fk v"
  "sane_pairs fk es \<Longrightarrow> \<forall>e \<in> set es. decodes fk (fst e) \<and> decodes fk (snd e)"
proof (induction fk v and fk es rule: sane_sane_pairs.induct)
  case (1 fk arr es)
  let ?es = "filter (\<lambda>e. \<not> array_key (int (length arr)) (fst e)) es"
  have c: "c_int (length arr) = int (length arr)" using 1(3) by (simp add: c_int_small)
  have ih: "\<forall>e \<in> set ?es. decodes fk (fst e) \<and> decodes fk (snd e)" by (rule 1(2)) (use 1(3) in simp)
  have kv: "decodes fk k \<and> decodes fk v \<and> \<not> array_key (int (length arr)) k" if "(k, v) \<in> set ?es" for k v
    using bspec [OF ih that] that by simp
  have e: "enc (LTable arr es) = enc_head (int (length arr)) @ concat (map enc arr) @ enc_pairs ?es @ enc_nil"
    by (simp add: c)
  have a: "decodes fk v" if "v \<in> set arr" for v by (rule 1(1) [OF that]) (use 1(3) that in simp)
  have s: "length arr \<le> INT_MAX" "\<And>v. v \<in> set arr \<Longrightarrow> sane fk v" "sane_pairs fk ?es" using 1(3) by simp_all
  show ?case unfolding decodes_def e strip.simps
    by (intro allI impI, rule decodes_table [OF s(1,2) a s(3) kv]) assumption+
next
  case (2 fk es fails)
  have "decodes fk k \<and> decodes fk v \<and> \<not> array_key (int (length [])) k" if "(k, v) \<in> set es" for k v
    using bspec [OF 2(1) that] 2(2) by (auto simp: array_key_def split: lua.splits)
  then show ?case using decodes_table [of "[]" fk es] 2(2) by (simp add: decodes_def)
qed (auto intro: decodes_flat decodes_int decodes_str)

section \<open>Fuel\<close>

text \<open>A reader that does not run out of fuel and consumes at least \<open>m\<close> bytes.\<close>

definition consumes :: "nat \<Rightarrow> bytes \<Rightarrow> ('a \<times> bytes) res \<Rightarrow> bool" where
  "consumes m rb x \<longleftrightarrow> (case x of Ok (y, rb') \<Rightarrow> length rb' + m \<le> length rb | Invalid \<Rightarrow> True | Fuel \<Rightarrow> False)"

lemma consumes_simps [simp]:
  "consumes m rb (Ok (y, rb')) \<longleftrightarrow> length rb' + m \<le> length rb" "consumes m rb Invalid" "\<not> consumes m rb Fuel"
  by (auto simp: consumes_def)

lemma consumes_bind:
  assumes "consumes k rb x" "\<And>y rb'. x = Ok (y, rb') \<Longrightarrow> length rb' + k \<le> length rb \<Longrightarrow> consumes (m - k) rb' (f (y, rb'))"
  shows "consumes m rb (rbind x f)"
proof (cases x)
  case (Ok p)
  then obtain y rb' where x: "x = Ok (y, rb')" by (cases p) auto
  with assms(1) have l: "length rb' + k \<le> length rb" by simp
  have "consumes (m - k) rb' (f (y, rb'))" by (rule assms(2) [OF x l])
  with x l show ?thesis by (auto simp: consumes_def split: res.splits)
qed (use assms(1) in auto)

lemma consumes_read [simp]: "consumes k rb (rb_read k rb)"
  by (auto simp: rb_read_def consumes_def)

lemma consumes_read0: "consumes 0 rb (rb_read k rb)"
  by (auto simp: rb_read_def consumes_def)

lemma consumes_if: "(b \<Longrightarrow> consumes m rb x) \<Longrightarrow> (\<not> b \<Longrightarrow> consumes m rb y) \<Longrightarrow> consumes m rb (if b then x else y)"
  by simp

lemma consumes_then:
  assumes "consumes 0 rb x" "\<And>y rb'. length rb' \<le> length rb \<Longrightarrow> consumes 0 rb' (f y rb')"
  shows "consumes 0 rb (rbind x (\<lambda>(y, rb). f y rb))"
  by (rule consumes_bind [OF assms(1)]) (use assms(2) in simp)

lemma consumes_Ok: "consumes 0 rb (Ok (y, rb))"
  by simp

lemmas consumes_rules = consumes_if consumes_then consumes_read0 consumes_Ok consumes_simps(2)

lemma consumes_integer: "consumes 0 rb (get_integer c rb)"
  unfolding get_integer_def by (intro consumes_rules)

lemma consumes_buffer: "consumes 0 rb (get_buffer n rb)"
  unfolding get_buffer_def by (intro consumes_rules)

lemma consumes_table:
  assumes "\<And>k rb'. length rb' \<le> length rb \<Longrightarrow> consumes 0 rb' (entries k rb')"
  shows "consumes 0 rb (unpack_table entries n rb)"
  unfolding unpack_table_def Let_def by (intro consumes_rules consumes_integer assms) auto

lemma consumes_push_value:
  assumes "\<And>k rb'. length rb' \<le> length rb \<Longrightarrow> consumes 0 rb' (entries k rb')"
  shows "consumes 0 rb (push_value entries t c rb)"
  unfolding push_value_def get_real_def get_pointer_def
  by (intro consumes_rules consumes_integer consumes_buffer consumes_table assms) auto

lemma unpack_consumes:
  "4 * length rb + 1 \<le> n \<Longrightarrow> consumes 1 rb (unpack_one fk n rb)"
  "4 * length rb + 3 \<le> n \<Longrightarrow> consumes 0 rb (unpack_array fk n vs k rb)"
  "4 * length rb + 2 \<le> n \<Longrightarrow> consumes 0 rb (unpack_pairs fk n t rb)"
proof (induction fk n rb and fk n vs k rb and fk n t rb rule: unpack_one_unpack_array_unpack_pairs.induct)
  case (2 fk n rb)
  show ?case
  proof (cases rb)
    case (Cons b bs)
    have "consumes 0 bs (push_value (unpack_array fk n []) (unat b mod 8) (int (unat b div 8)) bs)"
      by (rule consumes_push_value, rule 2) (use 2(2) Cons in auto)
    then show ?thesis using Cons by (auto simp: consumes_def split: res.splits)
  qed (simp add: rb_read_def)
next
  case (4 fk n vs k rb)
  show ?case
  proof (cases "k \<le> 0")
    case False
    have "consumes 0 rb (rbind (unpack_one fk n rb) (\<lambda>(v, rb). unpack_array fk n (vs @ [v]) (k - 1) rb))"
      by (rule consumes_bind [where k = 1], rule 4(2)) (use 4(3,4) False in auto)
    then show ?thesis using False by simp
  qed (use 4 in simp)
next
  case (6 fk n t rb)
  have "consumes 0 rb' (rbind (unpack_one fk n rb') (\<lambda>(v, rb). rbind (rawset fk t k v) (\<lambda>t. unpack_pairs fk n t rb)))"
    if k: "unpack_one fk n rb = Ok (k, rb')" "k \<noteq> LNil" and l: "length rb' + 1 \<le> length rb" for k rb'
  proof (rule consumes_bind [where k = 1])
    show "consumes 1 rb' (unpack_one fk n rb')" by (rule 6(2) [OF k(2)]) (use 6(4) l in simp)
    fix v and rb'' :: bytes
    assume "length rb'' + 1 \<le> length rb'"
    then show "consumes (0 - 1) rb'' ((\<lambda>(v, rb). rbind (rawset fk t k v) (\<lambda>t. unpack_pairs fk n t rb)) (v, rb''))"
      using 6(3) [OF k(2)] 6(4) l by (cases "rawset fk t k v") (auto simp: rawset_def split: option.splits)
  qed
  moreover have "consumes 1 rb (unpack_one fk n rb)" by (rule 6(1)) (use 6(4) in simp)
  ultimately have "consumes 0 rb (rbind (unpack_one fk n rb) (\<lambda>(k, rb).
       if k = LNil then Ok (LTable (fst t) (snd t), rb)
       else rbind (unpack_one fk n rb) (\<lambda>(v, rb). rbind (rawset fk t k v) (\<lambda>t. unpack_pairs fk n t rb))))"
    by (intro consumes_bind [where k = 1]) auto
  then show ?case by simp
qed auto

section \<open>The stream as a codec\<close>

definition unpack_value :: "(u64 \<Rightarrow> lua option) \<Rightarrow> bytes \<Rightarrow> (lua \<times> bytes) option" where
  "unpack_value fk bs = (case unpack_one fk (4 * length bs + 4) bs of Ok r \<Rightarrow> Some r | _ \<Rightarrow> None)"

text \<open>A value that is its own normal form.\<close>

definition plain :: "(u64 \<Rightarrow> lua option) \<Rightarrow> lua \<Rightarrow> bool" where
  "plain fk v \<longleftrightarrow> sane fk v \<and> strip v = v"

interpretation seri: codec "plain fk" enc "unpack_value fk" for fk
proof
  fix x r
  assume p: "plain fk x"
  then have "unpack_one fk (4 * length (enc x @ r) + 4) (enc x @ r) = Ok (strip x, r)"
    by (intro decodesD enc_decodes(1)) (auto simp: plain_def)
  then show "unpack_value fk (enc x @ r) = Some (x, r)" using p by (simp add: unpack_value_def plain_def)
qed

lemma enc_list_inj:
  "list_all (plain fk) vs \<Longrightarrow> list_all (plain fk) ws \<Longrightarrow> concat (map enc vs) = concat (map enc ws) \<Longrightarrow> vs = ws"
proof (induction vs arbitrary: ws)
  case Nil
  then show ?case using enc_pos [of fk] by (cases ws) (fastforce simp: plain_def)+
next
  case (Cons v vs)
  then obtain w ws' where ws: "ws = w # ws'"
    using enc_pos [of fk v] by (cases ws) (auto simp: plain_def)
  have "v = w \<and> concat (map enc vs) = concat (map enc ws')"
    using Cons.prems ws by (intro seri.enc_prefix_free [of fk v w]) auto
  then show ?case using Cons ws by auto
qed

lemma luaseri_pack_eq:
  "luaseri_pack vs =
     (if list_all (packable 0) vs \<and> length (concat (map enc vs)) \<le> INT_MAX then Some (concat (map enc vs)) else None)"
proof (cases "list_all (packable 0) vs \<and> length (concat (map enc vs)) \<le> INT_MAX")
  case True
  then obtain wb where "pack_from vs wb_init = Some wb" "wb_rel wb (concat (map enc vs))"
    using writesD(1) [OF pack_from_writes wb_rel_init, of vs] by (auto simp: list_all_iff)
  then show ?thesis using True seri_rel by (simp add: luaseri_pack_def)
next
  case False
  then have "pack_from vs wb_init = None"
    using writesD(2) [OF pack_from_writes wb_rel_init, of vs] by (auto simp: list_all_iff)
  then show ?thesis using False by (simp add: luaseri_pack_def)
qed

lemma unpack_all_enc:
  "list_all (sane fk) vs \<Longrightarrow> 4 * length (concat (map enc vs)) + 2 \<le> n \<Longrightarrow>
    unpack_all fk n (concat (map enc vs)) = Ok (map strip vs)"
proof (induction vs arbitrary: n)
  case Nil
  then show ?case by (cases n) auto
next
  case (Cons v vs)
  obtain m where n: "n = Suc m" using Cons.prems(2) by (cases n) auto
  have "1 \<le> length (enc v)" using Cons.prems(1) enc_pos [of fk v] by simp
  moreover have "unpack_one fk m (enc v @ concat (map enc vs)) = Ok (strip v, concat (map enc vs))"
    using Cons.prems n by (intro decodesD enc_decodes(1)) auto
  ultimately show ?case using Cons n by (auto simp del: unpack_one.simps)
qed

lemma unpack_all_fuel: "4 * length rb + 2 \<le> n \<Longrightarrow> unpack_all fk n rb \<noteq> Fuel"
proof (induction n arbitrary: rb)
  case (Suc n)
  show ?case
  proof (cases "unpack_one fk n rb")
    case (Ok p)
    obtain v rb' where v: "unpack_one fk n rb = Ok (v, rb')" using Ok by (cases p) auto
    have "consumes 1 rb (unpack_one fk n rb)" by (rule unpack_consumes(1)) (use Suc.prems in simp)
    then have "unpack_all fk n rb' \<noteq> Fuel" using v Suc.prems by (intro Suc.IH) simp
    then show ?thesis using v by (cases "unpack_all fk n rb'") auto
  next
    case Fuel
    then show ?thesis using unpack_consumes(1) [of rb n fk] Suc.prems by simp
  qed simp
qed simp

section \<open>Properties\<close>

text \<open>
  \<open>luaseri_pack\<close>, which writes through a chain of blocks of 128 bytes, returns exactly the
  concatenation of the encodings of its arguments; it fails exactly when an argument nests more than
  32 tables, holds a value that cannot be packed or has a failing \<open>__pairs\<close>, or the result has 2 GB.
\<close>

theorem luaseri_pack_format:
  "luaseri_pack vs =
     (if list_all (packable 0) vs \<and> length (concat (map enc vs)) \<le> INT_MAX then Some (concat (map enc vs)) else None)"
  by (rule luaseri_pack_eq)


text \<open>The values \<open>1, "ab", {true, [5] = 300}\<close>.\<close>

definition demo_values :: "lua list" where
  "demo_values = [LInt 1, LStr [97, 98], LTable [LBool True] [(LInt 1, LBool True), (LInt 5, LInt 300)]]"

lemma demo_values_pack: "luaseri_pack demo_values = Some [10, 1, 20, 97, 98, 14, 9, 10, 5, 18, 44, 1, 0]"
proof -
  have "concat (map enc demo_values) = [10, 1, 20, 97, 98, 14, 9, 10, 5, 18, 44, 1, 0]"
    by (simp add: demo_values_def enc_int_def enc_str_def enc_head_def enc_nil_def Let_def array_key_def c_int_def
        signed_of_nat seri_consts COMBINE_TYPE_def le_bytes_numeral)
  then show ?thesis by (simp add: luaseri_pack_eq demo_values_def MAX_DEPTH_def array_key_def INT_MAX_def)
qed

lemma demo_values_sane: "list_all (sane (\<lambda>r. Some (LReal r))) demo_values"
  by (simp add: demo_values_def INT_MAX_def array_key_def raw_key_def is_table_def)


text \<open>
  C32: \<open>luaseri_unpack\<close> ends on every buffer, with values or with an error: its nested loops never use
  up the fuel of four steps a byte.
\<close>

theorem luaseri_unpack_ends: "luaseri_unpack fk buffer \<noteq> Fuel"
  unfolding luaseri_unpack_def by (rule unpack_all_fuel) simp

text \<open>Tables that hold only a table.\<close>

fun nest :: "nat \<Rightarrow> lua" where
  "nest 0 = LNil"
| "nest (Suc n) = LTable [nest n] []"

lemma nest_plain: "sane fk (nest n) \<and> strip (nest n) = nest n"
  by (induction n) (auto simp: INT_MAX_def)

lemma nest_enc: "enc (nest n) = replicate n 14 @ replicate (n + 1) 0"
proof (induction n)
  case (Suc n)
  have e: "enc_head 1 = [14]" "enc_nil = [0]" "c_int (Suc 0) = 1" by code_simp+
  show ?case by (simp add: e Suc replicate_append_same)
qed code_simp

lemma nest_packable: "packable d (nest n) \<Longrightarrow> d + n \<le> MAX_DEPTH"
proof (induction n arbitrary: d)
  case (Suc n)
  have "c_int 1 = 1" by code_simp
  then have "packable (d + 1) (nest n)" using Suc.prems by simp
  then show ?case using Suc.IH [of "d + 1"] by simp
qed simp

text \<open>
  \<open>luaseri_pack\<close> bounds the depth of tables, but \<open>luaseri_unpack\<close> does not: \<open>n\<close> bytes 14 followed
  by zeros make it recurse \<open>n\<close> deep, one level of the C stack a byte, for any \<open>n\<close> above the bound.
\<close>

theorem unpack_has_no_depth_limit:
  assumes "MAX_DEPTH < n"
  shows "luaseri_pack [nest n] = None \<and> luaseri_unpack fk (replicate n 14 @ replicate (n + 1) 0) = Ok [nest n]"
  using assms nest_packable [of 0 n] unpack_all_enc [of fk "[nest n]"] nest_plain [of fk n]
  by (auto simp: luaseri_pack_eq luaseri_unpack_def nest_enc)

theorem unpack_has_no_depth_limit_witness:
  "luaseri_pack [nest 33] = None \<and> luaseri_unpack (\<lambda>r. None) (replicate 33 14 @ replicate (33 + 1) 0) = Ok [nest 33]"
  by (rule unpack_has_no_depth_limit) (simp add: MAX_DEPTH_def)

end
