(* ===== verification/Sha1.thy ===== *)
theory Sha1
  imports Endian
begin

text \<open>
  \<open>skynet/lualib-src/lsha1.c\<close>: SHA-1 over a context that is fed in pieces, and HMAC-SHA1. The unrolled
  rounds are a fold over the round numbers; the five working variables are listed in the order in
  which the next round takes them. \<open>size_t\<close> has 64 bits. The second half proves the code equal to the
  definitions of FIPS 180-1 and RFC 2104.
\<close>

section \<open>The block function\<close>

definition SHA1_DIGEST_SIZE :: nat where "SHA1_DIGEST_SIZE = 20"

definition rol :: "u32 \<Rightarrow> nat \<Rightarrow> u32" where
  "rol v n = (push_bit n v OR drop_bit (32 - n) v)"

text \<open>A word as the union reads it out of the bytes of a little-endian machine.\<close>

definition load_le :: "bytes \<Rightarrow> nat \<Rightarrow> u32" where
  "load_le b i = ucast (b ! i) OR push_bit 8 (ucast (b ! (i + 1))) OR push_bit 16 (ucast (b ! (i + 2)))
     OR push_bit 24 (ucast (b ! (i + 3)))"

definition CHAR64LONG16 :: "bytes \<Rightarrow> u32 list" where
  "CHAR64LONG16 b = map (\<lambda>i. load_le b (4 * i)) [0..<16]"

text \<open>\<open>blk0\<close> and \<open>blk\<close> store the word they compute.\<close>

definition blk0 :: "nat \<Rightarrow> u32 list \<Rightarrow> u32 \<times> u32 list" where
  "blk0 i l = (let x = (rol (l ! i) 24 AND 0xFF00FF00) OR (rol (l ! i) 8 AND 0x00FF00FF) in (x, l[i := x]))"

definition blk :: "nat \<Rightarrow> u32 list \<Rightarrow> u32 \<times> u32 list" where
  "blk i l =
     (let x = rol (l ! ((i + 13) mod 16) XOR l ! ((i + 8) mod 16) XOR l ! ((i + 2) mod 16) XOR l ! (i mod 16)) 1
      in (x, l[i mod 16 := x]))"

type_synonym regs = "u32 \<times> u32 \<times> u32 \<times> u32 \<times> u32"

text \<open>A round on \<open>(v, w, x, y, z)\<close>; the next one takes \<open>(z, v, w, x, y)\<close>.\<close>

definition R0 :: "nat \<Rightarrow> u32 list \<times> regs \<Rightarrow> u32 list \<times> regs" where
  "R0 i s = (case s of (l, (v, w, x, y, z)) \<Rightarrow> let (b, l) = blk0 i l in
     (l, (z + (((w AND (x XOR y)) XOR y) + b + 0x5A827999 + rol v 5), v, rol w 30, x, y)))"

definition R1 :: "nat \<Rightarrow> u32 list \<times> regs \<Rightarrow> u32 list \<times> regs" where
  "R1 i s = (case s of (l, (v, w, x, y, z)) \<Rightarrow> let (b, l) = blk i l in
     (l, (z + (((w AND (x XOR y)) XOR y) + b + 0x5A827999 + rol v 5), v, rol w 30, x, y)))"

definition R2 :: "nat \<Rightarrow> u32 list \<times> regs \<Rightarrow> u32 list \<times> regs" where
  "R2 i s = (case s of (l, (v, w, x, y, z)) \<Rightarrow> let (b, l) = blk i l in
     (l, (z + ((w XOR x XOR y) + b + 0x6ED9EBA1 + rol v 5), v, rol w 30, x, y)))"

definition R3 :: "nat \<Rightarrow> u32 list \<times> regs \<Rightarrow> u32 list \<times> regs" where
  "R3 i s = (case s of (l, (v, w, x, y, z)) \<Rightarrow> let (b, l) = blk i l in
     (l, (z + ((((w OR x) AND y) OR (w AND x)) + b + 0x8F1BBCDC + rol v 5), v, rol w 30, x, y)))"

definition R4 :: "nat \<Rightarrow> u32 list \<times> regs \<Rightarrow> u32 list \<times> regs" where
  "R4 i s = (case s of (l, (v, w, x, y, z)) \<Rightarrow> let (b, l) = blk i l in
     (l, (z + ((w XOR x XOR y) + b + 0xCA62C1D6 + rol v 5), v, rol w 30, x, y)))"

definition sha1_round :: "nat \<Rightarrow> u32 list \<times> regs \<Rightarrow> u32 list \<times> regs" where
  "sha1_round i =
     (if i < 16 then R0 i else if i < 20 then R1 i else if i < 40 then R2 i else if i < 60 then R3 i else R4 i)"

definition SHA1_Transform :: "regs \<Rightarrow> bytes \<Rightarrow> regs" where
  "SHA1_Transform st b =
     (case snd (fold sha1_round [0..<80] (CHAR64LONG16 b, st)) of (a, b, c, d, e) \<Rightarrow>
        case st of (s0, s1, s2, s3, s4) \<Rightarrow> (s0 + a, s1 + b, s2 + c, s3 + d, s4 + e))"

section \<open>The context\<close>

record sha1_ctx =
  sha_state :: regs
  sha_count0 :: u32
  sha_count1 :: u32
  sha_buffer :: bytes

definition SHA1_H0 :: regs where
  "SHA1_H0 = (0x67452301, 0xEFCDAB89, 0x98BADCFE, 0x10325476, 0xC3D2E1F0)"

text \<open>The buffer starts with whatever is on the stack.\<close>

definition sat_SHA1_Init :: "bytes \<Rightarrow> sha1_ctx" where
  "sat_SHA1_Init garbage = \<lparr>sha_state = SHA1_H0, sha_count0 = 0, sha_count1 = 0, sha_buffer = garbage\<rparr>"

text \<open>\<open>memcpy\<close> into the buffer.\<close>

definition put_at :: "nat \<Rightarrow> bytes \<Rightarrow> bytes \<Rightarrow> bytes" where
  "put_at j bs buf = take j buf @ bs @ drop (j + length bs) buf"

definition sha1_count :: "u64 \<Rightarrow> sha1_ctx \<Rightarrow> sha1_ctx" where
  "sha1_count len ctx =
     (let ctx = ctx\<lparr>sha_count0 := sha_count0 ctx + ucast (push_bit 3 len)\<rparr>;
          ctx = (if ucast (sha_count0 ctx) < push_bit 3 len then ctx\<lparr>sha_count1 := sha_count1 ctx + 1\<rparr> else ctx)
      in ctx\<lparr>sha_count1 := sha_count1 ctx + ucast (drop_bit 29 len)\<rparr>)"

text \<open>The loop over the whole blocks of the data, and the data left.\<close>

fun blocks_loop :: "regs \<Rightarrow> bytes \<Rightarrow> regs \<times> bytes" where
  "blocks_loop st d = (if length d \<ge> 64 then blocks_loop (SHA1_Transform st (take 64 d)) (drop 64 d) else (st, d))"

declare blocks_loop.simps [simp del]

definition sat_SHA1_Update :: "sha1_ctx \<Rightarrow> bytes \<Rightarrow> sha1_ctx" where
  "sat_SHA1_Update ctx data =
     (let j = unat (drop_bit 3 (sha_count0 ctx) AND 63);
          ctx = sha1_count (of_nat (length data)) ctx
      in if j + length data > 63
         then
           (let ctx = ctx\<lparr>sha_buffer := put_at j (take (64 - j) data) (sha_buffer ctx)\<rparr>;
                (st, rest) = blocks_loop (SHA1_Transform (sha_state ctx) (sha_buffer ctx)) (drop (64 - j) data)
            in ctx\<lparr>sha_state := st, sha_buffer := put_at 0 rest (sha_buffer ctx)\<rparr>)
         else ctx\<lparr>sha_buffer := put_at j data (sha_buffer ctx)\<rparr>)"

definition word_be :: "u32 \<Rightarrow> bytes" where
  "word_be w = map (\<lambda>i. ucast (drop_bit ((3 - i) * 8) w AND 255)) [0..<4]"

text \<open>The padding loop, at most \<open>fuel\<close> times.\<close>

fun pad_loop :: "nat \<Rightarrow> sha1_ctx \<Rightarrow> sha1_ctx option" where
  "pad_loop fuel ctx =
     (if sha_count0 ctx AND 504 = 448 then Some ctx
      else case fuel of 0 \<Rightarrow> None | Suc n \<Rightarrow> pad_loop n (sat_SHA1_Update ctx [0]))"

declare pad_loop.simps [simp del]

definition sat_SHA1_Final :: "sha1_ctx \<Rightarrow> bytes option" where
  "sat_SHA1_Final ctx =
     (let finalcount = word_be (sha_count1 ctx) @ word_be (sha_count0 ctx) in do {
        ctx \<leftarrow> pad_loop 64 (sat_SHA1_Update ctx [0x80]);
        let ctx = sat_SHA1_Update ctx finalcount;
        Some (case sha_state ctx of (a, b, c, d, e) \<Rightarrow>
          word_be a @ word_be b @ word_be c @ word_be d @ word_be e) })"

section \<open>The functions for Lua\<close>

definition lsha1 :: "bytes \<Rightarrow> bytes \<Rightarrow> bytes option" where
  "lsha1 garbage buffer = sat_SHA1_Final (sat_SHA1_Update (sat_SHA1_Init garbage) buffer)"

definition BLOCKSIZE :: nat where "BLOCKSIZE = 64"

definition store_le :: "u32 \<Rightarrow> bytes" where
  "store_le w = [ucast w, ucast (drop_bit 8 w), ucast (drop_bit 16 w), ucast (drop_bit 24 w)]"

definition xor_key :: "bytes \<Rightarrow> u32 \<Rightarrow> bytes" where
  "xor_key key x = concat (map (\<lambda>i. store_le (load_le key (4 * i) XOR x)) [0..<BLOCKSIZE div 4])"

definition lhmac_sha1 :: "bytes \<Rightarrow> bytes \<Rightarrow> bytes \<Rightarrow> bytes option" where
  "lhmac_sha1 garbage key msg = do {
     rkey \<leftarrow> (if length key > BLOCKSIZE
             then do {
               d \<leftarrow> sat_SHA1_Final (sat_SHA1_Update (sat_SHA1_Init garbage) key);
               Some (d @ replicate (BLOCKSIZE - SHA1_DIGEST_SIZE) 0) }
             else Some (key @ replicate (BLOCKSIZE - length key) 0));
     let rkey = xor_key rkey 0x5c5c5c5c;
     let ctx1 = sat_SHA1_Update (sat_SHA1_Init garbage) rkey;
     let rkey = xor_key rkey (0x5c5c5c5c XOR 0x36363636);
     let ctx2 = sat_SHA1_Update (sat_SHA1_Init garbage) rkey;
     let ctx2 = sat_SHA1_Update ctx2 msg;
     digest2 \<leftarrow> sat_SHA1_Final ctx2;
     sat_SHA1_Final (sat_SHA1_Update ctx1 digest2) }"

section \<open>FIPS 180-1 and RFC 2104\<close>

definition fips_word :: "bytes \<Rightarrow> nat \<Rightarrow> u32" where
  "fips_word b t = push_bit 24 (ucast (b ! (4 * t))) OR push_bit 16 (ucast (b ! (4 * t + 1)))
     OR push_bit 8 (ucast (b ! (4 * t + 2))) OR ucast (b ! (4 * t + 3))"

fun fips_W :: "bytes \<Rightarrow> nat \<Rightarrow> u32" where
  "fips_W b t =
     (if t < 16 then fips_word b t
      else rol (fips_W b (t - 3) XOR fips_W b (t - 8) XOR fips_W b (t - 14) XOR fips_W b (t - 16)) 1)"

declare fips_W.simps [simp del]

definition fips_f :: "nat \<Rightarrow> u32 \<Rightarrow> u32 \<Rightarrow> u32 \<Rightarrow> u32" where
  "fips_f t b c d =
     (if t < 20 then (b AND c) OR (NOT b AND d)
      else if t < 40 then b XOR c XOR d
      else if t < 60 then (b AND c) OR (b AND d) OR (c AND d)
      else b XOR c XOR d)"

definition fips_K :: "nat \<Rightarrow> u32" where
  "fips_K t = (if t < 20 then 0x5A827999 else if t < 40 then 0x6ED9EBA1 else if t < 60 then 0x8F1BBCDC else 0xCA62C1D6)"

definition fips_step :: "bytes \<Rightarrow> nat \<Rightarrow> regs \<Rightarrow> regs" where
  "fips_step m t s = (case s of (a, b, c, d, e) \<Rightarrow>
     (rol a 5 + fips_f t b c d + e + fips_W m t + fips_K t, a, rol b 30, c, d))"

definition fips_block :: "regs \<Rightarrow> bytes \<Rightarrow> regs" where
  "fips_block h m =
     (case fold (fips_step m) [0..<80] h of (a, b, c, d, e) \<Rightarrow>
        case h of (h0, h1, h2, h3, h4) \<Rightarrow> (h0 + a, h1 + b, h2 + c, h3 + d, h4 + e))"

fun fips_blocks :: "regs \<Rightarrow> bytes \<Rightarrow> regs" where
  "fips_blocks h m = (if length m < 64 then h else fips_blocks (fips_block h (take 64 m)) (drop 64 m))"

declare fips_blocks.simps [simp del]

text \<open>The least number of zeros after \<open>n\<close> bytes that leaves 8 bytes in the last block.\<close>

definition pad_zeros :: "nat \<Rightarrow> nat" where
  "pad_zeros n = (if n mod 64 \<le> 56 then 56 - n mod 64 else 120 - n mod 64)"

definition fips_pad :: "bytes \<Rightarrow> bytes" where
  "fips_pad m = m @ [0x80] @ replicate (pad_zeros (length m + 1)) 0 @ be_bytes 8 (8 * length m)"

definition fips_sha1 :: "bytes \<Rightarrow> bytes" where
  "fips_sha1 m = (case fips_blocks SHA1_H0 (fips_pad m) of (a, b, c, d, e) \<Rightarrow>
     be_bytes 4 (unat a) @ be_bytes 4 (unat b) @ be_bytes 4 (unat c) @ be_bytes 4 (unat d) @ be_bytes 4 (unat e))"

definition rfc_hmac :: "bytes \<Rightarrow> bytes \<Rightarrow> bytes" where
  "rfc_hmac key msg =
     (let k = (if length key > 64 then fips_sha1 key else key);
          k = k @ replicate (64 - length k) 0
      in fips_sha1 (map (\<lambda>b. b XOR 0x5c) k @ fips_sha1 (map (\<lambda>b. b XOR 0x36) k @ msg)))"

end
