(* ===== verification/Sha1Spec.thy ===== *)
theory Sha1Spec
  imports Sha1
begin

text \<open>
  \<open>Sha1\<close> computes FIPS 180-1: the block function with its ring of 16 words, the contexts fed in
  pieces, the padding, and HMAC-SHA1 after RFC 2104.
\<close>

section \<open>Bits\<close>

lemma bit_ucast_up: "bit (ucast (x :: u8) :: u32) n \<longleftrightarrow> bit x n"
  using bit_imp_le_length [of x n] by (auto simp: bit_simps)

lemma bit_ucast_down: "bit (ucast (x :: u32) :: u8) n \<longleftrightarrow> n < 8 \<and> bit x n"
  by (auto simp: bit_simps)

lemmas bits32 = bit_or_iff bit_and_iff bit_xor_iff bit_push32 bit_ucast_up bit_ucast_down bit_drop_bit_eq comp_apply

lemma choose: "(w AND (x XOR y)) XOR y = (w AND x) OR (NOT w AND y)" for w x y :: u32
  by (rule bit_word_eqI) (auto simp: bit_or_iff bit_and_iff bit_xor_iff bit_not_iff)

lemma majority: "((w OR x) AND y) OR (w AND x) = (w AND x) OR (w AND y) OR (x AND y)" for w x y :: u32
  by (rule bit_word_eqI) (auto simp: bit_or_iff bit_and_iff)

lemma mask_FF00: "bit (0xFF00FF00 :: u32) n \<longleftrightarrow> (8 \<le> n \<and> n < 16) \<or> (24 \<le> n \<and> n < 32)"
  "bit (0x00FF00FF :: u32) n \<longleftrightarrow> n < 8 \<or> (16 \<le> n \<and> n < 24)"
proof -
  have a: "(0xFF00FF00 :: u32) = push_bit 8 (mask 8) OR push_bit 24 (mask 8)"
    and b: "(0x00FF00FF :: u32) = mask 8 OR push_bit 16 (mask 8)" by code_simp+
  show "bit (0xFF00FF00 :: u32) n \<longleftrightarrow> (8 \<le> n \<and> n < 16) \<or> (24 \<le> n \<and> n < 32)"
    unfolding a by (auto simp: bit_or_iff bit_push32 bit_mask_iff)
  show "bit (0x00FF00FF :: u32) n \<longleftrightarrow> n < 8 \<or> (16 \<le> n \<and> n < 24)"
    unfolding b by (auto simp: bit_or_iff bit_push32 bit_mask_iff)
qed

lemma byte_swap:
  "(rol (load_le b (4 * i)) 24 AND 0xFF00FF00) OR (rol (load_le b (4 * i)) 8 AND 0x00FF00FF) = fips_word b i"
proof (rule bit_eqI)
  fix n :: nat
  consider "n < 8" | "8 \<le> n" "n < 16" | "16 \<le> n" "n < 24" | "24 \<le> n" "n < 32" | "\<not> n < 32" by linarith
  then show "bit ((rol (load_le b (4 * i)) 24 AND 0xFF00FF00) OR (rol (load_le b (4 * i)) 8 AND 0x00FF00FF)) n
      \<longleftrightarrow> bit (fips_word b i) n"
    by cases (auto simp: rol_def load_le_def fips_word_def bits32 mask_FF00 simp del: bit_numeral_word_iff dest: bit_u32 bit_u8)
qed

section \<open>The block function\<close>

text \<open>The ring of words after \<open>t\<close> rounds.\<close>

definition ring_ok :: "bytes \<Rightarrow> nat \<Rightarrow> u32 list \<Rightarrow> bool" where
  "ring_ok b t l \<longleftrightarrow> length l = 16 \<and> (\<forall>j < t. t \<le> j + 16 \<longrightarrow> l ! (j mod 16) = fips_W b j)
     \<and> (\<forall>j < 16. t \<le> j \<longrightarrow> l ! j = load_le b (4 * j))"

lemma ring_ok_store:
  assumes "ring_ok b t l"
  shows "ring_ok b (Suc t) (l[t mod 16 := fips_W b t])"
proof -
  have d: "t mod 16 \<noteq> j mod 16" if "j < t" "t \<le> 15 + j" for j
    using that mod_eq_dvd_iff_nat [of j t 16] dvd_imp_le [of 16 "t - j"] by auto
  show ?thesis using assms by (auto simp: ring_ok_def less_Suc_eq nth_list_update dest: d)
qed

lemma blk0_ok: "ring_ok b t l \<Longrightarrow> t < 16 \<Longrightarrow> blk0 t l = (fips_W b t, l[t mod 16 := fips_W b t])"
  using byte_swap [of b t] by (simp add: blk0_def ring_ok_def Let_def fips_W.simps [of b t])

lemma ring_ok_nth: "ring_ok b t l \<Longrightarrow> j < t \<Longrightarrow> t \<le> j + 16 \<Longrightarrow> k = j mod 16 \<Longrightarrow> l ! k = fips_W b j"
  by (simp add: ring_ok_def)

lemma blk_ok:
  assumes "ring_ok b t l" "16 \<le> t"
  shows "blk t l = (fips_W b t, l[t mod 16 := fips_W b t])"
proof -
  have m: "(t + 13) mod 16 = (t - 3) mod 16" "(t + 8) mod 16 = (t - 8) mod 16" "(t + 2) mod 16 = (t - 14) mod 16"
    "t mod 16 = (t - 16) mod 16"
    using mod_add_self2 [of "t - 3" 16] mod_add_self2 [of "t - 8" 16] mod_add_self2 [of "t - 14" 16]
      mod_add_self2 [of "t - 16" 16] assms(2) by (simp_all add: add.commute del: mod_add_self2)
  have "l ! ((t + 13) mod 16) = fips_W b (t - 3)" "l ! ((t + 8) mod 16) = fips_W b (t - 8)"
    "l ! ((t + 2) mod 16) = fips_W b (t - 14)" "l ! (t mod 16) = fips_W b (t - 16)"
    by (rule ring_ok_nth [OF assms(1) _ _ m(1)] ring_ok_nth [OF assms(1) _ _ m(2)] ring_ok_nth [OF assms(1) _ _ m(3)]
        ring_ok_nth [OF assms(1) _ _ m(4)]; use assms(2) in simp)+
  then show ?thesis using assms(2) by (simp add: blk_def Let_def fips_W.simps [of b t])
qed

lemma sha1_round_ok:
  assumes "ring_ok b t l"
  shows "sha1_round t (l, s) = (l[t mod 16 := fips_W b t], fips_step b t s)"
proof -
  obtain v w x y z where s: "s = (v, w, x, y, z)" by (cases s)
  note d = sha1_round_def fips_step_def fips_f_def fips_K_def choose majority add_ac
  consider "t < 16" | "16 \<le> t" "t < 20" | "20 \<le> t" "t < 40" | "40 \<le> t" "t < 60" | "60 \<le> t" by linarith
  then show ?thesis
  proof cases
    case 1
    then show ?thesis by (simp add: s d R0_def blk0_ok [OF assms])
  next
    case 2
    then show ?thesis by (simp add: s d R1_def blk_ok [OF assms])
  next
    case 3
    then show ?thesis by (simp add: s d R2_def blk_ok [OF assms])
  next
    case 4
    then show ?thesis by (simp add: s d R3_def blk_ok [OF assms])
  next
    case 5
    then show ?thesis by (simp add: s d R4_def blk_ok [OF assms])
  qed
qed

lemma rounds_ok:
  "\<exists>l. ring_ok b t l \<and> fold sha1_round [0..<t] (CHAR64LONG16 b, s) = (l, fold (fips_step b) [0..<t] s)"
proof (induction t)
  case 0
  then show ?case by (simp add: ring_ok_def CHAR64LONG16_def)
next
  case (Suc t)
  then obtain l where "ring_ok b t l" "fold sha1_round [0..<t] (CHAR64LONG16 b, s) = (l, fold (fips_step b) [0..<t] s)"
    by blast
  then show ?case using sha1_round_ok [of b t l] ring_ok_store [of b t l] by simp
qed

lemma SHA1_Transform_fips: "SHA1_Transform s b = fips_block s b"
proof -
  obtain l where "fold sha1_round [0..<80] (CHAR64LONG16 b, s) = (l, fold (fips_step b) [0..<80] s)"
    using rounds_ok by blast
  then show ?thesis unfolding SHA1_Transform_def fips_block_def by (simp only: snd_conv)
qed

section \<open>Contexts fed in pieces\<close>

text \<open>The context has seen the bytes \<open>m\<close>: the whole blocks are in the state, the rest in the buffer.\<close>

definition sha_counts :: "sha1_ctx \<Rightarrow> nat \<Rightarrow> bool" where
  "sha_counts ctx n \<longleftrightarrow> sha_count0 ctx = of_nat (8 * n) \<and> sha_count1 ctx = of_nat (8 * n div 2 ^ 32)"

definition sha_rel :: "sha1_ctx \<Rightarrow> bytes \<Rightarrow> bool" where
  "sha_rel ctx m \<longleftrightarrow> sha_counts ctx (length m) \<and> length (sha_buffer ctx) = 64
     \<and> (\<exists>a t. m = a @ t \<and> 64 dvd length a \<and> length t < 64 \<and> sha_state ctx = fips_blocks SHA1_H0 a
          \<and> take (length t) (sha_buffer ctx) = t)"

lemma fips_blocks_Nil [simp]: "fips_blocks h [] = h"
  by (simp add: fips_blocks.simps)

lemma fips_blocks_append: "64 dvd length a \<Longrightarrow> fips_blocks h (a @ b) = fips_blocks (fips_blocks h a) b"
proof (induction h a rule: fips_blocks.induct)
  case (1 h a)
  show ?case
  proof (cases "length a < 64")
    case True
    then have "a = []" using 1(2) nat_dvd_not_less [of "length a" 64] by (cases a) auto
    then show ?thesis by simp
  next
    case False
    then have "64 dvd length (drop 64 a)" using 1(2) by (simp add: dvd_diff_nat)
    with 1(1) [OF False] show ?thesis using False by (simp add: fips_blocks.simps [of h])
  qed
qed

lemma fips_blocks_one: "length a = 64 \<Longrightarrow> fips_blocks h a = fips_block h a"
  by (simp add: fips_blocks.simps [of h a])

lemma blocks_loop_ok:
  "\<exists>a r. d = a @ r \<and> 64 dvd length a \<and> length r < 64 \<and> blocks_loop st d = (fips_blocks st a, r)"
proof (induction st d rule: blocks_loop.induct)
  case (1 st d)
  show ?case
  proof (cases "length d \<ge> 64")
    case True
    with 1 obtain a r where a: "drop 64 d = a @ r" "64 dvd length a" "length r < 64"
      "blocks_loop (SHA1_Transform st (take 64 d)) (drop 64 d) = (fips_blocks (SHA1_Transform st (take 64 d)) a, r)"
      by blast
    have "d = (take 64 d @ a) @ r" using a(1) by (metis append_assoc append_take_drop_id)
    moreover have "fips_blocks st (take 64 d @ a) = fips_blocks (SHA1_Transform st (take 64 d)) a"
      using True by (simp add: fips_blocks_append fips_blocks_one SHA1_Transform_fips)
    moreover have "64 dvd length (take 64 d @ a)" using True a(2) by simp
    moreover have "blocks_loop st d = (fips_blocks (SHA1_Transform st (take 64 d)) a, r)"
      using True a(4) by (subst blocks_loop.simps) simp
    ultimately show ?thesis using a(3) by metis
  next
    case False
    then show ?thesis by (subst blocks_loop.simps) auto
  qed
qed

lemma carry: "a < m \<Longrightarrow> b < m \<Longrightarrow> (a + b) mod m < b \<longleftrightarrow> m \<le> a + b" for a b m :: nat
  by (cases "m \<le> a + b") (auto simp: le_mod_geq)

lemma unat_ucast64: "unat (ucast (w :: u32) :: u64) = unat w"
  using unsigned_less [where ?'a = nat, of w] by (simp add: unsigned_ucast_eq take_bit_nat_eq_self)

lemma unat_of_nat32: "unat (of_nat j :: u32) = j mod 2 ^ 32"
  by (simp add: unsigned_of_nat take_bit_eq_mod)

lemma sha1_count_ok:
  assumes "sha_counts ctx n" "k < 2 ^ 29"
  shows "sha_counts (sha1_count (of_nat k) ctx) (n + k)"
proof -
  have p: "push_bit 3 (of_nat k :: u64) = of_nat (8 * k)" by (simp add: push_bit_eq_mult)
  have k: "8 * k < 2 ^ 32" using assms(2) by simp
  have u: "ucast (of_nat j :: u64) = (of_nat j :: u32)" if "j < 2 ^ 32" for j
    using that by (simp add: unsigned_of_nat take_bit_nat_eq_self)
  have c0: "of_nat (8 * n) + ucast (of_nat (8 * k) :: u64) = (of_nat (8 * (n + k)) :: u32)"
    by (simp only: u [OF k] of_nat_add [symmetric] distrib_left)
  have d: "drop_bit 29 (of_nat k :: u64) = 0"
    by (rule word_unat_eq_iff [THEN iffD2]) (use assms(2) in \<open>simp add: drop_bit_eq_div unat_div_distrib unsigned_of_nat take_bit_nat_eq_self\<close>)
  have e1: "unat (ucast (of_nat (8 * (n + k)) :: u32) :: u64) = (8 * n mod 2 ^ 32 + 8 * k) mod 2 ^ 32"
    by (simp only: unat_ucast64 unat_of_nat32 distrib_left) (simp add: mod_simps)
  have e2: "unat (of_nat (8 * k) :: u64) = 8 * k"
    using k by (simp only: unsigned_of_nat of_nat_id) (simp add: take_bit_nat_eq_self)
  have lt: "ucast (of_nat (8 * (n + k)) :: u32) < (of_nat (8 * k) :: u64) \<longleftrightarrow> 2 ^ 32 \<le> 8 * n mod 2 ^ 32 + 8 * k"
    unfolding word_less_nat_alt e1 e2 by (rule carry) (use k in simp_all)
  have "8 * (n + k) = 8 * n div 2 ^ 32 * 2 ^ 32 + (8 * n mod 2 ^ 32 + 8 * k)"
    by (simp only: distrib_left add.assoc [symmetric] div_mult_mod_eq)
  then have "8 * (n + k) div 2 ^ 32 = 8 * n div 2 ^ 32 + (8 * n mod 2 ^ 32 + 8 * k) div 2 ^ 32"
    by (simp only: div_mult_self3 power_not_zero zero_neq_numeral [symmetric] not_False_eq_True)
  moreover have "(8 * n mod 2 ^ 32 + 8 * k) div 2 ^ 32 = (if 2 ^ 32 \<le> 8 * n mod 2 ^ 32 + 8 * k then 1 else 0)"
    using k mod_less_divisor [of "2 ^ 32" "8 * n"] by (auto simp: div_if)
  ultimately have c1: "(of_nat (8 * (n + k) div 2 ^ 32) :: u32)
      = of_nat (8 * n div 2 ^ 32) + (if 2 ^ 32 \<le> 8 * n mod 2 ^ 32 + 8 * k then 1 else 0)"
    by (cases "(2 :: nat) ^ 32 \<le> 8 * n mod 2 ^ 32 + 8 * k")
      (simp_all only: of_nat_add if_True if_False of_nat_1 of_nat_0 add_0_right)
  define A B C D E q where "A = (of_nat (8 * n) :: u32)" "B = (of_nat (8 * k) :: u64)" "C = (of_nat (8 * (n + k)) :: u32)"
    "D = (of_nat (8 * n div 2 ^ 32) :: u32)" "E = (of_nat (8 * (n + k) div 2 ^ 32) :: u32)"
    "q \<longleftrightarrow> (2 :: nat) ^ 32 \<le> 8 * n mod 2 ^ 32 + 8 * k"
  note abs = this [symmetric]
  show ?thesis using assms(1) p c0 d lt c1 unfolding sha_counts_def sha1_count_def Let_def abs
    by (simp add: d)
qed

lemma sha_offset: "sha_counts ctx n \<Longrightarrow> unat (drop_bit 3 (sha_count0 ctx) AND 63) = n mod 64"
proof -
  assume "sha_counts ctx n"
  then have c: "sha_count0 ctx = of_nat (8 * n)" by (simp add: sha_counts_def)
  have "63 = (mask 6 :: u32)" by (simp add: mask_eq_exp_minus_1)
  then have "unat (drop_bit 3 (of_nat (8 * n) :: u32) AND 63) = unat (of_nat (8 * n) :: u32) div 8 mod 64"
    by (simp only: take_bit_eq_mask [symmetric]) (simp add: drop_bit_eq_div unat_div_distrib unat_mod_distrib take_bit_eq_mod)
  also have "\<dots> = 8 * n mod 2 ^ 32 div 8 mod 64" by (simp only: unat_of_nat32)
  also have "8 * n mod 2 ^ 32 = 8 * (n mod 2 ^ 29)" using mult_mod_right [of 8 n "2 ^ 29"] by simp
  also have "8 * (n mod 2 ^ 29) div 8 mod 64 = n mod 2 ^ 29 mod 64" by simp
  also have "\<dots> = n mod 64" by (rule mod_mod_cancel) (simp add: dvd_def exI [of _ 8388608])
  finally show ?thesis by (simp only: c)
qed

lemma sha_relI:
  "\<lbrakk>sha_counts ctx (length m); length (sha_buffer ctx) = 64; m = a @ t; 64 dvd length a; length t < 64;
    sha_state ctx = fips_blocks SHA1_H0 a; take (length t) (sha_buffer ctx) = t\<rbrakk> \<Longrightarrow> sha_rel ctx m"
  unfolding sha_rel_def by blast

lemma sha_relD:
  assumes "sha_rel ctx m"
  obtains a t where "m = a @ t" "64 dvd length a" "length t = length m mod 64" "length t < 64"
    "sha_state ctx = fips_blocks SHA1_H0 a" "take (length t) (sha_buffer ctx) = t"
proof -
  from assms obtain a t where d: "m = a @ t" "64 dvd length a" "length t < 64" "sha_state ctx = fips_blocks SHA1_H0 a"
    "take (length t) (sha_buffer ctx) = t" by (auto simp: sha_rel_def)
  have "length m mod 64 = length t" using d(1-3) by (auto elim: dvdE)
  with d show ?thesis using that by simp
qed

lemma sha1_count_simps [simp]:
  "sha_state (sha1_count k ctx) = sha_state ctx" "sha_buffer (sha1_count k ctx) = sha_buffer ctx"
  by (simp_all add: sha1_count_def Let_def)

lemma sha_counts_buffer [simp]:
  "sha_counts (ctx\<lparr>sha_state := s\<rparr>) n = sha_counts ctx n" "sha_counts (ctx\<lparr>sha_buffer := b\<rparr>) n = sha_counts ctx n"
  by (simp_all add: sha_counts_def)

lemma sha_update:
  assumes "sha_rel ctx m" "length d < 2 ^ 29"
  shows "sha_rel (sat_SHA1_Update ctx d) (m @ d)"
proof -
  obtain a t where m: "m = a @ t" "64 dvd length a" "length t = length m mod 64" "length t < 64"
    "sha_state ctx = fips_blocks SHA1_H0 a" "take (length t) (sha_buffer ctx) = t"
    by (rule sha_relD [OF assms(1)])
  have b: "length (sha_buffer ctx) = 64" and c: "sha_counts ctx (length m)" using assms(1) by (auto simp: sha_rel_def)
  have c': "sha_counts (sha1_count (of_nat (length d)) ctx) (length m + length d)" by (rule sha1_count_ok [OF c assms(2)])
  have j: "unat (drop_bit 3 (sha_count0 ctx) AND 63) = length t" using sha_offset [OF c] m(3) by simp
  show ?thesis
  proof (cases "length t + length d > 63")
    case True
    let ?d1 = "take (64 - length t) d" and ?d2 = "drop (64 - length t) d"
    obtain e r where l: "?d2 = e @ r" "64 dvd length e" "length r < 64"
      "blocks_loop (SHA1_Transform (sha_state ctx) (t @ ?d1)) ?d2 = (fips_blocks (SHA1_Transform (sha_state ctx) (t @ ?d1)) e, r)"
      using blocks_loop_ok by metis
    have p: "put_at (length t) ?d1 (sha_buffer ctx) = t @ ?d1" using True m(4,6) b by (simp add: put_at_def)
    have lb: "length (t @ ?d1) = 64" using True m(4) by simp
    then have ab: "64 dvd length (a @ t @ ?d1)" using m(2) by (simp only: length_append [of a]) simp
    have f: "fips_blocks (SHA1_Transform (sha_state ctx) (t @ ?d1)) e = fips_blocks SHA1_H0 ((a @ t @ ?d1) @ e)"
      unfolding fips_blocks_append [OF ab] fips_blocks_append [OF m(2)] fips_blocks_one [OF lb] SHA1_Transform_fips m(5) ..
    have fl: "64 dvd length ((a @ t @ ?d1) @ e)"
      using ab l(2) unfolding length_append [of "a @ t @ ?d1"] by (rule dvd_add)
    have "m @ d = ((a @ t @ ?d1) @ e) @ r" using m(1) l(1) append_take_drop_id [of "64 - length t" d] by simp
    moreover have "take (length r) (put_at 0 r (t @ ?d1)) = r" "length (put_at 0 r (t @ ?d1)) = 64"
      using l(3) lb by (simp_all add: put_at_def)
    moreover have "sat_SHA1_Update ctx d = (sha1_count (of_nat (length d)) ctx)
        \<lparr>sha_state := fips_blocks SHA1_H0 ((a @ t @ ?d1) @ e), sha_buffer := put_at 0 r (t @ ?d1)\<rparr>"
      using True by (simp add: sat_SHA1_Update_def Let_def j p l(4) f)
    moreover have "sha_counts (sat_SHA1_Update ctx d) (length (m @ d))"
      using c' calculation(4) by simp
    ultimately show ?thesis using fl l(3)
      by (intro sha_relI [of _ _ "(a @ t @ ?d1) @ e" r]) simp_all
  next
    case False
    have "take (length (t @ d)) (put_at (length t) d (sha_buffer ctx)) = t @ d" "length (put_at (length t) d (sha_buffer ctx)) = 64"
      using False m(6) b by (simp_all add: put_at_def)
    then show ?thesis using m(1,2,5) c' False
      by (intro sha_relI [of _ _ a "t @ d"]) (simp_all add: sat_SHA1_Update_def Let_def j add.assoc)
  qed
qed

lemma sha_init: "length g = 64 \<Longrightarrow> sha_rel (sat_SHA1_Init g) []"
  by (simp add: sha_rel_def sat_SHA1_Init_def sha_counts_def)

section \<open>Padding and digest\<close>

lemma sha_at_56:
  assumes "sha_counts ctx n"
  shows "sha_count0 ctx AND 504 = 448 \<longleftrightarrow> n mod 64 = 56"
proof -
  let ?c = "sha_count0 ctx"
  have e: "?c AND 504 = push_bit 3 (drop_bit 3 ?c AND 63)"
  proof -
    have m: "(504 :: u32) = push_bit 3 63" by simp
    show ?thesis unfolding m by (rule bit_word_eqI) (auto simp: bits32 simp del: push_bit_numeral bit_numeral_word_iff)
  qed
  have l: "unat (drop_bit 3 ?c AND 63) = n mod 64" by (rule sha_offset [OF assms])
  then have u: "unat (?c AND 504) = 8 * (n mod 64)"
    unfolding e using mod_less_divisor [of 64 n]
    by (simp only: unsigned_push_bit_eq) (simp add: push_bit_eq_mult take_bit_nat_eq_self)
  show ?thesis unfolding word_unat_eq_iff [of _ 448] u by simp
qed

lemma pad_zeros_Suc: "n mod 64 \<noteq> 56 \<Longrightarrow> pad_zeros n = Suc (pad_zeros (Suc n))"
  using mod_less_divisor [of 64 n] by (auto simp: pad_zeros_def mod_Suc simp del: mod_less_divisor)

lemma pad_zeros_0: "pad_zeros n = 0 \<longleftrightarrow> n mod 64 = 56"
  using mod_less_divisor [of 64 n] by (auto simp: pad_zeros_def simp del: mod_less_divisor)

lemma pad_zeros_less: "pad_zeros n < 64"
  by (auto simp: pad_zeros_def)

lemma pad_loop_ok:
  "sha_rel ctx m \<Longrightarrow> pad_zeros (length m) \<le> fuel \<Longrightarrow>
    \<exists>ctx'. pad_loop fuel ctx = Some ctx' \<and> sha_rel ctx' (m @ replicate (pad_zeros (length m)) 0)"
proof (induction fuel arbitrary: ctx m)
  case 0
  then have c: "sha_counts ctx (length m)" and z: "pad_zeros (length m) = 0" by (simp_all add: sha_rel_def)
  have "length m mod 64 = 56" using z pad_zeros_0 by blast
  then show ?case using 0(1) sha_at_56 [OF c] by (simp add: pad_loop.simps z)
next
  case (Suc n)
  have c: "sha_counts ctx (length m)" using Suc.prems(1) by (simp add: sha_rel_def)
  show ?case
  proof (cases "length m mod 64 = 56")
    case True
    then show ?thesis using Suc.prems sha_at_56 [OF c] by (auto simp: pad_loop.simps pad_zeros_0 [THEN iffD2])
  next
    case False
    have u: "sha_rel (sat_SHA1_Update ctx [0]) (m @ [0])" by (rule sha_update [OF Suc.prems(1)]) simp
    note z = pad_zeros_Suc [OF False]
    then obtain ctx' where "pad_loop n (sat_SHA1_Update ctx [0]) = Some ctx'"
      "sha_rel ctx' ((m @ [0]) @ replicate (pad_zeros (length (m @ [0]))) 0)"
      using Suc.IH [OF u] Suc.prems(2) by auto
    then show ?thesis using False sha_at_56 [OF c] z by (subst pad_loop.simps) simp
  qed
qed

lemma word_be_bytes: "word_be w = be_bytes 4 (unat w)"
proof -
  have b: "(ucast (drop_bit (8 * k) w AND 255) :: u8) = of_nat (unat w div 256 ^ k mod 256)" for k
  proof -
    have "255 = (mask 8 :: u32)" by (simp add: mask_eq_exp_minus_1)
    moreover have "unat w mod 4294967296 = unat w" using u32_less [of w] by simp
    ultimately have e: "unat (drop_bit (8 * k) w AND 255) = unat w div 2 ^ (8 * k) mod 256"
      by (simp only: take_bit_eq_mask [symmetric] unsigned_take_bit_eq unsigned_drop_bit_eq)
        (simp add: take_bit_eq_mod drop_bit_eq_div min_def)
    have "(ucast x :: u8) = of_nat (unat x)" for x :: u32 by simp
    then show ?thesis by (simp only: e power_mult) simp
  qed
  show ?thesis
    using b [of 0] b [of 1] b [of 2] b [of 3]
    by (simp add: word_be_def be_bytes_def upt_rec le_bytes_numeral div_mult2_eq [symmetric] mult.commute)
qed

lemma le_bytes_add: "le_bytes (j + k) v = le_bytes j v @ le_bytes k (v div 256 ^ j)"
  by (induction j arbitrary: v) (auto simp: div_mult2_eq)

lemma le_bytes_mod: "le_bytes k (v mod 256 ^ k) = le_bytes k v"
proof (induction k arbitrary: v)
  case (Suc k)
  have "v mod (256 * 256 ^ k) mod 256 = v mod 256" by (rule mod_mod_cancel) simp
  moreover have "v mod (256 * 256 ^ k) div 256 = v div 256 mod 256 ^ k" by (simp add: mod_mult2_eq)
  ultimately show ?case using Suc by simp
qed simp

lemma count_bytes:
  "sha_counts ctx n \<Longrightarrow> word_be (sha_count1 ctx) @ word_be (sha_count0 ctx) = be_bytes 8 (8 * n)"
proof -
  assume c: "sha_counts ctx n"
  have e: "le_bytes 8 (8 * n) = le_bytes 4 (8 * n) @ le_bytes 4 (8 * n div 2 ^ 32)"
    using le_bytes_add [of 4 4 "8 * n"] by simp
  have w: "word_be (of_nat v) = be_bytes 4 v" for v
    using le_bytes_mod [of 4 v] by (simp add: word_be_bytes unat_of_nat32 be_bytes_def)
  have "sha_count1 ctx = of_nat (8 * n div 2 ^ 32)" "sha_count0 ctx = of_nat (8 * n)" using c by (simp_all add: sha_counts_def)
  then show ?thesis by (simp only: w) (simp only: be_bytes_def e rev_append)
qed

lemma sha_final:
  assumes "sha_rel ctx m"
  shows "sat_SHA1_Final ctx = Some (fips_sha1 m)"
proof -
  have c: "sha_counts ctx (length m)" using assms by (simp add: sha_rel_def)
  have r1: "sha_rel (sat_SHA1_Update ctx [0x80]) (m @ [0x80])" by (rule sha_update [OF assms]) simp
  obtain ctx2 where p: "pad_loop 64 (sat_SHA1_Update ctx [0x80]) = Some ctx2"
    and r2: "sha_rel ctx2 ((m @ [0x80]) @ replicate (pad_zeros (length (m @ [0x80]))) 0)"
    using pad_loop_ok [OF r1 less_imp_le [OF pad_zeros_less]] by blast
  define fin where "fin = be_bytes 8 (8 * length m)"
  have "sha_rel (sat_SHA1_Update ctx2 fin) (((m @ [0x80]) @ replicate (pad_zeros (length (m @ [0x80]))) 0) @ fin)"
    by (rule sha_update [OF r2]) (simp add: fin_def)
  then have r3: "sha_rel (sat_SHA1_Update ctx2 fin) (fips_pad m)" by (simp add: fips_pad_def fin_def)
  have l: "length (fips_pad m) mod 64 = 0"
  proof -
    have "(k + pad_zeros k) mod 64 = 56" for k
    proof -
      define q r where "q = k div 64" "r = k mod 64"
      then have k: "k = q * 64 + r" "r < 64" "k mod 64 = r" by simp_all
      have "k + pad_zeros k = q * 64 + 56 \<or> k + pad_zeros k = q * 64 + 120" using k by (auto simp: pad_zeros_def)
      then show ?thesis by auto
    qed
    note x = this [of "Suc (length m)"]
    have "length (fips_pad m) = (Suc (length m) + pad_zeros (Suc (length m))) + 8" by (simp add: fips_pad_def)
    moreover have "((Suc (length m) + pad_zeros (Suc (length m))) + 8) mod 64 = (56 + 8) mod 64"
      by (simp only: x mod_add_left_eq [of "Suc (length m) + pad_zeros (Suc (length m))" 64 8, symmetric])
    ultimately show ?thesis by simp
  qed
  obtain a t where d: "fips_pad m = a @ t" "length t = length (fips_pad m) mod 64"
    "sha_state (sat_SHA1_Update ctx2 fin) = fips_blocks SHA1_H0 a"
    by (rule sha_relD [OF r3])
  have st: "sha_state (sat_SHA1_Update ctx2 fin) = fips_blocks SHA1_H0 (fips_pad m)" using d l by simp
  show ?thesis
    by (simp only: sat_SHA1_Final_def Let_def count_bytes [OF c] p fin_def [symmetric] Option.bind.bind_lunit st)
      (simp add: fips_sha1_def word_be_bytes)
qed

section \<open>HMAC\<close>

lemma length_fips_sha1 [simp]: "length (fips_sha1 m) = 20"
  by (simp add: fips_sha1_def case_prod_beta)

lemma store_load:
  "store_le (load_le k i XOR x) = [k ! i XOR ucast x, k ! (i + 1) XOR ucast (drop_bit 8 x),
     k ! (i + 2) XOR ucast (drop_bit 16 x), k ! (i + 3) XOR ucast (drop_bit 24 x)]"
  unfolding store_le_def load_le_def
  by (intro list.inject [THEN iffD2] conjI bit_eqI refl) (auto simp: bits32 dest: bit_u8)

lemma concat_groups: "concat (map (\<lambda>i. map f [4 * i..<4 * i + 4]) [0..<n]) = map f [0..<4 * n]"
proof (induction n)
  case (Suc n)
  have "[0..<4 * Suc n] = [0..<4 * n] @ [4 * n..<4 * n + 4]" using upt_add_eq_append [of 0 "4 * n" 4] by (simp add: add.commute)
  with Suc show ?case by (simp add: add.commute)
qed simp

lemma upt_4: "[j..<j + 4] = [j, j + 1, j + 2, j + 3]"
  by (simp add: upt_rec [of _ "j + 4"])

lemma xor_key_ok:
  assumes "length k = 64" "ucast x = c" "ucast (drop_bit 8 x) = c" "ucast (drop_bit 16 x) = c" "ucast (drop_bit 24 x) = c"
  shows "xor_key k x = map (\<lambda>b. b XOR c) k"
proof -
  have "store_le (load_le k (4 * i) XOR x) = map (\<lambda>j. k ! j XOR c) [4 * i..<4 * i + 4]" for i
    using assms(2-5) by (simp add: store_load upt_4 del: upt_Suc)
  then have "xor_key k x = map (\<lambda>j. k ! j XOR c) [0..<64]"
    using concat_groups [of "\<lambda>j. k ! j XOR c" 16] by (simp add: xor_key_def BLOCKSIZE_def)
  also have "\<dots> = map (\<lambda>b. b XOR c) k" using assms(1) by (intro nth_equalityI) auto
  finally show ?thesis .
qed

section \<open>Properties\<close>

lemma sha1_whole:
  assumes "length g = 64" "length m < 2 ^ 29"
  shows "sat_SHA1_Final (sat_SHA1_Update (sat_SHA1_Init g) m) = Some (fips_sha1 m)"
  using sha_final [OF sha_update [OF sha_init [OF assms(1)] assms(2)]] by simp

text \<open>
  C34: whatever the context's buffer held before, \<open>sha1\<close> of a string below 512 MB is the digest FIPS 180-1
  defines for it: the ring of 16 words, the bit selections, the partial blocks and the padding byte by
  byte compute the standard's message schedule, functions and padding.
\<close>

theorem sha1_is_fips:
  assumes "length garbage = 64" "length m < 2 ^ 29"
  shows "lsha1 garbage m = Some (fips_sha1 m)"
  using sha1_whole [OF assms] by (simp add: lsha1_def)

theorem sha1_is_fips_witness: "lsha1 (replicate 64 7) [97, 98, 99] = Some (fips_sha1 [97, 98, 99])"
  by (rule sha1_is_fips) simp_all



text \<open>
  From 512 MB on the carry is wrong: \<open>len << 3\<close> has 64 bits and \<open>count[0]\<close> has 32, so the comparison that
  detects a carry is always true, and the length that is hashed is not that of the text.
\<close>

lemma sha1_count_wrong_at_512MB:
  assumes "length d = 2 ^ 29"
  shows "\<not> sha_counts (sat_SHA1_Update (sat_SHA1_Init g) d) (length d)"
proof -
  have "sha_count1 (sat_SHA1_Update ctx d) = sha_count1 (sha1_count (of_nat (length d)) ctx)" for ctx
    by (auto simp: sat_SHA1_Update_def Let_def split: prod.splits)
  moreover have "sha_count1 (sha1_count (of_nat (2 ^ 29)) (sat_SHA1_Init g)) = 2"
    by (simp add: sha1_count_def sat_SHA1_Init_def)
  ultimately show ?thesis using assms by (simp add: sha_counts_def)
qed

end
