(* ===== verification/DataBuffer.thy ===== *)
theory DataBuffer
  imports Prelude
begin

text \<open>
  \<open>skynet/service-src/databuffer.h\<close>: the bytes received on a connection, as a queue of the
  blocks that came from the socket and an offset into the first one, with a length header
  parsed in front of each frame. The queue from \<open>head\<close> to \<open>tail\<close> is a list of blocks; the
  message pool is counted: nodes allocated in pools of \<open>MESSAGEPOOL\<close> and nodes on its free list.
  Sizes are C ints; the header is one too, so four bytes may give a negative one.
\<close>

section \<open>State and operations\<close>

record databuffer =
  db_header :: int
  db_offset :: nat
  db_size :: nat
  db_queue :: "bytes list"

record messagepool =
  mp_pools :: nat
  mp_free :: nat

definition MESSAGEPOOL :: nat where "MESSAGEPOOL = 1023"

definition db_empty :: databuffer where
  "db_empty = \<lparr>db_header = 0, db_offset = 0, db_size = 0, db_queue = []\<rparr>"

definition messagepool_free :: "messagepool \<Rightarrow> messagepool" where
  "messagepool_free mp = \<lparr>mp_pools = 0, mp_free = 0\<rparr>"

definition return_message :: "databuffer \<times> messagepool \<Rightarrow> (databuffer \<times> messagepool) option" where
  "return_message dbmp = (case dbmp of (db, mp) \<Rightarrow>
     (case db_queue db of
        [] \<Rightarrow> None
      | m # q \<Rightarrow> Some (db\<lparr>db_queue := q\<rparr>, mp\<lparr>mp_free := mp_free mp + 1\<rparr>)))"

text \<open>The loop of \<open>databuffer_read\<close>; \<open>None\<close> where it would read through a null \<open>head\<close>.\<close>

partial_function (option) read_loop ::
    "nat \<Rightarrow> databuffer \<Rightarrow> messagepool \<Rightarrow> (bytes \<times> databuffer \<times> messagepool) option" where
  "read_loop sz db mp =
     (case db_queue db of
        [] \<Rightarrow> None
      | current # _ \<Rightarrow>
         (let bsz = length current - db_offset db in
          if bsz > sz then Some (take sz (drop (db_offset db) current), db\<lparr>db_offset := db_offset db + sz\<rparr>, mp)
          else if bsz = sz then do {
            (db', mp) \<leftarrow> return_message (db\<lparr>db_offset := 0\<rparr>, mp);
            Some (drop (db_offset db) current, db', mp) }
          else do {
            (db', mp) \<leftarrow> return_message (db, mp);
            (bs, db', mp) \<leftarrow> read_loop (sz - bsz) (db'\<lparr>db_offset := 0\<rparr>) mp;
            Some (drop (db_offset db) current @ bs, db', mp) }))"

definition databuffer_read :: "nat \<Rightarrow> databuffer \<Rightarrow> messagepool \<Rightarrow> (bytes \<times> databuffer \<times> messagepool) option" where
  "databuffer_read sz db mp = do {
     cassert (db_size db \<ge> sz);
     read_loop sz (db\<lparr>db_size := db_size db - sz\<rparr>) mp }"

definition databuffer_push :: "bytes \<Rightarrow> databuffer \<Rightarrow> messagepool \<Rightarrow> databuffer \<times> messagepool" where
  "databuffer_push data db mp =
     (let mp = (if mp_free mp > 0 then mp\<lparr>mp_free := mp_free mp - 1\<rparr>
                else \<lparr>mp_pools = mp_pools mp + 1, mp_free = MESSAGEPOOL - 1\<rparr>) in
      (db\<lparr>db_size := db_size db + length data, db_queue := db_queue db @ [data]\<rparr>, mp))"

text \<open>The big-endian header: four bytes are a signed 32-bit int.\<close>

definition header_value :: "nat \<Rightarrow> bytes \<Rightarrow> int" where
  "header_value header_size plen =
     (if header_size = 2 then uint (plen ! 0) * 2 ^ 8 + uint (plen ! 1)
      else sint (push_bit 24 (ucast (plen ! 0) :: u32) OR push_bit 16 (ucast (plen ! 1))
        OR push_bit 8 (ucast (plen ! 2)) OR ucast (plen ! 3)))"

definition databuffer_readheader :: "nat \<Rightarrow> databuffer \<Rightarrow> messagepool \<Rightarrow> (int \<times> databuffer \<times> messagepool) option" where
  "databuffer_readheader header_size db mp =
     (if db_header db = 0 \<and> db_size db < header_size then Some (- 1, db, mp)
      else do {
        (db, mp) \<leftarrow> (if db_header db = 0 then do {
            (plen, db, mp) \<leftarrow> databuffer_read header_size db mp;
            Some (db\<lparr>db_header := header_value header_size plen\<rparr>, mp) }
          else Some (db, mp));
        if int (db_size db) < db_header db then Some (- 1, db, mp) else Some (db_header db, db, mp) })"

definition databuffer_reset :: "databuffer \<Rightarrow> databuffer" where
  "databuffer_reset db = db\<lparr>db_header := 0\<rparr>"

text \<open>\<open>databuffer_clear\<close> returns every node, then clears the struct.\<close>

fun clear_loop :: "bytes list \<Rightarrow> messagepool \<Rightarrow> messagepool" where
  "clear_loop [] mp = mp"
| "clear_loop (m # q) mp = clear_loop q (mp\<lparr>mp_free := mp_free mp + 1\<rparr>)"

definition databuffer_clear :: "databuffer \<Rightarrow> messagepool \<Rightarrow> databuffer \<times> messagepool" where
  "databuffer_clear db mp = (db_empty, clear_loop (db_queue db) mp)"

section \<open>A queue of bytes\<close>

definition db_bytes :: "databuffer \<Rightarrow> bytes" where
  "db_bytes db = drop (db_offset db) (concat (db_queue db))"

fun offset_ok :: "nat \<Rightarrow> bytes list \<Rightarrow> bool" where
  "offset_ok off [] = (off = 0)"
| "offset_ok off (m # q) = (off \<le> length m)"

definition db_ok :: "databuffer \<Rightarrow> bool" where
  "db_ok db \<longleftrightarrow> db_size db = length (db_bytes db) \<and> offset_ok (db_offset db) (db_queue db)"

text \<open>Every node of the pools is in some connection's queue or free.\<close>

definition pool_used :: "messagepool \<Rightarrow> int" where
  "pool_used mp = int (mp_pools mp * MESSAGEPOOL) - int (mp_free mp)"

lemma read_loop_ok:
  "offset_ok (db_offset db) (db_queue db) \<Longrightarrow> sz \<le> length (db_bytes db) \<Longrightarrow> 0 < sz \<Longrightarrow>
   \<exists>db' mp'. read_loop sz db mp = Some (take sz (db_bytes db), db', mp') \<and> offset_ok (db_offset db') (db_queue db')
     \<and> db_bytes db' = drop sz (db_bytes db) \<and> db_size db' = db_size db \<and> db_header db' = db_header db
     \<and> pool_used mp' - int (length (db_queue db')) = pool_used mp - int (length (db_queue db))"
proof (induction "db_queue db" arbitrary: db sz mp)
  case Nil
  then show ?case by (simp add: db_bytes_def)
next
  case (Cons m q)
  note Q = Cons.hyps(2) [symmetric]
  have off: "db_offset db \<le> length m" using Cons.prems(1) Q by simp
  have bs: "db_bytes db = drop (db_offset db) m @ concat q" using off Q by (simp add: db_bytes_def)
  let ?bsz = "length m - db_offset db"
  consider "?bsz > sz" | "?bsz = sz" | "?bsz < sz" by linarith
  then show ?case
  proof cases
    case 1
    then show ?thesis using Q off bs
      by (subst read_loop.simps) (simp add: Let_def db_bytes_def take_drop drop_drop add.commute)
  next
    case 2
    then show ?thesis using Q off bs
      by (subst read_loop.simps) (cases q; simp add: Let_def return_message_def db_bytes_def pool_used_def)
  next
    case 3
    let ?db = "db\<lparr>db_queue := q, db_offset := 0\<rparr>" and ?mp = "mp\<lparr>mp_free := mp_free mp + 1\<rparr>"
    have "q = db_queue ?db" by simp
    moreover have "offset_ok (db_offset ?db) (db_queue ?db)" by (cases q) simp_all
    moreover have "sz - ?bsz \<le> length (db_bytes ?db)" using Cons.prems(2) unfolding bs by (simp add: db_bytes_def)
    ultimately obtain db' mp' where r: "read_loop (sz - ?bsz) ?db ?mp = Some (take (sz - ?bsz) (db_bytes ?db), db', mp')"
      "offset_ok (db_offset db') (db_queue db')" "db_bytes db' = drop (sz - ?bsz) (db_bytes ?db)"
      "db_size db' = db_size ?db" "db_header db' = db_header ?db"
      "pool_used mp' - int (length (db_queue db')) = pool_used ?mp - int (length (db_queue ?db))"
      using Cons.hyps(1) [of ?db "sz - ?bsz" ?mp] 3 by auto
    have "read_loop sz db mp = Some (drop (db_offset db) m @ take (sz - ?bsz) (db_bytes ?db), db', mp')"
      using Q 3 r(1) by (subst read_loop.simps) (simp add: Let_def return_message_def)
    with r(2-6) 3 bs Q show ?thesis
      by (intro exI [of _ db'] exI [of _ mp']) (simp add: db_bytes_def pool_used_def)
  qed
qed

lemma read_ok:
  assumes "db_ok db" "sz \<le> db_size db" "0 < sz"
  shows "\<exists>db' mp'. databuffer_read sz db mp = Some (take sz (db_bytes db), db', mp') \<and> db_ok db'
     \<and> db_bytes db' = drop sz (db_bytes db) \<and> db_header db' = db_header db
     \<and> pool_used mp' - int (length (db_queue db')) = pool_used mp - int (length (db_queue db))"
proof -
  let ?db = "db\<lparr>db_size := db_size db - sz\<rparr>"
  have e: "db_bytes ?db = db_bytes db" by (simp add: db_bytes_def)
  obtain db' mp' where "read_loop sz ?db mp = Some (take sz (db_bytes ?db), db', mp')" "offset_ok (db_offset db') (db_queue db')"
     "db_bytes db' = drop sz (db_bytes ?db)" "db_size db' = db_size ?db" "db_header db' = db_header ?db"
     "pool_used mp' - int (length (db_queue db')) = pool_used mp - int (length (db_queue ?db))"
    using read_loop_ok [of ?db sz mp] assms unfolding e by (auto simp: db_ok_def)
  with e assms show ?thesis
    by (intro exI [of _ db'] exI [of _ mp']) (simp add: databuffer_read_def db_ok_def)
qed

lemma push_ok:
  assumes "db_ok db" "databuffer_push data db mp = (db', mp')"
  shows "db_ok db' \<and> db_bytes db' = db_bytes db @ data \<and> db_header db' = db_header db
    \<and> pool_used mp' - int (length (db_queue db')) = pool_used mp - int (length (db_queue db))"
proof -
  have "offset_ok (db_offset db) (db_queue db @ [data])" "db_offset db \<le> length (concat (db_queue db))"
    using assms(1) by (cases "db_queue db"; simp add: db_ok_def)+
  with assms show ?thesis
    by (auto simp: databuffer_push_def Let_def db_ok_def db_bytes_def pool_used_def MESSAGEPOOL_def split: if_splits)
qed

lemma clear_loop_free: "mp_free (clear_loop q mp) = mp_free mp + length q \<and> mp_pools (clear_loop q mp) = mp_pools mp"
  by (induction q arbitrary: mp) simp_all

lemma clear_ok:
  assumes "databuffer_clear db mp = (db', mp')"
  shows "db_ok db' \<and> db_bytes db' = [] \<and> db_header db' = 0
    \<and> pool_used mp' - int (length (db_queue db')) = pool_used mp - int (length (db_queue db))"
  using assms clear_loop_free [of "db_queue db" mp]
  by (auto simp: databuffer_clear_def db_empty_def db_ok_def db_bytes_def pool_used_def)

section \<open>Properties\<close>

text \<open>
  The buffer is a FIFO of bytes whatever the blocks: pushing appends the block, reading
  \<open>sz\<close> available bytes returns the first \<open>sz\<close> bytes across block boundaries and leaves the
  rest, never reading through a null pointer, and no node of the message pool is lost.
\<close>

theorem databuffer_fifo:
  assumes "db_ok db" "0 < sz" "sz \<le> db_size db + length data" "databuffer_push data db mp = (db1, mp1)"
  shows "\<exists>db2 mp2. databuffer_read sz db1 mp1 = Some (take sz (db_bytes db @ data), db2, mp2)
     \<and> db_ok db2 \<and> db_bytes db2 = drop sz (db_bytes db @ data)
     \<and> pool_used mp2 - int (length (db_queue db2)) = pool_used mp - int (length (db_queue db))"
proof -
  have p: "db_ok db1" "db_bytes db1 = db_bytes db @ data"
    "pool_used mp1 - int (length (db_queue db1)) = pool_used mp - int (length (db_queue db))"
    using push_ok [OF assms(1,4)] by auto
  have "sz \<le> db_size db1" using p(1,2) assms(1,3) by (simp add: db_ok_def)
  from read_ok [OF p(1) this assms(2), of mp1] p(2,3) show ?thesis by auto
qed

lemma databuffer_fifo_witness:
  "\<exists>db2 mp2. databuffer_read 3 (db_empty\<lparr>db_size := 5, db_queue := [[1, 2], [3, 4, 5]]\<rparr>) \<lparr>mp_pools = 1, mp_free = 1021\<rparr>
      = Some ([1, 2, 3], db2, mp2) \<and> db_bytes db2 = [4, 5]"
proof -
  let ?db = "db_empty\<lparr>db_size := 2, db_queue := [[1, 2]]\<rparr>"
  have ok: "db_ok ?db" by (simp add: db_ok_def db_bytes_def db_empty_def)
  have push: "databuffer_push [3, 4, 5] ?db \<lparr>mp_pools = 1, mp_free = 1022\<rparr>
      = (db_empty\<lparr>db_size := 5, db_queue := [[1, 2], [3, 4, 5]]\<rparr>, \<lparr>mp_pools = 1, mp_free = 1021\<rparr>)"
    by (simp add: databuffer_push_def db_empty_def Let_def)
  from databuffer_fifo [OF ok _ _ push, of 3] show ?thesis by (auto simp: db_bytes_def db_empty_def)
qed

end
