(* ===== verification/HashId.thy ===== *)
theory HashId
  imports Prelude
begin

text \<open>
  \<open>skynet/service-src/hashid.h\<close>: the chained hash table in which the gate keeps the socket
  ids of its connections. The nodes are in one array, linked by their indices (\<open>next\<close>); a free
  node has id -1. Ids are C ints.
\<close>

section \<open>State and operations\<close>

record hashid =
  hi_hashmod :: int
  hi_cap :: nat
  hi_count :: nat
  hi_id :: "(int \<times> nat option) list"
  hi_hash :: "nat option list"

partial_function (option) hashcap_loop :: "nat \<Rightarrow> nat \<Rightarrow> nat option" where
  "hashcap_loop hashcap mx = (if hashcap < mx then hashcap_loop (hashcap * 2) mx else Some hashcap)"

definition hashid_init :: "nat \<Rightarrow> hashid option" where
  "hashid_init mx = do {
     hashcap \<leftarrow> hashcap_loop 16 mx;
     Some \<lparr>hi_hashmod = int hashcap - 1, hi_cap = mx, hi_count = 0,
       hi_id = replicate mx (- 1, None), hi_hash = replicate hashcap None\<rparr> }"

definition hashid_clear :: "hashid \<Rightarrow> hashid" where
  "hashid_clear hi = \<lparr>hi_hashmod = 1, hi_cap = 0, hi_count = 0, hi_id = [], hi_hash = []\<rparr>"

definition bucket :: "hashid \<Rightarrow> int \<Rightarrow> nat" where
  "bucket hi i = nat (i AND hi_hashmod hi)"

partial_function (option) lookup_loop :: "(int \<times> nat option) list \<Rightarrow> int \<Rightarrow> nat option \<Rightarrow> int option" where
  "lookup_loop ns key c =
     (case c of
        None \<Rightarrow> Some (- 1)
      | Some i \<Rightarrow> do {
          n \<leftarrow> lget ns i;
          if fst n = key then Some (int i) else lookup_loop ns key (snd n) })"

definition hashid_lookup :: "hashid \<Rightarrow> int \<Rightarrow> int option" where
  "hashid_lookup hi key = do {
     c \<leftarrow> lget (hi_hash hi) (bucket hi key);
     lookup_loop (hi_id hi) key c }"

text \<open>The \<open>while\<close> loop of \<open>hashid_remove\<close> from node \<open>c\<close>: the node unlinked, the nodes.\<close>

partial_function (option) remove_loop ::
    "(int \<times> nat option) list \<Rightarrow> int \<Rightarrow> nat \<Rightarrow> (nat \<times> (int \<times> nat option) list) option option" where
  "remove_loop ns key c = do {
     n \<leftarrow> lget ns c;
     (case snd n of
        None \<Rightarrow> Some None
      | Some t \<Rightarrow> do {
          tn \<leftarrow> lget ns t;
          if fst tn = key then Some (Some (t, ns[c := (fst n, snd tn)]))
          else remove_loop ns key t }) }"

definition hashid_remove :: "int \<Rightarrow> hashid \<Rightarrow> (int \<times> hashid) option" where
  "hashid_remove key hi = do {
     c \<leftarrow> lget (hi_hash hi) (bucket hi key);
     (case c of
        None \<Rightarrow> Some (- 1, hi)
      | Some i \<Rightarrow> do {
          n \<leftarrow> lget (hi_id hi) i;
          if fst n = key then
            Some (int i, hi\<lparr>hi_hash := (hi_hash hi)[bucket hi key := snd n],
              hi_id := (hi_id hi)[i := (- 1, None)], hi_count := hi_count hi - 1\<rparr>)
          else do {
            r \<leftarrow> remove_loop (hi_id hi) key i;
            (case r of
               None \<Rightarrow> Some (- 1, hi)
             | Some (t, ns) \<Rightarrow>
                 Some (int t, hi\<lparr>hi_id := ns[t := (- 1, None)], hi_count := hi_count hi - 1\<rparr>)) } }) }"

text \<open>The search of \<open>hashid_insert\<close> for a free node: \<open>n\<close> turns left, at turn \<open>i\<close>.\<close>

fun free_loop :: "hashid \<Rightarrow> int \<Rightarrow> nat \<Rightarrow> nat \<Rightarrow> nat option" where
  "free_loop hi key 0 i = None"
| "free_loop hi key (Suc n) i =
     (let index = nat ((int i + key) mod int (hi_cap hi)) in
      if fst (hi_id hi ! index) = - 1 then Some index else free_loop hi key n (i + 1))"

definition hashid_insert :: "int \<Rightarrow> hashid \<Rightarrow> (nat \<times> hashid) option" where
  "hashid_insert key hi = do {
     cassert (0 \<le> key);
     c \<leftarrow> free_loop hi key (hi_cap hi) 0;
     cassert (snd (hi_id hi ! c) = None);
     h \<leftarrow> lget (hi_hash hi) (bucket hi key);
     Some (c, hi\<lparr>hi_count := hi_count hi + 1, hi_id := (hi_id hi)[c := (key, h)],
       hi_hash := (hi_hash hi)[bucket hi key := Some c]\<rparr>) }"

definition hashid_full :: "hashid \<Rightarrow> bool" where
  "hashid_full hi \<longleftrightarrow> hi_count hi = hi_cap hi"

section \<open>Chains\<close>

fun linked :: "(int \<times> nat option) list \<Rightarrow> nat option \<Rightarrow> nat list \<Rightarrow> bool" where
  "linked ns c [] = (c = None)"
| "linked ns c (i # is) = (c = Some i \<and> i < length ns \<and> linked ns (snd (ns ! i)) is)"

definition used :: "hashid \<Rightarrow> nat set" where
  "used hi = {i. i < hi_cap hi \<and> fst (hi_id hi ! i) \<noteq> - 1}"

definition chains_ok :: "hashid \<Rightarrow> (nat \<Rightarrow> nat list) \<Rightarrow> bool" where
  "chains_ok hi bk \<longleftrightarrow>
     (\<forall>h < length (hi_hash hi). linked (hi_id hi) (hi_hash hi ! h) (bk h) \<and> distinct (bk h)
        \<and> set (bk h) = {i \<in> used hi. bucket hi (fst (hi_id hi ! i)) = h})"

definition hashid_ok :: "hashid \<Rightarrow> bool" where
  "hashid_ok hi \<longleftrightarrow> (\<exists>k. hi_hashmod hi = 2 ^ k - 1 \<and> length (hi_hash hi) = 2 ^ k)
     \<and> length (hi_id hi) = hi_cap hi \<and> hi_count hi = card (used hi)
     \<and> (\<forall>i < hi_cap hi. - 1 \<le> fst (hi_id hi ! i) \<and> (fst (hi_id hi ! i) = - 1 \<longrightarrow> snd (hi_id hi ! i) = None))
     \<and> inj_on (\<lambda>i. fst (hi_id hi ! i)) (used hi)
     \<and> (\<exists>bk. chains_ok hi bk)"

lemma linked_update: "j \<notin> set is \<Longrightarrow> linked (ns[j := x]) c is = linked ns c is"
  by (induction "is" arbitrary: c) auto

lemma linked_less: "linked ns c is \<Longrightarrow> set is \<subseteq> {..<length ns}"
  by (induction "is" arbitrary: c) auto

lemma lookup_linked:
  "linked ns c is \<Longrightarrow> lookup_loop ns key c =
     Some (case List.find (\<lambda>i. fst (ns ! i) = key) is of None \<Rightarrow> - 1 | Some i \<Rightarrow> int i)"
proof (induction "is" arbitrary: c)
  case Nil
  then show ?case by (subst lookup_loop.simps) simp
next
  case (Cons i "is")
  then show ?case by (subst lookup_loop.simps) simp
qed

lemma remove_linked:
  "linked ns (Some c) (c # is) \<Longrightarrow> distinct (c # is) \<Longrightarrow>
   remove_loop ns key c =
     (case List.find (\<lambda>i. fst (ns ! i) = key) is of
        None \<Rightarrow> Some None
      | Some t \<Rightarrow> \<comment> \<open>the node before \<open>t\<close>\<close>
          (let p = last (c # takeWhile (\<lambda>i. fst (ns ! i) \<noteq> key) is) in
           Some (Some (t, ns[p := (fst (ns ! p), snd (ns ! t))]))))"
proof (induction "is" arbitrary: c)
  case Nil
  then show ?case by (subst remove_loop.simps) simp
next
  case (Cons i "is")
  then show ?case by (subst remove_loop.simps) (auto split: option.splits)
qed

lemma linked_unlink:
  "linked ns c (as @ p # t # bs) \<Longrightarrow> distinct (as @ p # t # bs) \<Longrightarrow>
   linked (ns[p := (x, snd (ns ! t))]) c (as @ p # bs)"
proof (induction as arbitrary: c)
  case Nil
  then show ?case by (auto simp: linked_update)
next
  case (Cons a as)
  then show ?case by auto
qed

section \<open>Lookup\<close>

text \<open>What \<open>hashid_lookup\<close> finds, as an option.\<close>

definition hid_look :: "hashid \<Rightarrow> int \<Rightarrow> nat option" where
  "hid_look hi key = (case hashid_lookup hi key of Some v \<Rightarrow> (if 0 \<le> v then Some (nat v) else None) | None \<Rightarrow> None)"

lemma hashid_okD:
  assumes "hashid_ok hi"
  shows "length (hi_id hi) = hi_cap hi" "hi_count hi = card (used hi)" "inj_on (\<lambda>i. fst (hi_id hi ! i)) (used hi)"
    "i < hi_cap hi \<Longrightarrow> - 1 \<le> fst (hi_id hi ! i)" "i < hi_cap hi \<Longrightarrow> fst (hi_id hi ! i) = - 1 \<Longrightarrow> snd (hi_id hi ! i) = None"
    "\<exists>bk. chains_ok hi bk"
  using assms unfolding hashid_ok_def by blast+

lemma bucket_less: "hashid_ok hi \<Longrightarrow> bucket hi key < length (hi_hash hi)"
proof -
  assume "hashid_ok hi"
  then obtain k where k: "hi_hashmod hi = 2 ^ k - 1" "length (hi_hash hi) = 2 ^ k"
    unfolding hashid_ok_def by blast
  have "key AND (2 ^ k - 1) = key mod 2 ^ k"
    by (simp add: take_bit_eq_mod flip: mask_eq_exp_minus_1 take_bit_eq_mask)
  moreover have "0 \<le> key mod 2 ^ k" "key mod 2 ^ k < 2 ^ k" by simp_all
  ultimately show ?thesis unfolding bucket_def k by (metis nat_less_iff of_nat_numeral of_nat_power)
qed

lemma used_id: "hashid_ok hi \<Longrightarrow> i \<in> used hi \<Longrightarrow> 0 \<le> fst (hi_id hi ! i) \<and> i < hi_cap hi"
  using hashid_okD(4) [of hi i] by (auto simp: used_def)

lemma chains_okD:
  assumes "chains_ok hi bk" "h < length (hi_hash hi)"
  shows "linked (hi_id hi) (hi_hash hi ! h) (bk h)" "distinct (bk h)"
    "i \<in> set (bk h) \<longleftrightarrow> i \<in> used hi \<and> bucket hi (fst (hi_id hi ! i)) = h"
  using assms unfolding chains_ok_def by auto

lemma lookup_ok:
  assumes "hashid_ok hi"
  shows "hashid_lookup hi key \<noteq> None" "hid_look hi key = Some i \<longleftrightarrow> i \<in> used hi \<and> fst (hi_id hi ! i) = key"
proof -
  obtain bk where bk: "chains_ok hi bk" using hashid_okD(6) [OF assms] by blast
  let ?b = "bucket hi key"
  note C = chains_okD [OF bk bucket_less [OF assms, of key]]
  have eq: "hashid_lookup hi key = Some (case List.find (\<lambda>i. fst (hi_id hi ! i) = key) (bk ?b) of None \<Rightarrow> - 1 | Some i \<Rightarrow> int i)"
    using lookup_linked [OF C(1)] bucket_less [OF assms, of key] by (simp add: hashid_lookup_def)
  then show "hashid_lookup hi key \<noteq> None" by simp
  show "hid_look hi key = Some i \<longleftrightarrow> i \<in> used hi \<and> fst (hi_id hi ! i) = key"
  proof (cases "List.find (\<lambda>i. fst (hi_id hi ! i) = key) (bk ?b)")
    case None
    then have "\<forall>i \<in> set (bk ?b). fst (hi_id hi ! i) \<noteq> key" by (auto simp: find_None_iff)
    with None eq C(3) show ?thesis by (auto simp: hid_look_def)
  next
    case (Some j)
    then have "j \<in> set (bk ?b)" "fst (hi_id hi ! j) = key" by (auto simp: find_Some_iff)
    with Some eq C(3) hashid_okD(3) [OF assms] show ?thesis by (auto simp: hid_look_def dest: inj_onD)
  qed
qed

section \<open>Insertion\<close>

lemma free_loop_Some:
  "free_loop hi key n i = Some c \<Longrightarrow> 0 < hi_cap hi \<Longrightarrow> c < hi_cap hi \<and> fst (hi_id hi ! c) = - 1"
proof (induction n arbitrary: i)
  case (Suc n)
  have "nat ((int i + key) mod int (hi_cap hi)) < hi_cap hi"
    using Suc.prems(2) by (simp add: nat_less_iff)
  with Suc show ?case by (auto simp: Let_def split: if_splits)
qed simp

lemma free_loop_None:
  "free_loop hi key n i = None \<Longrightarrow> i \<le> j \<Longrightarrow> j < i + n \<Longrightarrow> fst (hi_id hi ! nat ((int j + key) mod int (hi_cap hi))) \<noteq> - 1"
proof (induction n arbitrary: i)
  case (Suc n)
  then show ?case by (cases "j = i") (auto simp: Let_def split: if_splits)
qed simp

lemma free_loop_finds:
  assumes "x < hi_cap hi" "fst (hi_id hi ! x) = - 1"
  shows "\<exists>c. free_loop hi key (hi_cap hi) 0 = Some c"
proof (rule ccontr)
  assume "\<not> ?thesis"
  then have N: "free_loop hi key (hi_cap hi) 0 = None" by auto
  let ?n = "int (hi_cap hi)" and ?j = "nat ((int x - key) mod int (hi_cap hi))"
  have n: "0 < ?n" using assms(1) by simp
  then have "0 \<le> (int x - key) mod ?n" "(int x - key) mod ?n < ?n" by simp_all
  then have j: "int ?j = (int x - key) mod ?n" "?j < hi_cap hi" by (simp_all add: nat_less_iff)
  have "((int x - key) mod ?n + key) mod ?n = int x"
    using assms(1) by (simp add: mod_simps)
  then have "nat ((int ?j + key) mod ?n) = x" using j(1) by simp
  then show False using free_loop_None [OF N, of ?j] j(2) assms(2) by simp
qed

lemma used_finite [simp]: "finite (used hi)"
  by (simp add: used_def)

lemma room_free:
  assumes "hashid_ok hi" "\<not> hashid_full hi"
  shows "\<exists>x < hi_cap hi. fst (hi_id hi ! x) = - 1"
proof (rule ccontr)
  assume "\<not> ?thesis"
  then have "used hi = {..<hi_cap hi}" by (auto simp: used_def)
  then show False using assms hashid_okD(2) [OF assms(1)] by (simp add: hashid_full_def)
qed

lemma insert_ok:
  assumes ok: "hashid_ok hi" and key: "0 \<le> key" and new: "hid_look hi key = None" and room: "\<not> hashid_full hi"
  shows "\<exists>c hi'. hashid_insert key hi = Some (c, hi') \<and> hashid_ok hi' \<and> hi_cap hi' = hi_cap hi
    \<and> used hi' = insert c (used hi) \<and> c \<notin> used hi \<and> fst (hi_id hi' ! c) = key
    \<and> (\<forall>i. i \<noteq> c \<longrightarrow> fst (hi_id hi' ! i) = fst (hi_id hi ! i))"
proof -
  obtain bk where bk: "chains_ok hi bk" using hashid_okD(6) [OF ok] by blast
  obtain c where c: "free_loop hi key (hi_cap hi) 0 = Some c"
    using free_loop_finds room_free [OF ok room] by blast
  have cap: "0 < hi_cap hi" using room_free [OF ok room] by auto
  have cc: "c < hi_cap hi" "fst (hi_id hi ! c) = - 1" using free_loop_Some [OF c cap] by auto
  have cn: "snd (hi_id hi ! c) = None" "c \<notin> used hi" using hashid_okD(5) [OF ok cc(1)] cc by (simp_all add: used_def)
  let ?b = "bucket hi key"
  have b: "?b < length (hi_hash hi)" by (rule bucket_less [OF ok])
  let ?hi = "hi\<lparr>hi_count := hi_count hi + 1, hi_id := (hi_id hi)[c := (key, hi_hash hi ! ?b)],
       hi_hash := (hi_hash hi)[?b := Some c]\<rparr>"
  have ins: "hashid_insert key hi = Some (c, ?hi)"
    using c cn(1) b key by (simp add: hashid_insert_def)
  have L: "length (hi_id hi) = hi_cap hi" by (rule hashid_okD(1) [OF ok])
  have ids: "fst (hi_id ?hi ! i) = (if i = c then key else fst (hi_id hi ! i))" for i
    using cc(1) L by (simp add: nth_list_update)
  have used: "used ?hi = insert c (used hi)"
    unfolding used_def ids using cc(1) key by auto
  have bkt: "bucket ?hi = bucket hi" by (simp add: bucket_def fun_eq_iff)
  have fresh: "fst (hi_id hi ! i) \<noteq> key" if "i \<in> used hi" for i
    using lookup_ok(2) [OF ok, of key i] new that by auto
  have "chains_ok ?hi (bk(?b := c # bk ?b))"
    unfolding chains_ok_def
  proof (intro allI impI)
    fix h assume "h < length (hi_hash ?hi)"
    then have h: "h < length (hi_hash hi)" by simp
    note C = chains_okD [OF bk h]
    have nc: "c \<notin> set (bk h)" using C(3) cn(2) by simp
    have lk: "linked (hi_id ?hi) (hi_hash hi ! h) (bk h)" using C(1) linked_update [OF nc] by simp
    have st: "set (bk h) = {i \<in> used hi. bucket hi (fst (hi_id hi ! i)) = h}" using C(3) by blast
    have su: "{i \<in> used ?hi. bucket ?hi (fst (hi_id ?hi ! i)) = h} = (if h = ?b then insert c (set (bk h)) else set (bk h))"
      unfolding used bkt ids st using cn(2) by auto
    show "linked (hi_id ?hi) (hi_hash ?hi ! h) ((bk(?b := c # bk ?b)) h) \<and> distinct ((bk(?b := c # bk ?b)) h)
        \<and> set ((bk(?b := c # bk ?b)) h) = {i \<in> used ?hi. bucket ?hi (fst (hi_id ?hi ! i)) = h}"
      unfolding su using lk nc C(2) cc(1) L h by (cases "h = ?b") (simp_all add: nth_list_update)
  qed
  moreover have "inj_on (\<lambda>i. fst (hi_id ?hi ! i)) (used ?hi)"
    unfolding used ids using hashid_okD(3) [OF ok] fresh cn(2) by (auto simp: inj_on_def)
  moreover have "hi_count ?hi = card (used ?hi)"
    unfolding used using hashid_okD(2) [OF ok] cn(2) by simp
  moreover have "- 1 \<le> fst (hi_id ?hi ! i) \<and> (fst (hi_id ?hi ! i) = - 1 \<longrightarrow> snd (hi_id ?hi ! i) = None)"
    if "i < hi_cap hi" for i
    using that hashid_okD(4,5) [OF ok that] key L cc(1) by (auto simp: nth_list_update)
  moreover have "\<exists>k. hi_hashmod ?hi = 2 ^ k - 1 \<and> length (hi_hash ?hi) = 2 ^ k"
    using ok unfolding hashid_ok_def by simp
  ultimately have "hashid_ok ?hi" unfolding hashid_ok_def using L by auto
  with ins used cn(2) ids show ?thesis by (intro exI [of _ c] exI [of _ ?hi]) simp
qed

section \<open>Removal\<close>

text \<open>Unlinking node \<open>t\<close> from the chain of its bucket; the nodes of other chains stay.\<close>

definition unlinks :: "hashid \<Rightarrow> nat \<Rightarrow> nat list \<Rightarrow> nat option \<Rightarrow> (int \<times> nat option) list \<Rightarrow> bool" where
  "unlinks hi t is h' ns \<longleftrightarrow> linked ns h' (remove1 t is) \<and> length ns = length (hi_id hi) \<and> ns ! t = (- 1, None)
     \<and> (\<forall>j. j \<noteq> t \<longrightarrow> fst (ns ! j) = fst (hi_id hi ! j)) \<and> (\<forall>j. j \<notin> set is \<longrightarrow> ns ! j = hi_id hi ! j)"

lemma remove_tail:
  assumes l: "linked (hi_id hi) (Some c) (c # is)" and d: "distinct (c # is)" and f: "List.find (\<lambda>i. fst (hi_id hi ! i) = key) is = Some t"
  shows "\<exists>ns. remove_loop (hi_id hi) key c = Some (Some (t, ns)) \<and> unlinks hi t (c # is) (Some c) (ns[t := (- 1, None)])"
proof -
  let ?ns = "hi_id hi" and ?pre = "takeWhile (\<lambda>i. fst (hi_id hi ! i) \<noteq> key) is"
  obtain bs where split: "is = ?pre @ t # bs"
  proof -
    obtain j where j: "j < length is" "fst (?ns ! (is ! j)) = key" "t = is ! j" "\<forall>k < j. fst (?ns ! (is ! k)) \<noteq> key"
      using f by (auto simp: find_Some_iff)
    then have "?pre = take j is" by (intro takeWhile_eq_take_P_nth) auto
    with j that [of "drop (Suc j) is"] show ?thesis by (simp add: Cons_nth_drop_Suc)
  qed
  define p where "p = last (c # ?pre)"
  define as where "as = butlast (c # ?pre)"
  have ap: "c # ?pre = as @ [p]" unfolding p_def as_def by (rule append_butlast_last_id [symmetric]) simp
  then have whole: "c # is = as @ p # t # bs" using split by (metis append_Cons append_assoc append_Nil)
  let ?ns1 = "?ns[p := (fst (?ns ! p), snd (?ns ! t))]"
  have rl: "remove_loop ?ns key c = Some (Some (t, ?ns1))"
    using remove_linked [OF l d] f by (simp add: p_def Let_def)
  have in_: "p < length ?ns" "t < length ?ns"
    using linked_less [OF l] unfolding whole by auto
  have neq: "p \<noteq> t" "t \<notin> set (as @ p # bs)" using d unfolding whole by auto
  have "linked ?ns1 (Some c) (as @ p # bs)"
    using linked_unlink l d unfolding whole by blast
  then have "linked (?ns1[t := (- 1, None)]) (Some c) (as @ p # bs)"
    using linked_update [OF neq(2)] by blast
  moreover have "remove1 t (as @ p # t # bs) = as @ p # bs" using neq by (simp add: remove1_append)
  ultimately show ?thesis
    using rl in_ neq unfolding unlinks_def whole by (intro exI [of _ ?ns1]) (auto simp: nth_list_update)
qed

lemma remove_found:
  assumes ok: "hashid_ok hi" and bk: "chains_ok hi bk" and t: "hid_look hi key = Some t"
  shows "\<exists>h' ns. hashid_remove key hi = Some (int t, hi\<lparr>hi_hash := (hi_hash hi)[bucket hi key := h'], hi_id := ns, hi_count := hi_count hi - 1\<rparr>)
     \<and> unlinks hi t (bk (bucket hi key)) h' ns"
proof -
  let ?b = "bucket hi key"
  have b: "?b < length (hi_hash hi)" by (rule bucket_less [OF ok])
  note C = chains_okD [OF bk b]
  have tu: "t \<in> used hi" "fst (hi_id hi ! t) = key" using lookup_ok(2) [OF ok] t by auto
  then have "t \<in> set (bk ?b)" using C(3) by simp
  then obtain c "is" where cis: "bk ?b = c # is" by (cases "bk ?b") auto
  have l: "linked (hi_id hi) (Some c) (c # is)" and hc: "hi_hash hi ! ?b = Some c" and d: "distinct (c # is)"
    using C(1,2) unfolding cis by auto
  have uniq: "i = t" if "i \<in> set (bk ?b)" "fst (hi_id hi ! i) = key" for i
    using that C(3) tu hashid_okD(3) [OF ok] by (auto dest: inj_onD)
  have len: "c < length (hi_id hi)" using l by simp
  show ?thesis
  proof (cases "fst (hi_id hi ! c) = key")
    case True
    then have ct: "c = t" using uniq cis by simp
    let ?ns = "(hi_id hi)[t := (- 1, None)]"
    have "hashid_remove key hi = Some (int t, hi\<lparr>hi_hash := (hi_hash hi)[?b := snd (hi_id hi ! t)], hi_id := ?ns, hi_count := hi_count hi - 1\<rparr>)"
      using hc b True len ct by (simp add: hashid_remove_def)
    moreover have "unlinks hi t (bk ?b) (snd (hi_id hi ! t)) ?ns"
      using l d len ct unfolding unlinks_def cis by (auto simp: linked_update)
    ultimately show ?thesis by blast
  next
    case False
    then have "t \<in> set is" using \<open>t \<in> set (bk ?b)\<close> tu cis by auto
    then have "List.find (\<lambda>i. fst (hi_id hi ! i) = key) is \<noteq> None" using tu by (auto simp: find_None_iff)
    then obtain t' where t': "List.find (\<lambda>i. fst (hi_id hi ! i) = key) is = Some t'" by blast
    then have "t' = t" using uniq [of t'] cis by (auto simp: find_Some_iff)
    with t' have f: "List.find (\<lambda>i. fst (hi_id hi ! i) = key) is = Some t" by simp
    obtain ns where ns: "remove_loop (hi_id hi) key c = Some (Some (t, ns))" "unlinks hi t (c # is) (Some c) (ns[t := (- 1, None)])"
      using remove_tail [OF l d f] by blast
    have same: "(hi_hash hi)[?b := Some c] = hi_hash hi" using hc by (metis list_update_id)
    have "hashid_remove key hi = Some (int t, hi\<lparr>hi_id := ns[t := (- 1, None)], hi_count := hi_count hi - 1\<rparr>)"
      using hc b False len ns(1) by (simp add: hashid_remove_def)
    with ns(2) cis same show ?thesis
      by (intro exI [of _ "Some c"] exI [of _ "ns[t := (- 1, None)]"]) simp
  qed
qed

lemma remove_missing:
  assumes ok: "hashid_ok hi" and t: "hid_look hi key = None"
  shows "hashid_remove key hi = Some (- 1, hi)"
proof -
  obtain bk where bk: "chains_ok hi bk" using hashid_okD(6) [OF ok] by blast
  have b: "bucket hi key < length (hi_hash hi)" by (rule bucket_less [OF ok])
  note C = chains_okD [OF bk b]
  have none: "fst (hi_id hi ! i) \<noteq> key" if "i \<in> set (bk (bucket hi key))" for i
    using that C(3) lookup_ok(2) [OF ok, of key i] t by auto
  show ?thesis
  proof (cases "bk (bucket hi key)")
    case Nil
    with C(1) b show ?thesis by (simp add: hashid_remove_def)
  next
    case (Cons c "is")
    then have l: "linked (hi_id hi) (Some c) (c # is)" "hi_hash hi ! bucket hi key = Some c" "distinct (c # is)"
      using C(1,2) by auto
    moreover have "List.find (\<lambda>i. fst (hi_id hi ! i) = key) is = None"
      using none Cons by (auto simp: find_None_iff)
    ultimately show ?thesis
      using b none [of c] Cons remove_linked [OF l(1,3), of key] by (simp add: hashid_remove_def)
  qed
qed

lemma remove_ok:
  assumes ok: "hashid_ok hi"
  shows "\<exists>hi'. hashid_remove key hi = Some (case hid_look hi key of Some t \<Rightarrow> int t | None \<Rightarrow> - 1, hi') \<and> hashid_ok hi'
    \<and> hi_cap hi' = hi_cap hi
    \<and> (case hid_look hi key of None \<Rightarrow> hi' = hi
       | Some t \<Rightarrow> used hi' = used hi - {t} \<and> (\<forall>i \<in> used hi'. fst (hi_id hi' ! i) = fst (hi_id hi ! i)))"
proof (cases "hid_look hi key")
  case None
  with remove_missing [OF ok None] ok show ?thesis by simp
next
  case (Some t)
  obtain bk where bk: "chains_ok hi bk" using hashid_okD(6) [OF ok] by blast
  let ?b = "bucket hi key"
  obtain h' ns where r: "hashid_remove key hi = Some (int t, hi\<lparr>hi_hash := (hi_hash hi)[?b := h'], hi_id := ns, hi_count := hi_count hi - 1\<rparr>)"
    and un: "unlinks hi t (bk ?b) h' ns"
    using remove_found [OF ok bk Some] by blast
  let ?hi = "hi\<lparr>hi_hash := (hi_hash hi)[?b := h'], hi_id := ns, hi_count := hi_count hi - 1\<rparr>"
  have tu: "t \<in> used hi" "fst (hi_id hi ! t) = key" using lookup_ok(2) [OF ok] Some by auto
  have U: "linked ns h' (remove1 t (bk ?b))" "length ns = length (hi_id hi)" "ns ! t = (- 1, None)"
    "\<And>j. j \<noteq> t \<Longrightarrow> fst (ns ! j) = fst (hi_id hi ! j)" "\<And>j. j \<notin> set (bk ?b) \<Longrightarrow> ns ! j = hi_id hi ! j"
    using un unfolding unlinks_def by auto
  have used: "used ?hi = used hi - {t}"
    using U(3,4) unfolding used_def by auto (metis fst_conv)
  have bkt: "bucket ?hi = bucket hi" by (simp add: bucket_def fun_eq_iff)
  have b: "?b < length (hi_hash hi)" by (rule bucket_less [OF ok])
  have "chains_ok ?hi (bk(?b := remove1 t (bk ?b)))"
    unfolding chains_ok_def
  proof (intro allI impI)
    fix h assume "h < length (hi_hash ?hi)"
    then have h: "h < length (hi_hash hi)" by simp
    note C = chains_okD [OF bk h] and B = chains_okD [OF bk b]
    have st: "set (bk h) = {i \<in> used hi. bucket hi (fst (hi_id hi ! i)) = h}" using C(3) by blast
    have "{i \<in> used ?hi. bucket ?hi (fst (hi_id ?hi ! i)) = h} = {i \<in> used hi - {t}. bucket hi (fst (hi_id hi ! i)) = h}"
      unfolding used bkt using U(4) by auto
    also have "\<dots> = set (bk h) - {t}" unfolding st by blast
    finally have su: "{i \<in> used ?hi. bucket ?hi (fst (hi_id ?hi ! i)) = h} = set (bk h) - {t}" .
    show "linked (hi_id ?hi) (hi_hash ?hi ! h) ((bk(?b := remove1 t (bk ?b))) h) \<and> distinct ((bk(?b := remove1 t (bk ?b))) h)
        \<and> set ((bk(?b := remove1 t (bk ?b))) h) = {i \<in> used ?hi. bucket ?hi (fst (hi_id ?hi ! i)) = h}"
    proof (cases "h = ?b")
      case True
      with su U(1) C(2) h show ?thesis by (simp add: set_remove1_eq)
    next
      case False
      have out: "j \<notin> set (bk ?b)" if "j \<in> set (bk h)" for j
        using that C(3) B(3) False by auto
      then have "t \<notin> set (bk h)" using B(3) tu by auto
      moreover have "linked ns (hi_hash hi ! h) (bk h)"
      proof -
        have "linked (hi_id hi) c is \<Longrightarrow> set is \<subseteq> set (bk h) \<Longrightarrow> linked ns c is" for c "is"
          by (induction "is" arbitrary: c) (auto simp: U(2) U(5) [OF out])
        then show ?thesis using C(1) by blast
      qed
      ultimately show ?thesis using su C(2) False by simp
    qed
  qed
  moreover have "inj_on (\<lambda>i. fst (hi_id ?hi ! i)) (used ?hi)"
    unfolding used using hashid_okD(3) [OF ok] U(4) by (auto simp: inj_on_def)
  moreover have "hi_count ?hi = card (used ?hi)"
    unfolding used using hashid_okD(2) [OF ok] tu(1) by simp
  moreover have "- 1 \<le> fst (ns ! i) \<and> (fst (ns ! i) = - 1 \<longrightarrow> snd (ns ! i) = None)" if "i < hi_cap hi" for i
  proof (cases "i = t")
    case False
    show ?thesis
    proof (cases "i \<in> used hi")
      case True
      with used_id [OF ok] U(4) [OF False] show ?thesis by fastforce
    next
      case nu: False
      then have "ns ! i = hi_id hi ! i" using U(5) chains_okD(3) [OF bk b] by blast
      then show ?thesis using hashid_okD(4,5) [OF ok that] by simp
    qed
  qed (simp add: U(3))
  moreover have "\<exists>k. hi_hashmod ?hi = 2 ^ k - 1 \<and> length (hi_hash ?hi) = 2 ^ k"
    using ok unfolding hashid_ok_def by simp
  ultimately have "hashid_ok ?hi" unfolding hashid_ok_def using U(2) hashid_okD(1) [OF ok] by auto
  with r used U(4) Some show ?thesis by (intro exI [of _ ?hi]) auto
qed

section \<open>A slot table\<close>

definition hid_del :: "int \<Rightarrow> hashid \<Rightarrow> (nat option \<times> hashid) option" where
  "hid_del key hi = do {
     (v, hi) \<leftarrow> hashid_remove key hi;
     Some (if 0 \<le> v then Some (nat v) else None, hi) }"

lemma hashcap_loop_ok: "\<exists>k. hashcap_loop (2 ^ n) mx = Some (2 ^ k) \<and> mx \<le> 2 ^ k"
proof (induction "mx - 2 ^ n" arbitrary: n rule: less_induct)
  case less
  show ?case
  proof (cases "2 ^ n < mx")
    case True
    have "mx - 2 ^ Suc n < mx - 2 ^ n" using True by (intro diff_less_mono2) simp_all
    from less [OF this] True show ?thesis by (subst hashcap_loop.simps) (simp add: mult.commute)
  next
    case False
    then show ?thesis by (subst hashcap_loop.simps) (auto intro: exI [of _ n])
  qed
qed

lemma init_ok: "\<exists>hi. hashid_init mx = Some hi \<and> hashid_ok hi \<and> hi_cap hi = mx \<and> used hi = {}"
proof -
  obtain k where k: "hashcap_loop 16 mx = Some (2 ^ k)"
    using hashcap_loop_ok [of 4 mx] by auto
  let ?hi = "\<lparr>hi_hashmod = 2 ^ k - 1, hi_cap = mx, hi_count = 0,
       hi_id = replicate mx (- 1, None), hi_hash = replicate (2 ^ k) None\<rparr>"
  have used: "used ?hi = {}" by (auto simp: used_def)
  have "chains_ok ?hi (\<lambda>_. [])" by (simp add: chains_ok_def used)
  then have "hashid_ok ?hi" unfolding hashid_ok_def used by auto
  with k used show ?thesis by (simp add: hashid_init_def)
qed

interpretation hashid: slot_table hashid_ok hid_look "\<lambda>hi. \<not> hashid_full hi" "\<lambda>k. 0 \<le> k" hi_cap hashid_insert hid_del
proof
  fix s k i assume "hashid_ok s" "hid_look s k = Some i"
  then show "i < hi_cap s" using lookup_ok(2) [of s k i] by (simp add: used_def)
next
  fix s k i k' assume "hashid_ok s" "hid_look s k = Some i" "hid_look s k' = Some i"
  then show "k = k'" using lookup_ok(2) [of s k i] lookup_ok(2) [of s k' i] by simp
next
  fix s k assume a: "hashid_ok s" "0 \<le> k" "hid_look s k = None" "\<not> hashid_full s"
  obtain c s' where r: "hashid_insert k s = Some (c, s')" "hashid_ok s'" "hi_cap s' = hi_cap s"
    "used s' = insert c (used s)" "c \<notin> used s" "fst (hi_id s' ! c) = k" "\<forall>i. i \<noteq> c \<longrightarrow> fst (hi_id s' ! i) = fst (hi_id s ! i)"
    using insert_ok [OF a] by blast
  have "hid_look s' k' = (if k' = k then Some c else hid_look s k')" for k'
  proof (rule option_eqI)
    fix i
    show "hid_look s' k' = Some i \<longleftrightarrow> (if k' = k then Some c else hid_look s k') = Some i"
      using lookup_ok(2) [OF r(2), of k' i] lookup_ok(2) [OF a(1), of k' i] lookup_ok(2) [OF a(1), of k i] r(4-7) a(3)
      by (cases "i = c") auto
  qed
  then show "\<exists>i s'. hashid_insert k s = Some (i, s') \<and> hashid_ok s' \<and> hi_cap s' = hi_cap s
        \<and> (\<forall>k'. hid_look s' k' = (if k' = k then Some i else hid_look s k'))"
    using r(1-3) by blast
next
  fix s k assume a: "hashid_ok s"
  obtain s' where r: "hashid_remove k s = Some (case hid_look s k of Some t \<Rightarrow> int t | None \<Rightarrow> - 1, s')" "hashid_ok s'"
    "hi_cap s' = hi_cap s" "case hid_look s k of None \<Rightarrow> s' = s
       | Some t \<Rightarrow> used s' = used s - {t} \<and> (\<forall>i \<in> used s'. fst (hi_id s' ! i) = fst (hi_id s ! i))"
    using remove_ok [OF a, of k] by blast
  have d: "hid_del k s = Some (hid_look s k, s')"
    using r(1) by (cases "hid_look s k") (simp_all add: hid_del_def)
  have "hid_look s' k' = (if k' = k then None else hid_look s k')" for k'
  proof (cases "hid_look s k")
    case None
    with r(4) show ?thesis by simp
  next
    case (Some t)
    show ?thesis
    proof (rule option_eqI)
      fix i
      show "hid_look s' k' = Some i \<longleftrightarrow> (if k' = k then None else hid_look s k') = Some i"
        using lookup_ok(2) [OF r(2), of k' i] lookup_ok(2) [OF a, of k' i] lookup_ok(2) [OF a, of k t] r(4) Some
          inj_onD [OF hashid_okD(3) [OF a], of i t] by (auto simp: set_eq_iff)
    qed
  qed
  with d r(2,3) show "\<exists>s'. hid_del k s = Some (hid_look s k, s') \<and> hashid_ok s' \<and> hi_cap s' = hi_cap s
        \<and> (\<forall>k'. hid_look s' k' = (if k' = k then None else hid_look s k'))" by blast
qed

section \<open>Properties\<close>

text \<open>For the witnesses: a table of two connections with the socket 5.\<close>

definition demo_hashid :: hashid where
  "demo_hashid = snd (the (hashid_insert 5 (the (hashid_init 2))))"

lemma demo_hashid_ok: "hashid_ok demo_hashid" "hid_look demo_hashid 5 = Some 1" "hid_look demo_hashid 6 = None"
  "\<not> hashid_full demo_hashid" "hi_cap demo_hashid = 2" "hid_look demo_hashid k = Some i \<Longrightarrow> k = 5 \<and> i = 1"
proof -
  obtain h0 where h0: "hashid_init 2 = Some h0" "hashid_ok h0" "hi_cap h0 = 2" "used h0 = {}" using init_ok by blast
  have e: "hid_look h0 5 = None" "hid_look h0 6 = None" using lookup_ok(2) [OF h0(2)] h0(4) by (metis empty_iff not_None_eq)+
  have f: "\<not> hashid_full h0" using hashid_okD(2) [OF h0(2)] h0(3,4) by (simp add: hashid_full_def)
  obtain c h1 where h1: "hashid_insert 5 h0 = Some (c, h1)" "hashid_ok h1" "hi_cap h1 = hi_cap h0" "used h1 = insert c (used h0)"
     "fst (hi_id h1 ! c) = 5"
    using insert_ok [OF h0(2) _ e(1) f] by auto
  have d: "demo_hashid = h1" using h0(1) h1(1) by (simp add: demo_hashid_def)
  show "hashid_ok demo_hashid" "hi_cap demo_hashid = 2" using d h1(2,3) h0(3) by simp_all
  have "free_loop h0 5 2 0 = Some 1"
  proof -
    have "fst (hi_id h0 ! 1) = - 1" using h0(3,4) by (auto simp: used_def)
    then show ?thesis using h0(3) by (simp add: numeral_2_eq_2 Let_def)
  qed
  then have "c = 1" using h1(1) h0(3) by (auto simp: hashid_insert_def bind_eq_Some_conv split: if_splits)
  then show "hid_look demo_hashid 5 = Some 1" using lookup_ok(2) [OF h1(2)] h1(4,5) d by simp
  show "hid_look demo_hashid 6 = None"
    using lookup_ok(2) [OF h1(2), of 6 "the (hid_look h1 6)"] h1(4,5) h0(4) d by (cases "hid_look h1 6") auto
  show "k = 5 \<and> i = 1" if "hid_look demo_hashid k = Some i"
    using that lookup_ok(2) [OF h1(2), of k i] h1(4,5) h0(4) d \<open>c = 1\<close> by auto
  have "card (used h1) = 1" using h1(4) h0(4) by simp
  then show "\<not> hashid_full demo_hashid" using hashid_okD(2) [OF h1(2)] h1(3) h0(3) d by (simp add: hashid_full_def)
qed

text \<open>
  C25: The hash table refines a finite map from socket ids to the slots of the connections:
  on a valid table that is not full, inserting a new id returns a slot no other id has and
  changes no other lookup; removing an id, present or not, returns its slot and removes
  exactly it. Lookups always return.
\<close>

theorem hashid_refines_map:
  assumes "hashid_ok hi" "0 \<le> key" "hid_look hi key = None" "\<not> hashid_full hi"
  shows "(\<exists>c hi'. hashid_insert key hi = Some (c, hi') \<and> hashid_ok hi' \<and> c < hi_cap hi \<and> (\<forall>k. hid_look hi k \<noteq> Some c)
       \<and> (\<forall>k. hid_look hi' k = (if k = key then Some c else hid_look hi k)))
    \<and> (\<forall>old. \<exists>hi'. hashid_remove old hi = Some (case hid_look hi old of Some t \<Rightarrow> int t | None \<Rightarrow> - 1, hi') \<and> hashid_ok hi'
       \<and> (\<forall>k. hid_look hi' k = (if k = old then None else hid_look hi k)))
    \<and> (\<forall>k. hashid_lookup hi k \<noteq> None)"
proof (intro conjI allI)
  obtain c hi' where a: "hashid_insert key hi = Some (c, hi')" "hashid_ok hi'" "hi_cap hi' = hi_cap hi"
    "\<forall>k. hid_look hi' k = (if k = key then Some c else hid_look hi k)"
    using hashid.add_ok [OF assms] by blast
  have k: "hid_look hi' key = Some c" using a(4) by simp
  have "hid_look hi k \<noteq> Some c" for k
    using hashid.look_inj [OF a(2) k, of k] a(4) assms(3) by (metis option.distinct(1))
  with a hashid.look_less [OF a(2) k] show "\<exists>c hi'. hashid_insert key hi = Some (c, hi') \<and> hashid_ok hi' \<and> c < hi_cap hi
      \<and> (\<forall>k. hid_look hi k \<noteq> Some c) \<and> (\<forall>k. hid_look hi' k = (if k = key then Some c else hid_look hi k))" by auto
next
  fix old
  obtain hi' where d: "hid_del old hi = Some (hid_look hi old, hi')" "hashid_ok hi'"
    "\<forall>k. hid_look hi' k = (if k = old then None else hid_look hi k)"
    using hashid.del_ok [OF assms(1), of old] by blast
  obtain hi'' where r: "hashid_remove old hi = Some (case hid_look hi old of Some t \<Rightarrow> int t | None \<Rightarrow> - 1, hi'')"
    using remove_ok [OF assms(1), of old] by blast
  then have "hi'' = hi'" using d(1) by (simp add: hid_del_def)
  with r d show "\<exists>hi'. hashid_remove old hi = Some (case hid_look hi old of Some t \<Rightarrow> int t | None \<Rightarrow> - 1, hi') \<and> hashid_ok hi'
      \<and> (\<forall>k. hid_look hi' k = (if k = old then None else hid_look hi k))" by blast
next
  fix k show "hashid_lookup hi k \<noteq> None" by (rule lookup_ok(1) [OF assms(1)])
qed

lemma hashid_refines_map_witness:
  "\<exists>c hi'. hashid_insert 6 demo_hashid = Some (c, hi') \<and> hid_look hi' 5 = Some 1 \<and> c \<noteq> 1"
  using hashid_refines_map [OF demo_hashid_ok(1) _ demo_hashid_ok(3,4)] demo_hashid_ok(2) by auto

end
