(* ===== verification/Gate.thy ===== *)
theory Gate
  imports DataBuffer HashId SocketMessage
begin

text \<open>
  \<open>skynet/service-src/service_gate.c\<close>: the gate service, which frames the bytes of client
  connections into messages for agents, a broker or a watchdog. The state is \<open>struct gate\<close>; a
  connection is found through the hash table of theory \<open>HashId\<close> and buffers its bytes as in
  theory \<open>DataBuffer\<close>. Calls of the framework (send, close, start, log) are the list of
  \<open>gate_out\<close> values an operation returns; \<open>skynet_queryname\<close> and \<open>skynet_socket_listen\<close>
  are arguments. \<open>None\<close> is a failed assert or an access out of bounds.
\<close>

section \<open>State\<close>

record connection =
  c_id :: int
  c_agent :: u32
  c_client :: u32
  c_remote_name :: bytes
  c_buffer :: databuffer

record gate =
  g_listen_id :: int
  g_watchdog :: u32
  g_broker :: u32
  g_client_tag :: int
  g_header_size :: nat
  g_max_connection :: nat
  g_hash :: hashid
  g_conn :: "connection list"
  g_mp :: messagepool

datatype gate_out =
  SendMsg u32 u32 int int bytes \<comment> \<open>source, destination, type, session, data\<close>
| SockClose int
| SockStart int
| SockSend int bytes
| LogError

definition PTYPE_TEXT :: int where "PTYPE_TEXT = 0"
definition PTYPE_CLIENT :: int where "PTYPE_CLIENT = 3"
definition PTYPE_SOCKET :: int where "PTYPE_SOCKET = 6"
definition PTYPE_TAG_DONTCOPY :: int where "PTYPE_TAG_DONTCOPY = 0x10000"
definition BACKLOG :: int where "BACKLOG = 128"

definition empty_conn :: connection where
  "empty_conn = \<lparr>c_id = 0, c_agent = 0, c_client = 0, c_remote_name = [], c_buffer = db_empty\<rparr>"

definition gate_create :: gate where
  "gate_create = \<lparr>g_listen_id = - 1, g_watchdog = 0, g_broker = 0, g_client_tag = 0, g_header_size = 0,
     g_max_connection = 0, g_hash = \<lparr>hi_hashmod = 0, hi_cap = 0, hi_count = 0, hi_id = [], hi_hash = []\<rparr>,
     g_conn = [], g_mp = \<lparr>mp_pools = 0, mp_free = 0\<rparr>\<rparr>"

text \<open>\<open>gate_release\<close>: the sockets it closes before it frees the gate.\<close>

definition gate_release :: "gate \<Rightarrow> gate_out list" where
  "gate_release g =
     map (\<lambda>c. SockClose (c_id c)) (filter (\<lambda>c. 0 \<le> c_id c) (take (g_max_connection g) (g_conn g)))
     @ (if 0 \<le> g_listen_id g then [SockClose (g_listen_id g)] else [])"

section \<open>Commands\<close>

text \<open>\<open>_parm\<close>: the buffer after the arguments have been moved to its start.\<close>

definition parm :: "bytes \<Rightarrow> nat \<Rightarrow> nat \<Rightarrow> bytes" where
  "parm msg sz command_sz =
     (let rest = dropWhile (\<lambda>b. b = 32) (take (sz - command_sz) (drop command_sz msg))
      in rest @ [0] @ drop (length rest + 1) msg)"

text \<open>\<open>memcmp(command, literal, i) == 0\<close>; \<open>None\<close> when it reads past the literal.\<close>

definition memcmp_lit :: "bytes \<Rightarrow> bytes \<Rightarrow> nat \<Rightarrow> bool option" where
  "memcmp_lit command lit i =
     (if i \<le> length lit + 1 then Some (take i command = take i (lit @ [0]))
      else if take (length lit + 1) command = lit @ [0] then None else Some False)"

text \<open>\<open>strsep(&s, " ")\<close> at offset \<open>o\<close> of a buffer: the buffer and the new \<open>s\<close>.\<close>

definition strsep :: "bytes \<Rightarrow> nat \<Rightarrow> bytes \<times> nat option" where
  "strsep mem pos =
     (let tok = takeWhile (\<lambda>b. b \<noteq> 32) (cstr (drop pos mem)) in
      if length tok < length (cstr (drop pos mem)) then (mem[pos + length tok := 0], Some (pos + length tok + 1))
      else (mem, None))"

definition forward_agent :: "int \<Rightarrow> u32 \<Rightarrow> u32 \<Rightarrow> gate \<Rightarrow> gate option" where
  "forward_agent fd agentaddr clientaddr g = do {
     id \<leftarrow> hashid_lookup (g_hash g) fd;
     if id \<ge> 0 then do {
       c \<leftarrow> lget (g_conn g) (nat id);
       Some (g\<lparr>g_conn := (g_conn g)[nat id := c\<lparr>c_agent := agentaddr, c_client := clientaddr\<rparr>]\<rparr>) }
     else Some g }"

definition cmd_kick :: bytes where "cmd_kick = [107, 105, 99, 107]"
definition cmd_forward :: bytes where "cmd_forward = [102, 111, 114, 119, 97, 114, 100]"
definition cmd_broker :: bytes where "cmd_broker = [98, 114, 111, 107, 101, 114]"
definition cmd_start :: bytes where "cmd_start = [115, 116, 97, 114, 116]"
definition cmd_close :: bytes where "cmd_close = [99, 108, 111, 115, 101]"

definition ctrl_forward :: "bytes \<Rightarrow> gate \<Rightarrow> gate option" where
  "ctrl_forward tmp g =
     (case strsep tmp 0 of
        (tmp, None) \<Rightarrow> Some g
      | (tmp, Some client) \<Rightarrow>
         (let id = to_int (strtol 10 (cstr tmp)); agent = client in
          case strsep tmp client of
            (tmp, None) \<Rightarrow> Some g
          | (tmp, Some client) \<Rightarrow>
              forward_agent id (ucast (strtoul 16 (cstr (drop (agent + 1) tmp))))
                (ucast (strtoul 16 (cstr (drop (client + 1) tmp)))) g))"

definition ctrl :: "(bytes \<Rightarrow> u32) \<Rightarrow> bytes \<Rightarrow> gate \<Rightarrow> (gate_out list \<times> gate) option" where
  "ctrl queryname msg g =
     (let sz = length msg; tmp = msg @ [0]; i = length (takeWhile (\<lambda>b. b \<noteq> 32) msg); arg = parm tmp sz i in
      if sz = 0 then Some ([], g)
      else do {
        kick \<leftarrow> memcmp_lit tmp cmd_kick i;
        if kick then do {
          let uid = to_int (strtol 10 (cstr arg));
          id \<leftarrow> hashid_lookup (g_hash g) uid;
          Some (if id \<ge> 0 then [SockClose uid] else [], g) }
        else do {
        forward \<leftarrow> memcmp_lit tmp cmd_forward i;
        if forward then do { g \<leftarrow> ctrl_forward arg g; Some ([], g) }
        else do {
        broker \<leftarrow> memcmp_lit tmp cmd_broker i;
        if broker then Some ([], g\<lparr>g_broker := queryname (cstr arg)\<rparr>)
        else do {
        start \<leftarrow> memcmp_lit tmp cmd_start i;
        if start then do {
          let uid = to_int (strtol 10 (cstr arg));
          id \<leftarrow> hashid_lookup (g_hash g) uid;
          Some (if id \<ge> 0 then [SockStart uid] else [], g) }
        else do {
        close \<leftarrow> memcmp_lit tmp cmd_close i;
        if close then
          (if g_listen_id g \<ge> 0 then Some ([SockClose (g_listen_id g)], g\<lparr>g_listen_id := - 1\<rparr>) else Some ([], g))
        else Some ([LogError], g) }}}}})"

section \<open>Forwarding frames\<close>

definition report :: "gate \<Rightarrow> bytes \<Rightarrow> gate_out list" where
  "report g text =
     (if g_watchdog g = 0 then [] else [SendMsg 0 (g_watchdog g) PTYPE_TEXT 0 (take 1023 text)])"

definition str_data :: bytes where "str_data = [32, 100, 97, 116, 97, 32]"
definition str_close :: bytes where "str_close = [32, 99, 108, 111, 115, 101]"
definition str_open :: bytes where "str_open = [32, 111, 112, 101, 110, 32]"

text \<open>\<open>_forward\<close>: where the frame goes, and that it is then taken out of the buffer.\<close>

definition forward :: "nat \<Rightarrow> nat \<Rightarrow> gate \<Rightarrow> (gate_out list \<times> gate) option" where
  "forward ix fsize g = do {
     c \<leftarrow> lget (g_conn g) ix;
     let fd = c_id c;
     if fd \<le> 0 then Some ([], g)
     else if g_broker g \<noteq> 0 then do {
       (temp, db, mp) \<leftarrow> databuffer_read fsize (c_buffer c) (g_mp g);
       Some ([SendMsg 0 (g_broker g) (g_client_tag g OR PTYPE_TAG_DONTCOPY) fd temp],
         g\<lparr>g_conn := (g_conn g)[ix := c\<lparr>c_buffer := db\<rparr>], g_mp := mp\<rparr>) }
     else if c_agent c \<noteq> 0 then do {
       (temp, db, mp) \<leftarrow> databuffer_read fsize (c_buffer c) (g_mp g);
       Some ([SendMsg (c_client c) (c_agent c) (g_client_tag g OR PTYPE_TAG_DONTCOPY) fd temp],
         g\<lparr>g_conn := (g_conn g)[ix := c\<lparr>c_buffer := db\<rparr>], g_mp := mp\<rparr>) }
     else if g_watchdog g \<noteq> 0 then do {
       (temp, db, mp) \<leftarrow> databuffer_read fsize (c_buffer c) (g_mp g);
       Some ([SendMsg 0 (g_watchdog g) (PTYPE_TEXT OR PTYPE_TAG_DONTCOPY) fd (show_int (c_id c) @ str_data @ temp)],
         g\<lparr>g_conn := (g_conn g)[ix := c\<lparr>c_buffer := db\<rparr>], g_mp := mp\<rparr>) }
     else Some ([], g) }"

definition set_buffer :: "nat \<Rightarrow> connection \<Rightarrow> databuffer \<Rightarrow> messagepool \<Rightarrow> gate \<Rightarrow> gate" where
  "set_buffer ix c db mp g = g\<lparr>g_conn := (g_conn g)[ix := c\<lparr>c_buffer := db\<rparr>], g_mp := mp\<rparr>"

text \<open>The loop of \<open>dispatch_message\<close>.\<close>

partial_function (option) dispatch_loop :: "nat \<Rightarrow> int \<Rightarrow> gate \<Rightarrow> (gate_out list \<times> gate) option" where
  "dispatch_loop ix sock g = do {
     c \<leftarrow> lget (g_conn g) ix;
     (fsize, db, mp) \<leftarrow> databuffer_readheader (g_header_size g) (c_buffer c) (g_mp g);
     let g = set_buffer ix c db mp g;
     if fsize < 0 then Some ([], g)
     else if fsize > 0 then
       (if fsize \<ge> 0x1000000 then
          (let (db, mp) = databuffer_clear db mp in Some ([SockClose sock, LogError], set_buffer ix c db mp g))
        else do {
          (out, g) \<leftarrow> forward ix (nat fsize) g;
          c \<leftarrow> lget (g_conn g) ix;
          (out', g) \<leftarrow> dispatch_loop ix sock (set_buffer ix c (databuffer_reset (c_buffer c)) (g_mp g) g);
          Some (out @ out', g) })
     else dispatch_loop ix sock g }"

definition dispatch_message :: "nat \<Rightarrow> int \<Rightarrow> bytes \<Rightarrow> gate \<Rightarrow> (gate_out list \<times> gate) option" where
  "dispatch_message ix sock data g = do {
     c \<leftarrow> lget (g_conn g) ix;
     let (db, mp) = databuffer_push data (c_buffer c) (g_mp g);
     dispatch_loop ix sock (set_buffer ix c db mp g) }"

section \<open>Socket messages\<close>

definition dispatch_socket_message :: "socket_message \<Rightarrow> gate \<Rightarrow> (gate_out list \<times> gate) option" where
  "dispatch_socket_message m g =
     (if sm_type m = SOCKET_TYPE_DATA then do {
        id \<leftarrow> hashid_lookup (g_hash g) (sm_id m);
        if id \<ge> 0 then dispatch_message (nat id) (sm_id m) (sm_buffer m) g
        else Some ([LogError, SockClose (sm_id m)], g) }
      else if sm_type m = SOCKET_TYPE_CONNECT then
        (if sm_id m = g_listen_id g then Some ([], g)
         else do {
           id \<leftarrow> hashid_lookup (g_hash g) (sm_id m);
           Some (if id < 0 then [LogError, SockClose (sm_id m)] else [], g) })
      else if sm_type m = SOCKET_TYPE_CLOSE \<or> sm_type m = SOCKET_TYPE_ERROR then do {
        (id, hash) \<leftarrow> hashid_remove (sm_id m) (g_hash g);
        if id \<ge> 0 then do {
          c \<leftarrow> lget (g_conn g) (nat id);
          let (db, mp) = databuffer_clear (c_buffer c) (g_mp g);
          Some (report g (show_int (sm_id m) @ str_close) @ [SockClose (sm_id m)],
            g\<lparr>g_hash := hash, g_conn := (g_conn g)[nat id := empty_conn\<lparr>c_id := - 1\<rparr>], g_mp := mp\<rparr>) }
        else Some ([], g\<lparr>g_hash := hash\<rparr>) }
      else if sm_type m = SOCKET_TYPE_ACCEPT then do {
        cassert (g_listen_id g = sm_id m);
        if hashid_full (g_hash g) then Some ([SockClose (sm_ud m)], g)
        else do {
          (ix, hash) \<leftarrow> hashid_insert (sm_ud m) (g_hash g);
          c \<leftarrow> lget (g_conn g) ix;
          let name = take 31 (sm_extra m);
          let c = c\<lparr>c_id := sm_ud m, c_remote_name := name\<rparr>;
          Some (report g (show_int (c_id c) @ str_open @ show_int (c_id c) @ [32] @ cstr name @ [58, 48]) @ [LogError],
            g\<lparr>g_hash := hash, g_conn := (g_conn g)[ix := c]\<rparr>) } }
      else if sm_type m = SOCKET_TYPE_WARNING then Some ([LogError], g)
      else Some ([], g))"

text \<open>\<open>_cb\<close>: the value it returns (1 when the message must not be freed).\<close>

definition gate_cb ::
    "(bytes \<Rightarrow> u32) \<Rightarrow> int \<Rightarrow> bytes \<Rightarrow> socket_message \<Rightarrow> gate \<Rightarrow> (int \<times> gate_out list \<times> gate) option" where
  "gate_cb queryname type msg smsg g =
     (if type = PTYPE_TEXT then do {
        (out, g) \<leftarrow> ctrl queryname msg g;
        Some (0, out, g) }
      else if type = PTYPE_CLIENT then
        (let sz = length msg in
         if sz \<le> 4 then Some (0, [LogError], g)
         else do {
           let idbuf = drop (sz - 4) msg;
           let uid = (ucast (idbuf ! 0) :: u32) OR push_bit 8 (ucast (idbuf ! 1)) OR push_bit 16 (ucast (idbuf ! 2))
             OR push_bit 24 (ucast (idbuf ! 3));
           id \<leftarrow> hashid_lookup (g_hash g) (sint uid);
           Some (if id \<ge> 0 then (1, [SockSend (sint uid) (take (sz - 4) msg)], g) else (0, [LogError], g)) })
      else if type = PTYPE_SOCKET then do {
        (out, g) \<leftarrow> dispatch_socket_message smsg g;
        Some (0, out, g) }
      else Some (0, [], g))"

section \<open>Starting\<close>

text \<open>\<open>strrchr(addr, ':')\<close> splits the address; the value returned is 1 on an error.\<close>

definition start_listen :: "(bytes \<Rightarrow> int \<Rightarrow> int \<Rightarrow> int) \<Rightarrow> bytes \<Rightarrow> gate \<Rightarrow> int \<times> gate_out list \<times> gate" where
  "start_listen listen addr g =
     (let (host, port) =
        (if 58 \<in> set addr
         then (rev (tl (dropWhile (\<lambda>b. b \<noteq> 58) (rev addr))), to_int (strtol 10 (rev (takeWhile (\<lambda>b. b \<noteq> 58) (rev addr)))))
         else ([], to_int (strtol 10 addr)))
      in if port \<le> 0 then (1, [LogError], g)
         else let g = g\<lparr>g_listen_id := listen host port BACKLOG\<rparr> in
           if g_listen_id g < 0 then (1, [], g) else (0, [SockStart (g_listen_id g)], g))"

definition gate_init ::
    "(bytes \<Rightarrow> u32) \<Rightarrow> (bytes \<Rightarrow> int \<Rightarrow> int \<Rightarrow> int) \<Rightarrow> bytes option \<Rightarrow> gate \<Rightarrow> (int \<times> gate_out list \<times> gate) option" where
  "gate_init queryname listen param g =
     (let scan = do {
        s \<leftarrow> param;
        (header, s) \<leftarrow> (case s of [] \<Rightarrow> None | b # r \<Rightarrow> Some (b, r));
        (watchdog, s) \<leftarrow> scan_word s;
        (binding, s) \<leftarrow> scan_word s;
        (client_tag, s) \<leftarrow> scan_int s;
        Some (header, watchdog, binding, client_tag, (case scan_int s of Some (mx, _) \<Rightarrow> mx | None \<Rightarrow> 0)) }
      in case scan of
           None \<Rightarrow> Some (1, if param = None then [] else [LogError], g)
         | Some (header, watchdog, binding, client_tag, mx) \<Rightarrow>
            (if mx \<le> 0 then Some (1, [LogError], g)
             else if header \<noteq> 83 \<and> header \<noteq> 76 then Some (1, [LogError], g)
             else
              (let client_tag = (if client_tag = 0 then PTYPE_CLIENT else client_tag);
                   wd = (if hd watchdog = 33 then 0 else queryname watchdog);
                   g = g\<lparr>g_watchdog := wd\<rparr>
               in if hd watchdog \<noteq> 33 \<and> wd = 0 then Some (1, [LogError], g)
                  else do {
                    hash \<leftarrow> hashid_init (nat mx);
                    Some (start_listen listen binding (g\<lparr>g_hash := hash,
                      g_conn := replicate (nat mx) (empty_conn\<lparr>c_id := - 1\<rparr>), g_max_connection := nat mx,
                      g_client_tag := client_tag, g_header_size := (if header = 83 then 2 else 4)\<rparr>)) })))"

section \<open>Framing\<close>

datatype frame = More | Bad | Frame bytes bytes

text \<open>One frame at the head of a stream: its payload and the rest.\<close>

definition next_frame :: "nat \<Rightarrow> bytes \<Rightarrow> frame" where
  "next_frame hs bs =
     (if length bs < hs then More
      else let n = header_value hs (take hs bs) in
        if n < 0 \<or> 0x1000000 \<le> n then Bad
        else if length bs - hs < nat n then More
        else Frame (take (nat n) (drop hs bs)) (drop (hs + nat n) bs))"

text \<open>The frames of a stream, without the empty ones, and what is left; \<open>None\<close> on a bad length.\<close>

function frames :: "nat \<Rightarrow> bytes \<Rightarrow> bytes list \<times> bytes option" where
  "frames hs bs =
     (if hs = 0 then ([], Some bs)
      else case next_frame hs bs of
        More \<Rightarrow> ([], Some bs)
      | Bad \<Rightarrow> ([], None)
      | Frame p r \<Rightarrow> (let (fs, t) = frames hs r in (if p = [] then fs else p # fs, t)))"
  by pat_completeness auto
termination
  by (relation "measure (\<lambda>(hs, bs). length bs)") (auto simp: next_frame_def Let_def split: if_splits)

declare frames.simps [simp del]

lemma header_value_take: "hs = 2 \<or> hs = 4 \<Longrightarrow> hs \<le> length bs \<Longrightarrow> header_value hs (take hs (bs @ cs)) = header_value hs (take hs bs)"
  by simp

lemma next_frame_append:
  assumes "hs = 2 \<or> hs = 4" "next_frame hs a = Frame p r"
  shows "next_frame hs (a @ b) = Frame p (r @ b)"
  using assms by (auto simp: next_frame_def Let_def split: if_splits)

lemma next_frame_append_Bad:
  "next_frame hs a = Bad \<Longrightarrow> next_frame hs (a @ b) = Bad"
  by (auto simp: next_frame_def Let_def split: if_splits)

lemma frames_append:
  assumes hs: "hs = 2 \<or> hs = 4"
  shows "frames hs (a @ b) = (case frames hs a of
      (fs, None) \<Rightarrow> (fs, None)
    | (fs, Some r) \<Rightarrow> (let (fs', t) = frames hs (r @ b) in (fs @ fs', t)))"
proof (induction "length a" arbitrary: a rule: less_induct)
  case less
  have h0: "hs \<noteq> 0" using hs by auto
  show ?case
  proof (cases "next_frame hs a")
    case More
    then show ?thesis using h0 by (simp add: frames.simps [of hs a] split: prod.splits)
  next
    case Bad
    then show ?thesis using h0 next_frame_append_Bad [OF Bad, of b] by (simp add: frames.simps [of hs a] frames.simps [of hs "a @ b"])
  next
    case (Frame p r)
    then have "length r < length a" using h0 by (auto simp: next_frame_def Let_def split: if_splits)
    from less [OF this] show ?thesis
      using h0 Frame next_frame_append [OF hs Frame, of b]
      by (simp add: frames.simps [of hs a] frames.simps [of hs "a @ b"] split: prod.splits option.splits)
  qed
qed

text \<open>What the buffer still has to deliver: its bytes, and the header already taken from them.\<close>

definition stream :: "nat \<Rightarrow> databuffer \<Rightarrow> bytes \<Rightarrow> bool" where
  "stream hs db bs \<longleftrightarrow> db_ok db \<and>
     (if db_header db = 0 then bs = db_bytes db
      else \<exists>h. length h = hs \<and> header_value hs h = db_header db \<and> bs = h @ db_bytes db)"

lemma db_okD: "db_ok db \<Longrightarrow> db_size db = length (db_bytes db)"
  by (simp add: db_ok_def)

lemma readheader_have:
  assumes "db_ok db" "db_header db \<noteq> 0"
  shows "databuffer_readheader hs db mp =
     Some (if int (length (db_bytes db)) < db_header db then - 1 else db_header db, db, mp)"
  using assms by (simp add: databuffer_readheader_def db_okD)

lemma header_bytes [simp]: "db_bytes (db\<lparr>db_header := n\<rparr>) = db_bytes db" "db_ok (db\<lparr>db_header := n\<rparr>) = db_ok db"
  by (simp_all add: db_bytes_def db_ok_def)

lemma readheader_new:
  assumes "db_ok db" "db_header db = 0" "hs \<le> length (db_bytes db)" "0 < hs"
  shows "\<exists>db' mp'. db_ok db' \<and> db_bytes db' = drop hs (db_bytes db)
     \<and> db_header db' = header_value hs (take hs (db_bytes db))
     \<and> databuffer_readheader hs db mp = Some (if int (length (db_bytes db')) < db_header db' then - 1 else db_header db', db', mp')"
proof -
  have "hs \<le> db_size db" using assms(1,3) by (simp add: db_okD)
  from read_ok [OF assms(1) this assms(4), of mp] obtain db1 mp1 where r:
    "databuffer_read hs db mp = Some (take hs (db_bytes db), db1, mp1)" "db_ok db1" "db_bytes db1 = drop hs (db_bytes db)" by blast
  let ?db = "db1\<lparr>db_header := header_value hs (take hs (db_bytes db))\<rparr>"
  have "db_size ?db = length (db_bytes ?db)" using r(2) by (simp add: db_okD)
  with r assms show ?thesis
    by (intro exI [of _ ?db] exI [of _ mp1]) (simp add: databuffer_readheader_def db_okD)
qed

lemma readheader_stream:
  assumes s: "stream hs db bs" and hs: "hs = 2 \<or> hs = 4"
  shows "case next_frame hs bs of
      More \<Rightarrow> \<exists>db' mp'. databuffer_readheader hs db mp = Some (- 1, db', mp') \<and> stream hs db' bs
    | Bad \<Rightarrow> True
    | Frame p r \<Rightarrow> \<exists>db' mp'. databuffer_readheader hs db mp = Some (int (length p), db', mp') \<and> db_ok db'
        \<and> db_bytes db' = p @ r \<and> db_header db' = int (length p)"
proof (cases "db_header db = 0")
  case True
  then have bs: "bs = db_bytes db" and ok: "db_ok db" using s by (simp_all add: stream_def)
  show ?thesis
  proof (cases "length bs < hs")
    case True
    with \<open>db_header db = 0\<close> s bs ok show ?thesis
      by (simp add: next_frame_def databuffer_readheader_def db_okD)
  next
    case False
    then have "hs \<le> length (db_bytes db)" "0 < hs" using bs hs by auto
    from readheader_new [OF ok True this, of mp] obtain db' mp' where r: "db_ok db'" "db_bytes db' = drop hs bs"
      "db_header db' = header_value hs (take hs bs)"
      "databuffer_readheader hs db mp = Some (if int (length (db_bytes db')) < db_header db' then - 1 else db_header db', db', mp')"
      unfolding bs by blast
    have "stream hs db' bs" if "db_header db' \<noteq> 0"
      using that r False hs unfolding stream_def by (auto intro!: exI [of _ "take hs bs"])
    moreover have "take n (drop hs bs) @ drop (hs + n) bs = drop hs bs" for n
      by (metis append_take_drop_id drop_drop add.commute)
    ultimately show ?thesis
      using r False by (auto simp: next_frame_def Let_def)
  qed
next
  case False
  then obtain h where h: "length h = hs" "header_value hs h = db_header db" "bs = h @ db_bytes db" and ok: "db_ok db"
    using s by (auto simp: stream_def)
  have "take n (db_bytes db) @ drop n (db_bytes db) = db_bytes db" for n by simp
  with readheader_have [OF ok False, of hs mp] h s ok show ?thesis
    by (auto simp: next_frame_def Let_def)
qed

text \<open>Where a frame of connection \<open>c\<close> is sent.\<close>

definition has_target :: "gate \<Rightarrow> connection \<Rightarrow> bool" where
  "has_target g c \<longleftrightarrow> 0 < c_id c \<and> (g_broker g \<noteq> 0 \<or> c_agent c \<noteq> 0 \<or> g_watchdog g \<noteq> 0)"

definition deliver :: "gate \<Rightarrow> connection \<Rightarrow> bytes \<Rightarrow> gate_out" where
  "deliver g c p =
     (if g_broker g \<noteq> 0 then SendMsg 0 (g_broker g) (g_client_tag g OR PTYPE_TAG_DONTCOPY) (c_id c) p
      else if c_agent c \<noteq> 0 then SendMsg (c_client c) (c_agent c) (g_client_tag g OR PTYPE_TAG_DONTCOPY) (c_id c) p
      else SendMsg 0 (g_watchdog g) (PTYPE_TEXT OR PTYPE_TAG_DONTCOPY) (c_id c) (show_int (c_id c) @ str_data @ p))"

lemma forward_deliver:
  assumes "ix < length (g_conn g)" "g_conn g ! ix = c" "has_target g c" "db_ok (c_buffer c)"
    "db_bytes (c_buffer c) = p @ r" "p \<noteq> []"
  shows "\<exists>db mp. forward ix (length p) g = Some ([deliver g c p], set_buffer ix c db mp g) \<and> db_ok db \<and> db_bytes db = r"
proof -
  have "length p \<le> db_size (c_buffer c)" using assms(4,5) by (simp add: db_okD)
  from read_ok [OF assms(4) this, of "g_mp g"] assms(5,6) obtain db mp where
    "databuffer_read (length p) (c_buffer c) (g_mp g) = Some (p, db, mp)" "db_ok db" "db_bytes db = r" by auto
  with assms(1-3) show ?thesis
    by (auto simp: forward_def deliver_def has_target_def set_buffer_def Let_def)
qed

lemma set_buffer_simps [simp]:
  "length (g_conn (set_buffer ix c db mp g)) = length (g_conn g)"
  "ix < length (g_conn g) \<Longrightarrow> g_conn (set_buffer ix c db mp g) ! ix = c\<lparr>c_buffer := db\<rparr>"
  "g_header_size (set_buffer ix c db mp g) = g_header_size g" "g_hash (set_buffer ix c db mp g) = g_hash g"
  "g_mp (set_buffer ix c db mp g) = mp"
  "set_buffer ix c' db' mp' (set_buffer ix c db mp g) = set_buffer ix c' db' mp' g"
  "set_buffer ix (c\<lparr>c_buffer := x\<rparr>) db mp g = set_buffer ix c db mp g"
  "has_target (set_buffer ix c db mp g) c' = has_target g c'" "deliver (set_buffer ix c db mp g) c' = deliver g c'"
  by (simp_all add: set_buffer_def has_target_def deliver_def fun_eq_iff)

lemma has_target_buffer [simp]: "has_target g (c\<lparr>c_buffer := x\<rparr>) = has_target g c"
  "deliver g (c\<lparr>c_buffer := x\<rparr>) = deliver g c"
  by (simp_all add: has_target_def deliver_def fun_eq_iff)

lemma dispatch_loop_frames:
  "ix < length (g_conn g) \<Longrightarrow> g_conn g ! ix = c \<Longrightarrow> has_target g c \<Longrightarrow> g_header_size g = hs \<Longrightarrow> hs = 2 \<or> hs = 4 \<Longrightarrow>
   stream hs (c_buffer c) bs \<Longrightarrow> frames hs bs = (fs, Some r) \<Longrightarrow>
   \<exists>db mp. dispatch_loop ix sock g = Some (map (deliver g c) fs, set_buffer ix c db mp g) \<and> stream hs db r"
proof (induction "length bs" arbitrary: bs g c fs rule: less_induct)
  case less
  note P = less.prems
  have h0: "hs \<noteq> 0" using P(5) by auto
  show ?case
  proof (cases "next_frame hs bs")
    case Bad
    with P(7) h0 show ?thesis by (simp add: frames.simps [of hs bs])
  next
    case More
    then have "fs = []" "r = bs" using P(7) h0 by (simp_all add: frames.simps [of hs bs])
    moreover obtain db' mp' where "databuffer_readheader hs (c_buffer c) (g_mp g) = Some (- 1, db', mp')" "stream hs db' bs"
      using readheader_stream [OF P(6,5), of "g_mp g"] More by auto
    ultimately show ?thesis
      using P(1,2,4) by (subst dispatch_loop.simps) (auto simp: Let_def)
  next
    case (Frame p rest)
    then obtain db' mp' where rh: "databuffer_readheader hs (c_buffer c) (g_mp g) = Some (int (length p), db', mp')"
      "db_ok db'" "db_bytes db' = p @ rest" "db_header db' = int (length p)"
      using readheader_stream [OF P(6,5), of "g_mp g"] by auto
    have short: "length rest < length bs" and small: "length p < 0x1000000"
      using Frame h0 by (auto simp: next_frame_def Let_def split: if_splits)
    obtain fs' where fs': "frames hs rest = (fs', Some r)" "fs = (if p = [] then fs' else p # fs')"
      using P(7) Frame h0 by (auto simp: frames.simps [of hs bs] split: prod.splits if_splits)
    let ?g = "set_buffer ix c db' mp' g"
    show ?thesis
    proof (cases "p = []")
      case True
      have "stream hs db' rest" using rh True by (simp add: stream_def)
      from less.hyps [OF short, of ?g "c\<lparr>c_buffer := db'\<rparr>" fs'] this fs' P True obtain db mp where
        "dispatch_loop ix sock ?g = Some (map (deliver g c) fs', set_buffer ix c db mp g)" "stream hs db r" by auto
      moreover have "dispatch_loop ix sock g = dispatch_loop ix sock ?g"
        using P(1,2,4) rh(1) True by (subst dispatch_loop.simps) (simp add: Let_def)
      ultimately show ?thesis using fs'(2) True by auto
    next
      case False
      obtain db1 mp1 where f: "forward ix (length p) ?g = Some ([deliver g c p], set_buffer ix c db1 mp1 g)"
        "db_ok db1" "db_bytes db1 = rest"
        using forward_deliver [of ix ?g "c\<lparr>c_buffer := db'\<rparr>" p rest] P(1,3) rh(2,3) False by auto
      let ?g2 = "set_buffer ix c (databuffer_reset db1) mp1 g"
      have "stream hs (databuffer_reset db1) rest" using f(2,3) by (simp add: stream_def databuffer_reset_def)
      from less.hyps [OF short, of ?g2 "c\<lparr>c_buffer := databuffer_reset db1\<rparr>" fs'] this fs'(1) P obtain db mp where
        r: "dispatch_loop ix sock ?g2 = Some (map (deliver g c) fs', set_buffer ix c db mp g)" "stream hs db r" by auto
      have "dispatch_loop ix sock g = Some (deliver g c p # map (deliver g c) fs', set_buffer ix c db mp g)"
        using P(1,2,4) rh(1) False small f(1) r(1) by (subst dispatch_loop.simps) (simp add: Let_def)
      with r(2) fs'(2) False show ?thesis by auto
    qed
  qed
qed

text \<open>The blocks of a connection, one socket message each.\<close>

fun feed :: "nat \<Rightarrow> int \<Rightarrow> bytes list \<Rightarrow> gate \<Rightarrow> (gate_out list \<times> gate) option" where
  "feed ix sock [] g = Some ([], g)"
| "feed ix sock (d # ds) g = do {
     (out, g) \<leftarrow> dispatch_message ix sock d g;
     (out', g) \<leftarrow> feed ix sock ds g;
     Some (out @ out', g) }"

lemma feed_frames:
  "ix < length (g_conn g) \<Longrightarrow> g_conn g ! ix = c \<Longrightarrow> has_target g c \<Longrightarrow> g_header_size g = hs \<Longrightarrow> hs = 2 \<or> hs = 4 \<Longrightarrow>
   stream hs (c_buffer c) bs \<Longrightarrow> frames hs bs = ([], Some bs) \<Longrightarrow> frames hs (bs @ concat ds) = (fs, Some r) \<Longrightarrow>
   \<exists>db mp. feed ix sock ds g = Some (map (deliver g c) fs, set_buffer ix c db mp g) \<and> stream hs db r"
proof (induction ds arbitrary: g c bs fs)
  case Nil
  then have "set_buffer ix c (c_buffer c) (g_mp g) g = g" by (auto simp: set_buffer_def)
  with Nil show ?case by (intro exI [of _ "c_buffer c"] exI [of _ "g_mp g"]) simp
next
  case (Cons d ds)
  note P = Cons.prems
  obtain db1 mp1 where push: "databuffer_push d (c_buffer c) (g_mp g) = (db1, mp1)" by fastforce
  have "db_ok (c_buffer c)" using P(6) by (simp add: stream_def)
  from push_ok [OF this push] have s1: "stream hs db1 (bs @ d)"
    using P(6) by (auto simp: stream_def split: if_splits)
  let ?g1 = "set_buffer ix c db1 mp1 g"
  obtain f1 r1 where f1: "frames hs (bs @ d) = (f1, r1)" by fastforce
  have "frames hs ((bs @ d) @ concat ds) = (fs, Some r)" using P(8) by simp
  with frames_append [OF P(5), of "bs @ d" "concat ds"] f1 obtain r1' f2 where
    r1: "r1 = Some r1'" "frames hs (r1' @ concat ds) = (f2, Some r)" "fs = f1 @ f2"
    by (auto split: option.splits prod.splits)
  have again: "frames hs r1' = ([], Some r1')"
  proof -
    have "frames hs ((bs @ d) @ []) = (let (fs', t) = frames hs (r1' @ []) in (f1 @ fs', t))"
      using frames_append [OF P(5), of "bs @ d" "[]"] f1 r1(1) by simp
    then show ?thesis using f1 r1(1) by (auto split: prod.splits)
  qed
  obtain db2 mp2 where d: "dispatch_loop ix sock ?g1 = Some (map (deliver g c) f1, set_buffer ix c db2 mp2 g)" "stream hs db2 r1'"
    using dispatch_loop_frames [of ix ?g1 "c\<lparr>c_buffer := db1\<rparr>" hs "bs @ d" f1 r1' sock] P(1-5) s1 f1 r1(1) by auto
  have dm: "dispatch_message ix sock d g = Some (map (deliver g c) f1, set_buffer ix c db2 mp2 g)"
    using P(1,2) push d(1) by (simp add: dispatch_message_def)
  let ?g2 = "set_buffer ix c db2 mp2 g"
  from Cons.IH [of ?g2 "c\<lparr>c_buffer := db2\<rparr>" r1' f2] P(1,3-5) d(2) again r1(2)
  obtain db mp where "feed ix sock ds ?g2 = Some (map (deliver g c) f2, set_buffer ix c db mp g)" "stream hs db r"
    by auto
  with dm r1(3) show ?case by auto
qed

section \<open>The loop always returns\<close>

lemma forward_total:
  assumes "ix < length (g_conn g)" "g_conn g ! ix = c" "db_ok (c_buffer c)" "0 < n" "n \<le> length (db_bytes (c_buffer c))"
  shows "\<exists>out db mp. forward ix n g = Some (out, set_buffer ix c db mp g) \<and> db_ok db
    \<and> length (db_bytes db) \<le> length (db_bytes (c_buffer c))"
proof -
  have "n \<le> db_size (c_buffer c)" using assms(3,5) by (simp add: db_okD)
  from read_ok [OF assms(3) this assms(4), of "g_mp g"] obtain bs db mp where r:
    "databuffer_read n (c_buffer c) (g_mp g) = Some (bs, db, mp)" "db_ok db" "db_bytes db = drop n (db_bytes (c_buffer c))"
    by blast
  have same: "set_buffer ix c (c_buffer c) (g_mp g) g = g" using assms(2) by (auto simp: set_buffer_def)
  show ?thesis
  proof (cases "0 < c_id c \<and> (g_broker g \<noteq> 0 \<or> c_agent c \<noteq> 0 \<or> g_watchdog g \<noteq> 0)")
    case True
    then have "\<exists>out. forward ix n g = Some (out, set_buffer ix c db mp g)"
      using assms(1,2) r(1) by (auto simp: forward_def set_buffer_def Let_def)
    with r(2,3) show ?thesis by (metis diff_le_self length_drop)
  next
    case False
    then have "forward ix n g = Some ([], g)"
      using assms(1,2) by (auto simp: forward_def Let_def)
    with same assms(3) show ?thesis by (metis le_refl)
  qed
qed

definition loop_size :: "databuffer \<Rightarrow> nat" where
  "loop_size db = 2 * length (db_bytes db) + (if db_header db = 0 then 0 else 1)"

lemma readheader_total:
  assumes ok: "db_ok db" and hs: "hs = 2 \<or> hs = 4"
  shows "\<exists>n db' mp'. databuffer_readheader hs db mp = Some (n, db', mp') \<and> db_ok db'
     \<and> (0 \<le> n \<longrightarrow> n = db_header db' \<and> n \<le> int (length (db_bytes db')))
     \<and> (0 < n \<longrightarrow> 2 * length (db_bytes db') < loop_size db) \<and> (n = 0 \<longrightarrow> loop_size db' < loop_size db)"
proof (cases "db_header db = 0")
  case True
  show ?thesis
  proof (cases "length (db_bytes db) < hs")
    case True
    with \<open>db_header db = 0\<close> ok show ?thesis by (simp add: databuffer_readheader_def db_okD)
  next
    case False
    then have "hs \<le> length (db_bytes db)" "0 < hs" using hs by auto
    from readheader_new [OF ok True this, of mp] obtain db' mp' where r: "db_ok db'" "db_bytes db' = drop hs (db_bytes db)"
      "databuffer_readheader hs db mp = Some (if int (length (db_bytes db')) < db_header db' then - 1 else db_header db', db', mp')"
      by blast
    have "length (db_bytes db') < length (db_bytes db)" using r(2) \<open>hs \<le> _\<close> \<open>0 < hs\<close> by simp
    with r True show ?thesis
      by (intro exI [of _ "if int (length (db_bytes db')) < db_header db' then - 1 else db_header db'"] exI [of _ db'] exI [of _ mp'])
        (auto simp: loop_size_def)
  qed
next
  case False
  with readheader_have [OF ok False, of hs mp] ok show ?thesis by (auto simp: loop_size_def)
qed

lemma dispatch_loop_total:
  "ix < length (g_conn g) \<Longrightarrow> g_conn g ! ix = c \<Longrightarrow> g_header_size g = 2 \<or> g_header_size g = 4 \<Longrightarrow> db_ok (c_buffer c) \<Longrightarrow>
   \<exists>out db mp. dispatch_loop ix sock g = Some (out, set_buffer ix c db mp g) \<and> db_ok db"
proof (induction "loop_size (c_buffer c)" arbitrary: g c rule: less_induct)
  case less
  note P = less.prems
  obtain n db' mp' where r: "databuffer_readheader (g_header_size g) (c_buffer c) (g_mp g) = Some (n, db', mp')" "db_ok db'"
    "0 \<le> n \<Longrightarrow> n = db_header db' \<and> n \<le> int (length (db_bytes db'))"
    "0 < n \<Longrightarrow> 2 * length (db_bytes db') < loop_size (c_buffer c)" "n = 0 \<Longrightarrow> loop_size db' < loop_size (c_buffer c)"
    using readheader_total [OF P(4,3), of "g_mp g"] by blast
  let ?g = "set_buffer ix c db' mp' g"
  consider "n < 0" | "n = 0" | "0 < n" "n \<ge> 0x1000000" | "0 < n" "n < 0x1000000" by linarith
  then show ?case
  proof cases
    case 1
    then show ?thesis using P(1,2) r(1,2) by (subst dispatch_loop.simps) (auto simp: Let_def)
  next
    case 2
    have "dispatch_loop ix sock g = dispatch_loop ix sock ?g"
      using P(1,2) r(1) 2 by (subst dispatch_loop.simps) (simp add: Let_def)
    with less.hyps [of "c\<lparr>c_buffer := db'\<rparr>" ?g] r(2) r(5) [OF 2] P(1,3) show ?thesis by auto
  next
    case 3
    obtain db2 mp2 where c: "databuffer_clear db' mp' = (db2, mp2)" by fastforce
    from clear_ok [OF c] have "db_ok db2" by blast
    with 3 c show ?thesis using P(1,2) r(1) by (subst dispatch_loop.simps) (auto simp: Let_def)
  next
    case 4
    have b: "0 < nat n" "nat n \<le> length (db_bytes db')" using 4 r(3) by auto
    obtain out db2 mp2 where f: "forward ix (nat n) ?g = Some (out, set_buffer ix c db2 mp2 g)" "db_ok db2"
      "length (db_bytes db2) \<le> length (db_bytes db')"
      using forward_total [of ix ?g "c\<lparr>c_buffer := db'\<rparr>" "nat n"] P(1) r(2) b by auto
    let ?g2 = "set_buffer ix c (databuffer_reset db2) mp2 g"
    have "loop_size (databuffer_reset db2) < loop_size (c_buffer c)" "db_ok (databuffer_reset db2)"
      using f(2,3) r(4) 4(1) by (simp_all add: loop_size_def databuffer_reset_def)
    with less.hyps [of "c\<lparr>c_buffer := databuffer_reset db2\<rparr>" ?g2] P(1,3) obtain out' db mp where
      "dispatch_loop ix sock ?g2 = Some (out', set_buffer ix c db mp g)" "db_ok db" by auto
    with 4 f(1) P(1,2) r(1) show ?thesis by (subst dispatch_loop.simps) (auto simp: Let_def)
  qed
qed

section \<open>The connections of a gate\<close>

definition conns :: "gate \<Rightarrow> int \<Rightarrow> connection option" where
  "conns g = hashid.rows (g_hash g) (g_conn g)"

definition closed_conn :: connection where
  "closed_conn = empty_conn\<lparr>c_id := - 1\<rparr>"

definition gate_ok :: "gate \<Rightarrow> bool" where
  "gate_ok g \<longleftrightarrow> hashid_ok (g_hash g) \<and> length (g_conn g) = hi_cap (g_hash g) \<and> (g_header_size g = 2 \<or> g_header_size g = 4)
     \<and> (\<forall>c \<in> set (g_conn g). db_ok (c_buffer c))
     \<and> (\<forall>k i. hid_look (g_hash g) k = Some i \<longrightarrow> c_id (g_conn g ! i) = k)
     \<and> (\<forall>i < length (g_conn g). (\<forall>k. hid_look (g_hash g) k \<noteq> Some i) \<longrightarrow> g_conn g ! i = closed_conn)"

lemma gate_okD:
  assumes "gate_ok g"
  shows "hashid_ok (g_hash g)" "length (g_conn g) = hi_cap (g_hash g)" "g_header_size g = 2 \<or> g_header_size g = 4"
    "c \<in> set (g_conn g) \<Longrightarrow> db_ok (c_buffer c)" "hid_look (g_hash g) k = Some i \<Longrightarrow> c_id (g_conn g ! i) = k"
    "i < length (g_conn g) \<Longrightarrow> \<forall>k. hid_look (g_hash g) k \<noteq> Some i \<Longrightarrow> g_conn g ! i = closed_conn"
  using assms unfolding gate_ok_def by blast+

lemma gate_okI:
  assumes "hashid_ok (g_hash g)" "length (g_conn g) = hi_cap (g_hash g)" "g_header_size g = 2 \<or> g_header_size g = 4"
    "\<And>c. c \<in> set (g_conn g) \<Longrightarrow> db_ok (c_buffer c)" "\<And>k i. hid_look (g_hash g) k = Some i \<Longrightarrow> c_id (g_conn g ! i) = k"
    "\<And>i. i < length (g_conn g) \<Longrightarrow> \<forall>k. hid_look (g_hash g) k \<noteq> Some i \<Longrightarrow> g_conn g ! i = closed_conn"
  shows "gate_ok g"
  using assms unfolding gate_ok_def by blast

lemma lookup_look:
  assumes "hashid_ok hi"
  shows "hashid_lookup hi k = Some (case hid_look hi k of Some i \<Rightarrow> int i | None \<Rightarrow> - 1)
    \<or> (\<exists>v < 0. hashid_lookup hi k = Some v \<and> hid_look hi k = None)"
  using lookup_ok(1) [OF assms, of k] by (auto simp: hid_look_def split: if_splits)

lemma dispatch_data:
  assumes ok: "gate_ok g" and i: "hid_look (g_hash g) k = Some i"
  shows "\<exists>out db mp. dispatch_message i k data g = Some (out, set_buffer i (g_conn g ! i) db mp g)
     \<and> gate_ok (set_buffer i (g_conn g ! i) db mp g)
     \<and> conns (set_buffer i (g_conn g ! i) db mp g) = (conns g)(k \<mapsto> (g_conn g ! i)\<lparr>c_buffer := db\<rparr>)"
proof -
  note G = gate_okD [OF ok]
  let ?c = "g_conn g ! i"
  have il: "i < length (g_conn g)" using hashid.look_less [OF G(1) i] G(2) by simp
  have bok: "db_ok (c_buffer ?c)" using G(4) il by simp
  obtain db1 mp1 where push: "databuffer_push data (c_buffer ?c) (g_mp g) = (db1, mp1)" by fastforce
  from push_ok [OF bok push] have "db_ok db1" by blast
  with dispatch_loop_total [of i "set_buffer i ?c db1 mp1 g" "?c\<lparr>c_buffer := db1\<rparr>" k] il G(3) obtain out db mp where
    r: "dispatch_loop i k (set_buffer i ?c db1 mp1 g) = Some (out, set_buffer i ?c db mp g)" "db_ok db" by auto
  have dm: "dispatch_message i k data g = Some (out, set_buffer i ?c db mp g)"
    using il push r(1) by (simp add: dispatch_message_def)
  let ?g = "set_buffer i ?c db mp g"
  have cn: "g_conn ?g = (g_conn g)[i := ?c\<lparr>c_buffer := db\<rparr>]" "g_hash ?g = g_hash g" by (simp_all add: set_buffer_def)
  have "gate_ok ?g"
  proof (rule gate_okI)
    show "db_ok (c_buffer c)" if "c \<in> set (g_conn ?g)" for c
      using that set_update_subset_insert [of "g_conn g" i] r(2) G(4) unfolding cn by fastforce
    show "c_id (g_conn ?g ! j) = k'" if "hid_look (g_hash ?g) k' = Some j" for k' j
      using that G(5) [of k' j] il unfolding cn by (cases "j = i") auto
    show "g_conn ?g ! j = closed_conn" if "j < length (g_conn ?g)" "\<forall>k. hid_look (g_hash ?g) k \<noteq> Some j" for j
      using that G(6) [of j] i unfolding cn by (cases "j = i") auto
  qed (use G(1-3) in simp_all)
  moreover have "conns ?g = (conns g)(k \<mapsto> ?c\<lparr>c_buffer := db\<rparr>)"
    unfolding conns_def cn by (rule hashid.rows_update [OF G(1,2) i])
  ultimately show ?thesis using dm by blast
qed

lemma gate_accept:
  assumes ok: "gate_ok g" and ud: "0 \<le> u" "hid_look (g_hash g) u = None" "\<not> hashid_full (g_hash g)"
  shows "\<exists>i hash. hashid_insert u (g_hash g) = Some (i, hash) \<and> i < length (g_conn g) \<and> g_conn g ! i = closed_conn
     \<and> gate_ok (g\<lparr>g_hash := hash, g_conn := (g_conn g)[i := closed_conn\<lparr>c_id := u, c_remote_name := nm\<rparr>]\<rparr>)
     \<and> conns (g\<lparr>g_hash := hash, g_conn := (g_conn g)[i := closed_conn\<lparr>c_id := u, c_remote_name := nm\<rparr>]\<rparr>)
        = (conns g)(u \<mapsto> closed_conn\<lparr>c_id := u, c_remote_name := nm\<rparr>)"
proof -
  note G = gate_okD [OF ok]
  let ?c = "closed_conn\<lparr>c_id := u, c_remote_name := nm\<rparr>"
  obtain i hash where h: "hashid_insert u (g_hash g) = Some (i, hash)" "hashid_ok hash" "hi_cap hash = hi_cap (g_hash g)"
    "\<forall>k. hid_look hash k = (if k = u then Some i else hid_look (g_hash g) k)"
    using hashid.add_ok [OF G(1) ud] by blast
  have li: "hid_look hash u = Some i" using h(4) by simp
  have il: "i < length (g_conn g)" using hashid.look_less [OF h(2) li] G(2) h(3) by simp
  have free: "\<forall>k. hid_look (g_hash g) k \<noteq> Some i"
    using hashid.look_inj [OF h(2) li] h(4) ud(2) by (metis option.distinct(1))
  let ?g = "g\<lparr>g_hash := hash, g_conn := (g_conn g)[i := ?c]\<rparr>"
  have "gate_ok ?g"
  proof (rule gate_okI)
    show "db_ok (c_buffer c)" if "c \<in> set (g_conn ?g)" for c
      using that set_update_subset_insert [of "g_conn g" i ?c] G(4)
      by (auto simp: closed_conn_def empty_conn_def db_empty_def db_ok_def db_bytes_def)
    show "c_id (g_conn ?g ! j) = k" if "hid_look (g_hash ?g) k = Some j" for k j
      using that G(5) [of k j] il h(4) free by (cases "j = i") (auto split: if_splits)
    show "g_conn ?g ! j = closed_conn" if "j < length (g_conn ?g)" "\<forall>k. hid_look (g_hash ?g) k \<noteq> Some j" for j
    proof -
      have "j \<noteq> i" using that(2) li by auto
      moreover have "hid_look (g_hash g) k \<noteq> Some j" for k
        using spec [OF that(2), of k] spec [OF h(4), of k] ud(2) by (cases "k = u") simp_all
      ultimately show ?thesis using that(1) G(6) [of j] by simp
    qed
  qed (use G(2,3) h(2,3) in simp_all)
  moreover have "conns ?g = (conns g)(u \<mapsto> ?c)"
  proof -
    have "conns ?g = (hashid.rows hash (g_conn g))(u \<mapsto> ?c)"
      using hashid.rows_update [OF h(2) _ li, of "g_conn g" ?c] G(2) h(3) by (simp add: conns_def)
    also have "\<dots> = (conns g)(u \<mapsto> ?c)" using h(4) by (auto simp: conns_def hashid.rows_def)
    finally show ?thesis .
  qed
  ultimately show ?thesis using h(1) il G(6) [OF il free] by blast
qed

lemma gate_close:
  assumes ok: "gate_ok g"
  shows "\<exists>hash. hashid_remove k (g_hash g) = Some (case hid_look (g_hash g) k of Some i \<Rightarrow> int i | None \<Rightarrow> - 1, hash)
     \<and> (case hid_look (g_hash g) k of
          None \<Rightarrow> hash = g_hash g \<and> conns g k = None
        | Some i \<Rightarrow> i < length (g_conn g) \<and>
            (\<forall>mp. gate_ok (g\<lparr>g_hash := hash, g_conn := (g_conn g)[i := closed_conn], g_mp := mp\<rparr>)
             \<and> conns (g\<lparr>g_hash := hash, g_conn := (g_conn g)[i := closed_conn], g_mp := mp\<rparr>) = (conns g)(k := None)))"
proof -
  note G = gate_okD [OF ok]
  obtain hash where r: "hashid_remove k (g_hash g) = Some (case hid_look (g_hash g) k of Some t \<Rightarrow> int t | None \<Rightarrow> - 1, hash)"
    "case hid_look (g_hash g) k of None \<Rightarrow> hash = g_hash g | Some t \<Rightarrow> True"
    using remove_ok [OF G(1), of k] by (auto split: option.splits)
  obtain hash' where d: "hid_del k (g_hash g) = Some (hid_look (g_hash g) k, hash')" "hashid_ok hash'"
    "hi_cap hash' = hi_cap (g_hash g)" "\<forall>k'. hid_look hash' k' = (if k' = k then None else hid_look (g_hash g) k')"
    using hashid.del_ok [OF G(1), of k] by blast
  have "hash' = hash" using r(1) d(1) by (simp add: hid_del_def)
  note D = d(2-4) [unfolded this]
  show ?thesis
  proof (cases "hid_look (g_hash g) k")
    case None
    with r show ?thesis by (auto simp: conns_def hashid.rows_def)
  next
    case (Some i)
    have il: "i < length (g_conn g)" using hashid.look_less [OF G(1) Some] G(2) by simp
    have "gate_ok (g\<lparr>g_hash := hash, g_conn := (g_conn g)[i := closed_conn], g_mp := mp\<rparr>)
        \<and> conns (g\<lparr>g_hash := hash, g_conn := (g_conn g)[i := closed_conn], g_mp := mp\<rparr>) = (conns g)(k := None)" for mp
    proof
      let ?g = "g\<lparr>g_hash := hash, g_conn := (g_conn g)[i := closed_conn], g_mp := mp\<rparr>"
      show "gate_ok ?g"
      proof (rule gate_okI)
        show "db_ok (c_buffer c)" if "c \<in> set (g_conn ?g)" for c
          using that set_update_subset_insert [of "g_conn g" i closed_conn] G(4)
          by (auto simp: closed_conn_def empty_conn_def db_empty_def db_ok_def db_bytes_def)
        show "c_id (g_conn ?g ! j) = k'" if "hid_look (g_hash ?g) k' = Some j" for k' j
        proof -
          have e: "hid_look hash k' = (if k' = k then None else hid_look (g_hash g) k')" using D(3) by blast
          have "k' \<noteq> k" "hid_look (g_hash g) k' = Some j" using that e by (simp_all split: if_splits)
          moreover from this have "j \<noteq> i" using hashid.look_inj [OF G(1) Some, of k'] by blast
          ultimately show ?thesis using G(5) [of k' j] by simp
        qed
        show "g_conn ?g ! j = closed_conn" if "j < length (g_conn ?g)" "\<forall>k'. hid_look (g_hash ?g) k' \<noteq> Some j" for j
        proof (cases "j = i")
          case False
          have "hid_look (g_hash g) k' \<noteq> Some j" for k'
            using spec [OF that(2), of k'] spec [OF D(3), of k'] Some False by (cases "k' = k") simp_all
          with False that(1) G(6) [of j] show ?thesis by simp
        qed (use that(1) in simp)
      qed (use G(2,3) D(1,2) in simp_all)
      show "conns ?g = (conns g)(k := None)"
        using hashid.rows_clear [OF G(1) Some D(3) G(2)] by (simp add: conns_def)
    qed
    with Some r il show ?thesis by simp
  qed
qed

section \<open>Properties\<close>

text \<open>For the witnesses: a gate with two-byte headers, one connection (socket 5) and agent 8.\<close>

definition demo_gate :: "u32 \<Rightarrow> gate" where
  "demo_gate agent = gate_create\<lparr>g_header_size := 2, g_listen_id := 3, g_max_connection := 2, g_hash := demo_hashid,
     g_conn := [closed_conn, closed_conn\<lparr>c_id := 5, c_agent := agent\<rparr>], g_client_tag := 3\<rparr>"

lemma demo_gate_ok: "gate_ok (demo_gate 0)" "hid_look (g_hash (demo_gate a)) 5 = Some 1"
proof -
  have look: "hid_look demo_hashid k = Some i \<longleftrightarrow> k = 5 \<and> i = 1" for k i
    using demo_hashid_ok(2) demo_hashid_ok(6) by metis
  show "hid_look (g_hash (demo_gate a)) 5 = Some 1" by (simp add: demo_gate_def look)
  show "gate_ok (demo_gate 0)"
  proof (rule gate_okI)
    show "g_conn (demo_gate 0) ! i = closed_conn"
      if "i < length (g_conn (demo_gate 0))" "\<forall>k. hid_look (g_hash (demo_gate 0)) k \<noteq> Some i" for i
    proof -
      have "i = 0 \<or> i = 1" using that(1) by (auto simp: demo_gate_def)
      moreover have "i \<noteq> 1" using that(2) by (simp add: demo_gate_def look)
      ultimately show ?thesis by (simp add: demo_gate_def)
    qed
  qed (auto simp: demo_gate_def look demo_hashid_ok closed_conn_def empty_conn_def db_empty_def db_ok_def db_bytes_def)
qed

text \<open>
  C22: Framing does not depend on how the network cuts the stream. For a connection with an
  empty buffer and somewhere to send to, any sequence of blocks makes the gate send exactly
  the frames of their concatenation, in order, empty frames skipped, and keep the bytes of
  the incomplete frame, provided every length in the stream is below 16M.
\<close>

theorem gate_framing:
  assumes "ix < length (g_conn g)" "g_header_size g = 2 \<or> g_header_size g = 4" "has_target g (g_conn g ! ix)"
    "stream (g_header_size g) (c_buffer (g_conn g ! ix)) []" "frames (g_header_size g) (concat blocks) = (fs, Some r)"
  shows "\<exists>db mp. feed ix sock blocks g = Some (map (deliver g (g_conn g ! ix)) fs, set_buffer ix (g_conn g ! ix) db mp g)
     \<and> stream (g_header_size g) db r"
proof -
  have "frames (g_header_size g) [] = ([], Some [])"
    using assms(2) by (auto simp: frames.simps [of "g_header_size g" "[]"] next_frame_def)
  with feed_frames [OF assms(1) refl assms(3) refl assms(2,4)] assms(5) show ?thesis by simp
qed

lemma gate_framing_witness:
  "\<exists>g'. feed 1 5 [[0], [2, 65], [66, 0, 0, 0, 1, 67]] (demo_gate 8) = Some ([SendMsg 0 8 0x10003 5 [65, 66], SendMsg 0 8 0x10003 5 [67]], g')"
proof -
  have f: "frames 2 [0, 2, 65, 66, 0, 0, 0, 1, 67] = ([[65, 66], [67]], Some [])"
    by (simp add: frames.simps next_frame_def header_value_def Let_def)
  have s: "stream 2 db_empty []" by (simp add: stream_def db_ok_def db_bytes_def db_empty_def)
  from gate_framing [of 1 "demo_gate 8" "[[0], [2, 65], [66, 0, 0, 0, 1, 67]]" "[[65, 66], [67]]" "[]" 5] f s show ?thesis
    by (auto simp: demo_gate_def has_target_def deliver_def gate_create_def closed_conn_def empty_conn_def PTYPE_TAG_DONTCOPY_def)
qed

text \<open>
  C26: Connections are isolated. On a valid gate every socket message (an accept being for the
  listening socket with a new id) is handled without a failed assert or an access out of
  bounds, and the gate stays valid. Data touches only the buffer of its own connection; a
  close or an error removes exactly its connection; an accept adds a connection with no
  agent and no bytes left from the one that had its slot before, or none when full.
\<close>

theorem gate_connections:
  assumes "gate_ok g"
    "sm_type m = SOCKET_TYPE_ACCEPT \<Longrightarrow> sm_id m = g_listen_id g \<and> 0 \<le> sm_ud m \<and> conns g (sm_ud m) = None"
  shows "\<exists>out g'. dispatch_socket_message m g = Some (out, g') \<and> gate_ok g' \<and>
    (if sm_type m = SOCKET_TYPE_DATA then
       (case conns g (sm_id m) of None \<Rightarrow> g' = g
        | Some c \<Rightarrow> \<exists>db. conns g' = (conns g)(sm_id m \<mapsto> c\<lparr>c_buffer := db\<rparr>))
     else if sm_type m = SOCKET_TYPE_CLOSE \<or> sm_type m = SOCKET_TYPE_ERROR then conns g' = (conns g)(sm_id m := None)
     else if sm_type m = SOCKET_TYPE_ACCEPT \<and> \<not> hashid_full (g_hash g) then
       conns g' = (conns g)(sm_ud m \<mapsto> closed_conn\<lparr>c_id := sm_ud m, c_remote_name := take 31 (sm_extra m)\<rparr>)
     else g' = g)"
proof -
  note G = gate_okD [OF assms(1)]
  have look: "conns g k = map_option (\<lambda>i. g_conn g ! i) (hid_look (g_hash g) k)" for k
    by (simp add: conns_def hashid.rows_def)
  consider "sm_type m = SOCKET_TYPE_DATA" | "sm_type m = SOCKET_TYPE_CONNECT"
    | "sm_type m = SOCKET_TYPE_CLOSE \<or> sm_type m = SOCKET_TYPE_ERROR" | "sm_type m = SOCKET_TYPE_ACCEPT"
    | "sm_type m \<notin> {SOCKET_TYPE_DATA, SOCKET_TYPE_CONNECT, SOCKET_TYPE_CLOSE, SOCKET_TYPE_ERROR, SOCKET_TYPE_ACCEPT}" by blast
  then show ?thesis
  proof cases
    case 1
    show ?thesis
    proof (cases "hid_look (g_hash g) (sm_id m)")
      case None
      then have "\<exists>v < 0. hashid_lookup (g_hash g) (sm_id m) = Some v" using lookup_look [OF G(1), of "sm_id m"] by auto
      with 1 None assms(1) show ?thesis by (auto simp: dispatch_socket_message_def look)
    next
      case (Some i)
      from dispatch_data [OF assms(1) Some, of "sm_buffer m"] obtain out db mp where
        "dispatch_message i (sm_id m) (sm_buffer m) g = Some (out, set_buffer i (g_conn g ! i) db mp g)"
        "gate_ok (set_buffer i (g_conn g ! i) db mp g)"
        "conns (set_buffer i (g_conn g ! i) db mp g) = (conns g)(sm_id m \<mapsto> (g_conn g ! i)\<lparr>c_buffer := db\<rparr>)" by blast
      moreover have "hashid_lookup (g_hash g) (sm_id m) = Some (int i)" using lookup_look [OF G(1), of "sm_id m"] Some by auto
      ultimately show ?thesis using 1 Some by (auto simp: dispatch_socket_message_def look)
    qed
  next
    case 2
    have "\<exists>v. hashid_lookup (g_hash g) (sm_id m) = Some v" using lookup_ok(1) [OF G(1)] by auto
    with 2 assms(1) show ?thesis
      by (auto simp: dispatch_socket_message_def SOCKET_TYPE_DATA_def SOCKET_TYPE_CONNECT_def SOCKET_TYPE_CLOSE_def
          SOCKET_TYPE_ERROR_def SOCKET_TYPE_ACCEPT_def)
  next
    case 3
    then have ty: "sm_type m \<noteq> SOCKET_TYPE_DATA" "sm_type m \<noteq> SOCKET_TYPE_CONNECT"
      by (auto simp: SOCKET_TYPE_DATA_def SOCKET_TYPE_CONNECT_def SOCKET_TYPE_CLOSE_def SOCKET_TYPE_ERROR_def)
    obtain hash where r: "hashid_remove (sm_id m) (g_hash g) =
        Some (case hid_look (g_hash g) (sm_id m) of Some i \<Rightarrow> int i | None \<Rightarrow> - 1, hash)"
      "case hid_look (g_hash g) (sm_id m) of
          None \<Rightarrow> hash = g_hash g \<and> conns g (sm_id m) = None
        | Some i \<Rightarrow> i < length (g_conn g) \<and>
            (\<forall>mp. gate_ok (g\<lparr>g_hash := hash, g_conn := (g_conn g)[i := closed_conn], g_mp := mp\<rparr>)
             \<and> conns (g\<lparr>g_hash := hash, g_conn := (g_conn g)[i := closed_conn], g_mp := mp\<rparr>) = (conns g)(sm_id m := None))"
      using gate_close [OF assms(1), of "sm_id m"] by blast
    show ?thesis
    proof (cases "hid_look (g_hash g) (sm_id m)")
      case None
      with r have "dispatch_socket_message m g = Some ([], g)" "conns g (sm_id m) = None"
        using 3 ty by (simp_all add: dispatch_socket_message_def)
      with 3 ty assms(1) show ?thesis by auto
    next
      case (Some i)
      obtain db mp where c: "databuffer_clear (c_buffer (g_conn g ! i)) (g_mp g) = (db, mp)" by fastforce
      have "dispatch_socket_message m g = Some (report g (show_int (sm_id m) @ str_close) @ [SockClose (sm_id m)],
          g\<lparr>g_hash := hash, g_conn := (g_conn g)[i := closed_conn], g_mp := mp\<rparr>)"
        using 3 ty r Some c by (simp add: dispatch_socket_message_def closed_conn_def)
      with r(2) Some 3 ty show ?thesis by auto
    qed
  next
    case 4
    then have ty: "sm_type m \<noteq> SOCKET_TYPE_DATA" "sm_type m \<noteq> SOCKET_TYPE_CONNECT" "sm_type m \<noteq> SOCKET_TYPE_CLOSE"
      "sm_type m \<noteq> SOCKET_TYPE_ERROR"
      by (auto simp: SOCKET_TYPE_DATA_def SOCKET_TYPE_CONNECT_def SOCKET_TYPE_CLOSE_def SOCKET_TYPE_ERROR_def SOCKET_TYPE_ACCEPT_def)
    have A: "sm_id m = g_listen_id g" "0 \<le> sm_ud m" "hid_look (g_hash g) (sm_ud m) = None"
      using assms(2) [OF 4] look by auto
    show ?thesis
    proof (cases "hashid_full (g_hash g)")
      case True
      with 4 ty A assms(1) show ?thesis by (simp add: dispatch_socket_message_def)
    next
      case False
      from gate_accept [OF assms(1) A(2,3) False, of "take 31 (sm_extra m)"] obtain i hash where
        "hashid_insert (sm_ud m) (g_hash g) = Some (i, hash)" "i < length (g_conn g)" "g_conn g ! i = closed_conn"
        "gate_ok (g\<lparr>g_hash := hash, g_conn := (g_conn g)[i := closed_conn\<lparr>c_id := sm_ud m, c_remote_name := take 31 (sm_extra m)\<rparr>]\<rparr>)"
        "conns (g\<lparr>g_hash := hash, g_conn := (g_conn g)[i := closed_conn\<lparr>c_id := sm_ud m, c_remote_name := take 31 (sm_extra m)\<rparr>]\<rparr>)
           = (conns g)(sm_ud m \<mapsto> closed_conn\<lparr>c_id := sm_ud m, c_remote_name := take 31 (sm_extra m)\<rparr>)" by blast
      with 4 ty A False show ?thesis by (simp add: dispatch_socket_message_def Let_def)
    qed
  next
    case 5
    with assms(1) show ?thesis
      by (cases "sm_type m = SOCKET_TYPE_WARNING") (auto simp: dispatch_socket_message_def)
  qed
qed

lemma gate_connections_witness:
  "\<exists>out g'. dispatch_socket_message \<lparr>sm_type = 3, sm_id = 5, sm_ud = 0, sm_buffer = [], sm_extra = []\<rparr> (demo_gate 0) = Some (out, g')
     \<and> conns g' 5 = None"
  using gate_connections [OF demo_gate_ok(1), of "\<lparr>sm_type = 3, sm_id = 5, sm_ud = 0, sm_buffer = [], sm_extra = []\<rparr>"]
  by (auto simp: SOCKET_TYPE_DATA_def SOCKET_TYPE_CLOSE_def SOCKET_TYPE_ERROR_def SOCKET_TYPE_ACCEPT_def)

text \<open>
  A four-byte length with its top bit set stalls the connection instead of closing it:
  the header becomes a negative int, the comparison with the 16M limit is never reached, and
  from then on every block is only appended to the buffer, which grows without bound.
\<close>

theorem gate_negative_length_stalls:
  assumes "ix < length (g_conn g)" "g_header_size g = 4" "db_ok (c_buffer (g_conn g ! ix))"
    "db_header (c_buffer (g_conn g ! ix)) < 0 \<or>
     db_header (c_buffer (g_conn g ! ix)) = 0 \<and> db_bytes (c_buffer (g_conn g ! ix)) = [] \<and> 4 \<le> length data
       \<and> header_value 4 (take 4 data) < 0"
  shows "\<exists>db mp. dispatch_message ix sock data g = Some ([], set_buffer ix (g_conn g ! ix) db mp g)
     \<and> db_ok db \<and> db_header db < 0 \<and> length data - 4 \<le> length (db_bytes db)
     \<and> (db_header (c_buffer (g_conn g ! ix)) < 0 \<longrightarrow> db_bytes db = db_bytes (c_buffer (g_conn g ! ix)) @ data)"
proof -
  let ?c = "g_conn g ! ix"
  obtain db1 mp1 where push: "databuffer_push data (c_buffer ?c) (g_mp g) = (db1, mp1)" by fastforce
  have p: "db_ok db1" "db_bytes db1 = db_bytes (c_buffer ?c) @ data" "db_header db1 = db_header (c_buffer ?c)"
    using push_ok [OF assms(3) push] by auto
  have "\<exists>n db mp. databuffer_readheader 4 db1 mp1 = Some (n, db, mp) \<and> n < 0 \<and> db_ok db \<and> db_header db < 0
      \<and> (if db_header db1 < 0 then db = db1 else db_bytes db = drop 4 data)"
  proof (cases "db_header db1 < 0")
    case True
    then show ?thesis using readheader_have [OF p(1), of 4 mp1] p(1) by auto
  next
    case False
    then have z: "db_header db1 = 0" "4 \<le> length (db_bytes db1)" "db_bytes db1 = data" "header_value 4 (take 4 data) < 0"
      using assms(4) p(2,3) by auto
    from readheader_new [OF p(1) z(1,2), of mp1] z(3,4) False show ?thesis by auto
  qed
  then obtain n db mp where r: "databuffer_readheader 4 db1 mp1 = Some (n, db, mp)" "n < 0" "db_ok db" "db_header db < 0"
    "if db_header db1 < 0 then db = db1 else db_bytes db = drop 4 data" by blast
  have "dispatch_message ix sock data g = Some ([], set_buffer ix ?c db mp g)"
    using assms(1,2) push r(1,2) by (simp add: dispatch_message_def dispatch_loop.simps [of ix] Let_def)
  with r p(2,3) show ?thesis by (intro exI [of _ db] exI [of _ mp]) (auto split: if_splits)
qed

lemma gate_negative_length_stalls_witness:
  "\<exists>db mp. dispatch_message 1 5 [0x80, 0, 0, 0, 1] ((demo_gate 8)\<lparr>g_header_size := 4\<rparr>)
     = Some ([], set_buffer 1 (g_conn (demo_gate 8) ! 1) db mp ((demo_gate 8)\<lparr>g_header_size := 4\<rparr>)) \<and> db_header db < 0"
proof -
  have n: "header_value 4 (take 4 [0x80, 0, 0, 0, 1]) < 0" by (simp add: header_value_def)
  show ?thesis
    using gate_negative_length_stalls [of 1 "(demo_gate 8)\<lparr>g_header_size := 4\<rparr>" "[0x80, 0, 0, 0, 1]" 5] n
    by (auto simp: demo_gate_def closed_conn_def empty_conn_def db_empty_def db_ok_def db_bytes_def)
qed

text \<open>
  A frame that arrives when there is nobody to send it to (no broker, agent or watchdog)
  is not taken out of the buffer: its header is dropped and its payload is parsed again as
  if it were headers and frames, so that the framing of the connection is lost.
\<close>

theorem gate_no_target_loses_framing:
  assumes "ix < length (g_conn g)" "g_conn g ! ix = c" "\<not> has_target g c" "g_header_size g = 2 \<or> g_header_size g = 4"
    "stream (g_header_size g) (c_buffer c) bs" "next_frame (g_header_size g) bs = Frame p rest" "p \<noteq> []"
  shows "\<exists>db mp. dispatch_loop ix sock g = dispatch_loop ix sock (set_buffer ix c db mp g)
     \<and> stream (g_header_size g) db (p @ rest)"
proof -
  obtain db' mp' where r: "databuffer_readheader (g_header_size g) (c_buffer c) (g_mp g) = Some (int (length p), db', mp')"
    "db_ok db'" "db_bytes db' = p @ rest"
    using readheader_stream [OF assms(5,4), of "g_mp g"] assms(6) by auto
  have small: "length p < 0x1000000" using assms(6) by (auto simp: next_frame_def Let_def split: if_splits)
  let ?g = "set_buffer ix c db' mp' g"
  have "forward ix (length p) ?g = Some ([], ?g)"
    using assms(1,3) by (auto simp: forward_def has_target_def set_buffer_def Let_def)
  then have "dispatch_loop ix sock g = dispatch_loop ix sock (set_buffer ix c (databuffer_reset db') mp' g)"
    using assms(1,2,7) r(1) small
    by (subst dispatch_loop.simps)
      (simp add: Let_def)
  moreover have "stream (g_header_size g) (databuffer_reset db') (p @ rest)"
    using r(2,3) by (simp add: stream_def databuffer_reset_def)
  ultimately show ?thesis by blast
qed

lemma gate_no_target_loses_framing_witness:
  "\<exists>g db mp. g_conn g ! 1 = (g_conn (demo_gate 0) ! 1)\<lparr>c_buffer := db_empty\<lparr>db_size := 6, db_queue := [[0, 4, 0, 9, 65, 66]]\<rparr>\<rparr>
     \<and> dispatch_loop 1 5 g = dispatch_loop 1 5 (set_buffer 1 (g_conn g ! 1) db mp g) \<and> stream 2 db [0, 9, 65, 66]"
proof -
  let ?b = "db_empty\<lparr>db_size := 6, db_queue := [[0, 4, 0, 9, 65, 66]]\<rparr>"
  let ?g = "set_buffer 1 (g_conn (demo_gate 0) ! 1) ?b (g_mp (demo_gate 0)) (demo_gate 0)"
  have c: "g_conn ?g ! 1 = (g_conn (demo_gate 0) ! 1)\<lparr>c_buffer := ?b\<rparr>" by (simp add: demo_gate_def)
  have f: "next_frame 2 [0, 4, 0, 9, 65, 66] = Frame [0, 9, 65, 66] []"
    by (simp add: next_frame_def header_value_def Let_def)
  have s: "stream 2 ?b [0, 4, 0, 9, 65, 66]" by (simp add: stream_def db_ok_def db_bytes_def db_empty_def)
  have "\<exists>db mp. dispatch_loop 1 5 ?g = dispatch_loop 1 5 (set_buffer 1 (g_conn ?g ! 1) db mp ?g) \<and> stream (g_header_size ?g) db ([0, 9, 65, 66] @ [])"
    by (rule gate_no_target_loses_framing [of 1 ?g _ "[0, 4, 0, 9, 65, 66]"])
      (use c f s in \<open>simp_all add: demo_gate_def has_target_def gate_create_def closed_conn_def empty_conn_def set_buffer_def\<close>)
  with c show ?thesis by (intro exI [of _ ?g]) (auto simp: demo_gate_def)
qed

end
