(* ===== verification/Locks.thy ===== *)
theory Locks
  imports Prelude
begin

text \<open>
  The two locks of \<open>skynet-src\<close>, in the version built by default (C11 atomics, no pthread):
  \<open>rwlock.h\<close> and \<open>spinlock.h\<close>. Each thread has a program counter; a step is one atomic
  access, taken as sequentially consistent, so the relations have every interleaving. A
  thread inside the lock may stay there as long as it wants. \<open>rw_pc\<close> values name the point
  before the access, in the order of the code.
\<close>

section \<open>The readers-writer lock\<close>

datatype rw_pc = RwIdle | RSpin | RInc | RCheck | RDec | Reading | WCas | WWait | Writing

record rwlock =
  rw_write :: nat
  rw_read :: nat
  rw_pc :: "nat \<Rightarrow> rw_pc"

definition rwlock_init :: "rwlock \<Rightarrow> bool" where
  "rwlock_init s \<longleftrightarrow> rw_write s = 0 \<and> rw_read s = 0 \<and> (\<forall>t. rw_pc s t = RwIdle)"

definition rw_goto :: "nat \<Rightarrow> rw_pc \<Rightarrow> rwlock \<Rightarrow> rwlock" where
  "rw_goto t p s = s\<lparr>rw_pc := (rw_pc s)(t := p)\<rparr>"

inductive rwlock_step :: "rwlock \<Rightarrow> rwlock \<Rightarrow> bool" where
  rlock_call: "rw_pc s t = RwIdle \<Longrightarrow> rwlock_step s (rw_goto t RSpin s)"
| rlock_load: "rw_pc s t = RSpin \<Longrightarrow> rwlock_step s (rw_goto t (if rw_write s \<noteq> 0 then RSpin else RInc) s)"
| rlock_finc: "rw_pc s t = RInc \<Longrightarrow> rwlock_step s (rw_goto t RCheck (s\<lparr>rw_read := rw_read s + 1\<rparr>))"
| rlock_check: "rw_pc s t = RCheck \<Longrightarrow> rwlock_step s (rw_goto t (if rw_write s \<noteq> 0 then RDec else Reading) s)"
| rlock_fdec: "rw_pc s t = RDec \<Longrightarrow> rwlock_step s (rw_goto t RSpin (s\<lparr>rw_read := rw_read s - 1\<rparr>))"
| runlock: "rw_pc s t = Reading \<Longrightarrow> rwlock_step s (rw_goto t RwIdle (s\<lparr>rw_read := rw_read s - 1\<rparr>))"
| wlock_call: "rw_pc s t = RwIdle \<Longrightarrow> rwlock_step s (rw_goto t WCas s)"
| wlock_cas: "rw_pc s t = WCas \<Longrightarrow>
     rwlock_step s (if rw_write s = 0 then rw_goto t WWait (s\<lparr>rw_write := 1\<rparr>) else s)"
| wlock_wait: "rw_pc s t = WWait \<Longrightarrow> rwlock_step s (rw_goto t (if rw_read s \<noteq> 0 then WWait else Writing) s)"
| wunlock: "rw_pc s t = Writing \<Longrightarrow> rwlock_step s (rw_goto t RwIdle (s\<lparr>rw_write := 0\<rparr>))"

definition counted :: "rwlock \<Rightarrow> nat set" where
  "counted s = {t. rw_pc s t \<in> {RCheck, RDec, Reading}}"

definition owners :: "rwlock \<Rightarrow> nat set" where
  "owners s = {t. rw_pc s t \<in> {WWait, Writing}}"

text \<open>The counters count the threads, and a thread that writes is alone.\<close>

definition rw_inv :: "rwlock \<Rightarrow> bool" where
  "rw_inv s \<longleftrightarrow> finite (counted s) \<and> rw_read s = card (counted s)
     \<and> (if rw_write s = 0 then owners s = {} else rw_write s = 1 \<and> (\<exists>t. owners s = {t}))
     \<and> (\<forall>t u. rw_pc s t = Writing \<longrightarrow> rw_pc s u \<noteq> Reading)"

lemma rw_goto_simps [simp]:
  "rw_pc (rw_goto t p s) = (rw_pc s)(t := p)" "rw_write (rw_goto t p s) = rw_write s" "rw_read (rw_goto t p s) = rw_read s"
  by (simp_all add: rw_goto_def)

lemma counted_goto:
  "counted (rw_goto t p s) = (if p \<in> {RCheck, RDec, Reading} then insert t (counted s) else counted s - {t})"
  by (auto simp: counted_def)

lemma owners_goto:
  "owners (rw_goto t p s) = (if p \<in> {WWait, Writing} then insert t (owners s) else owners s - {t})"
  by (auto simp: owners_def)

lemma counted_upd [simp]: "counted (s\<lparr>rw_read := r\<rparr>) = counted s" "counted (s\<lparr>rw_write := w\<rparr>) = counted s"
  and owners_upd [simp]: "owners (s\<lparr>rw_read := r\<rparr>) = owners s" "owners (s\<lparr>rw_write := w\<rparr>) = owners s"
  by (simp_all add: counted_def owners_def)

lemma counted_iff: "t \<in> counted s \<longleftrightarrow> rw_pc s t \<in> {RCheck, RDec, Reading}"
  and owners_iff: "t \<in> owners s \<longleftrightarrow> rw_pc s t \<in> {WWait, Writing}"
  by (simp_all add: counted_def owners_def)

lemma rw_inv_init: "rwlock_init s \<Longrightarrow> rw_inv s"
  by (auto simp: rwlock_init_def rw_inv_def counted_def owners_def)

lemma rw_invI:
  assumes "finite (counted s)" "rw_read s = card (counted s)"
    "rw_write s = 0 \<Longrightarrow> owners s = {}" "rw_write s \<noteq> 0 \<Longrightarrow> rw_write s = 1 \<and> (\<exists>t. owners s = {t})"
    "\<And>t u. rw_pc s t = Writing \<Longrightarrow> rw_pc s u \<noteq> Reading"
  shows "rw_inv s"
  using assms unfolding rw_inv_def by auto

lemma counted_same: "(rw_pc s t \<in> {RCheck, RDec, Reading}) = (p \<in> {RCheck, RDec, Reading}) \<Longrightarrow> counted (rw_goto t p s) = counted s"
  and owners_same: "(rw_pc s t \<in> {WWait, Writing}) = (p \<in> {WWait, Writing}) \<Longrightarrow> owners (rw_goto t p s) = owners s"
  by (auto simp: counted_def owners_def)

lemma counted_leave:
  "rw_pc s t \<in> {RCheck, RDec, Reading} \<Longrightarrow> p \<notin> {RCheck, RDec, Reading} \<Longrightarrow> finite (counted s) \<Longrightarrow>
   card (counted (rw_goto t p s)) = card (counted s) - 1"
  unfolding counted_goto by (subst if_not_P) (simp_all add: card_Diff_singleton counted_iff)

lemma rw_inv_step: "rw_inv s \<Longrightarrow> rwlock_step s s' \<Longrightarrow> rw_inv s'"
proof -
  assume inv: "rw_inv s" and step: "rwlock_step s s'"
  have fin: "finite (counted s)" and num: "rw_read s = card (counted s)"
    and w0: "rw_write s = 0 \<Longrightarrow> owners s = {}" and w1: "rw_write s \<noteq> 0 \<Longrightarrow> rw_write s = 1 \<and> (\<exists>t. owners s = {t})"
    and ex: "\<And>t u. rw_pc s t = Writing \<Longrightarrow> rw_pc s u \<noteq> Reading"
    using inv unfolding rw_inv_def by (auto split: if_splits)
  have free: "rw_write s \<noteq> 0" if "rw_pc s u = Writing" for u
    using w0 owners_iff [of u s] that by auto
  have none: "rw_pc s u \<noteq> Reading" if "rw_read s = 0" for u
    using fin num counted_iff [of u s] that by auto
  have finT: "finite (counted (rw_goto t p s'))" if "counted s' = counted s" for t p s'
    using fin that unfolding counted_goto by simp
  from step show "rw_inv s'"
  proof cases
    case (rlock_call t)
    then show ?thesis
      using fin num w0 w1 ex by (intro rw_invI) (auto simp: counted_same owners_same split: if_splits)
  next
    case (rlock_load t)
    then have "counted s' = counted s" "owners s' = owners s" by (simp_all add: counted_same owners_same)
    with rlock_load show ?thesis
      using fin num w0 w1 ex by (intro rw_invI) (auto split: if_splits)
  next
    case (rlock_finc t)
    then have "owners s' = owners s" "counted s' = insert t (counted s)" "t \<notin> counted s"
      by (simp_all add: owners_same counted_goto counted_iff)
    with rlock_finc show ?thesis
      using fin num w0 w1 ex by (intro rw_invI) (auto split: if_splits)
  next
    case (rlock_check t)
    then have "counted s' = counted s" "owners s' = owners s" by (simp_all add: counted_same owners_same)
    with rlock_check show ?thesis
      using fin num w0 w1 ex free by (intro rw_invI) (auto split: if_splits)
  next
    case (rlock_fdec t)
    then have "owners s' = owners s" by (simp add: owners_same)
    with rlock_fdec show ?thesis
      using fin finT num w0 w1 ex counted_leave [of s t RSpin] counted_leave [of "s\<lparr>rw_read := rw_read s - 1\<rparr>" t RSpin]
      by (intro rw_invI) (auto split: if_splits)
  next
    case (runlock t)
    then have "owners s' = owners s" by (simp add: owners_same)
    with runlock show ?thesis
      using fin finT num w0 w1 ex counted_leave [of "s\<lparr>rw_read := rw_read s - 1\<rparr>" t RwIdle]
      by (intro rw_invI) (auto split: if_splits)
  next
    case (wlock_call t)
    then have "counted s' = counted s" "owners s' = owners s" by (simp_all add: counted_same owners_same)
    with wlock_call show ?thesis
      using fin num w0 w1 ex by (intro rw_invI) (auto split: if_splits)
  next
    case (wlock_cas t)
    show ?thesis
    proof (cases "rw_write s = 0")
      case True
      with wlock_cas have "counted s' = counted s" "owners s' = {t}"
        using w0 by (simp_all add: counted_same owners_goto)
      with wlock_cas True show ?thesis
        using fin num ex by (intro rw_invI) (auto split: if_splits)
    qed (use inv wlock_cas in simp)
  next
    case (wlock_wait t)
    then have "counted s' = counted s" "owners s' = owners s" by (simp_all add: counted_same owners_same)
    with wlock_wait show ?thesis
      using fin num w0 w1 ex none by (intro rw_invI) (auto split: if_splits)
  next
    case (wunlock t)
    then have "rw_write s \<noteq> 0" "t \<in> owners s" using free owners_iff by auto
    then have "owners s = {t}" using w1 by auto
    then have "owners s' = {}" "counted s' = counted s" using wunlock by (simp_all add: owners_goto counted_same)
    with wunlock show ?thesis
      using fin num ex by (intro rw_invI) (auto split: if_splits)
  qed
qed

interpretation rwlock: machine rwlock_init rwlock_step rw_inv
  by (rule machine.intro) (erule rw_inv_init, rule rw_inv_step)

section \<open>The spin lock\<close>

datatype spin_pc = SpIdle | SSwap | SWait | TLoad | TSwap | SHeld

record spinlock =
  sp_lock :: nat
  sp_pc :: "nat \<Rightarrow> spin_pc"

definition spinlock_init :: "spinlock \<Rightarrow> bool" where
  "spinlock_init s \<longleftrightarrow> sp_lock s = 0 \<and> (\<forall>t. sp_pc s t = SpIdle)"

definition sp_goto :: "nat \<Rightarrow> spin_pc \<Rightarrow> spinlock \<Rightarrow> spinlock" where
  "sp_goto t p s = s\<lparr>sp_pc := (sp_pc s)(t := p)\<rparr>"

inductive spinlock_step :: "spinlock \<Rightarrow> spinlock \<Rightarrow> bool" where
  lock_call: "sp_pc s t = SpIdle \<Longrightarrow> spinlock_step s (sp_goto t SSwap s)"
| lock_swap: "sp_pc s t = SSwap \<Longrightarrow>
     spinlock_step s (sp_goto t (if sp_lock s = 0 then SHeld else SWait) (s\<lparr>sp_lock := 1\<rparr>))"
| lock_wait: "sp_pc s t = SWait \<Longrightarrow> spinlock_step s (sp_goto t (if sp_lock s \<noteq> 0 then SWait else SSwap) s)"
| trylock_call: "sp_pc s t = SpIdle \<Longrightarrow> spinlock_step s (sp_goto t TLoad s)"
| trylock_load: "sp_pc s t = TLoad \<Longrightarrow> spinlock_step s (sp_goto t (if sp_lock s \<noteq> 0 then SpIdle else TSwap) s)"
| trylock_swap: "sp_pc s t = TSwap \<Longrightarrow>
     spinlock_step s (sp_goto t (if sp_lock s = 0 then SHeld else SpIdle) (s\<lparr>sp_lock := 1\<rparr>))"
| unlock: "sp_pc s t = SHeld \<Longrightarrow> spinlock_step s (sp_goto t SpIdle (s\<lparr>sp_lock := 0\<rparr>))"

definition sp_holders :: "spinlock \<Rightarrow> nat set" where
  "sp_holders s = {t. sp_pc s t = SHeld}"

definition sp_inv :: "spinlock \<Rightarrow> bool" where
  "sp_inv s \<longleftrightarrow> (if sp_lock s = 0 then sp_holders s = {} else \<exists>t. sp_holders s = {t})"

lemma holders_goto:
  "sp_holders (sp_goto t p s) = (if p = SHeld then insert t (sp_holders s) else sp_holders s - {t})"
  "sp_holders (s\<lparr>sp_lock := w\<rparr>) = sp_holders s"
  by (auto simp: sp_goto_def sp_holders_def)

lemma holders_same: "sp_pc s t \<noteq> SHeld \<Longrightarrow> p \<noteq> SHeld \<Longrightarrow> sp_holders (sp_goto t p s) = sp_holders s"
  by (auto simp: sp_goto_def sp_holders_def)

lemma sp_goto_lock [simp]: "sp_lock (sp_goto t p s) = sp_lock s"
  by (simp add: sp_goto_def)

lemma sp_inv_step: "sp_inv s \<Longrightarrow> spinlock_step s s' \<Longrightarrow> sp_inv s'"
proof -
  assume inv: "sp_inv s" and step: "spinlock_step s s'"
  from step show "sp_inv s'"
  proof cases
    case (lock_swap t)
    then have "t \<notin> sp_holders s" by (simp add: sp_holders_def)
    with lock_swap inv show ?thesis unfolding sp_inv_def by (simp add: holders_goto split: if_splits)
  next
    case (trylock_swap t)
    then have "t \<notin> sp_holders s" by (simp add: sp_holders_def)
    with trylock_swap inv show ?thesis unfolding sp_inv_def by (simp add: holders_goto split: if_splits)
  next
    case (unlock t)
    then have "t \<in> sp_holders s" by (simp add: sp_holders_def)
    then have "sp_holders s = {t}" using inv unfolding sp_inv_def by (metis emptyE singletonD)
    with unlock show ?thesis unfolding sp_inv_def by (simp add: holders_goto)
  qed (use inv in \<open>simp_all add: sp_inv_def holders_same\<close>)
qed

lemma sp_inv_init: "spinlock_init s \<Longrightarrow> sp_inv s"
  by (simp add: spinlock_init_def sp_inv_def sp_holders_def)

interpretation spinlock: machine spinlock_init spinlock_step sp_inv
  by (rule machine.intro) (erule sp_inv_init, rule sp_inv_step)

section \<open>Properties\<close>

text \<open>
  C27: The readers-writer lock excludes: in every reachable state of every interleaving, a
  thread that has the write lock is the only writer and no thread has a read lock.
\<close>

theorem rwlock_exclusion:
  assumes "reach rwlock_init rwlock_step s"
  shows "rw_pc s t = Writing \<longrightarrow> (rw_pc s u = Writing \<longrightarrow> u = t) \<and> rw_pc s u \<noteq> Reading"
proof (intro impI conjI)
  assume w: "rw_pc s t = Writing"
  have inv: "rw_inv s" by (rule rwlock.reach_inv [OF assms])
  show "rw_pc s u \<noteq> Reading" using inv w unfolding rw_inv_def by blast
  assume u: "rw_pc s u = Writing"
  have "t \<in> owners s" "u \<in> owners s" using w u by (simp_all add: owners_iff)
  with inv show "u = t" unfolding rw_inv_def by (auto split: if_splits)
qed

text \<open>For the witness: thread 0 has taken the write lock.\<close>

definition demo_rw :: "(nat \<Rightarrow> rw_pc) \<Rightarrow> nat \<Rightarrow> rwlock" where
  "demo_rw p w = \<lparr>rw_write = w, rw_read = 0, rw_pc = p\<rparr>"

lemma demo_rw_reach: "reach rwlock_init rwlock_step (demo_rw ((\<lambda>_. RwIdle)(0 := Writing)) 1)"
proof -
  have "reach rwlock_init rwlock_step (demo_rw (\<lambda>_. RwIdle) 0)"
    by (rule reach_init) (simp add: rwlock_init_def demo_rw_def)
  moreover have "rwlock_step (demo_rw (\<lambda>_. RwIdle) 0) (demo_rw ((\<lambda>_. RwIdle)(0 := WCas)) 0)"
    using wlock_call [of "demo_rw (\<lambda>_. RwIdle) 0" 0] by (simp add: demo_rw_def rw_goto_def)
  moreover have "rwlock_step (demo_rw ((\<lambda>_. RwIdle)(0 := WCas)) 0) (demo_rw ((\<lambda>_. RwIdle)(0 := WWait)) 1)"
    using wlock_cas [of "demo_rw ((\<lambda>_. RwIdle)(0 := WCas)) 0" 0] by (simp add: demo_rw_def rw_goto_def)
  moreover have "rwlock_step (demo_rw ((\<lambda>_. RwIdle)(0 := WWait)) 1) (demo_rw ((\<lambda>_. RwIdle)(0 := Writing)) 1)"
    using wlock_wait [of "demo_rw ((\<lambda>_. RwIdle)(0 := WWait)) 1" 0] by (simp add: demo_rw_def rw_goto_def)
  ultimately show ?thesis by (blast intro: reach_step)
qed

lemma rwlock_exclusion_witness: "rw_pc (demo_rw ((\<lambda>_. RwIdle)(0 := Writing)) 1) 1 \<noteq> Reading"
  using rwlock_exclusion [OF demo_rw_reach, of 0 1] by (simp add: demo_rw_def)

text \<open>
  The spin lock, taken by \<open>spinlock_lock\<close> or \<open>spinlock_trylock\<close>, is held by at most one
  thread, and its word is not 0 while it is held.
\<close>

theorem spinlock_exclusion:
  assumes "reach spinlock_init spinlock_step s" "sp_pc s t = SHeld"
  shows "sp_lock s \<noteq> 0 \<and> (\<forall>u. sp_pc s u = SHeld \<longrightarrow> u = t)"
proof -
  have inv: "sp_inv s" by (rule spinlock.reach_inv [OF assms(1)])
  have h: "u \<in> sp_holders s \<longleftrightarrow> sp_pc s u = SHeld" for u by (simp add: sp_holders_def)
  show ?thesis using inv h assms(2) unfolding sp_inv_def by (metis emptyE singletonD)
qed

lemma demo_sp_reach: "reach spinlock_init spinlock_step \<lparr>sp_lock = 1, sp_pc = (\<lambda>_. SpIdle)(0 := SHeld)\<rparr>"
proof -
  have "reach spinlock_init spinlock_step \<lparr>sp_lock = 0, sp_pc = \<lambda>_. SpIdle\<rparr>"
    by (rule reach_init) (simp add: spinlock_init_def)
  moreover have "spinlock_step \<lparr>sp_lock = 0, sp_pc = \<lambda>_. SpIdle\<rparr> \<lparr>sp_lock = 0, sp_pc = (\<lambda>_. SpIdle)(0 := SSwap)\<rparr>"
    using lock_call [of "\<lparr>sp_lock = 0, sp_pc = \<lambda>_. SpIdle\<rparr>" 0] by (simp add: sp_goto_def)
  moreover have "spinlock_step \<lparr>sp_lock = 0, sp_pc = (\<lambda>_. SpIdle)(0 := SSwap)\<rparr> \<lparr>sp_lock = 1, sp_pc = (\<lambda>_. SpIdle)(0 := SHeld)\<rparr>"
    using lock_swap [of "\<lparr>sp_lock = 0, sp_pc = (\<lambda>_. SpIdle)(0 := SSwap)\<rparr>" 0] by (simp add: sp_goto_def)
  ultimately show ?thesis by (blast intro: reach_step)
qed

lemma spinlock_exclusion_witness: "\<exists>s :: spinlock. sp_lock s \<noteq> 0 \<and> sp_pc s 0 = SHeld \<and> sp_pc s 1 \<noteq> SHeld"
proof -
  let ?s = "\<lparr>sp_lock = 1, sp_pc = (\<lambda>_. SpIdle)(0 := SHeld)\<rparr>"
  have h: "sp_pc ?s 0 = SHeld" by simp
  have "sp_lock ?s \<noteq> 0 \<and> (\<forall>u. sp_pc ?s u = SHeld \<longrightarrow> u = 0)" by (rule spinlock_exclusion [OF demo_sp_reach h])
  then have "sp_lock ?s \<noteq> 0" "sp_pc ?s 1 \<noteq> SHeld" by (blast, metis zero_neq_one)
  with h show ?thesis by (intro exI [of _ ?s] conjI)
qed

end
