(* ===== verification/Netpack.thy ===== *)
theory Netpack
  imports Prelude
begin

text \<open>
  \<open>skynet/lualib-src/lua-netpack.c\<close>: the framing of client connections for Lua gates. Each
  package is a 16-bit big-endian size and that many bytes. The userdata \<open>struct queue\<close> holds a
  ring of complete packages and, hashed by fd, the incomplete one of each connection; it is
  created on demand (\<open>None\<close> is the absent userdata). A hash chain is the list of its nodes, a
  buffer the bytes written to it so far. The values on the Lua stack are the \<open>np_ret\<close> values.
\<close>

section \<open>State\<close>

record uncomplete =
  uc_id :: int
  uc_size :: nat
  uc_buffer :: bytes
  uc_read :: int
  uc_header :: u8

record netq =
  nq_cap :: nat
  nq_head :: nat
  nq_tail :: nat
  nq_hash :: "uncomplete list list"
  nq_queue :: "(int \<times> bytes) option list"

datatype np_ret = NpNone | NpData int bytes | NpMore | NpInit int bytes int | NpClose int | NpOpen int bytes
  | NpError int bytes | NpWarning int int

definition QUEUESIZE :: nat where "QUEUESIZE = 1024"
definition HASHSIZE :: nat where "HASHSIZE = 4096"

definition hash_fd :: "int \<Rightarrow> nat" where
  "hash_fd fd = nat ((drop_bit 24 fd + drop_bit 12 fd + fd) mod 2 ^ 32 mod int HASHSIZE)"

text \<open>Unlinking the first node with an id from a chain.\<close>

fun unlink_uc :: "int \<Rightarrow> uncomplete list \<Rightarrow> (uncomplete \<times> uncomplete list) option" where
  "unlink_uc fd [] = None"
| "unlink_uc fd (uc # ucs) =
     (if uc_id uc = fd then Some (uc, ucs)
      else do { (u, ucs) \<leftarrow> unlink_uc fd ucs; Some (u, uc # ucs) })"

definition find_uncomplete :: "netq option \<Rightarrow> int \<Rightarrow> uncomplete option \<times> netq option" where
  "find_uncomplete L fd =
     (case L of
        None \<Rightarrow> (None, None)
      | Some q \<Rightarrow>
          (case unlink_uc fd (nq_hash q ! hash_fd fd) of
             None \<Rightarrow> (None, Some q)
           | Some (uc, ucs) \<Rightarrow> (Some uc, Some (q\<lparr>nq_hash := (nq_hash q)[hash_fd fd := ucs]\<rparr>))))"

definition new_queue :: netq where
  "new_queue = \<lparr>nq_cap = QUEUESIZE, nq_head = 0, nq_tail = 0, nq_hash = replicate HASHSIZE [],
     nq_queue = replicate QUEUESIZE None\<rparr>"

definition get_queue :: "netq option \<Rightarrow> netq" where
  "get_queue L = (case L of Some q \<Rightarrow> q | None \<Rightarrow> new_queue)"

definition np_expand_queue :: "netq \<Rightarrow> netq" where
  "np_expand_queue q =
     \<lparr>nq_cap = nq_cap q + QUEUESIZE, nq_head = 0, nq_tail = nq_cap q, nq_hash = nq_hash q,
      nq_queue = map (\<lambda>i. nq_queue q ! ((nq_head q + i) mod nq_cap q)) [0..<nq_cap q] @ replicate QUEUESIZE None\<rparr>"

definition nq_store :: "int \<times> bytes \<Rightarrow> netq \<Rightarrow> netq option" where
  "nq_store np q = do {
     cells \<leftarrow> wr (nq_queue q) (nq_tail q) np;
     let tail = (if nq_tail q + 1 \<ge> nq_cap q then nq_tail q + 1 - nq_cap q else nq_tail q + 1);
     let q = q\<lparr>nq_queue := cells, nq_tail := tail\<rparr>;
     Some (if nq_head q = nq_tail q then np_expand_queue q else q) }"

definition push_data :: "int \<Rightarrow> bytes \<Rightarrow> netq option \<Rightarrow> netq option option" where
  "push_data fd buffer L = do { q \<leftarrow> nq_store (fd, buffer) (get_queue L); Some (Some q) }"

definition link_uc :: "uncomplete \<Rightarrow> netq \<Rightarrow> netq" where
  "link_uc uc q = q\<lparr>nq_hash := (nq_hash q)[hash_fd (uc_id uc) := uc # nq_hash q ! hash_fd (uc_id uc)]\<rparr>"

text \<open>\<open>save_uncomplete\<close> together with the fields its callers set.\<close>

definition save_header :: "int \<Rightarrow> u8 \<Rightarrow> netq option \<Rightarrow> netq option" where
  "save_header fd header L =
     Some (link_uc \<lparr>uc_id = fd, uc_size = 0, uc_buffer = [], uc_read = - 1, uc_header = header\<rparr> (get_queue L))"

definition save_part :: "int \<Rightarrow> nat \<Rightarrow> bytes \<Rightarrow> netq option \<Rightarrow> netq option" where
  "save_part fd pack_size buffer L =
     Some (link_uc \<lparr>uc_id = fd, uc_size = pack_size, uc_buffer = buffer, uc_read = int (length buffer), uc_header = 0\<rparr> (get_queue L))"

definition read_size :: "bytes \<Rightarrow> nat" where
  "read_size buffer = unat (buffer ! 0) * 2 ^ 8 + unat (buffer ! 1)"

function push_more :: "int \<Rightarrow> bytes \<Rightarrow> netq option \<Rightarrow> netq option option" where
  "push_more fd buffer L =
     (if length buffer = 0 then None
      else if length buffer = 1 then Some (save_header fd (buffer ! 0) L)
      else
        (let pack_size = read_size buffer; body = drop 2 buffer in
         if length body < pack_size then Some (save_part fd pack_size body L)
         else do {
           L \<leftarrow> push_data fd (take pack_size body) L;
           if length body - pack_size > 0 then push_more fd (drop pack_size body) L else Some L }))"
  by pat_completeness auto
termination by (relation "measure (\<lambda>(fd, buffer, L). length buffer)") auto

declare push_more.simps [simp del]

definition close_uncomplete :: "int \<Rightarrow> netq option \<Rightarrow> netq option" where
  "close_uncomplete fd L = snd (find_uncomplete L fd)"

section \<open>Filtering\<close>

text \<open>\<open>fill\<close> is the branch for an incomplete package, once its size is known.\<close>

definition fill :: "int \<Rightarrow> bytes \<Rightarrow> uncomplete \<Rightarrow> netq option \<Rightarrow> (np_ret \<times> netq option) option" where
  "fill fd buffer uc L =
     (let need = uc_size uc - length (uc_buffer uc) in
      if length buffer < need then
        Some (NpNone, map_option (link_uc (uc\<lparr>uc_buffer := uc_buffer uc @ buffer, uc_read := uc_read uc + int (length buffer)\<rparr>)) L)
      else
        (let pack = uc_buffer uc @ take need buffer; rest = drop need buffer in
         if rest = [] then Some (NpData fd pack, L)
         else do {
           L \<leftarrow> push_data fd pack L;
           L \<leftarrow> push_more fd rest L;
           Some (NpMore, L) }))"

definition filter_data :: "int \<Rightarrow> bytes \<Rightarrow> netq option \<Rightarrow> (np_ret \<times> netq option) option" where
  "filter_data fd buffer L = do {
     cassert (buffer \<noteq> []);
     (case find_uncomplete L fd of
        (Some uc, L) \<Rightarrow>
          (if uc_read uc < 0 then do {
             cassert (uc_read uc = - 1);
             let pack_size = unat (buffer ! 0) + unat (uc_header uc) * 2 ^ 8;
             fill fd (drop 1 buffer) (uc\<lparr>uc_size := pack_size, uc_buffer := [], uc_read := 0\<rparr>) L }
           else fill fd buffer uc L)
      | (None, L) \<Rightarrow>
          (if length buffer = 1 then Some (NpNone, save_header fd (buffer ! 0) L)
           else
             (let pack_size = read_size buffer; body = drop 2 buffer in
              if length body < pack_size then Some (NpNone, save_part fd pack_size body L)
              else if length body = pack_size then Some (NpData fd body, L)
              else do {
                L \<leftarrow> push_data fd (take pack_size body) L;
                L \<leftarrow> push_more fd (drop pack_size body) L;
                Some (NpMore, L) }))) }"

definition np_pop :: "netq \<Rightarrow> (netq \<times> (int \<times> bytes) option) option" where
  "np_pop q =
     (if nq_head q = nq_tail q then Some (q, None)
      else do {
        np \<leftarrow> rd (nq_queue q) (nq_head q);
        Some (q\<lparr>nq_head := (if nq_head q + 1 \<ge> nq_cap q then 0 else nq_head q + 1)\<rparr>, Some np) })"

definition lpop :: "netq option \<Rightarrow> (netq option \<times> (int \<times> bytes) option) option" where
  "lpop L = (case L of None \<Rightarrow> Some (None, None) | Some q \<Rightarrow> do { (q, r) \<leftarrow> np_pop q; Some (Some q, r) })"

definition lclear :: "netq option \<Rightarrow> netq option" where
  "lclear L = map_option (\<lambda>q. q\<lparr>nq_hash := replicate HASHSIZE [], nq_head := 0, nq_tail := 0\<rparr>) L"

record np_message =
  nm_type :: nat
  nm_id :: int
  nm_ud :: int
  nm_buffer :: bytes

definition lfilter :: "np_message \<Rightarrow> netq option \<Rightarrow> (np_ret \<times> netq option) option" where
  "lfilter m L =
     (if nm_type m = 1 then filter_data (nm_id m) (nm_buffer m) L
      else if nm_type m = 2 then Some (NpInit (nm_id m) (nm_buffer m) (nm_ud m), L)
      else if nm_type m = 3 then Some (NpClose (nm_id m), close_uncomplete (nm_id m) L)
      else if nm_type m = 4 then Some (NpOpen (nm_ud m) (nm_buffer m), L)
      else if nm_type m = 5 then Some (NpError (nm_id m) (nm_buffer m), close_uncomplete (nm_id m) L)
      else if nm_type m = 7 then Some (NpWarning (nm_id m) (nm_ud m), L)
      else Some (NpNone, L))"

definition write_size :: "nat \<Rightarrow> bytes" where
  "write_size len = [of_nat (len div 2 ^ 8 mod 2 ^ 8), of_nat (len mod 2 ^ 8)]"

definition lpack :: "bytes \<Rightarrow> bytes option" where
  "lpack ptr = (if length ptr \<ge> 0x10000 then None else Some (write_size (length ptr) @ ptr))"

section \<open>The ring of packages\<close>

definition nq_len :: "netq \<Rightarrow> nat" where
  "nq_len q = ring_len (nq_cap q) (nq_head q) (nq_tail q)"

definition nq_cells :: "netq \<Rightarrow> (int \<times> bytes) option list" where
  "nq_cells q = ring (nq_queue q) (nq_cap q) (nq_head q) (nq_len q)"

definition nq_contents :: "netq \<Rightarrow> (int \<times> bytes) list" where
  "nq_contents q = map the (nq_cells q)"

definition nq_inv :: "netq \<Rightarrow> bool" where
  "nq_inv q \<longleftrightarrow> nq_head q < nq_cap q \<and> nq_tail q < nq_cap q \<and> length (nq_queue q) = nq_cap q \<and> None \<notin> set (nq_cells q)"

lemma nq_invD:
  assumes "nq_inv q"
  shows "nq_head q < nq_cap q" "nq_tail q < nq_cap q" "length (nq_queue q) = nq_cap q" "nq_cells q = map Some (nq_contents q)"
  using assms by (auto simp: nq_inv_def nq_contents_def o_def intro!: map_idI [symmetric]) (metis option.collapse)

lemma nq_invI:
  assumes "nq_head q < nq_cap q" "nq_tail q < nq_cap q" "length (nq_queue q) = nq_cap q" "nq_cells q = map Some xs"
  shows "nq_inv q" "nq_contents q = xs"
  using assms by (auto simp: nq_inv_def nq_contents_def o_def)

lemma nq_store_snoc:
  assumes inv: "nq_inv q"
  shows "\<exists>q'. nq_store x q = Some q' \<and> nq_inv q' \<and> nq_contents q' = nq_contents q @ [x] \<and> nq_hash q' = nq_hash q"
proof -
  note D = nq_invD [OF inv]
  let ?c = "nq_cap q" and ?h = "nq_head q" and ?t = "ring_next (nq_cap q) (nq_tail q)"
  let ?q = "q\<lparr>nq_queue := (nq_queue q)[nq_tail q := Some x], nq_tail := ?t\<rparr>"
  have t: "(if nq_tail q + 1 \<ge> ?c then nq_tail q + 1 - ?c else nq_tail q + 1) = ?t"
    using D(2) by (simp add: ring_next_def)
  have store: "nq_store x q = Some (if ?h = ?t then np_expand_queue ?q else ?q)"
    using D(2,3) by (simp only: nq_store_def t Let_def) (simp add: Let_def)
  have cells: "ring ((nq_queue q)[nq_tail q := Some x]) ?c ?h (Suc (nq_len q)) = map Some (nq_contents q @ [x])"
    using ring_store [OF D(1-3), of "Some x"] D(4) by (simp add: nq_cells_def nq_len_def)
  show ?thesis
  proof (cases "?h = ?t")
    case True
    have full: "Suc (nq_len q) = ?c" using ring_len_full [OF D(1,2)] True by (simp add: nq_len_def)
    let ?q' = "np_expand_queue ?q"
    have arr: "nq_queue ?q' = map Some (nq_contents q @ [x]) @ replicate QUEUESIZE None"
      using cells full by (simp add: np_expand_queue_def ring_def del: upt_Suc)
    have len: "length (nq_contents q @ [x]) = ?c" using arg_cong [OF cells, of length] full by simp
    have cc: "nq_cells ?q' = map Some (nq_contents q @ [x])"
      unfolding nq_cells_def nq_len_def arr using len D(1)
      by (simp add: np_expand_queue_def ring_len_def QUEUESIZE_def ring_front del: append_assoc)
    have "nq_inv ?q'" "nq_contents ?q' = nq_contents q @ [x]"
      by (rule nq_invI [where xs = "nq_contents q @ [x]"];
          use cc arr len D(1) in \<open>simp add: np_expand_queue_def QUEUESIZE_def\<close>)+
    with store True show ?thesis by (simp add: np_expand_queue_def)
  next
    case False
    have "ring_len ?c ?h ?t = Suc (nq_len q)"
      using ring_len_next_tail [OF D(1,2)] False by (simp add: nq_len_def)
    then have cc: "nq_cells ?q = map Some (nq_contents q @ [x])"
      using cells by (simp add: nq_cells_def nq_len_def)
    have "0 < ?c" using D(1) by simp
    then have "nq_inv ?q" "nq_contents ?q = nq_contents q @ [x]"
      using nq_invI [of ?q, OF _ _ _ cc] D by simp_all
    with store False show ?thesis by simp
  qed
qed

lemma nq_contents_Nil: "nq_inv q \<Longrightarrow> nq_contents q = [] \<longleftrightarrow> nq_head q = nq_tail q"
proof -
  assume inv: "nq_inv q"
  have "length (nq_contents q) = nq_len q" by (simp add: nq_contents_def nq_cells_def)
  then show ?thesis using ring_len_0 nq_invD(1,2) [OF inv] by (metis length_0_conv nq_len_def)
qed

lemma np_pop_cons:
  assumes inv: "nq_inv q" and ne: "nq_contents q = x # xs"
  shows "\<exists>q'. np_pop q = Some (q', Some x) \<and> nq_inv q' \<and> nq_contents q' = xs \<and> nq_hash q' = nq_hash q"
proof -
  note D = nq_invD [OF inv]
  let ?c = "nq_cap q" and ?h = "ring_next (nq_cap q) (nq_head q)"
  have hd_ne: "nq_head q \<noteq> nq_tail q" using ne nq_contents_Nil [OF inv] by auto
  have "nq_cells q = nq_queue q ! nq_head q # ring (nq_queue q) ?c ?h (ring_len ?c ?h (nq_tail q))"
    by (simp add: nq_cells_def nq_len_def ring_len_next_head [OF D(1,2) hd_ne] ring_Cons [OF D(1)])
  then have x: "nq_queue q ! nq_head q = Some x" and xs: "ring (nq_queue q) ?c ?h (ring_len ?c ?h (nq_tail q)) = map Some xs"
    using D(4) ne by auto
  let ?q' = "q\<lparr>nq_head := ?h\<rparr>"
  have "np_pop q = Some (?q', Some x)"
    using hd_ne x D(1,3) by (simp add: np_pop_def ring_next_def)
  moreover have "nq_inv ?q'" "nq_contents ?q' = xs"
    by (rule nq_invI [where xs = xs]; use D xs in \<open>simp add: nq_cells_def nq_len_def\<close>)+
  ultimately show ?thesis by (intro exI [of _ ?q']) simp
qed

interpretation packages: fifo nq_inv nq_contents nq_store np_pop
proof
  fix q and x :: "int \<times> bytes"
  assume "nq_inv q"
  then show "\<exists>q'. nq_store x q = Some q' \<and> nq_inv q' \<and> nq_contents q' = nq_contents q @ [x]"
    using nq_store_snoc by blast
next
  fix q assume "nq_inv q" "nq_contents q = []"
  then show "\<exists>q'. np_pop q = Some (q', None) \<and> nq_inv q' \<and> nq_contents q' = []"
    using nq_contents_Nil by (auto simp: np_pop_def)
next
  fix q x xs assume "nq_inv q" "nq_contents q = x # xs"
  then show "\<exists>q'. np_pop q = Some (q', Some x) \<and> nq_inv q' \<and> nq_contents q' = xs"
    using np_pop_cons by blast
qed

section \<open>Incomplete packages\<close>

text \<open>The bytes of the stream an incomplete package stands for.\<close>

definition uc_stream :: "uncomplete \<Rightarrow> bytes" where
  "uc_stream uc = (if uc_read uc < 0 then [uc_header uc] else write_size (uc_size uc) @ uc_buffer uc)"

definition uc_ok :: "uncomplete \<Rightarrow> bool" where
  "uc_ok uc \<longleftrightarrow> uc_read uc = - 1 \<or> uc_read uc = int (length (uc_buffer uc)) \<and> length (uc_buffer uc) < uc_size uc \<and> uc_size uc < 65536"

definition hash_ok :: "netq \<Rightarrow> bool" where
  "hash_ok q \<longleftrightarrow> length (nq_hash q) = HASHSIZE
     \<and> (\<forall>h < HASHSIZE. (\<forall>uc \<in> set (nq_hash q ! h). hash_fd (uc_id uc) = h \<and> uc_ok uc) \<and> distinct (map uc_id (nq_hash q ! h)))"

definition np_ok :: "netq option \<Rightarrow> bool" where
  "np_ok L \<longleftrightarrow> (\<forall>q. L = Some q \<longrightarrow> nq_inv q \<and> hash_ok q)"

definition queued :: "netq option \<Rightarrow> (int \<times> bytes) list" where
  "queued L = (case L of None \<Rightarrow> [] | Some q \<Rightarrow> nq_contents q)"

definition uc_find :: "netq \<Rightarrow> int \<Rightarrow> uncomplete option" where
  "uc_find q fd = List.find (\<lambda>u. uc_id u = fd) (nq_hash q ! hash_fd fd)"

definition partial :: "netq option \<Rightarrow> int \<Rightarrow> bytes" where
  "partial L fd = (case L of None \<Rightarrow> [] | Some q \<Rightarrow> (case uc_find q fd of None \<Rightarrow> [] | Some uc \<Rightarrow> uc_stream uc))"

lemma hash_fd_less [simp]: "hash_fd fd < HASHSIZE"
proof -
  have "(drop_bit 24 fd + drop_bit 12 fd + fd) mod 2 ^ 32 mod int HASHSIZE < int HASHSIZE"
    by (rule pos_mod_bound) (simp add: HASHSIZE_def)
  then show ?thesis by (simp add: hash_fd_def nat_less_iff HASHSIZE_def)
qed

lemma hash_okD:
  assumes "hash_ok q"
  shows "length (nq_hash q) = HASHSIZE" "h < HASHSIZE \<Longrightarrow> uc \<in> set (nq_hash q ! h) \<Longrightarrow> hash_fd (uc_id uc) = h \<and> uc_ok uc"
    "h < HASHSIZE \<Longrightarrow> distinct (map uc_id (nq_hash q ! h))"
  using assms unfolding hash_ok_def by blast+

lemma find_Some: "List.find P xs = Some x \<Longrightarrow> x \<in> set xs \<and> P x"
  by (auto simp: find_Some_iff)

lemma uc_stream_ne [simp]: "uc_stream uc \<noteq> []"
  by (simp add: uc_stream_def write_size_def)

lemma unlink_find:
  "distinct (map uc_id ucs) \<Longrightarrow> unlink_uc fd ucs = (case List.find (\<lambda>u. uc_id u = fd) ucs of
      None \<Rightarrow> None | Some u \<Rightarrow> Some (u, filter (\<lambda>u. uc_id u \<noteq> fd) ucs))"
proof (induction ucs)
  case (Cons u ucs)
  have "filter (\<lambda>u. uc_id u \<noteq> fd) ucs = ucs" if "uc_id u = fd"
  proof (rule filter_True, rule ballI)
    fix x assume "x \<in> set ucs"
    then have "uc_id x \<in> set (map uc_id ucs)" by simp
    then show "uc_id x \<noteq> fd" using Cons.prems that by auto
  qed
  with Cons show ?case by (auto split: option.splits)
qed simp

lemma find_filter_other: "k \<noteq> fd \<Longrightarrow> List.find (\<lambda>u. uc_id u = k) (filter (\<lambda>u. uc_id u \<noteq> fd) ucs) = List.find (\<lambda>u. uc_id u = k) ucs"
  by (induction ucs) auto

lemma find_filter_same: "List.find (\<lambda>u. uc_id u = fd) (filter (\<lambda>u. uc_id u \<noteq> fd) ucs) = None"
  by (auto simp: find_None_iff)

lemma find_uncomplete_ok:
  assumes ok: "np_ok L"
  shows "\<exists>u L'. find_uncomplete L fd = (u, L') \<and> np_ok L' \<and> queued L' = queued L \<and> partial L' = (partial L)(fd := [])
    \<and> (L = None \<longleftrightarrow> L' = None)
    \<and> (case u of None \<Rightarrow> partial L fd = [] | Some uc \<Rightarrow> uc_ok uc \<and> uc_id uc = fd \<and> partial L fd = uc_stream uc \<and> L' \<noteq> None)"
proof (cases L)
  case None
  then show ?thesis by (auto simp: find_uncomplete_def partial_def queued_def np_ok_def)
next
  case (Some q)
  then have inv: "nq_inv q" and hok: "hash_ok q" using ok by (auto simp: np_ok_def)
  note H = hash_okD [OF hok]
  let ?h = "hash_fd fd" and ?ucs = "nq_hash q ! hash_fd fd"
  have un: "unlink_uc fd ?ucs = (case uc_find q fd of None \<Rightarrow> None | Some u \<Rightarrow> Some (u, filter (\<lambda>u. uc_id u \<noteq> fd) ?ucs))"
    using unlink_find [OF H(3) [OF hash_fd_less]] by (simp add: uc_find_def)
  show ?thesis
  proof (cases "uc_find q fd")
    case None
    then have p: "partial L fd = []" using Some by (simp add: partial_def)
    then have "partial L = (partial L)(fd := [])" by auto
    with None Some un ok p show ?thesis by (simp add: find_uncomplete_def)
  next
    case (Some u)
    let ?q = "q\<lparr>nq_hash := (nq_hash q)[?h := filter (\<lambda>u. uc_id u \<noteq> fd) ?ucs]\<rparr>"
    have u: "uc_ok u" "uc_id u = fd" using find_Some [OF Some [unfolded uc_find_def]] H(2) [OF hash_fd_less] by auto
    have "hash_ok ?q"
      unfolding hash_ok_def
    proof (intro conjI allI impI ballI)
      fix h uc assume h: "h < HASHSIZE"
      show "distinct (map uc_id (nq_hash ?q ! h))"
        using H(1) H(3) [OF h] h by (cases "h = ?h") (auto simp: distinct_map_filter)
      assume "uc \<in> set (nq_hash ?q ! h)"
      then have "uc \<in> set (nq_hash q ! h)" using H(1) h by (cases "h = ?h") auto
      from H(2) [OF h this] show "hash_fd (uc_id uc) = h" "uc_ok uc" by auto
    qed (use H(1) in simp)
    moreover have "nq_inv ?q" "nq_contents ?q = nq_contents q"
      using inv by (simp_all add: nq_inv_def nq_cells_def nq_len_def nq_contents_def)
    moreover have "uc_find ?q k = (if k = fd then None else uc_find q k)" for k
      using H(1) by (cases "k = fd"; cases "hash_fd k = ?h")
        (simp_all add: uc_find_def find_filter_other find_filter_same)
    ultimately show ?thesis using Some \<open>L = Some q\<close> un u
      by (auto simp: find_uncomplete_def partial_def queued_def np_ok_def fun_eq_iff)
  qed
qed

lemma new_queue_ok: "nq_inv new_queue" "hash_ok new_queue" "nq_contents new_queue = []" "uc_find new_queue fd = None"
proof -
  show "nq_inv new_queue" "nq_contents new_queue = []"
    by (rule nq_invI [where xs = "[]"]; simp add: new_queue_def QUEUESIZE_def nq_cells_def nq_len_def ring_len_def)+
  show "hash_ok new_queue" by (simp add: hash_ok_def new_queue_def)
  have "nq_hash new_queue ! hash_fd fd = []" by (simp add: new_queue_def)
  then show "uc_find new_queue fd = None" by (simp add: uc_find_def)
qed

lemma get_queue_ok:
  assumes "np_ok L"
  shows "nq_inv (get_queue L)" "hash_ok (get_queue L)" "nq_contents (get_queue L) = queued L"
    "partial (Some (get_queue L)) = partial L"
  using assms new_queue_ok by (auto simp: np_ok_def get_queue_def queued_def partial_def fun_eq_iff split: option.splits)

lemma link_ok:
  assumes inv: "nq_inv q" and hok: "hash_ok q" and no: "partial (Some q) (uc_id uc) = []" and uc: "uc_ok uc"
  shows "np_ok (Some (link_uc uc q))" "queued (Some (link_uc uc q)) = nq_contents q"
    "partial (Some (link_uc uc q)) = (partial (Some q))(uc_id uc := uc_stream uc)"
proof -
  note H = hash_okD [OF hok]
  let ?h = "hash_fd (uc_id uc)" and ?q = "link_uc uc q"
  have new: "uc_find q (uc_id uc) = None" using no by (auto simp: partial_def split: option.splits)
  have "hash_ok ?q"
    unfolding hash_ok_def
  proof (intro conjI allI impI ballI)
    show "length (nq_hash ?q) = HASHSIZE" using H(1) by (simp add: link_uc_def)
    fix h x assume h: "h < HASHSIZE"
    show "distinct (map uc_id (nq_hash ?q ! h))"
      using H(1) H(3) [OF h] h new by (cases "h = ?h") (auto simp: link_uc_def uc_find_def find_None_iff)
    assume x: "x \<in> set (nq_hash ?q ! h)"
    show "hash_fd (uc_id x) = h" "uc_ok x"
      using x H(1) H(2) [OF h, of x] h uc by (cases "h = ?h"; auto simp: link_uc_def)+
  qed
  moreover have "nq_inv ?q" "nq_contents ?q = nq_contents q"
    using inv by (simp_all add: nq_inv_def nq_cells_def nq_len_def nq_contents_def link_uc_def)
  moreover have "uc_find ?q k = (if k = uc_id uc then Some uc else uc_find q k)" for k
    using H(1) by (cases "hash_fd k = ?h") (auto simp: uc_find_def link_uc_def)
  ultimately show "np_ok (Some ?q)" "queued (Some ?q) = nq_contents q"
    "partial (Some ?q) = (partial (Some q))(uc_id uc := uc_stream uc)"
    by (auto simp: np_ok_def queued_def partial_def fun_eq_iff)
qed

lemma push_data_ok:
  assumes ok: "np_ok L"
  shows "\<exists>L'. push_data fd p L = Some L' \<and> np_ok L' \<and> queued L' = queued L @ [(fd, p)] \<and> partial L' = partial L"
proof -
  obtain q where q: "nq_store (fd, p) (get_queue L) = Some q" "nq_inv q" "nq_contents q = queued L @ [(fd, p)]"
    "nq_hash q = nq_hash (get_queue L)"
    using nq_store_snoc [OF get_queue_ok(1) [OF ok], of "(fd, p)"] get_queue_ok(3) [OF ok] by auto
  have "hash_ok q" using get_queue_ok(2) [OF ok] q(4) by (simp add: hash_ok_def)
  moreover have "partial (Some q) = partial (Some (get_queue L))" using q(4) by (simp add: partial_def uc_find_def fun_eq_iff)
  ultimately show ?thesis using q get_queue_ok(4) [OF ok] by (auto simp: push_data_def np_ok_def queued_def)
qed

section \<open>Framing\<close>

function packs :: "bytes \<Rightarrow> bytes list \<times> bytes" where
  "packs bs =
     (if length bs < 2 \<or> length bs - 2 < read_size bs then ([], bs)
      else let n = read_size bs; (fs, r) = packs (drop (n + 2) bs) in (take n (drop 2 bs) # fs, r))"
  by pat_completeness auto
termination by (relation "measure length") auto

declare packs.simps [simp del]

lemma packs_append: "packs (a @ b) = (let (fs, r) = packs a; (fs', r') = packs (r @ b) in (fs @ fs', r'))"
proof (induction a rule: packs.induct)
  case (1 a)
  show ?case
  proof (cases "length a < 2 \<or> length a - 2 < read_size a")
    case True
    then show ?thesis by (simp add: packs.simps [of a])
  next
    case False
    then obtain x y c where "a = x # y # c" by (metis Suc_le_length_iff linorder_not_less numeral_2_eq_2)
    then have rs: "read_size (a @ b) = read_size a" by (simp add: read_size_def)
    have le: "read_size a + 2 \<le> length a" using False by linarith
    then have d: "drop (read_size a + 2) (a @ b) = drop (read_size a + 2) a @ b"
      and e: "take (read_size a) (drop 2 (a @ b)) = take (read_size a) (drop 2 a)" by simp_all
    have nl: "\<not> (length (a @ b) < 2 \<or> length (a @ b) - 2 < read_size a)" using le by simp
    have IH: "packs (drop (read_size a + 2) a @ b) =
        (let (fs, r) = packs (drop (read_size a + 2) a); (fs', r') = packs (r @ b) in (fs @ fs', r'))"
      using 1 [OF False refl] by (cases "packs (drop (read_size a + 2) a)") simp
    have "packs (a @ b) = (let (fs, r) = packs (drop (read_size a + 2) a @ b) in (take (read_size a) (drop 2 a) # fs, r))"
      using packs.simps [of "a @ b"] unfolding rs if_not_P [OF nl] d e Let_def .
    also have "\<dots> = (let (fs, r) = packs a; (fs', r') = packs (r @ b) in (fs @ fs', r'))"
      unfolding IH using False by (simp add: packs.simps [of a] Let_def split: prod.splits)
    finally show ?thesis .
  qed
qed

lemma packs_short: "length bs < 2 \<or> length bs - 2 < read_size bs \<Longrightarrow> packs bs = ([], bs)"
  by (simp add: packs.simps [of bs])

lemma packs_step:
  assumes "2 \<le> length bs" "read_size bs \<le> length (drop 2 bs)"
  shows "packs bs = (let (fs, r) = packs (drop (read_size bs) (drop 2 bs)) in (take (read_size bs) (drop 2 bs) # fs, r))"
  using assms by (subst packs.simps) (simp add: Let_def add.commute)

lemma read_size_less: "read_size bs < 65536"
  using unsigned_less [where ?'a = nat, of "bs ! 0"] unsigned_less [where ?'a = nat, of "bs ! 1"]
  by (simp add: read_size_def)

lemma write_read_size: "2 \<le> length bs \<Longrightarrow> write_size (read_size bs) = take 2 bs"
proof -
  assume "2 \<le> length bs"
  then obtain a b cs where bs: "bs = a # b # cs" by (metis Suc_le_length_iff numeral_2_eq_2)
  have "unat b < 256" "unat a < 256"
    using unsigned_less [where ?'a = nat, of a] unsigned_less [where ?'a = nat, of b] by simp_all
  then show ?thesis unfolding bs by (simp add: read_size_def write_size_def)
qed

lemma read_write_size: "n < 65536 \<Longrightarrow> read_size (write_size n @ bs) = n"
  by (simp add: read_size_def write_size_def unat_of_nat take_bit_eq_mod)

lemma push_more_ok:
  "np_ok L \<Longrightarrow> partial L fd = [] \<Longrightarrow> bs \<noteq> [] \<Longrightarrow>
   \<exists>L'. push_more fd bs L = Some L' \<and> np_ok L' \<and> queued L' = queued L @ map (Pair fd) (fst (packs bs))
     \<and> partial L' = (partial L)(fd := snd (packs bs))"
proof (induction "length bs" arbitrary: bs L rule: less_induct)
  case less
  note ok = less.prems(1) and no = less.prems(2)
  note G = get_queue_ok [OF ok]
  consider "length bs = 1" | "2 \<le> length bs" "length (drop 2 bs) < read_size bs" | "2 \<le> length bs" "read_size bs \<le> length (drop 2 bs)"
  proof -
    have "length bs = 1 \<or> 2 \<le> length bs" using less.prems(3) by (cases bs) (auto simp: Suc_le_eq)
    then show thesis using that by (metis not_less)
  qed
  then show ?case
  proof cases
    case 1
    then obtain b where b: "bs = [b]" by (cases bs) auto
    let ?uc = "\<lparr>uc_id = fd, uc_size = 0, uc_buffer = [], uc_read = - 1, uc_header = b\<rparr>"
    have "push_more fd bs L = Some (Some (link_uc ?uc (get_queue L)))"
      unfolding b by (subst push_more.simps) (simp add: save_header_def)
    moreover have "packs bs = ([], bs)" by (rule packs_short) (simp add: b)
    ultimately show ?thesis
      using link_ok [OF G(1,2), of ?uc] G(3,4) no b by (simp add: uc_ok_def uc_stream_def)
  next
    case 2
    have bne: "bs \<noteq> []" "length bs \<noteq> 1" using 2(1) by auto
    let ?uc = "\<lparr>uc_id = fd, uc_size = read_size bs, uc_buffer = drop 2 bs, uc_read = int (length (drop 2 bs)), uc_header = 0\<rparr>"
    have "push_more fd bs L = Some (Some (link_uc ?uc (get_queue L)))"
      using 2 bne by (simp add: push_more.simps [of fd bs] save_part_def Let_def)
    moreover have "packs bs = ([], bs)" by (rule packs_short) (use 2 in auto)
    moreover have "uc_stream ?uc = bs"
      using 2(1) by (simp add: uc_stream_def write_read_size)
    moreover have "uc_ok ?uc" using 2 read_size_less by (simp add: uc_ok_def)
    ultimately show ?thesis
      using link_ok [OF G(1,2), of ?uc] G(3,4) no by simp
  next
    case 3
    let ?n = "read_size bs" and ?rest = "drop (read_size bs) (drop 2 bs)"
    have bne: "bs \<noteq> []" "length bs \<noteq> 1" using 3(1) by auto
    obtain L1 where L1: "push_data fd (take ?n (drop 2 bs)) L = Some L1" "np_ok L1"
      "queued L1 = queued L @ [(fd, take ?n (drop 2 bs))]" "partial L1 = partial L"
      using push_data_ok [OF ok] by blast
    have step: "push_more fd bs L = (if ?rest \<noteq> [] then push_more fd ?rest L1 else Some L1)"
      using 3 bne L1(1) by (cases "length (drop 2 bs) = read_size bs") (simp_all add: push_more.simps [of fd bs] Let_def)
    have p: "packs bs = (let (fs, r) = packs ?rest in (take ?n (drop 2 bs) # fs, r))" by (rule packs_step [OF 3])
    show ?thesis
    proof (cases "?rest = []")
      case True
      then have "packs ?rest = ([], [])" by (simp add: packs_short)
      moreover have "(partial L)(fd := []) = partial L" using no by auto
      ultimately show ?thesis using step True L1 p by simp
    next
      case False
      have "length ?rest < length bs" using 3 by simp
      from less.hyps [OF this L1(2) _ False] L1(4) no obtain L' where
        "push_more fd ?rest L1 = Some L'" "np_ok L'" "queued L' = queued L1 @ map (Pair fd) (fst (packs ?rest))"
        "partial L' = (partial L1)(fd := snd (packs ?rest))" by auto
      with step False L1 p show ?thesis by (simp add: case_prod_beta)
    qed
  qed
qed

lemma packs_one:
  assumes "length d = n" "n < 65536"
  shows "packs (write_size n @ d @ rest) = (let (fs, r) = packs rest in (d # fs, r))"
proof -
  let ?bs = "write_size n @ d @ rest"
  have rs: "read_size ?bs = n" by (rule read_write_size [OF assms(2)])
  have d2: "drop 2 ?bs = d @ rest" "2 \<le> length ?bs" by (simp_all add: write_size_def)
  show ?thesis
    using packs_step [OF d2(2)] assms(1) unfolding rs d2(1) by simp
qed

lemma fill_ok:
  assumes ok: "np_ok L" and L: "L \<noteq> None" and no: "partial L fd = []" and uc: "uc_id uc = fd" "uc_read uc = int (length (uc_buffer uc))"
    "length (uc_buffer uc) \<le> uc_size uc" "uc_size uc < 65536" and p: "packs (write_size (uc_size uc) @ uc_buffer uc @ bs) = (fs, r)"
  shows "\<exists>ret L'. fill fd bs uc L = Some (ret, L') \<and> np_ok L' \<and> partial L' = (partial L)(fd := r)
     \<and> (if fs = [] then ret = NpNone \<and> queued L' = queued L
        else if length fs = 1 \<and> r = [] then ret = NpData fd (hd fs) \<and> queued L' = queued L
        else ret = NpMore \<and> queued L' = queued L @ map (Pair fd) fs)"
proof -
  obtain q where q: "L = Some q" using L by auto
  then have qq: "nq_inv q" "hash_ok q" "queued L = nq_contents q" using ok by (auto simp: np_ok_def queued_def)
  let ?need = "uc_size uc - length (uc_buffer uc)" and ?S = "write_size (uc_size uc) @ uc_buffer uc @ bs"
  have rs: "read_size ?S = uc_size uc" by (rule read_write_size [OF uc(4)])
  have d2: "drop 2 ?S = uc_buffer uc @ bs" "2 \<le> length ?S" by (simp_all add: write_size_def)
  show ?thesis
  proof (cases "length bs < ?need")
    case True
    then have "packs ?S = ([], ?S)" using d2 rs by (intro packs_short) (simp add: write_size_def)
    then have e: "fs = []" "r = ?S" using p by auto
    let ?uc = "uc\<lparr>uc_buffer := uc_buffer uc @ bs, uc_read := uc_read uc + int (length bs)\<rparr>"
    have "uc_ok ?uc" "uc_stream ?uc = ?S" using True uc by (simp_all add: uc_ok_def uc_stream_def)
    with link_ok [OF qq(1,2), of ?uc] no uc(1) q e True qq(3) show ?thesis
      by (simp add: fill_def)
  next
    case False
    let ?pack = "uc_buffer uc @ take ?need bs" and ?rest = "drop ?need bs"
    have "length ?pack = uc_size uc" using False uc(3) by simp
    from packs_one [OF this uc(4), of ?rest] have ps: "packs ?S = (let (fs, r) = packs ?rest in (?pack # fs, r))" by simp
    show ?thesis
    proof (cases "?rest = []")
      case True
      then have "fs = [?pack]" "r = []" using p ps by (simp_all add: packs_short)
      moreover have "(partial L)(fd := []) = partial L" using no by auto
      ultimately show ?thesis using False True ok by (simp add: fill_def Let_def)
    next
      case rne: False
      obtain L1 where L1: "push_data fd ?pack L = Some L1" "np_ok L1" "queued L1 = queued L @ [(fd, ?pack)]" "partial L1 = partial L"
        using push_data_ok [OF ok] by blast
      obtain L2 where L2: "push_more fd ?rest L1 = Some L2" "np_ok L2" "queued L2 = queued L1 @ map (Pair fd) (fst (packs ?rest))"
        "partial L2 = (partial L1)(fd := snd (packs ?rest))"
        using push_more_ok [OF L1(2) _ rne] L1(4) no by auto
      have fr: "fs = ?pack # fst (packs ?rest)" "r = snd (packs ?rest)" using p ps by (auto simp: case_prod_beta)
      have "\<not> (length fs = 1 \<and> r = [])"
      proof
        assume "length fs = 1 \<and> r = []"
        then have "packs ?rest = ([], [])" using fr by (simp add: prod_eq_iff)
        then show False using rne packs.simps [of ?rest] by (auto simp: Let_def split: if_splits prod.splits)
      qed
      with False rne L1 L2 fr show ?thesis by (simp add: fill_def Let_def)
    qed
  qed
qed

lemma filter_data_ok:
  assumes ok: "np_ok L" and ne: "bs \<noteq> []" and p: "packs (partial L fd @ bs) = (fs, r)"
  shows "\<exists>ret L'. filter_data fd bs L = Some (ret, L') \<and> np_ok L' \<and> partial L' = (partial L)(fd := r)
     \<and> (if fs = [] then ret = NpNone \<and> queued L' = queued L
        else if length fs = 1 \<and> r = [] then ret = NpData fd (hd fs) \<and> queued L' = queued L
        else ret = NpMore \<and> queued L' = queued L @ map (Pair fd) fs)"
proof -
  obtain u L1 where f: "find_uncomplete L fd = (u, L1)" "np_ok L1" "queued L1 = queued L" "partial L1 = (partial L)(fd := [])"
    "case u of None \<Rightarrow> partial L fd = [] | Some uc \<Rightarrow> uc_ok uc \<and> uc_id uc = fd \<and> partial L fd = uc_stream uc \<and> L1 \<noteq> None"
    using find_uncomplete_ok [OF ok] by blast
  have no: "partial L1 fd = []" using f(4) by simp
  obtain b bs' where b: "bs = b # bs'" using ne by (cases bs) auto
  show ?thesis
  proof (cases u)
    case (Some uc)
    then have uc: "uc_ok uc" "uc_id uc = fd" "partial L fd = uc_stream uc" "L1 \<noteq> None" using f(5) by auto
    show ?thesis
    proof (cases "uc_read uc < 0")
      case True
      then have r1: "uc_read uc = - 1" using uc(1) by (auto simp: uc_ok_def)
      let ?S = "[uc_header uc, b]"
      let ?uc = "uc\<lparr>uc_size := read_size ?S, uc_buffer := [], uc_read := 0\<rparr>"
      have "write_size (read_size ?S) = ?S" using write_read_size [of ?S] by simp
      then have "packs (write_size (uc_size ?uc) @ uc_buffer ?uc @ bs') = (fs, r)"
        using p uc(3) True b by (simp add: uc_stream_def)
      from fill_ok [OF f(2) uc(4) no _ _ _ _ this] uc(2) read_size_less [of ?S] obtain ret L' where
        "fill fd bs' ?uc L1 = Some (ret, L')" "np_ok L'" "partial L' = (partial L1)(fd := r)"
        "if fs = [] then ret = NpNone \<and> queued L' = queued L1
         else if length fs = 1 \<and> r = [] then ret = NpData fd (hd fs) \<and> queued L' = queued L1
         else ret = NpMore \<and> queued L' = queued L1 @ map (Pair fd) fs" by auto
      moreover have "unat b + unat (uc_header uc) * 2 ^ 8 = read_size ?S" by (simp add: read_size_def)
      ultimately show ?thesis using f Some True r1 b by (simp add: filter_data_def Let_def)
    next
      case False
      then have u2: "uc_read uc = int (length (uc_buffer uc))" "length (uc_buffer uc) < uc_size uc" "uc_size uc < 65536"
        using uc(1) by (auto simp: uc_ok_def)
      have "packs (write_size (uc_size uc) @ uc_buffer uc @ bs) = (fs, r)"
        using p uc(3) False by (simp add: uc_stream_def)
      from fill_ok [OF f(2) uc(4) no uc(2) u2(1) _ u2(3) this] u2(2) obtain ret L' where
        "fill fd bs uc L1 = Some (ret, L')" "np_ok L'" "partial L' = (partial L1)(fd := r)"
        "if fs = [] then ret = NpNone \<and> queued L' = queued L1
         else if length fs = 1 \<and> r = [] then ret = NpData fd (hd fs) \<and> queued L' = queued L1
         else ret = NpMore \<and> queued L' = queued L1 @ map (Pair fd) fs" by auto
      with f Some False ne show ?thesis by (simp add: filter_data_def)
    qed
  next
    case None
    then have pl: "partial L fd = []" using f(5) by simp
    then have p1: "partial L1 = partial L" using f(4) by auto
    have pb: "packs bs = (fs, r)" using p pl by simp
    show ?thesis
    proof (cases "2 \<le> length bs \<and> length (drop 2 bs) = read_size bs")
      case True
      have "packs bs = (let (fs, r) = packs (drop (read_size bs) (drop 2 bs)) in (take (read_size bs) (drop 2 bs) # fs, r))"
        using True by (intro packs_step) auto
      moreover have e: "drop (read_size bs) (drop 2 bs) = []" by (rule drop_all) (use True in linarith)
      have "packs [] = ([], [])" by (simp add: packs_short)
      ultimately have "fs = [drop 2 bs]" "r = []" using pb True unfolding e by simp_all
      moreover have "(partial L)(fd := []) = partial L" using pl by auto
      ultimately show ?thesis using True f(1-3) None p1 ne by (simp add: filter_data_def Let_def)
    next
      case False
      obtain L' where m: "push_more fd bs L1 = Some L'" "np_ok L'" "queued L' = queued L1 @ map (Pair fd) fs"
        "partial L' = (partial L1)(fd := r)"
        using push_more_ok [OF f(2) no ne] pb by auto
      have two: "length bs \<noteq> 1 \<Longrightarrow> 2 \<le> length bs" using ne by (cases bs) (auto simp: Suc_le_eq)
      have body: "filter_data fd bs L = Some (if length bs = 1 \<or> length (drop 2 bs) < read_size bs then NpNone else NpMore, L')"
        using m(1) False f(1) None ne two unfolding push_more.simps [of fd bs]
        by (cases "length bs = 1") (auto simp: filter_data_def Let_def bind_eq_Some_conv split: if_splits)
      have short: "fs = [] \<longleftrightarrow> length bs = 1 \<or> length (drop 2 bs) < read_size bs"
        using pb packs.simps [of bs] ne by (cases bs rule: list.exhaust) (auto simp: Let_def Suc_le_eq not_less split: if_splits prod.splits)
      have "\<not> (length fs = 1 \<and> r = [])"
      proof
        assume a: "length fs = 1 \<and> r = []"
        then have ge: "2 \<le> length bs" "read_size bs \<le> length (drop 2 bs)"
          using short ne by (cases bs; auto simp: Suc_le_eq not_less)+
        let ?rest = "drop (read_size bs) (drop 2 bs)"
        have "packs ?rest = ([], [])" using packs_step [OF ge] pb a by (auto simp: case_prod_beta prod_eq_iff)
        then have "?rest = []" using packs.simps [of ?rest] by (auto simp: Let_def split: if_splits prod.splits)
        then show False using False ge by simp
      qed
      with body m f(3) p1 short show ?thesis by auto
    qed
  qed
qed

section \<open>Interleaved connections\<close>

text \<open>
  The receiver of \<open>lualib/snax/gateserver.lua\<close>: a \<open>data\<close> package is delivered at once, on \<open>more\<close>
  the ring is popped until it is empty.
\<close>

fun np_drain :: "nat \<Rightarrow> netq option \<Rightarrow> ((int \<times> bytes) list \<times> netq option) option" where
  "np_drain 0 L = Some ([], L)"
| "np_drain (Suc n) L = do {
     (L, r) \<leftarrow> lpop L;
     (case r of
        None \<Rightarrow> Some ([], L)
      | Some x \<Rightarrow> do { (xs, L) \<leftarrow> np_drain n L; Some (x # xs, L) }) }"

fun np_serve :: "(int \<times> bytes) list \<Rightarrow> netq option \<Rightarrow> ((int \<times> bytes) list \<times> netq option) option" where
  "np_serve [] L = Some ([], L)"
| "np_serve ((fd, chunk) # cs) L = do {
     (ret, L) \<leftarrow> filter_data fd chunk L;
     (out, L) \<leftarrow> (case ret of
        NpData fd d \<Rightarrow> Some ([(fd, d)], L)
      | NpMore \<Rightarrow> np_drain (Suc (length (queued L))) L
      | _ \<Rightarrow> Some ([], L));
     (out', L) \<leftarrow> np_serve cs L;
     Some (out @ out', L) }"

definition of_fd :: "int \<Rightarrow> (int \<times> 'a) list \<Rightarrow> 'a list" where
  "of_fd fd xs = map snd (filter (\<lambda>x. fst x = fd) xs)"

lemma of_fd_simps [simp]:
  "of_fd fd [] = []"
  "of_fd fd (x # xs) = (if fst x = fd then snd x # of_fd fd xs else of_fd fd xs)"
  "of_fd fd (xs @ ys) = of_fd fd xs @ of_fd fd ys"
  "of_fd fd (map (Pair k) ds) = (if k = fd then ds else [])"
proof -
  show "of_fd fd (map (Pair k) ds) = (if k = fd then ds else [])"
    by (induction ds) (auto simp: of_fd_def)
qed (simp_all add: of_fd_def)

lemma lpop_ok:
  assumes "np_ok L"
  shows "queued L = [] \<Longrightarrow> lpop L = Some (L, None)"
    "queued L = x # xs \<Longrightarrow> \<exists>L'. lpop L = Some (L', Some x) \<and> np_ok L' \<and> queued L' = xs \<and> partial L' = partial L"
proof -
  assume "queued L = []"
  then show "lpop L = Some (L, None)"
    using assms nq_contents_Nil by (auto simp: lpop_def np_pop_def queued_def np_ok_def split: option.splits)
next
  assume q: "queued L = x # xs"
  then obtain q where L: "L = Some q" by (cases L) (auto simp: queued_def)
  then have i: "nq_inv q" "hash_ok q" "nq_contents q = x # xs" using assms q by (auto simp: np_ok_def queued_def)
  obtain q' where q': "np_pop q = Some (q', Some x)" "nq_inv q'" "nq_contents q' = xs" "nq_hash q' = nq_hash q"
    using np_pop_cons [OF i(1,3)] by blast
  have "hash_ok q'" using i(2) q'(4) by (simp add: hash_ok_def)
  moreover have "partial (Some q') = partial (Some q)" using q'(4) by (simp add: partial_def uc_find_def fun_eq_iff)
  ultimately show "\<exists>L'. lpop L = Some (L', Some x) \<and> np_ok L' \<and> queued L' = xs \<and> partial L' = partial L"
    using L q' by (intro exI [of _ "Some q'"]) (simp add: lpop_def np_ok_def queued_def)
qed

lemma np_drain_ok:
  "np_ok L \<Longrightarrow> length (queued L) < n \<Longrightarrow>
   \<exists>L'. np_drain n L = Some (queued L, L') \<and> np_ok L' \<and> queued L' = [] \<and> partial L' = partial L"
proof (induction n arbitrary: L)
  case (Suc n)
  show ?case
  proof (cases "queued L")
    case Nil
    then show ?thesis using Suc.prems lpop_ok(1) by simp
  next
    case (Cons x xs)
    obtain L1 where L1: "lpop L = Some (L1, Some x)" "np_ok L1" "queued L1 = xs" "partial L1 = partial L"
      using lpop_ok(2) [OF Suc.prems(1) Cons] by blast
    obtain L' where "np_drain n L1 = Some (xs, L')" "np_ok L'" "queued L' = []" "partial L' = partial L1"
      using Suc.IH [OF L1(2)] L1(3) Suc.prems(2) Cons by auto
    with L1 Cons show ?thesis by simp
  qed
qed simp

text \<open>One chunk: what is delivered and what is kept, with an empty ring before and after.\<close>

lemma np_serve_chunk:
  assumes ok: "np_ok L" and e: "queued L = []" and ne: "bs \<noteq> []"
  shows "\<exists>L'. np_serve ((fd, bs) # cs) L = do { (out, M) \<leftarrow> np_serve cs L'; Some (map (Pair fd) (fst (packs (partial L fd @ bs))) @ out, M) }
    \<and> np_ok L' \<and> queued L' = [] \<and> partial L' = (partial L)(fd := snd (packs (partial L fd @ bs)))"
proof -
  obtain fs r where p: "packs (partial L fd @ bs) = (fs, r)" by fastforce
  obtain ret L1 where f: "filter_data fd bs L = Some (ret, L1)" "np_ok L1" "partial L1 = (partial L)(fd := r)"
    "if fs = [] then ret = NpNone \<and> queued L1 = queued L
     else if length fs = 1 \<and> r = [] then ret = NpData fd (hd fs) \<and> queued L1 = queued L
     else ret = NpMore \<and> queued L1 = queued L @ map (Pair fd) fs"
    using filter_data_ok [OF ok ne p] by blast
  consider "fs = []" | "length fs = 1" "r = []" | "fs \<noteq> []" "\<not> (length fs = 1 \<and> r = [])" by blast
  then show ?thesis
  proof cases
    case 1
    then show ?thesis using f e p by (intro exI [of _ L1]) (cases "np_serve cs L1"; simp add: case_prod_beta)
  next
    case 2
    then obtain d where "fs = [d]" by (cases fs) auto
    then show ?thesis using 2 f e p by (intro exI [of _ L1]) simp
  next
    case 3
    then have g: "ret = NpMore" "queued L1 = map (Pair fd) fs" using f(4) e by (simp_all split: if_splits)
    obtain L' where "np_drain (Suc (length (queued L1))) L1 = Some (queued L1, L')" "np_ok L'" "queued L' = []" "partial L' = partial L1"
      using np_drain_ok [OF f(2), of "Suc (length (queued L1))"] by auto
    then show ?thesis using f(1-3) g p by (intro exI [of _ L']) (simp del: np_drain.simps)
  qed
qed

lemma np_serve_ok:
  "np_ok L \<Longrightarrow> queued L = [] \<Longrightarrow> [] \<notin> snd ` set cs \<Longrightarrow>
   \<exists>out L'. np_serve cs L = Some (out, L') \<and> np_ok L'
     \<and> (\<forall>fd. packs (partial L fd @ concat (of_fd fd cs)) = (of_fd fd out @ fst (packs (partial L' fd)), snd (packs (partial L' fd)))
           \<and> (packs (partial L fd) = ([], partial L fd) \<longrightarrow> packs (partial L' fd) = ([], partial L' fd)))"
proof (induction cs arbitrary: L)
  case (Cons c cs)
  obtain fd bs where c: "c = (fd, bs)" by fastforce
  obtain L1 where L1: "np_serve (c # cs) L = do { (out, M) \<leftarrow> np_serve cs L1; Some (map (Pair fd) (fst (packs (partial L fd @ bs))) @ out, M) }"
    "np_ok L1" "queued L1 = []" "partial L1 = (partial L)(fd := snd (packs (partial L fd @ bs)))"
    using np_serve_chunk [OF Cons.prems(1,2), of bs fd cs] Cons.prems(3) c by auto
  obtain out L' where o: "np_serve cs L1 = Some (out, L')" "np_ok L'"
    "\<And>k. packs (partial L1 k @ concat (of_fd k cs)) = (of_fd k out @ fst (packs (partial L' k)), snd (packs (partial L' k)))"
    "\<And>k. packs (partial L1 k) = ([], partial L1 k) \<Longrightarrow> packs (partial L' k) = ([], partial L' k)"
    using Cons.IH [OF L1(2,3)] Cons.prems(3) by auto
  let ?out = "map (Pair fd) (fst (packs (partial L fd @ bs))) @ out"
  have rest: "packs (snd (packs xs)) = ([], snd (packs xs))" for xs
  proof -
    have "packs xs = (let (fs, r) = packs xs; (fs', r') = packs r in (fs @ fs', r'))"
      using packs_append [of xs "[]"] by simp
    then show ?thesis by (auto simp: case_prod_beta prod_eq_iff)
  qed
  have "packs (partial L k @ concat (of_fd k (c # cs))) = (of_fd k ?out @ fst (packs (partial L' k)), snd (packs (partial L' k)))
      \<and> (packs (partial L k) = ([], partial L k) \<longrightarrow> packs (partial L' k) = ([], partial L' k))" for k
  proof (cases "k = fd")
    case True
    have "packs ((partial L fd @ bs) @ concat (of_fd fd cs)) = (of_fd fd ?out @ fst (packs (partial L' fd)), snd (packs (partial L' fd)))"
      unfolding packs_append [of "partial L fd @ bs"] using o(3) [of fd] L1(4) by (simp add: case_prod_beta)
    then show ?thesis using True c o(4) [of fd] L1(4) rest by simp
  next
    case False
    then show ?thesis using o(3) [of k] o(4) [of k] L1(4) c by simp
  qed
  moreover have "np_serve (c # cs) L = Some (?out, L')" using L1(1) o(1) by simp
  ultimately show ?case using o(2) by blast
qed (simp add: prod_eq_iff)

text \<open>
  C23: the framing of the Lua gate does not depend on how the bytes of the connections are cut
  and interleaved. Starting without a userdata, feeding any sequence of non-empty chunks of any
  fds succeeds, and what each fd delivers is exactly the complete packages of the concatenation
  of its own chunks, in order.
\<close>

theorem netpack_framing:
  assumes "[] \<notin> snd ` set cs"
  shows "\<exists>out L. np_serve cs None = Some (out, L) \<and> (\<forall>fd. of_fd fd out = fst (packs (concat (of_fd fd cs))))"
proof -
  have n: "np_ok None" "queued None = []" "partial None fd = []" "packs [] = ([], [])" for fd
    by (simp_all add: np_ok_def queued_def partial_def packs_short)
  show ?thesis using np_serve_ok [OF n(1,2) assms] n(3,4) by fastforce
qed

text \<open>Two connections interleaved, one of them cut inside its header.\<close>

theorem netpack_framing_witness:
  "\<exists>out L. np_serve [(3, [0]), (4, [0, 1, 9, 0]), (3, [2, 7, 8]), (4, [1, 5])] None = Some (out, L)
     \<and> (\<forall>fd. of_fd fd out = fst (packs (concat (of_fd fd [(3, [0]), (4, [0, 1, 9, 0]), (3, [2, 7, 8]), (4, [1, 5 :: u8])]))))"
  by (rule netpack_framing) simp

text \<open>
  \<open>lpack\<close> and the framing are inverse: packing messages of less than 64K and concatenating
  the packets yields a stream whose packages are the messages, with nothing left over.
\<close>

theorem netpack_roundtrip:
  assumes "\<And>m. m \<in> set ms \<Longrightarrow> length m < 0x10000"
  shows "packs (concat (map (\<lambda>m. the (lpack m)) ms)) = (ms, [])"
  using assms
proof (induction ms)
  case (Cons m ms)
  then have l: "length m < 65536" by simp
  have "the (lpack m) = write_size (length m) @ m" using l by (simp add: lpack_def)
  then show ?case using packs_one [OF refl l] Cons by simp
qed (simp add: packs_short)

theorem netpack_roundtrip_witness:
  "packs (concat (map (\<lambda>m. the (lpack m)) [[1], [], [2, 3 :: u8]])) = ([[1], [], [2, 3]], [])"
  by (rule netpack_roundtrip) auto

text \<open>
  a chunk from one connection never disturbs another one: \<open>filter_data\<close> keeps the invariant
  of the userdata and leaves the incomplete bytes of every other fd as they were.
\<close>

theorem netpack_isolation:
  assumes "np_ok L" "bs \<noteq> []" "k \<noteq> fd"
  shows "\<exists>ret L'. filter_data fd bs L = Some (ret, L') \<and> np_ok L' \<and> partial L' k = partial L k"
  using filter_data_ok [OF assms(1,2) surjective_pairing, of fd] assms(3) by auto

theorem netpack_isolation_witness:
  "\<exists>ret L'. filter_data 3 [0] (save_header 4 7 None) = Some (ret, L') \<and> np_ok L'
     \<and> partial L' 4 = partial (save_header 4 7 None) 4"
proof (rule netpack_isolation)
  have "uc_ok \<lparr>uc_id = 4, uc_size = 0, uc_buffer = [], uc_read = - 1, uc_header = 7\<rparr>" by (simp add: uc_ok_def)
  moreover have "partial (Some (get_queue None)) 4 = []" using new_queue_ok(4) by (simp add: partial_def get_queue_def)
  ultimately show "np_ok (save_header 4 7 None)"
    using link_ok(1) [of "get_queue None" "\<lparr>uc_id = 4, uc_size = 0, uc_buffer = [], uc_read = - 1, uc_header = 7\<rparr>"] new_queue_ok(1,2)
    by (simp add: save_header_def get_queue_def)
qed simp_all

end
