(* ===== verification/Server.thy ===== *)
theory Server
  imports Context
begin

text \<open>
  The rest of \<open>skynet-src/skynet_server.c\<close>, with \<open>skynet_monitor.c\<close> and \<open>skynet_env.c\<close>: starting
  a service, the worker's dispatch and the text commands.
\<close>

section \<open>The monitor of a worker\<close>

record skynet_monitor =
  sm_version :: u32
  sm_check_version :: u32
  sm_source :: u32
  sm_destination :: u32

definition skynet_monitor_new :: skynet_monitor where
  "skynet_monitor_new = \<lparr>sm_version = 0, sm_check_version = 0, sm_source = 0, sm_destination = 0\<rparr>"

definition skynet_monitor_trigger :: "u32 \<Rightarrow> u32 \<Rightarrow> skynet_monitor \<Rightarrow> skynet_monitor" where
  "skynet_monitor_trigger source destination m =
     m\<lparr>sm_source := source, sm_destination := destination, sm_version := sm_version m + 1\<rparr>"

definition skynet_monitor_check :: "modules \<Rightarrow> skynet_monitor \<Rightarrow> node \<Rightarrow> (skynet_monitor \<times> node) option" where
  "skynet_monitor_check api m nd =
     (if sm_version m = sm_check_version m then
        (if sm_destination m \<noteq> 0 then do {
           nd \<leftarrow> skynet_context_endless api (sm_destination m) nd;
           nd \<leftarrow> skynet_error api None (str ''error: A message from [ :'' @ show_hex8 (sm_source m) @ str '' ] to [ :''
             @ show_hex8 (sm_destination m) @ str '' ] maybe in an endless loop (version = ''
             @ show_int (sint (sm_version m)) @ str '')'') nd;
           Some (m, nd) }
         else Some (m, nd))
      else Some (m\<lparr>sm_check_version := sm_version m\<rparr>, nd))"

section \<open>Starting a service\<close>

definition skynet_context_new :: "modules \<Rightarrow> bytes \<Rightarrow> bytes option \<Rightarrow> node \<Rightarrow> (u32 \<times> node) option" where
  "skynet_context_new api name param nd =
     (case mod_query api name of None \<Rightarrow> Some (0, nd) | Some m \<Rightarrow>
     (case mod_create api m nd of None \<Rightarrow> Some (0, nd) | Some inst \<Rightarrow> do {
        let c = new_ctx api nd;
        let nd = set_ctx c \<lparr>cx_mod = m, cx_inst = inst, cx_cb = None, cx_queue = 0, cx_logfile = None, cx_cpu_cost = 0,
          cx_cpu_start = 0, cx_handle = 0, cx_session_id = 0, cx_ref = 2, cx_message_count = 0, cx_init = False,
          cx_endless = False, cx_profile = nd_profile nd\<rparr> nd;
        (handle, hs) \<leftarrow> skynet_handle_register (ctx_handles nd) c (nd_handles nd);
        let nd = nd\<lparr>nd_handles := hs\<rparr>;
        nd \<leftarrow> upd_ctx c (\<lambda>x. x\<lparr>cx_handle := handle\<rparr>) nd;
        let queue = new_mq api nd;
        nd \<leftarrow> upd_ctx c (\<lambda>x. x\<lparr>cx_queue := queue\<rparr>) (nd\<lparr>nd_mem := mq_alloc queue handle (nd_mem nd)\<rparr>);
        (r, nd) \<leftarrow> mod_init api m inst c param (context_inc nd);
        (if r = 0 then do {
           nd \<leftarrow> upd_ctx c (\<lambda>x. x\<lparr>cx_init := True\<rparr>) nd;
           mem \<leftarrow> skynet_globalmq_push queue (nd_mem nd);
           nd \<leftarrow> skynet_error api (Some c) (str ''LAUNCH '' @ name @ str '' '' @ (case param of None \<Rightarrow> [] | Some p \<Rightarrow> p))
             (nd\<lparr>nd_mem := mem\<rparr>);
           nd \<leftarrow> skynet_context_release api c nd;
           Some (handle, nd) }
         else do {
           nd \<leftarrow> skynet_error api (Some c) (str ''error: launch '' @ name @ str '' FAILED'') nd;
           x \<leftarrow> nd_ctxs nd c;
           nd \<leftarrow> skynet_context_release api c nd;
           (_, nd) \<leftarrow> handle_retire api (cx_handle x) nd;
           nd \<leftarrow> mailbox_release api queue (cx_handle x) nd;
           Some (0, nd) }) }))"

section \<open>Dispatch\<close>

definition dispatch_message :: "modules \<Rightarrow> nat \<Rightarrow> skynet_message \<Rightarrow> node \<Rightarrow> node option" where
  "dispatch_message api c msg nd = do {
     x \<leftarrow> nd_ctxs nd c;
     cassert (cx_init x);
     let nd = nd\<lparr>nd_current := cx_handle x\<rparr>;
     let type = ucast (drop_bit MESSAGE_TYPE_SHIFT (msg_sz msg));
     let sz = msg_sz msg AND MESSAGE_TYPE_MASK;
     cb \<leftarrow> cx_cb x;
     let x = x\<lparr>cx_message_count := cx_message_count x + 1\<rparr>;
     (if cx_profile x then do {
        let nd = set_ctx c (x\<lparr>cx_cpu_start := thread_time api nd\<rparr>) nd;
        (_, nd) \<leftarrow> callback api cb c type (msg_session msg) (msg_source msg) (msg_data msg) sz nd;
        let now = thread_time api nd;
        upd_ctx c (\<lambda>x. x\<lparr>cx_cpu_cost := cx_cpu_cost x + (now - cx_cpu_start x)\<rparr>) nd }
      else do {
        (_, nd) \<leftarrow> callback api cb c type (msg_session msg) (msg_source msg) (msg_data msg) sz (set_ctx c x nd);
        Some nd }) }"

definition mailbox_pop :: "nat \<Rightarrow> node \<Rightarrow> (skynet_message option \<times> node) option" where
  "mailbox_pop p nd = do { (mem, r) \<leftarrow> mq_take p (nd_mem nd); Some (r, nd\<lparr>nd_mem := mem\<rparr>) }"

definition global_pop :: "node \<Rightarrow> (nat option \<times> node) option" where
  "global_pop nd = do { (mem, r) \<leftarrow> skynet_globalmq_pop (nd_mem nd); Some (r, nd\<lparr>nd_mem := mem\<rparr>) }"

partial_function (option) skynet_context_dispatchall :: "modules \<Rightarrow> nat \<Rightarrow> node \<Rightarrow> node option" where
  "skynet_context_dispatchall api c nd = do {
     x \<leftarrow> nd_ctxs nd c;
     (r, nd) \<leftarrow> mailbox_pop (cx_queue x) nd;
     (case r of
        None \<Rightarrow> Some nd
      | Some msg \<Rightarrow> do { nd \<leftarrow> dispatch_message api c msg nd; skynet_context_dispatchall api c nd }) }"

text \<open>What a worker does with a message it has popped.\<close>

definition dispatch_one :: "modules \<Rightarrow> nat \<Rightarrow> nat \<Rightarrow> u32 \<Rightarrow> skynet_message \<Rightarrow> skynet_monitor \<times> node
    \<Rightarrow> (skynet_monitor \<times> node) option" where
  "dispatch_one api c p handle msg = (\<lambda>(mon, nd). do {
     q \<leftarrow> mqs (nd_mem nd) p;
     let (overload, q) = skynet_mq_overload q;
     let nd = nd\<lparr>nd_mem := mq_put p q (nd_mem nd)\<rparr>;
     nd \<leftarrow> (if overload \<noteq> 0
            then skynet_error api (Some c) (str ''error: May overload, message queue length = '' @ show_nat overload) nd
            else Some nd);
     let mon = skynet_monitor_trigger (msg_source msg) handle mon;
     x \<leftarrow> nd_ctxs nd c;
     nd \<leftarrow> (if cx_cb x = None then Some nd else dispatch_message api c msg nd);
     Some (skynet_monitor_trigger 0 0 mon, nd) })"

text \<open>The turns after the first one; \<open>True\<close> when the mailbox ran empty.\<close>

fun dispatch_turns :: "modules \<Rightarrow> nat \<Rightarrow> nat \<Rightarrow> u32 \<Rightarrow> nat \<Rightarrow> skynet_monitor \<times> node
    \<Rightarrow> (bool \<times> skynet_monitor \<times> node) option" where
  "dispatch_turns api c p handle 0 (mon, nd) = Some (False, mon, nd)"
| "dispatch_turns api c p handle (Suc n) (mon, nd) = do {
     (r, nd) \<leftarrow> mailbox_pop p nd;
     (case r of
        None \<Rightarrow> Some (True, mon, nd)
      | Some msg \<Rightarrow> do {
          s \<leftarrow> dispatch_one api c p handle msg (mon, nd);
          dispatch_turns api c p handle n s }) }"

definition skynet_context_message_dispatch ::
    "modules \<Rightarrow> nat option \<Rightarrow> u32 \<Rightarrow> skynet_monitor \<times> node \<Rightarrow> (nat option \<times> skynet_monitor \<times> node) option" where
  "skynet_context_message_dispatch api q weight = (\<lambda>(mon, nd). do {
     (q, nd) \<leftarrow> (case q of Some p \<Rightarrow> Some (Some p, nd) | None \<Rightarrow> global_pop nd);
     (case q of
        None \<Rightarrow> Some (None, mon, nd)
      | Some p \<Rightarrow> do {
          mq \<leftarrow> mqs (nd_mem nd) p;
          let handle = skynet_mq_handle mq;
          (ctx, nd) \<leftarrow> skynet_handle_grab handle nd;
          (case ctx of
             None \<Rightarrow> do {
               nd \<leftarrow> mailbox_release api p handle nd;
               (q, nd) \<leftarrow> global_pop nd;
               Some (q, mon, nd) }
           | Some c \<Rightarrow> do {
               (r, nd) \<leftarrow> mailbox_pop p nd;
               (empty, mon, nd) \<leftarrow>
                 (case r of
                    None \<Rightarrow> Some (True, mon, nd)
                  | Some msg \<Rightarrow> do {
                      mq \<leftarrow> mqs (nd_mem nd) p;
                      let n = (if sint weight \<ge> 0 then skynet_mq_length mq div 2 ^ unat weight else 1);
                      s \<leftarrow> dispatch_one api c p handle msg (mon, nd);
                      dispatch_turns api c p handle (n - 1) s });
               (if empty then do {
                  nd \<leftarrow> skynet_context_release api c nd;
                  (q, nd) \<leftarrow> global_pop nd;
                  Some (q, mon, nd) }
                else do {
                  x \<leftarrow> nd_ctxs nd c;
                  cassert (cx_queue x = p);
                  (nq, nd) \<leftarrow> global_pop nd;
                  (q, nd) \<leftarrow> (case nq of
                     Some p' \<Rightarrow> do { mem \<leftarrow> skynet_globalmq_push p (nd_mem nd); Some (p', nd\<lparr>nd_mem := mem\<rparr>) }
                   | None \<Rightarrow> Some (p, nd));
                  nd \<leftarrow> skynet_context_release api c nd;
                  Some (Some q, mon, nd) }) }) }) })"

section \<open>Commands\<close>

text \<open>\<open>skynet_env.c\<close>: the environment is a table of globals that are set once.\<close>

definition skynet_getenv :: "bytes \<Rightarrow> node \<Rightarrow> bytes option" where
  "skynet_getenv key nd = nd_env nd key"

definition skynet_setenv :: "bytes \<Rightarrow> bytes \<Rightarrow> node \<Rightarrow> node option" where
  "skynet_setenv key val nd = do {
     cassert (nd_env nd key = None);
     Some (nd\<lparr>nd_env := (nd_env nd)(key \<mapsto> val)\<rparr>) }"

definition id_to_hex :: "u32 \<Rightarrow> bytes" where
  "id_to_hex h = str '':'' @ map (\<lambda>i. let d = unat (drop_bit ((7 - i) * 4) h AND 15) in
     if d < 10 then of_nat (48 + d) else of_nat (55 + d)) [0..<8]"

definition skynet_queryname :: "modules \<Rightarrow> nat \<Rightarrow> bytes \<Rightarrow> node \<Rightarrow> (u32 \<times> node) option" where
  "skynet_queryname api c name nd =
     (if ch0 name = 58 then Some (ucast (strtoul 16 (drop 1 name)), nd)
      else if ch0 name = 46 then do { h \<leftarrow> skynet_handle_findname (drop 1 name) (nd_handles nd); Some (h, nd) }
      else do {
        nd \<leftarrow> skynet_error api (Some c) (str ''error: Don't support query global name '' @ name) nd;
        Some (0, nd) })"

definition handle_exit :: "modules \<Rightarrow> nat \<Rightarrow> u32 \<Rightarrow> node \<Rightarrow> node option" where
  "handle_exit api c handle nd = do {
     x \<leftarrow> nd_ctxs nd c;
     let (handle, text) = (if handle = 0 then (cx_handle x, str ''KILL self'') else (handle, str ''KILL :'' @ show_hex handle));
     nd \<leftarrow> skynet_error api (Some c) text nd;
     nd \<leftarrow> (if nd_monitor_exit nd \<noteq> 0
            then do { (_, nd) \<leftarrow> skynet_send api (Some c) handle (nd_monitor_exit nd) PTYPE_CLIENT 0 None 0 nd; Some nd }
            else Some nd);
     (_, nd) \<leftarrow> handle_retire api handle nd;
     Some nd }"

definition tohandle :: "modules \<Rightarrow> nat \<Rightarrow> bytes \<Rightarrow> node \<Rightarrow> (u32 \<times> node) option" where
  "tohandle api c param nd =
     (if ch0 param = 58 then Some (ucast (strtoul 16 (drop 1 param)), nd)
      else if ch0 param = 46 then do { h \<leftarrow> skynet_handle_findname (drop 1 param) (nd_handles nd); Some (h, nd) }
      else do {
        nd \<leftarrow> skynet_error api (Some c) (str ''error: Can't convert '' @ param @ str '' to handle'') nd;
        Some (0, nd) })"

text \<open>A command returns the string or \<open>NULL\<close>; \<open>param\<close> may be \<open>NULL\<close> for some of them.\<close>

type_synonym command = "modules \<Rightarrow> nat \<Rightarrow> bytes option \<Rightarrow> node \<Rightarrow> (bytes option \<times> node) option"

definition cmd_timeout :: command where
  "cmd_timeout api c param nd = do {
     param \<leftarrow> param;
     (session, nd) \<leftarrow> skynet_context_newsession c nd;
     x \<leftarrow> nd_ctxs nd c;
     (_, nd) \<leftarrow> node_timeout api (cx_handle x) (of_int (strtol 10 param)) session nd;
     Some (Some (show_int (sint session)), nd) }"

definition named :: "bool \<times> handle_storage \<Rightarrow> bytes \<Rightarrow> node \<Rightarrow> bytes option \<times> node" where
  "named r name nd = (if fst r then Some name else None, nd\<lparr>nd_handles := snd r\<rparr>)"

definition cmd_reg :: command where
  "cmd_reg api c param nd = do {
     x \<leftarrow> nd_ctxs nd c;
     (if param = None \<or> ch0 (the param) = 0 then Some (Some (str '':'' @ show_hex (cx_handle x)), nd)
      else if ch0 (the param) = 46 then do {
        r \<leftarrow> skynet_handle_namehandle (cx_handle x) (drop 1 (the param)) (nd_handles nd);
        Some (named r (drop 1 (the param)) nd) }
      else do {
        nd \<leftarrow> skynet_error api (Some c) (str ''error: Can't register global name '' @ the param @ str '' in C'') nd;
        Some (None, nd) }) }"

definition cmd_query :: command where
  "cmd_query api c param nd = do {
     param \<leftarrow> param;
     (if ch0 param = 46 then do {
        h \<leftarrow> skynet_handle_findname (drop 1 param) (nd_handles nd);
        Some (if h \<noteq> 0 then Some (str '':'' @ show_hex h) else None, nd) }
      else Some (None, nd)) }"

text \<open>Both words must be there: the code reads them uninitialised otherwise.\<close>

definition cmd_name :: command where
  "cmd_name api c param nd = do {
     param \<leftarrow> param;
     (name, rest) \<leftarrow> scan_word param;
     (handle, _) \<leftarrow> scan_word rest;
     (if ch0 handle \<noteq> 58 then Some (None, nd)
      else
        (let handle_id = ucast (strtoul 16 (drop 1 handle)) in
         if handle_id = 0 then Some (None, nd)
         else if ch0 name = 46 then do {
           r \<leftarrow> skynet_handle_namehandle handle_id (drop 1 name) (nd_handles nd);
           Some (named r (drop 1 name) nd) }
         else do {
           nd \<leftarrow> skynet_error api (Some c) (str ''error: Can't set global name '' @ name @ str '' in C'') nd;
           Some (None, nd) })) }"

definition cmd_exit :: command where
  "cmd_exit api c param nd = do { nd \<leftarrow> handle_exit api c 0 nd; Some (None, nd) }"

definition cmd_kill :: command where
  "cmd_kill api c param nd = do {
     param \<leftarrow> param;
     (handle, nd) \<leftarrow> tohandle api c param nd;
     nd \<leftarrow> (if handle \<noteq> 0 then handle_exit api c handle nd else Some nd);
     Some (None, nd) }"

text \<open>\<open>strsep\<close>: the first token and the rest after its delimiter.\<close>

definition strsep_any :: "bytes \<Rightarrow> bytes option \<Rightarrow> bytes option \<times> bytes option" where
  "strsep_any delims s =
     (case s of
        None \<Rightarrow> (None, None)
      | Some s \<Rightarrow> (Some (takeWhile (\<lambda>b. b \<notin> set delims) s),
          (case dropWhile (\<lambda>b. b \<notin> set delims) s of [] \<Rightarrow> None | _ # r \<Rightarrow> Some r)))"

definition cmd_launch :: command where
  "cmd_launch api c param nd = do {
     param \<leftarrow> param;
     let (module, args) = strsep_any [32, 9, 13, 10] (Some param);
     let (args, _) = strsep_any [13, 10] args;
     module \<leftarrow> module;
     (handle, nd) \<leftarrow> skynet_context_new api module args nd;
     Some (if handle = 0 then None else Some (id_to_hex handle), nd) }"

definition cmd_getenv :: command where
  "cmd_getenv api c param nd = do { param \<leftarrow> param; Some (skynet_getenv param nd, nd) }"

definition cmd_setenv :: command where
  "cmd_setenv api c param nd = do {
     param \<leftarrow> param;
     let key = takeWhile (\<lambda>b. b \<noteq> 32) param;
     (if length key = length param then Some (None, nd)
      else do { nd \<leftarrow> skynet_setenv key (drop (length key + 1) param) nd; Some (None, nd) }) }"

definition cmd_starttime :: command where
  "cmd_starttime api c param nd = Some (Some (show_nat (unat (nd_starttime nd))), nd)"

text \<open>\<open>skynet_handle_retireall\<close>: passes over the slots until one finds them all empty.\<close>

fun retireall_pass :: "modules \<Rightarrow> nat list \<Rightarrow> nat \<Rightarrow> node \<Rightarrow> (nat \<times> node) option" where
  "retireall_pass api [] n nd = Some (n, nd)"
| "retireall_pass api (i # is) n nd =
     (case hs_slot (nd_handles nd) ! i of
        None \<Rightarrow> retireall_pass api is n nd
      | Some c \<Rightarrow> do {
          x \<leftarrow> nd_ctxs nd c;
          nd \<leftarrow> (if cx_handle x \<noteq> 0 then do { (_, nd) \<leftarrow> handle_retire api (cx_handle x) nd; Some nd } else Some nd);
          retireall_pass api is (n + 1) nd })"

partial_function (option) node_retireall :: "modules \<Rightarrow> node \<Rightarrow> node option" where
  "node_retireall api nd = do {
     (n, nd) \<leftarrow> retireall_pass api [0..<hs_slot_size (nd_handles nd)] 0 nd;
     (if n = 0 then Some nd else node_retireall api nd) }"

definition cmd_abort :: command where
  "cmd_abort api c param nd = do { nd \<leftarrow> node_retireall api nd; Some (None, nd) }"

definition cmd_monitor :: command where
  "cmd_monitor api c param nd =
     (if param = None \<or> ch0 (the param) = 0 then
        Some (if nd_monitor_exit nd \<noteq> 0 then Some (str '':'' @ show_hex (nd_monitor_exit nd)) else None, nd)
      else do {
        (handle, nd) \<leftarrow> tohandle api c (the param) nd;
        Some (None, nd\<lparr>nd_monitor_exit := handle\<rparr>) })"

definition cmd_stat :: command where
  "cmd_stat api c param nd = do {
     param \<leftarrow> param;
     x \<leftarrow> nd_ctxs nd c;
     (if param = str ''mqlen'' then do {
        q \<leftarrow> mqs (nd_mem nd) (cx_queue x);
        Some (Some (show_nat (skynet_mq_length q)), nd) }
      else if param = str ''endless'' then
        (if cx_endless x then Some (Some (str ''1''), set_ctx c (x\<lparr>cx_endless := False\<rparr>) nd)
         else Some (Some (str ''0''), nd))
      else if param = str ''cpu'' then Some (Some (show_seconds api (cx_cpu_cost x)), nd)
      else if param = str ''time'' then
        Some (Some (if cx_profile x then show_seconds api (thread_time api nd - cx_cpu_start x) else str ''0''), nd)
      else if param = str ''message'' then Some (Some (show_nat (unat (cx_message_count x))), nd)
      else Some (Some [], nd)) }"

text \<open>The three commands that act on another context hold a reference to it meanwhile.\<close>

definition with_target :: "(nat \<Rightarrow> skynet_context \<Rightarrow> node \<Rightarrow> node option) \<Rightarrow> command" where
  "with_target f api c param nd = do {
     param \<leftarrow> param;
     (handle, nd) \<leftarrow> tohandle api c param nd;
     (if handle = 0 then Some (None, nd)
      else do {
        (ctx, nd) \<leftarrow> skynet_handle_grab handle nd;
        (case ctx of
           None \<Rightarrow> Some (None, nd)
         | Some d \<Rightarrow> do {
             x \<leftarrow> nd_ctxs nd d;
             nd \<leftarrow> f d x nd;
             nd \<leftarrow> skynet_context_release api d nd;
             Some (None, nd) }) }) }"

definition cmd_logon :: command where
  "cmd_logon api = with_target (\<lambda>d x nd.
     Some (if cx_logfile x = None then set_ctx d (x\<lparr>cx_logfile := log_open api (cx_handle x) nd\<rparr>) nd else nd)) api"

definition cmd_logoff :: command where
  "cmd_logoff api = with_target (\<lambda>d x nd. Some (set_ctx d (x\<lparr>cx_logfile := None\<rparr>) nd)) api"

definition cmd_signal :: command where
  "cmd_signal api c param = with_target (\<lambda>d x nd.
     mod_signal api (cx_mod x) (cx_inst x)
       (case dropWhile (\<lambda>b. b \<noteq> 32) (the param) of [] \<Rightarrow> 0 | s \<Rightarrow> of_int (strtol0 s)) nd) api c param"

definition cmd_funcs :: "(bytes \<times> command) list" where
  "cmd_funcs =
     [(str ''TIMEOUT'', cmd_timeout), (str ''REG'', cmd_reg), (str ''QUERY'', cmd_query), (str ''NAME'', cmd_name),
      (str ''EXIT'', cmd_exit), (str ''KILL'', cmd_kill), (str ''LAUNCH'', cmd_launch), (str ''GETENV'', cmd_getenv),
      (str ''SETENV'', cmd_setenv), (str ''STARTTIME'', cmd_starttime), (str ''ABORT'', cmd_abort), (str ''MONITOR'', cmd_monitor), (str ''STAT'', cmd_stat),
      (str ''LOGON'', cmd_logon), (str ''LOGOFF'', cmd_logoff), (str ''SIGNAL'', cmd_signal)]"

definition skynet_command :: "modules \<Rightarrow> nat \<Rightarrow> bytes \<Rightarrow> bytes option \<Rightarrow> node \<Rightarrow> (bytes option \<times> node) option" where
  "skynet_command api c cmd param nd =
     (case map_of cmd_funcs cmd of None \<Rightarrow> Some (None, nd) | Some f \<Rightarrow> f api c param nd)"

section \<open>Starting a service keeps the invariant\<close>

text \<open>
  The hypotheses on the loaded code: the harbor is up, and the init function of a module, run
  with a reference to its context, keeps the invariant and neither moves nor frees the context
  nor replaces the harbor.
\<close>

definition harbor_ok :: "(nat \<Rightarrow> nat) \<Rightarrow> node \<Rightarrow> bool" where
  "harbor_ok ext nd \<longleftrightarrow> nd_harbor nd \<noteq> - 1 \<and> (\<exists>r. nd_remote nd = Some r \<and> 0 < ext r)"

definition init_contract :: "modules \<Rightarrow> bool" where
  "init_contract api \<longleftrightarrow> (\<forall>m inst c param ext h nd x. node_ok ext h nd \<longrightarrow> harbor_ok ext nd \<longrightarrow> nd_ctxs nd c = Some x \<longrightarrow> 0 < ext c \<longrightarrow>
     (\<exists>r nd' x'. mod_init api m inst c param nd = Some (r, nd') \<and> node_ok ext h nd' \<and> nd_harbor nd' = nd_harbor nd
        \<and> nd_remote nd' = nd_remote nd \<and> nd_ctxs nd' c = Some x' \<and> cx_queue x' = cx_queue x \<and> cx_handle x' = cx_handle x))"

lemma drop_message_total:
  assumes ok: "node_ok ext h nd" and hdl: "hdl \<noteq> 0" and hb: "harbor_ok ext nd"
  shows "\<exists>m. drop_message api hdl msg nd = Some (nd\<lparr>nd_mem := m\<rparr>) \<and> node_ok ext h (nd\<lparr>nd_mem := m\<rparr>)"
proof (cases "local_source nd msg")
  case True
  then show ?thesis using drop_message_ok [OF ok hdl True] by blast
next
  case False
  have f: "filter_args None PTYPE_ERROR s None 0 nd = Some (s, None, push_bit MESSAGE_TYPE_SHIFT 7, nd)" for s
    by (simp add: filter_args_def PTYPE_ERROR_def PTYPE_TAG_ALLOCSESSION_def)
  obtain r where r: "nd_remote nd = Some r" "0 < ext r" "nd_harbor nd \<noteq> - 1" using hb by (auto simp: harbor_ok_def)
  obtain x where x: "nd_ctxs nd r = Some x" using ref_ok_alloc [OF node_okD(5) [OF ok]] r(2) by blast
  have src: "msg_source msg \<noteq> 0" "skynet_harbor_message_isremote (msg_source msg) nd = Some True"
    using False r(3) by (auto simp: local_source_def skynet_harbor_message_isremote_def Let_def)
  let ?rm = "Remote \<lparr>rn_name = [], rn_handle = msg_source msg\<rparr> None 0 7"
  let ?sm = "\<lparr>msg_source = hdl, msg_session = msg_session msg, msg_data = Some ?rm,
       msg_sz = REMOTE_SIZE OR push_bit MESSAGE_TYPE_SHIFT (ucast PTYPE_SYSTEM)\<rparr>"
  obtain m where m: "skynet_mq_push (cx_queue x) ?sm (nd_mem nd) = Some m" "node_ok ext h (nd\<lparr>nd_mem := m\<rparr>)"
    using mq_push_ok [OF ok x] by blast
  have "drop_bit MESSAGE_TYPE_SHIFT (push_bit MESSAGE_TYPE_SHIFT 7) = (7 :: u64)" "push_bit MESSAGE_TYPE_SHIFT 7 AND MESSAGE_TYPE_MASK = (0 :: u64)"
    by (simp_all add: MESSAGE_TYPE_SHIFT_def MESSAGE_TYPE_MASK_def)
  then have "drop_message api hdl msg nd = Some (nd\<lparr>nd_mem := m\<rparr>)"
    using hdl src f r(1) x m(1)
    by (simp add: drop_message_def skynet_send_def skynet_harbor_send_def skynet_context_send_def mq_push_def invalid_type_def
        PTYPE_SYSTEM_def PTYPE_HARBOR_def)
  with m(2) show ?thesis by blast
qed

lemma drop_messages_total:
  "node_ok ext h nd \<Longrightarrow> hdl \<noteq> 0 \<Longrightarrow> harbor_ok ext nd \<Longrightarrow>
   \<exists>m. drop_messages api hdl ms nd = Some (nd\<lparr>nd_mem := m\<rparr>) \<and> node_ok ext h (nd\<lparr>nd_mem := m\<rparr>)"
proof (induction ms arbitrary: nd)
  case Nil
  then show ?case by (intro exI [of _ "nd_mem nd"]) simp
next
  case (Cons msg ms)
  obtain m1 where m1: "drop_message api hdl msg nd = Some (nd\<lparr>nd_mem := m1\<rparr>)" "node_ok ext h (nd\<lparr>nd_mem := m1\<rparr>)"
    using drop_message_total [OF Cons.prems] by blast
  have "harbor_ok ext (nd\<lparr>nd_mem := m1\<rparr>)" using Cons.prems(3) by (simp add: harbor_ok_def)
  from Cons.IH [OF m1(2) Cons.prems(2) this] obtain m where
    "drop_messages api hdl ms (nd\<lparr>nd_mem := m1\<rparr>) = Some (nd\<lparr>nd_mem := m\<rparr>)" "node_ok ext h (nd\<lparr>nd_mem := m\<rparr>)" by auto
  with m1(1) show ?case by (intro exI [of _ m]) simp
qed

lemma mailbox_release_total:
  assumes ok: "node_ok ext h nd" and p: "p \<in> set (h t)" and hdl: "hdl \<noteq> 0" and hb: "harbor_ok ext nd"
  shows "\<exists>m. mailbox_release api p hdl nd = Some (nd\<lparr>nd_mem := m\<rparr>) \<and> node_ok ext (h(t := remove1 p (h t))) (nd\<lparr>nd_mem := m\<rparr>)"
proof -
  note D = node_okD [OF ok]
  obtain q where q: "mqs (nd_mem nd) p = Some q" using held_alloc [of "nd_mem nd" h p t, OF D(1) p] by blast
  obtain m1 d where m1: "skynet_mq_release p (nd_mem nd) = Some (m1, d)" "mem_ok m1 (h(t := remove1 p (h t)))"
    "mq_release q = 0 \<Longrightarrow> d = [] \<and> view m1 = view (nd_mem nd)"
    using mem_ok_release [OF D(1) p q] by (auto split: if_splits)
  have "tag m1 (cx_queue x) = tag (nd_mem nd) (cx_queue x)" if x: "nd_ctxs nd c = Some x" for c x
  proof (cases "mq_release q = 0")
    case True
    then show ?thesis using m1(1) q by (auto simp: skynet_mq_release_def bind_eq_Some_conv dest: tag_globalmq_push)
  next
    case False
    then have "cx_queue x \<noteq> p" using ref_okD(3) [OF D(5) x] q by (auto simp: tag_def)
    then show ?thesis using tag_mq_release [OF m1(1) q False] by simp
  qed
  then have ok1: "node_ok ext (h(t := remove1 p (h t))) (nd\<lparr>nd_mem := m1\<rparr>)" by (rule node_ok_tag [OF ok m1(2)])
  have "harbor_ok ext (nd\<lparr>nd_mem := m1\<rparr>)" using hb by (simp add: harbor_ok_def)
  from drop_messages_total [OF ok1 hdl this, of api d] m1(1) show ?thesis by (auto simp: mailbox_release_def)
qed

text \<open>The context as it is when the init function is called.\<close>

lemma new_context_ok:
  assumes ok: "node_ok ext h nd" and c: "nd_ctxs nd c = None"
    and card: "card (live (nd_handles nd)) < 2 ^ 24 - 1" and x0: "cx_handle x0 = 0" "cx_ref x0 = 2"
  shows "\<exists>hdl hs. skynet_handle_register (ctx_handles (set_ctx c x0 nd)) c (nd_handles nd) = Some (hdl, hs) \<and> hdl \<noteq> 0
    \<and> skynet_handle_lookup (ctx_handles nd) hdl (nd_handles nd) = None
    \<and> (\<forall>p t. mqs (nd_mem nd) p = None \<longrightarrow> node_ok (ext(c := 1)) (h(t := p # h t)) (set_ctx c (x0\<lparr>cx_handle := hdl, cx_queue := p\<rparr>)
         (nd\<lparr>nd_handles := hs, nd_mem := mq_alloc p hdl (nd_mem nd)\<rparr>)))"
proof -
  note D = node_okD [OF ok]
  let ?ch = "ctx_handles (set_ctx c x0 nd)"
  have nl: "c \<notin> live (nd_handles nd)" "ext c = 0" using D(5) [of c] c by (simp_all add: ref_ok_def)
  have ch: "?ch = ctx_handles nd" using c x0(1) by (simp add: ctx_handles_def fun_eq_iff)
  obtain k where k: "slots_ok ?ch (nd_handles nd) k" using D(2) unfolding ch by (auto simp: handle_inv_def)
  obtain hdl hs k' where r: "skynet_handle_register ?ch c (nd_handles nd) = Some (hdl, hs)" "slots_ok (?ch(c := hdl)) hs k'"
    "live hs = insert c (live (nd_handles nd))" "\<forall>d \<in> live (nd_handles nd). ?ch d \<noteq> hdl"
    "hs_name hs = hs_name (nd_handles nd)" "hs_name_count hs = hs_name_count (nd_handles nd)"
    "hs_name_cap hs = hs_name_cap (nd_handles nd)" "hdl \<noteq> 0"
    using register_ok [OF k nl(1) room_of_card [OF k card]] by blast
  have "node_ok (ext(c := 1)) (h(t := p # h t)) (set_ctx c (x0\<lparr>cx_handle := hdl, cx_queue := p\<rparr>)
         (nd\<lparr>nd_handles := hs, nd_mem := mq_alloc p hdl (nd_mem nd)\<rparr>))" if p: "mqs (nd_mem nd) p = None" for p t
  proof -
    let ?x = "x0\<lparr>cx_handle := hdl, cx_queue := p\<rparr>"
    let ?nd = "set_ctx c ?x (nd\<lparr>nd_handles := hs, nd_mem := mq_alloc p hdl (nd_mem nd)\<rparr>)"
    have "ctx_handles ?nd = ?ch(c := hdl)" by (auto simp: ctx_handles_def set_ctx_def)
    then have "handle_inv (ctx_handles ?nd) (nd_handles ?nd)" using r(2) by (auto simp: handle_inv_def)
    moreover have "names_ok (nd_handles ?nd)" using D(3) r(5-7) by (simp add: names_ok_def names_def)
    moreover have "mem_ok (nd_mem ?nd) (h(t := p # h t))" using mem_ok_create [OF D(1) p] by simp
    moreover have qne: "cx_queue y \<noteq> p" if "nd_ctxs nd d = Some y" for d y
      using ref_okD(3) [OF D(5) that] p by (auto simp: tag_def)
    moreover have "own_queues ?nd"
      unfolding own_queues_def
    proof (intro allI impI)
      fix a b u v
      assume a: "nd_ctxs ?nd a = Some u" "nd_ctxs ?nd b = Some v" "cx_queue u = cx_queue v"
      show "a = b"
      proof (cases "a = c"; cases "b = c")
        assume "a \<noteq> c" "b \<noteq> c"
        then show ?thesis using a own_queuesD [OF D(4), of a u b v] by simp
      qed (use a in \<open>auto dest: qne\<close>)
    qed
    moreover have "ref_ok (ext(c := 1)) ?nd d" for d
    proof (cases "d = c")
      case True
      then show ?thesis using x0(2) r(3) by (simp add: ref_ok_def mq_alloc_def skynet_mq_create_def)
    next
      case False
      show ?thesis
      proof (cases "nd_ctxs nd d")
        case None
        then show ?thesis using D(5) [of d] False r(3) by (simp add: ref_ok_def)
      next
        case (Some y)
        then show ?thesis using ref_okD [OF D(5) Some] qne [OF Some] False r(3) by (simp add: ref_ok_def mq_alloc_def)
      qed
    qed
    ultimately show ?thesis by (simp add: node_ok_def)
  qed
  moreover have "skynet_handle_lookup (ctx_handles nd) hdl (nd_handles nd) = None"
    using lookup_live_iff [OF D(2), of hdl] r(4) unfolding ch by (metis not_Some_eq)
  ultimately show ?thesis using r(1,8) by blast
qed

lemma harbor_ok_simps [simp]:
  "harbor_ok ext (nd\<lparr>nd_mem := m\<rparr>) = harbor_ok ext nd" "harbor_ok ext (nd\<lparr>nd_logger := l, nd_mem := m\<rparr>) = harbor_ok ext nd"
  "harbor_ok ext (set_ctx c x nd) = harbor_ok ext nd" "harbor_ok ext (nd\<lparr>nd_handles := hs\<rparr>) = harbor_ok ext nd"
  "harbor_ok ext (nd\<lparr>nd_total := n\<rparr>) = harbor_ok ext nd"
  by (simp_all add: harbor_ok_def)

lemma harbor_ok_le: "harbor_ok ext nd \<Longrightarrow> (\<And>c. 0 < ext c \<Longrightarrow> 0 < ext' c) \<Longrightarrow> harbor_ok ext' nd"
  by (auto simp: harbor_ok_def)

lemma release_harbor:
  assumes "skynet_context_release api c nd = Some nd'" "quiet_release api"
  shows "nd_harbor nd' = nd_harbor nd \<and> nd_remote nd' = nd_remote nd"
proof -
  have mr: "mod_release api m i n = Some n" for m i n using assms(2) by (simp add: quiet_release_def)
  show ?thesis using assms(1)
    by (auto simp: skynet_context_release_def delete_context_def mr context_dec_def set_ctx_def bind_eq_Some_conv Let_def split: if_splits)
qed

lemma set_ctx_out [simp]:
  "upd_ctx c f (set_ctx c x nd) = Some (set_ctx c (f x) nd)"
  "(set_ctx c x nd)\<lparr>nd_handles := hs\<rparr> = set_ctx c x (nd\<lparr>nd_handles := hs\<rparr>)"
  "(set_ctx c x nd)\<lparr>nd_mem := m\<rparr> = set_ctx c x (nd\<lparr>nd_mem := m\<rparr>)"
  "context_inc (set_ctx c x nd) = set_ctx c x (context_inc nd)"
  by (simp_all add: upd_ctx_def set_ctx_def context_inc_def)

lemma retire_harbor:
  assumes "handle_retire api hdl nd = Some (b, nd')" "quiet_release api"
  shows "nd_harbor nd' = nd_harbor nd \<and> nd_remote nd' = nd_remote nd"
  using assms(1) by (auto simp: handle_retire_def bind_eq_Some_conv Let_def dest!: release_harbor [OF _ assms(2)] split: option.splits)

lemma error_total:
  assumes "node_ok ext h nd" "nd_ctxs nd c = Some x"
  obtains l m where "skynet_error api (Some c) text nd = Some (nd\<lparr>nd_logger := l, nd_mem := m\<rparr>)"
    "node_ok ext h (nd\<lparr>nd_logger := l, nd_mem := m\<rparr>)"
  using error_ok [OF assms(1), of "Some c" api "text"] assms(2) that by auto


lemma endless_ok:
  assumes ok: "node_ok ext h nd" and c: "skynet_handle_lookup (ctx_handles nd) hdl (nd_handles nd) = Some c"
  obtains x where "nd_ctxs nd c = Some x" "skynet_context_endless api hdl nd = Some (set_ctx c (x\<lparr>cx_endless := True\<rparr>) nd)"
    "node_ok ext h (set_ctx c (x\<lparr>cx_endless := True\<rparr>) nd)"
proof -
  obtain x where x: "nd_ctxs nd c = Some x"
    "skynet_handle_grab hdl nd = Some (Some c, set_ctx c (x\<lparr>cx_ref := cx_ref x + 1\<rparr>) nd)" using grab_ok [OF ok, of hdl] c by auto
  have p: "0 < cx_ref x" using ref_okD(2) [OF node_okD(5) [OF ok] x(1)] .
  have "skynet_context_endless api hdl nd = Some (set_ctx c (x\<lparr>cx_endless := True\<rparr>) nd)"
    using x p by (simp add: skynet_context_endless_def skynet_context_release_def Let_def) (simp add: set_ctx_def)
  moreover have "node_ok (ext(c := ext c)) h (set_ctx c (x\<lparr>cx_endless := True\<rparr>) nd)"
    by (rule node_ok_set_ctx [OF ok x(1)]) (use p in simp_all)
  ultimately show thesis using that x(1) by simp
qed

text \<open>
  The monitor finds a stuck service and only a stuck one. After a worker has begun a message
  for a live service, the first check records the version and the second one, if the worker has
  not moved, marks the service as endless and reports it; if the worker has moved, the second
  check changes nothing but the recorded version.
\<close>

theorem monitor_finds_stall:
  assumes ok: "node_ok ext h nd" and c: "skynet_handle_lookup (ctx_handles nd) dst (nd_handles nd) = Some c"
    and dst: "dst \<noteq> 0" and v: "sm_check_version m \<noteq> sm_version m + 1"
  shows "\<exists>m1 nd' x. skynet_monitor_check api (skynet_monitor_trigger src dst m) nd = Some (m1, nd)
     \<and> skynet_monitor_check api m1 nd = Some (m1, nd') \<and> node_ok ext h nd' \<and> nd_ctxs nd' c = Some x \<and> cx_endless x
     \<and> skynet_monitor_check api (skynet_monitor_trigger s' d' m1) nd
         = Some ((skynet_monitor_trigger s' d' m1)\<lparr>sm_check_version := sm_version m + 2\<rparr>, nd)"
proof -
  let ?m = "skynet_monitor_trigger src dst m"
  let ?m1 = "?m\<lparr>sm_check_version := sm_version ?m\<rparr>"
  have 1: "skynet_monitor_check api ?m nd = Some (?m1, nd)" using v by (simp add: skynet_monitor_check_def skynet_monitor_trigger_def)
  obtain x where x: "nd_ctxs nd c = Some x" "skynet_context_endless api dst nd = Some (set_ctx c (x\<lparr>cx_endless := True\<rparr>) nd)"
    "node_ok ext h (set_ctx c (x\<lparr>cx_endless := True\<rparr>) nd)" by (rule endless_ok [OF ok c])
  obtain l k where e: "\<And>t. \<exists>l k. skynet_error api None t (set_ctx c (x\<lparr>cx_endless := True\<rparr>) nd)
      = Some ((set_ctx c (x\<lparr>cx_endless := True\<rparr>) nd)\<lparr>nd_logger := l, nd_mem := k\<rparr>)
      \<and> node_ok ext h ((set_ctx c (x\<lparr>cx_endless := True\<rparr>) nd)\<lparr>nd_logger := l, nd_mem := k\<rparr>)"
    using error_ok [OF x(3), of None api] by blast
  let ?t = "str ''error: A message from [ :'' @ show_hex8 src @ str '' ] to [ :'' @ show_hex8 dst
    @ str '' ] maybe in an endless loop (version = '' @ show_int (sint (sm_version m + 1)) @ str '')''"
  obtain l k where lk: "skynet_error api None ?t (set_ctx c (x\<lparr>cx_endless := True\<rparr>) nd)
      = Some ((set_ctx c (x\<lparr>cx_endless := True\<rparr>) nd)\<lparr>nd_logger := l, nd_mem := k\<rparr>)"
    "node_ok ext h ((set_ctx c (x\<lparr>cx_endless := True\<rparr>) nd)\<lparr>nd_logger := l, nd_mem := k\<rparr>)" using e [of ?t] by blast
  have 2: "skynet_monitor_check api ?m1 nd = Some (?m1, (set_ctx c (x\<lparr>cx_endless := True\<rparr>) nd)\<lparr>nd_logger := l, nd_mem := k\<rparr>)"
    using x(2) lk(1) dst by (simp add: skynet_monitor_check_def skynet_monitor_trigger_def)
  have 3: "skynet_monitor_check api (skynet_monitor_trigger s' d' ?m1) nd
         = Some ((skynet_monitor_trigger s' d' ?m1)\<lparr>sm_check_version := sm_version m + 2\<rparr>, nd)"
    by (simp add: skynet_monitor_check_def skynet_monitor_trigger_def)
  have n: "nd_ctxs ((set_ctx c (x\<lparr>cx_endless := True\<rparr>) nd)\<lparr>nd_logger := l, nd_mem := k\<rparr>) c = Some (x\<lparr>cx_endless := True\<rparr>)" by simp
  show ?thesis by (rule exI, rule exI, rule exI, intro conjI, rule 1, rule 2, rule lk(2), rule n, simp, rule 3)
qed

theorem monitor_finds_stall_witness:
  "\<exists>m1 nd' x. skynet_monitor_check demo_api m1 demo_node = Some (m1, nd') \<and> nd_ctxs nd' 10 = Some x \<and> cx_endless x"
  using monitor_finds_stall [OF demo_node_ok demo_lookup(1), where m = skynet_monitor_new and api = demo_api and src = 7 and s' = 0 and d' = 0]
  by (auto simp: skynet_monitor_new_def)

text \<open>
  What is sent is what the service sees: dispatching a message made by \<open>skynet_send\<close> of a
  size below 2^56 calls the callback with the type, session, source, bytes and size given to
  \<open>skynet_send\<close>, and counts it.
\<close>

theorem dispatch_roundtrip:
  assumes x: "nd_ctxs nd c = Some x" "cx_init x" "cx_cb x = Some cb" "\<not> cx_profile x" and sz: "sz AND MESSAGE_TYPE_MASK = sz"
  shows "dispatch_message api c \<lparr>msg_source = source, msg_session = session, msg_data = data,
       msg_sz = sz OR push_bit MESSAGE_TYPE_SHIFT (ucast (type AND 0xff))\<rparr> nd
     = do { (_, nd') \<leftarrow> callback api cb c (type AND 0xff) session source data sz
              (set_ctx c (x\<lparr>cx_message_count := cx_message_count x + 1\<rparr>) (nd\<lparr>nd_current := cx_handle x\<rparr>)); Some nd' }"
proof -
  have u: "ucast (ucast (type AND 0xff) :: u64) = type AND 0xff"
    by (rule bit_word_eqI) (auto simp: bit_simps)
  show ?thesis unfolding dispatch_message_def skynet_message.select_convs typed_size [OF sz] u Let_def using x by simp
qed

theorem dispatch_roundtrip_witness:
  "dispatch_message demo_api 10 \<lparr>msg_source = 3, msg_session = 4, msg_data = None, msg_sz = 5 OR push_bit MESSAGE_TYPE_SHIFT (ucast (6 AND 0xff :: u32))\<rparr>
     (set_ctx 10 (demo_ctx\<lparr>cx_cb := Some 0\<rparr>) demo_node)
   = do { (_, nd') \<leftarrow> callback demo_api 0 10 (6 AND 0xff) 4 3 None 5
          (set_ctx 10 (demo_ctx\<lparr>cx_cb := Some 0, cx_message_count := cx_message_count demo_ctx + 1\<rparr>)
            ((set_ctx 10 (demo_ctx\<lparr>cx_cb := Some 0\<rparr>) demo_node)\<lparr>nd_current := cx_handle demo_ctx\<rparr>)); Some nd' }"
  by (subst dispatch_roundtrip [where x = "demo_ctx\<lparr>cx_cb := Some 0\<rparr>"]) (simp_all add: demo_ctx_def MESSAGE_TYPE_MASK_def)

text \<open>A node whose service 10 is the harbor; a module whose init function fails.\<close>

definition demo_harbor :: node where
  "demo_harbor = (set_ctx 10 (demo_ctx\<lparr>cx_ref := 2\<rparr>) demo_node)\<lparr>nd_remote := Some 10\<rparr>"

definition demo_launch :: modules where
  "demo_launch = demo_api\<lparr>mod_query := (\<lambda>_. Some 0), mod_create := (\<lambda>_ _. Some 0), mod_init := (\<lambda>_ _ _ _ nd. Some (1, nd))\<rparr>"


end
