(* ===== verification/Spec2Isabelle.thy ===== *)
theory Spec2Isabelle
  imports CString Context CryptSpec Des Endian HarborInv SocketRaceSpec SeriSpec Sha1Spec DataBuffer Gate GlobalQueue Handle HashId Locks MessageQueue Netpack Prelude Scheduler Server SocketMessage Timer
begin

text \<open>
  A model of the C code of the game server, that is of the skynet framework it runs on
  (\<open>src/skynet/\<close>; the game itself is written in Lua on top of it), with its correctness proofs.

  \<^bold>\<open>The program.\<close> Skynet is an actor system. A service is a context with a handle and a mailbox;
  worker threads take mailboxes that have messages from a global queue and run the callback of
  their service; a timer thread and a socket thread put messages into mailboxes; the gate service
  and the Lua gate (netpack) cut the bytes of client connections into frames; the harbor service
  carries messages to other nodes. Lua values travel between services in the format of lua-seri,
  and clients log in with the primitives of lua-crypt.

  \<^bold>\<open>Theories and sources\<close> (file names under \<open>src/skynet/\<close>).
  \<^item> \<open>Prelude\<close>: machine types, the abort monad, ring buffers, and the interfaces as locales:
    \<open>fifo\<close> (a queue), \<open>codec\<close> (a self-delimiting format), \<open>machine\<close> (a state machine with an
    invariant), \<open>slot_table\<close> (keys in numbered slots). Each is interpreted by the components that
    provide it: \<open>fifo\<close> by the mailbox, the package queue and the harbor queue, \<open>codec\<close> by lua-seri,
    \<open>machine\<close> by the scheduler, both locks, the socket server and its senders, \<open>slot_table\<close> by the socket hash of the gate.
  \<^item> \<open>CString\<close>, \<open>SocketMessage\<close>, \<open>Endian\<close>: the C string functions, \<open>skynet-src/skynet_socket.h\<close>,
    numbers as bytes.
  \<^item> \<open>MessageQueue\<close>, \<open>GlobalQueue\<close>: \<open>skynet-src/skynet_mq.c\<close>, one mailbox and the linked list of
    mailboxes in an explicit store. \<open>Scheduler\<close>: all interleavings of senders, workers, creators and
    deleters, one critical section a step.
  \<^item> \<open>Handle\<close>: \<open>skynet-src/skynet_handle.c\<close>. \<open>Timer\<close>: \<open>skynet-src/skynet_timer.c\<close>. \<open>Locks\<close>:
    \<open>skynet-src/rwlock.h\<close> and \<open>spinlock.h\<close>, one atomic access a step.
  \<^item> \<open>Context\<close>: \<open>skynet-src/skynet_server.c\<close> (reference counts, sending), \<open>skynet_harbor.c\<close>,
    \<open>skynet_error.c\<close>. \<open>Server\<close>: the rest of \<open>skynet_server.c\<close> (launch, dispatch, text commands),
    \<open>skynet_monitor.c\<close>, \<open>skynet_env.c\<close>.
  \<^item> \<open>Socket\<close>, \<open>SocketCmd\<close>, \<open>SocketApi\<close>: \<open>skynet-src/socket_server.c\<close>: slots and write queues; the requests
    and events of the socket thread; the calls of the services. \<open>SocketInv\<close>: the invariant of a slot,
    handler by handler. \<open>SocketRun\<close>: runs of the whole server and the loop \<open>socket_server_poll\<close>.
    \<open>SocketSpec\<close>: its properties, with computed runs. \<open>SocketFlow\<close>: what writing the queues does to the
    bytes. \<open>SocketRace\<close>, \<open>SocketRaceSpec\<close>: services that send at the same time as the socket thread
    writes, one access to what they share a step.
  \<^item> \<open>HashId\<close>, \<open>DataBuffer\<close>, \<open>Gate\<close>: \<open>service-src/hashid.h\<close>, \<open>databuffer.h\<close>, \<open>service_gate.c\<close>.
    \<open>Netpack\<close>: \<open>lualib-src/lua-netpack.c\<close>.
  \<^item> \<open>Harbor\<close>: \<open>service-src/service_harbor.c\<close>; \<open>HarborSpec\<close> and \<open>HarborInv\<close>: its proofs.
  \<^item> \<open>Seri\<close>, \<open>SeriSpec\<close>: \<open>lualib-src/lua-seri.c\<close>. \<open>Des\<close>, \<open>Crypt\<close>, \<open>CryptSpec\<close>: \<open>lualib-src/lua-crypt.c\<close>.
    \<open>Sha1\<close>, \<open>Sha1Spec\<close>: \<open>lualib-src/lsha1.c\<close>.

  \<^bold>\<open>How the code is modelled.\<close> A struct is a record, a C function a HOL function on it that returns
  the new state; \<open>None\<close> is a failed assert, an access outside a block, a read of memory nobody wrote or
  a null pointer. Integers keep their width (\<open>u8\<close>, \<open>u32\<close>, \<open>u64\<close>) where the code computes with them;
  lengths and indices that stay far below the range of their C type are natural numbers. Calls that
  leave the modelled code (sending, sockets, logging, freeing in the services) are lists of output
  events; what the framework, the modules, the clocks and the Lua runtime answer are arguments of the
  definitions. The kernel under the socket server is a script: what each system call and each wait of the
  poller answers, in order; the properties hold for every script. There a call of a service and a round of
  the socket thread are one step each (in \<open>SocketRace\<close>, each access of a sender), so no direct write is under
  way when the thread takes the lock of a socket; \<open>inc_sending_ref\<close> is \<open>None\<close> where it would spin; a service closes only ids it was given.
  Loops are structural recursions where they are; where they could run on,
  \<open>partial_function\<close>, so that termination is part of what the theorems say.

  \<^bold>\<open>What the lemmas show.\<close> For the core: no message of a mailbox is lost, duplicated or reordered and no
  mailbox with messages is ever forgotten by the workers, under all interleavings; at most one worker
  runs a service at a time; the handle table is a finite map with sorted names; a timer fires exactly
  at its tick; a sent message is delivered with its type and session, or its sender gets an error;
  contexts live as long as they are referenced. For the edges: what a service receives does not depend
  on how the network cuts the stream (gate, netpack, harbor); the harbor service delivers in order
  between nodes and neither loses nor frees twice a buffer; serialising and encrypting round-trip; SHA-1
  and HMAC are the standard's. For the socket server, over all runs: the slots are well-formed and every
  reserved slot is opened by exactly one request, the counts of queued bytes are exact, the asserts of the
  write path hold for TCP, a close is reported once, the poll loop ends; and under all interleavings of the
  senders of a connected socket, the wire carries whole messages, each sender's in its order, none lost,
  with no wake-up of the socket thread forgotten. A few theorems state defects of the code, the ones in the list of
  findings.

  \<^bold>\<open>Bounds and fuel.\<close> \<open>luaseri_unpack\<close> recurses with fuel \<open>4 * n + 4\<close> for a buffer of \<open>n\<close> bytes: every step
  reads at least one byte, and \<open>luaseri_unpack_ends\<close> shows that it never runs out. The loop that pads a
  SHA-1 message runs at most 64 times. The probing of the handle table tries every slot once. All
  other loops are structural, or shown to end.

  \<^bold>\<open>Not modelled.\<close> Of the socket server, the wrappers of epoll and kqueue, which only call the system.
  \<open>skynet_socket.c\<close> wraps its reports into messages. Cluster packing, sproto, the shared objects
  (multicast, stm) and the documents of the Lua bindings are codecs and containers over Lua tables.
  Start-up, log files, dynamic loading and the allocator hooks are calls of the system; the Lua bindings move
  values between the Lua stack and code modelled here. Lua, jemalloc, lpeg, md5, cjson, SRP, KCP and
  pbc are vendored libraries, and the services in Lua are outside a model of the C code.
\<close>

end
